(* ===== verification/Prelude.thy ===== *)
theory Prelude
  imports Main "HOL-Library.Word"
begin

text \<open>
  Prelude of the kronked-os verification library: the machine types the kernel's C code uses,
  the fact collections that carry the component proofs, and generic lemmas on lists, searches
  and words shared by the component theories.

  C's \<open>unsigned char\<close>, \<open>unsigned short\<close>, \<open>unsigned int\<close> and \<open>unsigned long long\<close> of the i386
  target are words of 8, 16, 32 and 64 bits. A C \<open>char\<close> is a HOL \<open>char\<close> (one byte) and a
  NUL-terminated string is its list of characters before the terminator.
\<close>

unbundle bit_operations_syntax

type_synonym u8 = "8 word"
type_synonym u16 = "16 word"
type_synonym u32 = "32 word"
type_synonym u64 = "64 word"

text \<open>A physical or kernel-virtual address.\<close>

type_synonym addr = u32

text \<open>
  \<open>kinv\<close> collects invariant-preservation facts, \<open>kspec\<close> the functional facts of operations.
\<close>

named_theorems kinv
named_theorems kspec

section \<open>Searching an index range\<close>

text \<open>
  A C loop \<open>for (i = 0; i < n; i++) if (P(i)) return i;\<close> is \<open>find P [0..<n]\<close>.
\<close>

lemma find_upt_Some_iff:
  "find P [0..<n] = Some i \<longleftrightarrow> i < n \<and> P i \<and> (\<forall>j<i. \<not> P j)"
  by (auto simp: find_Some_iff)

lemma find_upt_None_iff: "find P [0..<n] = None \<longleftrightarrow> (\<forall>i<n. \<not> P i)"
  by (auto simp: find_None_iff)

lemma find_upt_SomeI:
  "i < n \<Longrightarrow> P i \<Longrightarrow> (\<And>j. j < i \<Longrightarrow> \<not> P j) \<Longrightarrow> find P [0..<n] = Some i"
  by (simp add: find_upt_Some_iff)

section \<open>Lists\<close>

lemma nth_rotate_map:
  "map (\<lambda>k. f (Suc k)) [0..<n] = tl (map f [0..<Suc n])"
  by (rule nth_equalityI) (auto simp: nth_tl simp del: upt_Suc)

lemma remove1_append_distinct: "distinct (xs @ ys) \<Longrightarrow> a \<in> set ys \<Longrightarrow> remove1 a (xs @ ys) = xs @ remove1 a ys"
  by (auto simp: remove1_append)

lemma distinct_snoc_remove1: "distinct xs \<Longrightarrow> distinct (remove1 a xs @ [a])"
  by auto

lemma take_take_append: "take n (take n a @ b) = take n (a @ b)"
  by (cases "length a \<le> n") auto

section \<open>Words\<close>

lemma bit_shift_one_iff: "bit (push_bit k (1 :: 'a::len word)) n \<longleftrightarrow> n = k \<and> k < LENGTH('a)"
  by (auto simp: push_bit_of_1 bit_exp_iff)

lemma and_shift_one_eq_0_iff:
  "k < LENGTH('a) \<Longrightarrow> (w AND push_bit k (1 :: 'a::len word)) = 0 \<longleftrightarrow> \<not> bit w k"
  by (rule iffI, metis bit_and_iff bit_shift_one_iff bit_0_eq bot_apply bot_bool_def,
    rule bit_word_eqI) (auto simp: bit_and_iff push_bit_of_1 bit_exp_iff)

lemma unat_add_lt: "unat a + unat b < 2 ^ LENGTH('a) \<Longrightarrow> unat (a + b :: 'a::len word) = unat a + unat b"
  by (simp add: unat_word_ariths)

lemma unat_sub_le: "b \<le> a \<Longrightarrow> unat (a - b :: 'a::len word) = unat a - unat b"
  by (simp add: unat_sub)

section \<open>Text\<close>

text \<open>The bytes of a string literal.\<close>

definition text_bytes :: "string \<Rightarrow> u8 list" where
  "text_bytes = map of_char"

end
