(* ===== verification/Ring.thy ===== *)
theory Ring
  imports Prelude
begin

text \<open>
  The circular buffers of the kernel. \<open>keyboard.c\<close> (256 slots) and \<open>task.c\<close> (64 slots per task)
  implement the same discipline: a head that is written, a tail that is read, one slot kept
  empty to tell a full buffer from an empty one. This theory states the queue such a buffer
  stands for (\<open>ring_contents\<close>), the two list facts every push and pop rests on, and the
  interface \<open>bounded_fifo\<close> that the keyboard and the task input queue provide.
\<close>

section \<open>The queue held in a circular buffer\<close>

definition ring_contents :: "nat \<Rightarrow> 'c list \<Rightarrow> nat \<Rightarrow> nat \<Rightarrow> 'c list" where
  "ring_contents n buf h t = map (\<lambda>k. buf ! ((t + k) mod n)) [0..<(h + n - t) mod n]"

definition ring_wf :: "nat \<Rightarrow> 'c list \<Rightarrow> nat \<Rightarrow> nat \<Rightarrow> bool" where
  "ring_wf n buf h t \<longleftrightarrow> 1 < n \<and> length buf = n \<and> h < n \<and> t < n"

lemma ring_count:
  assumes "h < (n::nat)" "t < n"
  shows "(h + n - t) mod n = (if t \<le> h then h - t else h + n - t)"
proof (cases "t \<le> h")
  case True
  with assms mod_add_self2[of "h - t" n] show ?thesis by simp
qed (use assms in auto)

lemma ring_index: "(t::nat) < n \<Longrightarrow> i < n \<Longrightarrow> (t + i) mod n = (if t + i < n then t + i else t + i - n)"
  by (simp add: mod_if)

lemma ring_next: "(h::nat) < n \<Longrightarrow> Suc h mod n = (if Suc h = n then 0 else Suc h)"
  by (simp add: mod_Suc)

lemma ring_length [simp]:
  "ring_wf n buf h t \<Longrightarrow> length (ring_contents n buf h t) = (if t \<le> h then h - t else h + n - t)"
  by (simp add: ring_contents_def ring_wf_def ring_count)

lemma ring_length_bound: "ring_wf n buf h t \<Longrightarrow> length (ring_contents n buf h t) \<le> n - 1"
  by (auto simp: ring_wf_def)

lemma ring_full_iff:
  "ring_wf n buf h t \<Longrightarrow> Suc h mod n = t \<longleftrightarrow> length (ring_contents n buf h t) = n - 1"
  by (auto simp: ring_wf_def mod_Suc)

lemma ring_empty_iff: "ring_wf n buf h t \<Longrightarrow> h = t \<longleftrightarrow> ring_contents n buf h t = []"
  by (auto simp: ring_wf_def ring_contents_def ring_count)

lemma ring_wf_step [simp]:
  "ring_wf n buf h t \<Longrightarrow> ring_wf n (buf[i := c]) (Suc h mod n) t"
  "ring_wf n buf h t \<Longrightarrow> ring_wf n buf h (Suc t mod n)"
  by (auto simp: ring_wf_def)

lemma ring_push:
  assumes wf: "ring_wf n buf h t" and room: "Suc h mod n \<noteq> t"
  shows "ring_contents n (buf[h := c]) (Suc h mod n) t = ring_contents n buf h t @ [c]"
proof (rule nth_equalityI)
  have n: "h < n" "t < n" "length buf = n" "1 < n" using wf by (auto simp: ring_wf_def)
  define k where "k = (if t \<le> h then h - t else h + n - t)"
  have k: "(h + n - t) mod n = k" using n by (simp add: ring_count k_def)
  have next_lt: "Suc h mod n < n" using n by simp
  have cnt: "(Suc h mod n + n - t) mod n = Suc k"
    unfolding ring_count[OF next_lt n(2)] using n room
    by (cases "Suc h = n") (auto simp: ring_next k_def)
  have k_lt: "Suc k < n" using n room by (cases "Suc h = n") (auto simp: ring_next k_def)
  have at_h: "(t + k) mod n = h" using n k_lt by (auto simp: ring_index k_def)
  have before_h: "(t + i) mod n \<noteq> h" if "i < k" for i
    using n that k_lt by (auto simp: ring_index k_def split: if_splits)
  show "length (ring_contents n (buf[h := c]) (Suc h mod n) t) =
      length (ring_contents n buf h t @ [c])"
    by (simp add: ring_contents_def cnt k)
  fix i assume "i < length (ring_contents n (buf[h := c]) (Suc h mod n) t)"
  then have i: "i < Suc k" by (simp add: ring_contents_def cnt)
  show "ring_contents n (buf[h := c]) (Suc h mod n) t ! i = (ring_contents n buf h t @ [c]) ! i"
  proof (cases "i = k")
    case True
    then show ?thesis using n at_h by (simp add: ring_contents_def cnt k nth_append del: upt_Suc)
  next
    case False
    then show ?thesis using i before_h[of i]
      by (simp add: ring_contents_def cnt k nth_append del: upt_Suc)
  qed
qed

lemma ring_pop:
  assumes wf: "ring_wf n buf h t" and ne: "h \<noteq> t"
  shows "ring_contents n buf h t = buf ! t # ring_contents n buf h (Suc t mod n)"
proof (rule nth_equalityI)
  have n: "h < n" "t < n" "1 < n" using wf by (auto simp: ring_wf_def)
  let ?k = "(h + n - Suc t mod n) mod n"
  have next_lt: "Suc t mod n < n" using n by simp
  have cnt: "(h + n - t) mod n = Suc ?k"
    unfolding ring_count[OF n(1,2)] ring_count[OF n(1) next_lt] using n ne
    by (cases "Suc t = n") (auto simp: ring_next)
  show "length (ring_contents n buf h t) =
      length (buf ! t # ring_contents n buf h (Suc t mod n))"
    by (simp add: ring_contents_def cnt)
  fix i assume "i < length (ring_contents n buf h t)"
  then have i: "i < Suc ?k" by (simp add: ring_contents_def cnt)
  show "ring_contents n buf h t ! i = (buf ! t # ring_contents n buf h (Suc t mod n)) ! i"
    using i n by (cases i) (auto simp: ring_contents_def cnt mod_add_left_eq simp del: upt_Suc)
qed

section \<open>The interface of a bounded queue that drops what does not fit\<close>

text \<open>Reading \<open>n\<close> elements one after the other.\<close>

primrec drain :: "('s \<Rightarrow> 'c \<times> 's) \<Rightarrow> nat \<Rightarrow> 's \<Rightarrow> 'c list \<times> 's" where
  "drain pop 0 s = ([], s)"
| "drain pop (Suc n) s =
     (let (c, s') = pop s; (cs, s'') = drain pop n s' in (c # cs, s''))"

locale bounded_fifo =
  fixes inv :: "'s \<Rightarrow> bool" and contents :: "'s \<Rightarrow> 'c list" and cap :: nat
    and push :: "'c \<Rightarrow> 's \<Rightarrow> 's" and pop :: "'s \<Rightarrow> 'c \<times> 's"
  assumes bounded: "inv s \<Longrightarrow> length (contents s) \<le> cap"
    and push_inv: "inv s \<Longrightarrow> inv (push c s)"
    and push_contents: "inv s \<Longrightarrow> contents (push c s) = take cap (contents s @ [c])"
    and pop_inv: "inv s \<Longrightarrow> contents s \<noteq> [] \<Longrightarrow> inv (snd (pop s))"
    and pop_contents: "inv s \<Longrightarrow> contents s \<noteq> [] \<Longrightarrow>
      contents s = fst (pop s) # contents (snd (pop s))"
begin

lemma pushes_inv: "inv s \<Longrightarrow> inv (fold push cs s)"
  by (induction cs arbitrary: s) (auto intro: push_inv)

lemma pushes_contents: "inv s \<Longrightarrow> contents (fold push cs s) = take cap (contents s @ cs)"
proof (induction cs arbitrary: s)
  case Nil
  then show ?case using bounded by simp
next
  case (Cons c cs)
  then have "contents (fold push (c # cs) s) = take cap (take cap (contents s @ [c]) @ cs)"
    by (simp add: push_inv push_contents)
  also have "\<dots> = take cap (contents s @ c # cs)"
    by (cases "length (contents s @ [c]) \<le> cap") auto
  finally show ?case .
qed

lemma drain_contents:
  "inv s \<Longrightarrow> n \<le> length (contents s) \<Longrightarrow>
    fst (drain pop n s) = take n (contents s) \<and>
    contents (snd (drain pop n s)) = drop n (contents s) \<and> inv (snd (drain pop n s))"
proof (induction n arbitrary: s)
  case 0
  then show ?case by simp
next
  case (Suc n)
  then have ne: "contents s \<noteq> []" by auto
  note pop = pop_contents[OF Suc.prems(1) ne] and inv' = pop_inv[OF Suc.prems(1) ne]
  have "n \<le> length (contents (snd (pop s)))" using Suc.prems(2) pop by (metis Suc_le_mono length_Cons)
  from Suc.IH[OF inv' this] pop show ?case
    by (cases "contents s") (auto simp: split_def Let_def)
qed

text \<open>
  First in, first out: after any sequence of pushes, reading back as many elements as were
  stored returns the oldest elements, in order; what did not fit is dropped.
\<close>

lemma fifo:
  assumes "inv s"
  shows "fst (drain pop (length (take cap (contents s @ cs))) (fold push cs s))
    = take cap (contents s @ cs)"
proof -
  have "fst (drain pop (length (contents (fold push cs s))) (fold push cs s))
      = contents (fold push cs s)"
    using drain_contents[OF pushes_inv[OF assms], of "length (contents (fold push cs s))" cs] by simp
  then show ?thesis by (simp only: pushes_contents[OF assms])
qed

end

end
