(* ===== verification/Memory.thy ===== *)
theory Memory
  imports Prelude
begin

text \<open>
  Byte-addressed memory, as the kernel reaches it through pointers: \<open>*(unsigned int *)a\<close> is
  \<open>load32 m a\<close> (little endian), and page directories, page tables and frames are arrays of
  32-bit entries inside it. The second half gives the laws of an entry array (\<open>entry_store\<close>,
  interpreted on the byte memory), which is all that the paging code relies on.
\<close>

type_synonym memory = "addr \<Rightarrow> u8"

definition load32 :: "memory \<Rightarrow> addr \<Rightarrow> u32" where
  "load32 m a = push_bit 24 (ucast (m (a + 3))) OR push_bit 16 (ucast (m (a + 2)))
     OR push_bit 8 (ucast (m (a + 1))) OR ucast (m a)"

definition store32 :: "memory \<Rightarrow> addr \<Rightarrow> u32 \<Rightarrow> memory" where
  "store32 m a v = m(a := ucast v, a + 1 := ucast (drop_bit 8 v),
     a + 2 := ucast (drop_bit 16 v), a + 3 := ucast (drop_bit 24 v))"

definition load64 :: "memory \<Rightarrow> addr \<Rightarrow> u64" where
  "load64 m a = push_bit 32 (ucast (load32 m (a + 4))) OR ucast (load32 m a)"

definition aligned4 :: "addr \<Rightarrow> bool" where
  "aligned4 a \<longleftrightarrow> 4 dvd unat a"

definition page_aligned :: "addr \<Rightarrow> bool" where
  "page_aligned p \<longleftrightarrow> 4096 dvd unat p"

section \<open>Load after store\<close>

lemma aligned4_offset:
  assumes "aligned4 a" "i < 4"
  shows "unat (a + of_nat i) = unat a + i"
proof -
  obtain k where k: "unat a = 4 * k" using assms(1) by (auto simp: aligned4_def)
  have "unat a < 2 ^ 32" using unsigned_less[of a] by simp
  with k have "unat a + 4 \<le> 2 ^ 32" by simp
  with assms(2) show ?thesis
    by (subst unat_add_lt) (auto simp: unat_of_nat)
qed

lemma aligned4_offset_eq:
  assumes "aligned4 a" "aligned4 b" "i < 4" "j < 4" "a + of_nat i = b + of_nat j"
  shows "a = b \<and> i = j"
proof -
  have eq: "unat a + i = unat b + j"
    using assms aligned4_offset[of a i] aligned4_offset[of b j] by simp
  obtain k l where kl: "unat a = 4 * k" "unat b = 4 * l"
    using assms(1,2) unfolding aligned4_def dvd_def by blast
  from eq kl assms(3,4) have "i = j" by presburger
  with eq show ?thesis by (simp add: word_unat_eq_iff)
qed

lemma word_bytes_eq:
  "push_bit 24 (ucast (ucast (drop_bit 24 v) :: u8)) OR push_bit 16 (ucast (ucast (drop_bit 16 v) :: u8))
     OR push_bit 8 (ucast (ucast (drop_bit 8 v) :: u8)) OR ucast (ucast v :: u8) = (v :: u32)"
proof (rule bit_word_eqI)
  fix n assume "n < LENGTH(32)"
  then consider "n < 8" | "8 \<le> n" "n < 16" | "16 \<le> n" "n < 24" | "24 \<le> n" "n < 32"
    by (cases "n < 8"; cases "n < 16"; cases "n < 24") (simp_all add: not_less)
  then show "bit (push_bit 24 (ucast (ucast (drop_bit 24 v) :: u8))
      OR push_bit 16 (ucast (ucast (drop_bit 16 v) :: u8))
      OR push_bit 8 (ucast (ucast (drop_bit 8 v) :: u8)) OR ucast (ucast v :: u8) :: u32) n = bit v n"
    by cases (auto simp: bit_or_iff bit_push_bit_iff bit_ucast_iff bit_drop_bit_eq)
qed

lemma load32_store32_same [simp]: "load32 (store32 m a v) a = v"
proof -
  have ne: "a + 1 \<noteq> a" "a + 2 \<noteq> a" "a + 3 \<noteq> a" "a + 2 \<noteq> a + 1" "a + 3 \<noteq> a + 1" "a + 3 \<noteq> a + 2"
    by auto
  then show ?thesis
    by (simp add: load32_def store32_def word_bytes_eq ne[symmetric])
qed

lemma load32_store32_other:
  assumes "aligned4 a" "aligned4 b" "a \<noteq> b"
  shows "load32 (store32 m a v) b = load32 m b"
proof -
  have ne: "b + of_nat j \<noteq> a + of_nat i" if "i < 4" "j < 4" for i j
    using aligned4_offset_eq[OF assms(1,2) that] assms(3) by metis
  have "(store32 m a v) (b + of_nat j) = m (b + of_nat j)" if "j < 4" for j
    using ne[of 0 j] ne[of 1 j] ne[of 2 j] ne[of 3 j] that by (simp add: store32_def)
  from this[of 0] this[of 1] this[of 2] this[of 3] show ?thesis by (simp add: load32_def)
qed

section \<open>Arrays of 1024 entries in a page\<close>

text \<open>\<open>entry p i\<close> is \<open>&((unsigned int *)p)[i]\<close>.\<close>

definition entry :: "addr \<Rightarrow> nat \<Rightarrow> addr" where
  "entry p i = p + of_nat (4 * i)"

lemma unat_entry:
  assumes "page_aligned p" "i < 1024"
  shows "unat (entry p i) = unat p + 4 * i"
proof -
  obtain k where k: "unat p = 4096 * k" using assms(1) by (auto simp: page_aligned_def)
  have "unat p < 2 ^ 32" using unsigned_less[of p] by simp
  with k have "unat p + 4096 \<le> 2 ^ 32" by simp
  moreover have "unat (of_nat (4 * i) :: u32) = 4 * i"
    using assms(2) by (simp add: unat_of_nat del: of_nat_mult)
  ultimately show ?thesis
    unfolding entry_def using assms(2) by (subst unat_add_lt) (simp_all del: of_nat_mult)
qed

lemma entry_aligned4: "page_aligned p \<Longrightarrow> i < 1024 \<Longrightarrow> aligned4 (entry p i)"
  by (auto simp: aligned4_def unat_entry page_aligned_def intro: dvd_add dvd_trans[of 4 4096])

lemma entry_eq_iff:
  assumes "page_aligned p" "page_aligned q" "i < 1024" "j < 1024"
  shows "entry p i = entry q j \<longleftrightarrow> p = q \<and> i = j"
proof
  assume "entry p i = entry q j"
  then have eq: "unat p + 4 * i = unat q + 4 * j" using assms by (metis unat_entry)
  have off: "(unat r + 4 * k) mod 4096 = 4 * k" if "page_aligned r" "k < 1024" for r k
    using that by (auto simp: page_aligned_def elim!: dvdE)
  have "i = j" using off[of p i] off[of q j] assms eq by simp
  with eq show "p = q \<and> i = j" by (simp add: word_unat_eq_iff)
qed auto

definition get_entry :: "memory \<Rightarrow> addr \<Rightarrow> nat \<Rightarrow> u32" where
  "get_entry m p i = load32 m (entry p i)"

definition set_entry :: "addr \<Rightarrow> nat \<Rightarrow> u32 \<Rightarrow> memory \<Rightarrow> memory" where
  "set_entry p i v m = store32 m (entry p i) v"

text \<open>
  The interface of a store of entry arrays: what the paging code relies on when it reads and
  writes \<open>table[i]\<close>.
\<close>

locale entry_store =
  fixes arr :: "'p \<Rightarrow> bool" and bound :: nat
    and get :: "'m \<Rightarrow> 'p \<Rightarrow> nat \<Rightarrow> 'v" and put :: "'p \<Rightarrow> nat \<Rightarrow> 'v \<Rightarrow> 'm \<Rightarrow> 'm"
  assumes get_put: "arr p \<Longrightarrow> arr q \<Longrightarrow> i < bound \<Longrightarrow> j < bound \<Longrightarrow>
    get (put p i v m) q j = (if p = q \<and> i = j then v else get m q j)"
begin

text \<open>Filling the first \<open>n\<close> entries from a function, as the copy and zeroing loops do.\<close>

lemma fill:
  "arr p \<Longrightarrow> arr q \<Longrightarrow> n \<le> bound \<Longrightarrow> j < bound \<Longrightarrow>
    get (fold (\<lambda>i. put p i (f i)) [0..<n] m) q j = (if p = q \<and> j < n then f j else get m q j)"
  by (induction n) (auto simp: get_put less_Suc_eq)

lemma fill_from:
  assumes "arr p" "arr q" "a \<le> n" "n \<le> bound" "j < bound"
  shows "get (fold (\<lambda>i. put p i (f i)) [a..<n] m) q j
    = (if p = q \<and> a \<le> j \<and> j < n then f j else get m q j)"
  using assms(3,4) by (induction n rule: dec_induct) (auto simp: get_put assms less_Suc_eq)

end

interpretation word_mem: entry_store page_aligned 1024 get_entry set_entry
proof unfold_locales
  fix p q :: addr and i j :: nat and v :: u32 and m
  assume a: "page_aligned p" "page_aligned q" "i < 1024" "j < 1024"
  show "get_entry (set_entry p i v m) q j = (if p = q \<and> i = j then v else get_entry m q j)"
  proof (cases "p = q \<and> i = j")
    case True
    then show ?thesis by (simp add: get_entry_def set_entry_def)
  next
    case False
    then have "entry p i \<noteq> entry q j" using a entry_eq_iff by blast
    with a False show ?thesis
      by (auto simp: get_entry_def set_entry_def load32_store32_other entry_aligned4)
  qed
qed

section \<open>Bytes of a page\<close>

lemma unat_page_byte:
  assumes "page_aligned p" "b < 4096"
  shows "unat (p + of_nat b) = unat p + b"
proof -
  obtain k where k: "unat p = 4096 * k" using assms(1) by (auto simp: page_aligned_def)
  have "unat p < 2 ^ 32" using unsigned_less[of p] by simp
  with k have "unat p + 4096 \<le> 2 ^ 32" by simp
  moreover have "unat (of_nat b :: addr) = b" using assms(2) by (simp add: unat_of_nat)
  ultimately show ?thesis using assms(2) by (subst unat_add_lt) simp_all
qed

lemma page_byte_eq_iff:
  assumes "page_aligned p" "page_aligned q" "b < 4096" "c < 4096"
  shows "p + of_nat b = q + of_nat c \<longleftrightarrow> p = q \<and> b = c"
proof
  assume "p + of_nat b = q + of_nat c"
  then have eq: "unat p + b = unat q + c" using assms by (metis unat_page_byte)
  have off: "(unat r + k) mod 4096 = k" if "page_aligned r" "k < 4096" for r k
    using that by (auto simp: page_aligned_def elim!: dvdE)
  have "b = c" using off[of p b] off[of q c] assms eq by simp
  with eq show "p = q \<and> b = c" by (simp add: word_unat_eq_iff)
qed auto

lemma entry_bytes: "entry p i + of_nat k = p + of_nat (4 * i + k)"
  by (simp add: entry_def)

lemma get_entry_bytes_cong:
  assumes "\<And>b. b < 4096 \<Longrightarrow> m (q + of_nat b) = m' (q + of_nat b)" "i < 1024"
  shows "get_entry m q i = get_entry m' q i"
proof -
  have "m (entry q i + of_nat k) = m' (entry q i + of_nat k)" if "k < 4" for k
    unfolding entry_bytes by (rule assms(1)) (use assms(2) that in simp)
  from this[of 0] this[of 1] this[of 2] this[of 3] show ?thesis
    by (simp add: get_entry_def load32_def)
qed

lemma set_entry_other_page:
  assumes "page_aligned p" "page_aligned q" "p \<noteq> q" "i < 1024" "b < 4096"
  shows "set_entry p i v m (q + of_nat b) = m (q + of_nat b)"
proof -
  have "q + of_nat b \<noteq> entry p i + of_nat k" if "k < 4" for k
    unfolding entry_bytes using page_byte_eq_iff[of q p b "4 * i + k"] assms that by auto
  from this[of 0] this[of 1] this[of 2] this[of 3] show ?thesis
    by (simp add: set_entry_def store32_def)
qed

text \<open>The frame copy loop \<open>for (b = 0; b < 4096; b++) dst[b] = src[b]\<close>.\<close>

definition copy_frame :: "addr \<Rightarrow> addr \<Rightarrow> memory \<Rightarrow> memory" where
  "copy_frame dst src m = fold (\<lambda>b m. m(dst + of_nat b := m (src + of_nat b))) [0..<4096] m"

lemma copy_frame_bytes:
  assumes "page_aligned dst" "page_aligned src" "page_aligned q" "dst \<noteq> src" "b < 4096"
  shows "copy_frame dst src m (q + of_nat b) = (if q = dst then m (src + of_nat b) else m (q + of_nat b))"
proof -
  define f where "f = (\<lambda>b (m :: memory). m(dst + of_nat b := m (src + of_nat b)))"
  have step: "f k m' (r + of_nat b) = (if r = dst \<and> b = k then m' (src + of_nat k) else m' (r + of_nat b))"
    if "k < 4096" "page_aligned r" "b < 4096" for k m' r b
    using that assms(1) by (simp add: f_def page_byte_eq_iff)
  have "fold f [0..<n] m (r + of_nat b) = (if r = dst \<and> b < n then m (src + of_nat b) else m (r + of_nat b))"
    if "n \<le> 4096" "page_aligned r" "b < 4096" for n r b
    using that
  proof (induction n arbitrary: r b)
    case 0
    then show ?case by simp
  next
    case (Suc n)
    then show ?case
      using Suc.IH[of src n] assms(2,4) by (auto simp: step Suc.IH less_Suc_eq)
  qed
  from this[of 4096 q b] assms show ?thesis by (simp add: copy_frame_def f_def)
qed

end
