(* ===== verification/Pmm.thy ===== *)
theory Pmm
  imports Memory
begin

text \<open>
  \<open>kernel/pmm.c\<close>, the physical frame allocator: a bitmap with one bit per 4 KiB frame (set = used),
  a reference count per frame for copy-on-write sharing, and the counters. The state is an
  extensible record, so that the paging, heap and task theories add their own statics to it and
  the operations below apply to the extended state unchanged. The two static arrays are functions
  from the index; every access of the code is below their size.

  Each operation runs between \<open>spinlock_acquire(&pmm_lock)\<close> and \<open>spinlock_release\<close>, with
  interrupts off, hence atomically (theory Spinlock); the model is the critical section. Serial
  log output is not modelled.
\<close>

section \<open>State and bitmap\<close>

definition MAX_FRAMES :: nat where
  "MAX_FRAMES = 128 * 1024 * 1024 div 4096"

record pmm =
  frame_bitmap :: "nat \<Rightarrow> u8"
  frame_refcount :: "nat \<Rightarrow> u8"
  total_frames :: u32
  used_frames :: u32
  detected_ram_bytes :: u64

definition bitmap_set :: "nat \<Rightarrow> 'a pmm_scheme \<Rightarrow> 'a pmm_scheme" where
  "bitmap_set frame s = s\<lparr>frame_bitmap := (frame_bitmap s)
     (frame div 8 := frame_bitmap s (frame div 8) OR push_bit (frame mod 8) 1)\<rparr>"

definition bitmap_clear :: "nat \<Rightarrow> 'a pmm_scheme \<Rightarrow> 'a pmm_scheme" where
  "bitmap_clear frame s = s\<lparr>frame_bitmap := (frame_bitmap s)
     (frame div 8 := frame_bitmap s (frame div 8) AND NOT (push_bit (frame mod 8) 1))\<rparr>"

definition bitmap_test :: "nat \<Rightarrow> 'a pmm_scheme \<Rightarrow> bool" where
  "bitmap_test frame s \<longleftrightarrow> frame_bitmap s (frame div 8) AND push_bit (frame mod 8) 1 \<noteq> 0"

definition mark_used :: "nat \<Rightarrow> 'a pmm_scheme \<Rightarrow> 'a pmm_scheme" where
  "mark_used frame s =
     (if MAX_FRAMES \<le> frame then s
      else if \<not> bitmap_test frame s
      then (bitmap_set frame s)\<lparr>used_frames := used_frames s + 1\<rparr> else s)"

definition mark_free :: "nat \<Rightarrow> 'a pmm_scheme \<Rightarrow> 'a pmm_scheme" where
  "mark_free frame s =
     (if MAX_FRAMES \<le> frame then s
      else if bitmap_test frame s
      then (bitmap_clear frame s)\<lparr>used_frames := used_frames s - 1\<rparr> else s)"

section \<open>Initialisation from the multiboot memory map\<close>

text \<open>
  A map entry is the packed \<open>struct multiboot_mmap_entry\<close>: \<open>size\<close> at offset 0, \<open>addr\<close> at 4,
  \<open>len\<close> at 12, \<open>type\<close> at 20; the next one starts \<open>size + 4\<close> bytes further. The loop of
  \<open>pmm_init\<close> has no bound of its own, so it is a partial function.
\<close>

definition pmm_init_entry :: "memory \<Rightarrow> addr \<Rightarrow> 'a pmm_scheme \<Rightarrow> 'a pmm_scheme" where
  "pmm_init_entry m mentry s =
     (if load32 m (mentry + 20) = 1 then
        let start_addr = load64 m (mentry + 4);
            len = load64 m (mentry + 12);
            s1 = s\<lparr>detected_ram_bytes := detected_ram_bytes s + len\<rparr>;
            start_frame = ucast (start_addr div 4096) :: u32;
            frame_count = ucast (len div 4096) :: u32
        in fold mark_free [unat start_frame..<min (unat (start_frame + frame_count)) MAX_FRAMES] s1
      else s)"

partial_function (option) pmm_init_map ::
    "memory \<Rightarrow> addr \<Rightarrow> addr \<Rightarrow> 'a pmm_scheme \<Rightarrow> 'a pmm_scheme option" where
  "pmm_init_map m mentry map_end s =
     (if mentry < map_end
      then pmm_init_map m (mentry + load32 m mentry + 4) map_end (pmm_init_entry m mentry s)
      else Some s)"

definition kstart_frame :: "addr \<Rightarrow> nat" where
  "kstart_frame kernel_start = unat (kernel_start div 4096)"

definition kend_frame :: "addr \<Rightarrow> nat" where
  "kend_frame kernel_end = unat ((kernel_end + 4096 - 1) div 4096)"

text \<open>\<open>kernel_start\<close> and \<open>kernel_end\<close> are the linker's \<open>_kernel_start\<close> and \<open>_kernel_end\<close>.\<close>

definition pmm_init ::
    "memory \<Rightarrow> addr \<Rightarrow> addr \<Rightarrow> addr \<Rightarrow> 'a pmm_scheme \<Rightarrow> 'a pmm_scheme option" where
  "pmm_init m mbi kernel_start kernel_end s =
     (let s1 = (fold bitmap_set [0..<MAX_FRAMES] s)\<lparr>used_frames := of_nat MAX_FRAMES\<rparr>;
          mmap_addr = load32 m (mbi + 48);
          mmap_length = load32 m (mbi + 44)
      in case pmm_init_map m mmap_addr (mmap_addr + mmap_length) s1 of
           None \<Rightarrow> None
         | Some s2 \<Rightarrow>
             let s3 = fold mark_used [0..<0x100000 div 4096] s2;
                 s4 = fold mark_used [kstart_frame kernel_start..<Suc (kend_frame kernel_end)] s3
             in Some (s4\<lparr>total_frames := of_nat MAX_FRAMES\<rparr>))"

section \<open>Allocation, reference counts, release\<close>

definition frame_addr :: "nat \<Rightarrow> addr" where
  "frame_addr i = of_nat (i * 4096)"

definition pmm_alloc_frame :: "'a pmm_scheme \<Rightarrow> addr \<times> 'a pmm_scheme" where
  "pmm_alloc_frame s =
     (case find (\<lambda>i. \<not> bitmap_test i s) [0..<MAX_FRAMES] of
        Some i \<Rightarrow> (frame_addr i,
          (bitmap_set i s)\<lparr>used_frames := used_frames s + 1,
             frame_refcount := (frame_refcount s)(i := 1)\<rparr>)
      | None \<Rightarrow> (0, s))"

definition frame_of :: "addr \<Rightarrow> nat" where
  "frame_of phys_addr = unat (phys_addr div 4096)"

definition pmm_free_frame :: "addr \<Rightarrow> 'a pmm_scheme \<Rightarrow> 'a pmm_scheme" where
  "pmm_free_frame phys_addr s =
     (let frame = frame_of phys_addr in
      if frame < MAX_FRAMES \<and> 0 < frame_refcount s frame then
        let s1 = s\<lparr>frame_refcount := (frame_refcount s)(frame := frame_refcount s frame - 1)\<rparr>
        in if frame_refcount s1 frame = 0 then mark_free frame s1 else s1
      else s)"

definition pmm_frame_addref :: "addr \<Rightarrow> 'a pmm_scheme \<Rightarrow> 'a pmm_scheme" where
  "pmm_frame_addref phys_addr s =
     (let frame = frame_of phys_addr in
      if frame < MAX_FRAMES
      then s\<lparr>frame_refcount := (frame_refcount s)(frame := frame_refcount s frame + 1)\<rparr>
      else s)"

definition pmm_frame_refcount :: "addr \<Rightarrow> 'a pmm_scheme \<Rightarrow> u32" where
  "pmm_frame_refcount phys_addr s =
     (let frame = frame_of phys_addr in
      if MAX_FRAMES \<le> frame then 0 else ucast (frame_refcount s frame))"

definition pmm_free_frame_count :: "'a pmm_scheme \<Rightarrow> u32" where
  "pmm_free_frame_count s = total_frames s - used_frames s"

definition pmm_detected_ram_kib :: "'a pmm_scheme \<Rightarrow> u32" where
  "pmm_detected_ram_kib s = ucast (detected_ram_bytes s div 1024)"

section \<open>The bitmap is a set of frames\<close>

lemma bitmap_test_bit: "bitmap_test f s \<longleftrightarrow> bit (frame_bitmap s (f div 8)) (f mod 8)"
proof -
  have "f mod 8 < LENGTH(8)" by simp
  then show ?thesis unfolding bitmap_test_def using and_shift_one_eq_0_iff by metis
qed

lemma same_slot: "f div 8 = g div 8 \<Longrightarrow> f mod 8 = g mod 8 \<longleftrightarrow> f = (g::nat)"
  by (metis div_mult_mod_eq)

lemma bitmap_test_set [simp]: "bitmap_test g (bitmap_set f s) \<longleftrightarrow> g = f \<or> bitmap_test g s"
proof (cases "g div 8 = f div 8")
  case True
  then have "g mod 8 = f mod 8 \<longleftrightarrow> g = f" by (rule same_slot)
  with True show ?thesis
    by (simp add: bitmap_test_bit bitmap_set_def bit_or_iff push_bit_of_1 bit_exp_iff) blast
next
  case False
  then have "g \<noteq> f" by blast
  with False show ?thesis by (simp add: bitmap_test_bit bitmap_set_def)
qed

lemma bitmap_test_clear [simp]: "bitmap_test g (bitmap_clear f s) \<longleftrightarrow> g \<noteq> f \<and> bitmap_test g s"
proof (cases "g div 8 = f div 8")
  case True
  then have "g mod 8 = f mod 8 \<longleftrightarrow> g = f" by (rule same_slot)
  with True show ?thesis
    by (simp add: bitmap_test_bit bitmap_clear_def bit_and_iff bit_not_iff push_bit_of_1 bit_exp_iff)
      blast
next
  case False
  then have "g \<noteq> f" by blast
  with False show ?thesis by (simp add: bitmap_test_bit bitmap_clear_def)
qed

text \<open>The bitmap operations write the bitmap only, and tests read the bitmap only.\<close>

lemma bitmap_frame [simp]:
  "frame_refcount (bitmap_set f s) = frame_refcount s"
  "frame_refcount (bitmap_clear f s) = frame_refcount s"
  "used_frames (bitmap_set f s) = used_frames s"
  "used_frames (bitmap_clear f s) = used_frames s"
  "total_frames (bitmap_set f s) = total_frames s"
  "total_frames (bitmap_clear f s) = total_frames s"
  "detected_ram_bytes (bitmap_set f s) = detected_ram_bytes s"
  "detected_ram_bytes (bitmap_clear f s) = detected_ram_bytes s"
  by (simp_all add: bitmap_set_def bitmap_clear_def)

lemma bitmap_test_upd [simp]:
  "bitmap_test f (s\<lparr>used_frames := u\<rparr>) = bitmap_test f s"
  "bitmap_test f (s\<lparr>total_frames := u\<rparr>) = bitmap_test f s"
  "bitmap_test f (s\<lparr>frame_refcount := r\<rparr>) = bitmap_test f s"
  "bitmap_test f (s\<lparr>detected_ram_bytes := d\<rparr>) = bitmap_test f s"
  by (simp_all add: bitmap_test_def)

definition used_count :: "'a pmm_scheme \<Rightarrow> nat" where
  "used_count s = card {f. f < MAX_FRAMES \<and> bitmap_test f s}"

lemma used_count_cong: "(\<And>f. bitmap_test f s = bitmap_test f t) \<Longrightarrow> used_count s = used_count t"
  by (simp add: used_count_def)

lemma used_count_upd [simp]:
  "used_count (s\<lparr>used_frames := u\<rparr>) = used_count s"
  "used_count (s\<lparr>total_frames := u\<rparr>) = used_count s"
  "used_count (s\<lparr>frame_refcount := r\<rparr>) = used_count s"
  "used_count (s\<lparr>detected_ram_bytes := d\<rparr>) = used_count s"
  by (simp_all add: used_count_def)

lemma used_count_set:
  assumes "f < MAX_FRAMES" "\<not> bitmap_test f s"
  shows "used_count (bitmap_set f s) = Suc (used_count s)"
proof -
  have "{g. g < MAX_FRAMES \<and> bitmap_test g (bitmap_set f s)}
      = insert f {g. g < MAX_FRAMES \<and> bitmap_test g s}" using assms by auto
  then show ?thesis using assms(2) by (simp add: used_count_def)
qed

lemma used_count_clear:
  assumes "f < MAX_FRAMES" "bitmap_test f s"
  shows "Suc (used_count (bitmap_clear f s)) = used_count s"
proof -
  have "{g. g < MAX_FRAMES \<and> bitmap_test g s}
      = insert f {g. g < MAX_FRAMES \<and> bitmap_test g (bitmap_clear f s)}" using assms by auto
  then show ?thesis by (simp add: used_count_def)
qed

lemma used_count_le: "used_count s \<le> MAX_FRAMES"
proof -
  have "used_count s \<le> card {..<MAX_FRAMES}"
    unfolding used_count_def by (rule card_mono) auto
  then show ?thesis by simp
qed

section \<open>Invariant\<close>

text \<open>The counter agrees with the bitmap.\<close>

definition counts_ok :: "'a pmm_scheme \<Rightarrow> bool" where
  "counts_ok s \<longleftrightarrow> used_frames s = of_nat (used_count s)"

text \<open>
  The allocator's invariant: the counters agree with the bitmap, a referenced frame is never
  marked free, and the low 1 MiB (frames 0 to 255) is used and unreferenced for good, so that
  the address 0 can mean "out of memory".
\<close>

definition pmm_inv :: "'a pmm_scheme \<Rightarrow> bool" where
  "pmm_inv s \<longleftrightarrow> total_frames s = of_nat MAX_FRAMES \<and> counts_ok s \<and>
     (\<forall>f<MAX_FRAMES. frame_refcount s f \<noteq> 0 \<longrightarrow> bitmap_test f s) \<and>
     (\<forall>f<256. bitmap_test f s \<and> frame_refcount s f = 0)"

lemma mark_used_test [simp]:
  "bitmap_test g (mark_used f s) \<longleftrightarrow> (g = f \<and> f < MAX_FRAMES) \<or> bitmap_test g s"
  by (auto simp: mark_used_def)

lemma mark_free_test [simp]:
  "bitmap_test g (mark_free f s) \<longleftrightarrow> bitmap_test g s \<and> \<not> (g = f \<and> f < MAX_FRAMES)"
  by (auto simp: mark_free_def)

lemma mark_frame [simp]:
  "frame_refcount (mark_used f s) = frame_refcount s"
  "frame_refcount (mark_free f s) = frame_refcount s"
  "total_frames (mark_used f s) = total_frames s"
  "total_frames (mark_free f s) = total_frames s"
  by (simp_all add: mark_used_def mark_free_def)

lemma counts_ok_upd [simp]:
  "counts_ok (s\<lparr>total_frames := t\<rparr>) = counts_ok s"
  "counts_ok (s\<lparr>detected_ram_bytes := d\<rparr>) = counts_ok s"
  "counts_ok (s\<lparr>frame_refcount := r\<rparr>) = counts_ok s"
  by (simp_all add: counts_ok_def)

lemma mark_used_counts: "counts_ok s \<Longrightarrow> counts_ok (mark_used f s)"
  by (auto simp: counts_ok_def mark_used_def used_count_set)

lemma mark_free_counts: "counts_ok s \<Longrightarrow> counts_ok (mark_free f s)"
  using used_count_clear[of f s]
  by (auto simp: counts_ok_def mark_free_def not_le simp flip: used_count_clear[of f s])

lemma fold_mark_used:
  "bitmap_test g (fold mark_used fs s) \<longleftrightarrow> (g \<in> set fs \<and> g < MAX_FRAMES) \<or> bitmap_test g s"
  "counts_ok s \<Longrightarrow> counts_ok (fold mark_used fs s)"
  "frame_refcount (fold mark_used fs s) = frame_refcount s"
  by (induction fs arbitrary: s) (auto simp: mark_used_counts)

lemma fold_mark_free:
  "bitmap_test g (fold mark_free fs s) \<longleftrightarrow> bitmap_test g s \<and> \<not> (g \<in> set fs \<and> g < MAX_FRAMES)"
  "counts_ok s \<Longrightarrow> counts_ok (fold mark_free fs s)"
  "frame_refcount (fold mark_free fs s) = frame_refcount s"
  by (induction fs arbitrary: s) (auto simp: mark_free_counts)

section \<open>Allocation and release\<close>

lemma MAX_FRAMES_val: "MAX_FRAMES = 32768"
  by (simp add: MAX_FRAMES_def)

lemma unat_frame_addr: "i < MAX_FRAMES \<Longrightarrow> unat (frame_addr i) = i * 4096"
  by (simp add: frame_addr_def MAX_FRAMES_val unat_of_nat del: of_nat_mult)

lemma frame_of_addr [simp]: "i < MAX_FRAMES \<Longrightarrow> frame_of (frame_addr i) = i"
  using unat_frame_addr[of i] by (simp add: frame_of_def unat_div)

lemma frame_addr_aligned: "i < MAX_FRAMES \<Longrightarrow> page_aligned (frame_addr i)"
  using unat_frame_addr[of i] by (simp add: page_aligned_def)

lemma frame_addr_inj:
  assumes "page_aligned a" "page_aligned b" "frame_of a = frame_of b"
  shows "a = b"
proof -
  have "unat a = 4096 * frame_of a" "unat b = 4096 * frame_of b"
    using assms(1,2) by (auto simp: page_aligned_def frame_of_def unat_div)
  with assms(3) show ?thesis by (simp add: word_unat_eq_iff)
qed

definition alloc_at :: "nat \<Rightarrow> 'a pmm_scheme \<Rightarrow> 'a pmm_scheme" where
  "alloc_at i s = (bitmap_set i s)\<lparr>used_frames := used_frames s + 1,
     frame_refcount := (frame_refcount s)(i := 1)\<rparr>"

lemma pmm_alloc_cases:
  obtains (frame) i where "i < MAX_FRAMES" "\<not> bitmap_test i s" "\<forall>j<i. bitmap_test j s"
      "pmm_alloc_frame s = (frame_addr i, alloc_at i s)"
    | (full) "\<forall>i<MAX_FRAMES. bitmap_test i s" "pmm_alloc_frame s = (0, s)"
proof (cases "find (\<lambda>i. \<not> bitmap_test i s) [0..<MAX_FRAMES]")
  case None
  then have "pmm_alloc_frame s = (0, s)" unfolding pmm_alloc_frame_def by (simp only: option.case)
  with None show ?thesis using full by (simp add: find_upt_None_iff)
next
  case (Some i)
  then have "pmm_alloc_frame s = (frame_addr i, alloc_at i s)"
    unfolding pmm_alloc_frame_def alloc_at_def by (simp only: option.case)
  with Some show ?thesis using frame[of i] by (simp add: find_upt_Some_iff)
qed

lemma alloc_at_test [simp]: "bitmap_test g (alloc_at i s) \<longleftrightarrow> g = i \<or> bitmap_test g s"
  by (simp add: alloc_at_def)

lemma alloc_at_refcount [simp]: "frame_refcount (alloc_at i s) = (frame_refcount s)(i := 1)"
  by (simp add: alloc_at_def)

lemma pmm_inv_not_low: "pmm_inv s \<Longrightarrow> \<not> bitmap_test i s \<Longrightarrow> 256 \<le> i"
  by (auto simp: pmm_inv_def not_less[symmetric])

lemma pmm_inv_unreferenced: "pmm_inv s \<Longrightarrow> i < MAX_FRAMES \<Longrightarrow> \<not> bitmap_test i s \<Longrightarrow> frame_refcount s i = 0"
  by (auto simp: pmm_inv_def)

lemma alloc_at_inv [kinv]:
  assumes "pmm_inv s" "i < MAX_FRAMES" "\<not> bitmap_test i s"
  shows "pmm_inv (alloc_at i s)"
proof -
  have "256 \<le> i" by (rule pmm_inv_not_low[OF assms(1,3)])
  moreover have "counts_ok (alloc_at i s)"
    using assms by (simp add: pmm_inv_def counts_ok_def alloc_at_def used_count_set)
  ultimately show ?thesis using assms(1) by (auto simp: pmm_inv_def alloc_at_def)
qed

lemma pmm_alloc_free:
  "pmm_inv s \<Longrightarrow> pmm_alloc_frame s = (a, s') \<Longrightarrow> a \<noteq> 0 \<Longrightarrow>
    frame_of a < MAX_FRAMES \<and> \<not> bitmap_test (frame_of a) s \<and>
    (\<forall>g. bitmap_test g s' \<longleftrightarrow> g = frame_of a \<or> bitmap_test g s)"
  by (cases s rule: pmm_alloc_cases) auto

lemma pmm_alloc_frame_inv [kinv]: "pmm_inv s \<Longrightarrow> pmm_inv (snd (pmm_alloc_frame s))"
  by (cases s rule: pmm_alloc_cases) (auto intro: alloc_at_inv)

lemma pmm_free_frame_inv [kinv]:
  assumes "pmm_inv s"
  shows "pmm_inv (pmm_free_frame a s)"
proof -
  have low: "256 \<le> frame_of a" if "frame_refcount s (frame_of a) \<noteq> 0"
    using assms that by (auto simp: pmm_inv_def not_less[symmetric])
  show ?thesis
    using assms low mark_free_counts[of "s\<lparr>frame_refcount := r\<rparr>" for r]
    by (auto simp: pmm_inv_def pmm_free_frame_def Let_def counts_ok_def)
qed

lemma pmm_frame_addref_inv [kinv]:
  assumes "pmm_inv s" "frame_refcount s (frame_of a) \<noteq> 0"
  shows "pmm_inv (pmm_frame_addref a s)"
proof -
  have "256 \<le> frame_of a"
    using assms by (auto simp: pmm_inv_def not_less[symmetric])
  then show ?thesis using assms
    by (auto simp: pmm_inv_def pmm_frame_addref_def Let_def counts_ok_def)
qed

section \<open>The interface of a reference-counted frame pool\<close>

text \<open>How many references a frame has, for every frame index.\<close>

definition frame_refs :: "'a pmm_scheme \<Rightarrow> nat \<Rightarrow> nat" where
  "frame_refs s f = (if f < MAX_FRAMES then unat (frame_refcount s f) else 0)"

primrec alloc_frames :: "('s \<Rightarrow> addr \<times> 's) \<Rightarrow> nat \<Rightarrow> 's \<Rightarrow> addr list \<times> 's" where
  "alloc_frames alloc 0 s = ([], s)"
| "alloc_frames alloc (Suc n) s =
     (let (a, s') = alloc s; (as, s'') = alloc_frames alloc n s' in (a # as, s''))"

locale frame_pool =
  fixes inv :: "'s \<Rightarrow> bool" and refs :: "'s \<Rightarrow> nat \<Rightarrow> nat"
    and alloc :: "'s \<Rightarrow> addr \<times> 's" and release :: "addr \<Rightarrow> 's \<Rightarrow> 's"
  assumes alloc_inv: "inv s \<Longrightarrow> inv (snd (alloc s))"
    and alloc_fresh: "inv s \<Longrightarrow> alloc s = (a, s') \<Longrightarrow> a \<noteq> 0 \<Longrightarrow>
      page_aligned a \<and> refs s (frame_of a) = 0 \<and> refs s' = (refs s)(frame_of a := 1)"
    and alloc_none: "inv s \<Longrightarrow> alloc s = (0, s') \<Longrightarrow> s' = s"
    and release_inv: "inv s \<Longrightarrow> inv (release a s)"
    and release_refs: "inv s \<Longrightarrow>
      refs (release a s) = (refs s)(frame_of a := refs s (frame_of a) - 1)"
begin

text \<open>Frames handed out one after the other are pairwise different and were unreferenced.\<close>

lemma alloc_frames_distinct:
  "inv s \<Longrightarrow> alloc_frames alloc n s = (as, s') \<Longrightarrow> 0 \<notin> set as \<Longrightarrow>
    distinct (map frame_of as) \<and> (\<forall>a\<in>set as. page_aligned a \<and> refs s (frame_of a) = 0) \<and>
    inv s' \<and> (\<forall>f. refs s' f = (if f \<in> frame_of ` set as then 1 else refs s f))"
proof (induction n arbitrary: s as)
  case 0
  then show ?case by simp
next
  case (Suc n)
  obtain a s1 as1 where a: "alloc s = (a, s1)" and as: "alloc_frames alloc n s1 = (as1, s')"
    and [simp]: "as = a # as1"
    using Suc.prems(2) by (auto simp: split_def Let_def prod_eq_iff)
  have fresh: "page_aligned a" "refs s (frame_of a) = 0" "refs s1 = (refs s)(frame_of a := 1)"
    using alloc_fresh[OF Suc.prems(1) a] Suc.prems(3) by auto
  have "inv s1" using alloc_inv[OF Suc.prems(1)] a by simp
  note IH = Suc.IH[OF this as]
  then have "frame_of a \<notin> frame_of ` set as1" using Suc.prems(3) fresh(3) by fastforce
  moreover have "refs s (frame_of b) = 0" if "b \<in> set as1" for b
    using IH Suc.prems(3) that fresh(3) calculation by (auto simp: image_iff split: if_splits)
  ultimately show ?case using IH Suc.prems(3) fresh by auto
qed

text \<open>Releasing the one reference of a fresh frame gives the counts before the allocation.\<close>

lemma alloc_release:
  "inv s \<Longrightarrow> alloc s = (a, s') \<Longrightarrow> a \<noteq> 0 \<Longrightarrow> refs (release a s') = refs s"
  using alloc_fresh[of s a s'] alloc_inv[of s] release_refs[of s' a] by auto

end

lemma pmm_free_frame_refs:
  "frame_refs (pmm_free_frame a s) = (frame_refs s)(frame_of a := frame_refs s (frame_of a) - 1)"
proof -
  have "unat (r - 1) = unat r - 1" if "r \<noteq> 0" for r :: u8
    using that by (simp add: unat_minus_one)
  then show ?thesis
    by (auto simp: frame_refs_def pmm_free_frame_def Let_def word_gt_0 intro!: ext)
qed

interpretation frames: frame_pool pmm_inv frame_refs pmm_alloc_frame pmm_free_frame
proof unfold_locales
  fix s s' :: "'a pmm_scheme" and a
  assume inv: "pmm_inv s"
  show "pmm_inv (snd (pmm_alloc_frame s))" using inv by (rule pmm_alloc_frame_inv)
  show "pmm_inv (pmm_free_frame a s)" using inv by (rule pmm_free_frame_inv)
  show "frame_refs (pmm_free_frame a s) = (frame_refs s)(frame_of a := frame_refs s (frame_of a) - 1)"
    by (rule pmm_free_frame_refs)
  { assume "pmm_alloc_frame s = (a, s')" "a \<noteq> 0"
    then show "page_aligned a \<and> frame_refs s (frame_of a) = 0 \<and>
        frame_refs s' = (frame_refs s)(frame_of a := 1)"
      using pmm_inv_unreferenced[OF inv]
      by (cases s rule: pmm_alloc_cases)
        (auto simp: frame_addr_aligned frame_refs_def fun_eq_iff) }
  { assume "pmm_alloc_frame s = (0, s')"
    then show "s' = s"
    proof (cases s rule: pmm_alloc_cases)
      case (frame i)
      then have "256 \<le> i" using inv by (auto dest: pmm_inv_not_low)
      with frame \<open>pmm_alloc_frame s = (0, s')\<close> unat_frame_addr[of i] show ?thesis
        by auto
    qed simp }
qed

section \<open>The state after initialisation\<close>

text \<open>
  \<open>mmap_at m e map_end es\<close>: the entries of the memory map that starts at \<open>e\<close> and ends at
  \<open>map_end\<close> are at the addresses \<open>es\<close>.
\<close>

fun mmap_at :: "memory \<Rightarrow> addr \<Rightarrow> addr \<Rightarrow> addr list \<Rightarrow> bool" where
  "mmap_at m e map_end [] \<longleftrightarrow> \<not> e < map_end"
| "mmap_at m e map_end (x # xs) \<longleftrightarrow> e < map_end \<and> x = e \<and> mmap_at m (e + load32 m e + 4) map_end xs"

definition entry_covers :: "memory \<Rightarrow> addr \<Rightarrow> nat \<Rightarrow> bool" where
  "entry_covers m e f \<longleftrightarrow> load32 m (e + 20) = 1 \<and>
     (let start = ucast (load64 m (e + 4) div 4096) :: u32; count = ucast (load64 m (e + 12) div 4096)
      in unat start \<le> f \<and> f < unat (start + count))"

lemma pmm_init_map_walk:
  "mmap_at m e map_end es \<Longrightarrow> pmm_init_map m e map_end s = Some (fold (pmm_init_entry m) es s)"
  by (induction es arbitrary: e s) (subst pmm_init_map.simps, simp)+

lemma pmm_init_entry_test:
  "bitmap_test f (pmm_init_entry m e s) \<longleftrightarrow> bitmap_test f s \<and> \<not> (f < MAX_FRAMES \<and> entry_covers m e f)"
  by (auto simp: pmm_init_entry_def entry_covers_def Let_def fold_mark_free)

lemma pmm_init_entry_counts: "counts_ok s \<Longrightarrow> counts_ok (pmm_init_entry m e s)"
  by (simp add: pmm_init_entry_def Let_def fold_mark_free)

lemma pmm_init_entry_refcount: "frame_refcount (pmm_init_entry m e s) = frame_refcount s"
  by (simp add: pmm_init_entry_def Let_def fold_mark_free)

lemma fold_pmm_init_entry:
  "bitmap_test f (fold (pmm_init_entry m) es s) \<longleftrightarrow>
     bitmap_test f s \<and> \<not> (f < MAX_FRAMES \<and> (\<exists>e\<in>set es. entry_covers m e f))"
  "counts_ok s \<Longrightarrow> counts_ok (fold (pmm_init_entry m) es s)"
  "frame_refcount (fold (pmm_init_entry m) es s) = frame_refcount s"
  by (induction es arbitrary: s)
    (auto simp: pmm_init_entry_test pmm_init_entry_counts pmm_init_entry_refcount)

lemma fold_bitmap_set:
  "bitmap_test f (fold bitmap_set fs s) \<longleftrightarrow> f \<in> set fs \<or> bitmap_test f s"
  "frame_refcount (fold bitmap_set fs s) = frame_refcount s"
  by (induction fs arbitrary: s) auto

lemma all_used_counts:
  "counts_ok ((fold bitmap_set [0..<MAX_FRAMES] s)\<lparr>used_frames := of_nat MAX_FRAMES\<rparr>)"
proof -
  have "{f. f < MAX_FRAMES \<and> bitmap_test f (fold bitmap_set [0..<MAX_FRAMES] s)} = {..<MAX_FRAMES}"
    by (auto simp: fold_bitmap_set)
  then show ?thesis by (simp add: counts_ok_def used_count_def)
qed

section \<open>Properties\<close>

text \<open>
  A boot-time state used by the witnesses: the low 1 MiB used and unreferenced, all other
  frames free.
\<close>

definition boot_pmm :: pmm where
  "boot_pmm = \<lparr>frame_bitmap = (\<lambda>i. if i < 32 then 255 else 0), frame_refcount = (\<lambda>_. 0),
     total_frames = 32768, used_frames = 256, detected_ram_bytes = 0\<rparr>"

lemma boot_pmm_test [simp]: "bitmap_test f boot_pmm \<longleftrightarrow> f < 256"
proof -
  have "bit (255 :: u8) (f mod 8)"
  proof -
    have "(255 :: u8) = mask 8" by (simp add: mask_eq_exp_minus_1)
    then show ?thesis by (simp only: bit_mask_iff) simp
  qed
  then show ?thesis by (auto simp: bitmap_test_bit boot_pmm_def)
qed

lemma boot_pmm_inv: "pmm_inv boot_pmm"
proof -
  have "{f. f < MAX_FRAMES \<and> f < 256} = {..<256}" by (auto simp: MAX_FRAMES_val)
  then have "used_count boot_pmm = 256" by (simp add: used_count_def)
  then show ?thesis by (simp add: pmm_inv_def counts_ok_def) (simp add: boot_pmm_def MAX_FRAMES_val)
qed

lemma boot_pmm_alloc: "pmm_alloc_frame boot_pmm = (0x100000, alloc_at 256 boot_pmm)"
proof (cases boot_pmm rule: pmm_alloc_cases)
  case (frame i)
  then have "i = 256" by (metis boot_pmm_test linorder_neqE_nat not_less_iff_gr_or_eq)
  with frame show ?thesis by (simp add: frame_addr_def)
next
  case full
  then have "bitmap_test 256 boot_pmm" by (simp add: MAX_FRAMES_val del: boot_pmm_test)
  then show ?thesis by simp
qed

text \<open>C3: a successful \<open>pmm_alloc_frame\<close> returns the lowest free frame, page aligned and above the
  reserved first megabyte, marks exactly that frame used with one reference, and keeps the
  allocator's invariant.\<close>

theorem pmm_alloc_spec:
  assumes "pmm_inv s" "pmm_alloc_frame s = (a, s')" "a \<noteq> 0"
  shows "page_aligned a \<and> 256 \<le> frame_of a \<and> frame_of a < MAX_FRAMES \<and>
    \<not> bitmap_test (frame_of a) s \<and> (\<forall>j<frame_of a. bitmap_test j s) \<and>
    (\<forall>g. bitmap_test g s' \<longleftrightarrow> g = frame_of a \<or> bitmap_test g s) \<and>
    frame_refcount s' = (frame_refcount s)(frame_of a := 1) \<and> pmm_inv s'"
proof -
  from assms obtain i where "i < MAX_FRAMES" "\<not> bitmap_test i s" "\<forall>j<i. bitmap_test j s"
      "a = frame_addr i" "s' = alloc_at i s"
    by (cases s rule: pmm_alloc_cases) auto
  with assms(1) show ?thesis
    by (auto simp: frame_addr_aligned pmm_inv_not_low intro: alloc_at_inv)
qed

theorem pmm_alloc_spec_witness:
  "page_aligned 0x100000 \<and> pmm_inv (alloc_at 256 boot_pmm) \<and> \<not> bitmap_test 256 boot_pmm"
  using pmm_alloc_spec[OF boot_pmm_inv boot_pmm_alloc] by simp

text \<open>\<open>pmm_alloc_frame\<close> returns 0 exactly when every frame is used, and then changes nothing:
  the address 0 is never a frame, so callers can test it for out of memory.\<close>

theorem pmm_alloc_zero_iff:
  assumes "pmm_inv s"
  shows "(fst (pmm_alloc_frame s) = 0 \<longleftrightarrow> (\<forall>f<MAX_FRAMES. bitmap_test f s)) \<and>
    (fst (pmm_alloc_frame s) = 0 \<longrightarrow> snd (pmm_alloc_frame s) = s)"
proof -
  have "frame_addr i \<noteq> 0" if "i < MAX_FRAMES" "\<not> bitmap_test i s" for i
    using pmm_inv_not_low[OF assms that(2)] unat_frame_addr[OF that(1)] by auto
  then show ?thesis
    by (cases s rule: pmm_alloc_cases) auto
qed

theorem pmm_alloc_zero_iff_witness: "fst (pmm_alloc_frame boot_pmm) \<noteq> 0"
  using pmm_alloc_zero_iff[OF boot_pmm_inv] by (simp add: MAX_FRAMES_val) (rule exI[of _ 256], simp)

text \<open>\<open>pmm_free_frame\<close> drops one reference of a referenced frame and gives the frame back
  exactly when that was the last one; on an unreferenced or untracked frame (a kernel frame, the
  framebuffer) it does nothing; the invariant is kept.\<close>

theorem pmm_free_spec:
  assumes "pmm_inv s"
  shows "pmm_inv (pmm_free_frame a s) \<and>
    frame_refs (pmm_free_frame a s) = (frame_refs s)(frame_of a := frame_refs s (frame_of a) - 1) \<and>
    (\<forall>g. bitmap_test g (pmm_free_frame a s) \<longleftrightarrow>
       bitmap_test g s \<and> \<not> (g = frame_of a \<and> frame_refs s g = 1)) \<and>
    (frame_refs s (frame_of a) = 0 \<longrightarrow> pmm_free_frame a s = s)"
proof (intro conjI allI)
  show "pmm_inv (pmm_free_frame a s)" using assms by (rule pmm_free_frame_inv)
  show "frame_refs (pmm_free_frame a s) = (frame_refs s)(frame_of a := frame_refs s (frame_of a) - 1)"
    by (rule frames.release_refs[OF assms])
  have "r - 1 = 0 \<longleftrightarrow> unat r = 1" for r :: u8
    using word_unat_eq_iff[of r 1] by (simp only: right_minus_eq) simp
  then show "bitmap_test g (pmm_free_frame a s) \<longleftrightarrow>
       bitmap_test g s \<and> \<not> (g = frame_of a \<and> frame_refs s g = 1)" for g
    by (auto simp: frame_refs_def pmm_free_frame_def Let_def word_gt_0)
  show "frame_refs s (frame_of a) = 0 \<longrightarrow> pmm_free_frame a s = s"
    by (auto simp: frame_refs_def pmm_free_frame_def unat_eq_0 split: if_splits)
qed

theorem pmm_free_spec_witness:
  "pmm_inv (pmm_free_frame 0x100000 (alloc_at 256 boot_pmm)) \<and>
   \<not> bitmap_test 256 (pmm_free_frame 0x100000 (alloc_at 256 boot_pmm))"
proof -
  have inv: "pmm_inv (alloc_at 256 boot_pmm)"
    by (rule alloc_at_inv[OF boot_pmm_inv]) (simp_all add: MAX_FRAMES_val)
  have "frame_of 0x100000 = 256" by (simp add: frame_of_def)
  moreover have "frame_refs (alloc_at 256 boot_pmm) 256 = 1"
    by (simp add: frame_refs_def MAX_FRAMES_val)
  ultimately show ?thesis using pmm_free_spec[OF inv, where a = "0x100000"] by simp
qed

lemma addref_iterate:
  "frame_of a < MAX_FRAMES \<Longrightarrow> (pmm_frame_addref a ^^ n) s =
    s\<lparr>frame_refcount := (frame_refcount s)(frame_of a := frame_refcount s (frame_of a) + of_nat n)\<rparr>"
  by (induction n) (simp_all add: pmm_frame_addref_def Let_def ac_simps)

lemma release_step:
  fixes s :: "'a pmm_scheme"
  assumes "frame_of a < MAX_FRAMES" "frame_refcount s (frame_of a) = of_nat c" "c < 256"
    and "bitmap_test (frame_of a) s \<longleftrightarrow> used" "c = 1 \<Longrightarrow> used"
  shows "frame_refcount (pmm_free_frame a s) (frame_of a) = of_nat (c - 1)"
    "bitmap_test g (pmm_free_frame a s) \<longleftrightarrow> (if g = frame_of a then used \<and> c \<noteq> 1 else bitmap_test g s)"
proof -
  let ?f = "frame_of a"
  let ?s1 = "s\<lparr>frame_refcount := (frame_refcount s)(?f := of_nat (c - 1))\<rparr>"
  have z: "(of_nat k :: u8) = 0 \<longleftrightarrow> k = 0" if "k < 256" for k
    using that by (simp add: word_unat_eq_iff unat_of_nat)
  have m: "(of_nat c :: u8) - 1 = of_nat (c - 1)" if "0 < c" using that by (cases c) simp_all
  have bits: "bitmap_test h ?s1 = bitmap_test h s" for h by (simp add: bitmap_test_def)
  consider "c = 0" | "c = 1" | "1 < c" by linarith
  then have "frame_refcount (pmm_free_frame a s) ?f = of_nat (c - 1) \<and>
    (bitmap_test g (pmm_free_frame a s) \<longleftrightarrow> (if g = ?f then used \<and> c \<noteq> 1 else bitmap_test g s))"
  proof cases
    case 1
    then have "pmm_free_frame a s = s" using assms(2) by (simp add: pmm_free_frame_def)
    then show ?thesis using 1 assms(2,4) by simp
  next
    case 2
    then have "pmm_free_frame a s = mark_free ?f ?s1"
      using assms(1,2) by (simp add: pmm_free_frame_def Let_def)
    moreover have "bitmap_test ?f ?s1" using assms(4,5) 2 bits by blast
    ultimately have clear: "pmm_free_frame a s = (bitmap_clear ?f ?s1)\<lparr>used_frames := used_frames ?s1 - 1\<rparr>"
      using assms(1) by (simp add: mark_free_def not_le)
    have "frame_refcount (bitmap_clear ?f ?s1) = frame_refcount ?s1" by (simp add: bitmap_clear_def)
    then show ?thesis using 2 bits clear by simp
  next
    case 3
    then have "pmm_free_frame a s = ?s1"
      using assms(1,2,3) m z [of c] z [of "c - 1"] by (simp add: pmm_free_frame_def Let_def word_neq_0_conv)
    then show ?thesis using 3 bits assms(4) by simp
  qed
  then show "frame_refcount (pmm_free_frame a s) ?f = of_nat (c - 1)"
    "bitmap_test g (pmm_free_frame a s) \<longleftrightarrow> (if g = ?f then used \<and> c \<noteq> 1 else bitmap_test g s)" by blast+
qed

lemma release_iterate:
  fixes s :: "'a pmm_scheme"
  assumes "frame_of a < MAX_FRAMES" "frame_refcount s (frame_of a) = of_nat c" "c < 256" "bitmap_test (frame_of a) s"
  shows "frame_refcount ((pmm_free_frame a ^^ r) s) (frame_of a) = of_nat (c - r) \<and>
    (\<forall>g. bitmap_test g ((pmm_free_frame a ^^ r) s) \<longleftrightarrow> (if g = frame_of a then c = 0 \<or> r < c else bitmap_test g s))"
proof (induction r)
  case 0
  then show ?case using assms by auto
next
  case (Suc r)
  let ?s = "(pmm_free_frame a ^^ r) s"
  have "c - r = 1 \<Longrightarrow> c = 0 \<or> r < c" by linarith
  moreover have "c - r < 256" using assms(3) by simp
  ultimately have step: "frame_refcount (pmm_free_frame a ?s) (frame_of a) = of_nat (c - r - 1)"
    "\<And>g. bitmap_test g (pmm_free_frame a ?s) \<longleftrightarrow> (if g = frame_of a then (c = 0 \<or> r < c) \<and> c - r \<noteq> 1 else bitmap_test g ?s)"
    using release_step [of a ?s "c - r" "c = 0 \<or> r < c"] assms(1) Suc by auto
  then show ?case using Suc by (auto simp del: of_nat_diff)
qed

text \<open>C4: the reference count of a frame is an \<open>unsigned char\<close>, and the releases are counted modulo 256:
  after \<open>n\<close> further references to a frame in use that has \<open>k\<close>, it stays in use for exactly
  \<open>(k + n) mod 256\<close> releases (for ever when that is 0). Up to 255 references this is the count that was
  meant. From 256 on the frame is given back, and is handed out again by the next allocation when no
  lower frame is free, while 256 or more of its users still hold it.\<close>

theorem references_counted_mod_256:
  fixes s :: "'a pmm_scheme" and n r :: nat
  assumes "frame_of a < MAX_FRAMES" "bitmap_test (frame_of a) s"
  defines "c \<equiv> (unat (frame_refcount s (frame_of a)) + n) mod 256"
    and "t \<equiv> (pmm_free_frame a ^^ r) ((pmm_frame_addref a ^^ n) s)"
  shows "(bitmap_test (frame_of a) t \<longleftrightarrow> c = 0 \<or> r < c) \<and> (\<forall>g. g \<noteq> frame_of a \<longrightarrow> bitmap_test g t = bitmap_test g s) \<and>
    (0 < c \<and> c \<le> r \<and> (\<forall>g<frame_of a. bitmap_test g s) \<longrightarrow> fst (pmm_alloc_frame t) = frame_addr (frame_of a))"
proof -
  let ?u = "(pmm_frame_addref a ^^ n) s"
  have u: "?u = s\<lparr>frame_refcount := (frame_refcount s)(frame_of a := frame_refcount s (frame_of a) + of_nat n)\<rparr>"
    by (rule addref_iterate [OF assms(1)])
  have "frame_refcount s (frame_of a) + of_nat n = (of_nat c :: u8)"
    unfolding c_def by (simp add: word_unat_eq_iff unat_word_ariths unat_of_nat mod_simps)
  then have rc: "frame_refcount ?u (frame_of a) = of_nat c" unfolding u by simp
  have bits: "bitmap_test g ?u = bitmap_test g s" for g unfolding u by (simp add: bitmap_test_def)
  have c: "c < 256" by (simp add: c_def)
  have t: "\<forall>g. bitmap_test g t \<longleftrightarrow> (if g = frame_of a then c = 0 \<or> r < c else bitmap_test g s)"
    using release_iterate [OF assms(1) rc c] assms(2) by (simp add: t_def bits)
  have "fst (pmm_alloc_frame t) = frame_addr (frame_of a)"
    if "0 < c" "c \<le> r" "\<forall>g<frame_of a. bitmap_test g s"
  proof (cases t rule: pmm_alloc_cases)
    case (frame i)
    have "\<not> bitmap_test (frame_of a) t" using t that by simp
    then have "\<not> frame_of a < i" using frame(3) by blast
    moreover have "\<not> i < frame_of a" using frame(2) t that(3) by auto
    ultimately show ?thesis using frame(4) by simp
  next
    case full
    then show ?thesis using t that assms(1) by auto
  qed
  then show ?thesis using t by simp
qed

text \<open>The first frame after boot, with 256 references more than the allocation's: one release gives it back.\<close>

theorem references_counted_mod_256_witness:
  "let t = pmm_free_frame 0x100000 ((pmm_frame_addref 0x100000 ^^ 256) (alloc_at 256 boot_pmm))
   in \<not> bitmap_test 256 t \<and> fst (pmm_alloc_frame t) = 0x100000"
proof -
  have f: "frame_of 0x100000 = 256" "frame_addr 256 = 0x100000" by (simp_all add: frame_of_def frame_addr_def)
  show ?thesis
    using references_counted_mod_256 [of "0x100000" "alloc_at 256 boot_pmm" 1 256]
    by (simp add: f MAX_FRAMES_val)
qed

text \<open>On a well-formed memory map \<open>pmm_init\<close> returns, establishes the invariant, and leaves
  free exactly the tracked frames that some "available" entry covers, outside the first megabyte
  and outside the kernel image.\<close>

lemma pmm_init_ok:
  assumes "mmap_at m (load32 m (mbi + 48)) (load32 m (mbi + 48) + load32 m (mbi + 44)) es"
    and "frame_refcount s = (\<lambda>_. 0)"
  shows "\<exists>s'. pmm_init m mbi kernel_start kernel_end s = Some s' \<and> pmm_inv s' \<and>
    (\<forall>f<MAX_FRAMES. \<not> bitmap_test f s' \<longleftrightarrow> (\<exists>e\<in>set es. entry_covers m e f) \<and> 256 \<le> f \<and>
       \<not> (kstart_frame kernel_start \<le> f \<and> f \<le> kend_frame kernel_end))"
proof -
  let ?s1 = "(fold bitmap_set [0..<MAX_FRAMES] s)\<lparr>used_frames := of_nat MAX_FRAMES\<rparr>"
  let ?s3 = "fold mark_used [0..<0x100000 div 4096] (fold (pmm_init_entry m) es ?s1)"
  let ?s4 = "fold mark_used [kstart_frame kernel_start..<Suc (kend_frame kernel_end)] ?s3"
  have res: "pmm_init m mbi kernel_start kernel_end s = Some (?s4\<lparr>total_frames := of_nat MAX_FRAMES\<rparr>)"
    by (simp add: pmm_init_def Let_def pmm_init_map_walk[OF assms(1)] del: upt_Suc)
  have counts: "counts_ok ?s4"
    by (intro fold_mark_used(2) fold_pmm_init_entry(2) all_used_counts)
  have refs: "frame_refcount ?s4 = (\<lambda>_. 0)"
    using assms(2) by (simp add: fold_mark_used fold_pmm_init_entry fold_bitmap_set del: upt_Suc)
  have test: "bitmap_test f ?s4 \<longleftrightarrow> \<not> ((\<exists>e\<in>set es. entry_covers m e f) \<and> 256 \<le> f \<and>
       \<not> (kstart_frame kernel_start \<le> f \<and> f \<le> kend_frame kernel_end))" if "f < MAX_FRAMES" for f
    using that by (auto simp: fold_mark_used fold_pmm_init_entry fold_bitmap_set simp del: upt_Suc)
  have "\<forall>f<256. bitmap_test f ?s4" using test by (simp add: MAX_FRAMES_val del: upt_Suc)
  with counts refs have "pmm_inv (?s4\<lparr>total_frames := of_nat MAX_FRAMES\<rparr>)"
    by (simp add: pmm_inv_def del: upt_Suc)
  with res test show ?thesis by (simp del: upt_Suc) blast
qed

text \<open>A memory map with one available entry of 2 MiB at 1 MiB, and a kernel in its first 16 KiB.\<close>

definition example_mbi :: memory where
  "example_mbi = store32 (store32 (store32 (store32 (store32 (store32 (\<lambda>_. 0)
     0x30 0x100) 0x2C 24) 0x100 20) 0x104 0x100000) 0x10C 0x200000) 0x114 1"

lemma example_mbi_map:
  "mmap_at example_mbi (load32 example_mbi (0 + 48)) (load32 example_mbi (0 + 48) + load32 example_mbi (0 + 44)) [0x100]"
  "entry_covers example_mbi 0x100 f \<longleftrightarrow> 256 \<le> f \<and> f < 768"
proof -
  note load = example_mbi_def load32_store32_other aligned4_def
  have l: "load32 example_mbi 0x30 = 0x100" "load32 example_mbi 0x2C = 24"
    "load32 example_mbi 0x100 = 20" "load32 example_mbi 0x104 = 0x100000"
    "load32 example_mbi 0x108 = 0" "load32 example_mbi 0x10C = 0x200000"
    "load32 example_mbi 0x110 = 0" "load32 example_mbi 0x114 = 1"
    by (simp_all add: load) (simp_all add: load32_def)
  show "mmap_at example_mbi (load32 example_mbi (0 + 48)) (load32 example_mbi (0 + 48) + load32 example_mbi (0 + 44)) [0x100]"
    by (simp add: l)
  show "entry_covers example_mbi 0x100 f \<longleftrightarrow> 256 \<le> f \<and> f < 768"
    by (simp add: entry_covers_def load64_def l)
qed

theorem pmm_init_ok_witness:
  "\<exists>s'. pmm_init example_mbi 0 0x100000 0x104000 boot_pmm = Some s' \<and> pmm_inv s' \<and>
     \<not> bitmap_test 300 s' \<and> bitmap_test 257 s' \<and> bitmap_test 2000 s'"
proof -
  have "frame_refcount boot_pmm = (\<lambda>_. 0)" by (simp add: boot_pmm_def)
  then obtain s' where s': "pmm_init example_mbi 0 0x100000 0x104000 boot_pmm = Some s'" "pmm_inv s'"
    and free: "\<forall>f<32768. \<not> bitmap_test f s' \<longleftrightarrow> 256 \<le> f \<and> f < 768 \<and> \<not> (256 \<le> f \<and> f \<le> 260)"
    using pmm_init_ok [OF example_mbi_map(1), of boot_pmm "0x100000" "0x104000"]
    by (auto simp: example_mbi_map(2) MAX_FRAMES_val kstart_frame_def kend_frame_def)
  show ?thesis
    using s' free[rule_format, of 300] free[rule_format, of 257] free[rule_format, of 2000] by simp
qed

end
