(* ===== verification/Paging.thy ===== *)
theory Paging
  imports Pmm
begin

text \<open>
  \<open>kernel/paging.c\<close>: two-level i386 page tables. The state adds to the frame allocator the
  physical memory, CR0, CR3 and the statics of the file; the two static arrays \<open>page_directory\<close>
  and \<open>page_tables\<close> are given by their (page-aligned) addresses and live in that memory. The code
  reaches directories, tables and frames by dereferencing physical addresses through the identity
  map; the model reads and writes \<open>mem\<close> at those physical addresses. That is what the code does for every
  frame below 64 MiB whose identity mapping still stands; the header says which do not.

  \<open>invlpg\<close> has no counterpart (no TLB is modelled) and serial output is left out. Results
  \<open>1\<close>/\<open>0\<close> are Booleans.
\<close>

record vm = pmm +
  mem :: memory
  cr0 :: u32
  cr3 :: u32
  kernel_directory_phys :: u32
  page_directory :: addr
  page_tables :: addr

definition PAGE_PRESENT :: u32 where "PAGE_PRESENT = 0x1"
definition PAGE_RW :: u32 where "PAGE_RW = 0x2"
definition PAGE_USER :: u32 where "PAGE_USER = 0x4"
definition PAGE_COW :: u32 where "PAGE_COW = 0x200"
definition ENTRIES_PER_TABLE :: nat where "ENTRIES_PER_TABLE = 1024"
definition IDENTITY_MAP_TABLES :: nat where "IDENTITY_MAP_TABLES = 16"

lemmas page_consts = PAGE_PRESENT_def PAGE_RW_def PAGE_USER_def PAGE_COW_def
  ENTRIES_PER_TABLE_def IDENTITY_MAP_TABLES_def

section \<open>Addresses and entries\<close>

definition pd_index :: "addr \<Rightarrow> nat" where
  "pd_index virt_addr = unat (drop_bit 22 virt_addr)"

definition pt_index :: "addr \<Rightarrow> nat" where
  "pt_index virt_addr = unat (drop_bit 12 virt_addr AND 0x3FF)"

definition page_base :: "u32 \<Rightarrow> addr" where
  "page_base e = e AND 0xFFFFF000"

definition is_present :: "u32 \<Rightarrow> bool" where
  "is_present e \<longleftrightarrow> e AND PAGE_PRESENT \<noteq> 0"

definition make_pte :: "addr \<Rightarrow> u32 \<Rightarrow> u32" where
  "make_pte phys_addr flags = page_base phys_addr OR (flags AND 0xFFF) OR PAGE_PRESENT"

text \<open>\<open>page_tables[t]\<close>.\<close>

definition identity_table :: "'a vm_scheme \<Rightarrow> nat \<Rightarrow> addr" where
  "identity_table s t = page_tables s + of_nat (t * 4096)"

section \<open>Kernel mappings\<close>

definition paging_init_table :: "nat \<Rightarrow> 'a vm_scheme \<Rightarrow> 'a vm_scheme" where
  "paging_init_table t s =
     (let m1 = fold (\<lambda>i. set_entry (identity_table s t) i
            (of_nat (t * ENTRIES_PER_TABLE + i) * 4096 OR PAGE_PRESENT OR PAGE_RW))
          [0..<ENTRIES_PER_TABLE] (mem s)
      in s\<lparr>mem := set_entry (page_directory s) t
            (identity_table s t OR PAGE_PRESENT OR PAGE_RW) m1\<rparr>)"

definition paging_init :: "'a vm_scheme \<Rightarrow> 'a vm_scheme" where
  "paging_init s =
     (let s1 = s\<lparr>mem := fold (\<lambda>i. set_entry (page_directory s) i 0) [0..<ENTRIES_PER_TABLE] (mem s)\<rparr>;
          s2 = fold paging_init_table [0..<IDENTITY_MAP_TABLES] s1
      in s2\<lparr>cr3 := page_directory s, kernel_directory_phys := page_directory s,
            cr0 := cr0 s2 OR 0x80000000\<rparr>)"

definition paging_map_page ::
    "addr \<Rightarrow> addr \<Rightarrow> u32 \<Rightarrow> 'a vm_scheme \<Rightarrow> bool \<times> 'a vm_scheme" where
  "paging_map_page phys_addr virt_addr flags s =
     (if IDENTITY_MAP_TABLES \<le> pd_index virt_addr then (False, s)
      else (True, s\<lparr>mem := set_entry (identity_table s (pd_index virt_addr)) (pt_index virt_addr)
             (make_pte phys_addr flags) (mem s)\<rparr>))"

definition paging_clone_kernel_directory :: "'a vm_scheme \<Rightarrow> addr \<times> 'a vm_scheme" where
  "paging_clone_kernel_directory s =
     (let (phys, s1) = pmm_alloc_frame s in
      (phys, s1\<lparr>mem := fold (\<lambda>i m. set_entry phys i (get_entry m (page_directory s) i) m)
         [0..<ENTRIES_PER_TABLE] (mem s1)\<rparr>))"

definition zero_table :: "addr \<Rightarrow> memory \<Rightarrow> memory" where
  "zero_table table m = fold (\<lambda>i. set_entry table i 0) [0..<ENTRIES_PER_TABLE] m"

definition paging_map_kernel_page ::
    "addr \<Rightarrow> addr \<Rightarrow> u32 \<Rightarrow> 'a vm_scheme \<Rightarrow> bool \<times> 'a vm_scheme" where
  "paging_map_kernel_page phys_addr virt_addr flags s =
     (let pd = pd_index virt_addr;
          pde = get_entry (mem s) (page_directory s) pd;
          install = (\<lambda>table s. (True, s\<lparr>mem := set_entry table (pt_index virt_addr)
             (make_pte phys_addr flags) (mem s)\<rparr>))
      in if pd < IDENTITY_MAP_TABLES then install (identity_table s pd) s
         else if is_present pde then install (page_base pde) s
         else let (table_phys, s1) = pmm_alloc_frame s in
           if table_phys = 0 then (False, s1)
           else install table_phys (s1\<lparr>mem := set_entry (page_directory s) pd
             (table_phys OR PAGE_PRESENT OR PAGE_RW) (zero_table table_phys (mem s1))\<rparr>))"

section \<open>User mappings\<close>

definition paging_map_user_page ::
    "addr \<Rightarrow> addr \<Rightarrow> addr \<Rightarrow> u32 \<Rightarrow> 'a vm_scheme \<Rightarrow> bool \<times> 'a vm_scheme" where
  "paging_map_user_page dir_phys phys_addr virt_addr flags s =
     (let pd = pd_index virt_addr; pde = get_entry (mem s) dir_phys pd in
      if pd < IDENTITY_MAP_TABLES then (False, s)
      else
        let (table, s1) =
          (if \<not> is_present pde then
             let (table_phys, s1) = pmm_alloc_frame s in
             (table_phys, s1\<lparr>mem := set_entry dir_phys pd
                (table_phys OR PAGE_PRESENT OR PAGE_RW OR PAGE_USER) (zero_table table_phys (mem s1))\<rparr>)
           else (page_base pde, s))
        in (True, s1\<lparr>mem := set_entry table (pt_index virt_addr) (make_pte phys_addr flags) (mem s1)\<rparr>))"

definition paging_switch_directory :: "addr \<Rightarrow> 'a vm_scheme \<Rightarrow> 'a vm_scheme" where
  "paging_switch_directory dir_phys s = s\<lparr>cr3 := dir_phys\<rparr>"

definition paging_kernel_directory_phys :: "'a vm_scheme \<Rightarrow> addr" where
  "paging_kernel_directory_phys s = kernel_directory_phys s"

section \<open>Copy-on-write fork\<close>

definition cow_flags_of :: "u32 \<Rightarrow> u32" where
  "cow_flags_of pte = ((pte AND 0xFFF AND NOT PAGE_PRESENT) AND NOT PAGE_RW) OR PAGE_COW"

text \<open>The body of the inner loop: one present page of the parent, shared with the child.\<close>

definition clone_page :: "addr \<Rightarrow> addr \<Rightarrow> nat \<Rightarrow> nat \<Rightarrow> 'a vm_scheme \<Rightarrow> 'a vm_scheme" where
  "clone_page child_dir parent_table pd pt s =
     (let pte = get_entry (mem s) parent_table pt in
      if \<not> is_present pte then s
      else
        let phys = page_base pte;
            cow_flags = cow_flags_of pte;
            s1 = pmm_frame_addref phys s;
            virt = push_bit 22 (of_nat pd) OR push_bit 12 (of_nat pt);
            s2 = s1\<lparr>mem := set_entry parent_table pt (make_pte phys cow_flags) (mem s1)\<rparr>
        in snd (paging_map_user_page child_dir phys virt cow_flags s2))"

definition clone_table :: "addr \<Rightarrow> addr \<Rightarrow> nat \<Rightarrow> 'a vm_scheme \<Rightarrow> 'a vm_scheme" where
  "clone_table child_dir parent_dir pd s =
     (let pde = get_entry (mem s) parent_dir pd in
      if \<not> is_present pde then s
      else fold (clone_page child_dir (page_base pde) pd) [0..<ENTRIES_PER_TABLE] s)"

definition paging_clone_address_space :: "addr \<Rightarrow> 'a vm_scheme \<Rightarrow> addr \<times> 'a vm_scheme" where
  "paging_clone_address_space parent_dir s =
     (let (child_dir, s1) = paging_clone_kernel_directory s in
      (child_dir, fold (clone_table child_dir parent_dir)
         [IDENTITY_MAP_TABLES..<ENTRIES_PER_TABLE] s1))"

text \<open>The entry both branches of the fault handler install.\<close>

definition writable_pte :: "addr \<Rightarrow> u32 \<Rightarrow> u32" where
  "writable_pte phys flags = page_base phys OR (flags OR PAGE_RW) OR PAGE_PRESENT"

definition paging_handle_cow_fault :: "addr \<Rightarrow> 'a vm_scheme \<Rightarrow> bool \<times> 'a vm_scheme" where
  "paging_handle_cow_fault fault_addr s =
     (let dir = cr3 s;
          pde = get_entry (mem s) dir (pd_index fault_addr);
          table = page_base pde;
          pte = get_entry (mem s) table (pt_index fault_addr);
          old_phys = page_base pte;
          flags = pte AND 0xFFF AND NOT PAGE_COW;
          refcount = pmm_frame_refcount old_phys s
      in if \<not> is_present pde then (False, s)
         else if \<not> is_present pte then (False, s)
         else if pte AND PAGE_COW = 0 then (False, s)
         else if refcount \<le> 1 then
           (True, s\<lparr>mem := set_entry table (pt_index fault_addr)
              (writable_pte old_phys flags) (mem s)\<rparr>)
         else
           let (new_phys, s1) = pmm_alloc_frame s in
           if new_phys = 0 then (False, s1)
           else
             let s2 = s1\<lparr>mem := copy_frame new_phys old_phys (mem s1)\<rparr>;
                 s3 = pmm_free_frame old_phys s2
             in (True, s3\<lparr>mem := set_entry table (pt_index fault_addr)
                  (writable_pte new_phys flags) (mem s3)\<rparr>))"

section \<open>Teardown\<close>

definition free_page :: "addr \<Rightarrow> nat \<Rightarrow> 'a vm_scheme \<Rightarrow> 'a vm_scheme" where
  "free_page table pt s =
     (let pte = get_entry (mem s) table pt in
      if \<not> is_present pte then s
      else let s1 = pmm_free_frame (page_base pte) s
           in s1\<lparr>mem := set_entry table pt 0 (mem s1)\<rparr>)"

definition free_table :: "addr \<Rightarrow> nat \<Rightarrow> 'a vm_scheme \<Rightarrow> 'a vm_scheme" where
  "free_table dir pd s =
     (let pde = get_entry (mem s) dir pd in
      if \<not> is_present pde then s
      else let table = page_base pde;
               s1 = fold (free_page table) [0..<ENTRIES_PER_TABLE] s;
               s2 = pmm_free_frame table s1
           in s2\<lparr>mem := set_entry dir pd 0 (mem s2)\<rparr>)"

definition paging_free_address_space :: "addr \<Rightarrow> 'a vm_scheme \<Rightarrow> 'a vm_scheme" where
  "paging_free_address_space dir_phys s =
     fold (free_table dir_phys) [IDENTITY_MAP_TABLES..<ENTRIES_PER_TABLE] s"

section \<open>Entry arithmetic\<close>

lemma page_base_mask: "page_base e = e AND NOT (mask 12)"
proof -
  have "(0xFFFFF000 :: u32) = NOT (mask 12)" by (simp add: mask_eq_exp_minus_1)
  then show ?thesis by (simp add: page_base_def)
qed

lemma low_mask: "(0xFFF :: u32) = mask 12"
  by (simp add: mask_eq_exp_minus_1)

lemma page_aligned_mask: "page_aligned p \<longleftrightarrow> p AND mask 12 = 0"
proof -
  have "unat (p AND mask 12) = unat p mod 4096"
    by (simp flip: take_bit_eq_mask) (simp add: take_bit_eq_mod unat_mod)
  then show ?thesis by (simp add: page_aligned_def dvd_eq_mod_eq_0 word_unat_eq_iff)
qed

lemma page_aligned_base [simp]: "page_aligned (page_base e)"
  by (simp add: page_aligned_mask page_base_mask bit.conj_disj_distribs word_bw_assocs and.assoc)

lemma page_base_or_low:
  assumes "page_aligned p" "f AND NOT (mask 12) = 0"
  shows "page_base (p OR f) = p"
proof -
  have "p = p AND NOT (mask 12) OR p AND mask 12" by (simp flip: bit.conj_disj_distrib)
  then have "p AND NOT (mask 12) = p" using assms(1) by (simp add: page_aligned_mask)
  then show ?thesis using assms(2) by (simp add: page_base_mask bit.conj_disj_distrib2)
qed

lemma page_base_aligned [simp]: "page_aligned p \<Longrightarrow> page_base p = p"
  using page_base_or_low[of p 0] by simp

lemma page_base_pde:
  "page_aligned p \<Longrightarrow> page_base (p OR PAGE_PRESENT OR PAGE_RW) = p"
  "page_aligned p \<Longrightarrow> page_base (p OR PAGE_PRESENT OR PAGE_RW OR PAGE_USER) = p"
  by (simp_all add: or.assoc page_base_or_low page_consts mask_eq_exp_minus_1)

lemma page_base_make_pte [simp]: "page_base (make_pte a f) = page_base a"
proof -
  have "page_base (page_base a OR ((f AND mask 12) OR PAGE_PRESENT)) = page_base a"
    by (rule page_base_or_low)
      (simp_all add: bit.conj_disj_distrib2 and.assoc page_consts mask_eq_exp_minus_1)
  then show ?thesis by (simp add: make_pte_def or.assoc low_mask)
qed

lemma is_present_bit: "is_present e \<longleftrightarrow> bit e 0"
  by (simp add: is_present_def PAGE_PRESENT_def and_one_eq bit_0 odd_iff_mod_2_eq_one)

lemma is_present_or [simp]:
  "is_present (a OR PAGE_PRESENT OR b)" "is_present (a OR PAGE_PRESENT)" "is_present (make_pte p f)"
  by (auto simp: is_present_bit bit_or_iff PAGE_PRESENT_def make_pte_def)

lemma not_present_0 [simp]: "\<not> is_present 0"
  by (simp add: is_present_def)

lemma pd_index_lt [simp]: "pd_index a < 1024"
proof -
  have "unat (drop_bit 22 a) = unat a div 2 ^ 22" by (simp add: drop_bit_eq_div unat_div)
  moreover have "unat a < 2 ^ 32" using unsigned_less[of a] by simp
  ultimately show ?thesis by (simp add: pd_index_def less_mult_imp_div_less)
qed

lemma pt_index_lt [simp]: "pt_index a < 1024"
proof -
  have m: "(0x3FF :: u32) = mask 10" by (simp add: mask_eq_exp_minus_1)
  have "unat (drop_bit 12 a AND 0x3FF) = unat (drop_bit 12 a) mod 1024"
    unfolding m by (simp flip: take_bit_eq_mask) (simp add: take_bit_eq_mod unat_mod)
  then show ?thesis by (simp add: pt_index_def)
qed

section \<open>Frames of the operations\<close>

lemma pmm_ops_vm [simp]:
  "mem (pmm_free_frame a s) = mem s" "mem (pmm_frame_addref a s) = mem s"
  "mem (snd (pmm_alloc_frame s)) = mem s" "mem (alloc_at i s) = mem s"
  "cr3 (pmm_free_frame a s) = cr3 s" "cr3 (pmm_frame_addref a s) = cr3 s"
  "cr3 (snd (pmm_alloc_frame s)) = cr3 s" "cr3 (alloc_at i s) = cr3 s"
  "page_directory (pmm_free_frame a s) = page_directory s"
  "page_directory (pmm_frame_addref a s) = page_directory s"
  "page_directory (snd (pmm_alloc_frame s)) = page_directory s"
  "page_tables (pmm_free_frame a s) = page_tables s"
  "page_tables (pmm_frame_addref a s) = page_tables s"
  "page_tables (snd (pmm_alloc_frame s)) = page_tables s"
  by (simp_all add: pmm_free_frame_def pmm_frame_addref_def pmm_alloc_frame_def alloc_at_def Let_def
      mark_free_def bitmap_clear_def bitmap_set_def split: option.split)

lemma pmm_of_mem_upd [simp]:
  "bitmap_test f (s\<lparr>mem := m\<rparr>) = bitmap_test f s" "pmm_inv (s\<lparr>mem := m\<rparr>) = pmm_inv s"
  "frame_refs (s\<lparr>mem := m\<rparr>) = frame_refs s"
  "pmm_alloc_frame (s\<lparr>mem := m\<rparr>) = (fst (pmm_alloc_frame s), (snd (pmm_alloc_frame s))\<lparr>mem := m\<rparr>)"
  "pmm_frame_refcount a (s\<lparr>mem := m\<rparr>) = pmm_frame_refcount a s"
  "pmm_free_frame a (s\<lparr>mem := m\<rparr>) = (pmm_free_frame a s)\<lparr>mem := m\<rparr>"
  "pmm_frame_addref a (s\<lparr>mem := m\<rparr>) = (pmm_frame_addref a s)\<lparr>mem := m\<rparr>"
  by (simp_all add: bitmap_test_def pmm_inv_def counts_ok_def used_count_def frame_refs_def fun_eq_iff
      pmm_alloc_frame_def bitmap_set_def pmm_frame_refcount_def pmm_free_frame_def Let_def
      mark_free_def bitmap_clear_def pmm_frame_addref_def split: option.split)

lemma get_zero_table:
  "page_aligned t \<Longrightarrow> page_aligned q \<Longrightarrow> j < 1024 \<Longrightarrow>
    get_entry (zero_table t m) q j = (if t = q then 0 else get_entry m q j)"
  unfolding zero_table_def ENTRIES_PER_TABLE_def
  by (simp add: word_mem.fill[where f = "\<lambda>_. 0"])

section \<open>Address spaces\<close>

text \<open>
  What a walk through a directory finds at index \<open>(pd, pt)\<close>: \<open>None\<close> when the directory entry is
  not present, otherwise the table's entry.
\<close>

definition user_pte :: "memory \<Rightarrow> addr \<Rightarrow> nat \<Rightarrow> nat \<Rightarrow> u32 option" where
  "user_pte m dir pd pt =
     (let pde = get_entry m dir pd in
      if is_present pde then Some (get_entry m (page_base pde) pt) else None)"

definition frame_live :: "'a pmm_scheme \<Rightarrow> addr \<Rightarrow> bool" where
  "frame_live s a \<longleftrightarrow> bitmap_test (frame_of a) s"

text \<open>
  A directory is well formed when it and its user tables are frames in use and no two user slots
  share a table, nor is a table the directory itself.
\<close>

definition as_wf :: "'a vm_scheme \<Rightarrow> addr \<Rightarrow> bool" where
  "as_wf s dir \<longleftrightarrow> page_aligned dir \<and> frame_live s dir \<and>
     (\<forall>pd. 16 \<le> pd \<and> pd < 1024 \<longrightarrow> is_present (get_entry (mem s) dir pd) \<longrightarrow>
        page_base (get_entry (mem s) dir pd) \<noteq> dir \<and>
        frame_live s (page_base (get_entry (mem s) dir pd)) \<and>
        (\<forall>pd'. 16 \<le> pd' \<and> pd' < 1024 \<and> is_present (get_entry (mem s) dir pd') \<and>
           page_base (get_entry (mem s) dir pd') = page_base (get_entry (mem s) dir pd) \<longrightarrow> pd' = pd))"

lemma as_wfD: "as_wf s dir \<Longrightarrow> page_aligned dir" "as_wf s dir \<Longrightarrow> frame_live s dir"
  by (simp_all add: as_wf_def)

lemma as_wf_table:
  assumes "as_wf s dir" "16 \<le> i" "i < 1024" "is_present (get_entry (mem s) dir i)"
  shows "page_base (get_entry (mem s) dir i) \<noteq> dir" "frame_live s (page_base (get_entry (mem s) dir i))"
  using assms by (simp_all add: as_wf_def)

lemma as_wf_inj:
  assumes "as_wf s dir" "16 \<le> i" "i < 1024" "is_present (get_entry (mem s) dir i)"
    "16 \<le> j" "j < 1024" "is_present (get_entry (mem s) dir j)"
    "page_base (get_entry (mem s) dir j) = page_base (get_entry (mem s) dir i)"
  shows "j = i"
  using assms unfolding as_wf_def by blast

lemma as_wf_mono:
  assumes wf: "as_wf s dir"
    and same: "\<And>pd. pd < 1024 \<Longrightarrow> get_entry (mem t) dir pd = get_entry (mem s) dir pd"
    and live: "\<And>q. frame_live s q \<Longrightarrow> frame_live t q"
  shows "as_wf t dir"
  unfolding as_wf_def
proof (intro conjI allI impI)
  show "page_aligned dir" "frame_live t dir" using wf live by (auto simp: as_wf_def)
  fix pd assume pd: "16 \<le> pd \<and> pd < 1024" "is_present (get_entry (mem t) dir pd)"
  then have eq: "get_entry (mem t) dir pd = get_entry (mem s) dir pd" using same by simp
  with pd wf show "page_base (get_entry (mem t) dir pd) \<noteq> dir"
    "frame_live t (page_base (get_entry (mem t) dir pd))"
    using live by (simp_all add: as_wf_def)
  fix pd' assume pd': "16 \<le> pd' \<and> pd' < 1024 \<and> is_present (get_entry (mem t) dir pd') \<and>
    page_base (get_entry (mem t) dir pd') = page_base (get_entry (mem t) dir pd)"
  then have "get_entry (mem t) dir pd' = get_entry (mem s) dir pd'" using same by simp
  with pd pd' eq wf show "pd' = pd" unfolding as_wf_def by metis
qed

lemma map_user_page_present:
  assumes "16 \<le> pd_index virt" "is_present (get_entry (mem s) dir (pd_index virt))"
  shows "paging_map_user_page dir phys virt flags s =
    (True, s\<lparr>mem := set_entry (page_base (get_entry (mem s) dir (pd_index virt))) (pt_index virt)
       (make_pte phys flags) (mem s)\<rparr>)"
  using assms by (simp add: paging_map_user_page_def IDENTITY_MAP_TABLES_def)

lemma map_user_page_new:
  assumes "16 \<le> pd_index virt" "\<not> is_present (get_entry (mem s) dir (pd_index virt))"
    and "pmm_alloc_frame s = (t, s1)"
  shows "paging_map_user_page dir phys virt flags s =
    (True, s1\<lparr>mem := set_entry t (pt_index virt) (make_pte phys flags)
       (set_entry dir (pd_index virt) (t OR PAGE_PRESENT OR PAGE_RW OR PAGE_USER)
         (zero_table t (mem s)))\<rparr>)"
  using assms pmm_ops_vm(3)[of s]
  by (simp add: paging_map_user_page_def IDENTITY_MAP_TABLES_def Let_def)

text \<open>A page that is neither the directory nor one of the tables written is untouched.\<close>

lemma map_user_page_other:
  assumes "pmm_inv s" "page_aligned dir" "page_aligned q" "i < 1024" "q \<noteq> dir" "frame_live s q"
    and "is_present (get_entry (mem s) dir (pd_index virt)) \<Longrightarrow>
      q \<noteq> page_base (get_entry (mem s) dir (pd_index virt))"
    and "is_present (get_entry (mem s) dir (pd_index virt)) \<or> fst (pmm_alloc_frame s) \<noteq> 0"
  shows "get_entry (mem (snd (paging_map_user_page dir phys virt flags s))) q i = get_entry (mem s) q i"
proof (cases "16 \<le> pd_index virt")
  case False
  then show ?thesis by (simp add: paging_map_user_page_def IDENTITY_MAP_TABLES_def)
next
  case True
  show ?thesis
  proof (cases "is_present (get_entry (mem s) dir (pd_index virt))")
    case present: True
    then show ?thesis using assms True
      by (simp add: map_user_page_present word_mem.get_put)
  next
    case absent: False
    obtain t s1 where alloc: "pmm_alloc_frame s = (t, s1)" by fastforce
    with assms absent have "page_aligned t" "\<not> frame_live s t"
      using frames.alloc_fresh[OF assms(1) alloc] pmm_alloc_free[OF assms(1) alloc]
      by (auto simp: frame_live_def)
    moreover from this assms(6) have "q \<noteq> t" by auto
    ultimately show ?thesis using assms True absent
      by (simp add: map_user_page_new[OF True absent alloc] word_mem.get_put get_zero_table)
  qed
qed

lemma map_user_page_live:
  assumes "pmm_inv s" "frame_live s q"
  shows "frame_live (snd (paging_map_user_page dir phys virt flags s)) q"
proof -
  have "frame_live (snd (pmm_alloc_frame s)) q"
    using assms(2) by (cases s rule: pmm_alloc_cases) (auto simp: frame_live_def)
  with assms(2) show ?thesis
    by (auto simp: paging_map_user_page_def Let_def frame_live_def split_def)
qed

lemma map_user_page_pmm_inv [kinv]:
  "pmm_inv s \<Longrightarrow> pmm_inv (snd (paging_map_user_page dir phys virt flags s))"
  by (auto simp: paging_map_user_page_def Let_def split_def intro: pmm_alloc_frame_inv)

text \<open>What a walk finds after the mapping.\<close>

lemma map_user_page_walk:
  assumes inv: "pmm_inv s" and wf: "as_wf s dir" and pd: "16 \<le> pd_index virt"
    and room: "is_present (get_entry (mem s) dir (pd_index virt)) \<or> fst (pmm_alloc_frame s) \<noteq> 0"
    and idx: "16 \<le> pd" "pd < 1024" "pt < 1024"
  shows "user_pte (mem (snd (paging_map_user_page dir phys virt flags s))) dir pd pt =
    (if pd = pd_index virt then
       if pt = pt_index virt then Some (make_pte phys flags)
       else Some (case user_pte (mem s) dir pd pt of Some e \<Rightarrow> e | None \<Rightarrow> 0)
     else user_pte (mem s) dir pd pt)"
proof (cases "is_present (get_entry (mem s) dir (pd_index virt))")
  case True
  have "page_aligned dir" using wf by (simp add: as_wf_def)
  moreover have "page_base (get_entry (mem s) dir (pd_index virt)) \<noteq> dir"
    using wf pd True by (simp add: as_wf_def)
  moreover have "page_base (get_entry (mem s) dir pd) = page_base (get_entry (mem s) dir (pd_index virt))
      \<longleftrightarrow> pd = pd_index virt" if "is_present (get_entry (mem s) dir pd)"
    using wf pd True idx that by (auto simp: as_wf_def)
  ultimately show ?thesis using True idx
    by (auto simp: map_user_page_present[OF pd] user_pte_def Let_def word_mem.get_put)
next
  case False
  obtain t s1 where alloc: "pmm_alloc_frame s = (t, s1)" by fastforce
  with room False have t0: "t \<noteq> 0" by simp
  have t: "page_aligned t" using frames.alloc_fresh[OF inv alloc t0] by simp
  have fresh: "\<not> frame_live s t" using pmm_alloc_free[OF inv alloc t0] by (simp add: frame_live_def)
  have dir: "page_aligned dir" "t \<noteq> dir" using wf fresh by (auto simp: as_wf_def)
  have "page_base (get_entry (mem s) dir pd) \<noteq> t \<and> page_base (get_entry (mem s) dir pd) \<noteq> dir"
    if "is_present (get_entry (mem s) dir pd)"
    using wf idx that fresh by (auto simp: as_wf_def)
  with t dir False idx show ?thesis
    by (auto simp: map_user_page_new[OF pd False alloc] user_pte_def Let_def word_mem.get_put
        get_zero_table page_base_pde)
qed

lemma map_user_page_wf [kinv]:
  assumes inv: "pmm_inv s" and wf: "as_wf s dir"
    and room: "is_present (get_entry (mem s) dir (pd_index virt)) \<or> fst (pmm_alloc_frame s) \<noteq> 0"
  shows "as_wf (snd (paging_map_user_page dir phys virt flags s)) dir"
proof (cases "16 \<le> pd_index virt")
  case False
  then show ?thesis using wf by (simp add: paging_map_user_page_def IDENTITY_MAP_TABLES_def)
next
  case pd: True
  show ?thesis
  proof (cases "is_present (get_entry (mem s) dir (pd_index virt))")
    case True
    then have "page_aligned dir" "page_base (get_entry (mem s) dir (pd_index virt)) \<noteq> dir"
      using wf pd by (auto simp: as_wf_def)
    then have "get_entry (mem (snd (paging_map_user_page dir phys virt flags s))) dir pd' =
        get_entry (mem s) dir pd'" if "pd' < 1024" for pd'
      using that by (simp add: map_user_page_present[OF pd True] word_mem.get_put)
    moreover have "frame_live (snd (paging_map_user_page dir phys virt flags s)) = frame_live s"
      by (simp add: map_user_page_present[OF pd True] frame_live_def fun_eq_iff)
    ultimately show ?thesis using wf by (intro as_wf_mono[OF wf]) simp_all
  next
    case False
    obtain t s1 where alloc: "pmm_alloc_frame s = (t, s1)" by fastforce
    with room False have t0: "t \<noteq> 0" by simp
    have t: "page_aligned t" using frames.alloc_fresh[OF inv alloc t0] by simp
    have fresh: "\<not> frame_live s t" and live: "frame_live s1 q \<longleftrightarrow> frame_of q = frame_of t \<or> frame_live s q" for q
      using pmm_alloc_free[OF inv alloc t0] by (auto simp: frame_live_def)
    have dir: "page_aligned dir" "t \<noteq> dir" using wf fresh by (auto simp: as_wf_def)
    let ?m = "mem (snd (paging_map_user_page dir phys virt flags s))"
    have get: "get_entry ?m dir pd' = (if pd' = pd_index virt then t OR PAGE_PRESENT OR PAGE_RW OR PAGE_USER
        else get_entry (mem s) dir pd')" if "pd' < 1024" for pd'
      using that t dir
      by (simp add: map_user_page_new[OF pd False alloc] word_mem.get_put get_zero_table)
    have base: "page_base (get_entry (mem s) dir pd') \<noteq> t" if "16 \<le> pd'" "pd' < 1024"
        "is_present (get_entry (mem s) dir pd')" for pd'
      using wf that fresh by (auto simp: as_wf_def)
    have live': "frame_live (snd (paging_map_user_page dir phys virt flags s)) q \<longleftrightarrow>
        frame_of q = frame_of t \<or> frame_live s q" for q
      using live[of q] by (simp add: map_user_page_new[OF pd False alloc] frame_live_def)
    show ?thesis unfolding as_wf_def
    proof (intro conjI allI impI)
      show "page_aligned dir" by (rule dir)
      show "frame_live (snd (paging_map_user_page dir phys virt flags s)) dir"
        using live' as_wfD(2)[OF wf] by simp
      have base_m: "page_base (get_entry ?m dir k) =
          (if k = pd_index virt then t else page_base (get_entry (mem s) dir k))"
        and old: "is_present (get_entry ?m dir k) \<Longrightarrow> k \<noteq> pd_index virt \<Longrightarrow>
          is_present (get_entry (mem s) dir k)" if "k < 1024" for k
        using that by (simp_all add: get page_base_pde t)
      fix i assume i: "16 \<le> i \<and> i < 1024" and pres_i: "is_present (get_entry ?m dir i)"
      show "page_base (get_entry ?m dir i) \<noteq> dir"
        using i old[OF _ pres_i] as_wf_table(1)[OF wf, of i] dir by (simp add: base_m)
      show "frame_live (snd (paging_map_user_page dir phys virt flags s)) (page_base (get_entry ?m dir i))"
        using i old[OF _ pres_i] as_wf_table(2)[OF wf, of i] by (simp add: base_m live')
      fix j assume "16 \<le> j \<and> j < 1024 \<and> is_present (get_entry ?m dir j) \<and>
        page_base (get_entry ?m dir j) = page_base (get_entry ?m dir i)"
      then have j: "16 \<le> j \<and> j < 1024" and pres_j: "is_present (get_entry ?m dir j)"
        and eq: "page_base (get_entry ?m dir j) = page_base (get_entry ?m dir i)" by blast+
      show "j = i"
        using i j old[OF _ pres_i] old[OF _ pres_j] base[of i] base[of j] as_wf_inj[OF wf, of i j] eq
        by (simp add: base_m split: if_splits)
    qed
  qed
qed

section \<open>Copy-on-write entries\<close>

definition is_writable :: "u32 \<Rightarrow> bool" where
  "is_writable e \<longleftrightarrow> e AND PAGE_RW \<noteq> 0"

definition is_cow :: "u32 \<Rightarrow> bool" where
  "is_cow e \<longleftrightarrow> e AND PAGE_COW \<noteq> 0"

lemma pte_bits:
  "is_writable e \<longleftrightarrow> bit e 1" "is_cow e \<longleftrightarrow> bit e 9"
  using and_shift_one_eq_0_iff[of 1 e] and_shift_one_eq_0_iff[of 9 e]
  by (simp_all add: is_writable_def is_cow_def page_consts push_bit_of_1)

lemma bit_page_base: "bit (page_base e) n \<longleftrightarrow> bit e n \<and> 12 \<le> n"
  by (auto simp: page_base_mask bit_and_iff bit_not_iff bit_mask_iff dest: bit_imp_le_length)

lemma bit_const:
  "bit PAGE_PRESENT n \<longleftrightarrow> n = 0" "bit PAGE_RW n \<longleftrightarrow> n = 1" "bit PAGE_COW n \<longleftrightarrow> n = 9"
  using bit_shift_one_iff[where 'a = 32, of 0 n] bit_shift_one_iff[where 'a = 32, of 1 n]
    bit_shift_one_iff[where 'a = 32, of 9 n]
  by (simp_all add: page_consts push_bit_of_1)

lemma bit_low: "bit (e AND (0xFFF :: u32)) n \<longleftrightarrow> bit e n \<and> n < 12"
  by (auto simp: low_mask bit_and_iff bit_mask_iff)

lemma bit_page_flags:
  "bit (make_pte a f) n \<longleftrightarrow> (12 \<le> n \<and> bit a n) \<or> (n < 12 \<and> bit f n) \<or> n = 0"
  "bit (writable_pte a (f AND 0xFFF AND NOT PAGE_COW)) n \<longleftrightarrow>
    (12 \<le> n \<and> bit a n) \<or> (n < 12 \<and> n \<noteq> 9 \<and> bit f n) \<or> n = 0 \<or> n = 1"
  "bit (cow_flags_of f) n \<longleftrightarrow> (n < 12 \<and> n \<noteq> 0 \<and> n \<noteq> 1 \<and> bit f n) \<or> n = 9"
  by (auto simp: make_pte_def writable_pte_def cow_flags_of_def bit_or_iff bit_and_iff bit_not_iff
      bit_page_base bit_const low_mask bit_mask_iff dest: bit_imp_le_length)

lemma page_base_writable [simp]:
  "page_base (writable_pte a (f AND 0xFFF AND NOT PAGE_COW)) = page_base a"
  by (rule bit_word_eqI) (auto simp: bit_page_base bit_page_flags)

section \<open>Resolving a copy-on-write fault\<close>

lemma pmm_frame_refcount_le1: "pmm_frame_refcount a s \<le> 1 \<longleftrightarrow> frame_refs s (frame_of a) \<le> 1"
  proof -
  have "unat (ucast x :: u32) = unat x" for x :: u8
  proof -
    have "unat x < 2 ^ 8" using unsigned_less[of x] by simp
    then show ?thesis by (simp add: unsigned_ucast_eq take_bit_nat_eq_self)
  qed
  then show ?thesis by (simp add: pmm_frame_refcount_def frame_refs_def Let_def word_le_nat_alt)
qed

lemma walk_Some:
  "user_pte m dir pd pt = Some e \<Longrightarrow>
    is_present (get_entry m dir pd) \<and> get_entry m (page_base (get_entry m dir pd)) pt = e"
  by (auto simp: user_pte_def Let_def split: if_splits)

lemma cow_fault_copy_eq:
  assumes walk: "user_pte (mem s) (cr3 s) (pd_index va) (pt_index va) = Some pte"
    and pte: "is_present pte" "is_cow pte"
    and shared: "1 < frame_refs s (frame_of (page_base pte))"
    and alloc: "pmm_alloc_frame s = (new, s1)" "new \<noteq> 0"
  shows "paging_handle_cow_fault va s = (True, (pmm_free_frame (page_base pte) s1)
    \<lparr>mem := set_entry (page_base (get_entry (mem s) (cr3 s) (pd_index va))) (pt_index va)
       (writable_pte new (pte AND 0xFFF AND NOT PAGE_COW)) (copy_frame new (page_base pte) (mem s))\<rparr>)"
proof -
  have "\<not> pmm_frame_refcount (page_base pte) s \<le> 1"
    using shared by (simp add: pmm_frame_refcount_le1)
  moreover have "mem s1 = mem s" using pmm_ops_vm(3)[of s] alloc(1) by simp
  ultimately show ?thesis
    using walk_Some[OF walk] pte alloc by (simp add: paging_handle_cow_fault_def Let_def is_cow_def)
qed

text \<open>
  Writing one entry of a user table changes the walk at that place only.
\<close>

lemma walk_set_entry:
  assumes wf: "as_wf s dir" and at: "16 \<le> pd0" "pd0 < 1024" "pt0 < 1024"
    and pde: "is_present (get_entry (mem s) dir pd0)"
    and same: "\<And>q i. page_aligned q \<Longrightarrow> frame_live s q \<Longrightarrow> i < 1024 \<Longrightarrow> get_entry m q i = get_entry (mem s) q i"
    and idx: "16 \<le> pd" "pd < 1024" "pt < 1024"
  shows "user_pte (set_entry (page_base (get_entry (mem s) dir pd0)) pt0 e m) dir pd pt =
    (if pd = pd0 \<and> pt = pt0 then Some e else user_pte (mem s) dir pd pt)"
proof -
  let ?T = "page_base (get_entry (mem s) dir pd0)"
  have dir: "page_aligned dir" "frame_live s dir" "?T \<noteq> dir" "frame_live s ?T"
    using as_wfD[OF wf] as_wf_table[OF wf at(1,2) pde] by auto
  have pde_m: "get_entry m dir i = get_entry (mem s) dir i" if "i < 1024" for i
    using same dir that by simp
  have inj: "page_base (get_entry (mem s) dir pd) = ?T \<longleftrightarrow> pd = pd0"
    if "is_present (get_entry (mem s) dir pd)"
    using as_wf_inj[OF wf at(1,2) pde idx(1,2) that] by auto
  have tab: "get_entry m (page_base (get_entry (mem s) dir pd)) pt =
      get_entry (mem s) (page_base (get_entry (mem s) dir pd)) pt"
    if "is_present (get_entry (mem s) dir pd)"
    using same as_wf_table(2)[OF wf idx(1,2) that] idx by simp
  show ?thesis
    using idx at dir inj tab pde by (auto simp: user_pte_def Let_def word_mem.get_put pde_m)
qed

section \<open>A concrete address space for the witnesses\<close>

text \<open>
  The boot-time frame allocator with a memory, and on it a process whose directory, page table
  and data page are the first three frames the allocator hands out. The data page is mapped
  read-only and copy-on-write at \<open>0x4000000\<close>.
\<close>

definition boot_vm :: "memory \<Rightarrow> vm" where
  "boot_vm m = pmm.extend boot_pmm (vm.fields m 1 0x100000 0x80000 0x80000 0x81000)"

lemma boot_vm_simps [simp]:
  "pmm_inv (boot_vm m)" "bitmap_test f (boot_vm m) \<longleftrightarrow> f < 256" "mem (boot_vm m) = m"
  "cr3 (boot_vm m) = 0x100000" "frame_refcount (boot_vm m) = (\<lambda>_. 0)"
  "page_directory (boot_vm m) = 0x80000" "page_tables (boot_vm m) = 0x81000"
proof -
  have test: "bitmap_test f (boot_vm m) = bitmap_test f boot_pmm" for f
    by (simp add: bitmap_test_def boot_vm_def pmm.defs boot_pmm_def)
  then show "bitmap_test f (boot_vm m) \<longleftrightarrow> f < 256" by simp
  from test have "used_count (boot_vm m) = used_count boot_pmm" by (rule used_count_cong)
  with test boot_pmm_inv show "pmm_inv (boot_vm m)"
    by (simp add: pmm_inv_def counts_ok_def) (simp add: boot_vm_def pmm.defs boot_pmm_def)
qed (simp_all add: boot_vm_def pmm.defs vm.defs boot_pmm_def)

definition demo_mem :: memory where
  "demo_mem = set_entry 0x101000 0 0x102205 (set_entry 0x100000 16 0x101007 (\<lambda>_. 0))"

definition demo_vm :: vm where
  "demo_vm = alloc_at 258 (alloc_at 257 (alloc_at 256 (boot_vm demo_mem)))"

lemma alloc_at_fields [simp]:
  "mem (alloc_at i s) = mem s" "cr3 (alloc_at i s) = cr3 s"
  "page_directory (alloc_at i s) = page_directory s" "page_tables (alloc_at i s) = page_tables s"
  by (simp_all add: alloc_at_def bitmap_set_def)

lemma demo_vm_simps [simp]:
  "bitmap_test f demo_vm \<longleftrightarrow> f < 259" "mem demo_vm = demo_mem" "cr3 demo_vm = 0x100000"
  "frame_refcount demo_vm = (\<lambda>f. if f \<in> {256, 257, 258} then 1 else 0)"
  "page_directory demo_vm = 0x80000"
  by (auto simp: demo_vm_def)

lemma demo_vm_inv: "pmm_inv demo_vm"
  unfolding demo_vm_def by (intro alloc_at_inv) (auto simp: MAX_FRAMES_val)

lemma get_entry_zero_mem [simp]: "get_entry (\<lambda>_. 0) p i = 0"
  by (simp add: get_entry_def load32_def)

lemma page_aligned_demo [simp]:
  "page_aligned 0x100000" "page_aligned 0x101000" "page_aligned 0x102000" "page_aligned 0x103000"
  "page_aligned 0x80000"
  by (simp_all add: page_aligned_def)

lemma demo_mem_dir [simp]:
  "i < 1024 \<Longrightarrow> get_entry demo_mem 0x100000 i = (if i = 16 then 0x101007 else 0)"
  "i < 1024 \<Longrightarrow> get_entry demo_mem 0x101000 i = (if i = 0 then 0x102205 else 0)"
  "i < 1024 \<Longrightarrow> get_entry demo_mem 0x80000 i = 0"
  by (simp_all add: demo_mem_def word_mem.get_put)

lemma demo_ptes [simp]:
  "page_base 0x101007 = 0x101000" "page_base 0x102205 = 0x102000"
  "is_present 0x101007" "is_present 0x102205" "is_cow 0x102205"
  "pd_index 0x4000000 = 16" "pt_index 0x4000000 = 0"
  by (simp_all add: page_base_def is_present_def is_cow_def page_consts pd_index_def pt_index_def)

lemma demo_frames [simp]:
  "frame_of 0x100000 = 256" "frame_of 0x101000 = 257" "frame_of 0x102000 = 258"
  "frame_of 0x103000 = 259"
  by (simp_all add: frame_of_def)

lemma demo_vm_wf: "as_wf demo_vm 0x100000"
  by (auto simp: as_wf_def frame_live_def split: if_splits)

lemma demo_walk [simp]: "user_pte demo_mem 0x100000 16 0 = Some 0x102205"
  by (simp add: user_pte_def)

section \<open>Properties\<close>

text \<open>C5: a write fault on a copy-on-write page whose frame is still shared gives the faulting
  address space a private, writable, non-COW frame that was free before and holds the same 4096
  bytes; the shared frame keeps its contents and loses exactly one reference; no other page of the
  address space changes.\<close>

theorem cow_fault_copies:
  assumes inv: "pmm_inv s" and wf: "as_wf s (cr3 s)" and user: "16 \<le> pd_index va"
    and walk: "user_pte (mem s) (cr3 s) (pd_index va) (pt_index va) = Some pte"
    and pte: "is_present pte" "is_cow pte"
    and shared: "1 < frame_refs s (frame_of (page_base pte))"
    and data: "page_base pte \<noteq> page_base (get_entry (mem s) (cr3 s) (pd_index va))"
    and room: "fst (pmm_alloc_frame s) \<noteq> 0"
  shows "\<exists>s' e. paging_handle_cow_fault va s = (True, s') \<and> pmm_inv s' \<and>
    (\<forall>pd pt. 16 \<le> pd \<and> pd < 1024 \<and> pt < 1024 \<longrightarrow> user_pte (mem s') (cr3 s) pd pt =
       (if pd = pd_index va \<and> pt = pt_index va then Some e else user_pte (mem s) (cr3 s) pd pt)) \<and>
    is_present e \<and> is_writable e \<and> \<not> is_cow e \<and> \<not> frame_live s (page_base e) \<and>
    (\<forall>b<4096. mem s' (page_base e + of_nat b) = mem s (page_base pte + of_nat b)) \<and>
    (\<forall>b<4096. mem s' (page_base pte + of_nat b) = mem s (page_base pte + of_nat b)) \<and>
    frame_refs s' = (frame_refs s)(frame_of (page_base e) := 1,
      frame_of (page_base pte) := frame_refs s (frame_of (page_base pte)) - 1)"
proof -
  let ?old = "page_base pte" and ?T = "page_base (get_entry (mem s) (cr3 s) (pd_index va))"
  obtain new s1 where alloc: "pmm_alloc_frame s = (new, s1)" by fastforce
  with room have new0: "new \<noteq> 0" by simp
  let ?e = "writable_pte new (pte AND 0xFFF AND NOT PAGE_COW)"
  let ?m = "copy_frame new ?old (mem s)"
  let ?s' = "(pmm_free_frame ?old s1)\<lparr>mem := set_entry ?T (pt_index va) ?e ?m\<rparr>"
  note res = cow_fault_copy_eq[OF walk pte shared alloc new0]
  have new: "page_aligned new" and refs1: "frame_refs s1 = (frame_refs s)(frame_of new := 1)"
    and fresh: "\<not> frame_live s new"
    using frames.alloc_fresh[OF inv alloc new0] pmm_alloc_free[OF inv alloc new0]
    by (auto simp: frame_live_def)
  have inv1: "pmm_inv s1" using pmm_alloc_frame_inv[OF inv] alloc by simp
  have pres: "is_present (get_entry (mem s) (cr3 s) (pd_index va))" using walk_Some[OF walk] by simp
  have T: "frame_live s ?T" using as_wf_table(2)[OF wf user _ pres] by simp
  have old: "frame_live s ?old"
    using inv shared by (auto simp: frame_live_def pmm_inv_def frame_refs_def split: if_splits)
  have ne: "new \<noteq> ?old" "new \<noteq> ?T" "frame_of new \<noteq> frame_of ?old"
    using fresh T old by (auto simp: frame_live_def)
  have copy: "?m (q + of_nat b) = (if q = new then mem s (?old + of_nat b) else mem s (q + of_nat b))"
    if "page_aligned q" "b < 4096" for q b
    using copy_frame_bytes[OF new _ that(1) ne(1) that(2)] by simp
  have same: "get_entry ?m q i = get_entry (mem s) q i"
    if "page_aligned q" "frame_live s q" "i < 1024" for q i
    using that fresh by (intro get_entry_bytes_cong) (auto simp: copy)
  have bytes: "mem ?s' (q + of_nat b) = ?m (q + of_nat b)"
    if "page_aligned q" "q \<noteq> ?T" "b < 4096" for q b
    using that by (simp add: set_entry_other_page[of ?T])
  have base: "page_base ?e = new" using new by simp
  have "pmm_inv ?s'" using inv1 by (simp add: pmm_free_frame_inv)
  moreover have "is_present ?e" "is_writable ?e" "\<not> is_cow ?e"
    by (simp_all add: is_present_bit pte_bits bit_page_flags)
  moreover have "user_pte (mem ?s') (cr3 s) pd pt =
      (if pd = pd_index va \<and> pt = pt_index va then Some ?e else user_pte (mem s) (cr3 s) pd pt)"
    if "16 \<le> pd \<and> pd < 1024 \<and> pt < 1024" for pd pt
    using walk_set_entry[OF wf user _ _ pres same, of "pt_index va" pd pt ?e] that by simp
  moreover have "frame_refs ?s' = (frame_refs s)(frame_of new := 1,
      frame_of ?old := frame_refs s (frame_of ?old) - 1)"
    using frames.release_refs[OF inv1, of ?old] refs1 ne(3) by simp
  moreover have "\<forall>b<4096. mem ?s' (new + of_nat b) = mem s (?old + of_nat b)"
    using bytes[OF new ne(2)] copy[OF new] by simp
  moreover have "\<forall>b<4096. mem ?s' (?old + of_nat b) = mem s (?old + of_nat b)"
    using bytes[OF _ data] copy[of ?old] ne(1) by simp
  ultimately show ?thesis using res fresh base by metis
qed

theorem cow_fault_copies_witness:
  "\<exists>s' e. paging_handle_cow_fault 0x4000000 (pmm_frame_addref 0x102000 demo_vm) = (True, s') \<and> pmm_inv s' \<and>
     user_pte (mem s') 0x100000 16 0 = Some e \<and> is_writable e \<and>
     mem s' (page_base e + 5) = demo_mem (0x102000 + 5) \<and> frame_refs s' 258 = 1"
proof -
  let ?s = "pmm_frame_addref 0x102000 demo_vm"
  have inv: "pmm_inv ?s" by (rule pmm_frame_addref_inv) (simp_all add: demo_vm_inv)
  have refs: "frame_refs ?s 258 = 2"
    by (simp add: frame_refs_def pmm_frame_addref_def MAX_FRAMES_val)
  have test: "bitmap_test f ?s \<longleftrightarrow> f < 259" for f by (simp add: pmm_frame_addref_def Let_def)
  have wf: "as_wf ?s (cr3 ?s)"
    using as_wf_mono[OF demo_vm_wf, of ?s] by (simp add: frame_live_def test)
  have "\<not> (\<forall>f<MAX_FRAMES. bitmap_test f ?s)"
    by (simp add: test MAX_FRAMES_val) (rule exI[of _ 259], simp)
  moreover have "frame_addr i \<noteq> 0" if "i < MAX_FRAMES" "\<not> bitmap_test i ?s" for i
    using unat_frame_addr[OF that(1)] that(2) by (auto simp: test)
  ultimately have room: "fst (pmm_alloc_frame ?s) \<noteq> 0"
    by (cases ?s rule: pmm_alloc_cases) auto
  have h: "16 \<le> pd_index 0x4000000" "is_present 0x102205" "is_cow 0x102205"
    "user_pte (mem ?s) (cr3 ?s) (pd_index 0x4000000) (pt_index 0x4000000) = Some 0x102205"
    "1 < frame_refs ?s (frame_of (page_base 0x102205))"
    "page_base 0x102205 \<noteq> page_base (get_entry (mem ?s) (cr3 ?s) (pd_index 0x4000000))"
    using refs by simp_all
  obtain s' e where r: "paging_handle_cow_fault 0x4000000 ?s = (True, s')" "pmm_inv s'" "is_writable e"
    and walk: "\<forall>pd pt. 16 \<le> pd \<and> pd < 1024 \<and> pt < 1024 \<longrightarrow> user_pte (mem s') (cr3 ?s) pd pt =
       (if pd = pd_index 0x4000000 \<and> pt = pt_index 0x4000000 then Some e else user_pte (mem ?s) (cr3 ?s) pd pt)"
    and fresh: "\<not> frame_live ?s (page_base e)"
    and bytes: "\<forall>b<4096. mem s' (page_base e + of_nat b) = mem ?s (page_base 0x102205 + of_nat b)"
    and refs': "frame_refs s' = (frame_refs ?s)(frame_of (page_base e) := 1,
      frame_of (page_base 0x102205) := frame_refs ?s (frame_of (page_base 0x102205)) - 1)"
    using cow_fault_copies[OF inv wf h(1,4,2,3,5,6) room] by blast
  have "user_pte (mem s') 0x100000 16 0 = Some e" using walk[rule_format, of 16 0] by simp
  moreover have "mem s' (page_base e + 5) = demo_mem (0x102000 + 5)"
    using bytes[rule_format, of 5] by simp
  moreover have "frame_refs s' 258 = 1" unfolding refs' using refs by simp
  ultimately show ?thesis using r by blast
qed

text \<open>A write fault on a copy-on-write page whose frame has no other user makes that very
  entry writable and non-COW again, on the same frame and with the other flags unchanged; nothing
  is allocated or released and no other page of the address space changes.\<close>

theorem cow_fault_reclaims:
  assumes wf: "as_wf s (cr3 s)" and user: "16 \<le> pd_index va"
    and walk: "user_pte (mem s) (cr3 s) (pd_index va) (pt_index va) = Some pte"
    and pte: "is_present pte" "is_cow pte"
    and sole: "frame_refs s (frame_of (page_base pte)) \<le> 1"
  shows "\<exists>m e. paging_handle_cow_fault va s = (True, s\<lparr>mem := m\<rparr>) \<and>
    page_base e = page_base pte \<and> is_present e \<and> is_writable e \<and> \<not> is_cow e \<and>
    (\<forall>n<12. n \<noteq> 1 \<and> n \<noteq> 9 \<longrightarrow> bit e n = bit pte n) \<and>
    (\<forall>pd pt. 16 \<le> pd \<and> pd < 1024 \<and> pt < 1024 \<longrightarrow> user_pte m (cr3 s) pd pt =
       (if pd = pd_index va \<and> pt = pt_index va then Some e else user_pte (mem s) (cr3 s) pd pt))"
proof -
  let ?T = "page_base (get_entry (mem s) (cr3 s) (pd_index va))"
  let ?e = "writable_pte (page_base pte) (pte AND 0xFFF AND NOT PAGE_COW)"
  let ?m = "set_entry ?T (pt_index va) ?e (mem s)"
  have pres: "is_present (get_entry (mem s) (cr3 s) (pd_index va))" using walk_Some[OF walk] by simp
  have "pmm_frame_refcount (page_base pte) s \<le> 1" using sole by (simp add: pmm_frame_refcount_le1)
  then have "paging_handle_cow_fault va s = (True, s\<lparr>mem := ?m\<rparr>)"
    using walk_Some[OF walk] pte by (simp add: paging_handle_cow_fault_def Let_def is_cow_def)
  moreover have "user_pte ?m (cr3 s) pd pt =
      (if pd = pd_index va \<and> pt = pt_index va then Some ?e else user_pte (mem s) (cr3 s) pd pt)"
    if "16 \<le> pd \<and> pd < 1024 \<and> pt < 1024" for pd pt
    using walk_set_entry[OF wf user _ _ pres, of "pt_index va" "mem s" pd pt ?e] that by simp
  moreover have "page_base ?e = page_base pte" by simp
  moreover have "is_present ?e" "is_writable ?e" "\<not> is_cow ?e"
    by (simp_all add: is_present_bit pte_bits bit_page_flags)
  moreover have "\<forall>n<12. n \<noteq> 1 \<and> n \<noteq> 9 \<longrightarrow> bit ?e n = bit pte n"
    using pte(1) by (auto simp: bit_page_flags bit_page_base is_present_bit)
  ultimately show ?thesis by blast
qed

theorem cow_fault_reclaims_witness:
  "\<exists>m e. paging_handle_cow_fault 0x4000000 demo_vm = (True, demo_vm\<lparr>mem := m\<rparr>) \<and>
     page_base e = 0x102000 \<and> is_writable e"
proof -
  have "frame_refs demo_vm 258 \<le> 1" by (simp add: frame_refs_def)
  then show ?thesis
    using cow_fault_reclaims[where s = demo_vm and va = "0x4000000" and pte = "0x102205"] demo_vm_wf
    by fastforce
qed

text \<open>The fault handler claims a fault (returns 1) exactly when the walk finds a present
  copy-on-write entry and either its frame has at most one user or a frame is left for the copy;
  otherwise it returns 0 and changes nothing, so the caller can treat the fault as fatal.\<close>

theorem cow_fault_result:
  assumes "pmm_inv s"
  shows "(fst (paging_handle_cow_fault va s) \<longleftrightarrow>
      (\<exists>pte. user_pte (mem s) (cr3 s) (pd_index va) (pt_index va) = Some pte \<and>
         is_present pte \<and> is_cow pte \<and>
         (frame_refs s (frame_of (page_base pte)) \<le> 1 \<or> fst (pmm_alloc_frame s) \<noteq> 0))) \<and>
    (\<not> fst (paging_handle_cow_fault va s) \<longrightarrow> snd (paging_handle_cow_fault va s) = s)"
proof -
  have "snd (pmm_alloc_frame s) = s" if "fst (pmm_alloc_frame s) = 0"
    using frames.alloc_none[OF assms] that by (metis prod.collapse)
  then show ?thesis
    by (auto simp: paging_handle_cow_fault_def Let_def user_pte_def is_cow_def
        pmm_frame_refcount_le1 split: prod.splits)
qed

theorem cow_fault_result_witness: "\<not> fst (paging_handle_cow_fault 0x4001000 demo_vm)"
proof -
  have "pd_index 0x4001000 = 16" "pt_index 0x4001000 = 1" by (simp_all add: pd_index_def pt_index_def)
  then show ?thesis
    using cow_fault_result[OF demo_vm_inv, where va = "0x4001000"] by (simp add: user_pte_def)
qed

text \<open>\<open>paging_map_user_page\<close> refuses the kernel's range without any effect; in the user range
  it makes the walk of that address find the frame with the given flags, changes no other mapping
  of the directory (a table it has to create is empty), and keeps the directory well formed.\<close>

theorem map_user_page_spec:
  assumes "pmm_inv s" and "as_wf s dir"
    and "is_present (get_entry (mem s) dir (pd_index va)) \<or> fst (pmm_alloc_frame s) \<noteq> 0"
  shows "(pd_index va < 16 \<longrightarrow> paging_map_user_page dir phys va flags s = (False, s)) \<and>
    (16 \<le> pd_index va \<longrightarrow> (\<exists>s'. paging_map_user_page dir phys va flags s = (True, s') \<and>
       pmm_inv s' \<and> as_wf s' dir \<and>
       (\<forall>pd pt. 16 \<le> pd \<and> pd < 1024 \<and> pt < 1024 \<longrightarrow> user_pte (mem s') dir pd pt =
         (if pd = pd_index va \<and> pt = pt_index va then Some (make_pte phys flags)
          else if pd = pd_index va \<and> user_pte (mem s) dir pd pt = None then Some 0
          else user_pte (mem s) dir pd pt))))"
proof (intro conjI impI)
  assume "pd_index va < 16"
  then show "paging_map_user_page dir phys va flags s = (False, s)"
    by (simp add: paging_map_user_page_def IDENTITY_MAP_TABLES_def)
next
  assume pd: "16 \<le> pd_index va"
  obtain s' where s': "paging_map_user_page dir phys va flags s = (True, s')"
    using map_user_page_present[OF pd] map_user_page_new[OF pd] by (metis prod.collapse)
  moreover have "pmm_inv s'" "as_wf s' dir"
    using map_user_page_pmm_inv[OF assms(1), of dir phys va flags]
      map_user_page_wf[OF assms, of phys flags] s' by simp_all
  ultimately show "\<exists>s'. paging_map_user_page dir phys va flags s = (True, s') \<and>
       pmm_inv s' \<and> as_wf s' dir \<and>
       (\<forall>pd pt. 16 \<le> pd \<and> pd < 1024 \<and> pt < 1024 \<longrightarrow> user_pte (mem s') dir pd pt =
         (if pd = pd_index va \<and> pt = pt_index va then Some (make_pte phys flags)
          else if pd = pd_index va \<and> user_pte (mem s) dir pd pt = None then Some 0
          else user_pte (mem s) dir pd pt))"
    using map_user_page_walk[OF assms(1,2) pd assms(3), of _ _ phys flags]
    by (auto split: option.splits)
qed

theorem map_user_page_spec_witness:
  "\<exists>s'. paging_map_user_page 0x100000 0x102000 0x4001000 7 demo_vm = (True, s') \<and>
     user_pte (mem s') 0x100000 16 1 = Some 0x102007 \<and> user_pte (mem s') 0x100000 16 0 = Some 0x102205"
proof -
  have va: "pd_index 0x4001000 = 16" "pt_index 0x4001000 = 1" by (simp_all add: pd_index_def pt_index_def)
  have pte: "make_pte 0x102000 7 = 0x102007" by (simp add: make_pte_def page_base_def page_consts)
  from map_user_page_spec[OF demo_vm_inv demo_vm_wf, where va = "0x4001000" and phys = "0x102000"
      and flags = 7, unfolded va pte demo_vm_simps]
  obtain s' where "paging_map_user_page 0x100000 0x102000 0x4001000 7 demo_vm = (True, s')"
    "\<forall>pd pt. 16 \<le> pd \<and> pd < 1024 \<and> pt < 1024 \<longrightarrow> user_pte (mem s') 0x100000 pd pt =
         (if pd = 16 \<and> pt = 1 then Some 0x102007
          else if pd = 16 \<and> user_pte demo_mem 0x100000 pd pt = None then Some 0
          else user_pte demo_mem 0x100000 pd pt)"
    by auto
  then show ?thesis by auto
qed

end
