(* ===== verification/Fork.thy ===== *)
theory Fork
  imports Paging
begin

text \<open>
  The two operations of \<open>kernel/paging.c\<close> that work on a whole address space:
  \<open>paging_clone_address_space\<close> (copy-on-write fork) and \<open>paging_free_address_space\<close> (teardown).
  Their loops over 1008 tables of 1024 entries are treated by invariants indexed by the set of
  slots already processed (\<open>clone_inv\<close>, \<open>free_inv\<close>).
\<close>

section \<open>Slots, leaves and pages of an address space\<close>

definition user_slots :: "(nat \<times> nat) set" where
  "user_slots = {16..<1024} \<times> {..<1024}"

text \<open>The present entry a walk finds, if any.\<close>

definition leaf :: "memory \<Rightarrow> addr \<Rightarrow> nat \<times> nat \<Rightarrow> u32 option" where
  "leaf m dir x = (case user_pte m dir (fst x) (snd x) of
     Some e \<Rightarrow> if is_present e then Some e else None | None \<Rightarrow> None)"

text \<open>The slots that map frame \<open>f\<close>.\<close>

definition slots_of :: "memory \<Rightarrow> addr \<Rightarrow> nat \<Rightarrow> (nat \<times> nat) set" where
  "slots_of m dir f = {x \<in> user_slots. \<exists>e. leaf m dir x = Some e \<and> frame_of (page_base e) = f}"

text \<open>The directory and its user page tables.\<close>

definition pages_of :: "memory \<Rightarrow> addr \<Rightarrow> addr set" where
  "pages_of m dir = insert dir {page_base (get_entry m dir pd) |pd.
     16 \<le> pd \<and> pd < 1024 \<and> is_present (get_entry m dir pd)}"

text \<open>What a fork makes of a present entry, in the parent and in the child.\<close>

definition share :: "u32 \<Rightarrow> u32" where
  "share e = make_pte (page_base e) (cow_flags_of e)"

definition free_frames :: "'a pmm_scheme \<Rightarrow> nat" where
  "free_frames s = card {f. f < MAX_FRAMES \<and> \<not> bitmap_test f s}"

lemma finite_user_slots [simp]: "finite user_slots"
  by (simp add: user_slots_def)

lemma finite_slots_of [simp]: "finite (slots_of m dir f)"
  by (rule finite_subset[of _ user_slots]) (auto simp: slots_of_def)

lemma leaf_cong: "user_pte m dir (fst x) (snd x) = user_pte m' dir' (fst x) (snd x) \<Longrightarrow> leaf m dir x = leaf m' dir' x"
  by (simp add: leaf_def)

lemma leaf_Some: "leaf m dir x = Some e \<longleftrightarrow> user_pte m dir (fst x) (snd x) = Some e \<and> is_present e"
  by (auto simp: leaf_def split: option.splits)

lemma share_present [simp]: "is_present (share e)"
  by (simp add: share_def)

lemma page_base_share [simp]: "page_base (share e) = page_base e"
  by (simp add: share_def)

lemma share_flags: "\<not> is_writable (share e)" "is_cow (share e)"
  by (simp_all add: share_def pte_bits bit_page_flags)

lemma pages_of_live: "as_wf s dir \<Longrightarrow> q \<in> pages_of (mem s) dir \<Longrightarrow> page_aligned q \<and> frame_live s q"
  by (auto simp: pages_of_def as_wfD as_wf_table)

lemma slot_address:
  assumes "pd < 1024" "pt < 1024"
  shows "pd_index (push_bit 22 (of_nat pd) OR push_bit 12 (of_nat pt)) = pd"
    "pt_index (push_bit 22 (of_nat pd) OR push_bit 12 (of_nat pt)) = pt"
proof -
  have small: "\<not> bit (of_nat k :: u32) n" if "k < 1024" "10 \<le> n" for k n
  proof
    assume "bit (of_nat k :: u32) n"
    then have "bit k n" by (simp add: bit_of_nat_iff)
    then have "2 ^ n \<le> k" by (metis bit_iff_odd div_less even_zero not_le)
    moreover have "(2 :: nat) ^ 10 \<le> 2 ^ n" using that(2) by (rule power_increasing) simp
    ultimately show False using that(1) by simp
  qed
  have ten: "(0x3FF :: u32) = mask 10" by (simp add: mask_eq_exp_minus_1)
  have "drop_bit 22 (push_bit 22 (of_nat pd) OR push_bit 12 (of_nat pt)) = (of_nat pd :: u32)"
    by (rule bit_word_eqI)
      (use small[OF assms(1)] small[OF assms(2)] in \<open>auto simp: bit_drop_bit_eq bit_or_iff bit_push_bit_iff
        intro: leI\<close>)
  then show "pd_index (push_bit 22 (of_nat pd) OR push_bit 12 (of_nat pt)) = pd"
    using assms by (simp add: pd_index_def unat_of_nat)
  have "drop_bit 12 (push_bit 22 (of_nat pd) OR push_bit 12 (of_nat pt)) AND 0x3FF = (of_nat pt :: u32)"
    unfolding ten
    by (rule bit_word_eqI)
      (use small[OF assms(2)] in \<open>auto simp: bit_drop_bit_eq bit_or_iff bit_push_bit_iff bit_and_iff
        bit_mask_iff intro: leI\<close>)
  then show "pt_index (push_bit 22 (of_nat pd) OR push_bit 12 (of_nat pt)) = pt"
    using assms by (simp add: pt_index_def unat_of_nat)
qed

section \<open>Free frames and reference counts\<close>

lemma free_frames_alloc:
  assumes "pmm_inv s" "0 < free_frames s"
  obtains a s' where "pmm_alloc_frame s = (a, s')" "a \<noteq> 0" "Suc (free_frames s') = free_frames s"
proof -
  obtain i where i: "i < MAX_FRAMES" "\<not> bitmap_test i s" "pmm_alloc_frame s = (frame_addr i, alloc_at i s)"
    using assms(2) by (cases s rule: pmm_alloc_cases) (auto simp: free_frames_def card_gt_0_iff)
  moreover have "frame_addr i \<noteq> 0"
    using pmm_inv_not_low[OF assms(1) i(2)] unat_frame_addr[OF i(1)] by auto
  moreover have "{f. f < MAX_FRAMES \<and> \<not> bitmap_test f s}
      = insert i {f. f < MAX_FRAMES \<and> \<not> bitmap_test f (alloc_at i s)}" using i by auto
  then have "Suc (free_frames (alloc_at i s)) = free_frames s" by (simp add: free_frames_def)
  ultimately show ?thesis using that by blast
qed

lemma free_frames_mem [simp]: "free_frames (s\<lparr>mem := m\<rparr>) = free_frames s"
  by (simp add: free_frames_def)

lemma addref_facts [simp]:
  "bitmap_test f (pmm_frame_addref a s) = bitmap_test f s"
  "free_frames (pmm_frame_addref a s) = free_frames s"
  by (simp_all add: pmm_frame_addref_def Let_def free_frames_def)

lemma addref_refs:
  assumes "frame_of a < MAX_FRAMES \<Longrightarrow> frame_refs s (frame_of a) < 255"
  shows "frame_refs (pmm_frame_addref a s) f =
    frame_refs s f + (if f = frame_of a \<and> f < MAX_FRAMES then 1 else 0)"
proof -
  have "unat (r + 1) = unat r + 1" if "unat r < 255" for r :: u8
    using that by (simp add: unat_word_ariths)
  with assms show ?thesis by (auto simp: frame_refs_def pmm_frame_addref_def Let_def)
qed

lemma addref_inv:
  assumes "pmm_inv s" "frame_of a < MAX_FRAMES \<Longrightarrow> 0 < frame_refs s (frame_of a)"
  shows "pmm_inv (pmm_frame_addref a s)"
proof (cases "frame_of a < MAX_FRAMES")
  case True
  with assms show ?thesis by (auto simp: frame_refs_def intro!: pmm_frame_addref_inv)
next
  case False
  with assms(1) show ?thesis by (simp add: pmm_frame_addref_def Let_def)
qed

section \<open>More on mapping one page\<close>

lemma map_user_page_cases:
  assumes "pmm_inv s" "16 \<le> pd_index va"
    and room: "\<not> is_present (get_entry (mem s) dir (pd_index va)) \<Longrightarrow> 0 < free_frames s"
  obtains (old) "is_present (get_entry (mem s) dir (pd_index va))"
      "paging_map_user_page dir phys va flags s = (True, s\<lparr>mem := set_entry
         (page_base (get_entry (mem s) dir (pd_index va))) (pt_index va) (make_pte phys flags) (mem s)\<rparr>)"
    | (new) t s1 where "\<not> is_present (get_entry (mem s) dir (pd_index va))"
      "pmm_alloc_frame s = (t, s1)" "t \<noteq> 0" "Suc (free_frames s1) = free_frames s"
      "page_aligned t" "\<not> frame_live s t" "\<forall>g. bitmap_test g s1 \<longleftrightarrow> g = frame_of t \<or> bitmap_test g s"
      "frame_refs s1 = (frame_refs s)(frame_of t := 1)"
      "paging_map_user_page dir phys va flags s = (True, s1\<lparr>mem := set_entry t (pt_index va)
         (make_pte phys flags) (set_entry dir (pd_index va) (t OR PAGE_PRESENT OR PAGE_RW OR PAGE_USER)
         (zero_table t (mem s)))\<rparr>)"
proof (cases "is_present (get_entry (mem s) dir (pd_index va))")
  case True
  with assms(2) show ?thesis by (intro old) (simp_all add: map_user_page_present)
next
  case False
  obtain t s1 where t: "pmm_alloc_frame s = (t, s1)" "t \<noteq> 0" "Suc (free_frames s1) = free_frames s"
    using free_frames_alloc[OF assms(1) room[OF False]] by blast
  note fresh = frames.alloc_fresh[OF assms(1) t(1,2)] pmm_alloc_free[OF assms(1) t(1,2)]
  show ?thesis
    by (rule new[OF False t]) (use fresh map_user_page_new[OF assms(2) False t(1)] in
        \<open>simp_all add: frame_live_def\<close>)
qed

text \<open>Its effect on the pages of its directory, on the counts and on any other address space.\<close>

lemma map_user_page_effect:
  fixes s :: "'a vm_scheme" and phys :: addr and flags :: u32
  assumes inv: "pmm_inv s" and wf: "as_wf s dir" and pd: "16 \<le> pd_index va"
    and room: "\<not> is_present (get_entry (mem s) dir (pd_index va)) \<Longrightarrow> 0 < free_frames s"
  defines "s' \<equiv> snd (paging_map_user_page dir phys va flags s)"
  shows "pmm_inv s'" "as_wf s' dir"
    "(pd, pt) \<in> user_slots \<Longrightarrow> leaf (mem s') dir (pd, pt) =
       (if pd = pd_index va \<and> pt = pt_index va then Some (make_pte phys flags) else leaf (mem s) dir (pd, pt))"
    "pages_of (mem s') dir \<subseteq> pages_of (mem s) dir \<union> {q. \<not> frame_live s q}"
    "\<And>i. 16 \<le> i \<Longrightarrow> i < 1024 \<Longrightarrow> is_present (get_entry (mem s') dir i) \<longleftrightarrow>
       i = pd_index va \<or> is_present (get_entry (mem s) dir i)"
    "free_frames s' = free_frames s - (if is_present (get_entry (mem s) dir (pd_index va)) then 0 else 1)"
    "\<And>f. bitmap_test f s \<Longrightarrow> bitmap_test f s' \<and> frame_refs s' f = frame_refs s f"
    "\<And>q i. page_aligned q \<Longrightarrow> frame_live s q \<Longrightarrow> q \<notin> pages_of (mem s) dir \<Longrightarrow> i < 1024 \<Longrightarrow>
       get_entry (mem s') q i = get_entry (mem s) q i"
    "\<And>i. i < 1024 \<Longrightarrow> i \<noteq> pd_index va \<Longrightarrow> get_entry (mem s') dir i = get_entry (mem s) dir i"
proof -
  have room': "is_present (get_entry (mem s) dir (pd_index va)) \<or> fst (pmm_alloc_frame s) \<noteq> 0"
    using free_frames_alloc[OF inv room] by (metis fst_conv)
  show "pmm_inv s'" "as_wf s' dir"
    unfolding s'_def using map_user_page_pmm_inv[OF inv] map_user_page_wf[OF inv wf room'] by blast+
  show "(pd, pt) \<in> user_slots \<Longrightarrow> leaf (mem s') dir (pd, pt) =
       (if pd = pd_index va \<and> pt = pt_index va then Some (make_pte phys flags) else leaf (mem s) dir (pd, pt))"
    unfolding s'_def leaf_def
    using map_user_page_walk[OF inv wf pd room', of "pd" "pt" phys flags]
    by (auto simp: user_slots_def split: option.splits)
  note dir = as_wfD[OF wf]
  have tab: "page_base (get_entry (mem s) dir i) \<noteq> dir" if "16 \<le> i" "i < 1024" "is_present (get_entry (mem s) dir i)" for i
    using as_wf_table(1)[OF wf that] .
  have ne: "t \<noteq> dir" if "\<not> frame_live s t" for t using that dir(2) by auto
  show "pages_of (mem s') dir \<subseteq> pages_of (mem s) dir \<union> {q. \<not> frame_live s q}"
    unfolding s'_def
    by (cases rule: map_user_page_cases[OF inv pd room, of dir phys flags])
      (use dir tab[OF pd] ne in \<open>auto simp: pages_of_def word_mem.get_put get_zero_table page_base_pde
        split: if_splits\<close>)
  show "is_present (get_entry (mem s') dir i) \<longleftrightarrow> i = pd_index va \<or> is_present (get_entry (mem s) dir i)"
    if "16 \<le> i" "i < 1024" for i
    unfolding s'_def
    by (cases rule: map_user_page_cases[OF inv pd room, of dir phys flags])
      (use dir tab[OF pd] ne that in \<open>auto simp: word_mem.get_put get_zero_table\<close>)
  show "get_entry (mem s') dir i = get_entry (mem s) dir i" if "i < 1024" "i \<noteq> pd_index va" for i
    unfolding s'_def
    by (cases rule: map_user_page_cases[OF inv pd room, of dir phys flags])
      (use dir tab[OF pd] ne that in \<open>auto simp: word_mem.get_put get_zero_table\<close>)
  show "free_frames s' = free_frames s - (if is_present (get_entry (mem s) dir (pd_index va)) then 0 else 1)"
    unfolding s'_def by (cases rule: map_user_page_cases[OF inv pd room, of dir phys flags]) auto
  show "bitmap_test f s' \<and> frame_refs s' f = frame_refs s f" if "bitmap_test f s" for f
    unfolding s'_def using that
    by (cases rule: map_user_page_cases[OF inv pd room, of dir phys flags]) (auto simp: frame_live_def)
  show "get_entry (mem s') q i = get_entry (mem s) q i"
    if "page_aligned q" "frame_live s q" "q \<notin> pages_of (mem s) dir" "i < 1024" for q i
    unfolding s'_def using that pd
    by (intro map_user_page_other[OF inv dir(1) _ _ _ _ _ room']) (auto simp: pages_of_def)
qed

section \<open>Fork\<close>

text \<open>The tables and leaves of a directory depend on its own pages only.\<close>

lemma pages_of_dir_cong:
  "(\<And>i. i < 1024 \<Longrightarrow> get_entry m' dir i = get_entry m dir i) \<Longrightarrow> pages_of m' dir = pages_of m dir"
  unfolding pages_of_def by (rule arg_cong[where f = "insert dir"], rule Collect_cong, rule ex_cong1) auto

lemma pages_ofI:
  "16 \<le> pd \<Longrightarrow> pd < 1024 \<Longrightarrow> is_present (get_entry m dir pd) \<Longrightarrow>
    page_base (get_entry m dir pd) \<in> pages_of m dir"
  by (auto simp: pages_of_def)

lemma pages_of_cong:
  assumes "\<And>q i. q \<in> pages_of m dir \<Longrightarrow> i < 1024 \<Longrightarrow> get_entry m' q i = get_entry m q i"
  shows "pages_of m' dir = pages_of m dir" "x \<in> user_slots \<Longrightarrow> leaf m' dir x = leaf m dir x"
proof -
  have dir: "i < 1024 \<Longrightarrow> get_entry m' dir i = get_entry m dir i" for i
    using assms by (simp add: pages_of_def)
  then show "pages_of m' dir = pages_of m dir" by (rule pages_of_dir_cong)
  have tab: "get_entry m' (page_base (get_entry m dir pd)) pt = get_entry m (page_base (get_entry m dir pd)) pt"
    if "16 \<le> pd" "pd < 1024" "pt < 1024" "is_present (get_entry m dir pd)" for pd pt
    using that by (intro assms) (auto simp: pages_of_def)
  show "x \<in> user_slots \<Longrightarrow> leaf m' dir x = leaf m dir x"
    by (rule leaf_cong) (auto simp: user_slots_def user_pte_def Let_def dir tab)
qed

text \<open>
  What a fork needs of the parent: every tracked frame it maps is referenced, and the 8-bit
  counts have room for one more reference per mapping.
\<close>

definition forkable :: "'a vm_scheme \<Rightarrow> addr \<Rightarrow> bool" where
  "forkable s dir \<longleftrightarrow> pmm_inv s \<and> as_wf s dir \<and>
     (\<forall>f<MAX_FRAMES. slots_of (mem s) dir f \<noteq> {} \<longrightarrow> 0 < frame_refs s f) \<and>
     (\<forall>f<MAX_FRAMES. frame_refs s f + card (slots_of (mem s) dir f) \<le> 255)"

definition clone_inv :: "'a vm_scheme \<Rightarrow> addr \<Rightarrow> addr \<Rightarrow> (nat \<times> nat) set \<Rightarrow> 'a vm_scheme \<Rightarrow> bool" where
  "clone_inv s0 parent child proc s \<longleftrightarrow>
     pmm_inv s \<and> as_wf s parent \<and> as_wf s child \<and>
     pages_of (mem s) child \<inter> pages_of (mem s) parent = {} \<and>
     (\<forall>pd<1024. get_entry (mem s) parent pd = get_entry (mem s0) parent pd) \<and>
     (\<forall>pd<16. get_entry (mem s) child pd = get_entry (mem s0) (page_directory s0) pd) \<and>
     card {pd. 16 \<le> pd \<and> pd < 1024 \<and> is_present (get_entry (mem s0) parent pd) \<and>
       \<not> is_present (get_entry (mem s) child pd)} \<le> free_frames s \<and>
     (\<forall>x\<in>user_slots. leaf (mem s) parent x =
        (if x \<in> proc then map_option share (leaf (mem s0) parent x) else leaf (mem s0) parent x)) \<and>
     (\<forall>x\<in>user_slots. leaf (mem s) child x =
        (if x \<in> proc then map_option share (leaf (mem s0) parent x) else None)) \<and>
     (\<forall>f. bitmap_test f s0 \<longrightarrow> bitmap_test f s) \<and>
     (\<forall>f<MAX_FRAMES. bitmap_test f s0 \<longrightarrow>
        frame_refs s f = frame_refs s0 f + card (slots_of (mem s0) parent f \<inter> proc))"

text \<open>First half of a step: the reference is taken and the parent's entry loses write access.\<close>

lemma clone_share_parent:
  assumes inv: "clone_inv s0 parent child proc s" and fork: "forkable s0 parent"
    and x: "(pd, pt) \<in> user_slots" "(pd, pt) \<notin> proc" and e: "leaf (mem s0) parent (pd, pt) = Some e"
  defines "s2 \<equiv> (pmm_frame_addref (page_base e) s)
    \<lparr>mem := set_entry (page_base (get_entry (mem s0) parent pd)) pt (share e) (mem s)\<rparr>"
  shows "clone_page child (page_base (get_entry (mem s0) parent pd)) pd pt s =
      snd (paging_map_user_page child (page_base e)
        (push_bit 22 (of_nat pd) OR push_bit 12 (of_nat pt)) (cow_flags_of e) s2)"
    "pmm_inv s2" "as_wf s2 parent" "as_wf s2 child"
    "pages_of (mem s2) child = pages_of (mem s) child" "pages_of (mem s2) parent = pages_of (mem s) parent"
    "\<And>i. i < 1024 \<Longrightarrow> get_entry (mem s2) parent i = get_entry (mem s) parent i"
    "\<And>i. i < 1024 \<Longrightarrow> get_entry (mem s2) child i = get_entry (mem s) child i"
    "\<And>y. y \<in> user_slots \<Longrightarrow> leaf (mem s2) parent y = (if y = (pd, pt) then Some (share e) else leaf (mem s) parent y)"
    "\<And>y. y \<in> user_slots \<Longrightarrow> leaf (mem s2) child y = leaf (mem s) child y"
    "free_frames s2 = free_frames s" "\<And>f. bitmap_test f s2 = bitmap_test f s"
    "\<And>f. f < MAX_FRAMES \<Longrightarrow> bitmap_test f s0 \<Longrightarrow> frame_refs s2 f = frame_refs s0 f +
       card (slots_of (mem s0) parent f \<inter> insert (pd, pt) proc)"
proof -
  let ?T = "page_base (get_entry (mem s0) parent pd)" and ?f = "frame_of (page_base e)"
  have idx: "16 \<le> pd" "pd < 1024" "pt < 1024" using x(1) by (auto simp: user_slots_def)
  have pde: "get_entry (mem s) parent pd = get_entry (mem s0) parent pd"
    using inv idx by (simp add: clone_inv_def)
  have wf: "as_wf s parent" "as_wf s child" and wf0: "as_wf s0 parent" and inv0: "pmm_inv s0" "pmm_inv s"
    using inv fork by (simp_all add: clone_inv_def forkable_def)
  have pres: "is_present (get_entry (mem s0) parent pd)" and e0: "is_present e"
    using e by (auto simp: leaf_Some user_pte_def Let_def split: if_splits)
  have "leaf (mem s) parent (pd, pt) = Some e" using inv x e by (simp add: clone_inv_def)
  then have pte: "get_entry (mem s) ?T pt = e"
    using pde pres by (simp add: leaf_Some user_pte_def Let_def)
  show "clone_page child ?T pd pt s = snd (paging_map_user_page child (page_base e)
        (push_bit 22 (of_nat pd) OR push_bit 12 (of_nat pt)) (cow_flags_of e) s2)"
    using e0 by (simp add: clone_page_def Let_def pte s2_def share_def)
  have T: "?T \<in> pages_of (mem s) parent" using pages_ofI[OF idx(1,2), of "mem s" parent] pres pde by simp
  then have T': "?T \<notin> pages_of (mem s) child" using inv by (auto simp: clone_inv_def)
  have Tne: "?T \<noteq> parent" using as_wf_table(1)[OF wf(1) idx(1,2)] pres pde by simp
  have other: "get_entry (mem s2) q i = get_entry (mem s) q i"
    if "page_aligned q" "q \<noteq> ?T" "i < 1024" for q i
    using that idx by (simp add: s2_def word_mem.get_put)
  show par: "get_entry (mem s2) parent i = get_entry (mem s) parent i" if "i < 1024" for i
    using that as_wfD(1)[OF wf(1)] Tne by (intro other) auto
  have child: "q \<in> pages_of (mem s) child \<Longrightarrow> i < 1024 \<Longrightarrow> get_entry (mem s2) q i = get_entry (mem s) q i" for q i
    using T' pages_of_live[OF wf(2)] by (intro other) auto
  show "get_entry (mem s2) child i = get_entry (mem s) child i" if "i < 1024" for i
    using that by (intro child) (simp_all add: pages_of_def)
  show pc: "pages_of (mem s2) child = pages_of (mem s) child"
    "\<And>y. y \<in> user_slots \<Longrightarrow> leaf (mem s2) child y = leaf (mem s) child y"
    using pages_of_cong[OF child] by blast+
  show "pages_of (mem s2) parent = pages_of (mem s) parent" using par by (rule pages_of_dir_cong)
  show bm: "bitmap_test f s2 = bitmap_test f s" and "free_frames s2 = free_frames s" for f
    by (simp_all add: s2_def)
  show "as_wf s2 parent" "as_wf s2 child"
    using par child by (auto intro!: as_wf_mono[OF wf(1)] as_wf_mono[OF wf(2)] simp: frame_live_def bm pages_of_def)
  show "leaf (mem s2) parent y = (if y = (pd, pt) then Some (share e) else leaf (mem s) parent y)"
    if "y \<in> user_slots" for y
    using walk_set_entry[OF wf(1) idx, of "mem s" "fst y" "snd y" "share e"] that pde pres
    by (cases y) (auto simp: leaf_def s2_def user_slots_def)
  have slot: "(pd, pt) \<in> slots_of (mem s0) parent ?f" using x e by (auto simp: slots_of_def)
  have pos: "0 < frame_refs s0 ?f" if "?f < MAX_FRAMES"
    using fork slot that by (auto simp: forkable_def)
  then have live: "bitmap_test ?f s0" if "?f < MAX_FRAMES"
    using that inv0(1) by (auto simp: frame_refs_def pmm_inv_def)
  have refs: "frame_refs s ?f = frame_refs s0 ?f + card (slots_of (mem s0) parent ?f \<inter> proc)"
    if "?f < MAX_FRAMES" using inv live[OF that] that by (simp add: clone_inv_def)
  have "card (slots_of (mem s0) parent ?f \<inter> proc) < card (slots_of (mem s0) parent ?f)"
    using slot x(2) by (intro psubset_card_mono) auto
  then have lt: "frame_refs s ?f < 255" if "?f < MAX_FRAMES"
    using refs[OF that] fork that by (fastforce simp: forkable_def)
  show "pmm_inv s2" unfolding s2_def using addref_inv[OF inv0(2), of "page_base e"] refs pos by simp
  show "frame_refs s2 f = frame_refs s0 f + card (slots_of (mem s0) parent f \<inter> insert (pd, pt) proc)"
    if "f < MAX_FRAMES" "bitmap_test f s0" for f
  proof -
    have "slots_of (mem s0) parent f \<inter> insert (pd, pt) proc =
        (if f = ?f then insert (pd, pt) (slots_of (mem s0) parent f \<inter> proc)
         else slots_of (mem s0) parent f \<inter> proc)"
      using slot e by (auto simp: slots_of_def)
    moreover have "frame_refs s f = frame_refs s0 f + card (slots_of (mem s0) parent f \<inter> proc)"
      using inv that by (simp add: clone_inv_def)
    ultimately show ?thesis using x(2) that addref_refs[of "page_base e" s f, OF lt]
      by (simp add: s2_def)
  qed
qed

lemma clone_page_inv:
  assumes inv: "clone_inv s0 parent child proc s" and fork: "forkable s0 parent"
    and x: "(pd, pt) \<in> user_slots" "(pd, pt) \<notin> proc" and pres: "is_present (get_entry (mem s0) parent pd)"
  shows "clone_inv s0 parent child (insert (pd, pt) proc)
    (clone_page child (page_base (get_entry (mem s0) parent pd)) pd pt s)"
proof (cases "leaf (mem s0) parent (pd, pt)")
  case None
  have "get_entry (mem s) parent pd = get_entry (mem s0) parent pd"
    using inv x by (simp add: clone_inv_def user_slots_def)
  moreover have "leaf (mem s) parent (pd, pt) = None" using inv x None by (simp add: clone_inv_def)
  ultimately have "\<not> is_present (get_entry (mem s) (page_base (get_entry (mem s0) parent pd)) pt)"
    using pres by (simp add: leaf_def user_pte_def Let_def split: if_splits)
  then have "clone_page child (page_base (get_entry (mem s0) parent pd)) pd pt s = s"
    by (simp add: clone_page_def Let_def)
  moreover have "slots_of (mem s0) parent f \<inter> insert (pd, pt) proc = slots_of (mem s0) parent f \<inter> proc" for f
    using None by (auto simp: slots_of_def)
  ultimately show ?thesis using inv None by (auto simp: clone_inv_def)
next
  case (Some e)
  define s2 where "s2 = (pmm_frame_addref (page_base e) s)
    \<lparr>mem := set_entry (page_base (get_entry (mem s0) parent pd)) pt (share e) (mem s)\<rparr>"
  note S = clone_share_parent[OF inv fork x Some, folded s2_def]
  let ?va = "push_bit 22 (of_nat pd) OR push_bit 12 (of_nat pt) :: addr"
  let ?s' = "snd (paging_map_user_page child (page_base e) ?va (cow_flags_of e) s2)"
  let ?absent = "\<lambda>s. {k. 16 \<le> k \<and> k < 1024 \<and> is_present (get_entry (mem s0) parent k) \<and>
       \<not> is_present (get_entry (mem s) child k)}"
  have idx: "16 \<le> pd" "pd < 1024" "pt < 1024" using x(1) by (auto simp: user_slots_def)
  note va = slot_address[OF idx(2,3)]
  have card: "card (?absent s) \<le> free_frames s" using inv by (simp add: clone_inv_def)
  have fin: "finite (?absent s)" by (rule finite_subset[of _ "{..<1024}"]) auto
  have mem: "pd \<in> ?absent s" if "\<not> is_present (get_entry (mem s2) child pd)"
    using that idx pres S(8) by simp
  have room: "0 < free_frames s2" if "\<not> is_present (get_entry (mem s2) child (pd_index ?va))"
  proof -
    have "0 < card (?absent s)" using mem that fin by (subst card_gt_0_iff) (auto simp: va)
    with card S(11) show ?thesis by simp
  qed
  have pd16: "16 \<le> pd_index ?va" using idx by (simp add: va)
  note E = map_user_page_effect[OF S(2,4) pd16 room, where phys = "page_base e" and flags = "cow_flags_of e"]
  have disj: "pages_of (mem s) child \<inter> pages_of (mem s) parent = {}" using inv by (simp add: clone_inv_def)
  have par_same: "get_entry (mem ?s') q i = get_entry (mem s2) q i"
    if "q \<in> pages_of (mem s2) parent" "i < 1024" for q i
    using that pages_of_live[OF S(3) that(1)] disj S(5,6) by (intro E(8)) auto
  have P1: "pages_of (mem ?s') parent = pages_of (mem s2) parent"
    by (rule pages_of_cong(1)) (rule par_same)
  have P2: "leaf (mem ?s') parent y = leaf (mem s2) parent y" if "y \<in> user_slots" for y
    by (rule pages_of_cong(2)[OF par_same that])
  have "as_wf ?s' parent"
    using par_same E(7) by (intro as_wf_mono[OF S(3)]) (auto simp: pages_of_def frame_live_def)
  moreover have "get_entry (mem ?s') parent k = get_entry (mem s0) parent k" if "k < 1024" for k
    using par_same[of parent k] S(7)[OF that] that inv by (simp add: pages_of_def clone_inv_def)
  moreover have "pages_of (mem ?s') child \<inter> pages_of (mem ?s') parent = {}"
    using E(4) disj S(5,6) pages_of_live[OF S(3)] by (auto simp: P1)
  moreover have "card (?absent ?s') \<le> free_frames ?s'"
  proof (cases "is_present (get_entry (mem s2) child pd)")
    case True
    then have "?absent ?s' \<subseteq> ?absent s" using E(5) S(8) by (auto simp: va)
    then have "card (?absent ?s') \<le> card (?absent s)" by (rule card_mono[OF fin])
    then show ?thesis using card E(6) S(11) True by (simp add: va)
  next
    case False
    have "?absent ?s' \<subseteq> ?absent s - {pd}" using E(5) S(8) by (auto simp: va)
    then have "card (?absent ?s') \<le> card (?absent s - {pd})" using fin by (intro card_mono) auto
    also have "\<dots> = card (?absent s) - 1" using mem[OF False] by (simp add: card_Diff_singleton)
    finally show ?thesis using card E(6) S(11) False by (simp add: va)
  qed
  moreover have "get_entry (mem ?s') child k = get_entry (mem s0) (page_directory s0) k" if "k < 16" for k
    using E(9)[of k] S(8)[of k] inv idx that by (simp add: clone_inv_def va)
  moreover have "leaf (mem ?s') parent y = (if y \<in> insert (pd, pt) proc
      then map_option share (leaf (mem s0) parent y) else leaf (mem s0) parent y)" if "y \<in> user_slots" for y
    using P2[OF that] S(9)[OF that] inv that Some by (simp add: clone_inv_def)
  moreover have "leaf (mem ?s') child y = (if y \<in> insert (pd, pt) proc
      then map_option share (leaf (mem s0) parent y) else None)" if "y \<in> user_slots" for y
    using E(3)[of "fst y" "snd y"] S(10)[OF that] inv that Some
    by (cases y) (auto simp: clone_inv_def va share_def)
  moreover have "bitmap_test f ?s'" if "bitmap_test f s0" for f
    using E(7)[of f] S(12) inv that by (simp add: clone_inv_def)
  moreover have "frame_refs ?s' f = frame_refs s0 f + card (slots_of (mem s0) parent f \<inter> insert (pd, pt) proc)"
    if "f < MAX_FRAMES" "bitmap_test f s0" for f
    using E(7)[of f] S(12,13) inv that by (simp add: clone_inv_def)
  ultimately show ?thesis unfolding S(1) clone_inv_def using E(1,2) by blast
qed

text \<open>The two loops of the fork.\<close>

lemma fold_upt_inv:
  assumes "a \<le> b" "P a s" "\<And>k s. a \<le> k \<Longrightarrow> k < b \<Longrightarrow> P k s \<Longrightarrow> P (Suc k) (f k s)"
  shows "P b (fold f [a..<b] s)"
  using assms(1,3) by (induction b rule: dec_induct) (simp_all add: assms(2))

text \<open>The slots before \<open>(pd, pt)\<close> in the order of the loops.\<close>

definition slots_before :: "nat \<Rightarrow> nat \<Rightarrow> (nat \<times> nat) set" where
  "slots_before pd pt = {x \<in> user_slots. fst x < pd \<or> (fst x = pd \<and> snd x < pt)}"

lemma slots_before_step:
  "16 \<le> pd \<Longrightarrow> pd < 1024 \<Longrightarrow> pt < 1024 \<Longrightarrow> slots_before pd (Suc pt) = insert (pd, pt) (slots_before pd pt)"
  "slots_before (Suc pd) 0 = slots_before pd 1024"
  "slots_before 16 0 = {}" "slots_before 1024 0 = user_slots"
  "(pd, pt) \<notin> slots_before pd pt"
  by (auto simp: slots_before_def user_slots_def less_Suc_eq)

lemma clone_table_inv:
  assumes inv: "clone_inv s0 parent child (slots_before pd 0) s" and fork: "forkable s0 parent"
    and pd: "16 \<le> pd" "pd < 1024"
  shows "clone_inv s0 parent child (slots_before (Suc pd) 0) (clone_table child parent pd s)"
proof -
  have pde: "get_entry (mem s) parent pd = get_entry (mem s0) parent pd"
    using inv pd by (simp add: clone_inv_def)
  show ?thesis
  proof (cases "is_present (get_entry (mem s0) parent pd)")
    case True
    let ?f = "clone_page child (page_base (get_entry (mem s0) parent pd)) pd"
    have "clone_inv s0 parent child (slots_before pd 1024) (fold ?f [0..<1024] s)"
      by (rule fold_upt_inv[where P = "\<lambda>k. clone_inv s0 parent child (slots_before pd k)"])
        (use inv pd clone_page_inv[OF _ fork _ _ True] in
          \<open>auto simp: slots_before_step user_slots_def\<close>)
    then show ?thesis
      using True pde by (simp add: clone_table_def Let_def ENTRIES_PER_TABLE_def slots_before_step)
  next
    case False
    have "slots_of (mem s0) parent f \<inter> slots_before (Suc pd) 0 = slots_of (mem s0) parent f \<inter> slots_before pd 0" for f
      using False by (auto simp: slots_of_def slots_before_def leaf_Some user_pte_def Let_def less_Suc_eq)
    moreover have "leaf (mem s0) parent x = None" if "x \<in> slots_before (Suc pd) 0" "x \<notin> slots_before pd 0" for x
      using that False by (auto simp: slots_before_def less_Suc_eq leaf_def user_pte_def)
    moreover have "x \<in> slots_before (Suc pd) 0" if "x \<in> slots_before pd 0" for x
      using that by (auto simp: slots_before_def)
    ultimately have "clone_inv s0 parent child (slots_before (Suc pd) 0) s"
      using inv unfolding clone_inv_def by (smt (verit) option.map(1))
    then show ?thesis using False pde by (simp add: clone_table_def)
  qed
qed

text \<open>The child's directory before the loops: the kernel's entries and an empty user range.\<close>

lemma clone_kernel_directory_inv:
  assumes fork: "forkable s parent" and room: "0 < free_frames s"
    and kdir: "page_aligned (page_directory s)" "frame_live s (page_directory s)"
      "\<forall>pd. 16 \<le> pd \<and> pd < 1024 \<longrightarrow> \<not> is_present (get_entry (mem s) (page_directory s) pd)"
    and tables: "card {pd. 16 \<le> pd \<and> pd < 1024 \<and> is_present (get_entry (mem s) parent pd)} < free_frames s"
  shows "\<exists>child s1. paging_clone_kernel_directory s = (child, s1) \<and> child \<noteq> 0 \<and> \<not> frame_live s child \<and>
    clone_inv s parent child {} s1"
proof -
  have inv: "pmm_inv s" and wf: "as_wf s parent" using fork by (simp_all add: forkable_def)
  obtain c s1 where c: "pmm_alloc_frame s = (c, s1)" "c \<noteq> 0" "Suc (free_frames s1) = free_frames s"
    using free_frames_alloc[OF inv room] by blast
  note fresh = frames.alloc_fresh[OF inv c(1,2)] pmm_alloc_free[OF inv c(1,2)]
  have ms: "mem s1 = mem s" "page_directory s1 = page_directory s"
    using pmm_ops_vm(3,11)[of s] c(1) by simp_all
  have ne: "c \<noteq> page_directory s" "c \<notin> pages_of (mem s) parent"
    using fresh kdir(2) pages_of_live[OF wf] by (auto simp: frame_live_def)
  let ?m = "\<lambda>n. fold (\<lambda>i m. set_entry c i (get_entry m (page_directory s) i) m) [0..<n] (mem s)"
  have copy: "get_entry (?m n) q j = (if q = c \<and> j < n then get_entry (mem s) (page_directory s) j
      else get_entry (mem s) q j)" if "page_aligned q" "n \<le> 1024" "j < 1024" for n q j
    using that(2,1,3) by (induction n arbitrary: q j) (use fresh kdir(1) ne in \<open>auto simp: word_mem.get_put less_Suc_eq\<close>)
  let ?s1 = "s1\<lparr>mem := ?m 1024\<rparr>"
  have res: "paging_clone_kernel_directory s = (c, ?s1)"
    by (simp add: paging_clone_kernel_directory_def c(1) ms ENTRIES_PER_TABLE_def)
  have same: "get_entry (mem ?s1) q i = get_entry (mem s) q i" if "q \<in> pages_of (mem s) parent" "i < 1024" for q i
    using that ne pages_of_live[OF wf that(1)] copy[of q 1024 i] by auto
  have child: "get_entry (mem ?s1) c i = get_entry (mem s) (page_directory s) i" if "i < 1024" for i
    using that fresh copy[of c 1024 i] by simp
  have pages: "pages_of (mem ?s1) c = {c}" using child kdir(3) by (auto simp: pages_of_def)
  have ppages: "pages_of (mem ?s1) parent = pages_of (mem s) parent"
    by (rule pages_of_cong(1)) (rule same)
  have leaves: "leaf (mem ?s1) c x = None" if "x \<in> user_slots" for x
    using that child kdir(3) by (auto simp: leaf_def user_pte_def user_slots_def split: option.splits)
  have "as_wf ?s1 parent"
    using same fresh by (intro as_wf_mono[OF wf]) (auto simp: pages_of_def frame_live_def)
  moreover have "as_wf ?s1 c" using child kdir(3) fresh by (simp add: as_wf_def frame_live_def)
  moreover have "{pd. 16 \<le> pd \<and> pd < 1024 \<and> is_present (get_entry (mem s) parent pd) \<and>
       \<not> is_present (get_entry (mem ?s1) c pd)} = {pd. 16 \<le> pd \<and> pd < 1024 \<and> is_present (get_entry (mem s) parent pd)}"
    using child kdir(3) by auto
  moreover have "pmm_inv ?s1" using pmm_alloc_frame_inv[OF inv] c(1) by simp
  moreover have "leaf (mem ?s1) parent x = leaf (mem s) parent x" if "x \<in> user_slots" for x
    by (rule pages_of_cong(2)[OF same that])
  moreover have "get_entry (mem ?s1) parent i = get_entry (mem s) parent i" if "i < 1024" for i
    using that by (intro same) (simp_all add: pages_of_def)
  ultimately have "clone_inv s parent c {} ?s1"
    using leaves pages ppages ne(2) tables c(3) fresh child
    by (auto simp: clone_inv_def)
  with res c(2) fresh show ?thesis by (auto simp: frame_live_def)
qed

lemma clone_address_space_inv:
  assumes "forkable s parent" "page_aligned (page_directory s)" "frame_live s (page_directory s)"
    and "\<forall>pd. 16 \<le> pd \<and> pd < 1024 \<longrightarrow> \<not> is_present (get_entry (mem s) (page_directory s) pd)"
    and "card {pd. 16 \<le> pd \<and> pd < 1024 \<and> is_present (get_entry (mem s) parent pd)} < free_frames s"
  shows "\<exists>child s'. paging_clone_address_space parent s = (child, s') \<and> child \<noteq> 0 \<and> \<not> frame_live s child \<and>
    clone_inv s parent child user_slots s'"
proof -
  have "0 < free_frames s" using assms(5) by simp
  from clone_kernel_directory_inv[OF assms(1) this assms(2-5)]
  obtain child s1 where c: "paging_clone_kernel_directory s = (child, s1)" "child \<noteq> 0" "\<not> frame_live s child"
    and inv: "clone_inv s parent child {} s1" by blast
  have "clone_inv s parent child (slots_before 1024 0) (fold (clone_table child parent) [16..<1024] s1)"
    by (rule fold_upt_inv[where P = "\<lambda>k. clone_inv s parent child (slots_before k 0)"])
      (use inv clone_table_inv[OF _ assms(1)] in \<open>auto simp: slots_before_step\<close>)
  then show ?thesis using c
    by (simp add: paging_clone_address_space_def IDENTITY_MAP_TABLES_def ENTRIES_PER_TABLE_def slots_before_step)
qed

section \<open>Teardown\<close>

text \<open>The user tables of \<open>dir\<close> below index \<open>n\<close> that live in frame \<open>f\<close>.\<close>

definition tables_in :: "memory \<Rightarrow> addr \<Rightarrow> nat \<Rightarrow> nat \<Rightarrow> nat set" where
  "tables_in m dir n f = {i. 16 \<le> i \<and> i < n \<and> is_present (get_entry m dir i) \<and>
     frame_of (page_base (get_entry m dir i)) = f}"

definition free_inv :: "'a vm_scheme \<Rightarrow> addr \<Rightarrow> nat \<Rightarrow> nat \<Rightarrow> 'a vm_scheme \<Rightarrow> bool" where
  "free_inv s0 dir pd k s \<longleftrightarrow> pmm_inv s \<and> page_directory s = page_directory s0 \<and>
     (\<forall>i<1024. get_entry (mem s) dir i =
        (if 16 \<le> i \<and> i < pd \<and> is_present (get_entry (mem s0) dir i) then 0 else get_entry (mem s0) dir i)) \<and>
     (\<forall>i j. 16 \<le> i \<and> i < 1024 \<and> j < 1024 \<and> is_present (get_entry (mem s0) dir i) \<longrightarrow>
        (if i < pd \<or> i = pd \<and> j < k
         then \<not> is_present (get_entry (mem s) (page_base (get_entry (mem s0) dir i)) j)
         else get_entry (mem s) (page_base (get_entry (mem s0) dir i)) j =
           get_entry (mem s0) (page_base (get_entry (mem s0) dir i)) j)) \<and>
     (\<forall>q i. page_aligned q \<and> q \<notin> pages_of (mem s0) dir \<and> i < 1024 \<longrightarrow>
        get_entry (mem s) q i = get_entry (mem s0) q i) \<and>
     (\<forall>f. frame_refs s f = frame_refs s0 f -
        (card (slots_of (mem s0) dir f \<inter> slots_before pd k) + card (tables_in (mem s0) dir pd f)))"

lemma free_page_inv:
  assumes inv: "free_inv s0 dir pd k s" and wf: "as_wf s0 dir"
    and idx: "16 \<le> pd" "pd < 1024" "k < 1024" and pres: "is_present (get_entry (mem s0) dir pd)"
  shows "free_inv s0 dir pd (Suc k) (free_page (page_base (get_entry (mem s0) dir pd)) k s)"
proof -
  let ?T = "page_base (get_entry (mem s0) dir pd)"
  have pte: "get_entry (mem s) ?T k = get_entry (mem s0) ?T k"
    using inv idx pres by (simp add: free_inv_def)
  have leaf: "leaf (mem s0) dir (pd, k) = (if is_present (get_entry (mem s0) ?T k) then Some (get_entry (mem s0) ?T k) else None)"
    using pres by (simp add: leaf_def user_pte_def Let_def)
  show ?thesis
  proof (cases "is_present (get_entry (mem s0) ?T k)")
    case False
    then have "slots_of (mem s0) dir f \<inter> slots_before pd (Suc k) = slots_of (mem s0) dir f \<inter> slots_before pd k" for f
      using leaf idx by (auto simp: slots_before_step slots_of_def)
    with inv False pte show ?thesis
      unfolding free_inv_def by (auto simp: free_page_def Let_def less_Suc_eq)
  next
    case True
    let ?f0 = "frame_of (page_base (get_entry (mem s0) ?T k))"
    have slots: "slots_of (mem s0) dir f \<inter> slots_before pd (Suc k) =
        (if f = ?f0 then insert (pd, k) (slots_of (mem s0) dir f \<inter> slots_before pd k)
         else slots_of (mem s0) dir f \<inter> slots_before pd k)" for f
      using leaf idx True by (auto simp: slots_before_step slots_of_def user_slots_def)
    have refs: "card (slots_of (mem s0) dir f \<inter> slots_before pd (Suc k)) =
        card (slots_of (mem s0) dir f \<inter> slots_before pd k) + (if f = ?f0 then 1 else 0)" for f
      unfolding slots by (auto simp: slots_before_step(5))
    have dir: "page_aligned dir" "?T \<noteq> dir" using as_wfD[OF wf] as_wf_table(1)[OF wf idx(1,2) pres] by auto
    have inj: "page_base (get_entry (mem s0) dir i) = ?T \<longleftrightarrow> i = pd"
      if "16 \<le> i" "i < 1024" "is_present (get_entry (mem s0) dir i)" for i
      using as_wf_inj[OF wf idx(1,2) pres that] by auto
    have T: "?T \<in> pages_of (mem s0) dir" using idx pres by (intro pages_ofI)
    let ?s' = "free_page ?T k s"
    have mem': "mem ?s' = set_entry ?T k 0 (mem s)" using True pte by (simp add: free_page_def Let_def)
    have get: "get_entry (mem ?s') q i = (if q = ?T \<and> i = k then 0 else get_entry (mem s) q i)"
      if "page_aligned q" "i < 1024" for q i using that idx by (auto simp: mem' word_mem.get_put)
    have "pmm_inv ?s'" using inv True pte
      by (simp add: free_page_def Let_def free_inv_def pmm_free_frame_inv)
    moreover have "page_directory ?s' = page_directory s" using True pte by (simp add: free_page_def Let_def)
    moreover have "frame_refs ?s' = (frame_refs s)(?f0 := frame_refs s ?f0 - 1)"
      using True pte by (simp add: free_page_def Let_def pmm_free_frame_refs)
    ultimately show ?thesis
      using inv dir T inj idx unfolding free_inv_def by (auto simp: get refs less_Suc_eq)
  qed
qed

lemma free_table_inv:
  assumes inv: "free_inv s0 dir pd 0 s" and wf: "as_wf s0 dir" and idx: "16 \<le> pd" "pd < 1024"
  shows "free_inv s0 dir (Suc pd) 0 (free_table dir pd s)"
proof -
  have pde: "get_entry (mem s) dir pd = get_entry (mem s0) dir pd"
    using inv idx by (simp add: free_inv_def)
  show ?thesis
  proof (cases "is_present (get_entry (mem s0) dir pd)")
    case False
    have "slots_of (mem s0) dir f \<inter> slots_before (Suc pd) 0 = slots_of (mem s0) dir f \<inter> slots_before pd 0"
      "tables_in (mem s0) dir (Suc pd) f = tables_in (mem s0) dir pd f" for f
      using False by (auto simp: slots_of_def slots_before_def tables_in_def leaf_Some user_pte_def Let_def less_Suc_eq)
    moreover have "free_table dir pd s = s" using False pde by (simp add: free_table_def)
    ultimately show ?thesis using inv False unfolding free_inv_def by (auto simp: less_Suc_eq)
  next
    case True
    let ?T = "page_base (get_entry (mem s0) dir pd)"
    let ?s1 = "fold (free_page ?T) [0..<1024] s"
    have inv1: "free_inv s0 dir pd 1024 ?s1"
      by (rule fold_upt_inv[where P = "free_inv s0 dir pd"]) (use inv free_page_inv[OF _ wf idx _ True] in auto)
    let ?s' = "(pmm_free_frame ?T ?s1)\<lparr>mem := set_entry dir pd 0 (mem ?s1)\<rparr>"
    have res: "free_table dir pd s = ?s'"
      using True pde by (simp add: free_table_def Let_def ENTRIES_PER_TABLE_def)
    have dir: "page_aligned dir" "dir \<in> pages_of (mem s0) dir" using as_wfD[OF wf] by (auto simp: pages_of_def)
    have ne: "(page_base (get_entry (mem s0) dir i) = dir) = False"
      if "16 \<le> i" "i < 1024" "is_present (get_entry (mem s0) dir i)" for i using as_wf_table(1)[OF wf that] by simp
    have "tables_in (mem s0) dir (Suc pd) f =
        (if f = frame_of ?T then insert pd (tables_in (mem s0) dir pd f) else tables_in (mem s0) dir pd f)" for f
      using True idx by (auto simp: tables_in_def less_Suc_eq)
    moreover have "finite (tables_in (mem s0) dir pd f)" "pd \<notin> tables_in (mem s0) dir pd f" for f
      by (auto simp: tables_in_def)
    ultimately have card: "card (tables_in (mem s0) dir (Suc pd) f) =
        card (tables_in (mem s0) dir pd f) + (if f = frame_of ?T then 1 else 0)" for f by simp
    have "pmm_inv ?s'" using inv1 by (simp add: free_inv_def pmm_free_frame_inv)
    moreover have "page_directory ?s' = page_directory s0" using inv1 by (simp add: free_inv_def)
    moreover have "get_entry (mem ?s') dir i = (if 16 \<le> i \<and> i < Suc pd \<and> is_present (get_entry (mem s0) dir i)
        then 0 else get_entry (mem s0) dir i)" if "i < 1024" for i
      using inv1 that dir idx True by (auto simp: free_inv_def word_mem.get_put less_Suc_eq)
    moreover have "if i < Suc pd \<or> i = Suc pd \<and> j < 0
         then \<not> is_present (get_entry (mem ?s') (page_base (get_entry (mem s0) dir i)) j)
         else get_entry (mem ?s') (page_base (get_entry (mem s0) dir i)) j =
           get_entry (mem s0) (page_base (get_entry (mem s0) dir i)) j"
      if i: "16 \<le> i \<and> i < 1024 \<and> j < 1024 \<and> is_present (get_entry (mem s0) dir i)" for i j
    proof -
      have "get_entry (mem ?s') (page_base (get_entry (mem s0) dir i)) j =
          get_entry (mem ?s1) (page_base (get_entry (mem s0) dir i)) j"
        using ne[of i] i dir idx by (simp add: word_mem.get_put)
      then show ?thesis using inv1 i by (auto simp: free_inv_def less_Suc_eq)
    qed
    moreover have "get_entry (mem ?s') q i = get_entry (mem s0) q i"
      if "page_aligned q \<and> q \<notin> pages_of (mem s0) dir \<and> i < 1024" for q i
      using inv1 that dir idx by (auto simp: free_inv_def word_mem.get_put)
    moreover have "frame_refs ?s' f = frame_refs s0 f -
        (card (slots_of (mem s0) dir f \<inter> slots_before (Suc pd) 0) + card (tables_in (mem s0) dir (Suc pd) f))" for f
      using inv1 by (simp add: pmm_free_frame_refs card slots_before_step free_inv_def)
    ultimately show ?thesis unfolding res free_inv_def by blast
  qed
qed

lemma free_address_space_inv:
  assumes inv: "pmm_inv s" and wf: "as_wf s dir"
  shows "free_inv s dir 1024 0 (paging_free_address_space dir s)"
proof -
  have "tables_in (mem s) dir 16 f = {}" for f by (auto simp: tables_in_def)
  then have "free_inv s dir 16 0 s"
    using inv by (auto simp: free_inv_def slots_before_step)
  then have "free_inv s dir 1024 0 (fold (free_table dir) [16..<1024] s)"
    by (intro fold_upt_inv[where P = "\<lambda>k. free_inv s dir k 0"]) (auto intro: free_table_inv[OF _ wf])
  then show ?thesis
    by (simp add: paging_free_address_space_def IDENTITY_MAP_TABLES_def ENTRIES_PER_TABLE_def)
qed

section \<open>The demonstration address space\<close>

lemma demo_leaf:
  "x \<in> user_slots \<Longrightarrow> leaf demo_mem 0x100000 x = (if x = (16, 0) then Some 0x102205 else None)"
  by (cases x; cases "fst x = 16") (simp_all add: leaf_def user_pte_def Let_def user_slots_def)

lemma demo_slots: "slots_of demo_mem 0x100000 f = (if f = 258 then {(16, 0)} else {})"
proof -
  have "(16, 0) \<in> user_slots" by (simp add: user_slots_def)
  then show ?thesis by (auto simp: slots_of_def demo_leaf split: if_splits)
qed

lemma demo_free_frames: "free_frames demo_vm = 32509"
proof -
  have "{f. f < MAX_FRAMES \<and> \<not> bitmap_test f demo_vm} = {259..<32768}"
    by (auto simp: MAX_FRAMES_val)
  then show ?thesis by (simp add: free_frames_def)
qed

lemma demo_tables: "{pd. 16 \<le> pd \<and> pd < 1024 \<and> is_present (get_entry demo_mem 0x100000 pd)} = {16}"
  by (auto split: if_splits)

lemma demo_frame_refs: "frame_refs demo_vm f = (if f \<in> {256, 257, 258} then 1 else 0)"
  by (auto simp: frame_refs_def MAX_FRAMES_val)

lemma demo_forkable: "forkable demo_vm 0x100000"
  by (simp add: forkable_def demo_vm_inv demo_vm_wf demo_slots demo_frame_refs)

section \<open>Properties\<close>

text \<open>C6: fork. With a free frame for the child's directory and for each of its tables,
  \<open>paging_clone_address_space\<close> returns a fresh directory with the kernel's lower half whose pages
  are disjoint from the parent's; every page the parent maps is mapped in the child at the same
  address on the same frame, read-only and copy-on-write on both sides, nothing else is mapped,
  and each frame gains exactly one reference per shared page.\<close>

theorem fork_shares:
  assumes "forkable s parent" "page_aligned (page_directory s)" "frame_live s (page_directory s)"
    and "\<forall>pd. 16 \<le> pd \<and> pd < 1024 \<longrightarrow> \<not> is_present (get_entry (mem s) (page_directory s) pd)"
    and "card {pd. 16 \<le> pd \<and> pd < 1024 \<and> is_present (get_entry (mem s) parent pd)} < free_frames s"
  shows "\<exists>child s'. paging_clone_address_space parent s = (child, s') \<and> child \<noteq> 0 \<and> \<not> frame_live s child \<and>
    pmm_inv s' \<and> as_wf s' parent \<and> as_wf s' child \<and>
    pages_of (mem s') child \<inter> pages_of (mem s') parent = {} \<and>
    (\<forall>pd<16. get_entry (mem s') child pd = get_entry (mem s) (page_directory s) pd) \<and>
    (\<forall>x\<in>user_slots. leaf (mem s') child x = map_option share (leaf (mem s) parent x) \<and>
       leaf (mem s') parent x = map_option share (leaf (mem s) parent x)) \<and>
    (\<forall>e. page_base (share e) = page_base e \<and> \<not> is_writable (share e) \<and> is_cow (share e)) \<and>
    (\<forall>f<MAX_FRAMES. bitmap_test f s \<longrightarrow>
       frame_refs s' f = frame_refs s f + card (slots_of (mem s) parent f))"
proof -
  obtain child s' where res: "paging_clone_address_space parent s = (child, s')" "child \<noteq> 0" "\<not> frame_live s child"
    and inv: "clone_inv s parent child user_slots s'"
    using clone_address_space_inv[OF assms] by blast
  have "slots_of (mem s) parent f \<inter> user_slots = slots_of (mem s) parent f" for f
    by (auto simp: slots_of_def)
  with res inv show ?thesis
    by (intro exI[of _ child] exI[of _ s']) (simp add: clone_inv_def share_flags)
qed

theorem fork_shares_witness:
  "\<exists>child s'. paging_clone_address_space 0x100000 demo_vm = (child, s') \<and>
     leaf (mem s') child (16, 0) = Some (share 0x102205) \<and> leaf (mem s') child (17, 5) = None \<and>
     frame_refs s' 258 = 2"
proof -
  have h: "page_aligned (page_directory demo_vm)" "frame_live demo_vm (page_directory demo_vm)"
    "\<forall>pd. 16 \<le> pd \<and> pd < 1024 \<longrightarrow> \<not> is_present (get_entry (mem demo_vm) (page_directory demo_vm) pd)"
    "card {pd. 16 \<le> pd \<and> pd < 1024 \<and> is_present (get_entry (mem demo_vm) 0x100000 pd)} < free_frames demo_vm"
    unfolding demo_vm_simps demo_tables demo_free_frames
    by (simp_all add: frame_live_def frame_of_def)
  obtain child s' where r: "paging_clone_address_space 0x100000 demo_vm = (child, s')"
    and l: "\<forall>x\<in>user_slots. leaf (mem s') child x = map_option share (leaf (mem demo_vm) 0x100000 x) \<and>
       leaf (mem s') 0x100000 x = map_option share (leaf (mem demo_vm) 0x100000 x)"
    and f: "\<forall>f<MAX_FRAMES. bitmap_test f demo_vm \<longrightarrow>
       frame_refs s' f = frame_refs demo_vm f + card (slots_of (mem demo_vm) 0x100000 f)"
    using fork_shares[OF demo_forkable h] by blast
  have u: "(16, 0) \<in> user_slots" "(17, 5) \<in> user_slots" by (simp_all add: user_slots_def)
  have "leaf (mem s') child (16, 0) = Some (share 0x102205)" "leaf (mem s') child (17, 5) = None"
    using l[rule_format, OF u(1)] l[rule_format, OF u(2)] u by (simp_all add: demo_leaf)
  moreover have "frame_refs s' 258 = 2"
    using f[rule_format, of 258] by (simp add: MAX_FRAMES_val demo_slots demo_frame_refs)
  ultimately show ?thesis using r by blast
qed

text \<open>Teardown. \<open>paging_free_address_space\<close> leaves the directory without any user entry and
  with its kernel entries as they were, changes no page outside the directory and its tables, and
  drops one reference for each mapping of a frame and one for each table, keeping the allocator's
  invariant.\<close>

theorem teardown_releases:
  assumes "pmm_inv s" "as_wf s dir"
  defines "s' \<equiv> paging_free_address_space dir s"
  shows "pmm_inv s' \<and>
    (\<forall>pd. 16 \<le> pd \<and> pd < 1024 \<longrightarrow> \<not> is_present (get_entry (mem s') dir pd)) \<and>
    (\<forall>pd<16. get_entry (mem s') dir pd = get_entry (mem s) dir pd) \<and>
    (\<forall>q i. page_aligned q \<and> q \<notin> pages_of (mem s) dir \<and> i < 1024 \<longrightarrow>
       get_entry (mem s') q i = get_entry (mem s) q i) \<and>
    (\<forall>f. frame_refs s' f = frame_refs s f -
       (card (slots_of (mem s) dir f) + card (tables_in (mem s) dir 1024 f)))"
proof -
  have inv: "free_inv s dir 1024 0 s'" unfolding s'_def by (rule free_address_space_inv[OF assms(1,2)])
  have "slots_of (mem s) dir f \<inter> slots_before 1024 0 = slots_of (mem s) dir f" for f
    by (auto simp: slots_of_def slots_before_step)
  with inv show ?thesis by (auto simp: free_inv_def)
qed

theorem teardown_releases_witness:
  "frame_refs (paging_free_address_space 0x100000 demo_vm) 258 = 0 \<and>
   \<not> is_present (get_entry (mem (paging_free_address_space 0x100000 demo_vm)) 0x100000 16)"
proof -
  have "frame_refs (paging_free_address_space 0x100000 demo_vm) 258 =
      1 - (1 + card (tables_in demo_mem 0x100000 1024 258))"
    using teardown_releases[OF demo_vm_inv demo_vm_wf] by (simp add: demo_frame_refs demo_slots)
  then show ?thesis using teardown_releases[OF demo_vm_inv demo_vm_wf] by simp
qed

text \<open>C8: a directory cloned from the kernel's after \<open>paging_map_kernel_page\<close> has shared the
  framebuffer holds the kernel's own page table above the identity range, and tearing that
  directory down destroys it: the table is emptied and its frame returned to the allocator while
  the kernel directory still points to it.\<close>

theorem teardown_destroys_kernel_table:
  assumes "pmm_inv s" "as_wf s dir"
    and "page_aligned (page_directory s)" "page_directory s \<notin> pages_of (mem s) dir"
    and "16 \<le> pd" "pd < 1024" "is_present (get_entry (mem s) (page_directory s) pd)"
    and "get_entry (mem s) dir pd = get_entry (mem s) (page_directory s) pd"
    and "frame_refs s (frame_of (page_base (get_entry (mem s) dir pd))) = 1"
  defines "s' \<equiv> paging_free_address_space dir s"
  shows "get_entry (mem s') (page_directory s') pd = get_entry (mem s) (page_directory s) pd \<and>
    (\<forall>pt<1024. leaf (mem s') (page_directory s') (pd, pt) = None) \<and>
    frame_refs s' (frame_of (page_base (get_entry (mem s) (page_directory s) pd))) = 0"
proof -
  let ?f = "frame_of (page_base (get_entry (mem s) dir pd))"
  have inv: "free_inv s dir 1024 0 s'" unfolding s'_def by (rule free_address_space_inv[OF assms(1,2)])
  then have same: "get_entry (mem s') (page_directory s') pd = get_entry (mem s) (page_directory s) pd"
    using assms by (simp add: free_inv_def)
  moreover have "leaf (mem s') (page_directory s') (pd, pt) = None" if "pt < 1024" for pt
  proof -
    have "\<not> is_present (get_entry (mem s') (page_base (get_entry (mem s) dir pd)) pt)"
      using inv assms(5-7) that unfolding assms(8)[symmetric] by (simp add: free_inv_def)
    then show ?thesis using same assms(7,8) by (simp add: leaf_def user_pte_def Let_def)
  qed
  moreover have "pd \<in> tables_in (mem s) dir 1024 ?f" using assms(5-8) by (simp add: tables_in_def)
  then have "0 < card (tables_in (mem s) dir 1024 ?f)"
    by (subst card_gt_0_iff) (auto simp: tables_in_def)
  then have "frame_refs s' ?f = 0" using inv assms(9) by (simp add: free_inv_def)
  ultimately show ?thesis using assms(8) by simp
qed

text \<open>The kernel directory of the demonstration state sharing the table at index 16.\<close>

definition fb_vm :: vm where
  "fb_vm = demo_vm\<lparr>mem := set_entry 0x80000 16 0x101007 demo_mem\<rparr>"

theorem teardown_destroys_kernel_table_witness:
  "is_present (get_entry (mem (paging_free_address_space 0x100000 fb_vm)) 0x80000 16) \<and>
   frame_refs (paging_free_address_space 0x100000 fb_vm) 257 = 0"
proof -
  have entries: "get_entry (mem fb_vm) 0x100000 i = (if i = 16 then 0x101007 else 0)"
    "get_entry (mem fb_vm) 0x80000 i = (if i = 16 then 0x101007 else 0)" if "i < 1024" for i
    using that by (simp_all add: fb_vm_def word_mem.get_put)
  have pmm: "pmm_inv fb_vm" "page_directory fb_vm = 0x80000" "frame_refs fb_vm = frame_refs demo_vm"
    by (simp_all add: fb_vm_def demo_vm_inv)
  have wf: "as_wf fb_vm 0x100000"
    using as_wf_mono[OF demo_vm_wf, of fb_vm] entries(1) by (simp add: frame_live_def) (simp add: fb_vm_def)
  have out: "page_directory fb_vm \<notin> pages_of (mem fb_vm) 0x100000"
    by (auto simp: pages_of_def pmm entries split: if_splits)
  have "page_directory (paging_free_address_space 0x100000 fb_vm) = page_directory fb_vm"
    using free_address_space_inv[OF pmm(1) wf] by (simp add: free_inv_def)
  then show ?thesis
    using teardown_destroys_kernel_table[OF pmm(1) wf _ out, where pd = 16]
    by (simp add: pmm entries demo_frame_refs)
qed

end
