(* ===== verification/Heap.thy ===== *)
theory Heap
  imports Fork
begin

text \<open>
  \<open>kernel/heap.c\<close>: the first-fit kernel heap. The block headers that the code keeps in front of
  every block are a store \<open>hdr\<close> from the header's address to the three fields of
  \<open>struct block_header\<close> (an \<open>int free\<close> that is only 0 or 1 is a Boolean); the C null pointer is
  the address 0. \<open>heap_extend\<close> runs on the real frame allocator and page tables.

  The abstract heap is the list of blocks \<open>(address, size, free)\<close> in address order; \<open>heap_inv\<close>
  says that the chain of headers is such a list and that its blocks tile the window from
  \<open>HEAP_START\<close> to \<open>heap_end\<close> without gap or overlap. The two loops follow pointers and are
  partial functions; that they end is part of the theorems.
\<close>

record block_header =
  blk_size :: u32
  blk_free :: bool
  blk_next :: addr

record heap = vm +
  heap_end :: u32
  heap_head :: addr
  hdr :: "addr \<Rightarrow> block_header"

definition HEAP_START :: addr where "HEAP_START = 0x00400000"
definition HEAP_INITIAL_PAGES :: u32 where "HEAP_INITIAL_PAGES = 4"
definition PAGE_SIZE :: u32 where "PAGE_SIZE = 4096"

text \<open>\<open>sizeof(struct block_header)\<close>.\<close>

definition HDR :: u32 where "HDR = 12"

lemmas heap_consts = HEAP_START_def HEAP_INITIAL_PAGES_def PAGE_SIZE_def HDR_def

section \<open>Operations\<close>

primrec heap_extend_n :: "nat \<Rightarrow> 'a heap_scheme \<Rightarrow> 'a heap_scheme" where
  "heap_extend_n 0 s = s"
| "heap_extend_n (Suc n) s =
     (let (phys, s1) = pmm_alloc_frame s in
      if phys = 0 then s1
      else let s2 = snd (paging_map_page phys (heap_end s1) 2 s1)
           in heap_extend_n n (s2\<lparr>heap_end := heap_end s2 + PAGE_SIZE\<rparr>))"

definition heap_extend :: "u32 \<Rightarrow> 'a heap_scheme \<Rightarrow> 'a heap_scheme" where
  "heap_extend npages s = heap_extend_n (unat npages) s"

definition heap_init :: "'a heap_scheme \<Rightarrow> 'a heap_scheme" where
  "heap_init s =
     (let s1 = heap_extend HEAP_INITIAL_PAGES s in
      s1\<lparr>heap_head := HEAP_START,
         hdr := (hdr s1)(HEAP_START := \<lparr>blk_size = HEAP_INITIAL_PAGES * PAGE_SIZE - HDR,
           blk_free = True, blk_next = 0\<rparr>)\<rparr>)"

text \<open>The scan of \<open>kmalloc\<close>: the first fitting block (0 when the end is reached) and \<open>prev\<close>.\<close>

partial_function (option) find_fit ::
    "(addr \<Rightarrow> block_header) \<Rightarrow> u32 \<Rightarrow> addr \<Rightarrow> addr \<Rightarrow> (addr \<times> addr) option" where
  "find_fit h n cur prev =
     (if cur = 0 then Some (0, prev)
      else if blk_free (h cur) \<and> n \<le> blk_size (h cur) then Some (cur, prev)
      else find_fit h n (blk_next (h cur)) cur)"

definition round4 :: "u32 \<Rightarrow> u32" where
  "round4 n = (n + 3) AND NOT 3"

text \<open>The block at \<open>cur\<close> is handed out, split when at least 16 bytes would remain.\<close>

definition take_block :: "u32 \<Rightarrow> addr \<Rightarrow> (addr \<Rightarrow> block_header) \<Rightarrow> (addr \<Rightarrow> block_header)" where
  "take_block n cur h =
     (if n + HDR + 16 \<le> blk_size (h cur) then
        let split = cur + HDR + n;
            h1 = h(split := \<lparr>blk_size = blk_size (h cur) - n - HDR, blk_free = True,
                     blk_next = blk_next (h cur)\<rparr>)
        in h1(cur := \<lparr>blk_size = n, blk_free = False, blk_next = split\<rparr>)
      else h(cur := (h cur)\<lparr>blk_free := False\<rparr>))"

text \<open>No block fits: grow the heap and append one block.\<close>

definition grow_block :: "u32 \<Rightarrow> addr \<Rightarrow> 'a heap_scheme \<Rightarrow> addr \<times> 'a heap_scheme" where
  "grow_block n prev s =
     (let needed = n + HDR;
          pages = (needed + PAGE_SIZE - 1) div PAGE_SIZE;
          old_end = heap_end s;
          s1 = heap_extend pages s;
          s2 = s1\<lparr>hdr := (hdr s1)(old_end := \<lparr>blk_size = pages * PAGE_SIZE - HDR,
                 blk_free = False, blk_next = 0\<rparr>)\<rparr>;
          s3 = (if prev \<noteq> 0
                then s2\<lparr>hdr := (hdr s2)(prev := (hdr s2 prev)\<lparr>blk_next := old_end\<rparr>)\<rparr>
                else s2\<lparr>heap_head := old_end\<rparr>)
      in (old_end + HDR, s3))"

definition kmalloc :: "u32 \<Rightarrow> 'a heap_scheme \<Rightarrow> (addr \<times> 'a heap_scheme) option" where
  "kmalloc nbytes s =
     (if nbytes = 0 then Some (0, s)
      else let n = round4 nbytes in
        case find_fit (hdr s) n (heap_head s) 0 of
          None \<Rightarrow> None
        | Some (cur, prev) \<Rightarrow>
            if cur \<noteq> 0 then Some (cur + HDR, s\<lparr>hdr := take_block n cur (hdr s)\<rparr>)
            else Some (grow_block n prev s))"

partial_function (option) coalesce ::
    "(addr \<Rightarrow> block_header) \<Rightarrow> addr \<Rightarrow> (addr \<Rightarrow> block_header) option" where
  "coalesce h cur =
     (if cur \<noteq> 0 \<and> blk_next (h cur) \<noteq> 0 then
        let nxt = blk_next (h cur) in
        if blk_free (h cur) \<and> blk_free (h nxt)
        then coalesce (h(cur := (h cur)\<lparr>blk_size := blk_size (h cur) + (HDR + blk_size (h nxt)),
               blk_next := blk_next (h nxt)\<rparr>)) cur
        else coalesce h nxt
      else Some h)"

definition kfree :: "addr \<Rightarrow> 'a heap_scheme \<Rightarrow> 'a heap_scheme option" where
  "kfree ptr s =
     (if ptr = 0 then Some s
      else let b = ptr - HDR;
               h = (hdr s)(b := (hdr s b)\<lparr>blk_free := True\<rparr>)
           in case coalesce h (heap_head s) of
                None \<Rightarrow> None
              | Some h' \<Rightarrow> Some (s\<lparr>hdr := h'\<rparr>))"

section \<open>The abstract heap\<close>

type_synonym block = "addr \<times> u32 \<times> bool"

fun chain :: "(addr \<Rightarrow> block_header) \<Rightarrow> addr \<Rightarrow> block list \<Rightarrow> bool" where
  "chain h a [] \<longleftrightarrow> a = 0"
| "chain h a ((b, n, f) # bs) \<longleftrightarrow> a = b \<and> a \<noteq> 0 \<and> blk_size (h a) = n \<and> blk_free (h a) = f \<and>
     chain h (blk_next (h a)) bs"

fun tiles :: "nat \<Rightarrow> block list \<Rightarrow> nat \<Rightarrow> bool" where
  "tiles a [] e \<longleftrightarrow> a = e"
| "tiles a ((b, n, f) # bs) e \<longleftrightarrow> unat b = a \<and> tiles (a + 12 + unat n) bs e"

definition heap_inv :: "'a heap_scheme \<Rightarrow> block list \<Rightarrow> bool" where
  "heap_inv s bs \<longleftrightarrow> chain (hdr s) (heap_head s) bs \<and> bs \<noteq> [] \<and>
     tiles 0x400000 bs (unat (heap_end s)) \<and> unat (heap_end s) \<le> 0x4000000 \<and>
     4096 dvd unat (heap_end s) \<and> (\<forall>(a, n, f)\<in>set bs. 4 dvd unat n)"

text \<open>First fit with splitting, and maximal merging, on the list of blocks.\<close>

fun first_fit :: "u32 \<Rightarrow> block list \<Rightarrow> (addr \<times> block list) option" where
  "first_fit n [] = None"
| "first_fit n ((a, m, f) # bs) =
     (if f \<and> n \<le> m
      then Some (a + 12, if n + 28 \<le> m then (a, n, False) # (a + 12 + n, m - n - 12, True) # bs
                         else (a, m, False) # bs)
      else map_option (\<lambda>(p, bs'). (p, (a, m, f) # bs')) (first_fit n bs))"

fun merge_free :: "block list \<Rightarrow> block list" where
  "merge_free ((a, n, True) # (b, m, True) # bs) = merge_free ((a, n + (12 + m), True) # bs)"
| "merge_free (x # bs) = x # merge_free bs"
| "merge_free [] = []"

definition release :: "addr \<Rightarrow> block list \<Rightarrow> block list" where
  "release a bs = map (\<lambda>(b, n, f). (b, n, f \<or> b = a)) bs"

section \<open>Tiles\<close>

lemma tiles_le: "tiles a bs e \<Longrightarrow> a \<le> e"
  by (induction a bs e rule: tiles.induct) auto

lemma tiles_append: "tiles a (xs @ ys) e \<longleftrightarrow> (\<exists>m. tiles a xs m \<and> tiles m ys e)"
  by (induction a xs e rule: tiles.induct) auto

lemma tiles_ge: "tiles a bs e \<Longrightarrow> (b, n, f) \<in> set bs \<Longrightarrow> a \<le> unat b \<and> unat b + 12 + unat n \<le> e"
  by (induction a bs e rule: tiles.induct) (auto dest: tiles_le)

lemma tiles_distinct: "tiles a bs e \<Longrightarrow> distinct (map fst bs)"
  by (induction a bs e rule: tiles.induct) (auto dest!: tiles_ge)

text \<open>Two different blocks of a tiling do not overlap, headers included.\<close>

lemma tiles_disjoint:
  assumes "tiles a bs e" "(b, n, f) \<in> set bs" "(c, m, g) \<in> set bs" "b \<noteq> c"
  shows "unat b + 12 + unat n \<le> unat c \<or> unat c + 12 + unat m \<le> unat b"
  using assms
proof (induction a bs e rule: tiles.induct)
  case (2 a d k h bs e)
  then show ?case using tiles_ge[of "a + 12 + unat k" bs e] by auto
qed simp

lemma tiles_cong_free: "map (\<lambda>(a, n, f). (a, n)) bs = map (\<lambda>(a, n, f). (a, n)) cs \<Longrightarrow> tiles a bs e = tiles a cs e"
proof (induction bs arbitrary: cs a)
  case (Cons x bs)
  then obtain y ys where "cs = y # ys" by (cases cs) auto
  with Cons show ?case by (cases x; cases y) auto
qed auto

section \<open>Chains\<close>

lemma chain_cong: "chain h a bs \<Longrightarrow> (\<And>x. x \<in> fst ` set bs \<Longrightarrow> h' x = h x) \<Longrightarrow> chain h' a bs"
  by (induction h a bs rule: chain.induct) auto

lemma chain_replace:
  assumes "chain h a (xs @ ys)" "\<And>x. x \<in> fst ` set xs \<Longrightarrow> h' x = h x"
    and "\<And>b. chain h b ys \<Longrightarrow> chain h' b ys'"
  shows "chain h' a (xs @ ys')"
  using assms by (induction xs arbitrary: a) auto

lemma chain_split: "chain h a (xs @ ys) \<Longrightarrow> \<exists>b. chain h b ys"
  by (induction xs arbitrary: a) auto

lemma find_fit_none:
  "chain h a bs \<Longrightarrow> first_fit n bs = None \<Longrightarrow>
    find_fit h n a p = Some (0, if bs = [] then p else fst (last bs))"
proof (induction h a bs arbitrary: p rule: chain.induct)
  case (1 h a)
  then show ?case by (simp add: find_fit.simps)
next
  case (2 h a b m f bs)
  then show ?case by (subst find_fit.simps) (auto split: if_splits)
qed

lemma first_fit_split:
  "first_fit n bs = Some (p, bs') \<Longrightarrow> \<exists>xs a m ys. bs = xs @ (a, m, True) # ys \<and> n \<le> m \<and> p = a + 12 \<and>
     bs' = xs @ (if n + 28 \<le> m then (a, n, False) # (a + 12 + n, m - n - 12, True) # ys
                 else (a, m, False) # ys) \<and> first_fit n xs = None"
proof (induction n bs arbitrary: bs' rule: first_fit.induct)
  case (2 n a m f bs)
  show ?case
  proof (cases "f \<and> n \<le> m")
    case True
    with 2 show ?thesis by (intro exI[of _ "[]"]) auto
  next
    case False
    with 2(2) obtain bs1 where "first_fit n bs = Some (p, bs1)" "bs' = (a, m, f) # bs1" by auto
    with 2(1)[OF False] obtain xs b k ys where "bs = xs @ (b, k, True) # ys \<and> n \<le> k \<and> p = b + 12 \<and>
      bs1 = xs @ (if n + 28 \<le> k then (b, n, False) # (b + 12 + n, k - n - 12, True) # ys
                  else (b, k, False) # ys) \<and> first_fit n xs = None" by blast
    with False \<open>bs' = _\<close> show ?thesis
      by (intro exI[of _ "(a, m, f) # xs"] exI[of _ b] exI[of _ k] exI[of _ ys]) auto
  qed
qed simp

lemma find_fit_some:
  "chain h a (xs @ (c, m, True) # ys) \<Longrightarrow> first_fit n xs = None \<Longrightarrow> n \<le> m \<Longrightarrow> \<exists>q. find_fit h n a p = Some (c, q)"
proof (induction xs arbitrary: a p)
  case Nil
  then show ?case by (subst find_fit.simps) auto
next
  case (Cons x xs)
  then show ?case by (cases x) (subst find_fit.simps, auto split: if_splits)
qed

section \<open>kmalloc on a fitting block\<close>

lemma split_arith:
  fixes c n m :: u32
  assumes "unat c + 12 + unat m \<le> 0x4000000" "n \<le> m"
  shows "unat (c + 12) = unat c + 12" "unat (c + 12 + n) = unat c + 12 + unat n" "unat (n + 28) = unat n + 28"
    "n + 28 \<le> m \<Longrightarrow> unat (m - n - 12) = unat m - unat n - 12"
proof -
  have nm: "unat n \<le> unat m" using assms(2) by (simp add: word_le_nat_alt)
  show c12: "unat (c + 12) = unat c + 12" using assms(1) by (subst unat_add_lt) auto
  show "unat (c + 12 + n) = unat c + 12 + unat n"
    using assms(1) nm by (subst unat_add_lt) (auto simp: c12)
  show n28: "unat (n + 28) = unat n + 28" using assms(1) nm by (subst unat_add_lt) auto
  assume "n + 28 \<le> m"
  then have le: "unat n + 28 \<le> unat m" using n28 by (simp add: word_le_nat_alt)
  have d: "unat (m - n) = unat m - unat n" by (rule unat_sub_le[OF assms(2)])
  then have "12 \<le> m - n" using le by (simp add: word_le_nat_alt)
  then show "unat (m - n - 12) = unat m - unat n - 12" using d by (simp add: unat_sub_le)
qed

lemma first_fit_tiles:
  assumes fit: "first_fit n bs = Some (p, bs')" and tiles: "tiles a bs e" "e \<le> 0x4000000"
    and al: "\<forall>(a, n, f)\<in>set bs. 4 dvd unat n" "4 dvd unat n"
  shows "tiles a bs' e" "\<forall>(a, n, f)\<in>set bs'. 4 dvd unat n" "bs' \<noteq> []"
proof -
  obtain xs c m ys where bs: "bs = xs @ (c, m, True) # ys" and nm: "n \<le> m"
    and bs': "bs' = xs @ (if n + 28 \<le> m then (c, n, False) # (c + 12 + n, m - n - 12, True) # ys
                 else (c, m, False) # ys)"
    using first_fit_split[OF fit] by blast
  have "unat c + 12 + unat m \<le> e" using tiles_ge[OF tiles(1)] bs by auto
  then have "unat c + 12 + unat m \<le> 0x4000000" using tiles(2) by simp
  note ar = split_arith[OF this nm]
  have le: "unat n + 28 \<le> unat m" if "n + 28 \<le> m" using that ar(3) by (simp add: word_le_nat_alt)
  show "tiles a bs' e"
    using tiles(1) le ar by (auto simp: bs bs' tiles_append ac_simps)
  have "4 dvd unat (m - n - 12)" if "n + 28 \<le> m"
    using al by (auto simp: bs ar(4)[OF that] intro!: dvd_diff_nat)
  then show "\<forall>(a, n, f)\<in>set bs'. 4 dvd unat n" using al by (auto simp: bs bs')
  show "bs' \<noteq> []" by (simp add: bs')
qed

lemma round4_dvd: "4 dvd unat (round4 n)"
proof -
  have "(3 :: u32) = mask 2" by (simp add: mask_eq_exp_minus_1)
  then have "round4 n AND mask 2 = 0"
    by (simp add: round4_def and.assoc)
  then have "take_bit 2 (round4 n) = 0" by (simp add: take_bit_eq_mask)
  then have "unat (round4 n) mod 4 = 0"
    by (simp add: take_bit_eq_mod word_unat_eq_iff unat_mod)
  then show ?thesis by (rule mod_0_imp_dvd)
qed

lemma take_block_eq:
  "blk_size (h c) = m \<Longrightarrow> take_block n c h = (if n + 28 \<le> m
    then h(c + 12 + n := \<lparr>blk_size = m - n - 12, blk_free = True, blk_next = blk_next (h c)\<rparr>,
           c := \<lparr>blk_size = n, blk_free = False, blk_next = c + 12 + n\<rparr>)
    else h(c := (h c)\<lparr>blk_free := False\<rparr>))"
  by (simp add: take_block_def HDR_def Let_def add.assoc)

lemma take_block_chain:
  assumes ch: "chain h a (xs @ (c, m, True) # ys)" and tiles: "tiles b (xs @ (c, m, True) # ys) e" "e \<le> 0x4000000"
    and nm: "n \<le> m"
  shows "chain (take_block n c h) a (xs @ (if n + 28 \<le> m
    then (c, n, False) # (c + 12 + n, m - n - 12, True) # ys else (c, m, False) # ys))"
proof -
  have c: "unat c + 12 + unat m \<le> 0x4000000" using tiles_ge[OF tiles(1), of c m True] tiles(2) by simp
  note ar = split_arith[OF c nm]
  have le: "unat n + 28 \<le> unat m" if "n + 28 \<le> m" using that ar(3) by (simp add: word_le_nat_alt)
  note dist = tiles_distinct[OF tiles(1)]
  have out: "x \<noteq> c \<and> (n + 28 \<le> m \<longrightarrow> x \<noteq> c + 12 + n)" if xin: "x \<in> fst ` (set xs \<union> set ys)" for x
  proof -
    obtain z where z: "z \<in> set xs \<union> set ys" "x = fst z" using xin by blast
    have "c \<notin> fst ` (set xs \<union> set ys)" using dist by (simp add: image_Un)
    with xin have "x \<noteq> c" by blast
    moreover have "(x, fst (snd z), snd (snd z)) \<in> set (xs @ (c, m, True) # ys)" using z by simp
    ultimately obtain k f where x: "(x, k, f) \<in> set (xs @ (c, m, True) # ys)" "x \<noteq> c" by blast
    then have "unat x + 12 + unat k \<le> unat c \<or> unat c + 12 + unat m \<le> unat x"
      by (intro tiles_disjoint[OF tiles(1), where g = True]) simp_all
    then have "unat x \<noteq> unat c + 12 + unat n" if "n + 28 \<le> m" using le[OF that] by linarith
    then show ?thesis using x(2) ar(2) by metis
  qed
  have head: "n + 28 \<le> m \<Longrightarrow> c + 12 + n \<noteq> c \<and> c + 12 + n \<noteq> 0" using ar(2) by (auto simp: word_unat_eq_iff)
  have "blk_size (h c) = m" using chain_split[OF ch] by auto
  note eq = take_block_eq[of h c, OF this, of n]
  show ?thesis
  proof (rule chain_replace[OF ch])
    have same: "take_block n c h x = h x" if "x \<in> fst ` (set xs \<union> set ys)" for x
      using out[OF that] by (simp add: eq)
    then show "take_block n c h x = h x" if "x \<in> fst ` set xs" for x using that by blast
    fix b assume b: "chain h b ((c, m, True) # ys)"
    then have bc: "b = c" "c \<noteq> 0" "blk_size (h c) = m" by auto
    have "chain (take_block n c h) (blk_next (h c)) ys"
      by (rule chain_cong[of h]) (use b same in auto)
    with b head show "chain (take_block n c h) b (if n + 28 \<le> m
        then (c, n, False) # (c + 12 + n, m - n - 12, True) # ys else (c, m, False) # ys)"
      by (cases "n + 28 \<le> m") (simp_all add: eq bc)
  qed
qed

lemma kmalloc_fit:
  assumes inv: "heap_inv s bs" and n: "nbytes \<noteq> 0" and fit: "first_fit (round4 nbytes) bs = Some (p, bs')"
  shows "\<exists>h. kmalloc nbytes s = Some (p, s\<lparr>hdr := h\<rparr>) \<and> heap_inv (s\<lparr>hdr := h\<rparr>) bs'"
proof -
  let ?n = "round4 nbytes"
  obtain xs c m ys where bs: "bs = xs @ (c, m, True) # ys" and nm: "?n \<le> m" and p: "p = c + 12"
    and bs': "bs' = xs @ (if ?n + 28 \<le> m then (c, ?n, False) # (c + 12 + ?n, m - ?n - 12, True) # ys
                 else (c, m, False) # ys)" and none: "first_fit ?n xs = None"
    using first_fit_split[OF fit] by blast
  have ch: "chain (hdr s) (heap_head s) (xs @ (c, m, True) # ys)"
    and tl: "tiles 0x400000 (xs @ (c, m, True) # ys) (unat (heap_end s))"
    and e: "unat (heap_end s) \<le> 0x4000000" using inv by (simp_all add: heap_inv_def bs)
  have "unat c \<noteq> 0" using tiles_ge[OF tl, of c m True] by auto
  then have c0: "c \<noteq> 0" by auto
  obtain q where "find_fit (hdr s) ?n (heap_head s) 0 = Some (c, q)"
    using find_fit_some[OF ch none nm] by blast
  then have "kmalloc nbytes s = Some (p, s\<lparr>hdr := take_block ?n c (hdr s)\<rparr>)"
    using n c0 by (simp add: kmalloc_def p HDR_def)
  moreover have "heap_inv (s\<lparr>hdr := take_block ?n c (hdr s)\<rparr>) bs'"
    using inv first_fit_tiles[OF fit tl[folded bs] e _ round4_dvd] take_block_chain[OF ch tl e nm]
    by (simp add: heap_inv_def flip: bs')
  ultimately show ?thesis by blast
qed

section \<open>Growing the heap\<close>

lemma pmm_ops_heap [simp]:
  "heap_end (pmm_free_frame a s) = heap_end s" "heap_end (snd (pmm_alloc_frame s)) = heap_end s"
  "heap_head (pmm_free_frame a s) = heap_head s" "heap_head (snd (pmm_alloc_frame s)) = heap_head s"
  "hdr (pmm_free_frame a s) = hdr s" "hdr (snd (pmm_alloc_frame s)) = hdr s"
  by (simp_all add: pmm_free_frame_def pmm_alloc_frame_def Let_def mark_free_def bitmap_clear_def
      bitmap_set_def split: option.split)

text \<open>\<open>paging_map_page\<close> writes memory only.\<close>

lemma paging_map_page_mem: "snd (paging_map_page p v f s) = s\<lparr>mem := mem (snd (paging_map_page p v f s))\<rparr>"
  by (simp add: paging_map_page_def)

lemma paging_map_page_pmm [simp]:
  "pmm_inv (snd (paging_map_page p v f s)) = pmm_inv s"
  "free_frames (snd (paging_map_page p v f s)) = free_frames s"
  "bitmap_test g (snd (paging_map_page p v f s)) = bitmap_test g s"
  "heap_end (snd (paging_map_page p v f t)) = heap_end t"
  "heap_head (snd (paging_map_page p v f t)) = heap_head t"
  "hdr (snd (paging_map_page p v f t)) = hdr t"
  by (simp_all add: paging_map_page_def)

lemma heap_fields_pmm [simp]:
  "pmm_inv (s\<lparr>heap_end := e\<rparr>) = pmm_inv s" "free_frames (s\<lparr>heap_end := e\<rparr>) = free_frames s"
  "pmm_inv (s\<lparr>hdr := h\<rparr>) = pmm_inv s" "free_frames (s\<lparr>hdr := h\<rparr>) = free_frames s"
  "pmm_inv (s\<lparr>heap_head := a\<rparr>) = pmm_inv s" "free_frames (s\<lparr>heap_head := a\<rparr>) = free_frames s"
  by (simp_all add: pmm_inv_def counts_ok_def used_count_def bitmap_test_def free_frames_def)

lemma heap_extend_n_ok:
  "pmm_inv s \<Longrightarrow> n \<le> free_frames s \<Longrightarrow>
    pmm_inv (heap_extend_n n s) \<and> free_frames (heap_extend_n n s) = free_frames s - n \<and>
    heap_end (heap_extend_n n s) = heap_end s + of_nat n * 4096 \<and>
    hdr (heap_extend_n n s) = hdr s \<and> heap_head (heap_extend_n n s) = heap_head s"
proof (induction n arbitrary: s)
  case (Suc n)
  then obtain a s1 where a: "pmm_alloc_frame s = (a, s1)" "a \<noteq> 0" "Suc (free_frames s1) = free_frames s"
    using free_frames_alloc[of s] by (metis Suc_le_D zero_less_Suc)
  have s1: "pmm_inv s1" "heap_end s1 = heap_end s" "hdr s1 = hdr s" "heap_head s1 = heap_head s"
    using pmm_alloc_frame_inv[OF Suc.prems(1)] pmm_ops_heap(2,4,6)[of s] a(1) by simp_all
  show ?case
    using Suc.IH[of "(snd (paging_map_page a (heap_end s1) 2 s1))\<lparr>heap_end := heap_end s1 + PAGE_SIZE\<rparr>"]
      Suc.prems a s1 by (simp add: PAGE_SIZE_def algebra_simps)
qed simp

lemma grow_arith:
  fixes n :: u32
  assumes "unat n \<le> 0x4000000"
  defines "pages \<equiv> (n + HDR + PAGE_SIZE - 1) div PAGE_SIZE"
  shows "unat pages = (unat n + 4107) div 4096" "unat (pages * PAGE_SIZE - HDR) = unat pages * 4096 - 12"
    "unat n + 12 \<le> unat pages * 4096"
proof -
  have eq: "n + HDR + PAGE_SIZE - 1 = n + 4107" by (simp add: heap_consts)
  have "unat (n + 4107) = unat n + 4107" using assms(1) by (subst unat_add_lt) auto
  then show pages: "unat pages = (unat n + 4107) div 4096"
    unfolding pages_def eq unat_div by (simp add: PAGE_SIZE_def)
  then show le: "unat n + 12 \<le> unat pages * 4096" by simp
  have "unat (pages * PAGE_SIZE) = unat pages * 4096"
    using assms(1) pages by (simp add: unat_word_ariths PAGE_SIZE_def)
  then show "unat (pages * PAGE_SIZE - HDR) = unat pages * 4096 - 12"
    using le by (subst unat_sub_le) (simp_all add: HDR_def word_le_nat_alt)
qed

lemma grow_block_inv:
  assumes inv: "heap_inv s bs" and pmm: "pmm_inv s" and n: "unat n \<le> 0x3000000"
  defines "pages \<equiv> (unat n + 4107) div 4096"
  assumes room: "pages \<le> free_frames s" "unat (heap_end s) + pages * 4096 \<le> 0x4000000"
  shows "\<exists>s' k. grow_block n (fst (last bs)) s = (heap_end s + 12, s') \<and>
    heap_inv s' (bs @ [(heap_end s, k, False)]) \<and> pmm_inv s' \<and> unat k = pages * 4096 - 12 \<and>
    unat (heap_end s') = unat (heap_end s) + pages * 4096 \<and> free_frames s' = free_frames s - pages"
proof -
  let ?pages = "(n + HDR + PAGE_SIZE - 1) div PAGE_SIZE"
  have n': "unat n \<le> 0x4000000" using n by simp
  have pages: "unat ?pages = pages" using grow_arith(1)[OF n'] by (simp add: pages_def)
  let ?s1 = "heap_extend ?pages s" and ?k = "?pages * PAGE_SIZE - HDR" and ?e = "heap_end s"
  have k: "unat ?k = pages * 4096 - 12" "12 \<le> pages * 4096"
    using grow_arith(2,3)[OF n'] pages by simp_all
  have s1: "pmm_inv ?s1" "heap_end ?s1 = ?e + of_nat pages * 4096" "hdr ?s1 = hdr s" "heap_head ?s1 = heap_head s"
    "free_frames ?s1 = free_frames s - pages"
    using heap_extend_n_ok[OF pmm, of pages] room(1) by (simp_all add: heap_extend_def pages)
  have small: "pages * 4096 < 2 ^ 32" using room(2) by simp
  then have "unat (of_nat pages * 4096 :: u32) = pages * 4096"
    by (simp add: unat_word_ariths unat_of_nat)
  then have end': "unat (heap_end ?s1) = unat ?e + pages * 4096"
    using room(2) by (simp add: s1(2)) (subst unat_add_lt, simp_all)
  obtain xs c m f where bs: "bs = xs @ [(c, m, f)]"
    using inv by (cases bs rule: rev_cases) (auto simp: heap_inv_def)
  have ch: "chain (hdr s) (heap_head s) (xs @ [(c, m, f)])"
    and tl: "tiles 0x400000 (xs @ [(c, m, f)]) (unat ?e)" using inv by (simp_all add: heap_inv_def bs)
  have c: "unat c + 12 + unat m = unat ?e" "0x400000 \<le> unat c"
    using tl tiles_ge[OF tl, of c m f] by (auto simp: tiles_append)
  then have e0: "?e \<noteq> 0" "c \<noteq> 0" "?e \<noteq> c" by auto
  have "tiles 0x400000 xs (unat c)" using tl by (auto simp: tiles_append)
  then have "unat x < unat c" if "x \<in> fst ` set xs" for x
    using that tiles_ge[of _ xs "unat c"] by fastforce
  then have out: "x \<noteq> ?e \<and> x \<noteq> c" if "x \<in> fst ` set xs" for x
    using that c by fastforce
  let ?h = "((hdr s)(?e := \<lparr>blk_size = ?k, blk_free = False, blk_next = 0\<rparr>))(c := (hdr s c)\<lparr>blk_next := ?e\<rparr>)"
  have "chain ?h (heap_head s) (xs @ [(c, m, f), (?e, ?k, False)])"
    by (rule chain_replace[OF ch]) (use out e0 in auto)
  moreover have "tiles 0x400000 (xs @ [(c, m, f), (?e, ?k, False)]) (unat (heap_end ?s1))"
    using tl k by (auto simp: tiles_append end' simp del: unat_of_nat)
  moreover have "4096 dvd unat (heap_end ?s1)" using inv by (simp add: end' heap_inv_def)
  moreover have "4 dvd unat ?k" by (simp add: k dvd_diff_nat)
  ultimately have "heap_inv (?s1\<lparr>hdr := ?h\<rparr>) (bs @ [(?e, ?k, False)])"
    using inv room(2) by (simp add: heap_inv_def bs s1(4) end')
  moreover have "grow_block n (fst (last bs)) s = (?e + 12, ?s1\<lparr>hdr := ?h\<rparr>)"
    using e0 s1 by (simp add: grow_block_def Let_def bs HDR_def)
  ultimately show ?thesis using s1(1,5) k(1) end' by (intro exI[of _ "?s1\<lparr>hdr := ?h\<rparr>"] exI[of _ ?k]) simp
qed

section \<open>kfree\<close>

text \<open>The pass advances over a block that is not merged with its successor.\<close>

lemma coalesce_advance:
  assumes "chain h a (x # bs)" "distinct (map fst (x # bs))"
    and stop: "bs = [] \<or> \<not> (snd (snd x) \<and> snd (snd (hd bs)))"
    and rest: "\<And>b. chain h b bs \<Longrightarrow> \<exists>h'. coalesce h b = Some h' \<and> chain h' b bs' \<and>
      (\<forall>y. y \<notin> fst ` set bs \<longrightarrow> h' y = h y)"
  shows "\<exists>h'. coalesce h a = Some h' \<and> chain h' a (x # bs') \<and> (\<forall>y. y \<notin> fst ` set (x # bs) \<longrightarrow> h' y = h y)"
proof -
  obtain n f where x: "x = (a, n, f)" using assms(1) by (cases x) auto
  have a: "a \<noteq> 0" "blk_size (h a) = n" "blk_free (h a) = f" "chain h (blk_next (h a)) bs" "a \<notin> fst ` set bs"
    using assms(1,2) by (simp_all add: x)
  obtain h' where h': "coalesce h (blk_next (h a)) = Some h'" "chain h' (blk_next (h a)) bs'"
    "\<forall>y. y \<notin> fst ` set bs \<longrightarrow> h' y = h y"
    using rest[OF a(4)] by blast
  have "coalesce h a = coalesce h (blk_next (h a))"
  proof (cases bs)
    case Nil
    then have "blk_next (h a) = 0" using a(4) by simp
    then show ?thesis by (simp add: coalesce.simps[of h a] coalesce.simps[of h 0])
  next
    case (Cons y ys)
    then have "blk_next (h a) \<noteq> 0" "blk_free (h (blk_next (h a))) = snd (snd y)"
      using a(4) by (cases y; simp)+
    then show ?thesis using a stop Cons by (auto simp: coalesce.simps[of h a] Let_def x)
  qed
  moreover have "h' a = h a" using h'(3) a(5) by blast
  ultimately show ?thesis using h' a by (auto simp: x)
qed

lemma coalesce_chain:
  "chain h a bs \<Longrightarrow> distinct (map fst bs) \<Longrightarrow> \<exists>h'. coalesce h a = Some h' \<and>
    chain h' a (merge_free bs) \<and> (\<forall>y. y \<notin> fst ` set bs \<longrightarrow> h' y = h y)"
proof (induction bs arbitrary: h a rule: merge_free.induct)
  case (1 a0 n b m bs)
  define h1 where "h1 = h(a := (h a)\<lparr>blk_size := blk_size (h a) + (HDR + blk_size (h (blk_next (h a)))),
               blk_next := blk_next (h (blk_next (h a)))\<rparr>)"
  have a: "a0 = a" "a \<noteq> 0" "blk_size (h a) = n" "blk_free (h a)" "blk_next (h a) = b" "b \<noteq> 0"
    "blk_size (h b) = m" "blk_free (h b)" "chain h (blk_next (h b)) bs" "a \<notin> fst ` set bs"
    "distinct (map fst bs)"
    using 1(2,3) by auto
  have "chain h1 (blk_next (h b)) bs" by (rule chain_cong[OF a(9)]) (use a(10) in \<open>auto simp: h1_def\<close>)
  then have "chain h1 a ((a, n + (12 + m), True) # bs)" using a by (simp add: HDR_def h1_def)
  moreover have "distinct (map fst ((a, n + (12 + m), True) # bs))" using a by simp
  ultimately obtain h' where "coalesce h1 a = Some h'" "chain h' a (merge_free ((a, n + (12 + m), True) # bs))"
    "\<forall>y. y \<notin> fst ` set ((a, n + (12 + m), True) # bs) \<longrightarrow> h' y = h1 y"
    using 1(1)[of h1 a] a(1) by blast
  moreover have "coalesce h a = coalesce h1 a" using a by (simp add: coalesce.simps[of h a] Let_def h1_def)
  moreover have "h1 y = h y" if "y \<noteq> a" for y using that by (simp add: h1_def)
  ultimately show ?case using a(1) by simp
next
  case 3
  then show ?case by (simp add: coalesce.simps)
qed (simp only: merge_free.simps, rule coalesce_advance, assumption, assumption, force, force)+

lemma merge_arith:
  assumes "tiles a ((b, n, True) # (c, m, True) # bs) e" "e \<le> 0x4000000"
  shows "unat (n + (12 + m)) = unat n + 12 + unat m" "tiles a ((b, n + (12 + m), True) # bs) e"
proof -
  have t: "unat b = a" "tiles (a + 12 + unat n + 12 + unat m) bs e" using assms(1) by simp_all
  then have le: "a + 12 + unat n + 12 + unat m \<le> 0x4000000" using tiles_le assms(2) by fastforce
  have "unat (12 + m) = 12 + unat m" using le by (subst unat_add_lt) auto
  then show s: "unat (n + (12 + m)) = unat n + 12 + unat m" using le by (subst unat_add_lt) auto
  have "a + 12 + unat (n + (12 + m)) = a + 12 + unat n + 12 + unat m" unfolding s by simp
  with t show "tiles a ((b, n + (12 + m), True) # bs) e" by (simp only: tiles.simps)
qed

lemma merge_free_tiles:
  assumes "e \<le> 0x4000000"
  shows "tiles a bs e \<Longrightarrow> tiles a (merge_free bs) e"
proof (induction bs arbitrary: a rule: merge_free.induct)
  case (1 b n c m bs)
  show ?case unfolding merge_free.simps by (rule 1(1)[OF merge_arith(2)[OF 1(2) assms]])
qed (auto simp del: unat_eq_zero)

lemma merge_free_dvd:
  assumes "e \<le> 0x4000000"
  shows "tiles a bs e \<Longrightarrow> \<forall>x\<in>set bs. 4 dvd unat (fst (snd x)) \<Longrightarrow>
    \<forall>x\<in>set (merge_free bs). 4 dvd unat (fst (snd x))"
proof (induction bs arbitrary: a rule: merge_free.induct)
  case (1 b n c m bs)
  have "\<forall>x\<in>set ((b, n + (12 + m), True) # bs). 4 dvd unat (fst (snd x))"
    using 1(3) merge_arith(1)[OF 1(2) assms] by simp
  then show ?case unfolding merge_free.simps by (rule 1(1)[OF merge_arith(2)[OF 1(2) assms]])
qed (auto simp del: unat_eq_zero dest!: bspec[where P = "\<lambda>x. 4 dvd unat (fst (snd x))"])

text \<open>No two neighbours are both free.\<close>

fun coalesced :: "block list \<Rightarrow> bool" where
  "coalesced ((a, n, f) # (b, m, g) # bs) \<longleftrightarrow> \<not> (f \<and> g) \<and> coalesced ((b, m, g) # bs)"
| "coalesced _ \<longleftrightarrow> True"

lemma merge_free_head: "merge_free (x # bs) \<noteq> [] \<and> snd (snd (hd (merge_free (x # bs)))) = snd (snd x)"
  by (induction "x # bs" arbitrary: x bs rule: merge_free.induct) auto

lemma coalesced_Cons:
  "coalesced bs \<Longrightarrow> bs = [] \<or> \<not> (snd (snd x) \<and> snd (snd (hd bs))) \<Longrightarrow> coalesced (x # bs)"
  by (cases bs; cases x) auto

lemma merge_free_coalesced: "coalesced (merge_free bs)"
proof (induction bs rule: merge_free.induct)
  case (1 a n b m bs)
  then show ?case by simp
qed (auto intro!: coalesced_Cons)

text \<open>Merging keeps the allocated blocks.\<close>

lemma merge_free_allocated: "(a, n, False) \<in> set (merge_free bs) \<longleftrightarrow> (a, n, False) \<in> set bs"
  by (induction bs rule: merge_free.induct) auto

lemma release_chain:
  assumes "chain h a bs" "(b, n, f) \<in> set bs" "distinct (map fst bs)"
  shows "chain (h(b := (h b)\<lparr>blk_free := True\<rparr>)) a (release b bs)"
  using assms(1,3) by (induction h a bs rule: chain.induct) (auto simp: release_def)

lemma release_simps:
  "tiles a (release b bs) e = tiles a bs e" "map fst (release b bs) = map fst bs" "release b bs = [] \<longleftrightarrow> bs = []"
  "(\<forall>(a, n, f)\<in>set (release b bs). 4 dvd unat n) \<longleftrightarrow> (\<forall>(a, n, f)\<in>set bs. 4 dvd unat n)"
  "(c, n, False) \<in> set (release b bs) \<longleftrightarrow> (c, n, False) \<in> set bs \<and> c \<noteq> b"
proof -
  show "tiles a (release b bs) e = tiles a bs e"
    by (rule tiles_cong_free) (simp add: release_def split_def)
  show "(c, n, False) \<in> set (release b bs) \<longleftrightarrow> (c, n, False) \<in> set bs \<and> c \<noteq> b"
    by (force simp: release_def)
qed (auto simp: release_def split_def)

lemma kfree_inv:
  assumes inv: "heap_inv s bs" and blk: "(ptr - 12, n, f) \<in> set bs"
  shows "\<exists>h. kfree ptr s = Some (s\<lparr>hdr := h\<rparr>) \<and> heap_inv (s\<lparr>hdr := h\<rparr>) (merge_free (release (ptr - 12) bs))"
proof -
  let ?b = "ptr - 12" and ?bs = "release (ptr - 12) bs"
  have tl: "tiles 0x400000 bs (unat (heap_end s))" and e: "unat (heap_end s) \<le> 0x4000000"
    using inv by (simp_all add: heap_inv_def)
  have ch: "chain ((hdr s)(?b := (hdr s ?b)\<lparr>blk_free := True\<rparr>)) (heap_head s) ?bs"
    using inv by (intro release_chain[OF _ blk tiles_distinct[OF tl]]) (simp add: heap_inv_def)
  have dist: "distinct (map fst ?bs)" using tiles_distinct[OF tl] by (simp add: release_simps)
  obtain h where h: "coalesce ((hdr s)(?b := (hdr s ?b)\<lparr>blk_free := True\<rparr>)) (heap_head s) = Some h"
    "chain h (heap_head s) (merge_free ?bs)"
    using coalesce_chain[OF ch dist] by blast
  have "unat ?b + 12 + unat n \<le> 0x4000000" "0x400000 \<le> unat ?b" using tiles_ge[OF tl blk] e by auto
  then have "ptr \<noteq> 0" by auto
  then have "kfree ptr s = Some (s\<lparr>hdr := h\<rparr>)" using h(1) by (simp add: kfree_def HDR_def)
  moreover have "tiles 0x400000 (merge_free ?bs) (unat (heap_end s))"
    by (rule merge_free_tiles[OF e]) (use tl in \<open>simp add: release_simps\<close>)
  moreover have "\<forall>(a, n, f)\<in>set (merge_free ?bs). 4 dvd unat n"
    using merge_free_dvd[OF e iffD2[OF release_simps(1) tl]] inv release_simps(4)
    by (simp add: heap_inv_def split_def)
  moreover have "?bs \<noteq> []" using blk by (auto simp: release_simps)
  then have "merge_free ?bs \<noteq> []" using merge_free_head by (cases ?bs) auto
  ultimately show ?thesis using inv h(2) by (intro exI[of _ h]) (simp add: heap_inv_def)
qed

section \<open>Initialisation\<close>

lemma heap_init_inv:
  assumes "pmm_inv s" "4 \<le> free_frames s" "heap_end s = HEAP_START"
  shows "heap_inv (heap_init s) [(0x400000, 0x3FF4, True)] \<and> pmm_inv (heap_init s)"
  using heap_extend_n_ok[OF assms(1,2)] assms(3)
  by (simp add: heap_init_def heap_extend_def Let_def heap_consts heap_inv_def)

text \<open>A boot-time state with the heap initialised, for the witnesses.\<close>

definition pre_heap :: heap where
  "pre_heap = vm.extend (boot_vm (\<lambda>_. 0)) (heap.fields HEAP_START 0 (\<lambda>_. \<lparr>blk_size = 0, blk_free = False, blk_next = 0\<rparr>))"

definition boot_heap :: heap where
  "boot_heap = heap_init pre_heap"

lemma pre_heap_simps:
  "pmm_inv pre_heap" "free_frames pre_heap = 32512" "heap_end pre_heap = HEAP_START"
proof -
  have t: "bitmap_test f pre_heap = bitmap_test f (boot_vm (\<lambda>_. 0))" for f
    by (simp add: bitmap_test_def pre_heap_def vm.defs boot_vm_def pmm.defs)
  then have "used_count pre_heap = used_count (boot_vm (\<lambda>_. 0))" by (rule used_count_cong)
  moreover have "used_frames pre_heap = used_frames (boot_vm (\<lambda>_. 0))"
    "total_frames pre_heap = total_frames (boot_vm (\<lambda>_. 0))"
    "frame_refcount pre_heap = frame_refcount (boot_vm (\<lambda>_. 0))"
    by (simp_all add: pre_heap_def vm.defs)
  ultimately show "pmm_inv pre_heap"
    using boot_vm_simps(1)[of "\<lambda>_. 0"] t unfolding pmm_inv_def counts_ok_def by (simp del: boot_vm_simps)
  have "{f. f < MAX_FRAMES \<and> \<not> bitmap_test f pre_heap} = {256..<32768}"
    by (auto simp: t MAX_FRAMES_val)
  then show "free_frames pre_heap = 32512" by (simp add: free_frames_def)
  show "heap_end pre_heap = HEAP_START" by (simp add: pre_heap_def vm.defs heap.defs)
qed

lemma boot_heap_inv: "heap_inv boot_heap [(0x400000, 0x3FF4, True)]" "pmm_inv boot_heap"
  using heap_init_inv[OF pre_heap_simps(1) _ pre_heap_simps(3)] by (simp_all add: pre_heap_simps(2) boot_heap_def)

section \<open>Running out of memory\<close>

text \<open>The scan never returns from an allocated block that is its own successor.\<close>

lemma find_fit_loop:
  assumes "blk_next (h c) = c" "\<not> blk_free (h c)" "c \<noteq> 0"
  shows "find_fit h n c p = None"
proof (rule ccontr)
  assume "find_fit h n c p \<noteq> None"
  then obtain r where r: "find_fit h n c p = Some r" by blast
  have "blk_next (h c) = c \<longrightarrow> \<not> blk_free (h c) \<longrightarrow> c = 0"
    by (rule find_fit.raw_induct[where P = "\<lambda>h n c p r. blk_next (h c) = c \<longrightarrow> \<not> blk_free (h c) \<longrightarrow> c = 0", OF _ r])
      (fastforce split: if_splits)
  with assms show False by blast
qed

lemma find_fit_prefix:
  "chain h a (xs @ [(e, k, f)]) \<Longrightarrow> first_fit n xs = None \<Longrightarrow>
    (\<And>x. x \<in> fst ` set xs \<Longrightarrow> h' x = h x) \<Longrightarrow> \<exists>q. find_fit h' n a p = find_fit h' n e q"
proof (induction xs arbitrary: a p)
  case (Cons x xs)
  obtain b m g where x: "x = (b, m, g)" by (cases x) auto
  have "find_fit h' n a p = find_fit h' n (blk_next (h a)) a"
    using Cons.prems by (subst find_fit.simps) (auto simp: x split: if_splits)
  then show ?case using Cons by (auto simp: x split: if_splits)
qed auto

lemma first_fit_append_none:
  "first_fit n (xs @ [(e, k, False)]) = None \<longleftrightarrow> first_fit n xs = None"
  by (induction n xs rule: first_fit.induct) auto

text \<open>Without a free frame, growing appends a block that lies outside the heap.\<close>

lemma grow_block_oom:
  assumes "pmm_alloc_frame s = (0, s)" "prev \<noteq> 0"
  shows "\<exists>k. grow_block n prev s = (heap_end s + 12, s\<lparr>hdr := (\<lambda>h. h(prev := (h prev)\<lparr>blk_next := heap_end s\<rparr>))
    ((hdr s)(heap_end s := \<lparr>blk_size = k, blk_free = False, blk_next = 0\<rparr>))\<rparr>)"
proof -
  have "heap_extend_n m s = s" for m using assms(1) by (cases m) simp_all
  then show ?thesis using assms(2)
    by (intro exI[of _ "(n + HDR + PAGE_SIZE - 1) div PAGE_SIZE * PAGE_SIZE - HDR"])
      (simp add: grow_block_def Let_def heap_extend_def HDR_def)
qed

lemma pmm_alloc_hdr:
  "pmm_alloc_frame s = (0, s) \<Longrightarrow> pmm_alloc_frame (s\<lparr>hdr := h\<rparr>) = (0, s\<lparr>hdr := h\<rparr>)"
proof (cases s rule: pmm_alloc_cases)
  case full
  then show ?thesis
    by (cases "s\<lparr>hdr := h\<rparr>" rule: pmm_alloc_cases) (auto simp: bitmap_test_def)
next
  case (frame i)
  assume "pmm_alloc_frame s = (0, s)"
  with frame have "alloc_at i s = s" by simp
  then have "bitmap_test i s" using alloc_at_test[of i i s] by simp
  with frame show ?thesis by simp
qed

section \<open>Properties\<close>

lemma round4_ge:
  assumes "unat n \<le> 0x3000000"
  shows "n \<le> round4 n" "unat (round4 n) \<le> unat n + 3"
proof -
  have n3: "unat (n + 3) = unat n + 3" using assms by (subst unat_add_lt) auto
  have m: "(3 :: u32) = mask 2" by (simp add: mask_eq_exp_minus_1)
  let ?A = "(n + 3) AND NOT (mask 2)" and ?B = "(n + 3) AND mask 2"
  have ab: "?A AND ?B = 0" "?A OR ?B = n + 3"
    by (auto intro!: bit_word_eqI simp: bit_and_iff bit_or_iff bit_not_iff)
  have "?A + ?B = (?A AND ?B) + (?A OR ?B)" by (rule word_plus_and_or[symmetric])
  also have "\<dots> = n + 3" unfolding ab by (rule add_0_left)
  finally have "?A + ?B = n + 3" .
  then have "(n + 3) AND NOT (mask 2) = (n + 3) - take_bit 2 (n + 3)"
    unfolding take_bit_eq_mask by (rule add_implies_diff)
  then have r: "round4 n = (n + 3) - take_bit 2 (n + 3)" by (simp add: round4_def m)
  have t: "unat (take_bit 2 (n + 3)) = (unat n + 3) mod 4"
    by (simp add: take_bit_eq_mod unat_mod n3)
  then have "take_bit 2 (n + 3) \<le> n + 3" by (simp add: word_le_nat_alt n3)
  then have "unat (round4 n) = unat n + 3 - (unat n + 3) mod 4"
    unfolding r by (subst unat_sub_le) (simp_all add: t n3)
  moreover have "(unat n + 3) mod 4 \<le> 3" using mod_less_divisor[of 4 "unat n + 3"] by linarith
  ultimately show "n \<le> round4 n" "unat (round4 n) \<le> unat n + 3" by (simp_all add: word_le_nat_alt)
qed

lemma tiles_aligned: "tiles a bs e \<Longrightarrow> 4 dvd a \<Longrightarrow> \<forall>(b, n, f)\<in>set bs. 4 dvd unat n \<Longrightarrow>
    (b, n, f) \<in> set bs \<Longrightarrow> 4 dvd unat b"
proof (induction a bs e rule: tiles.induct)
  case (2 a c m g bs e)
  then show ?case by (cases "(b, n, f) = (c, m, g)") (auto intro: dvd_add)
qed simp

text \<open>Where \<open>kmalloc\<close> places the block, on both of its paths.\<close>

lemma kmalloc_cases:
  assumes inv: "heap_inv s bs" and pmm: "pmm_inv s" and n: "nbytes \<noteq> 0" "unat nbytes \<le> 0x2000000"
    and room: "first_fit (round4 nbytes) bs = None \<Longrightarrow>
      (unat (round4 nbytes) + 4107) div 4096 \<le> free_frames s \<and>
      unat (heap_end s) + (unat (round4 nbytes) + 4107) div 4096 * 4096 \<le> 0x4000000"
  obtains b k s' bs' where "kmalloc nbytes s = Some (b + 12, s')" "heap_inv s' bs'" "pmm_inv s'"
    "(b, k, False) \<in> set bs'" "round4 nbytes \<le> k"
    "\<forall>a m. a \<noteq> b \<longrightarrow> ((a, m, False) \<in> set bs' \<longleftrightarrow> (a, m, False) \<in> set bs)" "\<forall>m. (b, m, False) \<notin> set bs"
    "free_frames s - (unat (round4 nbytes) + 4107) div 4096 \<le> free_frames s'"
    "unat (heap_end s') \<le> unat (heap_end s) + (unat (round4 nbytes) + 4107) div 4096 * 4096"
proof (cases "first_fit (round4 nbytes) bs")
  case (Some r)
  then obtain p bs' where fit: "first_fit (round4 nbytes) bs = Some (p, bs')" by (cases r) auto
  obtain h where h: "kmalloc nbytes s = Some (p, s\<lparr>hdr := h\<rparr>)" "heap_inv (s\<lparr>hdr := h\<rparr>) bs'"
    using kmalloc_fit[OF inv n(1) fit] by blast
  obtain xs b m ys where bs: "bs = xs @ (b, m, True) # ys" "round4 nbytes \<le> m" "p = b + 12"
    and bs': "bs' = xs @ (if round4 nbytes + 28 \<le> m then (b, round4 nbytes, False) #
        (b + 12 + round4 nbytes, m - round4 nbytes - 12, True) # ys else (b, m, False) # ys)"
    using first_fit_split[OF fit] by blast
  have "distinct (map fst bs)" using inv by (auto simp: heap_inv_def dest: tiles_distinct)
  then have b: "(b, k, f) \<notin> set xs \<union> set ys" for k f by (force simp: bs(1))
  show ?thesis
    by (rule that[of b "s\<lparr>hdr := h\<rparr>" bs' "if round4 nbytes + 28 \<le> m then round4 nbytes else m"])
      (use h pmm b in \<open>auto simp: bs bs'\<close>)
next
  case None
  have r: "unat (round4 nbytes) \<le> 0x3000000" using round4_ge(2)[of nbytes] n(2) by simp
  obtain s' k where g: "grow_block (round4 nbytes) (fst (last bs)) s = (heap_end s + 12, s')"
    "heap_inv s' (bs @ [(heap_end s, k, False)])" "pmm_inv s'"
    "unat k = (unat (round4 nbytes) + 4107) div 4096 * 4096 - 12"
    "unat (heap_end s') = unat (heap_end s) + (unat (round4 nbytes) + 4107) div 4096 * 4096"
    "free_frames s' = free_frames s - (unat (round4 nbytes) + 4107) div 4096"
    using grow_block_inv[OF inv pmm r] room[OF None] by blast
  have ch: "chain (hdr s) (heap_head s) bs" "bs \<noteq> []" using inv by (simp_all add: heap_inv_def)
  have "kmalloc nbytes s = Some (heap_end s + 12, s')"
    using find_fit_none[OF ch(1) None, of 0] ch(2) n(1) g(1) by (simp add: kmalloc_def Let_def)
  moreover have "round4 nbytes \<le> k" unfolding word_le_nat_alt g(4) by simp
  moreover have "(heap_end s, m, f) \<notin> set bs" for m f
    using inv tiles_ge[of _ bs "unat (heap_end s)"] by (fastforce simp: heap_inv_def)
  ultimately show ?thesis
    by (intro that[of "heap_end s" s' "bs @ [(heap_end s, k, False)]" k]) (use g in auto)
qed

text \<open>C9: \<open>kmalloc\<close> of 1 byte to 32 MiB, with the frames it may need available, returns a 4-byte
  aligned block of at least that size inside the heap window, which was not allocated before and
  overlaps no other block or header; all other allocated blocks stay as they were and the heap and
  the frame allocator stay well formed.\<close>

theorem kmalloc_spec:
  assumes inv: "heap_inv s bs" and pmm: "pmm_inv s" and n: "nbytes \<noteq> 0" "unat nbytes \<le> 0x2000000"
    and room: "first_fit (round4 nbytes) bs = None \<Longrightarrow>
      (unat (round4 nbytes) + 4107) div 4096 \<le> free_frames s \<and>
      unat (heap_end s) + (unat (round4 nbytes) + 4107) div 4096 * 4096 \<le> 0x4000000"
  shows "\<exists>p s' bs' k. kmalloc nbytes s = Some (p, s') \<and> heap_inv s' bs' \<and> pmm_inv s' \<and>
    (p - 12, k, False) \<in> set bs' \<and> nbytes \<le> k \<and> 4 dvd unat p \<and>
    0x40000C \<le> unat p \<and> unat p + unat nbytes \<le> unat (heap_end s') \<and>
    (\<forall>m. (p - 12, m, False) \<notin> set bs) \<and>
    (\<forall>a m. a \<noteq> p - 12 \<longrightarrow> ((a, m, False) \<in> set bs' \<longleftrightarrow> (a, m, False) \<in> set bs)) \<and>
    (\<forall>(a, m, f)\<in>set bs'. a \<noteq> p - 12 \<longrightarrow> unat p + unat nbytes \<le> unat a \<or> unat a + 12 + unat m \<le> unat p - 12)"
proof -
  obtain b k s' bs' where r: "kmalloc nbytes s = Some (b + 12, s')" "heap_inv s' bs'" "pmm_inv s'"
    "(b, k, False) \<in> set bs'" "round4 nbytes \<le> k"
    "\<forall>a m. a \<noteq> b \<longrightarrow> ((a, m, False) \<in> set bs' \<longleftrightarrow> (a, m, False) \<in> set bs)" "\<forall>m. (b, m, False) \<notin> set bs"
    using kmalloc_cases[OF inv pmm n room] by metis
  have tl: "tiles 0x400000 bs' (unat (heap_end s'))" and e: "unat (heap_end s') \<le> 0x4000000"
    and al: "\<forall>(a, n, f)\<in>set bs'. 4 dvd unat n" using r(2) by (simp_all add: heap_inv_def)
  have "nbytes \<le> round4 nbytes" using n(2) by (intro round4_ge) simp
  then have nk: "nbytes \<le> k" using r(5) by (rule order_trans)
  then have nk': "unat nbytes \<le> unat k" by (simp add: word_le_nat_alt)
  note b = tiles_ge[OF tl r(4)]
  have p: "unat (b + 12) = unat b + 12" using b e by (subst unat_add_lt) auto
  have "4 dvd unat (b + 12)" unfolding p using tiles_aligned[OF tl _ al r(4)] by simp
  moreover have "unat (b + 12) + unat nbytes \<le> unat a \<or> unat a + 12 + unat m \<le> unat (b + 12) - 12"
    if "(a, m, f) \<in> set bs'" "a \<noteq> b" for a m f
    using tiles_disjoint[OF tl r(4) that(1)] that(2) nk' by (auto simp: p)
  ultimately show ?thesis
    using r nk b nk' by (intro exI[of _ "b + 12"] exI[of _ s'] exI[of _ bs'] exI[of _ k]) (auto simp: p)
qed

theorem kmalloc_spec_witness:
  "\<exists>p s' bs' k. kmalloc 100 boot_heap = Some (p, s') \<and> heap_inv s' bs' \<and> (p - 12, k, False) \<in> set bs' \<and> 100 \<le> k"
proof -
  have "first_fit (round4 100) [(0x400000, 0x3FF4, True)] \<noteq> None" by (simp add: round4_def)
  then have room: "first_fit (round4 100) [(0x400000, 0x3FF4, True)] = None \<Longrightarrow> P" for P by blast
  show ?thesis using kmalloc_spec[OF boot_heap_inv, of 100, OF _ _ room] by simp blast
qed

text \<open>C10: refinement of the free-list scan. When some block fits, \<open>kmalloc\<close> is first fit with
  splitting on the list of blocks: it returns, hands out the first block that fits, and changes
  nothing but block headers.\<close>

theorem kmalloc_first_fit:
  assumes "heap_inv s bs" "nbytes \<noteq> 0" "first_fit (round4 nbytes) bs = Some (p, bs')"
  shows "\<exists>h. kmalloc nbytes s = Some (p, s\<lparr>hdr := h\<rparr>) \<and> heap_inv (s\<lparr>hdr := h\<rparr>) bs'"
  by (rule kmalloc_fit[OF assms])

theorem kmalloc_first_fit_witness:
  "\<exists>h. kmalloc 5 boot_heap = Some (0x40000C, boot_heap\<lparr>hdr := h\<rparr>) \<and>
     heap_inv (boot_heap\<lparr>hdr := h\<rparr>) [(0x400000, 8, False), (0x400014, 0x3FE0, True)]"
  by (rule kmalloc_first_fit[OF boot_heap_inv(1)]) (simp_all add: round4_def)

text \<open>C11: \<open>kfree\<close> of an allocated block returns, releases exactly that block, and merges all
  neighbouring free blocks, keeping the heap well formed.\<close>

theorem kfree_spec:
  assumes "heap_inv s bs" "(ptr - 12, n, False) \<in> set bs"
  shows "\<exists>s' bs'. kfree ptr s = Some s' \<and> heap_inv s' bs' \<and> bs' = merge_free (release (ptr - 12) bs) \<and>
    coalesced bs' \<and> (\<forall>a k. (a, k, False) \<in> set bs' \<longleftrightarrow> (a, k, False) \<in> set bs \<and> a \<noteq> ptr - 12)"
  using kfree_inv[OF assms] merge_free_coalesced by (auto simp: merge_free_allocated release_simps)

theorem kfree_spec_witness:
  "\<exists>h s'. kmalloc 5 boot_heap = Some (0x40000C, boot_heap\<lparr>hdr := h\<rparr>) \<and>
     kfree 0x40000C (boot_heap\<lparr>hdr := h\<rparr>) = Some s' \<and> heap_inv s' [(0x400000, 0x3FF4, True)]"
proof -
  obtain h where h: "kmalloc 5 boot_heap = Some (0x40000C, boot_heap\<lparr>hdr := h\<rparr>)"
    "heap_inv (boot_heap\<lparr>hdr := h\<rparr>) [(0x400000, 8, False), (0x400014, 0x3FE0, True)]"
    using kmalloc_fit[OF boot_heap_inv(1), of 5] by (auto simp: round4_def)
  have blk: "(0x40000C - 12, 8, False) \<in> set [(0x400000, 8, False), (0x400014, 0x3FE0, True :: bool) :: block]"
    by simp
  have m: "merge_free (release (0x40000C - 12) [(0x400000, 8, False), (0x400014, 0x3FE0, True)]) =
      [(0x400000, 0x3FF4, True)]" by (simp add: release_def)
  show ?thesis using kfree_spec[OF h(2) blk] h(1) unfolding m by blast
qed

text \<open>When no block fits and no frame is left, \<open>kmalloc\<close> does not fail: it returns a pointer
  beyond the mapped heap, the next such call returns the same pointer again, and the third one
  never returns, because the appended block has become its own successor.\<close>

theorem kmalloc_oom:
  assumes inv: "heap_inv s bs" and none: "first_fit (round4 nbytes) bs = None" and n: "nbytes \<noteq> 0"
    and oom: "pmm_alloc_frame s = (0, s)"
  shows "\<exists>h1 h2. kmalloc nbytes s = Some (heap_end s + 12, s\<lparr>hdr := h1\<rparr>) \<and>
    kmalloc nbytes (s\<lparr>hdr := h1\<rparr>) = Some (heap_end s + 12, s\<lparr>hdr := h2\<rparr>) \<and>
    kmalloc nbytes (s\<lparr>hdr := h2\<rparr>) = None"
proof -
  let ?n = "round4 nbytes" and ?e = "heap_end s"
  obtain xs c m f where bs: "bs = xs @ [(c, m, f)]"
    using inv by (cases bs rule: rev_cases) (auto simp: heap_inv_def)
  have ch: "chain (hdr s) (heap_head s) bs" and tl: "tiles 0x400000 bs (unat ?e)"
    using inv by (simp_all add: heap_inv_def)
  have c: "unat c + 12 + unat m = unat ?e" "0x400000 \<le> unat c"
    using tl tiles_ge[OF tl, of c m f] by (auto simp: bs tiles_append)
  then have e0: "?e \<noteq> 0" "c \<noteq> 0" "?e \<noteq> c" by auto
  have out: "x \<noteq> ?e" if "x \<in> fst ` set bs" for x
    using that tiles_ge[OF tl] by fastforce
  have cx: "c \<notin> fst ` set xs" using tiles_distinct[OF tl] by (simp add: bs)
  obtain k1 where g1: "grow_block ?n c s = (?e + 12, s\<lparr>hdr := (\<lambda>h. h(c := (h c)\<lparr>blk_next := ?e\<rparr>))
    ((hdr s)(?e := \<lparr>blk_size = k1, blk_free = False, blk_next = 0\<rparr>))\<rparr>)"
    using grow_block_oom[OF oom e0(2)] by blast
  define h1 where "h1 = (\<lambda>h. h(c := (h c)\<lparr>blk_next := ?e\<rparr>))
    ((hdr s)(?e := \<lparr>blk_size = k1, blk_free = False, blk_next = 0\<rparr>))"
  have k1: "kmalloc nbytes s = Some (?e + 12, s\<lparr>hdr := h1\<rparr>)"
    using find_fit_none[OF ch none, of 0] n g1 by (simp add: kmalloc_def Let_def bs h1_def)
  have ch1: "chain h1 (heap_head s) (bs @ [(?e, k1, False)])"
    unfolding bs append_assoc append_Cons append_Nil
    by (rule chain_replace[OF ch[unfolded bs]]) (use out cx e0 in \<open>auto simp: h1_def bs\<close>)
  have none1: "first_fit ?n (bs @ [(?e, k1, False)]) = None" using none by (simp add: first_fit_append_none)
  obtain k2 where g2: "grow_block ?n ?e (s\<lparr>hdr := h1\<rparr>) = (?e + 12, s\<lparr>hdr := (\<lambda>h. h(?e := (h ?e)\<lparr>blk_next := ?e\<rparr>))
    (h1(?e := \<lparr>blk_size = k2, blk_free = False, blk_next = 0\<rparr>))\<rparr>)"
    using grow_block_oom[OF pmm_alloc_hdr[OF oom, of h1], of ?e ?n] e0 by auto
  define h2 where "h2 = (\<lambda>h. h(?e := (h ?e)\<lparr>blk_next := ?e\<rparr>))
    (h1(?e := \<lparr>blk_size = k2, blk_free = False, blk_next = 0\<rparr>))"
  have k2: "kmalloc nbytes (s\<lparr>hdr := h1\<rparr>) = Some (?e + 12, s\<lparr>hdr := h2\<rparr>)"
    using find_fit_none[OF ch1 none1, of 0] n g2 by (simp add: kmalloc_def Let_def h2_def)
  have "\<exists>q. find_fit h2 ?n (heap_head s) 0 = find_fit h2 ?n ?e q"
    by (rule find_fit_prefix[OF ch1 none]) (use out in \<open>auto simp: h2_def\<close>)
  moreover have "find_fit h2 ?n ?e q = None" for q
    by (rule find_fit_loop) (simp_all add: h2_def e0)
  ultimately have "kmalloc nbytes (s\<lparr>hdr := h2\<rparr>) = None" using n by (auto simp: kmalloc_def Let_def)
  with k1 k2 show ?thesis by blast
qed

theorem kmalloc_oom_witness:
  "\<exists>h1 h2. kmalloc 0x4000 (boot_heap\<lparr>frame_bitmap := \<lambda>_. 255, hdr := h1\<rparr>) =
     Some (0x40400C, boot_heap\<lparr>frame_bitmap := \<lambda>_. 255, hdr := h2\<rparr>) \<and>
     kmalloc 0x4000 (boot_heap\<lparr>frame_bitmap := \<lambda>_. 255, hdr := h2\<rparr>) = None"
proof -
  let ?s = "boot_heap\<lparr>frame_bitmap := \<lambda>_. 255\<rparr>"
  have inv: "heap_inv ?s [(0x400000, 0x3FF4, True)]" using boot_heap_inv(1) by (auto simp: heap_inv_def)
  have "unat (heap_end ?s) = 0x404000" using inv by (simp add: heap_inv_def)
  then have e: "heap_end ?s = 0x404000" by (simp add: word_unat_eq_iff)
  have "bit (255 :: u8) k" if "k < 8" for k
  proof -
    have "(255 :: u8) = mask 8" by (simp add: mask_eq_exp_minus_1)
    then show ?thesis using that by (simp only: bit_mask_iff) simp
  qed
  then have "bitmap_test f ?s" for f by (simp add: bitmap_test_bit)
  then have oom: "pmm_alloc_frame ?s = (0, ?s)" by (cases ?s rule: pmm_alloc_cases) auto
  have none: "first_fit (round4 0x4000) [(0x400000, 0x3FF4, True)] = None" by (simp add: round4_def)
  show ?thesis using kmalloc_oom[OF inv none _ oom] by (simp add: e) blast
qed

text \<open>The rounding of the size wraps. A request within 3 bytes of 4 GiB is rounded to 0, and
  \<open>kmalloc\<close> hands out a block of zero usable bytes instead of failing.\<close>

theorem kmalloc_size_wraps:
  assumes "heap_inv s ((a, m, True) # bs)" "28 \<le> m" "0xFFFFFFFC < nbytes"
  shows "\<exists>h. kmalloc nbytes s = Some (a + 12, s\<lparr>hdr := h\<rparr>) \<and>
    heap_inv (s\<lparr>hdr := h\<rparr>) ((a, 0, False) # (a + 12, m - 12, True) # bs)"
proof -
  have "unat nbytes < 4294967296" using unsigned_less[of nbytes] by simp
  moreover have "4294967292 < unat nbytes" using assms(3) by (simp add: word_less_nat_alt)
  ultimately have "unat nbytes = 4294967293 \<or> unat nbytes = 4294967294 \<or> unat nbytes = 4294967295" by linarith
  then have "nbytes = 0xFFFFFFFD \<or> nbytes = 0xFFFFFFFE \<or> nbytes = 0xFFFFFFFF"
    by (auto simp: word_unat_eq_iff)
  then have "round4 nbytes = 0" by (auto simp: round4_def)
  with assms(2) have "first_fit (round4 nbytes) ((a, m, True) # bs) =
      Some (a + 12, (a, 0, False) # (a + 12, m - 12, True) # bs)" by simp
  moreover have "nbytes \<noteq> 0" using assms(3) by auto
  ultimately show ?thesis using kmalloc_fit[OF assms(1)] by blast
qed

theorem kmalloc_size_wraps_witness:
  "\<exists>h. kmalloc 0xFFFFFFFF boot_heap = Some (0x40000C, boot_heap\<lparr>hdr := h\<rparr>)"
  using kmalloc_size_wraps[OF boot_heap_inv(1), of "0xFFFFFFFF"] by auto

end
