(* ===== verification/Sync.thy ===== *)
theory Sync
  imports Prelude
begin

text \<open>
  \<open>kernel/spinlock.c\<close> and \<open>kernel/mutex.c\<close>.

  A spinlock is a flag taken with interrupts off. On the kernel's single core an acquire of a
  locked lock never returns, since interrupts are off and nobody else can run: the result is
  \<open>None\<close>. Between an acquire and its release nothing else runs, so a guarded section is one
  atomic step; this is what the other theories use when they model an operation as one function.

  A mutex is not atomic: its guarded sections are, but a task can be preempted between a section
  and the call of \<open>task_block\<close> or \<open>task_unblock\<close> that follows it. The system of tasks that use one
  mutex is therefore a step relation whose steps are the guarded sections and these calls.
\<close>

section \<open>Spinlocks\<close>

text \<open>The CPU's interrupt flag is bit 9 of EFLAGS.\<close>

record spin =
  sl_locked :: bool
  eflags :: u32

definition IF_BIT :: u32 where "IF_BIT = 0x200"

definition spinlock_init :: "spin \<Rightarrow> spin" where
  "spinlock_init s = s\<lparr>sl_locked := False\<rparr>"

definition spinlock_acquire :: "spin \<Rightarrow> (u32 \<times> spin) option" where
  "spinlock_acquire s =
     (let saved = eflags s; s1 = s\<lparr>eflags := eflags s AND NOT IF_BIT\<rparr> in
      if sl_locked s1 then None else Some (saved, s1\<lparr>sl_locked := True\<rparr>))"

definition spinlock_release :: "u32 \<Rightarrow> spin \<Rightarrow> spin" where
  "spinlock_release saved_eflags s =
     (let s1 = s\<lparr>sl_locked := False\<rparr> in
      if saved_eflags AND IF_BIT \<noteq> 0 then s1\<lparr>eflags := eflags s1 OR IF_BIT\<rparr> else s1)"

definition interrupts_on :: "spin \<Rightarrow> bool" where
  "interrupts_on s \<longleftrightarrow> eflags s AND IF_BIT \<noteq> 0"

lemma if_bit: "e AND IF_BIT \<noteq> 0 \<longleftrightarrow> bit e 9"
  using and_shift_one_eq_0_iff[of 9 e] by (simp add: IF_BIT_def push_bit_of_1)

lemma bit_IF: "bit IF_BIT n \<longleftrightarrow> n = 9"
  using bit_shift_one_iff[where 'a = 32, of 9 n] by (simp add: IF_BIT_def push_bit_of_1)

text \<open>What runs between acquire and release, provided it leaves the flags alone.\<close>

lemma critical_section:
  assumes "spinlock_acquire s = Some (saved, s1)" "eflags s2 = eflags s1"
  shows "\<not> sl_locked s \<and> sl_locked s1 \<and> \<not> interrupts_on s1 \<and> spinlock_release saved s2 = s2\<lparr>sl_locked := False, eflags := eflags s\<rparr>"
proof -
  have s1: "\<not> sl_locked s" "saved = eflags s" "s1 = s\<lparr>eflags := eflags s AND NOT IF_BIT, sl_locked := True\<rparr>"
    using assms(1) by (auto simp: spinlock_acquire_def Let_def split: if_splits)
  have "(eflags s AND NOT IF_BIT) OR IF_BIT = eflags s" if "bit (eflags s) 9"
    by (rule bit_word_eqI) (use that in \<open>auto simp: bit_or_iff bit_and_iff bit_not_iff bit_IF\<close>)
  moreover have "eflags s AND NOT IF_BIT = eflags s" if "\<not> bit (eflags s) 9"
    by (rule bit_word_eqI) (use that in \<open>auto simp: bit_and_iff bit_not_iff bit_IF\<close>)
  moreover have "\<not> bit (eflags s1) 9" by (simp add: s1 bit_and_iff bit_not_iff bit_IF)
  ultimately show ?thesis
    using s1 assms(2) by (auto simp: spinlock_release_def Let_def interrupts_on_def if_bit)
qed

section \<open>Mutex: the guarded sections\<close>

type_synonym tid = nat

record mutex =
  locked :: bool
  waiters :: "tid list"

definition MUTEX_MAX_WAITERS :: nat where "MUTEX_MAX_WAITERS = 16"

definition mutex_init :: "mutex \<Rightarrow> mutex" where
  "mutex_init m = m\<lparr>locked := False, waiters := []\<rparr>"

text \<open>
  One round of the loop of \<open>mutex_lock\<close> up to the release of the guard: \<open>True\<close> when the mutex was
  taken, \<open>False\<close> when the caller goes on to \<open>task_block\<close>. The array and its count are a list.
\<close>

definition mutex_lock_round :: "tid \<Rightarrow> mutex \<Rightarrow> bool \<times> mutex" where
  "mutex_lock_round self m =
     (if \<not> locked m then (True, m\<lparr>locked := True\<rparr>)
      else (False, if length (waiters m) < MUTEX_MAX_WAITERS
                   then m\<lparr>waiters := waiters m @ [self]\<rparr> else m))"

definition mutex_try_lock :: "mutex \<Rightarrow> bool \<times> mutex" where
  "mutex_try_lock m = (if \<not> locked m then (True, m\<lparr>locked := True\<rparr>) else (False, m))"

text \<open>The guarded section of \<open>mutex_unlock\<close>, with the task it goes on to wake.\<close>

definition mutex_unlock_section :: "mutex \<Rightarrow> tid option \<times> mutex" where
  "mutex_unlock_section m =
     (case waiters m of [] \<Rightarrow> (None, m\<lparr>locked := False\<rparr>)
      | w # ws \<Rightarrow> (Some w, m\<lparr>locked := False, waiters := ws\<rparr>))"

section \<open>Tasks that share a mutex\<close>

text \<open>
  Where a task is: outside, in the loop of \<open>mutex_lock\<close> before a round, past a failed round and
  before \<open>task_block\<close>, inside \<open>task_block\<close>, holding the mutex, past the guarded section of
  \<open>mutex_unlock\<close> with a task still to wake.
\<close>

datatype pc = Outside | Trying | Blocking | Sleeping | Holding | Waking tid

record system =
  mtx :: mutex
  pcs :: "tid \<Rightarrow> pc"
  ready :: "tid \<Rightarrow> bool"

text \<open>
  \<open>ready t\<close> is \<open>state = TASK_READY\<close>: \<open>task_block\<close> clears it and the scheduler runs only ready
  tasks, so a task takes steps only while it is ready; \<open>task_unblock\<close> sets it.
\<close>

inductive mstep :: "system \<Rightarrow> system \<Rightarrow> bool" where
  enter: "ready s t \<Longrightarrow> pcs s t = Outside \<Longrightarrow> mstep s (s\<lparr>pcs := (pcs s)(t := Trying)\<rparr>)"
| try_lock: "ready s t \<Longrightarrow> pcs s t = Outside \<Longrightarrow> mutex_try_lock (mtx s) = (got, m) \<Longrightarrow>
    mstep s (s\<lparr>mtx := m, pcs := (pcs s)(t := if got then Holding else Outside)\<rparr>)"
| round: "ready s t \<Longrightarrow> pcs s t = Trying \<Longrightarrow> mutex_lock_round t (mtx s) = (got, m) \<Longrightarrow>
    mstep s (s\<lparr>mtx := m, pcs := (pcs s)(t := if got then Holding else Blocking)\<rparr>)"
| block: "ready s t \<Longrightarrow> pcs s t = Blocking \<Longrightarrow>
    mstep s (s\<lparr>pcs := (pcs s)(t := Sleeping), ready := (ready s)(t := False)\<rparr>)"
| resume: "ready s t \<Longrightarrow> pcs s t = Sleeping \<Longrightarrow> mstep s (s\<lparr>pcs := (pcs s)(t := Trying)\<rparr>)"
| unlock: "ready s t \<Longrightarrow> pcs s t = Holding \<Longrightarrow> mutex_unlock_section (mtx s) = (w, m) \<Longrightarrow>
    mstep s (s\<lparr>mtx := m, pcs := (pcs s)(t := case w of Some u \<Rightarrow> Waking u | None \<Rightarrow> Outside)\<rparr>)"
| wake: "ready s t \<Longrightarrow> pcs s t = Waking u \<Longrightarrow>
    mstep s (s\<lparr>pcs := (pcs s)(t := Outside), ready := (ready s)(u := True)\<rparr>)"

inductive reachable :: "system \<Rightarrow> bool" where
  start: "locked (mtx s) = False \<Longrightarrow> waiters (mtx s) = [] \<Longrightarrow> (\<And>t. pcs s t = Outside \<and> ready s t) \<Longrightarrow> reachable s"
| step: "reachable s \<Longrightarrow> mstep s s' \<Longrightarrow> reachable s'"

inductive_cases mstepE: "mstep s s'"

section \<open>Mutual exclusion\<close>

definition excl_inv :: "system \<Rightarrow> bool" where
  "excl_inv s \<longleftrightarrow> (\<forall>t u. pcs s t = Holding \<and> pcs s u = Holding \<longrightarrow> t = u) \<and>
     (locked (mtx s) \<longleftrightarrow> (\<exists>t. pcs s t = Holding))"

lemma excl_inv_move:
  assumes "excl_inv s" "pcs s t \<noteq> Holding" "p \<noteq> Holding" "pcs s' = (pcs s)(t := p)"
    and "locked (mtx s') = locked (mtx s)"
  shows "excl_inv s'"
proof -
  have "pcs s' u = Holding \<longleftrightarrow> pcs s u = Holding" for u using assms by auto
  with assms(1,5) show ?thesis by (simp add: excl_inv_def)
qed

lemma excl_inv_take:
  assumes "excl_inv s" "\<not> locked (mtx s)" "pcs s' = (pcs s)(t := Holding)" "locked (mtx s')"
  shows "excl_inv s'"
proof -
  have "pcs s u \<noteq> Holding" for u using assms(1,2) by (auto simp: excl_inv_def)
  with assms(3,4) show ?thesis by (auto simp: excl_inv_def)
qed

lemma excl_inv_drop:
  assumes "excl_inv s" "pcs s t = Holding" "p \<noteq> Holding" "pcs s' = (pcs s)(t := p)" "\<not> locked (mtx s')"
  shows "excl_inv s'"
proof -
  have "pcs s u \<noteq> Holding" if "u \<noteq> t" for u using assms(1,2) that by (auto simp: excl_inv_def)
  then have "pcs s' u \<noteq> Holding" for u using assms(3,4) by auto
  with assms(5) show ?thesis by (simp add: excl_inv_def)
qed

lemma excl_inv_step: "mstep s s' \<Longrightarrow> excl_inv s \<Longrightarrow> excl_inv s'"
proof (induction rule: mstep.induct)
  case (try_lock s t got m)
  then have m: "got = (\<not> locked (mtx s))" "locked m" by (auto simp: mutex_try_lock_def split: if_splits)
  show ?case
  proof (cases got)
    case True
    with m show ?thesis by (intro excl_inv_take[OF try_lock(4)]) simp_all
  next
    case False
    with m try_lock(2) show ?thesis by (intro excl_inv_move[OF try_lock(4)]) simp_all
  qed
next
  case (round s t got m)
  then have m: "got = (\<not> locked (mtx s))" "locked m" by (auto simp: mutex_lock_round_def split: if_splits)
  show ?case
  proof (cases got)
    case True
    with m show ?thesis by (intro excl_inv_take[OF round(4)]) simp_all
  next
    case False
    with m round(2) show ?thesis by (intro excl_inv_move[OF round(4)]) simp_all
  qed
next
  case (unlock s t w m)
  then have "\<not> locked m" by (auto simp: mutex_unlock_section_def split: list.splits)
  with unlock(2) show ?case
    by (intro excl_inv_drop[OF unlock(4)]) (simp_all split: option.split)
qed (rule excl_inv_move, assumption, simp_all)+

section \<open>Waiters\<close>

text \<open>A blocked task that nobody is going to wake: not registered, and no wake-up of it pending.\<close>

definition abandoned :: "tid \<Rightarrow> system \<Rightarrow> bool" where
  "abandoned t s \<longleftrightarrow> pcs s t = Sleeping \<and> \<not> ready s t \<and> t \<notin> set (waiters (mtx s)) \<and> (\<forall>u. pcs s u \<noteq> Waking t)"

lemma abandoned_step: "mstep s s' \<Longrightarrow> abandoned t s \<Longrightarrow> abandoned t s'"
proof (induction rule: mstep.induct)
  case (try_lock s u got m)
  then have "waiters m = waiters (mtx s)" by (auto simp: mutex_try_lock_def split: if_splits)
  with try_lock show ?case by (auto simp: abandoned_def)
next
  case (round s u got m)
  then have "set (waiters m) \<subseteq> insert u (set (waiters (mtx s)))" "u \<noteq> t"
    by (auto simp: mutex_lock_round_def abandoned_def split: if_splits)
  with round show ?case by (auto simp: abandoned_def)
next
  case (unlock s u w m)
  then have "set (waiters m) \<subseteq> set (waiters (mtx s))" "w \<noteq> Some t"
    by (auto simp: mutex_unlock_section_def abandoned_def split: list.splits)
  with unlock show ?case by (auto simp: abandoned_def split: option.splits)
qed (auto simp: abandoned_def)

lemma abandoned_forever: "mstep\<^sup>*\<^sup>* s s' \<Longrightarrow> abandoned t s \<Longrightarrow> abandoned t s'"
  by (induction rule: rtranclp_induct) (auto intro: abandoned_step)

text \<open>A task whose round finds the waiter array full is not registered, and never wakes up.\<close>

lemma mutex_waiter_overflow:
  assumes "pcs s t = Trying" "ready s t" "locked (mtx s)" "length (waiters (mtx s)) = MUTEX_MAX_WAITERS"
    and "t \<notin> set (waiters (mtx s))" "\<forall>u. pcs s u \<noteq> Waking t"
  shows "\<exists>s'. mstep\<^sup>*\<^sup>* s s' \<and> (\<forall>s''. mstep\<^sup>*\<^sup>* s' s'' \<longrightarrow> pcs s'' t = Sleeping \<and> \<not> ready s'' t)"
proof -
  let ?s1 = "s\<lparr>mtx := mtx s, pcs := (pcs s)(t := Blocking)\<rparr>"
  let ?s2 = "?s1\<lparr>pcs := (pcs ?s1)(t := Sleeping), ready := (ready ?s1)(t := False)\<rparr>"
  have "mstep s (s\<lparr>mtx := mtx s, pcs := (pcs s)(t := if False then Holding else Blocking)\<rparr>)"
    by (rule mstep.round) (use assms in \<open>simp_all add: mutex_lock_round_def\<close>)
  moreover have "mstep ?s1 ?s2" by (rule mstep.block) (use assms in simp_all)
  ultimately have run: "mstep\<^sup>*\<^sup>* s ?s2" by (simp only: if_False)
  have "abandoned t ?s2" using assms(5,6) by (simp add: abandoned_def)
  then show ?thesis using run abandoned_forever unfolding abandoned_def by blast
qed

section \<open>Properties\<close>

text \<open>Acquiring a free spinlock, running a section that leaves the flags alone, and releasing
  restores the interrupt flag and frees the lock; inside, interrupts are off. Acquiring a lock
  that is held never returns.\<close>

theorem spinlock_bracket:
  "(\<not> sl_locked s \<longrightarrow> (\<exists>saved s1. spinlock_acquire s = Some (saved, s1) \<and> sl_locked s1 \<and> \<not> interrupts_on s1 \<and>
      spinlock_release saved s1 = s)) \<and>
   (sl_locked s \<longrightarrow> spinlock_acquire s = None)"
proof (intro conjI impI)
  assume u: "\<not> sl_locked s"
  then obtain saved s1 where a: "spinlock_acquire s = Some (saved, s1)"
    by (auto simp: spinlock_acquire_def Let_def)
  note c = critical_section[OF a refl]
  have "spinlock_release saved s1 = s"
    using c a u by (cases s) (auto simp: spinlock_acquire_def Let_def split: if_splits)
  with c a show "\<exists>saved s1. spinlock_acquire s = Some (saved, s1) \<and> sl_locked s1 \<and> \<not> interrupts_on s1 \<and>
      spinlock_release saved s1 = s" by blast
qed (simp add: spinlock_acquire_def Let_def)

theorem spinlock_bracket_witness:
  "spinlock_acquire \<lparr>sl_locked = True, eflags = 0\<rparr> = None"
  using spinlock_bracket[of "\<lparr>sl_locked = True, eflags = 0\<rparr>"] by simp

text \<open>C12: mutual exclusion. In every reachable state of any number of tasks that lock, try and
  unlock one mutex, at most one task holds it, and the flag is set exactly when one does.\<close>

theorem mutex_mutual_exclusion:
  assumes "reachable s"
  shows "(\<forall>t u. pcs s t = Holding \<longrightarrow> pcs s u = Holding \<longrightarrow> t = u) \<and>
    (locked (mtx s) \<longleftrightarrow> (\<exists>t. pcs s t = Holding))"
proof -
  have "excl_inv s" using assms
  proof (induction rule: reachable.induct)
    case (start s)
    then have "pcs s t \<noteq> Holding" for t by (metis pc.distinct(7))
    with start show ?case by (simp add: excl_inv_def)
  qed (rule excl_inv_step)
  then show ?thesis by (simp add: excl_inv_def)
qed

text \<open>Two tasks: 0 holds the mutex and 1 has just failed its round and been registered.\<close>

definition idle_system :: system where
  "idle_system = \<lparr>mtx = \<lparr>locked = False, waiters = []\<rparr>, pcs = (\<lambda>_. Outside), ready = (\<lambda>_. True)\<rparr>"

definition holder_system :: system where
  "holder_system = idle_system\<lparr>mtx := \<lparr>locked = True, waiters = []\<rparr>, pcs := (\<lambda>_. Outside)(0 := Holding)\<rparr>"

lemma idle_reachable: "reachable idle_system"
  by (rule reachable.start) (simp_all add: idle_system_def)

lemma holder_reachable: "reachable holder_system"
proof (rule reachable.step[OF idle_reachable])
  have "mstep idle_system (idle_system\<lparr>mtx := \<lparr>locked = True, waiters = []\<rparr>,
      pcs := (pcs idle_system)(0 := if True then Holding else Outside)\<rparr>)"
    by (rule mstep.try_lock) (simp_all add: idle_system_def mutex_try_lock_def)
  then show "mstep idle_system holder_system" by (simp add: holder_system_def idle_system_def)
qed

theorem mutex_mutual_exclusion_witness: "pcs holder_system 1 \<noteq> Holding"
  using mutex_mutual_exclusion[OF holder_reachable] by (auto simp: holder_system_def)

text \<open>The wake-up can be lost. From a state in which one task holds the mutex and another one is
  about to run its round of \<open>mutex_lock\<close>, there is a run in which the holder unlocks between that
  round and \<open>task_block\<close>; the waiter then sleeps, unregistered, on a free mutex, and stays asleep in
  every continuation.\<close>

theorem mutex_lost_wakeup:
  assumes "pcs s h = Holding" "ready s h" "pcs s t = Trying" "ready s t" "h \<noteq> t"
    and "locked (mtx s)" "waiters (mtx s) = []" "\<forall>u. pcs s u \<noteq> Waking t"
  shows "\<exists>s'. mstep\<^sup>*\<^sup>* s s' \<and> \<not> locked (mtx s') \<and> pcs s' t = Sleeping \<and> \<not> ready s' t \<and>
    (\<forall>s''. mstep\<^sup>*\<^sup>* s' s'' \<longrightarrow> pcs s'' t = Sleeping \<and> \<not> ready s'' t)"
proof -
  let ?m = "(mtx s)\<lparr>waiters := [t]\<rparr>" and ?m' = "(mtx s)\<lparr>locked := False, waiters := []\<rparr>"
  let ?s1 = "s\<lparr>mtx := ?m, pcs := (pcs s)(t := Blocking)\<rparr>"
  let ?s2 = "?s1\<lparr>mtx := ?m', pcs := (pcs ?s1)(h := Waking t)\<rparr>"
  let ?s3 = "?s2\<lparr>pcs := (pcs ?s2)(h := Outside), ready := (ready ?s2)(t := True)\<rparr>"
  let ?s4 = "?s3\<lparr>pcs := (pcs ?s3)(t := Sleeping), ready := (ready ?s3)(t := False)\<rparr>"
  have "mstep s (s\<lparr>mtx := ?m, pcs := (pcs s)(t := if False then Holding else Blocking)\<rparr>)"
    by (rule mstep.round) (use assms in \<open>simp_all add: mutex_lock_round_def MUTEX_MAX_WAITERS_def\<close>)
  moreover have "mstep ?s1 (?s1\<lparr>mtx := ?m', pcs := (pcs ?s1)(h := case Some t of Some u \<Rightarrow> Waking u | None \<Rightarrow> Outside)\<rparr>)"
    by (rule mstep.unlock) (use assms in \<open>simp_all add: mutex_unlock_section_def\<close>)
  moreover have "mstep ?s2 ?s3" by (rule mstep.wake) (use assms in simp_all)
  moreover have "mstep ?s3 ?s4" by (rule mstep.block) (use assms in simp_all)
  ultimately have run: "mstep\<^sup>*\<^sup>* s ?s4"
    by (simp only: if_False option.case)
  have "abandoned t ?s4" using assms(5,8) by (simp add: abandoned_def)
  then have "\<forall>s''. mstep\<^sup>*\<^sup>* ?s4 s'' \<longrightarrow> pcs s'' t = Sleeping \<and> \<not> ready s'' t"
    using abandoned_forever unfolding abandoned_def by blast
  with run show ?thesis by (intro exI[of _ ?s4]) simp
qed

theorem mutex_lost_wakeup_witness:
  "\<exists>s'. mstep\<^sup>*\<^sup>* (holder_system\<lparr>pcs := (\<lambda>_. Outside)(0 := Holding, 1 := Trying)\<rparr>) s' \<and>
     \<not> locked (mtx s') \<and> pcs s' 1 = Sleeping"
proof -
  let ?s = "holder_system\<lparr>pcs := (\<lambda>_. Outside)(0 := Holding, 1 := Trying)\<rparr>"
  have "\<forall>u. pcs ?s u \<noteq> Waking 1" "pcs ?s 0 = Holding" "pcs ?s 1 = Trying" "ready ?s 0" "ready ?s 1"
    "locked (mtx ?s)" "waiters (mtx ?s) = []"
    by (simp_all add: holder_system_def idle_system_def)
  moreover have "(0 :: nat) \<noteq> 1" by simp
  ultimately show ?thesis using mutex_lost_wakeup[of ?s 0 1] by blast
qed

end
