(* ===== verification/Task.thy ===== *)
theory Task
  imports Heap Ring "HOL-Library.Monad_Syntax"
begin

text \<open>
  \<open>kernel/task.c\<close>: task structures and the round-robin scheduler. Task structures are kept in a
  store \<open>tasks\<close> by their address; they form a doubly linked ring through \<open>t_next\<close> and \<open>t_prev\<close>.
  The bytes of the kernel heap that hold kernel stacks are \<open>kmem\<close>. \<open>task_create\<close> and the
  reaping of a task run on the real heap and page tables.

  A context switch is the exchange of \<open>cpu_esp\<close> with the saved stack pointer of the next task, as
  \<open>context_switch.s\<close> does it (the callee-saved registers are on the stacks). A function that calls
  \<open>schedule\<close> returns in the state in which the next task runs; where it loops over \<open>task_block\<close>, the
  model is one round of that loop, which the task repeats when it is scheduled again.
\<close>

datatype task_state = TASK_READY | TASK_BLOCKED | TASK_ZOMBIE

definition STACK_SIZE :: u32 where "STACK_SIZE = 8192"
definition TASK_INPUT_QUEUE_SIZE :: nat where "TASK_INPUT_QUEUE_SIZE = 64"

text \<open>\<open>sizeof(struct task)\<close>: 22 words and the 64-byte queue.\<close>

definition TASK_SIZE :: u32 where "TASK_SIZE = 152"

record task =
  t_esp :: u32
  t_next :: addr
  t_prev :: addr
  t_id :: int
  t_entry :: addr
  t_is_user :: bool
  t_user_entry :: addr
  t_user_stack_top :: addr
  t_page_directory :: addr
  t_kernel_stack_top :: addr
  t_state :: task_state
  t_parent :: addr
  t_exit_code :: int
  t_use_input_redirect :: bool
  t_input_queue :: "char list"
  t_input_head :: nat
  t_input_tail :: nat
  t_vga_redirect_buf :: addr
  t_vga_redirect_cols :: int
  t_vga_redirect_rows :: int
  t_vga_cursor_row :: int
  t_vga_cursor_col :: int
  t_vga_redirect_dirty :: bool

record sched = heap +
  tasks :: "addr \<Rightarrow> task"
  kmem :: memory
  current_task :: addr
  next_task_id :: int
  scheduling_enabled :: bool
  task_count :: int
  tss_esp0 :: u32
  cpu_esp :: u32

definition upd_task :: "addr \<Rightarrow> (task \<Rightarrow> task) \<Rightarrow> 'a sched_scheme \<Rightarrow> 'a sched_scheme" where
  "upd_task t f s = s\<lparr>tasks := (tasks s)(t := f (tasks s t))\<rparr>"

section \<open>Creating tasks\<close>

text \<open>The fields a new task structure gets, in \<open>task_init\<close> and in \<open>task_alloc_common\<close>.\<close>

definition fresh_fields :: "int \<Rightarrow> addr \<Rightarrow> task \<Rightarrow> task" where
  "fresh_fields i par k = k\<lparr>t_id := i, t_state := TASK_READY, t_parent := par, t_exit_code := 0,
     t_use_input_redirect := False, t_input_head := 0, t_input_tail := 0,
     t_vga_redirect_buf := 0, t_vga_redirect_dirty := False\<rparr>"

definition task_init :: "'a sched_scheme \<Rightarrow> 'a sched_scheme option" where
  "task_init s = do {
     (t, s1) \<leftarrow> kmalloc TASK_SIZE s;
     let s2 = upd_task t (\<lambda>k. (fresh_fields (next_task_id s1) 0 k)\<lparr>t_is_user := False, t_next := t,
                t_prev := t, t_page_directory := paging_kernel_directory_phys s1,
                t_kernel_stack_top := 0\<rparr>) s1;
     Some (s2\<lparr>next_task_id := next_task_id s1 + 1, current_task := t, task_count := 1\<rparr>)
   }"

text \<open>Insertion behind the current task, in the order of the code's four assignments.\<close>

definition link_task :: "addr \<Rightarrow> 'a sched_scheme \<Rightarrow> 'a sched_scheme" where
  "link_task t s =
     (let c = current_task s;
          s1 = upd_task t (\<lambda>k. k\<lparr>t_next := t_next (tasks s c)\<rparr>) s;
          s2 = upd_task t (\<lambda>k. k\<lparr>t_prev := c\<rparr>) s1;
          s3 = upd_task (t_next (tasks s2 c)) (\<lambda>k. k\<lparr>t_prev := t\<rparr>) s2;
          s4 = upd_task c (\<lambda>k. k\<lparr>t_next := t\<rparr>) s3
      in s4\<lparr>task_count := task_count s4 + 1\<rparr>)"

definition task_alloc_common :: "'a sched_scheme \<Rightarrow> (addr \<times> 'a sched_scheme) option" where
  "task_alloc_common s = do {
     (t, s1) \<leftarrow> kmalloc TASK_SIZE s;
     let s2 = upd_task t (fresh_fields (next_task_id s1) (current_task s1)) s1;
     Some (t, link_task t (s2\<lparr>next_task_id := next_task_id s1 + 1\<rparr>))
   }"

text \<open>The five words below \<open>sp\<close> that \<open>context_switch\<close> pops: a return address and four registers.\<close>

definition push_switch_frame :: "addr \<Rightarrow> addr \<Rightarrow> memory \<Rightarrow> memory" where
  "push_switch_frame sp ret m =
     store32 (store32 (store32 (store32 (store32 m (sp - 4) ret) (sp - 8) 0) (sp - 12) 0) (sp - 16) 0)
       (sp - 20) 0"

text \<open>\<open>trampoline\<close> and \<open>return_tail\<close> are the addresses of \<open>task_trampoline\<close> and \<open>syscall_return_tail\<close>.\<close>

definition task_create :: "addr \<Rightarrow> addr \<Rightarrow> 'a sched_scheme \<Rightarrow> (addr \<times> 'a sched_scheme) option" where
  "task_create trampoline func s = do {
     (t, s1) \<leftarrow> task_alloc_common s;
     let s2 = upd_task t (\<lambda>k. k\<lparr>t_is_user := False, t_entry := func,
                t_page_directory := paging_kernel_directory_phys s1\<rparr>) s1;
     (stack_mem, s3) \<leftarrow> kmalloc STACK_SIZE s2;
     let sp = stack_mem + STACK_SIZE;
     Some (t, (upd_task t (\<lambda>k. k\<lparr>t_kernel_stack_top := sp, t_esp := sp - 20\<rparr>) s3)
       \<lparr>kmem := push_switch_frame sp trampoline (kmem s3)\<rparr>)
   }"

definition task_create_user ::
    "addr \<Rightarrow> addr \<Rightarrow> addr \<Rightarrow> addr \<Rightarrow> 'a sched_scheme \<Rightarrow> (addr \<times> 'a sched_scheme) option" where
  "task_create_user trampoline dir_phys user_entry user_stack_top s = do {
     (t, s1) \<leftarrow> task_alloc_common s;
     let s2 = upd_task t (\<lambda>k. k\<lparr>t_is_user := True, t_user_entry := user_entry,
                t_user_stack_top := user_stack_top, t_page_directory := dir_phys\<rparr>) s1;
     (stack_mem, s3) \<leftarrow> kmalloc STACK_SIZE s2;
     let sp = stack_mem + STACK_SIZE;
     Some (t, (upd_task t (\<lambda>k. k\<lparr>t_kernel_stack_top := sp, t_esp := sp - 20\<rparr>) s3)
       \<lparr>kmem := push_switch_frame sp trampoline (kmem s3)\<rparr>)
   }"

definition copy_bytes :: "addr \<Rightarrow> addr \<Rightarrow> nat \<Rightarrow> memory \<Rightarrow> memory" where
  "copy_bytes dst src n m = fold (\<lambda>i m. m(dst + of_nat i := m (src + of_nat i))) [0..<n] m"

definition task_create_forked ::
    "addr \<Rightarrow> addr \<Rightarrow> addr \<Rightarrow> u32 \<Rightarrow> 'a sched_scheme \<Rightarrow> (addr \<times> 'a sched_scheme) option" where
  "task_create_forked return_tail dir_phys frame_bytes frame_size s = do {
     (t, s1) \<leftarrow> task_alloc_common s;
     let s2 = upd_task t (\<lambda>k. k\<lparr>t_is_user := True, t_page_directory := dir_phys\<rparr>) s1;
     (stack_mem, s3) \<leftarrow> kmalloc STACK_SIZE s2;
     let top = stack_mem + STACK_SIZE;
     let frame_start = top - frame_size;
     let m = copy_bytes frame_start frame_bytes (unat frame_size) (kmem s3);
     Some (t, (upd_task t (\<lambda>k. k\<lparr>t_kernel_stack_top := top, t_esp := frame_start - 20\<rparr>) s3)
       \<lparr>kmem := push_switch_frame frame_start return_tail m\<rparr>)
   }"

section \<open>Accessors\<close>

definition task_get_id :: "addr \<Rightarrow> 'a sched_scheme \<Rightarrow> int" where
  "task_get_id t s = t_id (tasks s t)"

definition task_get_page_directory :: "addr \<Rightarrow> 'a sched_scheme \<Rightarrow> addr" where
  "task_get_page_directory t s = t_page_directory (tasks s t)"

definition task_set_page_directory :: "addr \<Rightarrow> addr \<Rightarrow> 'a sched_scheme \<Rightarrow> 'a sched_scheme" where
  "task_set_page_directory t dir_phys = upd_task t (\<lambda>k. k\<lparr>t_page_directory := dir_phys\<rparr>)"

section \<open>Scheduling\<close>

definition task_start_scheduling :: "'a sched_scheme \<Rightarrow> 'a sched_scheme" where
  "task_start_scheduling s = s\<lparr>scheduling_enabled := True\<rparr>"

partial_function (option) next_ready :: "(addr \<Rightarrow> task) \<Rightarrow> addr \<Rightarrow> addr \<Rightarrow> addr option" where
  "next_ready ts prev nxt =
     (if t_state (ts nxt) \<noteq> TASK_READY \<and> nxt \<noteq> prev
      then next_ready ts prev (t_next (ts nxt)) else Some nxt)"

definition switch_to :: "addr \<Rightarrow> 'a sched_scheme \<Rightarrow> 'a sched_scheme" where
  "switch_to nxt s =
     (let prev = current_task s;
          s1 = s\<lparr>current_task := nxt, tss_esp0 := t_kernel_stack_top (tasks s nxt)\<rparr>;
          s2 = (if t_page_directory (tasks s nxt) \<noteq> t_page_directory (tasks s prev)
                then paging_switch_directory (t_page_directory (tasks s nxt)) s1 else s1);
          s3 = upd_task prev (\<lambda>k. k\<lparr>t_esp := cpu_esp s2\<rparr>) s2
      in s3\<lparr>cpu_esp := t_esp (tasks s2 nxt)\<rparr>)"

definition schedule :: "'a sched_scheme \<Rightarrow> 'a sched_scheme option" where
  "schedule s =
     (if \<not> scheduling_enabled s \<or> current_task s = 0 then Some s
      else do {
        nxt \<leftarrow> next_ready (tasks s) (current_task s) (t_next (tasks s (current_task s)));
        Some (if nxt = current_task s then s else switch_to nxt s)
      })"

definition yield :: "'a sched_scheme \<Rightarrow> 'a sched_scheme option" where
  "yield s = schedule s"

definition task_block :: "'a sched_scheme \<Rightarrow> 'a sched_scheme option" where
  "task_block s = schedule (upd_task (current_task s) (\<lambda>k. k\<lparr>t_state := TASK_BLOCKED\<rparr>) s)"

definition task_unblock :: "addr \<Rightarrow> 'a sched_scheme \<Rightarrow> 'a sched_scheme" where
  "task_unblock t s =
     (if t_state (tasks s t) = TASK_BLOCKED then upd_task t (\<lambda>k. k\<lparr>t_state := TASK_READY\<rparr>) s else s)"

section \<open>Exit and wait\<close>

text \<open>The structure becomes a zombie with its exit code and its parent is woken.\<close>

definition make_zombie :: "addr \<Rightarrow> int \<Rightarrow> 'a sched_scheme \<Rightarrow> 'a sched_scheme" where
  "make_zombie t exit_code s =
     (let s1 = upd_task t (\<lambda>k. k\<lparr>t_state := TASK_ZOMBIE, t_exit_code := exit_code\<rparr>) s;
          par = t_parent (tasks s1 t)
      in if par \<noteq> 0 then task_unblock par s1 else s1)"

text \<open>Exiting switches to another task, or halts the machine when no task is left.\<close>

datatype exit_result = Switched | Machine_halted

definition task_exit_current :: "int \<Rightarrow> 'a sched_scheme \<Rightarrow> (exit_result \<times> 'a sched_scheme) option" where
  "task_exit_current exit_code s =
     (let s1 = make_zombie (current_task s) exit_code s in
      if task_count s1 \<le> 1 then Some (Machine_halted, s1)
      else map_option (Pair Switched) (schedule s1))"

definition task_force_terminate ::
    "addr \<Rightarrow> int \<Rightarrow> 'a sched_scheme \<Rightarrow> (exit_result \<times> 'a sched_scheme) option" where
  "task_force_terminate t exit_code s =
     (if t = current_task s then task_exit_current exit_code s
      else Some (Switched, make_zombie t exit_code s))"

definition unlink_task :: "addr \<Rightarrow> 'a sched_scheme \<Rightarrow> 'a sched_scheme" where
  "unlink_task child s =
     (let s1 = upd_task (t_prev (tasks s child)) (\<lambda>k. k\<lparr>t_next := t_next (tasks s child)\<rparr>) s;
          s2 = upd_task (t_next (tasks s1 child)) (\<lambda>k. k\<lparr>t_prev := t_prev (tasks s1 child)\<rparr>) s1
      in s2\<lparr>task_count := task_count s2 - 1\<rparr>)"

definition reap :: "addr \<Rightarrow> 'a sched_scheme \<Rightarrow> (int \<times> 'a sched_scheme) option" where
  "reap child s = do {
     let code = t_exit_code (tasks s child);
     let s1 = unlink_task child s;
     let s2 = (if t_is_user (tasks s1 child)
               then pmm_free_frame (t_page_directory (tasks s1 child))
                 (paging_free_address_space (t_page_directory (tasks s1 child)) s1)
               else s1);
     s3 \<leftarrow> kfree (t_kernel_stack_top (tasks s2 child) - STACK_SIZE) s2;
     s4 \<leftarrow> kfree child s3;
     Some (code, s4)
   }"

text \<open>
  One round of the wait loops. \<open>Inl ()\<close>: the caller has been blocked and another task runs;
  \<open>Inr r\<close>: the function returns \<open>r\<close>.
\<close>

definition task_wait_specific ::
    "addr \<Rightarrow> 'a sched_scheme \<Rightarrow> ((unit + int) \<times> 'a sched_scheme) option" where
  "task_wait_specific child s =
     (if t_state (tasks s child) \<noteq> TASK_ZOMBIE then map_option (Pair (Inl ())) (task_block s)
      else map_option (\<lambda>(code, s'). (Inr code, s')) (reap child s))"

text \<open>The scan over the ring: the first zombie child (0 when there is none), and whether there are children.\<close>

partial_function (option) find_zombie ::
    "(addr \<Rightarrow> task) \<Rightarrow> addr \<Rightarrow> addr \<Rightarrow> bool \<Rightarrow> (addr \<times> bool) option" where
  "find_zombie ts self t any_children =
     (if t = self then Some (0, any_children)
      else if t_parent (ts t) = self
      then (if t_state (ts t) = TASK_ZOMBIE then Some (t, True) else find_zombie ts self (t_next (ts t)) True)
      else find_zombie ts self (t_next (ts t)) any_children)"

text \<open>The pid and the exit code, or -1 and no code when there are no children.\<close>

definition task_wait_any ::
    "'a sched_scheme \<Rightarrow> ((unit + int \<times> int option) \<times> 'a sched_scheme) option" where
  "task_wait_any s = do {
     let self = current_task s;
     (found, any_children) \<leftarrow> find_zombie (tasks s) self (t_next (tasks s self)) False;
     if found \<noteq> 0 then do {
       (code, s') \<leftarrow> reap found s;
       Some (Inr (t_id (tasks s found), Some code), s')
     }
     else if \<not> any_children then Some (Inr (-1, None), s)
     else map_option (Pair (Inl ())) (task_block s)
   }"

section \<open>Input and output redirection\<close>

definition task_set_input_redirect :: "addr \<Rightarrow> bool \<Rightarrow> 'a sched_scheme \<Rightarrow> 'a sched_scheme" where
  "task_set_input_redirect t enabled =
     upd_task t (\<lambda>k. k\<lparr>t_use_input_redirect := enabled, t_input_head := 0, t_input_tail := 0\<rparr>)"

definition task_push_input_char :: "addr \<Rightarrow> char \<Rightarrow> 'a sched_scheme \<Rightarrow> bool \<times> 'a sched_scheme" where
  "task_push_input_char t c s =
     (let nxt = (t_input_head (tasks s t) + 1) mod TASK_INPUT_QUEUE_SIZE in
      if nxt = t_input_tail (tasks s t) then (False, s)
      else (True, task_unblock t (upd_task t (\<lambda>k. k\<lparr>
        t_input_queue := (t_input_queue k)[t_input_head k := c], t_input_head := nxt\<rparr>) s)))"

definition task_current_uses_input_redirect :: "'a sched_scheme \<Rightarrow> bool" where
  "task_current_uses_input_redirect s \<longleftrightarrow>
     current_task s \<noteq> 0 \<and> t_use_input_redirect (tasks s (current_task s))"

definition task_current_input_has_char :: "'a sched_scheme \<Rightarrow> bool" where
  "task_current_input_has_char s \<longleftrightarrow> current_task s \<noteq> 0 \<and>
     t_input_head (tasks s (current_task s)) \<noteq> t_input_tail (tasks s (current_task s))"

definition task_current_input_getchar :: "'a sched_scheme \<Rightarrow> char \<times> 'a sched_scheme" where
  "task_current_input_getchar s =
     (let k = tasks s (current_task s) in
      if current_task s = 0 then (CHR 0x00, s)
      else if t_input_head k = t_input_tail k then (CHR 0x00, s)
      else (t_input_queue k ! t_input_tail k, upd_task (current_task s)
        (\<lambda>k. k\<lparr>t_input_tail := (t_input_tail k + 1) mod TASK_INPUT_QUEUE_SIZE\<rparr>) s))"

definition task_set_vga_redirect :: "addr \<Rightarrow> addr \<Rightarrow> int \<Rightarrow> int \<Rightarrow> 'a sched_scheme \<Rightarrow> 'a sched_scheme" where
  "task_set_vga_redirect t buf cols rows = upd_task t (\<lambda>k. k\<lparr>t_vga_redirect_buf := buf,
     t_vga_redirect_cols := cols, t_vga_redirect_rows := rows, t_vga_cursor_row := 0,
     t_vga_cursor_col := 0, t_vga_redirect_dirty := True\<rparr>)"

definition task_current_vga_buf :: "'a sched_scheme \<Rightarrow> addr" where
  "task_current_vga_buf s =
     (if current_task s \<noteq> 0 then t_vga_redirect_buf (tasks s (current_task s)) else 0)"

definition task_current_vga_mark_dirty :: "'a sched_scheme \<Rightarrow> 'a sched_scheme" where
  "task_current_vga_mark_dirty s =
     (if current_task s \<noteq> 0 then upd_task (current_task s) (\<lambda>k. k\<lparr>t_vga_redirect_dirty := True\<rparr>) s else s)"

definition task_consume_vga_dirty :: "addr \<Rightarrow> 'a sched_scheme \<Rightarrow> bool \<times> 'a sched_scheme" where
  "task_consume_vga_dirty t s =
     (if \<not> t_vga_redirect_dirty (tasks s t) then (False, s)
      else (True, upd_task t (\<lambda>k. k\<lparr>t_vga_redirect_dirty := False\<rparr>) s))"

section \<open>The ring of tasks\<close>

text \<open>Neighbours in the list are linked in both directions.\<close>

fun path :: "(addr \<Rightarrow> task) \<Rightarrow> addr list \<Rightarrow> bool" where
  "path k (a # b # ts) \<longleftrightarrow> t_next (k a) = b \<and> t_prev (k b) = a \<and> path k (b # ts)"
| "path k _ \<longleftrightarrow> True"

definition task_ring :: "(addr \<Rightarrow> task) \<Rightarrow> addr list \<Rightarrow> bool" where
  "task_ring k ts \<longleftrightarrow> ts \<noteq> [] \<and> distinct ts \<and> 0 \<notin> set ts \<and> path k (ts @ [hd ts])"

lemma path_append: "path k (xs @ a # ys) \<longleftrightarrow> path k (xs @ [a]) \<and> path k (a # ys)"
proof (induction xs)
  case (Cons x xs)
  then show ?case by (cases xs) auto
qed auto

lemma path_cong:
  "(\<And>a. a \<in> set ts \<Longrightarrow> t_next (k' a) = t_next (k a) \<and> t_prev (k' a) = t_prev (k a)) \<Longrightarrow> path k' ts = path k ts"
  by (induction k ts rule: path.induct) auto

lemma task_ring_cong:
  assumes "\<And>a. a \<in> set ts \<Longrightarrow> t_next (k' a) = t_next (k a) \<and> t_prev (k' a) = t_prev (k a)"
  shows "task_ring k' ts = task_ring k ts"
proof (cases "ts = []")
  case False
  have "path k' (ts @ [hd ts]) = path k (ts @ [hd ts])" by (rule path_cong) (use assms False in auto)
  then show ?thesis by (simp add: task_ring_def)
qed (simp add: task_ring_def)

lemma task_ring_rotate: "task_ring k (xs @ ys) \<Longrightarrow> ys \<noteq> [] \<Longrightarrow> task_ring k (ys @ xs)"
proof (cases xs)
  case (Cons x xs')
  assume r: "task_ring k (xs @ ys)" and "ys \<noteq> []"
  then obtain y ys' where ys: "ys = y # ys'" by (cases ys) auto
  have "path k ((x # xs') @ y # ys' @ [x])" using r by (simp add: task_ring_def Cons ys)
  then have "path k ((x # xs') @ [y])" "path k (y # ys' @ [x])"
    using path_append[of k "x # xs'" y "ys' @ [x]"] by auto
  then have "path k ((y # ys') @ x # xs' @ [y])"
    using path_append[of k "y # ys'" x "xs' @ [y]"] by simp
  with r show ?thesis by (auto simp: task_ring_def Cons ys)
qed simp

lemma next_ready_path:
  "path k (xs @ [p]) \<Longrightarrow> p \<notin> set xs \<Longrightarrow> next_ready k p (hd (xs @ [p])) =
    Some (case find (\<lambda>t. t_state (k t) = TASK_READY) xs of Some x \<Rightarrow> x | None \<Rightarrow> p)"
proof (induction xs)
  case Nil
  then show ?case by (simp add: next_ready.simps)
next
  case (Cons x xs)
  have "t_next (k x) = hd (xs @ [p]) \<and> path k (xs @ [p])" using Cons.prems(1) by (cases xs) auto
  then show ?case using Cons by (subst next_ready.simps) auto
qed

lemma switch_to_fields [simp]:
  "t_next (tasks (switch_to x s) a) = t_next (tasks s a)" "t_prev (tasks (switch_to x s) a) = t_prev (tasks s a)"
  "t_state (tasks (switch_to x s) a) = t_state (tasks s a)" "current_task (switch_to x s) = x"
  "scheduling_enabled (switch_to x s) = scheduling_enabled s"
  by (simp_all add: switch_to_def Let_def upd_task_def paging_switch_directory_def)

definition runnable :: "'a sched_scheme \<Rightarrow> addr \<Rightarrow> bool" where
  "runnable s t \<longleftrightarrow> t_state (tasks s t) = TASK_READY"

lemma schedule_ring:
  assumes "task_ring (tasks s) (c # rest)" "current_task s = c" "scheduling_enabled s"
  shows "schedule s = Some (case find (runnable s) rest of None \<Rightarrow> s | Some x \<Rightarrow> switch_to x s)"
proof -
  have p: "path (tasks s) (c # rest @ [c])" "c \<notin> set rest" "c \<noteq> 0"
    using assms(1) by (auto simp: task_ring_def)
  then have "t_next (tasks s c) = hd (rest @ [c])" "path (tasks s) (rest @ [c])" by (cases rest; simp)+
  then have "next_ready (tasks s) c (t_next (tasks s c)) =
      Some (case find (runnable s) rest of Some x \<Rightarrow> x | None \<Rightarrow> c)"
    using next_ready_path[of "tasks s" rest c] p(2) by (simp add: runnable_def[abs_def])
  moreover have "x \<noteq> c" if "find (runnable s) rest = Some x" for x
    using that p(2) by (metis find_Some_iff nth_mem)
  ultimately show ?thesis using assms(2,3) p(3) by (auto simp: schedule_def split: option.split)
qed

primrec schedules :: "nat \<Rightarrow> 'a sched_scheme \<Rightarrow> 'a sched_scheme option" where
  "schedules 0 s = Some s"
| "schedules (Suc n) s = Option.bind (schedule s) (schedules n)"

lemma find_split: "find P xs = Some x \<Longrightarrow> \<exists>as bs. xs = as @ x # bs \<and> P x \<and> (\<forall>a\<in>set as. \<not> P a)"
proof (induction xs)
  case (Cons y ys)
  show ?case
  proof (cases "P y")
    case True
    with Cons show ?thesis by (intro exI[of _ "[]"] exI[of _ ys]) auto
  next
    case False
    with Cons obtain as bs where "ys = as @ x # bs \<and> P x \<and> (\<forall>a\<in>set as. \<not> P a)" by auto
    with False have "y # ys = (y # as) @ x # bs \<and> P x \<and> (\<forall>a\<in>set (y # as). \<not> P a)" by simp
    then show ?thesis by blast
  qed
qed simp

lemma schedule_step:
  assumes "task_ring (tasks s) (c # rest)" "current_task s = c" "scheduling_enabled s"
    and "filter (runnable s) rest = x # xs"
  obtains as bs s' where "rest = as @ x # bs" "schedule s = Some s'" "s' = switch_to x s"
    "task_ring (tasks s') (x # bs @ c # as)" "filter (runnable s') (bs @ c # as) = xs @ filter (runnable s) [c]"
    "runnable s' = runnable s"
proof -
  have "find (runnable s) rest = Some x"
    using assms(4) by (induction rest) (auto split: if_splits)
  then obtain as bs where r: "rest = as @ x # bs" "runnable s x" "\<forall>a\<in>set as. \<not> runnable s a"
    using find_split by metis
  have "schedule s = Some (switch_to x s)"
    using schedule_ring[OF assms(1-3)] \<open>find (runnable s) rest = Some x\<close> by simp
  moreover have "task_ring (tasks s) ((x # bs) @ (c # as))"
    using task_ring_rotate[of "tasks s" "c # as" "x # bs"] assms(1) r(1) by simp
  then have "task_ring (tasks (switch_to x s)) (x # bs @ c # as)"
    using task_ring_cong[of "x # bs @ c # as" "tasks (switch_to x s)" "tasks s"] by simp
  moreover have run: "runnable (switch_to x s) = runnable s" by (simp add: runnable_def fun_eq_iff)
  moreover have "filter (runnable s) (bs @ c # as) = xs @ filter (runnable s) [c]"
    using assms(4) r by (auto simp: filter_empty_conv)
  ultimately show ?thesis using that r(1) by auto
qed

lemma schedules_nth:
  "task_ring (tasks s) (c # rest) \<Longrightarrow> current_task s = c \<Longrightarrow> scheduling_enabled s \<Longrightarrow>
    i < length (filter (runnable s) rest) \<Longrightarrow>
    \<exists>s'. schedules (Suc i) s = Some s' \<and> current_task s' = filter (runnable s) rest ! i"
proof (induction i arbitrary: s c rest)
  case 0
  then obtain x xs where f: "filter (runnable s) rest = x # xs" by (cases "filter (runnable s) rest") auto
  obtain s' where "schedule s = Some s'" "s' = switch_to x s" using schedule_step[OF 0(1-3) f] by metis
  then show ?case by (simp add: f)
next
  case (Suc i)
  then obtain x xs where f: "filter (runnable s) rest = x # xs" by (cases "filter (runnable s) rest") auto
  obtain as bs s' where s': "schedule s = Some s'" "s' = switch_to x s"
    "task_ring (tasks s') (x # bs @ c # as)" "filter (runnable s') (bs @ c # as) = xs @ filter (runnable s) [c]"
    using schedule_step[OF Suc.prems(1-3) f] by metis
  have "i < length (filter (runnable s') (bs @ c # as))" using Suc.prems(4) by (simp only: s'(4) f) simp
  from Suc.IH[OF s'(3) _ _ this] s'(2) Suc.prems(3)
  obtain s'' where "schedules (Suc i) s' = Some s''" "current_task s'' = filter (runnable s') (bs @ c # as) ! i"
    by auto
  moreover have "filter (runnable s') (bs @ c # as) ! i = filter (runnable s) rest ! Suc i"
    using Suc.prems(4) unfolding s'(4) f by (simp add: nth_append)
  ultimately show ?case using s'(1) by simp
qed

section \<open>The fields other components own\<close>

text \<open>The heap, frame and paging operations leave the statics of this file alone.\<close>

lemma more_pmm [simp]:
  "vm.more (pmm_free_frame a s) = vm.more s" "vm.more (snd (pmm_alloc_frame s)) = vm.more s"
  by (simp_all add: pmm_free_frame_def pmm_alloc_frame_def Let_def mark_free_def bitmap_clear_def
      bitmap_set_def split: option.split)

lemma more_heap_vm: "vm.more s = vm.more t \<Longrightarrow> heap.more s = heap.more t"
  by (cases s, cases t) simp

lemma heap_extend_n_more: "heap.more (heap_extend_n n s) = heap.more s"
proof (induction n arbitrary: s)
  case (Suc n)
  have "heap.more (snd (pmm_alloc_frame s)) = heap.more s" by (rule more_heap_vm) simp
  moreover have "heap.more ((snd (paging_map_page p v f t))\<lparr>heap_end := e\<rparr>) = heap.more t" for p v f e and t :: "'a heap_scheme"
    by (simp add: paging_map_page_def)
  ultimately show ?case using Suc by (auto simp: split_def Let_def)
qed simp

lemma kmalloc_more: "kmalloc n s = Some (p, s') \<Longrightarrow> heap.more s' = heap.more s"
  by (auto simp: kmalloc_def grow_block_def Let_def heap_extend_def heap_extend_n_more
      split: if_splits option.splits)

lemma kfree_more: "kfree p s = Some s' \<Longrightarrow> heap.more s' = heap.more s"
  by (auto simp: kfree_def Let_def split: if_splits option.splits)

lemma sched_of_more:
  assumes "heap.more s = heap.more t"
  shows "tasks s = tasks t" "kmem s = kmem t" "current_task s = current_task t"
    "next_task_id s = next_task_id t" "scheduling_enabled s = scheduling_enabled t"
    "task_count s = task_count t"
  using assms by (cases s, cases t, simp)+

lemma heap_inv_sched [simp]:
  "heap_inv (upd_task t f s) bs = heap_inv s bs" "pmm_inv (upd_task t f s) = pmm_inv s"
  "free_frames (upd_task t f s) = free_frames s" "heap_end (upd_task t f s) = heap_end s"
  "heap_inv (s\<lparr>kmem := m\<rparr>) bs = heap_inv s bs" "pmm_inv (s\<lparr>kmem := m\<rparr>) = pmm_inv s"
  "heap_inv (s\<lparr>next_task_id := n\<rparr>) bs = heap_inv s bs" "pmm_inv (s\<lparr>next_task_id := n\<rparr>) = pmm_inv s"
  "free_frames (s\<lparr>next_task_id := n\<rparr>) = free_frames s"
  "heap_inv (s\<lparr>task_count := c\<rparr>) bs = heap_inv s bs" "pmm_inv (s\<lparr>task_count := c\<rparr>) = pmm_inv s"
  "free_frames (s\<lparr>task_count := c\<rparr>) = free_frames s"
  by (simp_all add: upd_task_def heap_inv_def pmm_inv_def counts_ok_def used_count_def bitmap_test_def free_frames_def)

lemma upd_task_fields [simp]:
  "current_task (upd_task t f s) = current_task s" "next_task_id (upd_task t f s) = next_task_id s"
  "task_count (upd_task t f s) = task_count s" "scheduling_enabled (upd_task t f s) = scheduling_enabled s"
  "tasks (upd_task t f s) a = (if a = t then f (tasks s t) else tasks s a)"
  by (simp_all add: upd_task_def)

section \<open>Insertion and removal in the ring\<close>

lemma path_links_cong:
  "path k (x # xs) \<Longrightarrow> (\<And>a. a \<in> set (butlast (x # xs)) \<Longrightarrow> t_next (k' a) = t_next (k a)) \<Longrightarrow>
    (\<And>b. b \<in> set xs \<Longrightarrow> t_prev (k' b) = t_prev (k b)) \<Longrightarrow> path k' (x # xs)"
proof (induction xs arbitrary: x)
  case (Cons y ys)
  have "path k' (y # ys)" by (rule Cons.IH) (use Cons.prems in auto)
  then show ?case using Cons.prems by auto
qed simp

lemma link_task_ring:
  assumes ring: "task_ring (tasks s) (c # rest)" and c: "current_task s = c" and t: "t \<notin> set (c # rest)" "t \<noteq> 0"
  shows "task_ring (tasks (link_task t s)) (c # t # rest)"
proof -
  let ?k = "tasks (link_task t s)" and ?n = "hd (rest @ [c])"
  have p: "path (tasks s) (c # rest @ [c])" "distinct (c # rest)" "c \<noteq> 0" "0 \<notin> set rest"
    using ring by (auto simp: task_ring_def)
  then have n: "t_next (tasks s c) = ?n" "path (tasks s) (rest @ [c])" by (cases rest; simp)+
  have "t \<noteq> ?n" using t by (cases rest) auto
  with n t have k: "t_next (?k a) = (if a = c then t else if a = t then ?n else t_next (tasks s a))"
    "t_prev (?k a) = (if a = ?n then t else if a = t then c else t_prev (tasks s a))" for a
    using c by (auto simp: link_task_def Let_def)
  have "path ?k (rest @ [c])"
  proof (cases rest)
    case (Cons r rs)
    have "path ?k (r # rs @ [c])"
      by (rule path_links_cong[of "tasks s"]) (use n(2) p(2) t in \<open>auto simp: k Cons butlast_append\<close>)
    then show ?thesis by (simp add: Cons)
  qed simp
  then have "path ?k (c # t # rest @ [c])"
    using \<open>t \<noteq> ?n\<close> t by (cases rest) (auto simp: k)
  with p t show ?thesis by (auto simp: task_ring_def)
qed

lemma unlink_task_ring:
  assumes ring: "task_ring (tasks s) (xs @ t # ys)" and ne: "xs @ ys \<noteq> []"
  shows "task_ring (tasks (unlink_task t s)) (xs @ ys)"
proof -
  have rot: "task_ring (tasks s) (t # ys @ xs)" using task_ring_rotate[of _ xs "t # ys"] ring by simp
  obtain u us where us: "ys @ xs = u # us" using ne by (cases "ys @ xs") auto
  let ?k = "tasks (unlink_task t s)" and ?l = "last (u # us)"
  have p: "path (tasks s) (t # u # us @ [t])" "distinct (t # u # us)" "0 \<notin> set (u # us)"
    using rot by (auto simp: task_ring_def us)
  then have tu: "t_next (tasks s t) = u" "t_prev (tasks s u) = t" "path (tasks s) ((u # us) @ [t])" by simp_all
  have "path (tasks s) (butlast (u # us) @ ?l # [t])"
    using tu(3) append_butlast_last_id[of "u # us"] by (metis append.assoc append_Cons append_Nil list.distinct(1))
  then have l: "t_next (tasks s ?l) = t" "t_prev (tasks s t) = ?l" "path (tasks s) (butlast (u # us) @ [?l])"
    using path_append[of "tasks s" "butlast (u # us)" ?l "[t]"] by auto
  then have body: "path (tasks s) (u # us)" by (metis append_butlast_last_id list.distinct(1))
  have k: "t_next (?k a) = (if a = ?l then u else t_next (tasks s a))"
    "t_prev (?k a) = (if a = u then ?l else t_prev (tasks s a))" if "a \<noteq> t" for a
  proof -
    have "?l \<noteq> t" "u \<noteq> t" using p(2) by (auto split: if_splits)
    then show "t_next (?k a) = (if a = ?l then u else t_next (tasks s a))"
      "t_prev (?k a) = (if a = u then ?l else t_prev (tasks s a))"
      using that tu l by (auto simp: unlink_task_def Let_def)
  qed
  have "path ?k (u # us)"
  proof (rule path_links_cong[OF body])
    fix a assume "a \<in> set (butlast (u # us))"
    then have "a \<noteq> ?l" "a \<noteq> t"
      using p(2) by (metis append_butlast_last_id distinct.simps(2) distinct_append disjoint_iff
        list.distinct(1) list.set_intros(1)) (use \<open>a \<in> set (butlast (u # us))\<close> p(2) in \<open>auto dest: in_set_butlastD split: if_splits\<close>)
    then show "t_next (?k a) = t_next (tasks s a)" by (simp add: k)
  next
    fix b assume "b \<in> set us"
    then have "b \<noteq> u" "b \<noteq> t" using p(2) by auto
    then show "t_prev (?k b) = t_prev (tasks s b)" by (simp add: k)
  qed
  then have "path ?k (butlast (u # us) @ [?l])" by (metis append_butlast_last_id list.distinct(1))
  moreover have "?l \<noteq> t" "u \<noteq> t" using p(2) by (auto split: if_splits)
  then have "path ?k [?l, u]" by (simp add: k)
  ultimately have "path ?k (butlast (u # us) @ ?l # [u])" using path_append[of ?k "butlast (u # us)" ?l "[u]"] by simp
  moreover have "butlast (u # us) @ ?l # [u] = (u # us) @ [u]"
    using append_butlast_last_id[of "u # us"] by (metis append.assoc append_Cons append_Nil list.distinct(1))
  ultimately have "path ?k ((u # us) @ [u])" by metis
  then have "task_ring ?k (ys @ xs)" unfolding us task_ring_def using p by simp
  then show ?thesis
    by (cases "xs = []") (use task_ring_rotate in auto)
qed

section \<open>The scheduler's invariant\<close>

text \<open>
  The heap and the frame allocator are well formed, the tasks form a ring that contains the current
  one, the counter counts them, and every task structure is an allocated heap block.
\<close>

definition sched_inv :: "'a sched_scheme \<Rightarrow> block list \<Rightarrow> addr list \<Rightarrow> bool" where
  "sched_inv s bs ts \<longleftrightarrow> heap_inv s bs \<and> pmm_inv s \<and> task_ring (tasks s) ts \<and> current_task s \<in> set ts \<and>
     task_count s = int (length ts) \<and> (\<forall>t\<in>set ts. \<exists>k. (t - 12, k, False) \<in> set bs)"

definition heap_room :: "nat \<Rightarrow> 'a heap_scheme \<Rightarrow> bool" where
  "heap_room n s \<longleftrightarrow> n \<le> free_frames s \<and> unat (heap_end s) + n * 4096 \<le> 0x4000000"

definition pages_for :: "u32 \<Rightarrow> nat" where
  "pages_for n = (unat (round4 n) + 4107) div 4096"

lemma pages_for_sizes: "pages_for TASK_SIZE = 1" "pages_for STACK_SIZE = 3"
  by (simp_all add: pages_for_def TASK_SIZE_def STACK_SIZE_def round4_def)

lemma sched_kmalloc:
  assumes inv: "sched_inv s bs ts" and n: "n \<noteq> 0" "unat n \<le> 0x2000000" and room: "heap_room (pages_for n + r) s"
  obtains p k s' bs' where "kmalloc n s = Some (p, s')" "sched_inv s' bs' ts" "heap_room r s'"
    "(p - 12, k, False) \<in> set bs'" "\<forall>m. (p - 12, m, False) \<notin> set bs" "p \<noteq> 0" "p \<notin> set ts" "4 dvd unat p"
    "\<forall>a m. (a, m, False) \<in> set bs \<longrightarrow> (a, m, False) \<in> set bs'" "heap.more s' = heap.more s"
    "unat p + unat n \<le> 0x4000000" "0x400000 \<le> unat p" "unat n \<le> unat k"
proof -
  have h: "heap_inv s bs" "pmm_inv s" using inv by (simp_all add: sched_inv_def)
  obtain b k s' bs' where r: "kmalloc n s = Some (b + 12, s')" "heap_inv s' bs'" "pmm_inv s'"
    "(b, k, False) \<in> set bs'" "round4 n \<le> k"
    "\<forall>a m. a \<noteq> b \<longrightarrow> ((a, m, False) \<in> set bs' \<longleftrightarrow> (a, m, False) \<in> set bs)" "\<forall>m. (b, m, False) \<notin> set bs"
    "free_frames s - pages_for n \<le> free_frames s'"
    "unat (heap_end s') \<le> unat (heap_end s) + pages_for n * 4096"
    by (rule kmalloc_cases[OF h n]) (use room in \<open>auto simp: heap_room_def pages_for_def\<close>)
  have b: "b + 12 - 12 = b" by simp
  have more: "heap.more s' = heap.more s" using kmalloc_more[OF r(1)] .
  have old: "(a, m, False) \<in> set bs'" if "(a, m, False) \<in> set bs" for a m
    using r(6,7) that by (cases "a = b") auto
  have tl: "tiles 0x400000 bs' (unat (heap_end s'))" and e: "unat (heap_end s') \<le> 0x4000000"
    and al: "\<forall>(a, n, f)\<in>set bs'. 4 dvd unat n" using r(2) by (simp_all add: heap_inv_def)
  have ge: "0x400000 \<le> unat b" "unat b + 12 + unat k \<le> 0x4000000" using tiles_ge[OF tl r(4)] e by auto
  then have p: "unat (b + 12) = unat b + 12" by (subst unat_add_lt) auto
  have "n \<le> round4 n" using n(2) by (intro round4_ge) simp
  then have nk: "unat n \<le> unat k" using r(5) by (simp add: word_le_nat_alt)
  have "b + 12 \<notin> set ts" using inv r(7) b by (fastforce simp: sched_inv_def)
  moreover have "b + 12 \<noteq> 0" using p by auto
  moreover have "4 dvd unat (b + 12)" unfolding p using tiles_aligned[OF tl _ al r(4)] by simp
  moreover have "heap_room r s'" using room r(8,9) by (auto simp: heap_room_def)
  moreover have "sched_inv s' bs' ts"
    using inv r(2,3) old by (fastforce simp: sched_inv_def sched_of_more[OF more])
  moreover have "unat (b + 12) + unat n \<le> 0x4000000" "0x400000 \<le> unat (b + 12)" using p nk ge by auto
  ultimately show ?thesis using r(1,4,7) more old nk by (intro that[of "b + 12" s' bs' k]) (simp_all add: b)
qed

lemma sched_inv_cong:
  assumes "sched_inv s bs ts" "heap_inv t bs" "pmm_inv t"
    "\<And>a. a \<in> set ts \<Longrightarrow> t_next (tasks t a) = t_next (tasks s a) \<and> t_prev (tasks t a) = t_prev (tasks s a)"
    "current_task t = current_task s" "task_count t = task_count s"
  shows "sched_inv t bs ts"
  using assms task_ring_cong[of ts "tasks t" "tasks s"] by (simp add: sched_inv_def)

lemma heap_room_mono: "heap_room n s \<Longrightarrow> m \<le> n \<Longrightarrow> heap_room m s"
  by (simp add: heap_room_def)

lemma heap_room_upd [simp]:
  "heap_room r (upd_task t f s) = heap_room r s" "heap_room r (s\<lparr>kmem := m\<rparr>) = heap_room r s"
  "heap_room r (s\<lparr>next_task_id := i\<rparr>) = heap_room r s"
  by (simp_all add: heap_room_def upd_task_def free_frames_def bitmap_test_def)

text \<open>What \<open>task_alloc_common\<close> delivers to its three callers.\<close>

lemma link_task_fields [simp]:
  "heap_inv (link_task t s) bs = heap_inv s bs" "pmm_inv (link_task t s) = pmm_inv s"
  "current_task (link_task t s) = current_task s" "next_task_id (link_task t s) = next_task_id s"
  "task_count (link_task t s) = task_count s + 1" "heap_room r (link_task t s) = heap_room r s"
  "t_state (tasks (link_task t s) a) = t_state (tasks s a)" "t_id (tasks (link_task t s) a) = t_id (tasks s a)"
  "t_parent (tasks (link_task t s) a) = t_parent (tasks s a)" "kmem (link_task t s) = kmem s"
  by (simp_all add: link_task_def Let_def upd_task_def heap_room_def heap_inv_def pmm_inv_def counts_ok_def
      used_count_def free_frames_def bitmap_test_def)

lemma task_alloc_common_ok:
  assumes inv: "sched_inv s bs (c # rest)" and c: "current_task s = c" and room: "heap_room (1 + r) s"
  obtains t s' bs' where "task_alloc_common s = Some (t, s')" "sched_inv s' bs' (c # t # rest)" "heap_room r s'"
    "t \<notin> set (c # rest)" "t \<noteq> 0" "runnable s' t" "t_parent (tasks s' t) = c" "t_id (tasks s' t) = next_task_id s"
    "next_task_id s' = next_task_id s + 1" "current_task s' = c"
    "\<forall>u\<in>set (c # rest). runnable s' u = runnable s u" "\<forall>a m. (a, m, False) \<in> set bs \<longrightarrow> (a, m, False) \<in> set bs'"
proof -
  have room': "heap_room (pages_for TASK_SIZE + r) s" using room by (simp add: pages_for_sizes)
  obtain t k s1 bs' where m: "kmalloc TASK_SIZE s = Some (t, s1)" "sched_inv s1 bs' (c # rest)" "heap_room r s1"
    "(t - 12, k, False) \<in> set bs'" "t \<noteq> 0" "t \<notin> set (c # rest)" "heap.more s1 = heap.more s"
    "\<forall>a m. (a, m, False) \<in> set bs \<longrightarrow> (a, m, False) \<in> set bs'"
    by (rule sched_kmalloc[OF inv _ _ room']) (auto simp: TASK_SIZE_def)
  note f = sched_of_more[OF m(7)]
  let ?s2 = "(upd_task t (fresh_fields (next_task_id s1) (current_task s1)) s1)\<lparr>next_task_id := next_task_id s1 + 1\<rparr>"
  let ?s' = "link_task t ?s2"
  have res: "task_alloc_common s = Some (t, ?s')" using m(1) by (simp add: task_alloc_common_def Let_def)
  have "task_ring (tasks ?s2) (c # rest) = task_ring (tasks s1) (c # rest)"
    by (rule task_ring_cong) (use m(6) in auto)
  then have "task_ring (tasks ?s2) (c # rest)" using m(2) by (simp add: sched_inv_def)
  then have ring: "task_ring (tasks ?s') (c # t # rest)"
    by (rule link_task_ring) (use m(5,6) c f in simp_all)
  have "sched_inv ?s' bs' (c # t # rest)"
    using m(2,4) ring c f by (auto simp: sched_inv_def)
  moreover have "heap_room r ?s'" using m(3) by simp
  ultimately show ?thesis
    by (intro that[OF res]) (use m c f in \<open>auto simp: runnable_def fresh_fields_def\<close>)
qed

lemma switch_frame_words:
  assumes "4 dvd unat sp" "20 \<le> unat sp"
  shows "load32 (push_switch_frame sp ret m) (sp - 4) = ret"
    "i \<in> {8, 12, 16, 20} \<Longrightarrow> load32 (push_switch_frame sp ret m) (sp - i) = 0"
proof -
  have al: "aligned4 (sp - i)" if "i \<in> {4, 8, 12, 16, 20}" for i :: addr
  proof -
    have "unat (sp - i) = unat sp - unat i"
      by (rule unat_sub_le) (use assms(2) that in \<open>auto simp: word_le_nat_alt\<close>)
    then show ?thesis using that assms(1) by (auto simp: aligned4_def intro!: dvd_diff_nat)
  qed
  have a: "aligned4 (sp - 4)" "aligned4 (sp - 8)" "aligned4 (sp - 12)" "aligned4 (sp - 16)" "aligned4 (sp - 20)"
    by (rule al; simp)+
  show "load32 (push_switch_frame sp ret m) (sp - 4) = ret"
    by (simp add: push_switch_frame_def load32_store32_other a)
  show "i \<in> {8, 12, 16, 20} \<Longrightarrow> load32 (push_switch_frame sp ret m) (sp - i) = 0"
    by (auto simp: push_switch_frame_def load32_store32_other a)
qed

text \<open>The second half of \<open>task_create\<close> and \<open>task_create_user\<close>: the kernel stack.\<close>

lemma add_stack_ok:
  assumes inv: "sched_inv s bs (c # t # rest)" and room: "heap_room 3 s"
  obtains sm k s' bs' where "kmalloc STACK_SIZE s = Some (sm, s')"
    "sched_inv ((upd_task t (\<lambda>k. k\<lparr>t_kernel_stack_top := sm + STACK_SIZE, t_esp := sm + STACK_SIZE - 20\<rparr>) s')
       \<lparr>kmem := push_switch_frame (sm + STACK_SIZE) ret (kmem s')\<rparr>) bs' (c # t # rest)"
    "tasks s' = tasks s" "current_task s' = current_task s" "next_task_id s' = next_task_id s"
    "(sm - 12, k, False) \<in> set bs'" "sm \<notin> set (c # t # rest)"
    "load32 (push_switch_frame (sm + STACK_SIZE) ret (kmem s')) (sm + STACK_SIZE - 4) = ret"
    "\<forall>i\<in>{8, 12, 16, 20}. load32 (push_switch_frame (sm + STACK_SIZE) ret (kmem s')) (sm + STACK_SIZE - i) = 0"
proof -
  have room': "heap_room (pages_for STACK_SIZE + 0) s" using room by (simp add: pages_for_sizes)
  obtain sm k s' bs' where m: "kmalloc STACK_SIZE s = Some (sm, s')" "sched_inv s' bs' (c # t # rest)"
    "(sm - 12, k, False) \<in> set bs'" "4 dvd unat sm" "heap.more s' = heap.more s"
    "unat sm + unat STACK_SIZE \<le> 0x4000000" "sm \<notin> set (c # t # rest)"
    by (rule sched_kmalloc[OF inv _ _ room']) (auto simp: STACK_SIZE_def)
  note f = sched_of_more[OF m(5)]
  have "unat (sm + STACK_SIZE) = unat sm + unat STACK_SIZE" using m(6) by (subst unat_add_lt) auto
  then have sp: "4 dvd unat (sm + STACK_SIZE)" "20 \<le> unat (sm + STACK_SIZE)" using m(4) by (auto simp: STACK_SIZE_def)
  have h: "heap_inv s' bs'" "pmm_inv s'" using m(2) by (simp_all add: sched_inv_def)
  have "sched_inv ((upd_task t (\<lambda>k. k\<lparr>t_kernel_stack_top := sm + STACK_SIZE, t_esp := sm + STACK_SIZE - 20\<rparr>) s')
       \<lparr>kmem := push_switch_frame (sm + STACK_SIZE) ret (kmem s')\<rparr>) bs' (c # t # rest)"
    by (rule sched_inv_cong[OF m(2)]) (use h in simp_all)
  then show ?thesis
    using m(1,3,7) f switch_frame_words[OF sp] by (intro that[of sm s' bs' k]) auto
qed

section \<open>Who can run next\<close>

lemma next_ready_result: "next_ready ts p n = Some x \<Longrightarrow> x = p \<or> t_state (ts x) = TASK_READY"
  by (rule next_ready.raw_induct[where P = "\<lambda>ts p n x. x = p \<or> t_state (ts x) = TASK_READY"])
    (auto split: if_splits)

lemma schedule_result:
  "schedule s = Some s' \<Longrightarrow> runnable s' = runnable s \<and> t_state (tasks s' a) = t_state (tasks s a) \<and>
    (current_task s' = current_task s \<or> runnable s' (current_task s'))"
  by (auto simp: schedule_def runnable_def fun_eq_iff split: if_splits bind_splits dest!: next_ready_result)

text \<open>Once the current task is runnable, a task that is not runnable is never scheduled.\<close>

lemma schedules_avoid:
  "schedules n s = Some s' \<Longrightarrow> runnable s (current_task s) \<Longrightarrow>
    runnable s' = runnable s \<and> runnable s (current_task s')"
proof (induction n arbitrary: s)
  case (Suc n)
  then obtain s1 where s1: "schedule s = Some s1" "schedules n s1 = Some s'" by (auto split: bind_splits)
  have r: "runnable s1 = runnable s" "current_task s1 = current_task s \<or> runnable s1 (current_task s1)"
    using schedule_result[OF s1(1)] by blast+
  then have "runnable s1 (current_task s1)" using Suc.prems(2) by metis
  with Suc.IH[OF s1(2)] r(1) show ?case by simp
qed simp

lemma make_zombie_fields [simp]:
  "t_next (tasks (make_zombie t e s) a) = t_next (tasks s a)" "t_prev (tasks (make_zombie t e s) a) = t_prev (tasks s a)"
  "current_task (make_zombie t e s) = current_task s" "task_count (make_zombie t e s) = task_count s"
  "scheduling_enabled (make_zombie t e s) = scheduling_enabled s"
  "t_state (tasks (make_zombie t e s) t) = TASK_ZOMBIE" "t_exit_code (tasks (make_zombie t e s) t) = e"
  by (auto simp: make_zombie_def Let_def task_unblock_def)

lemma make_zombie_wakes:
  "u \<noteq> t \<Longrightarrow> t_state (tasks (make_zombie t e s) u) =
    (if u = t_parent (tasks s t) \<and> u \<noteq> 0 \<and> t_state (tasks s u) = TASK_BLOCKED then TASK_READY else t_state (tasks s u))"
  by (auto simp: make_zombie_def Let_def task_unblock_def)

section \<open>Reaping\<close>

lemma free_page_frame: "pmm_inv s \<Longrightarrow> pmm_inv (free_page tb pt s)" "vm.more (free_page tb pt s) = vm.more s"
  by (auto simp: free_page_def Let_def pmm_free_frame_inv)

lemma fold_free_page_frame:
  "pmm_inv s \<Longrightarrow> pmm_inv (fold (free_page tb) pts s)" "vm.more (fold (free_page tb) pts s) = vm.more s"
  by (induction pts arbitrary: s) (auto simp: free_page_frame)

lemma free_table_frame: "pmm_inv s \<Longrightarrow> pmm_inv (free_table d pd s)" "vm.more (free_table d pd s) = vm.more s"
  by (auto simp: free_table_def Let_def pmm_free_frame_inv fold_free_page_frame)

lemma free_address_space_frame:
  "pmm_inv s \<Longrightarrow> pmm_inv (paging_free_address_space d s)" "vm.more (paging_free_address_space d s) = vm.more s"
proof -
  have "(pmm_inv s \<longrightarrow> pmm_inv (fold (free_table d) pds s)) \<and> vm.more (fold (free_table d) pds s) = vm.more s" for pds
    by (induction pds arbitrary: s) (auto simp: free_table_frame)
  then show "pmm_inv s \<Longrightarrow> pmm_inv (paging_free_address_space d s)"
    "vm.more (paging_free_address_space d s) = vm.more s"
    unfolding paging_free_address_space_def by blast+
qed

lemma sched_inv_vm_more:
  assumes "sched_inv s bs ts" "vm.more t = vm.more s" "pmm_inv t"
  shows "sched_inv t bs ts" "tasks t = tasks s"
proof -
  have "hdr t = hdr s" "heap_head t = heap_head s" "heap_end t = heap_end s"
    using assms(2) by (cases s, cases t, simp)+
  moreover have "heap.more t = heap.more s" using more_heap_vm[OF assms(2)] .
  ultimately show "sched_inv t bs ts" "tasks t = tasks s"
    using assms(1,3) sched_of_more[of t s] by (simp_all add: sched_inv_def heap_inv_def)
qed

lemma unlink_task_fields [simp]:
  "heap_inv (unlink_task t s) bs = heap_inv s bs" "pmm_inv (unlink_task t s) = pmm_inv s"
  "current_task (unlink_task t s) = current_task s" "task_count (unlink_task t s) = task_count s - 1"
  "t_state (tasks (unlink_task t s) a) = t_state (tasks s a)"
  "t_kernel_stack_top (tasks (unlink_task t s) a) = t_kernel_stack_top (tasks s a)"
  by (simp_all add: unlink_task_def Let_def upd_task_def heap_inv_def pmm_inv_def counts_ok_def
      used_count_def bitmap_test_def)

lemma sched_invI:
  "heap_inv s bs \<Longrightarrow> pmm_inv s \<Longrightarrow> task_ring (tasks s) ts \<Longrightarrow> current_task s \<in> set ts \<Longrightarrow>
    task_count s = int (length ts) \<Longrightarrow> (\<And>t. t \<in> set ts \<Longrightarrow> \<exists>k. (t - 12, k, False) \<in> set bs) \<Longrightarrow> sched_inv s bs ts"
  by (simp add: sched_inv_def)

lemma kfree_sched:
  assumes inv: "sched_inv s bs ts" and blk: "(p - 12, k, False) \<in> set bs" "p \<notin> set ts"
  obtains s' bs' where "kfree p s = Some s'" "sched_inv s' bs' ts" "tasks s' = tasks s"
    "\<forall>a k. (a, k, False) \<in> set bs' \<longleftrightarrow> (a, k, False) \<in> set bs \<and> a \<noteq> p - 12"
proof -
  have h: "heap_inv s bs" using inv by (simp add: sched_inv_def)
  obtain hd' where f: "kfree p s = Some (s\<lparr>hdr := hd'\<rparr>)"
    "heap_inv (s\<lparr>hdr := hd'\<rparr>) (merge_free (release (p - 12) bs))"
    using kfree_inv[OF h blk(1)] by blast
  let ?bs = "merge_free (release (p - 12) bs)"
  have al: "\<forall>a k. (a, k, False) \<in> set ?bs \<longleftrightarrow> (a, k, False) \<in> set bs \<and> a \<noteq> p - 12"
    by (simp add: merge_free_allocated release_simps)
  note m = sched_of_more[OF kfree_more[OF f(1)]]
  have ne: "t - 12 \<noteq> p - 12" if "t \<in> set ts" for t using that blk(2) by auto
  have blks: "\<exists>k. (t - 12, k, False) \<in> set ?bs" if t: "t \<in> set ts" for t
  proof -
    obtain kt where "(t - 12, kt, False) \<in> set bs" using inv t by (auto simp: sched_inv_def)
    then show ?thesis using al ne[OF t] by blast
  qed
  have i: "pmm_inv s" "task_ring (tasks s) ts" "current_task s \<in> set ts" "task_count s = int (length ts)"
    using inv unfolding sched_inv_def by blast+
  have "sched_inv (s\<lparr>hdr := hd'\<rparr>) ?bs ts"
  proof (rule sched_invI)
    show "heap_inv (s\<lparr>hdr := hd'\<rparr>) ?bs" by (rule f(2))
    show "pmm_inv (s\<lparr>hdr := hd'\<rparr>)" using i(1) by simp
    show "task_ring (tasks (s\<lparr>hdr := hd'\<rparr>)) ts" "current_task (s\<lparr>hdr := hd'\<rparr>) \<in> set ts"
      "task_count (s\<lparr>hdr := hd'\<rparr>) = int (length ts)" using i by (simp_all only: m)
  qed (rule blks)
  then show ?thesis by (rule that[OF f(1) _ m(1) al])
qed

text \<open>Reaping takes the child out of the ring and gives its two heap blocks back.\<close>

lemma reap_ok:
  assumes inv: "sched_inv s bs (xs @ child # ys)" and cur: "current_task s \<in> set (xs @ ys)"
    and stk: "(t_kernel_stack_top (tasks s child) - STACK_SIZE - 12, k, False) \<in> set bs"
      "t_kernel_stack_top (tasks s child) - STACK_SIZE \<notin> set (xs @ child # ys)"
  obtains s' bs' where "reap child s = Some (t_exit_code (tasks s child), s')" "sched_inv s' bs' (xs @ ys)"
    "\<forall>a k. (a, k, False) \<in> set bs' \<longleftrightarrow> (a, k, False) \<in> set bs \<and> a \<noteq> child - 12 \<and>
       a \<noteq> t_kernel_stack_top (tasks s child) - STACK_SIZE - 12"
    "runnable s' = runnable s"
proof -
  let ?s1 = "unlink_task child s" and ?stk = "t_kernel_stack_top (tasks s child) - STACK_SIZE"
  let ?s2 = "if t_is_user (tasks ?s1 child) then pmm_free_frame (t_page_directory (tasks ?s1 child))
      (paging_free_address_space (t_page_directory (tasks ?s1 child)) ?s1) else ?s1"
  have "distinct (xs @ child # ys)" using inv by (simp add: sched_inv_def task_ring_def)
  then have out: "child \<notin> set (xs @ ys)" by simp
  have "xs @ ys \<noteq> []" using cur by auto
  then have "task_ring (tasks ?s1) (xs @ ys)" using unlink_task_ring inv unfolding sched_inv_def by blast
  then have i1: "sched_inv ?s1 bs (xs @ ys)" using inv cur by (auto simp: sched_inv_def)
  have "vm.more ?s2 = vm.more ?s1" "pmm_inv ?s2"
    using i1 by (auto simp: free_address_space_frame pmm_free_frame_inv sched_inv_def)
  note i2 = sched_inv_vm_more[OF i1 this]
  have ks: "t_kernel_stack_top (tasks ?s2 child) - STACK_SIZE = ?stk" unfolding i2(2) by simp
  obtain s3 bs3 where f3: "kfree ?stk ?s2 = Some s3" "sched_inv s3 bs3 (xs @ ys)" "tasks s3 = tasks ?s2"
    "\<forall>a k. (a, k, False) \<in> set bs3 \<longleftrightarrow> (a, k, False) \<in> set bs \<and> a \<noteq> ?stk - 12"
    using kfree_sched[OF i2(1) stk(1)] stk(2) by auto
  obtain kc where "(child - 12, kc, False) \<in> set bs" using inv by (auto simp: sched_inv_def)
  moreover have "child - 12 \<noteq> ?stk - 12" using stk(2) by auto
  ultimately have "(child - 12, kc, False) \<in> set bs3" using f3(4) by blast
  then obtain s4 bs4 where f4: "kfree child s3 = Some s4" "sched_inv s4 bs4 (xs @ ys)" "tasks s4 = tasks s3"
    "\<forall>a k. (a, k, False) \<in> set bs4 \<longleftrightarrow> (a, k, False) \<in> set bs3 \<and> a \<noteq> child - 12"
    using kfree_sched[OF f3(2) _ out] by metis
  have "reap child s = Some (t_exit_code (tasks s child), s4)"
    using f3(1) f4(1) ks unfolding reap_def Let_def by simp
  moreover have "runnable s4 = runnable s"
    using f4(3) f3(3) i2(2) by (simp add: runnable_def fun_eq_iff)
  ultimately show ?thesis using that f4(2,4) f3(4) by auto
qed

section \<open>Properties\<close>

text \<open>C13: round robin. With the tasks linked in the ring \<open>c # rest\<close> and \<open>c\<close> running, the next
  calls of \<open>schedule\<close> return and run the ready tasks of \<open>rest\<close> one after the other in ring order,
  so that every ready task runs within as many calls as there are ready tasks before it; when no
  other task is ready nothing changes.\<close>

theorem schedule_round_robin:
  assumes "task_ring (tasks s) (c # rest)" "current_task s = c" "scheduling_enabled s"
  shows "(\<forall>i<length (filter (runnable s) rest). \<exists>s'. schedules (Suc i) s = Some s' \<and>
      current_task s' = filter (runnable s) rest ! i) \<and>
    (filter (runnable s) rest = [] \<longrightarrow> schedule s = Some s)"
proof (intro conjI allI impI)
  fix i assume "i < length (filter (runnable s) rest)"
  then show "\<exists>s'. schedules (Suc i) s = Some s' \<and> current_task s' = filter (runnable s) rest ! i"
    by (rule schedules_nth[OF assms])
next
  assume "filter (runnable s) rest = []"
  then have "find (runnable s) rest = None" by (auto simp: find_None_iff filter_empty_conv)
  then show "schedule s = Some s" using schedule_ring[OF assms] by simp
qed

text \<open>A boot-time state without tasks, and one with three tasks, for the witnesses.\<close>

definition blank_task :: task where
  "blank_task = \<lparr>t_esp = 0, t_next = 0, t_prev = 0, t_id = 0, t_entry = 0, t_is_user = False,
     t_user_entry = 0, t_user_stack_top = 0, t_page_directory = 0, t_kernel_stack_top = 0,
     t_state = TASK_READY, t_parent = 0, t_exit_code = 0, t_use_input_redirect = False,
     t_input_queue = replicate 64 (CHR 0x00), t_input_head = 0, t_input_tail = 0, t_vga_redirect_buf = 0,
     t_vga_redirect_cols = 0, t_vga_redirect_rows = 0, t_vga_cursor_row = 0, t_vga_cursor_col = 0,
     t_vga_redirect_dirty = False\<rparr>"

definition boot_sched :: sched where
  "boot_sched = heap.extend boot_heap
     (sched.fields (\<lambda>_. blank_task) (\<lambda>_. 0) 0 0 True 0 0 0)"

definition trio :: sched where
  "trio = boot_sched\<lparr>current_task := 1, tasks := (\<lambda>a.
     if a = 1 then blank_task\<lparr>t_next := 2, t_prev := 3\<rparr>
     else if a = 2 then blank_task\<lparr>t_next := 3, t_prev := 1, t_parent := 1\<rparr>
     else blank_task\<lparr>t_next := 1, t_prev := 2\<rparr>)\<rparr>"

lemma trio_ring: "task_ring (tasks trio) [1, 2, 3]" "current_task trio = 1" "scheduling_enabled trio"
  by (simp_all add: trio_def task_ring_def boot_sched_def heap.defs sched.defs)

lemma trio_run: "runnable trio = (\<lambda>_. True)"
  by (simp add: runnable_def trio_def blank_task_def fun_eq_iff)

theorem schedule_round_robin_witness: "\<exists>s'. schedules 2 trio = Some s' \<and> current_task s' = 3"
  using conjunct1[OF schedule_round_robin[OF trio_ring], rule_format, of 1] by (simp add: trio_run numeral_2_eq_2)

lemma boot_sched_heap: "heap_inv boot_sched [(0x400000, 0x3FF4, True)]" "pmm_inv boot_sched" "heap_room 8 boot_sched"
proof -
  have eq: "hdr boot_sched = hdr boot_heap" "heap_head boot_sched = heap_head boot_heap"
    "heap_end boot_sched = heap_end boot_heap" "total_frames boot_sched = total_frames boot_heap"
    "used_frames boot_sched = used_frames boot_heap" "frame_bitmap boot_sched = frame_bitmap boot_heap"
    "frame_refcount boot_sched = frame_refcount boot_heap"
    by (simp_all add: boot_sched_def heap.defs)
  show "heap_inv boot_sched [(0x400000, 0x3FF4, True)]"
    using boot_heap_inv(1) unfolding heap_inv_def eq by auto
  show "pmm_inv boot_sched"
    using boot_heap_inv(2) unfolding pmm_inv_def counts_ok_def used_count_def bitmap_test_def eq by simp
  have "free_frames boot_heap = 32508"
    using heap_extend_n_ok[OF pre_heap_simps(1), of 4] pre_heap_simps(2)
    by (simp add: boot_heap_def heap_init_def heap_extend_def heap_consts Let_def)
  then have "free_frames boot_sched = 32508" unfolding free_frames_def bitmap_test_def eq by simp
  moreover have "unat (heap_end boot_sched) = 0x404000" using boot_heap_inv(1) by (auto simp: eq heap_inv_def)
  ultimately show "heap_room 8 boot_sched" by (simp add: heap_room_def)
qed

lemma task_init_ok:
  assumes h: "heap_inv s bs" "pmm_inv s" and room: "heap_room (1 + r) s"
  shows "\<exists>t s' bs'. task_init s = Some s' \<and> sched_inv s' bs' [t] \<and> current_task s' = t \<and> heap_room r s' \<and>
    runnable s' t \<and> t_id (tasks s' t) = next_task_id s \<and> scheduling_enabled s' = scheduling_enabled s"
proof -
  have n: "TASK_SIZE \<noteq> 0" "unat TASK_SIZE \<le> 0x2000000" by (simp_all add: TASK_SIZE_def)
  have p: "(unat (round4 TASK_SIZE) + 4107) div 4096 = 1" using pages_for_sizes(1) by (simp add: pages_for_def)
  obtain b k s1 bs' where r: "kmalloc TASK_SIZE s = Some (b + 12, s1)" "heap_inv s1 bs'" "pmm_inv s1"
    "(b, k, False) \<in> set bs'" "free_frames s - 1 \<le> free_frames s1"
    "unat (heap_end s1) \<le> unat (heap_end s) + 4096"
    by (rule kmalloc_cases[OF h n]) (use room in \<open>auto simp: heap_room_def p\<close>)
  have "unat b + 12 \<le> 0x4000000" "0x400000 \<le> unat b"
    using tiles_ge[of "0x400000" bs' "unat (heap_end s1)" b k False] r(2,4) by (auto simp: heap_inv_def)
  then have "unat (b + 12) = unat b + 12" by (subst unat_add_lt) auto
  then have t: "b + 12 \<noteq> 0" by auto
  have room': "heap_room r s1" using room r(5,6) by (auto simp: heap_room_def)
  note f = sched_of_more[OF kmalloc_more[OF r(1)]]
  obtain s' where s': "task_init s = Some s'" "current_task s' = b + 12" "task_count s' = 1"
    "heap_inv s' bs'" "pmm_inv s'" "heap_room r s'" "t_next (tasks s' (b + 12)) = b + 12"
    "t_prev (tasks s' (b + 12)) = b + 12" "runnable s' (b + 12)" "t_id (tasks s' (b + 12)) = next_task_id s"
    "scheduling_enabled s' = scheduling_enabled s"
  proof
    show "task_init s = Some ((upd_task (b + 12) (\<lambda>k. (fresh_fields (next_task_id s1) 0 k)\<lparr>t_is_user := False,
        t_next := b + 12, t_prev := b + 12, t_page_directory := paging_kernel_directory_phys s1,
        t_kernel_stack_top := 0\<rparr>) s1)\<lparr>next_task_id := next_task_id s1 + 1, current_task := b + 12, task_count := 1\<rparr>)"
      by (simp add: task_init_def r(1) Let_def)
  qed (use r(2,3) f room' in \<open>simp_all add: runnable_def fresh_fields_def upd_task_def heap_inv_def pmm_inv_def
      counts_ok_def used_count_def bitmap_test_def heap_room_def free_frames_def\<close>)
  moreover have "sched_inv s' bs' [b + 12]"
    using s' t r(4) by (auto simp: sched_inv_def task_ring_def)
  ultimately show ?thesis by blast
qed

definition boot_task :: sched where
  "boot_task = the (task_init boot_sched)"

lemma boot_task_ok:
  "\<exists>bs t. sched_inv boot_task bs [t] \<and> current_task boot_task = t \<and> heap_room 4 boot_task \<and> heap_room 7 boot_task \<and>
    t_id (tasks boot_task t) = 0 \<and> runnable boot_task t \<and> scheduling_enabled boot_task"
proof -
  have i: "next_task_id boot_sched = 0" "scheduling_enabled boot_sched"
    by (simp_all add: boot_sched_def heap.defs sched.defs)
  show ?thesis
    using task_init_ok[OF boot_sched_heap(1,2), of 7] boot_sched_heap(3) i heap_room_mono[of 7 boot_task 4]
    by (auto simp: boot_task_def)
qed

lemma task_create_ok:
  assumes "sched_inv s bs (c # rest)" "current_task s = c" "heap_room 4 s"
  shows "\<exists>t s' bs'. task_create trampoline func s = Some (t, s') \<and> sched_inv s' bs' (c # t # rest) \<and>
    t \<notin> set (c # rest) \<and> runnable s' t \<and> t_parent (tasks s' t) = c \<and> t_id (tasks s' t) = next_task_id s \<and>
    next_task_id s' = next_task_id s + 1 \<and> t_entry (tasks s' t) = func \<and> current_task s' = c \<and>
    load32 (kmem s') (t_esp (tasks s' t) + 16) = trampoline \<and>
    (\<forall>i\<in>{0, 4, 8, 12}. load32 (kmem s') (t_esp (tasks s' t) + i) = 0) \<and>
    (\<forall>u\<in>set (c # rest). runnable s' u = runnable s u) \<and>
    (\<exists>k. (t_kernel_stack_top (tasks s' t) - STACK_SIZE - 12, k, False) \<in> set bs') \<and>
    t_kernel_stack_top (tasks s' t) - STACK_SIZE \<notin> set (c # t # rest)"
proof -
  obtain t s1 bs1 where a: "task_alloc_common s = Some (t, s1)" "sched_inv s1 bs1 (c # t # rest)" "heap_room 3 s1"
    "t \<notin> set (c # rest)" "runnable s1 t" "t_parent (tasks s1 t) = c" "t_id (tasks s1 t) = next_task_id s"
    "next_task_id s1 = next_task_id s + 1" "current_task s1 = c" "\<forall>u\<in>set (c # rest). runnable s1 u = runnable s u"
    by (rule task_alloc_common_ok[OF assms(1,2), of 3]) (use assms(3) in auto)
  let ?s2 = "upd_task t (\<lambda>k. k\<lparr>t_is_user := False, t_entry := func,
                t_page_directory := paging_kernel_directory_phys s1\<rparr>) s1"
  have s2: "sched_inv ?s2 bs1 (c # t # rest)"
    by (rule sched_inv_cong[OF a(2)]) (use a(2) in \<open>auto simp: sched_inv_def\<close>)
  obtain sm k s3 bs3 where st: "kmalloc STACK_SIZE ?s2 = Some (sm, s3)"
    "sched_inv ((upd_task t (\<lambda>k. k\<lparr>t_kernel_stack_top := sm + STACK_SIZE, t_esp := sm + STACK_SIZE - 20\<rparr>) s3)
       \<lparr>kmem := push_switch_frame (sm + STACK_SIZE) trampoline (kmem s3)\<rparr>) bs3 (c # t # rest)"
    "(sm - 12, k, False) \<in> set bs3" "sm \<notin> set (c # t # rest)"
    "tasks s3 = tasks ?s2" "current_task s3 = current_task ?s2" "next_task_id s3 = next_task_id ?s2"
    "load32 (push_switch_frame (sm + STACK_SIZE) trampoline (kmem s3)) (sm + STACK_SIZE - 4) = trampoline"
    "\<forall>i\<in>{8, 12, 16, 20}. load32 (push_switch_frame (sm + STACK_SIZE) trampoline (kmem s3)) (sm + STACK_SIZE - i) = 0"
    by (rule add_stack_ok[OF s2]) (use a(3) in auto)
  let ?s' = "(upd_task t (\<lambda>k. k\<lparr>t_kernel_stack_top := sm + STACK_SIZE, t_esp := sm + STACK_SIZE - 20\<rparr>) s3)
       \<lparr>kmem := push_switch_frame (sm + STACK_SIZE) trampoline (kmem s3)\<rparr>"
  have res: "task_create trampoline func s = Some (t, ?s')"
    using a(1) st(1) by (simp add: task_create_def Let_def)
  have e: "sm + STACK_SIZE - 20 + 16 = sm + STACK_SIZE - 4" "sm + STACK_SIZE - 20 + 4 = sm + STACK_SIZE - 16"
    "sm + STACK_SIZE - 20 + 8 = sm + STACK_SIZE - 12" "sm + STACK_SIZE - 20 + 12 = sm + STACK_SIZE - 8"
    by (simp_all add: algebra_simps)
  have words: "load32 (kmem ?s') (t_esp (tasks ?s' t) + 16) = trampoline"
    "\<forall>i\<in>{0, 4, 8, 12}. load32 (kmem ?s') (t_esp (tasks ?s' t) + i) = 0"
    using st(8,9) by (simp_all add: e)
  have "runnable ?s' u = runnable s1 u" for u using st(5) by (simp add: runnable_def)
  then have run: "runnable ?s' t" "\<forall>u\<in>set (c # rest). runnable ?s' u = runnable s u" using a(5,10) by auto
  have "t_parent (tasks ?s' t) = c" "t_id (tasks ?s' t) = next_task_id s" "t_entry (tasks ?s' t) = func"
    "next_task_id ?s' = next_task_id s + 1" "current_task ?s' = c"
    using st(5-7) a by simp_all
  moreover have "(t_kernel_stack_top (tasks ?s' t) - STACK_SIZE - 12, k, False) \<in> set bs3"
    "t_kernel_stack_top (tasks ?s' t) - STACK_SIZE \<notin> set (c # t # rest)" using st(3,4) by simp_all
  ultimately show ?thesis using res st(2) a(4) words run by blast
qed

text \<open>\<open>task_create\<close>, with four pages available to the heap, returns a new task: a structure that
  was not allocated before, ready, with the next id, owned by its creator, linked into the ring
  right behind it, and a kernel stack whose top holds the five words from which \<open>context_switch\<close>
  starts \<open>task_trampoline\<close>; the other tasks keep their state and all invariants hold again.\<close>

theorem task_create_spec:
  assumes "sched_inv s bs (c # rest)" "current_task s = c" "heap_room 4 s"
  shows "\<exists>t s' bs'. task_create trampoline func s = Some (t, s') \<and> sched_inv s' bs' (c # t # rest) \<and>
    t \<notin> set (c # rest) \<and> runnable s' t \<and> t_parent (tasks s' t) = c \<and> t_id (tasks s' t) = next_task_id s \<and>
    next_task_id s' = next_task_id s + 1 \<and> t_entry (tasks s' t) = func \<and> current_task s' = c \<and>
    load32 (kmem s') (t_esp (tasks s' t) + 16) = trampoline \<and>
    (\<forall>i\<in>{0, 4, 8, 12}. load32 (kmem s') (t_esp (tasks s' t) + i) = 0) \<and>
    (\<forall>u\<in>set (c # rest). runnable s' u = runnable s u)"
  using task_create_ok[OF assms, of trampoline func] by blast

theorem task_create_spec_witness:
  "\<exists>t s'. task_create 0x1000 0x2000 boot_task = Some (t, s') \<and> runnable s' t \<and> t_id (tasks s' t) = next_task_id boot_task"
proof -
  obtain bs c where "sched_inv boot_task bs [c]" "current_task boot_task = c" "heap_room 4 boot_task"
    using boot_task_ok by blast
  from task_create_spec[OF this, where trampoline = "0x1000" and func = "0x2000"] show ?thesis by blast
qed

text \<open>C14: \<open>task_exit_current\<close>. With another task able to run, exiting makes the task a zombie with
  its exit code, wakes its parent if that is blocked, touches no other task's state, and switches to
  a runnable task; the dead task is never scheduled again.\<close>

theorem task_exit_spec:
  assumes ring: "task_ring (tasks s) (c # rest)" "current_task s = c" "scheduling_enabled s" "1 < task_count s"
    and other: "u \<in> set rest" "runnable s u \<or> (u = t_parent (tasks s c) \<and> t_state (tasks s u) = TASK_BLOCKED)"
  shows "\<exists>s'. task_exit_current code s = Some (Switched, s') \<and>
    t_state (tasks s' c) = TASK_ZOMBIE \<and> t_exit_code (tasks s' c) = code \<and>
    (\<forall>v. v \<noteq> c \<longrightarrow> t_state (tasks s' v) = (if v = t_parent (tasks s c) \<and> v \<noteq> 0 \<and>
       t_state (tasks s v) = TASK_BLOCKED then TASK_READY else t_state (tasks s v))) \<and>
    runnable s' (current_task s') \<and>
    (\<forall>n s''. schedules n s' = Some s'' \<longrightarrow> current_task s'' \<noteq> c)"
proof -
  let ?z = "make_zombie c code s"
  have ringz: "task_ring (tasks ?z) (c # rest)"
    using ring(1) task_ring_cong[of "c # rest" "tasks ?z" "tasks s"] by simp
  have "u \<noteq> c" "u \<noteq> 0" using ring(1) other(1) by (auto simp: task_ring_def)
  then have "runnable ?z u" using other(2) by (auto simp: runnable_def make_zombie_wakes)
  then obtain x where x: "find (runnable ?z) rest = Some x" "runnable ?z x"
    using other(1) by (cases "find (runnable ?z) rest") (auto simp: find_None_iff find_Some_iff)
  have "schedule ?z = Some (switch_to x ?z)"
    using schedule_ring[OF ringz] ring(2,3) x(1) by simp
  then have res: "task_exit_current code s = Some (Switched, switch_to x ?z)"
    using ring(2,4) by (simp add: task_exit_current_def Let_def)
  have run: "runnable (switch_to x ?z) = runnable ?z" by (simp add: runnable_def fun_eq_iff)
  have dead: "\<not> runnable ?z c" by (simp add: runnable_def)
  have "t_exit_code (tasks (switch_to x ?z) c) = code"
    by (simp add: switch_to_def Let_def upd_task_def paging_switch_directory_def)
  moreover have "current_task s'' \<noteq> c" if "schedules n (switch_to x ?z) = Some s''" for n s''
    using schedules_avoid[OF that] x(2) dead run by auto
  moreover have "runnable (switch_to x ?z) (current_task (switch_to x ?z))" using run x(2) by simp
  ultimately show ?thesis
    using res by (intro exI[of _ "switch_to x ?z"]) (simp add: make_zombie_wakes)
qed

theorem task_exit_spec_witness:
  "\<exists>s'. task_exit_current 7 (trio\<lparr>task_count := 3\<rparr>) = Some (Switched, s') \<and>
     t_exit_code (tasks s' 1) = 7 \<and> runnable s' (current_task s')"
proof -
  let ?s = "trio\<lparr>task_count := 3\<rparr>"
  have "runnable ?s 2" by (simp add: runnable_def trio_def blank_task_def)
  then show ?thesis
    using task_exit_spec[of ?s 1 "[2, 3]" 2 7] trio_ring by auto
qed

text \<open>Waiting for a child that is a zombie returns its exit code without blocking, takes it out of
  the ring and gives back exactly its structure and its kernel stack to the heap; waiting for one
  that is not blocks the caller and runs another task.\<close>

theorem task_wait_spec:
  assumes inv: "sched_inv s bs (c # xs @ child # ys)" and cur: "current_task s = c"
    and stk: "(t_kernel_stack_top (tasks s child) - STACK_SIZE - 12, k, False) \<in> set bs"
      "t_kernel_stack_top (tasks s child) - STACK_SIZE \<notin> set (c # xs @ child # ys)"
  shows "(t_state (tasks s child) = TASK_ZOMBIE \<longrightarrow>
      (\<exists>s' bs'. task_wait_specific child s = Some (Inr (t_exit_code (tasks s child)), s') \<and>
        sched_inv s' bs' (c # xs @ ys) \<and> runnable s' = runnable s \<and>
        (\<forall>a k. (a, k, False) \<in> set bs' \<longleftrightarrow> (a, k, False) \<in> set bs \<and> a \<noteq> child - 12 \<and>
          a \<noteq> t_kernel_stack_top (tasks s child) - STACK_SIZE - 12))) \<and>
    (t_state (tasks s child) \<noteq> TASK_ZOMBIE \<and> scheduling_enabled s \<and> (\<exists>u\<in>set (xs @ child # ys). runnable s u) \<longrightarrow>
      (\<exists>s'. task_wait_specific child s = Some (Inl (), s') \<and> t_state (tasks s' c) = TASK_BLOCKED \<and>
        runnable s' (current_task s')))"
proof (intro conjI impI)
  assume z: "t_state (tasks s child) = TASK_ZOMBIE"
  obtain s' bs' where r: "reap child s = Some (t_exit_code (tasks s child), s')" "sched_inv s' bs' ((c # xs) @ ys)"
    "\<forall>a k. (a, k, False) \<in> set bs' \<longleftrightarrow> (a, k, False) \<in> set bs \<and> a \<noteq> child - 12 \<and>
       a \<noteq> t_kernel_stack_top (tasks s child) - STACK_SIZE - 12" "runnable s' = runnable s"
    by (rule reap_ok[of s bs "c # xs" child ys k]) (use inv cur stk in auto)
  then show "\<exists>s' bs'. task_wait_specific child s = Some (Inr (t_exit_code (tasks s child)), s') \<and>
        sched_inv s' bs' (c # xs @ ys) \<and> runnable s' = runnable s \<and>
        (\<forall>a k. (a, k, False) \<in> set bs' \<longleftrightarrow> (a, k, False) \<in> set bs \<and> a \<noteq> child - 12 \<and>
          a \<noteq> t_kernel_stack_top (tasks s child) - STACK_SIZE - 12)"
    using z by (intro exI[of _ s'] exI[of _ bs']) (simp add: task_wait_specific_def)
next
  assume h: "t_state (tasks s child) \<noteq> TASK_ZOMBIE \<and> scheduling_enabled s \<and> (\<exists>u\<in>set (xs @ child # ys). runnable s u)"
  let ?b = "upd_task c (\<lambda>k. k\<lparr>t_state := TASK_BLOCKED\<rparr>) s" and ?rest = "xs @ child # ys"
  have ring: "task_ring (tasks s) (c # ?rest)" using inv by (simp add: sched_inv_def)
  then have "task_ring (tasks ?b) (c # ?rest)"
    using task_ring_cong[of "c # ?rest" "tasks ?b" "tasks s"] by simp
  moreover have "runnable ?b u" if "u \<in> set ?rest" "runnable s u" for u
    using ring that by (auto simp: task_ring_def runnable_def)
  then obtain x where x: "find (runnable ?b) ?rest = Some x" "runnable ?b x"
    using h by (cases "find (runnable ?b) ?rest") (auto simp: find_None_iff find_Some_iff)
  ultimately have "schedule ?b = Some (switch_to x ?b)"
    using schedule_ring[of ?b c ?rest] cur h by simp
  then have "task_wait_specific child s = Some (Inl (), switch_to x ?b)"
    using h cur by (simp add: task_wait_specific_def task_block_def)
  moreover have "runnable (switch_to x ?b) x" using x(2) by (simp add: runnable_def)
  ultimately show "\<exists>s'. task_wait_specific child s = Some (Inl (), s') \<and> t_state (tasks s' c) = TASK_BLOCKED \<and>
        runnable s' (current_task s')" by (intro exI[of _ "switch_to x ?b"]) simp
qed

theorem task_wait_spec_witness:
  "\<exists>t s s'. task_create 0x1000 0x2000 boot_task = Some (t, s) \<and>
     task_wait_specific t (make_zombie t 42 s) = Some (Inr 42, s')"
proof -
  obtain bs c where b: "sched_inv boot_task bs [c]" "current_task boot_task = c" "heap_room 4 boot_task"
    using boot_task_ok by blast
  obtain t s bs' k where t: "task_create 0x1000 0x2000 boot_task = Some (t, s)" "sched_inv s bs' [c, t]"
    "current_task s = c" "t_kernel_stack_top (tasks s t) - STACK_SIZE \<notin> set [c, t]"
    "(t_kernel_stack_top (tasks s t) - STACK_SIZE - 12, k, False) \<in> set bs'"
    using task_create_ok[OF b, of "0x1000" "0x2000"] by auto
  let ?z = "make_zombie t 42 s"
  have st: "t_kernel_stack_top (tasks ?z t) = t_kernel_stack_top (tasks s t)"
    by (simp add: make_zombie_def Let_def task_unblock_def)
  have h: "heap_inv s bs'" "pmm_inv s" using t(2) by (simp_all add: sched_inv_def)
  have z: "sched_inv ?z bs' ([c] @ t # [])"
    by (rule sched_inv_cong[of s]) (use t(2) h in \<open>simp_all add: make_zombie_def Let_def task_unblock_def\<close>)
  have "\<exists>s'. task_wait_specific t ?z = Some (Inr (t_exit_code (tasks ?z t)), s')"
    using task_wait_spec[of ?z bs' c "[]" t "[]" k] z t(3-5) st by auto
  then show ?thesis using t(1) by auto
qed

section \<open>The input queue of a task\<close>

definition input_inv :: "addr \<Rightarrow> 'a sched_scheme \<Rightarrow> bool" where
  "input_inv t s \<longleftrightarrow> t \<noteq> 0 \<and> current_task s = t \<and>
     ring_wf 64 (t_input_queue (tasks s t)) (t_input_head (tasks s t)) (t_input_tail (tasks s t))"

definition input_contents :: "addr \<Rightarrow> 'a sched_scheme \<Rightarrow> char list" where
  "input_contents t s =
     ring_contents 64 (t_input_queue (tasks s t)) (t_input_head (tasks s t)) (t_input_tail (tasks s t))"

lemma unblock_input [simp]:
  "t_input_queue (tasks (task_unblock t s) a) = t_input_queue (tasks s a)"
  "t_input_head (tasks (task_unblock t s) a) = t_input_head (tasks s a)"
  "t_input_tail (tasks (task_unblock t s) a) = t_input_tail (tasks s a)"
  "current_task (task_unblock t s) = current_task s"
  by (auto simp: task_unblock_def)

interpretation input_queue: bounded_fifo "input_inv t" "input_contents t" 63
  "\<lambda>c s. snd (task_push_input_char t c s)" task_current_input_getchar for t
proof unfold_locales
  fix s :: "'a sched_scheme" and c
  assume i: "input_inv t s"
  let ?q = "t_input_queue (tasks s t)" and ?h = "t_input_head (tasks s t)" and ?t = "t_input_tail (tasks s t)"
  have wf: "ring_wf 64 ?q ?h ?t" and cur: "current_task s = t" "t \<noteq> 0" using i by (simp_all add: input_inv_def)
  show "length (input_contents t s) \<le> 63"
    using ring_length_bound[OF wf] by (simp add: input_contents_def)
  show "input_inv t (snd (task_push_input_char t c s))"
    using wf cur by (auto simp: input_inv_def task_push_input_char_def Let_def TASK_INPUT_QUEUE_SIZE_def)
  show "input_contents t (snd (task_push_input_char t c s)) = take 63 (input_contents t s @ [c])"
    using ring_push[OF wf] ring_full_iff[OF wf] ring_length_bound[OF wf]
    by (auto simp: input_contents_def task_push_input_char_def Let_def TASK_INPUT_QUEUE_SIZE_def)
  assume ne: "input_contents t s \<noteq> []"
  then have ht: "?h \<noteq> ?t" using ring_empty_iff[OF wf] by (simp add: input_contents_def)
  show "input_inv t (snd (task_current_input_getchar s))"
    using wf cur ht by (simp add: input_inv_def task_current_input_getchar_def Let_def TASK_INPUT_QUEUE_SIZE_def)
  show "input_contents t s = fst (task_current_input_getchar s) # input_contents t (snd (task_current_input_getchar s))"
    using ring_pop[OF wf ht] cur ht
    by (simp add: input_contents_def task_current_input_getchar_def Let_def TASK_INPUT_QUEUE_SIZE_def)
qed

text \<open>Keystrokes pushed by the compositor into the queue of the running task are read back by
  it in order; the queue holds 63 characters and drops the rest.\<close>

theorem input_queue_fifo:
  assumes "input_inv t s"
  shows "fst (drain task_current_input_getchar (length (take 63 (input_contents t s @ cs)))
      (fold (\<lambda>c s. snd (task_push_input_char t c s)) cs s)) = take 63 (input_contents t s @ cs)"
  by (rule input_queue.fifo[OF assms])

theorem input_queue_fifo_witness:
  "fst (drain task_current_input_getchar 2
     (fold (\<lambda>c s. snd (task_push_input_char 1 c s)) ''hi'' trio)) = ''hi''"
proof -
  have "input_inv 1 trio" "input_contents 1 trio = []"
    by (simp_all add: input_inv_def input_contents_def trio_def blank_task_def ring_wf_def ring_contents_def)
  then show ?thesis using input_queue_fifo[of 1 trio "''hi''"] by (simp add: numeral_2_eq_2)
qed

text \<open>The wake-up of a waiting parent can be lost. If a timer tick switches to the child between
  the parent's test of the child's state and its \<open>task_block\<close>, and the child exits in that window,
  the parent then blocks although its child is a zombie, and with the ever-ready task \<open>q\<close> running
  it is never scheduled again.\<close>

theorem wait_lost_wakeup:
  assumes ring: "task_ring (tasks s) [p, c, q]" "current_task s = p" "scheduling_enabled s" "1 < task_count s"
    and ready: "runnable s p" "runnable s c" "runnable s q" and par: "t_parent (tasks s c) = p"
  shows "\<exists>s1 s2 s3 s4. schedule s = Some s1 \<and> current_task s1 = c \<and>
    task_exit_current code s1 = Some (Switched, s2) \<and> schedule s2 = Some s3 \<and> current_task s3 = p \<and>
    task_block s3 = Some s4 \<and> t_state (tasks s4 c) = TASK_ZOMBIE \<and> t_state (tasks s4 p) = TASK_BLOCKED \<and>
    (\<forall>n s'. schedules n s4 = Some s' \<longrightarrow> current_task s' \<noteq> p)"
proof -
  have d: "p \<noteq> c" "p \<noteq> q" "c \<noteq> q" "p \<noteq> 0" using ring(1) by (auto simp: task_ring_def)
  let ?s1 = "switch_to c s"
  have r1: "schedule s = Some ?s1" using schedule_ring[OF ring(1-3)] ready(2) by simp
  have ring1: "task_ring (tasks ?s1) [c, q, p]"
    using task_ring_rotate[of "tasks s" "[p]" "[c, q]"] ring(1) task_ring_cong[of "[c, q, p]" "tasks ?s1" "tasks s"] by simp
  let ?z = "make_zombie c code ?s1"
  have st: "t_state (tasks ?z q) = TASK_READY" "t_state (tasks ?z p) = TASK_READY"
    using ready d by (simp_all add: make_zombie_wakes runnable_def)
  have ringz: "task_ring (tasks ?z) [c, q, p]"
    using ring1 task_ring_cong[of "[c, q, p]" "tasks ?z" "tasks ?s1"] by simp
  let ?s2 = "switch_to q ?z"
  have cnt: "task_count ?s1 = task_count s" by (simp add: switch_to_def Let_def paging_switch_directory_def upd_task_def)
  have "schedule ?z = Some ?s2" using schedule_ring[OF ringz] ring(3) st(1) by (simp add: runnable_def)
  then have r2: "task_exit_current code ?s1 = Some (Switched, ?s2)"
    using ring(4) by (simp add: task_exit_current_def Let_def cnt)
  have ring2: "task_ring (tasks ?s2) [q, p, c]"
    using task_ring_rotate[of "tasks ?z" "[c]" "[q, p]"] ringz task_ring_cong[of "[q, p, c]" "tasks ?s2" "tasks ?z"] by simp
  let ?s3 = "switch_to p ?s2"
  have r3: "schedule ?s2 = Some ?s3" using schedule_ring[OF ring2] ring(3) st(2) by (simp add: runnable_def)
  let ?b = "upd_task p (\<lambda>k. k\<lparr>t_state := TASK_BLOCKED\<rparr>) ?s3"
  have ringb: "task_ring (tasks ?b) [p, c, q]"
    using task_ring_rotate[of "tasks ?s2" "[q]" "[p, c]"] ring2 task_ring_cong[of "[p, c, q]" "tasks ?b" "tasks ?s2"] by simp
  have run: "\<not> runnable ?b c" "runnable ?b q" "\<not> runnable ?b p" using st d by (simp_all add: runnable_def)
  let ?s4 = "switch_to q ?b"
  have r4: "task_block ?s3 = Some ?s4"
    using schedule_ring[OF ringb] run ring(3) by (simp add: task_block_def)
  have "runnable ?s4 = runnable ?b" by (simp add: runnable_def fun_eq_iff)
  then have "current_task s' \<noteq> p" if "schedules n ?s4 = Some s'" for n s'
    using schedules_avoid[OF that] run by auto
  then show ?thesis using r1 r2 r3 r4 d
    by (intro exI[of _ ?s1] exI[of _ ?s2] exI[of _ ?s3] exI[of _ ?s4]) simp
qed

theorem wait_lost_wakeup_witness:
  "\<exists>s1 s2 s3 s4. schedule (trio\<lparr>task_count := 3\<rparr>) = Some s1 \<and> current_task s1 = 2 \<and>
     task_exit_current 7 s1 = Some (Switched, s2) \<and> schedule s2 = Some s3 \<and> task_block s3 = Some s4 \<and>
     t_state (tasks s4 2) = TASK_ZOMBIE \<and> t_state (tasks s4 1) = TASK_BLOCKED"
proof -
  let ?s = "trio\<lparr>task_count := 3\<rparr>"
  have h: "task_ring (tasks ?s) [1, 2, 3]" "current_task ?s = 1" "scheduling_enabled ?s" "1 < task_count ?s"
    "runnable ?s 1" "runnable ?s 2" "runnable ?s 3" "t_parent (tasks ?s 2) = 1"
    using trio_ring by (simp_all add: trio_def runnable_def blank_task_def)
  show ?thesis using wait_lost_wakeup[OF h, of 7] by blast
qed

end
