(* ===== verification/Ata.thy ===== *)
theory Ata
  imports Prelude
begin

text \<open>
  \<open>kernel/ata.c\<close>: the polling driver of the primary master drive. The I/O ports are a parameter of
  the driver: what \<open>inb\<close>, \<open>outb\<close>, \<open>inw\<close> and \<open>outw\<close> do to the device behind them. Its buffers are
  lists of 16-bit words; a transfer that fails returns none (no caller looks at the buffer then).

  The second half writes down the drive the driver is written for, as the ATA standard describes
  PIO transfers with 28-bit addresses, and states what the driver achieves on it as the interface
  \<open>sector_store\<close> that the file system is proved against.
\<close>

record 'd ports =
  p_inb :: "u16 \<Rightarrow> 'd \<Rightarrow> u8 \<times> 'd"
  p_outb :: "u16 \<Rightarrow> u8 \<Rightarrow> 'd \<Rightarrow> 'd"
  p_inw :: "u16 \<Rightarrow> 'd \<Rightarrow> u16 \<times> 'd"
  p_outw :: "u16 \<Rightarrow> u16 \<Rightarrow> 'd \<Rightarrow> 'd"

definition ATA_DATA :: u16 where "ATA_DATA = 0x1F0"
definition ATA_SECCOUNT :: u16 where "ATA_SECCOUNT = 0x1F2"
definition ATA_LBA_LOW :: u16 where "ATA_LBA_LOW = 0x1F3"
definition ATA_LBA_MID :: u16 where "ATA_LBA_MID = 0x1F4"
definition ATA_LBA_HIGH :: u16 where "ATA_LBA_HIGH = 0x1F5"
definition ATA_DRIVE_HEAD :: u16 where "ATA_DRIVE_HEAD = 0x1F6"
definition ATA_STATUS :: u16 where "ATA_STATUS = 0x1F7"
definition ATA_COMMAND :: u16 where "ATA_COMMAND = 0x1F7"
definition ATA_CMD_READ_SECTORS :: u8 where "ATA_CMD_READ_SECTORS = 0x20"
definition ATA_CMD_WRITE_SECTORS :: u8 where "ATA_CMD_WRITE_SECTORS = 0x30"
definition ATA_CMD_IDENTIFY :: u8 where "ATA_CMD_IDENTIFY = 0xEC"
definition FAT16_PARTITION_LBA_OFFSET :: u32 where "FAT16_PARTITION_LBA_OFFSET = 2048"

lemmas ata_ports = ATA_DATA_def ATA_SECCOUNT_def ATA_LBA_LOW_def ATA_LBA_MID_def ATA_LBA_HIGH_def
  ATA_DRIVE_HEAD_def ATA_STATUS_def ATA_COMMAND_def
lemmas ata_commands = ATA_CMD_READ_SECTORS_def ATA_CMD_WRITE_SECTORS_def ATA_CMD_IDENTIFY_def

section \<open>The driver\<close>

definition ATA_SR_BSY :: u8 where "ATA_SR_BSY = 0x80"
definition ATA_SR_DRQ :: u8 where "ATA_SR_DRQ = 0x08"
definition ATA_SR_ERR :: u8 where "ATA_SR_ERR = 0x01"

definition status_has :: "u8 \<Rightarrow> u8 \<Rightarrow> bool" where
  "status_has st bits \<longleftrightarrow> and st bits \<noteq> 0"

definition ata_400ns_delay :: "'d ports \<Rightarrow> 'd \<Rightarrow> 'd" where
  "ata_400ns_delay P d = ((\<lambda>d. snd (p_inb P 0x3F6 d)) ^^ 4) d"

primrec wait_ready_loop :: "'d ports \<Rightarrow> nat \<Rightarrow> 'd \<Rightarrow> bool \<times> 'd" where
  "wait_ready_loop P 0 d = (False, d)"
| "wait_ready_loop P (Suc n) d =
     (let (status, d) = p_inb P ATA_STATUS d
      in if \<not> status_has status ATA_SR_BSY then (True, d) else wait_ready_loop P n d)"

definition ata_wait_ready :: "'d ports \<Rightarrow> 'd \<Rightarrow> bool \<times> 'd" where
  "ata_wait_ready P d = wait_ready_loop P 100000 d"

primrec wait_drq_loop :: "'d ports \<Rightarrow> nat \<Rightarrow> 'd \<Rightarrow> bool \<times> 'd" where
  "wait_drq_loop P 0 d = (False, d)"
| "wait_drq_loop P (Suc n) d =
     (let (status, d) = p_inb P ATA_STATUS d
      in if status_has status ATA_SR_ERR then (False, d)
         else if status_has status ATA_SR_DRQ then (True, d) else wait_drq_loop P n d)"

definition ata_wait_drq :: "'d ports \<Rightarrow> 'd \<Rightarrow> bool \<times> 'd" where
  "ata_wait_drq P d = wait_drq_loop P 100000 d"

primrec read_words :: "'d ports \<Rightarrow> nat \<Rightarrow> 'd \<Rightarrow> u16 list \<times> 'd" where
  "read_words P 0 d = ([], d)"
| "read_words P (Suc n) d =
     (let (w, d) = p_inw P ATA_DATA d; (ws, d) = read_words P n d in (w # ws, d))"

primrec write_words :: "'d ports \<Rightarrow> u16 list \<Rightarrow> 'd \<Rightarrow> 'd" where
  "write_words P [] d = d"
| "write_words P (w # ws) d = write_words P ws (p_outw P ATA_DATA w d)"

definition ata_identify :: "'d ports \<Rightarrow> 'd \<Rightarrow> bool \<times> 'd" where
  "ata_identify P d =
     (let d = ata_400ns_delay P (p_outb P ATA_DRIVE_HEAD 0xA0 d);
          d = p_outb P ATA_SECCOUNT 0 d;
          d = p_outb P ATA_LBA_LOW 0 d;
          d = p_outb P ATA_LBA_MID 0 d;
          d = p_outb P ATA_LBA_HIGH 0 d;
          d = p_outb P ATA_COMMAND ATA_CMD_IDENTIFY d;
          (status, d) = p_inb P ATA_STATUS d
      in if status = 0 then (False, d)
         else let (ready, d) = ata_wait_ready P d
         in if \<not> ready then (False, d)
         else let (drq, d) = ata_wait_drq P d
         in if \<not> drq then (False, d)
         else (True, snd (read_words P 256 d)))"

text \<open>The register writes that start a transfer.\<close>

definition ata_start :: "'d ports \<Rightarrow> u32 \<Rightarrow> u8 \<Rightarrow> u8 \<Rightarrow> 'd \<Rightarrow> 'd" where
  "ata_start P lba count cmd d =
     (let d = p_outb P ATA_DRIVE_HEAD (or 0xE0 (ucast (and (drop_bit 24 lba) 0x0F))) d;
          d = p_outb P ATA_SECCOUNT count d;
          d = p_outb P ATA_LBA_LOW (ucast (and lba 0xFF)) d;
          d = p_outb P ATA_LBA_MID (ucast (and (drop_bit 8 lba) 0xFF)) d;
          d = p_outb P ATA_LBA_HIGH (ucast (and (drop_bit 16 lba) 0xFF)) d
      in p_outb P ATA_COMMAND cmd d)"

text \<open>The sector loops, with the number of sectors still to transfer.\<close>

primrec read_loop :: "'d ports \<Rightarrow> nat \<Rightarrow> 'd \<Rightarrow> u16 list option \<times> 'd" where
  "read_loop P 0 d = (Some [], d)"
| "read_loop P (Suc n) d =
     (let (ready, d) = ata_wait_ready P d
      in if \<not> ready then (None, d)
      else let (drq, d) = ata_wait_drq P d
      in if \<not> drq then (None, d)
      else let (ws, d) = read_words P 256 d; (rest, d) = read_loop P n d
      in (map_option ((@) ws) rest, d))"

primrec write_loop :: "'d ports \<Rightarrow> nat \<Rightarrow> u16 list \<Rightarrow> 'd \<Rightarrow> bool \<times> 'd" where
  "write_loop P 0 buf d = (True, d)"
| "write_loop P (Suc n) buf d =
     (let (ready, d) = ata_wait_ready P d
      in if \<not> ready then (False, d)
      else let (drq, d) = ata_wait_drq P d
      in if \<not> drq then (False, d)
      else write_loop P n (drop 256 buf) (write_words P (take 256 buf) d))"

definition ata_read_sectors :: "'d ports \<Rightarrow> u32 \<Rightarrow> u8 \<Rightarrow> 'd \<Rightarrow> u16 list option \<times> 'd" where
  "ata_read_sectors P lba count d =
     (let (ready, d) = ata_wait_ready P d
      in if \<not> ready then (None, d)
      else read_loop P (unat count)
        (ata_start P (lba + FAT16_PARTITION_LBA_OFFSET) count ATA_CMD_READ_SECTORS d))"

definition ata_write_sectors :: "'d ports \<Rightarrow> u32 \<Rightarrow> u8 \<Rightarrow> u16 list \<Rightarrow> 'd \<Rightarrow> bool \<times> 'd" where
  "ata_write_sectors P lba count buf d =
     (let (ready, d) = ata_wait_ready P d
      in if \<not> ready then (False, d)
      else write_loop P (unat count) buf
        (ata_start P (lba + FAT16_PARTITION_LBA_OFFSET) count ATA_CMD_WRITE_SECTORS d))"

section \<open>The drive\<close>

text \<open>
  A present, working drive: it is never busy after a command, raises DRQ while it has words to give
  or to take, and keeps its sectors by their 28-bit address. \<open>d_left\<close> counts the words a write still
  takes; a full sector goes to \<open>d_next\<close>.
\<close>

record drive =
  d_head :: u8
  d_count :: u8
  d_low :: u8
  d_mid :: u8
  d_high :: u8
  d_in :: "u16 list"
  d_out :: "u16 list"
  d_left :: nat
  d_next :: nat
  d_sectors :: "nat \<Rightarrow> u16 list"

definition drive_lba :: "drive \<Rightarrow> nat" where
  "drive_lba d = unat (and (d_head d) 0x0F) * 2 ^ 24 + unat (d_high d) * 2 ^ 16
     + unat (d_mid d) * 2 ^ 8 + unat (d_low d)"

definition transfer_count :: "drive \<Rightarrow> nat" where
  "transfer_count d = (if d_count d = 0 then 256 else unat (d_count d))"

definition drive_status :: "drive \<Rightarrow> u8" where
  "drive_status d = (if d_in d \<noteq> [] \<or> 0 < d_left d then 0x48 else 0x40)"

definition drive_command :: "u8 \<Rightarrow> drive \<Rightarrow> drive" where
  "drive_command c d =
     (if c = ATA_CMD_READ_SECTORS then
        d\<lparr>d_in := concat (map (d_sectors d) [drive_lba d..<drive_lba d + transfer_count d]),
          d_out := [], d_left := 0\<rparr>
      else if c = ATA_CMD_WRITE_SECTORS then
        d\<lparr>d_in := [], d_out := [], d_left := 256 * transfer_count d, d_next := drive_lba d\<rparr>
      else if c = ATA_CMD_IDENTIFY then d\<lparr>d_in := replicate 256 0, d_out := [], d_left := 0\<rparr>
      else d)"

definition drive_ports :: "drive ports" where
  "drive_ports = \<lparr>
     p_inb = (\<lambda>port d. (if port = ATA_STATUS \<or> port = 0x3F6 then drive_status d else 0, d)),
     p_outb = (\<lambda>port v d.
       if port = ATA_DRIVE_HEAD then d\<lparr>d_head := v\<rparr>
       else if port = ATA_SECCOUNT then d\<lparr>d_count := v\<rparr>
       else if port = ATA_LBA_LOW then d\<lparr>d_low := v\<rparr>
       else if port = ATA_LBA_MID then d\<lparr>d_mid := v\<rparr>
       else if port = ATA_LBA_HIGH then d\<lparr>d_high := v\<rparr>
       else if port = ATA_COMMAND then drive_command v d else d),
     p_inw = (\<lambda>port d. if port = ATA_DATA \<and> d_in d \<noteq> []
       then (hd (d_in d), d\<lparr>d_in := tl (d_in d)\<rparr>) else (0, d)),
     p_outw = (\<lambda>port w d.
       if port = ATA_DATA \<and> 0 < d_left d then
         let out = d_out d @ [w]; d = d\<lparr>d_left := d_left d - 1\<rparr> in
         if length out = 256
         then d\<lparr>d_out := [], d_sectors := (d_sectors d)(d_next d := out), d_next := d_next d + 1\<rparr>
         else d\<lparr>d_out := out\<rparr>
       else d)\<rparr>"

text \<open>Sectors have 256 words. The sectors the file system sees start at the partition.\<close>

definition drive_ok :: "drive \<Rightarrow> bool" where
  "drive_ok d \<longleftrightarrow> (\<forall>i. length (d_sectors d i) = 256)"

definition fs_sectors :: "drive \<Rightarrow> nat \<Rightarrow> u16 list" where
  "fs_sectors d i = d_sectors d (i + 2048)"

definition FS_SECTORS :: nat where "FS_SECTORS = 2 ^ 28 - 2048"

section \<open>The interface of the file system\<close>

locale sector_store =
  fixes P :: "'d ports"
    and sec :: "'d \<Rightarrow> nat \<Rightarrow> u16 list"
    and ok :: "'d \<Rightarrow> bool"
    and capacity :: nat
  assumes capacity: "capacity \<le> 2 ^ 28"
    and length_sec: "ok d \<Longrightarrow> length (sec d i) = 256"
    and read_sectors: "ok d \<Longrightarrow> unat lba + unat count \<le> capacity \<Longrightarrow>
      \<exists>d'. ata_read_sectors P lba count d = (Some (concat (map (sec d) [unat lba..<unat lba + unat count])), d')
        \<and> ok d' \<and> sec d' = sec d"
    and write_sectors: "ok d \<Longrightarrow> unat lba + unat count \<le> capacity \<Longrightarrow> length buf = 256 * unat count \<Longrightarrow>
      \<exists>d'. ata_write_sectors P lba count buf d = (True, d') \<and> ok d'
        \<and> sec d' = (\<lambda>i. if unat lba \<le> i \<and> i < unat lba + unat count
                        then take 256 (drop (256 * (i - unat lba)) buf) else sec d i)"
begin

lemma read_one:
  assumes "ok d" "unat lba < capacity"
  obtains d' where "ata_read_sectors P lba 1 d = (Some (sec d (unat lba)), d')" "ok d'" "sec d' = sec d"
  using read_sectors [of d lba 1] assms by auto

lemma write_one:
  assumes "ok d" "unat lba < capacity" "length buf = 256"
  obtains d' where "ata_write_sectors P lba 1 buf d = (True, d')" "ok d'"
    "sec d' = (sec d)(unat lba := buf)"
proof -
  obtain d' where d': "ata_write_sectors P lba 1 buf d = (True, d')" "ok d'"
    "sec d' = (\<lambda>i. if unat lba \<le> i \<and> i < unat lba + 1 then take 256 (drop (256 * (i - unat lba)) buf) else sec d i)"
    using write_sectors [of d lba 1 buf] assms by auto
  moreover have "sec d' = (sec d)(unat lba := buf)"
    using assms(3) unfolding d'(3) by (intro ext) auto
  ultimately show ?thesis using that by blast
qed

end

section \<open>The driver on this drive\<close>

lemma drive_ports_simps [simp]:
  "p_inb drive_ports ATA_STATUS d = (drive_status d, d)"
  "p_outb drive_ports ATA_DRIVE_HEAD v d = d\<lparr>d_head := v\<rparr>"
  "p_outb drive_ports ATA_SECCOUNT v d = d\<lparr>d_count := v\<rparr>"
  "p_outb drive_ports ATA_LBA_LOW v d = d\<lparr>d_low := v\<rparr>"
  "p_outb drive_ports ATA_LBA_MID v d = d\<lparr>d_mid := v\<rparr>"
  "p_outb drive_ports ATA_LBA_HIGH v d = d\<lparr>d_high := v\<rparr>"
  "p_outb drive_ports ATA_COMMAND v d = drive_command v d"
  by (simp_all add: drive_ports_def ata_ports)

lemma status_simps [simp]:
  "\<not> status_has (drive_status d) ATA_SR_BSY"
  "\<not> status_has (drive_status d) ATA_SR_ERR"
  "status_has (drive_status d) ATA_SR_DRQ \<longleftrightarrow> d_in d \<noteq> [] \<or> 0 < d_left d"
  by (simp_all add: status_has_def drive_status_def ATA_SR_BSY_def ATA_SR_ERR_def ATA_SR_DRQ_def)

lemma drive_wait_loops:
  "wait_ready_loop drive_ports n d = (0 < n, d)"
  "d_in d \<noteq> [] \<or> 0 < d_left d \<Longrightarrow> wait_drq_loop drive_ports n d = (0 < n, d)"
  by (cases n; simp)+

lemma drive_ready [simp]: "ata_wait_ready drive_ports d = (True, d)"
  by (simp add: ata_wait_ready_def drive_wait_loops)

lemma drive_drq [simp]: "d_in d \<noteq> [] \<or> 0 < d_left d \<Longrightarrow> ata_wait_drq drive_ports d = (True, d)"
  by (simp add: ata_wait_drq_def drive_wait_loops)

lemma drive_read_words:
  "n \<le> length (d_in d) \<Longrightarrow>
   read_words drive_ports n d = (take n (d_in d), d\<lparr>d_in := drop n (d_in d)\<rparr>)"
proof (induction n arbitrary: d)
  case (Suc n)
  then obtain w ws where d: "d_in d = w # ws" by (cases "d_in d") auto
  then have "p_inw drive_ports ATA_DATA d = (w, d\<lparr>d_in := ws\<rparr>)"
    by (simp add: drive_ports_def)
  with Suc.IH [of "d\<lparr>d_in := ws\<rparr>"] Suc.prems d show ?case by simp
qed simp

lemma drive_read_loop:
  "length (d_in d) = 256 * n \<Longrightarrow> read_loop drive_ports n d = (Some (d_in d), d\<lparr>d_in := []\<rparr>)"
proof (induction n arbitrary: d)
  case (Suc n)
  then have "d_in d \<noteq> []" by auto
  moreover have "read_words drive_ports 256 d = (take 256 (d_in d), d\<lparr>d_in := drop 256 (d_in d)\<rparr>)"
    using Suc.prems by (intro drive_read_words) simp
  moreover have "read_loop drive_ports n (d\<lparr>d_in := drop 256 (d_in d)\<rparr>) =
      (Some (drop 256 (d_in d)), d\<lparr>d_in := []\<rparr>)"
    using Suc.IH [of "d\<lparr>d_in := drop 256 (d_in d)\<rparr>"] Suc.prems by simp
  ultimately show ?case by simp
qed simp

lemma base_256:
  fixes a b c u v y z :: nat
  assumes "y * 256 + a = v" "z * 256 + b = y" "u * 256 + c = z"
  shows "u * 16777216 + c * 65536 + b * 256 + a = v"
  unfolding assms [symmetric] by simp

lemma bytes_of_nat:
  "(x :: nat) div 16777216 * 16777216 + x div 65536 mod 256 * 65536 + x div 256 mod 256 * 256 + x mod 256 = x"
proof -
  have eqs: "x div 65536 = x div 256 div 256" "x div 16777216 = x div 256 div 256 div 256"
    using div_mult2_eq [of x 256 256] div_mult2_eq [of x 65536 256] by simp_all
  show ?thesis
    unfolding eqs by (rule base_256 [OF div_mult_mod_eq div_mult_mod_eq div_mult_mod_eq])
qed

text \<open>The registers hold the address as the driver split it.\<close>

lemma lba_split:
  fixes lba :: u32
  assumes "unat lba < 2 ^ 28"
  shows "unat (and (or 0xE0 (ucast (and (drop_bit 24 lba) 0x0F)) :: u8) 0x0F) * 2 ^ 24
    + unat (ucast (and (drop_bit 16 lba) 0xFF) :: u8) * 2 ^ 16
    + unat (ucast (and (drop_bit 8 lba) 0xFF) :: u8) * 2 ^ 8
    + unat (ucast (and lba 0xFF) :: u8) = unat lba"
proof -
  have byte: "unat (ucast (and w 0xFF) :: u8) = unat w mod 256" for w :: u32
  proof -
    have "and w 0xFF = take_bit 8 w" by (simp add: take_bit_eq_mask mask_numeral)
    then show ?thesis by (simp add: unsigned_ucast_eq take_bit_eq_mod unat_mod)
  qed
  have nibble: "unat (and (or 0xE0 (ucast (and w 0x0F)) :: u8) 0x0F) = unat w mod 16" for w :: u32
  proof -
    have "and (or 0xE0 (ucast (and w 0x0F)) :: u8) 0x0F = and (ucast (and w 0x0F)) 0x0F"
      by (simp add: bit.conj_disj_distrib2)
    also have "\<dots> = and (ucast w) 0x0F"
      by (rule bit_word_eqI) (auto simp: bit_simps)
    also have "\<dots> = take_bit 4 (ucast w :: u8)" by (simp add: take_bit_eq_mask mask_numeral)
    finally show ?thesis by (simp add: take_bit_eq_mod unat_mod unsigned_ucast_eq mod_mod_cancel)
  qed
  have shift: "unat (drop_bit 8 lba) = unat lba div 2 ^ 8" "unat (drop_bit 16 lba) = unat lba div 2 ^ 16"
    "unat (drop_bit 24 lba) = unat lba div 2 ^ 24"
    by (simp_all add: drop_bit_eq_div unat_div)
  have "unat lba div 2 ^ 24 mod 16 = unat lba div 2 ^ 24"
    using assms by simp
  then show ?thesis
    unfolding byte nibble shift using bytes_of_nat [of "unat lba"] by simp
qed

lemma drive_start:
  assumes "unat lba < 2 ^ 28"
  obtains d' where "ata_start drive_ports lba count cmd d = drive_command cmd d'"
    "drive_lba d' = unat lba" "d_count d' = count" "d_sectors d' = d_sectors d"
proof
  let ?d = "d\<lparr>d_head := or 0xE0 (ucast (and (drop_bit 24 lba) 0x0F)), d_count := count,
    d_low := ucast (and lba 0xFF), d_mid := ucast (and (drop_bit 8 lba) 0xFF),
    d_high := ucast (and (drop_bit 16 lba) 0xFF)\<rparr>"
  show "ata_start drive_ports lba count cmd d = drive_command cmd ?d"
    by (simp add: ata_start_def Let_def)
  show "drive_lba ?d = unat lba"
    using lba_split [OF assms] by (simp add: drive_lba_def)
qed simp_all

lemma partition_address:
  assumes "unat lba + n \<le> FS_SECTORS" "0 < n"
  shows "unat (lba + FAT16_PARTITION_LBA_OFFSET) = unat lba + 2048" "unat (lba + FAT16_PARTITION_LBA_OFFSET) < 2 ^ 28"
proof -
  show "unat (lba + FAT16_PARTITION_LBA_OFFSET) = unat lba + 2048"
    using assms by (simp add: FAT16_PARTITION_LBA_OFFSET_def FS_SECTORS_def unat_word_ariths)
  then show "unat (lba + FAT16_PARTITION_LBA_OFFSET) < 2 ^ 28"
    using assms by (simp add: FS_SECTORS_def)
qed

lemma length_concat_sectors:
  "\<forall>i. length (f i) = (256::nat) \<Longrightarrow> length (concat (map f xs)) = 256 * length xs"
  by (induction xs) auto

lemma drive_reads:
  assumes "drive_ok d" "unat lba + unat count \<le> FS_SECTORS"
  obtains d' where
    "ata_read_sectors drive_ports lba count d =
      (Some (concat (map (fs_sectors d) [unat lba..<unat lba + unat count])), d')"
    "d_sectors d' = d_sectors d"
proof (cases "count = 0")
  case True
  have "\<exists>d'. d' = ata_start drive_ports (lba + FAT16_PARTITION_LBA_OFFSET) count ATA_CMD_READ_SECTORS d \<and>
      d_sectors d' = d_sectors d"
    by (auto simp: ata_start_def Let_def drive_command_def)
  then show ?thesis using that True by (auto simp: ata_read_sectors_def)
next
  case False
  then have pos: "0 < unat count" by (simp add: unat_gt_0)
  from partition_address [OF assms(2) this] obtain d' where
    d': "ata_start drive_ports (lba + FAT16_PARTITION_LBA_OFFSET) count ATA_CMD_READ_SECTORS d =
        drive_command ATA_CMD_READ_SECTORS d'"
      "drive_lba d' = unat lba + 2048" "d_count d' = count" "d_sectors d' = d_sectors d"
    using drive_start by metis
  let ?ws = "concat (map (d_sectors d) [unat lba + 2048..<unat lba + 2048 + unat count])"
  have ws: "?ws = concat (map (fs_sectors d) [unat lba..<unat lba + unat count])"
    by (rule arg_cong [of _ _ concat], rule nth_equalityI) (auto simp: fs_sectors_def ac_simps)
  have "drive_command ATA_CMD_READ_SECTORS d' = d'\<lparr>d_in := ?ws, d_out := [], d_left := 0\<rparr>"
    using d' False by (simp add: drive_command_def transfer_count_def)
  moreover have "length ?ws = 256 * unat count"
    using assms(1) length_concat_sectors [of "d_sectors d"] by (simp add: drive_ok_def)
  ultimately show ?thesis
    using that [of "d'\<lparr>d_in := [], d_out := [], d_left := 0\<rparr>"] d' ws
    by (simp add: ata_read_sectors_def drive_read_loop)
qed

text \<open>Writing: words collect until a sector is full.\<close>

lemma drive_write_words:
  assumes "length (d_out d) + length ws \<le> 256" "length ws \<le> d_left d" "length (d_out d) < 256"
  shows "write_words drive_ports ws d =
    (if length (d_out d) + length ws = 256
     then d\<lparr>d_out := [], d_left := d_left d - length ws,
            d_sectors := (d_sectors d)(d_next d := d_out d @ ws), d_next := d_next d + 1\<rparr>
     else d\<lparr>d_out := d_out d @ ws, d_left := d_left d - length ws\<rparr>)"
  using assms
proof (induction ws arbitrary: d)
  case (Cons w ws)
  show ?case
  proof (cases ws)
    case Nil
    with Cons.prems show ?thesis
      by (simp add: drive_ports_def Let_def)
  next
    case (Cons v vs)
    let ?d = "d\<lparr>d_out := d_out d @ [w], d_left := d_left d - 1\<rparr>"
    have "p_outw drive_ports ATA_DATA w d = ?d"
      using Cons \<open>length (d_out d) + length (w # ws) \<le> 256\<close> \<open>length (w # ws) \<le> d_left d\<close>
      by (simp add: drive_ports_def Let_def)
    with Cons.IH [of ?d] Cons.prems Cons show ?thesis by simp
  qed
qed simp

definition put_sectors :: "nat \<Rightarrow> nat \<Rightarrow> 'w list \<Rightarrow> (nat \<Rightarrow> 'w list) \<Rightarrow> nat \<Rightarrow> 'w list" where
  "put_sectors a n buf f i = (if a \<le> i \<and> i < a + n then take 256 (drop (256 * (i - a)) buf) else f i)"

lemma put_sectors_Suc:
  "put_sectors (a + 1) n (drop 256 buf) (f(a := take 256 buf)) = put_sectors a (Suc n) buf f"
proof
  fix i
  show "put_sectors (a + 1) n (drop 256 buf) (f(a := take 256 buf)) i = put_sectors a (Suc n) buf f i"
  proof (cases "a < i")
    case True
    then have "256 * (i - a) = 256 + 256 * (i - (a + 1))" by simp
    then show ?thesis using True by (simp add: put_sectors_def ac_simps)
  qed (auto simp: put_sectors_def)
qed

lemma put_no_sectors [simp]: "put_sectors a 0 buf f = f"
  by (auto simp: put_sectors_def fun_eq_iff)

lemma drive_write_loop:
  assumes "length buf = 256 * n" "d_left d = 256 * n" "d_out d = []"
  shows "\<exists>d'. write_loop drive_ports n buf d = (True, d') \<and>
    d_sectors d' = put_sectors (d_next d) n buf (d_sectors d)"
  using assms
proof (induction n arbitrary: buf d)
  case 0
  then show ?case by simp
next
  case (Suc n)
  let ?d = "d\<lparr>d_out := [], d_left := 256 * n, d_sectors := (d_sectors d)(d_next d := take 256 buf),
    d_next := d_next d + 1\<rparr>"
  have "write_words drive_ports (take 256 buf) d = ?d"
    using Suc.prems drive_write_words [of d "take 256 buf"] by simp
  moreover have "\<exists>d'. write_loop drive_ports n (drop 256 buf) ?d = (True, d') \<and>
      d_sectors d' = put_sectors (d_next ?d) n (drop 256 buf) (d_sectors ?d)"
    using Suc.prems by (intro Suc.IH) auto
  then obtain d' where "write_loop drive_ports n (drop 256 buf) ?d = (True, d')"
    "d_sectors d' = put_sectors (d_next ?d) n (drop 256 buf) (d_sectors ?d)" by blast
  ultimately show ?case
    using Suc.prems put_sectors_Suc [of "d_next d" n buf "d_sectors d"] by simp
qed

lemma drive_writes:
  assumes "unat lba + unat count \<le> FS_SECTORS" "length buf = 256 * unat count"
  obtains d' where "ata_write_sectors drive_ports lba count buf d = (True, d')"
    "d_sectors d' = put_sectors (unat lba + 2048) (unat count) buf (d_sectors d)"
proof (cases "count = 0")
  case True
  have "\<exists>d'. d' = ata_start drive_ports (lba + FAT16_PARTITION_LBA_OFFSET) count ATA_CMD_WRITE_SECTORS d \<and>
      d_sectors d' = d_sectors d"
    by (auto simp: ata_start_def Let_def drive_command_def ATA_CMD_WRITE_SECTORS_def ATA_CMD_READ_SECTORS_def)
  then show ?thesis using that True by (auto simp: ata_write_sectors_def)
next
  case False
  then have pos: "0 < unat count" by (simp add: unat_gt_0)
  from partition_address [OF assms(1) this] obtain d' where
    d': "ata_start drive_ports (lba + FAT16_PARTITION_LBA_OFFSET) count ATA_CMD_WRITE_SECTORS d =
        drive_command ATA_CMD_WRITE_SECTORS d'"
      "drive_lba d' = unat lba + 2048" "d_count d' = count" "d_sectors d' = d_sectors d"
    using drive_start by metis
  let ?d = "d'\<lparr>d_in := [], d_out := [], d_left := 256 * unat count, d_next := unat lba + 2048\<rparr>"
  have "drive_command ATA_CMD_WRITE_SECTORS d' = ?d"
    using d' False
    by (simp add: drive_command_def transfer_count_def ATA_CMD_WRITE_SECTORS_def ATA_CMD_READ_SECTORS_def)
  with drive_write_loop [OF assms(2), of ?d] d' that show ?thesis
    by (auto simp: ata_write_sectors_def)
qed

lemma fs_sectors_put:
  "d_sectors d' = put_sectors (a + 2048) n buf (d_sectors d) \<Longrightarrow>
   fs_sectors d' = put_sectors a n buf (fs_sectors d)"
  by (auto simp: fs_sectors_def put_sectors_def fun_eq_iff)

lemma drive_ok_put:
  assumes "drive_ok d" "d_sectors d' = put_sectors a n buf (d_sectors d)" "length buf = 256 * n"
  shows "drive_ok d'"
  unfolding drive_ok_def
proof
  fix i
  have "256 \<le> 256 * n - 256 * (i - a)" if "a \<le> i" "i < a + n"
    using that by (auto simp flip: diff_mult_distrib2)
  then show "length (d_sectors d' i) = 256"
    using assms by (auto simp: drive_ok_def put_sectors_def)
qed

interpretation disk: sector_store drive_ports fs_sectors drive_ok FS_SECTORS
proof
  show "FS_SECTORS \<le> 2 ^ 28" by (simp add: FS_SECTORS_def)
next
  fix d :: drive and lba :: u32 and count :: u8 and buf :: "u16 list" and i
  assume ok: "drive_ok d"
  then show "length (fs_sectors d i) = 256" by (simp add: fs_sectors_def drive_ok_def)
  assume bound: "unat lba + unat count \<le> FS_SECTORS"
  obtain d' where "ata_read_sectors drive_ports lba count d =
      (Some (concat (map (fs_sectors d) [unat lba..<unat lba + unat count])), d')" "d_sectors d' = d_sectors d"
    using drive_reads [OF ok bound] .
  then show "\<exists>d'. ata_read_sectors drive_ports lba count d =
        (Some (concat (map (fs_sectors d) [unat lba..<unat lba + unat count])), d')
      \<and> drive_ok d' \<and> fs_sectors d' = fs_sectors d"
    using ok by (auto simp: drive_ok_def fs_sectors_def fun_eq_iff)
  assume len: "length buf = 256 * unat count"
  obtain d' where d': "ata_write_sectors drive_ports lba count buf d = (True, d')"
    "d_sectors d' = put_sectors (unat lba + 2048) (unat count) buf (d_sectors d)"
    using drive_writes [OF bound len] .
  then show "\<exists>d'. ata_write_sectors drive_ports lba count buf d = (True, d') \<and> drive_ok d'
      \<and> fs_sectors d' = (\<lambda>i. if unat lba \<le> i \<and> i < unat lba + unat count
                             then take 256 (drop (256 * (i - unat lba)) buf) else fs_sectors d i)"
    using fs_sectors_put [OF d'(2)] drive_ok_put [OF ok d'(2) len] by (auto simp: put_sectors_def fun_eq_iff)
qed

lemma concat_chunks:
  "concat (map (\<lambda>i. take 256 (drop (256 * (i - a)) buf)) [a..<a + k]) = take (256 * k) buf"
proof (induction k)
  case (Suc k)
  have "take (256 * Suc k) buf = take (256 * k) buf @ take 256 (drop (256 * k) buf)"
    using take_add [of "256 * k" 256 buf] by (simp add: add.commute)
  with Suc show ?case by simp
qed simp

text \<open>C19: on a working drive, writing sectors of the partition and reading them back returns the
  words written; every other sector of the disk, the boot loader and kernel before the partition
  included, keeps its contents.\<close>

theorem ata_write_read:
  assumes "drive_ok d" "unat lba + unat count \<le> FS_SECTORS" "length buf = 256 * unat count"
  shows "\<exists>d1 d2. ata_write_sectors drive_ports lba count buf d = (True, d1) \<and>
    ata_read_sectors drive_ports lba count d1 = (Some buf, d2) \<and>
    (\<forall>i. i < unat lba + 2048 \<or> unat lba + 2048 + unat count \<le> i \<longrightarrow> d_sectors d2 i = d_sectors d i)"
proof -
  obtain d1 where d1: "ata_write_sectors drive_ports lba count buf d = (True, d1)"
    "d_sectors d1 = put_sectors (unat lba + 2048) (unat count) buf (d_sectors d)"
    using drive_writes [OF assms(2,3)] .
  have ok1: "drive_ok d1" by (rule drive_ok_put [OF assms(1) d1(2) assms(3)])
  obtain d2 where d2: "ata_read_sectors drive_ports lba count d1 =
      (Some (concat (map (fs_sectors d1) [unat lba..<unat lba + unat count])), d2)" "d_sectors d2 = d_sectors d1"
    using drive_reads [OF ok1 assms(2)] .
  have "map (fs_sectors d1) [unat lba..<unat lba + unat count] =
      map (\<lambda>i. take 256 (drop (256 * (i - unat lba)) buf)) [unat lba..<unat lba + unat count]"
    unfolding fs_sectors_put [OF d1(2)] by (auto simp: put_sectors_def)
  then have "ata_read_sectors drive_ports lba count d1 = (Some buf, d2)"
    using d2(1) concat_chunks [of "unat lba" buf "unat count"] assms(3) by (simp only: take_all order.refl)
  with d1 d2 show ?thesis by (auto simp: put_sectors_def)
qed

definition blank_drive :: drive where
  "blank_drive = \<lparr>d_head = 0, d_count = 0, d_low = 0, d_mid = 0, d_high = 0, d_in = [], d_out = [],
     d_left = 0, d_next = 0, d_sectors = (\<lambda>_. replicate 256 0)\<rparr>"

lemma ata_write_read_witness:
  "\<exists>d1 d2. ata_write_sectors drive_ports 70000 2 (replicate 512 0xABCD) blank_drive = (True, d1) \<and>
    ata_read_sectors drive_ports 70000 2 d1 = (Some (replicate 512 0xABCD), d2) \<and>
    (\<forall>i. i < 72048 \<or> 72050 \<le> i \<longrightarrow> d_sectors d2 i = d_sectors blank_drive i)"
  using ata_write_read [of blank_drive 70000 2 "replicate 512 0xABCD"]
  by (simp add: drive_ok_def blank_drive_def FS_SECTORS_def)

end
