(* ===== verification/Timer.thy ===== *)
theory Timer
  imports Task Ata
begin

text \<open>
  \<open>kernel/timer.c\<close>: the tick count of the programmable interval timer, the heartbeat it writes to the
  log, and its interrupt handler, which calls the scheduler.
\<close>

record timed = sched +
  tick :: u32

text \<open>The heartbeat of the log, once every hundred ticks: \<open>n\<close> in decimal in front of \<open>buf\<close>.\<close>

fun tick_digits :: "nat \<Rightarrow> u8 list \<Rightarrow> u8 list" where
  "tick_digits n buf = (if 0 < n then tick_digits (n div 10) (of_nat (0x30 + n mod 10) # buf) else buf)"

declare tick_digits.simps [simp del]

definition heartbeat :: "u32 \<Rightarrow> u8 list" where
  "heartbeat n =
     (if n mod 100 = 0 then text_bytes ''[serial] timer tick: '' @
        (if n = 0 then [0x30] else tick_digits (unat n) []) @ [0x0A] else [])"

definition timer_callback :: "'a timed_scheme \<Rightarrow> (u8 list \<times> 'a timed_scheme) option" where
  "timer_callback s =
     (let s = s\<lparr>tick := tick s + 1\<rparr> in map_option (Pair (heartbeat (tick s))) (schedule s))"

text \<open>A frequency of 0 divides by zero.\<close>

definition timer_init :: "('d, 'm) ports_scheme \<Rightarrow> u32 \<Rightarrow> 'd \<Rightarrow> 'd option" where
  "timer_init P freq_hz d =
     (if freq_hz = 0 then None
      else let divisor = 1193180 div freq_hz
        in Some (p_outb P 0x40 (ucast (drop_bit 8 divisor AND 0xFF))
             (p_outb P 0x40 (ucast (divisor AND 0xFF)) (p_outb P 0x43 0x36 d))))"

definition timer_ticks :: "'a timed_scheme \<Rightarrow> u32" where "timer_ticks s = tick s"

text \<open>The heartbeat is the decimal number.\<close>

lemma tick_digits_append: "tick_digits n buf = tick_digits n [] @ buf"
proof (induction n arbitrary: buf rule: less_induct)
  case (less n)
  show ?case
  proof (cases "0 < n")
    case True
    then have u: "tick_digits n b = tick_digits (n div 10) (of_nat (0x30 + n mod 10) # b)" for b
      by (subst tick_digits.simps) simp
    have "n div 10 < n" using True by simp
    then show ?thesis
      unfolding u [of buf] u [of "[]"]
      by (subst (1 2) less) simp_all
  qed (simp add: tick_digits.simps)
qed

lemma tick_digits_value: "foldl (\<lambda>a c. 10 * a + (unat c - 0x30)) 0 (tick_digits n []) = n"
proof (induction n rule: less_induct)
  case (less n)
  show ?case
  proof (cases "0 < n")
    case True
    define c where "c = (of_nat (0x30 + n mod 10) :: u8)"
    have "n mod 10 < 10" by simp
    then have c: "unat c = 0x30 + n mod 10" unfolding c_def unat_of_nat by (intro mod_less) simp
    have "tick_digits n [] = tick_digits (n div 10) [c]"
      using True unfolding c_def by (subst tick_digits.simps) simp
    also have "\<dots> = tick_digits (n div 10) [] @ [c]" by (rule tick_digits_append)
    finally have "foldl (\<lambda>a c. 10 * a + (unat c - 0x30)) 0 (tick_digits n []) = 10 * (n div 10) + n mod 10"
      using less [of "n div 10"] True c by (simp only: foldl_append foldl.simps)
    then show ?thesis by simp
  qed (simp add: tick_digits.simps)
qed

end
