(* ===== verification/Keyboard.thy ===== *)
theory Keyboard
  imports Timer
begin

text \<open>
  \<open>kernel/keyboard.c\<close>: the PS/2 keyboard interrupt handler, which decodes scancodes and fills a ring
  buffer, and the blocking read. The byte read from port \<open>0x60\<close> is an argument of the handler.
  \<open>keyboard_getchar\<close> executes \<open>hlt\<close> until a character is there; \<open>None\<close> is that wait.
\<close>

record kbd = timed +
  kb_buffer :: "char list"
  kb_head :: nat
  kb_tail :: nat
  shift_held :: bool

definition KB_BUF_SIZE :: nat where "KB_BUF_SIZE = 256"
definition SC_LSHIFT :: u8 where "SC_LSHIFT = 0x2A"
definition SC_RSHIFT :: u8 where "SC_RSHIFT = 0x36"

definition scancode_ascii :: "char list" where
  "scancode_ascii =
     [CHR 0x00, CHR 0x1B] @ ''1234567890-='' @ [CHR 0x08, CHR 0x09] @ ''qwertyuiop[]'' @ [CHR 0x0A] @
     [CHR 0x00] @ ''asdfghjkl;'' @ [CHR 0x27, CHR 0x60] @ [CHR 0x00, CHR 0x5C] @ ''zxcvbnm,./'' @ [CHR 0x00] @
     [CHR ''*'', CHR 0x00, CHR '' '', CHR 0x00] @ replicate 69 (CHR 0x00)"

definition scancode_ascii_shift :: "char list" where
  "scancode_ascii_shift =
     [CHR 0x00, CHR 0x1B] @ ''!@#$%^&*()_+'' @ [CHR 0x08, CHR 0x09] @ ''QWERTYUIOP{}'' @ [CHR 0x0A] @
     [CHR 0x00] @ ''ASDFGHJKL:'' @ [CHR 0x22, CHR ''~''] @ [CHR 0x00, CHR ''|''] @ ''ZXCVBNM<>?'' @ [CHR 0x00] @
     [CHR ''*'', CHR 0x00, CHR '' '', CHR 0x00] @ replicate 69 (CHR 0x00)"

section \<open>Operations\<close>

definition kb_buffer_push :: "char \<Rightarrow> 'a kbd_scheme \<Rightarrow> 'a kbd_scheme" where
  "kb_buffer_push c s =
     (let nxt = (kb_head s + 1) mod KB_BUF_SIZE in
      if nxt = kb_tail s then s else s\<lparr>kb_buffer := (kb_buffer s)[kb_head s := c], kb_head := nxt\<rparr>)"

definition keyboard_callback :: "u8 \<Rightarrow> 'a kbd_scheme \<Rightarrow> 'a kbd_scheme" where
  "keyboard_callback scancode s =
     (let released = scancode AND 0x80 \<noteq> 0; code = scancode AND 0x7F in
      if code = SC_LSHIFT \<or> code = SC_RSHIFT then s\<lparr>shift_held := \<not> released\<rparr>
      else if released then s
      else if code < 128 then
        let c = (if shift_held s then scancode_ascii_shift else scancode_ascii) ! unat code
        in if c \<noteq> CHR 0x00 then kb_buffer_push c s else s
      else s)"

definition keyboard_has_char :: "'a kbd_scheme \<Rightarrow> bool" where
  "keyboard_has_char s =
     (if task_current_uses_input_redirect s then task_current_input_has_char s else kb_head s \<noteq> kb_tail s)"

text \<open>Reading one character of the global buffer.\<close>

definition kb_buffer_pop :: "'a kbd_scheme \<Rightarrow> char \<times> 'a kbd_scheme" where
  "kb_buffer_pop s = (kb_buffer s ! kb_tail s, s\<lparr>kb_tail := (kb_tail s + 1) mod KB_BUF_SIZE\<rparr>)"

definition keyboard_getchar :: "'a kbd_scheme \<Rightarrow> (char \<times> 'a kbd_scheme) option" where
  "keyboard_getchar s =
     (if task_current_uses_input_redirect s
      then if task_current_input_has_char s then Some (task_current_input_getchar s) else None
      else if kb_head s = kb_tail s then None else Some (kb_buffer_pop s))"

section \<open>The buffer is a bounded queue\<close>

definition kb_inv :: "'a kbd_scheme \<Rightarrow> bool" where
  "kb_inv s \<longleftrightarrow> ring_wf 256 (kb_buffer s) (kb_head s) (kb_tail s)"

definition kb_contents :: "'a kbd_scheme \<Rightarrow> char list" where
  "kb_contents s = ring_contents 256 (kb_buffer s) (kb_head s) (kb_tail s)"

interpretation kb_queue: bounded_fifo kb_inv kb_contents 255 kb_buffer_push kb_buffer_pop
proof unfold_locales
  fix s :: "'a kbd_scheme" and c
  assume i: "kb_inv s"
  then have wf: "ring_wf 256 (kb_buffer s) (kb_head s) (kb_tail s)" by (simp add: kb_inv_def)
  show "length (kb_contents s) \<le> 255"
    using ring_length_bound[OF wf] by (simp add: kb_contents_def)
  show "kb_inv (kb_buffer_push c s)"
    using wf by (simp add: kb_inv_def kb_buffer_push_def Let_def KB_BUF_SIZE_def)
  show "kb_contents (kb_buffer_push c s) = take 255 (kb_contents s @ [c])"
    using ring_push[OF wf] ring_full_iff[OF wf] ring_length_bound[OF wf]
    by (auto simp: kb_contents_def kb_buffer_push_def Let_def KB_BUF_SIZE_def)
  assume ne: "kb_contents s \<noteq> []"
  then have ht: "kb_head s \<noteq> kb_tail s" using ring_empty_iff[OF wf] by (simp add: kb_contents_def)
  show "kb_inv (snd (kb_buffer_pop s))"
    using wf by (simp add: kb_inv_def kb_buffer_pop_def KB_BUF_SIZE_def)
  show "kb_contents s = fst (kb_buffer_pop s) # kb_contents (snd (kb_buffer_pop s))"
    using ring_pop[OF wf ht] by (simp add: kb_contents_def kb_buffer_pop_def KB_BUF_SIZE_def)
qed

section \<open>Decoding\<close>

text \<open>What a sequence of scancodes types, given whether shift is held at its start.\<close>

fun typed :: "bool \<Rightarrow> u8 list \<Rightarrow> char list" where
  "typed shift [] = []"
| "typed shift (sc # scs) =
     (if sc AND 0x7F = 0x2A \<or> sc AND 0x7F = 0x36 then typed (sc AND 0x80 = 0) scs
      else if sc AND 0x80 \<noteq> 0 then typed shift scs
      else let c = (if shift then scancode_ascii_shift else scancode_ascii) ! unat (sc AND 0x7F)
           in if c = CHR 0x00 then typed shift scs else c # typed shift scs)"

lemma tables_length [simp]: "length scancode_ascii = 128" "length scancode_ascii_shift = 128"
  by (simp_all add: scancode_ascii_def scancode_ascii_shift_def)

lemma code_bound: "(sc :: u8) AND 0x7F < 128"
proof -
  have m: "(0x7F :: u8) = mask 7" by (simp add: mask_eq_exp_minus_1)
  have "unat (sc AND 0x7F) = unat sc mod 128"
    unfolding m by (simp flip: take_bit_eq_mask) (simp add: take_bit_eq_mod unat_mod)
  then show ?thesis by (simp add: word_less_nat_alt)
qed

lemma keyboard_callback_typed:
  assumes "kb_inv s"
  shows "kb_inv (keyboard_callback sc s) \<and> kb_contents (keyboard_callback sc s) =
      take 255 (kb_contents s @ typed (shift_held s) [sc]) \<and>
    (\<forall>scs. typed (shift_held s) (sc # scs) = typed (shift_held s) [sc] @ typed (shift_held (keyboard_callback sc s)) scs)"
proof -
  have sh: "shift_held (kb_buffer_push c t) = shift_held t" for c and t :: "'a kbd_scheme"
    by (simp add: kb_buffer_push_def Let_def)
  have upd: "kb_inv (s\<lparr>shift_held := b\<rparr>) = kb_inv s" "kb_contents (s\<lparr>shift_held := b\<rparr>) = kb_contents s" for b
    by (simp_all add: kb_inv_def kb_contents_def)
  have full: "take 255 (kb_contents s) = kb_contents s" using kb_queue.bounded[OF assms] by simp
  let ?c = "(if shift_held s then scancode_ascii_shift else scancode_ascii) ! unat (sc AND 0x7F)"
  consider (shift) "sc AND 0x7F = 0x2A \<or> sc AND 0x7F = 0x36"
    | (released) "\<not> (sc AND 0x7F = 0x2A \<or> sc AND 0x7F = 0x36)" "sc AND 0x80 \<noteq> 0"
    | (none) "\<not> (sc AND 0x7F = 0x2A \<or> sc AND 0x7F = 0x36)" "sc AND 0x80 = 0" "?c = CHR 0x00"
    | (char) "\<not> (sc AND 0x7F = 0x2A \<or> sc AND 0x7F = 0x36)" "sc AND 0x80 = 0" "?c \<noteq> CHR 0x00"
    by blast
  then show ?thesis
  proof cases
    case shift
    then have "keyboard_callback sc s = s\<lparr>shift_held := sc AND 0x80 = 0\<rparr>"
      by (simp add: keyboard_callback_def Let_def SC_LSHIFT_def SC_RSHIFT_def)
    with shift assms full show ?thesis by (simp add: upd)
  next
    case released
    then have "keyboard_callback sc s = s"
      by (simp add: keyboard_callback_def Let_def SC_LSHIFT_def SC_RSHIFT_def)
    with released assms full show ?thesis by simp
  next
    case none
    then have "keyboard_callback sc s = s"
      by (simp add: keyboard_callback_def Let_def SC_LSHIFT_def SC_RSHIFT_def)
    with none assms full show ?thesis by (simp add: Let_def)
  next
    case char
    then have eq: "keyboard_callback sc s = kb_buffer_push ?c s"
      using code_bound[of sc] by (simp add: keyboard_callback_def Let_def SC_LSHIFT_def SC_RSHIFT_def)
    from char have "typed (shift_held s) (sc # scs) = ?c # typed (shift_held s) scs" for scs
      by (simp add: Let_def)
    then show ?thesis
      using kb_queue.push_inv[OF assms] kb_queue.push_contents[OF assms] by (simp only: eq sh) simp
  qed
qed

lemma fold_callback:
  "kb_inv s \<Longrightarrow> kb_inv (fold keyboard_callback scs s) \<and>
    kb_contents (fold keyboard_callback scs s) = take 255 (kb_contents s @ typed (shift_held s) scs)"
proof (induction scs arbitrary: s)
  case Nil
  then show ?case using kb_queue.bounded[of s] by simp
next
  case (Cons sc scs)
  let ?s = "keyboard_callback sc s" and ?a = "kb_contents s @ typed (shift_held s) [sc]"
  have step: "kb_inv ?s" "kb_contents ?s = take 255 ?a"
    "typed (shift_held s) (sc # scs) = typed (shift_held s) [sc] @ typed (shift_held ?s) scs"
    using keyboard_callback_typed[OF Cons.prems, of sc] by blast+
  have "kb_contents (fold keyboard_callback (sc # scs) s) = take 255 (take 255 ?a @ typed (shift_held ?s) scs)"
    using Cons.IH[OF step(1)] step(2) by (simp del: typed.simps)
  also have "\<dots> = take 255 (kb_contents s @ typed (shift_held s) (sc # scs))"
    unfolding step(3) take_take_append by simp
  finally show ?case using Cons.IH[OF step(1)] by simp
qed

section \<open>Properties\<close>

definition boot_kbd :: kbd where
  "boot_kbd = timed.extend (sched.extend boot_sched (timed.fields 0)) (kbd.fields (replicate 256 (CHR 0x00)) 0 0 False)"

lemma boot_kbd_simps: "kb_inv boot_kbd" "kb_contents boot_kbd = []" "shift_held boot_kbd = False"
  by (simp_all add: boot_kbd_def kb_inv_def kb_contents_def ring_wf_def ring_contents_def sched.defs timed.defs kbd.defs)

text \<open>C15: the characters of any sequence of keyboard interrupts arrive in the buffer in order,
  decoded with the shift state of their moment, key releases and unprintable keys giving none; the
  buffer keeps the first 255, and reading it returns them in order.\<close>

theorem keyboard_types:
  fixes s :: "'a kbd_scheme" and scs :: "u8 list"
  assumes "kb_inv s"
  defines "s' \<equiv> fold keyboard_callback scs s" and "chars \<equiv> take 255 (kb_contents s @ typed (shift_held s) scs)"
  shows "kb_inv s' \<and> kb_contents s' = chars \<and> fst (drain kb_buffer_pop (length chars) s') = chars"
proof -
  have s': "kb_inv s'" "kb_contents s' = chars" using fold_callback[OF assms(1)] by (simp_all add: s'_def chars_def)
  then show ?thesis using kb_queue.drain_contents[OF s'(1), of "length chars"] by simp
qed

theorem keyboard_types_witness:
  "fst (drain kb_buffer_pop 2 (fold keyboard_callback [0x2A, 0x23, 0xA3, 0xAA, 0x17] boot_kbd)) = ''Hi''"
proof -
  have "typed False [0x2A, 0x23, 0xA3, 0xAA, 0x17] = ''Hi''"
    by (simp add: scancode_ascii_def scancode_ascii_shift_def)
  then show ?thesis
    using keyboard_types[OF boot_kbd_simps(1), of "[0x2A, 0x23, 0xA3, 0xAA, 0x17]"] boot_kbd_simps
    by (simp add: numeral_2_eq_2)
qed

text \<open>\<open>keyboard_getchar\<close> waits exactly when \<open>keyboard_has_char\<close> says there is nothing to read,
  and otherwise returns the oldest character: of the task's own queue when its input is redirected,
  of the global buffer otherwise, leaving the other queue alone.\<close>

theorem keyboard_getchar_spec:
  assumes "kb_inv s" "task_current_uses_input_redirect s \<longrightarrow> input_inv (current_task s) s"
  shows "(keyboard_getchar s = None \<longleftrightarrow> \<not> keyboard_has_char s) \<and>
    (\<forall>c s'. keyboard_getchar s = Some (c, s') \<longrightarrow>
      (if task_current_uses_input_redirect s
       then input_contents (current_task s) s = c # input_contents (current_task s) s' \<and> kb_contents s' = kb_contents s
       else kb_contents s = c # kb_contents s' \<and>
         input_contents (current_task s) s' = input_contents (current_task s) s))"
proof (intro conjI allI impI)
  show "keyboard_getchar s = None \<longleftrightarrow> \<not> keyboard_has_char s"
    by (simp add: keyboard_getchar_def keyboard_has_char_def)
next
  fix c s' assume get: "keyboard_getchar s = Some (c, s')"
  show "if task_current_uses_input_redirect s
       then input_contents (current_task s) s = c # input_contents (current_task s) s' \<and> kb_contents s' = kb_contents s
       else kb_contents s = c # kb_contents s' \<and>
         input_contents (current_task s) s' = input_contents (current_task s) s"
  proof (cases "task_current_uses_input_redirect s")
    case True
    then have inv: "input_inv (current_task s) s" using assms(2) by simp
    have has: "task_current_input_has_char s" and eq: "task_current_input_getchar s = (c, s')"
      using get True by (auto simp: keyboard_getchar_def split: if_splits)
    have "input_contents (current_task s) s \<noteq> []"
      using has inv ring_empty_iff by (fastforce simp: task_current_input_has_char_def input_inv_def input_contents_def)
    from input_queue.pop_contents[OF inv this] eq
    have "input_contents (current_task s) s = c # input_contents (current_task s) s'" by simp
    moreover have "kb_contents s' = kb_contents s"
      using eq by (auto simp: task_current_input_getchar_def Let_def kb_contents_def upd_task_def split: if_splits)
    ultimately show ?thesis using True by simp
  next
    case False
    then have eq: "kb_buffer_pop s = (c, s')" "kb_head s \<noteq> kb_tail s"
      using get by (auto simp: keyboard_getchar_def split: if_splits)
    then have "kb_contents s \<noteq> []"
      using assms(1) ring_empty_iff by (fastforce simp: kb_inv_def kb_contents_def)
    from kb_queue.pop_contents[OF assms(1) this] eq
    have "kb_contents s = c # kb_contents s'" by simp
    moreover have "input_contents (current_task s) s' = input_contents (current_task s) s"
      using eq by (auto simp: kb_buffer_pop_def input_contents_def)
    ultimately show ?thesis using False by simp
  qed
qed

theorem keyboard_getchar_spec_witness: "keyboard_getchar boot_kbd = None"
proof -
  have "\<not> task_current_uses_input_redirect boot_kbd" "\<not> keyboard_has_char boot_kbd"
    by (simp_all add: keyboard_has_char_def task_current_uses_input_redirect_def boot_kbd_def boot_sched_def
        sched.defs heap.defs timed.defs kbd.defs)
  then show ?thesis using keyboard_getchar_spec[OF boot_kbd_simps(1)] by simp
qed

end
