(* ===== verification/Kronk.thy ===== *)
theory Kronk
  imports Prelude "HOL-Library.Sublist"
begin

text \<open>
  \<open>kernel/kronk.c\<close>: the interpreter of the KRONK language. C's \<open>int\<close> is a 32-bit word read as
  signed, with the wrap-around of the i386 instructions; a pointer into a NUL-terminated string is
  the list of the remaining characters, and dereferencing the end gives the NUL. The recursive
  descent parser is one function with an argument that says which of the code's functions (or which
  of their loops) is running, and a fuel; that it always returns is a theorem. A division whose
  quotient does not fit raises the CPU's divide error, which halts the machine: the result \<open>Trap\<close>.

  Screen output is the list of characters written, keyboard input the list of the characters that
  will arrive; an \<open>INPUT\<close> that needs more of them than there are does not return (\<open>None\<close>).
\<close>

type_synonym i32 = "32 word"

section \<open>Characters and numbers\<close>

definition is_digit :: "char \<Rightarrow> bool" where
  "is_digit c \<longleftrightarrow> of_char c \<ge> (48 :: nat) \<and> of_char c \<le> (57 :: nat)"

definition is_upper :: "char \<Rightarrow> bool" where
  "is_upper c \<longleftrightarrow> of_char c \<ge> (65 :: nat) \<and> of_char c \<le> (90 :: nat)"

definition is_lower :: "char \<Rightarrow> bool" where
  "is_lower c \<longleftrightarrow> of_char c \<ge> (97 :: nat) \<and> of_char c \<le> (122 :: nat)"

definition is_letter :: "char \<Rightarrow> bool" where
  "is_letter c \<longleftrightarrow> is_upper c \<or> is_lower c"

definition var_index :: "char \<Rightarrow> nat" where
  "var_index c = (if is_lower c then of_char c - 97 else of_char c - 65)"

definition upper_char :: "char \<Rightarrow> char" where
  "upper_char c = (if is_lower c then char_of (of_char c - 97 + 65 :: nat) else c)"

text \<open>\<open>**p\<close>: the character pointed to, NUL at the end of the string.\<close>

fun peek :: "char list \<Rightarrow> char" where
  "peek [] = CHR 0x00"
| "peek (c # cs) = c"

definition is_space :: "char \<Rightarrow> bool" where
  "is_space c \<longleftrightarrow> c = CHR '' '' \<or> c = CHR 0x09"

definition skip_spaces :: "char list \<Rightarrow> char list" where
  "skip_spaces s = dropWhile is_space s"

text \<open>The buffer is filled from its end; 10 digits and a sign are enough for 32 bits.\<close>

fun digits :: "nat \<Rightarrow> char list" where
  "digits u = (if u = 0 then [] else digits (u div 10) @ [char_of (48 + u mod 10)])"

declare digits.simps [simp del]

definition print_int :: "i32 \<Rightarrow> char list" where
  "print_int n =
     (let neg = sint n < 0; u = unat (if neg then - n else n)
      in (if neg then ''-'' else []) @ (if u = 0 then ''0'' else digits u))"

fun number_loop :: "i32 \<Rightarrow> char list \<Rightarrow> i32 \<times> char list" where
  "number_loop val [] = (val, [])"
| "number_loop val (c # cs) =
     (if is_digit c then number_loop (val * 10 + of_nat (of_char c - 48)) cs else (val, c # cs))"

definition parse_number :: "char list \<Rightarrow> i32 \<times> char list" where
  "parse_number s =
     (if peek s = CHR ''-'' then let (v, r) = number_loop 0 (tl s) in (- v, r) else number_loop 0 s)"

section \<open>The expression parser\<close>

datatype 'a res = Trap | Val 'a

text \<open>Sequencing: what may not return, then what may trap.\<close>

definition bind_res :: "'a res option \<Rightarrow> ('a \<Rightarrow> 'b res option) \<Rightarrow> 'b res option" where
  "bind_res r f = Option.bind r (\<lambda>x. case x of Trap \<Rightarrow> Some Trap | Val a \<Rightarrow> f a)"

lemma bind_res_simps [simp]:
  "bind_res None f = None"
  "bind_res (Some Trap) f = Some Trap"
  "bind_res (Some (Val a)) f = f a"
  by (simp_all add: bind_res_def)

text \<open>The same with the parts of a parser's result named.\<close>

definition bind_parsed :: "('a \<times> char list \<times> bool) res option
    \<Rightarrow> ('a \<Rightarrow> char list \<Rightarrow> bool \<Rightarrow> 'b res option) \<Rightarrow> 'b res option" where
  "bind_parsed r f = bind_res r (\<lambda>x. f (fst x) (fst (snd x)) (snd (snd x)))"

lemma bind_parsed_simps [simp]:
  "bind_parsed None f = None"
  "bind_parsed (Some Trap) f = Some Trap"
  "bind_parsed (Some (Val (v, s, e))) f = f v s e"
  by (simp_all add: bind_parsed_def)

datatype mode = Expr | Expr_loop i32 | Term | Term_loop i32 | Factor

text \<open>The \<open>int\<close> result, the advanced pointer and \<open>had_error\<close>.\<close>

type_synonym parsed = "(i32 \<times> char list \<times> bool) res"

text \<open>\<open>v / rhs\<close> for \<open>rhs \<noteq> 0\<close>: truncation towards zero, \<open>Trap\<close> when the quotient is \<open>2\<^sup>3\<^sup>1\<close>.\<close>

definition idiv :: "i32 \<Rightarrow> i32 \<Rightarrow> i32 option" where
  "idiv a b =
     (if sint a = - (2 ^ 31) \<and> sint b = -1 then None
      else Some (word_of_int (sgn (sint a) * sgn (sint b) * (\<bar>sint a\<bar> div \<bar>sint b\<bar>))))"

text \<open>
  The functions call each other without a structural measure (a factor may consume nothing), so the
  depth of calls and loop rounds is bounded by a fuel; \<open>parse_fuel\<close> of it is always enough
  (\<open>parse_returns\<close>).
\<close>

definition parse_body ::
    "(nat \<Rightarrow> i32) \<Rightarrow> (mode \<Rightarrow> char list \<Rightarrow> bool \<Rightarrow> parsed option)
      \<Rightarrow> mode \<Rightarrow> char list \<Rightarrow> bool \<Rightarrow> parsed option" where
  "parse_body vs p m s err =
     (case m of
        Expr \<Rightarrow> bind_parsed (p Term (skip_spaces s) err) (\<lambda>v s' err'. p (Expr_loop v) s' err')
      | Expr_loop v \<Rightarrow>
          let s = skip_spaces s in
          if peek s = CHR ''+'' then bind_parsed (p Term (tl s) err) (\<lambda>w s' err'. p (Expr_loop (v + w)) s' err')
          else if peek s = CHR ''-'' then bind_parsed (p Term (tl s) err) (\<lambda>w s' err'. p (Expr_loop (v - w)) s' err')
          else Some (Val (v, s, err))
      | Term \<Rightarrow> bind_parsed (p Factor s err) (\<lambda>v s' err'. p (Term_loop v) s' err')
      | Term_loop v \<Rightarrow>
          let s = skip_spaces s in
          if peek s = CHR ''*'' then bind_parsed (p Factor (tl s) err) (\<lambda>w s' err'. p (Term_loop (v * w)) s' err')
          else if peek s = CHR ''/'' then bind_parsed (p Factor (tl s) err) (\<lambda>w s' err'.
                if w = 0 then Some (Val (0, s', True))
                else (case idiv v w of None \<Rightarrow> Some Trap | Some q \<Rightarrow> p (Term_loop q) s' err'))
          else Some (Val (v, s, err))
      | Factor \<Rightarrow>
          let s = skip_spaces s in
          if peek s = CHR ''('' then bind_parsed (p Expr (tl s) err) (\<lambda>v s' err'.
                let s'' = skip_spaces s' in
                Some (Val (v, if peek s'' = CHR '')'' then tl s'' else s'', err')))
          else if peek s = CHR ''-'' then bind_parsed (p Factor (tl s) err) (\<lambda>v s' err'. Some (Val (- v, s', err')))
          else if is_digit (peek s) then (let (v, s') = parse_number s in Some (Val (v, s', err)))
          else if is_letter (peek s) then Some (Val (vs (var_index (peek s)), tl s, err))
          else Some (Val (0, s, True)))"

primrec parse ::
    "(nat \<Rightarrow> i32) \<Rightarrow> nat \<Rightarrow> mode \<Rightarrow> char list \<Rightarrow> bool \<Rightarrow> parsed option" where
  "parse vs 0 = (\<lambda>m s err. None)"
| "parse vs (Suc n) = parse_body vs (parse vs n)"

fun parse_fuel :: "mode \<Rightarrow> char list \<Rightarrow> nat" where
  "parse_fuel Expr s = 3 * length s + 3"
| "parse_fuel Term s = 3 * length s + 2"
| "parse_fuel m s = 3 * length s + 1"

definition parse_expr :: "(nat \<Rightarrow> i32) \<Rightarrow> char list \<Rightarrow> bool \<Rightarrow> parsed option" where
  "parse_expr vs s err = parse vs (parse_fuel Expr s) Expr s err"

text \<open>The relational operators of \<open>parse_condition\<close>: how many characters, and which comparison.\<close>

definition relop :: "char \<Rightarrow> char \<Rightarrow> (nat \<times> (i32 \<Rightarrow> i32 \<Rightarrow> bool)) option" where
  "relop op1 op2 =
     (if op1 = CHR ''<'' \<and> op2 = CHR ''='' then Some (2, \<lambda>a b. sint a \<le> sint b)
      else if op1 = CHR ''>'' \<and> op2 = CHR ''='' then Some (2, \<lambda>a b. sint b \<le> sint a)
      else if op1 = CHR ''<'' \<and> op2 = CHR ''>'' then Some (2, \<lambda>a b. a \<noteq> b)
      else if op1 = CHR ''<'' then Some (1, \<lambda>a b. sint a < sint b)
      else if op1 = CHR ''>'' then Some (1, \<lambda>a b. sint b < sint a)
      else if op1 = CHR ''='' then Some (1, \<lambda>a b. a = b)
      else None)"

definition parse_condition ::
    "(nat \<Rightarrow> i32) \<Rightarrow> char list \<Rightarrow> bool \<Rightarrow> (bool \<times> char list \<times> bool) res option" where
  "parse_condition vs s err =
     bind_parsed (parse_expr vs s err) (\<lambda>lhs s1 err1.
           let s2 = skip_spaces s1 in
           (case relop (peek s2) (peek (tl s2)) of
              None \<Rightarrow> Some (Val (False, s2, True))
            | Some (k, cmp) \<Rightarrow> bind_parsed (parse_expr vs (drop k s2) err1) (\<lambda>rhs s3 err3. Some (Val (cmp lhs rhs, s3, err3)))))"

section \<open>Statements\<close>

fun str_starts_with :: "char list \<Rightarrow> char list \<Rightarrow> bool" where
  "str_starts_with s [] \<longleftrightarrow> True"
| "str_starts_with s (k # kw) \<longleftrightarrow> upper_char (peek s) = k \<and> str_starts_with (tl s) kw"

definition MAX_LINES :: nat where "MAX_LINES = 300"
definition MAX_LINE_LEN :: nat where "MAX_LINE_LEN = 100"

type_synonym program = "(i32 \<times> char list) list"

record kstate =
  variables :: "nat \<Rightarrow> i32"
  had_error :: bool
  error_line :: i32
  screen :: "char list"
  keys :: "char list"

definition put :: "char list \<Rightarrow> kstate \<Rightarrow> kstate" where
  "put cs k = k\<lparr>screen := screen k @ cs\<rparr>"

definition fail :: "kstate \<Rightarrow> kstate" where
  "fail k = k\<lparr>had_error := True\<rparr>"

definition find_line_index :: "program \<Rightarrow> i32 \<Rightarrow> nat option" where
  "find_line_index prog number = find (\<lambda>i. fst (prog ! i) = number) [0..<length prog]"

text \<open>-1, -2 and a line index.\<close>

datatype line_result = Advance | Stop | Jump nat

text \<open>\<open>GOTO\<close> and \<open>THEN\<close> jump to a line number.\<close>

definition jump_to :: "program \<Rightarrow> nat \<Rightarrow> char list \<Rightarrow> kstate \<Rightarrow> line_result \<times> kstate" where
  "jump_to prog idx p k =
     (case find_line_index prog (fst (parse_number p)) of
        None \<Rightarrow> (Stop, (fail k)\<lparr>error_line := fst (prog ! idx)\<rparr>)
      | Some ti \<Rightarrow> (Jump ti, k))"

text \<open>The line editor of \<open>INPUT\<close>: the line typed, what it echoes, and the keys left.\<close>

fun input_line :: "char list \<Rightarrow> char list \<Rightarrow> (char list \<times> char list \<times> char list) option" where
  "input_line buf [] = None"
| "input_line buf (c # ks) =
     (if c = CHR 0x0A then Some (buf, [CHR 0x0A], ks)
      else if c = CHR 0x08 then
        if buf \<noteq> [] then map_option (\<lambda>(b, e, r). (b, CHR 0x08 # e, r)) (input_line (butlast buf) ks)
        else input_line buf ks
      else if length buf < 31
      then map_option (\<lambda>(b, e, r). (b, c # e, r)) (input_line (buf @ [c]) ks)
      else input_line buf ks)"

text \<open>The item loop of \<open>PRINT\<close>; every round but the last consumes a comma.\<close>

fun print_items :: "nat \<Rightarrow> char list \<Rightarrow> kstate \<Rightarrow> kstate res option" where
  "print_items 0 p k = None"
| "print_items (Suc n) p k =
     (let p = skip_spaces p in
      if peek p = CHR 0x00 then Some (Val k)
      else bind_res
        (if peek p = CHR 0x22 then
           let q = dropWhile (\<lambda>c. c \<noteq> CHR 0x00 \<and> c \<noteq> CHR 0x22) (tl p)
           in Some (Val (if peek q = CHR 0x22 then tl q else q,
                put (takeWhile (\<lambda>c. c \<noteq> CHR 0x00 \<and> c \<noteq> CHR 0x22) (tl p)) k))
         else bind_parsed (parse_expr (variables k) p (had_error k)) (\<lambda>v q err. Some (Val (q, put (print_int v) (k\<lparr>had_error := err\<rparr>)))))
        (\<lambda>(q, k').
             let q = skip_spaces q in
             if peek q = CHR '','' then print_items n (tl q) (put '' '' k') else Some (Val k')))"

definition exec_let :: "char list \<Rightarrow> kstate \<Rightarrow> (line_result \<times> kstate) res option" where
  "exec_let p k =
     (let p1 = skip_spaces p in
      if \<not> is_letter (peek p1) then Some (Val (Stop, fail k))
      else let p2 = skip_spaces (tl p1) in
        if peek p2 \<noteq> CHR ''='' then Some (Val (Stop, fail k))
        else bind_parsed (parse_expr (variables k) (tl p2) (had_error k)) (\<lambda>v _ err. Some (Val (Advance,
              k\<lparr>variables := (variables k)(var_index (peek p1) := v), had_error := err\<rparr>))))"

definition exec_input :: "char list \<Rightarrow> kstate \<Rightarrow> (line_result \<times> kstate) res option" where
  "exec_input p k =
     (let p1 = skip_spaces p in
      if \<not> is_letter (peek p1) then Some (Val (Stop, fail k))
      else case input_line [] (keys k) of None \<Rightarrow> None
        | Some (buf, echo, rest) \<Rightarrow> Some (Val (Advance, (put (''? '' @ echo) k)
            \<lparr>variables := (variables k)(var_index (peek p1) := fst (parse_number buf)), keys := rest\<rparr>)))"

definition exec_if :: "program \<Rightarrow> nat \<Rightarrow> char list \<Rightarrow> kstate \<Rightarrow> (line_result \<times> kstate) res option" where
  "exec_if prog idx p k =
     bind_parsed (parse_condition (variables k) (skip_spaces p) (had_error k)) (\<lambda>cond p1 err.
           let k1 = k\<lparr>had_error := err\<rparr>; p2 = skip_spaces p1 in
           if \<not> str_starts_with p2 ''THEN'' then Some (Val (Stop, fail k1))
           else let p3 = skip_spaces (drop 4 p2);
                    p4 = (if str_starts_with p3 ''GOTO'' then skip_spaces (drop 4 p3) else p3)
                in if \<not> cond then Some (Val (Advance, k1)) else Some (Val (jump_to prog idx p4 k1)))"

definition exec_line :: "program \<Rightarrow> nat \<Rightarrow> kstate \<Rightarrow> (line_result \<times> kstate) res option" where
  "exec_line prog idx k =
     (let p = skip_spaces (snd (prog ! idx)) in
      if str_starts_with p ''REM'' then Some (Val (Advance, k))
      else if str_starts_with p ''END'' then Some (Val (Stop, k))
      else if str_starts_with p ''LET'' then exec_let (drop 3 p) k
      else if str_starts_with p ''KRONK'' then
        Some (Val (Advance, put (''KRONK! WRONG LEVER. EVERY VARIABLE IS NOW ZERO. YOU'' @ [CHR 0x27] @
          ''RE WELCOME.'' @ [CHR 0x0A]) (k\<lparr>variables := \<lambda>i. if i < 26 then 0 else variables k i\<rparr>)))
      else if str_starts_with p ''INPUT'' then exec_input (drop 5 p) k
      else if str_starts_with p ''PRINT'' then
        bind_res (print_items (Suc (length p)) (drop 5 p) k) (\<lambda>k'. Some (Val (Advance, put [CHR 0x0A] k')))
      else if str_starts_with p ''GOTO'' then Some (Val (jump_to prog idx (skip_spaces (drop 4 p)) k))
      else if str_starts_with p ''IF'' then exec_if prog idx (drop 2 p) k
      else Some (Val (Stop, fail k)))"

section \<open>Loading and running a program\<close>

text \<open>One line of the file: \<open>None\<close> when it is blank or unnumbered.\<close>

definition load_line :: "char list \<Rightarrow> (i32 \<times> char list) option" where
  "load_line line =
     (let lp = skip_spaces line in
      if lp = [] \<or> \<not> is_digit (peek lp) then None
      else let (number, rest) = number_loop 0 lp
        in Some (number, takeWhile (\<lambda>c. c \<noteq> CHR 0x0D) (take (MAX_LINE_LEN - 1) (skip_spaces rest))))"

function load_lines :: "char list \<Rightarrow> nat \<Rightarrow> program" where
  "load_lines cursor count =
     (if cursor = [] \<or> MAX_LINES \<le> count then []
      else let line = takeWhile (\<lambda>c. c \<noteq> CHR 0x0A) cursor;
               rest = drop (Suc (length line)) cursor
           in case load_line line of
                None \<Rightarrow> load_lines rest count
              | Some bl \<Rightarrow> bl # load_lines rest (Suc count))"
  by pat_completeness auto
termination by (relation "measure (\<lambda>(c, n). length c)") auto

declare load_lines.simps [simp del]

definition MAX_STEPS :: nat where "MAX_STEPS = 200000"

datatype run_end = Finished | Syntax_error i32 | Too_many_steps

function run_loop :: "program \<Rightarrow> nat \<Rightarrow> nat \<Rightarrow> kstate \<Rightarrow> (run_end \<times> kstate) res option" where
  "run_loop prog pc steps k =
     (if length prog \<le> pc then Some (Val (Finished, k))
      else bind_res (exec_line prog pc k) (\<lambda>(result, k').
            if had_error k' then
              Some (Val (Syntax_error (if error_line k' \<noteq> 0 then error_line k' else fst (prog ! pc)), k'))
            else if result = Stop then Some (Val (Finished, k'))
            else let pc' = (case result of Jump ti \<Rightarrow> ti | _ \<Rightarrow> pc + 1)
              in if MAX_STEPS < steps + 1 then Some (Val (Too_many_steps, k'))
                 else run_loop prog pc' (steps + 1) k'))"
  by pat_completeness auto
termination by (relation "measure (\<lambda>(prog, pc, steps, k). MAX_STEPS + 1 - steps)") auto

declare run_loop.simps [simp del]


text \<open>
  \<open>kronk_run\<close>: \<open>file\<close> is what the FAT16 driver answers, \<open>None\<close> for no such file, \<open>Some None\<close> for a
  failed read, else the bytes; the interpreter reads them up to the first NUL.
\<close>

definition kronk_start :: "char list \<Rightarrow> kstate" where
  "kronk_start ks = \<lparr>variables = (\<lambda>_. 0), had_error = False, error_line = 0, screen = [], keys = ks\<rparr>"

definition kronk_run :: "char list \<Rightarrow> char list option option \<Rightarrow> char list \<Rightarrow> kstate res option" where
  "kronk_run filename file ks =
     (let k = kronk_start ks; nl = [CHR 0x0A] in
      case file of
        None \<Rightarrow> Some (Val (put (''kronk: file not found: '' @ filename @ nl) k))
      | Some None \<Rightarrow> Some (Val (put (''kronk: read failed'' @ nl) k))
      | Some (Some bytes) \<Rightarrow>
          let prog = load_lines (takeWhile (\<lambda>c. c \<noteq> CHR 0x00) bytes) 0 in
          if prog = [] then Some (Val (put (''kronk: no numbered lines found in file'' @ nl) k))
          else bind_res (run_loop prog 0 0 (put (''Running '' @ filename @ ''...'' @ nl @ nl) k))
            (\<lambda>(how, k'). Some (Val (case how of
                Finished \<Rightarrow> put (nl @ ''Program finished.'' @ nl) k'
              | Syntax_error n \<Rightarrow> put (nl @ ''?SYNTAX ERROR AT LINE '' @ print_int n @ nl) k'
              | Too_many_steps \<Rightarrow> put (nl @
                  ''?PROGRAM TERMINATED -- too many steps (possible infinite loop)'' @ nl) k'))))"

section \<open>Numbers\<close>

lemma is_digit_digit: "d < 10 \<Longrightarrow> is_digit (char_of (48 + d :: nat))"
  by (simp add: is_digit_def)

lemma digits_are_digits: "c \<in> set (digits u) \<Longrightarrow> is_digit c"
  by (induction u rule: digits.induct) (subst (asm) (2) digits.simps, auto simp: is_digit_digit split: if_splits)

lemma digits_eq_Nil [simp]: "digits u = [] \<longleftrightarrow> u = 0"
  by (subst digits.simps) simp

lemma number_loop_digits:
  "number_loop v (digits u @ rest) = number_loop (v * 10 ^ length (digits u) + of_nat u) rest"
proof (induction u arbitrary: v rest rule: digits.induct)
  case (1 u)
  show ?case
  proof (cases "u = 0")
    case True
    then show ?thesis by (simp add: digits.simps)
  next
    case False
    have "number_loop v (digits u @ rest) =
        number_loop v (digits (u div 10) @ (char_of (48 + u mod 10) # rest))"
      using False by (subst digits.simps) simp
    also have "\<dots> = number_loop ((v * 10 ^ length (digits (u div 10)) + of_nat (u div 10)) * 10
        + of_nat (u mod 10)) rest"
      using 1 [OF False] by (simp add: is_digit_digit)
    also have "(v * 10 ^ length (digits (u div 10)) + of_nat (u div 10)) * 10 + of_nat (u mod 10) =
        v * 10 ^ Suc (length (digits (u div 10))) + of_nat (u div 10 * 10 + u mod 10)"
      by (simp only: of_nat_add of_nat_mult of_nat_numeral power_Suc) (simp add: algebra_simps)
    finally show ?thesis
      using False by (subst (2) digits.simps) simp
  qed
qed

lemma number_loop_stop [simp]: "\<not> is_digit (peek rest) \<Longrightarrow> number_loop v rest = (v, rest)"
  by (cases rest) simp_all

lemma is_digit_NUL [simp]: "\<not> is_digit (CHR 0x00)"
  by (simp add: is_digit_def)

text \<open>C16: the number printer and the number parser are inverse: \<open>parse_number\<close> reads back every 32-bit
  integer, the negative ones and -2147483648 included, from what \<open>print_int\<close> writes, and stops at
  the character after it.
\<close>
theorem print_parse_number:
  assumes "\<not> is_digit (peek rest)"
  shows "parse_number (print_int n @ rest) = (n, rest)"
proof -
  have minus: "\<not> is_digit (CHR ''-'')" by (simp add: is_digit_def)
  have hd_digits: "peek (digits u @ rest) \<noteq> CHR ''-''" if "u \<noteq> 0" for u
    using that minus digits_are_digits [of "peek (digits u)" u] by (cases "digits u") auto
  have zero: "is_digit (CHR ''0'')" by (simp add: is_digit_def)
  show ?thesis
  proof (cases "sint n < 0")
    case True
    then have "- n \<noteq> 0" by auto
    then have "unat (- n) \<noteq> 0" by (simp add: unat_eq_0)
    with True show ?thesis
      using assms by (simp add: print_int_def parse_number_def number_loop_digits Let_def)
  next
    case False
    then show ?thesis
      using assms hd_digits [of "unat n"] zero
      by (cases "unat n = 0")
        (simp_all add: print_int_def parse_number_def number_loop_digits Let_def unat_eq_0)
  qed
qed

lemma print_parse_number_witness:
  "parse_number (print_int (word_of_int (-2147483648)) @ '' THEN'') = (word_of_int (-2147483648), '' THEN'')"
  by (rule print_parse_number) (simp add: is_digit_def)

section \<open>The parser\<close>

lemma bind_parsed_eq_Some:
  "bind_parsed r f = Some y \<longleftrightarrow>
     (r = Some Trap \<and> y = Trap) \<or> (\<exists>v s e. r = Some (Val (v, s, e)) \<and> f v s e = Some y)"
  unfolding bind_parsed_def bind_res_def by (auto split: bind_splits res.splits)

lemma skip_spaces_suffix: "suffix (skip_spaces s) s"
  by (simp add: skip_spaces_def suffix_dropWhile)

lemma length_skip_spaces: "length (skip_spaces s) \<le> length s"
  by (rule suffix_length_le [OF skip_spaces_suffix])

lemma skip_spaces_idem [simp]: "skip_spaces (skip_spaces s) = skip_spaces s"
  by (simp add: skip_spaces_def)

lemma tl_suffix: "suffix (tl s) s"
  by (cases s) (auto intro: suffix_ConsI)

lemma peek_neq_NUL: "peek s = c \<Longrightarrow> c \<noteq> CHR 0x00 \<Longrightarrow> s \<noteq> []"
  by auto

lemma number_loop_suffix: "suffix (snd (number_loop v s)) s"
  by (induction v s rule: number_loop.induct) (auto intro: suffix_ConsI)

lemma parse_number_suffix: "suffix (snd (parse_number s)) s"
  using number_loop_suffix [of 0 s] suffix_order.trans [OF number_loop_suffix [of 0 "tl s"] tl_suffix]
  by (auto simp: parse_number_def Let_def split: prod.splits)

text \<open>More fuel does not change a result.\<close>

definition below :: "'a option \<Rightarrow> 'a option \<Rightarrow> bool" where
  "below a b \<longleftrightarrow> a = None \<or> a = b"

lemma below_intros:
  "below a a"
  "below a b \<Longrightarrow> (\<And>v s e. below (f v s e) (g v s e)) \<Longrightarrow> below (bind_parsed a f) (bind_parsed b g)"
  "(c \<Longrightarrow> below a b) \<Longrightarrow> (\<not> c \<Longrightarrow> below a' b') \<Longrightarrow> below (if c then a else a') (if c then b else b')"
  "(\<And>x. below (h x) (k x)) \<Longrightarrow> below (Let x h) (Let x k)"
  "(\<And>z. below (h' z) (k' z)) \<Longrightarrow>
     below (case w of None \<Rightarrow> a | Some z \<Rightarrow> h' z) (case w of None \<Rightarrow> a | Some z \<Rightarrow> k' z)"
proof -
  show "below (bind_parsed a f) (bind_parsed b g)"
    if "below a b" "\<And>v s e. below (f v s e) (g v s e)"
    using that unfolding below_def bind_parsed_def bind_res_def
    by (cases a) (auto split: res.split, metis)
qed (auto simp: below_def split: option.split)

lemma parse_body_mono:
  assumes "\<And>m s e. below (p m s e) (q m s e)"
  shows "below (parse_body vs p m s err) (parse_body vs q m s err)"
  unfolding parse_body_def by (cases m) (simp_all only: mode.case, (intro below_intros assms)+)

lemma parse_Suc: "below (parse vs n m s err) (parse vs (Suc n) m s err)"
proof (induction n arbitrary: m s err)
  case 0
  then show ?case by (simp add: below_def)
next
  case (Suc n)
  then show ?case
    unfolding parse.simps(2) [of vs "Suc n"] parse.simps(2) [of vs n] by (rule parse_body_mono [rotated])
qed

lemma parse_more_fuel:
  assumes "parse vs n m s err = Some r" "n \<le> n'"
  shows "parse vs n' m s err = Some r"
  using assms(2,1)
proof (induction rule: dec_induct)
  case (step k)
  then show ?case using parse_Suc [of vs k m s err] by (simp add: below_def del: parse.simps)
qed

text \<open>
  What the parser hands back: a rest of its input, and an error flag that stays up once it is up.
\<close>

definition good_result :: "char list \<Rightarrow> bool \<Rightarrow> parsed option \<Rightarrow> bool" where
  "good_result s err r \<longleftrightarrow> r = Some Trap \<or>
     (\<exists>v s' err'. r = Some (Val (v, s', err')) \<and> suffix s' s \<and> (err \<longrightarrow> err'))"

lemma good_result_bind:
  assumes "good_result s err r" "suffix s t"
    and "\<And>v s' err'. suffix s' s \<Longrightarrow> err \<longrightarrow> err' \<Longrightarrow> good_result s' err' (f v s' err')"
  shows "good_result t err (bind_parsed r f)"
proof -
  consider "r = Some Trap"
    | v s' err' where "r = Some (Val (v, s', err'))" "suffix s' s" "err \<longrightarrow> err'"
    using assms(1) unfolding good_result_def by blast
  then show ?thesis
  proof cases
    case 2
    then show ?thesis
      using assms(3) [OF 2(2,3), of v] assms(2)
      unfolding good_result_def by (auto intro: suffix_order.trans)
  qed (simp add: good_result_def)
qed

lemma good_result_Val: "suffix s' s \<Longrightarrow> err \<longrightarrow> err' \<Longrightarrow> good_result s err (Some (Val (v, s', err')))"
  by (simp add: good_result_def)

lemma good_result_suffix: "good_result s err r \<Longrightarrow> suffix s t \<Longrightarrow> good_result t err r"
  unfolding good_result_def by (auto intro: suffix_order.trans)

lemma tl_skip_shorter:
  assumes "peek (skip_spaces s) = c" "c \<noteq> CHR 0x00"
  shows "length (tl (skip_spaces s)) < length s"
  using peek_neq_NUL [OF assms] length_skip_spaces [of s] by (cases "skip_spaces s") simp_all

lemma tl_skip_suffix: "suffix (tl (skip_spaces s)) s"
  by (rule suffix_order.trans [OF tl_suffix skip_spaces_suffix])

lemma parse_fuel_mono: "suffix s' s \<Longrightarrow> parse_fuel m s' \<le> parse_fuel m s"
  by (cases m) (auto dest: suffix_length_le)

lemma parse_fuel_less: "length s' < length s \<Longrightarrow> parse_fuel m s' < parse_fuel m' s"
  by (cases m; cases m') auto

lemma parse_body_good:
  assumes p: "\<And>m' s' e. parse_fuel m' s' \<le> n \<Longrightarrow> good_result s' e (p m' s' e)"
    and n: "parse_fuel m s \<le> Suc n"
  shows "good_result s err (parse_body vs p m s err)"
proof -
  have shorter: "good_result (tl (skip_spaces s)) err (p m' (tl (skip_spaces s)) err)"
    if "peek (skip_spaces s) = c" "c \<noteq> CHR 0x00" for m' c
    using parse_fuel_less [OF tl_skip_shorter [OF that], of m' m] n by (intro p) simp
  have loop: "good_result t e (p m' t e)"
    if "suffix t (tl (skip_spaces s))" "peek (skip_spaces s) = c" "c \<noteq> CHR 0x00" for m' t e c
    using parse_fuel_mono [OF that(1), of m'] parse_fuel_less [OF tl_skip_shorter [OF that(2,3)], of m' m] n
    by (intro p) simp
  note steps = good_result_bind [OF shorter tl_skip_suffix] good_result_bind [OF p skip_spaces_suffix]
    good_result_Val
  show ?thesis
  proof (cases m)
    case Expr
    with n have "good_result t e (p (Expr_loop v) t e)" if "suffix t (skip_spaces s)" for t e v
      using suffix_length_le [OF that] length_skip_spaces [of s] by (intro p) simp
    with Expr n length_skip_spaces [of s] show ?thesis
      by (auto simp: parse_body_def intro!: steps)
  next
    case Term
    with n have "good_result t e (p (Term_loop v) t e)" if "suffix t s" for t e v
      using suffix_length_le [OF that] by (intro p) simp
    with Term n show ?thesis
      by (auto simp: parse_body_def intro!: good_result_bind [OF p suffix_order.refl])
  next
    case (Expr_loop v)
    then show ?thesis
      by (auto simp: parse_body_def Let_def skip_spaces_suffix intro!: steps loop)
  next
    case (Term_loop v)
    then show ?thesis
      by (auto simp: parse_body_def Let_def skip_spaces_suffix good_result_def [of _ _ "Some Trap"]
          split: option.split intro!: steps loop)
  next
    case Factor
    have num: "suffix (snd (parse_number (skip_spaces s))) s"
      by (rule suffix_order.trans [OF parse_number_suffix skip_spaces_suffix])
    show ?thesis
      using Factor num
      by (auto simp: parse_body_def Let_def skip_spaces_suffix tl_skip_suffix split: prod.splits
          intro!: steps)
  qed
qed

lemma parse_good: "parse_fuel m s \<le> n \<Longrightarrow> good_result s err (parse vs n m s err)"
proof (induction n arbitrary: m s err)
  case 0
  then show ?case by (cases m) simp_all
next
  case (Suc n)
  then show ?case unfolding parse.simps(2) by (intro parse_body_good)
qed

text \<open>C17: parsing always returns, on any text and whatever the variables hold: either the divide error
  stops the machine, or there is a value and the pointer has moved forward within the text; the
  error flag, once set, stays set.\<close>

theorem parse_returns:
  "parse_expr vs s err = Some Trap \<or>
     (\<exists>v pre s' err'. parse_expr vs s err = Some (Val (v, s', err')) \<and> s = pre @ s' \<and> (err \<longrightarrow> err'))"
  using parse_good [where m = Expr and s = s and err = err and vs = vs, OF order.refl] unfolding parse_expr_def good_result_def suffix_def
  by metis

lemma parse_returns_witness:
  "parse_expr (\<lambda>_. 0) ''(1+'' True = Some Trap \<or>
     (\<exists>v pre s' err'. parse_expr (\<lambda>_. 0) ''(1+'' True = Some (Val (v, s', err')) \<and> ''(1+'' = pre @ s' \<and> err')"
  using parse_returns [of "\<lambda>_. 0" "''(1+''" True] by simp

section \<open>Expressions mean what they say\<close>

text \<open>
  Expressions with the conventional reading: two levels of left-associative operators, a unary
  minus that binds tightest. \<open>show_at p\<close> writes one where an operand of precedence \<open>p\<close> is expected,
  with parentheses only where they are needed; \<open>eval\<close> is undefined on a division by zero and on the
  quotient that traps.
\<close>

datatype binop = Plus | Minus | Times | Over

datatype ast = Num nat | Var char | Neg ast | Bin binop ast ast

fun apply_op :: "binop \<Rightarrow> i32 \<Rightarrow> i32 \<Rightarrow> i32 option" where
  "apply_op Plus v w = Some (v + w)"
| "apply_op Minus v w = Some (v - w)"
| "apply_op Times v w = Some (v * w)"
| "apply_op Over v w = (if w = 0 then None else idiv v w)"

fun op_char :: "binop \<Rightarrow> char" where
  "op_char Plus = CHR ''+''" | "op_char Minus = CHR ''-''"
| "op_char Times = CHR ''*''" | "op_char Over = CHR ''/''"

definition op_prec :: "binop \<Rightarrow> nat" where
  "op_prec b = (if b = Plus \<or> b = Minus then 0 else 1)"

primrec eval :: "(nat \<Rightarrow> i32) \<Rightarrow> ast \<Rightarrow> i32 option" where
  "eval vs (Num n) = Some (of_nat n)"
| "eval vs (Var c) = Some (vs (var_index c))"
| "eval vs (Neg a) = map_option uminus (eval vs a)"
| "eval vs (Bin b l r) =
     (case eval vs l of None \<Rightarrow> None | Some v \<Rightarrow> case eval vs r of None \<Rightarrow> None | Some w \<Rightarrow> apply_op b v w)"

definition paren :: "bool \<Rightarrow> char list \<Rightarrow> char list" where
  "paren b s = (if b then ''('' @ s @ '')'' else s)"

primrec show_at :: "nat \<Rightarrow> ast \<Rightarrow> char list" where
  "show_at p (Num n) = (if n = 0 then ''0'' else digits n)"
| "show_at p (Var c) = [c]"
| "show_at p (Neg a) = CHR ''-'' # show_at 2 a"
| "show_at p (Bin b l r) = paren (op_prec b < p) (show_at (op_prec b) l @ [op_char b] @ show_at (Suc (op_prec b)) r)"

primrec letters :: "ast \<Rightarrow> bool" where
  "letters (Num n) \<longleftrightarrow> True"
| "letters (Var c) \<longleftrightarrow> is_letter c"
| "letters (Neg a) \<longleftrightarrow> letters a"
| "letters (Bin b l r) \<longleftrightarrow> letters l \<and> letters r"

text \<open>The parser without its fuel, with one rule per branch of the code that the proof needs.\<close>

definition parses :: "(nat \<Rightarrow> i32) \<Rightarrow> mode \<Rightarrow> char list \<Rightarrow> bool \<Rightarrow> parsed \<Rightarrow> bool" where
  "parses vs m s err r \<longleftrightarrow> (\<exists>n. parse vs n m s err = Some r)"

lemma parse_expr_parses: "parses vs Expr s err r \<Longrightarrow> parse_expr vs s err = Some r"
proof -
  assume "parses vs Expr s err r"
  then obtain n where n: "parse vs n Expr s err = Some r" by (auto simp: parses_def)
  obtain r' where r': "parse_expr vs s err = Some r'"
    using parse_good [where m = Expr and s = s and err = err and vs = vs, OF order.refl] unfolding parse_expr_def good_result_def by blast
  have "Some r = Some r'"
    using parse_more_fuel [OF n max.cobounded1]
      parse_more_fuel [OF r' [unfolded parse_expr_def] max.cobounded2] by (rule trans [OF sym])
  then show ?thesis using r' by simp
qed

lemma parses_one:
  assumes "\<And>n. parse_body vs (parse vs n) m s err = Some r"
  shows "parses vs m s err r"
  using assms [of 0] parse.simps(2) [of vs 0] unfolding parses_def by metis

lemma parses_two:
  assumes "parses vs m1 s1 e1 (Val (v, s2, e2))"
    and "\<And>n. parse vs n m1 s1 e1 = Some (Val (v, s2, e2)) \<Longrightarrow> parse_body vs (parse vs n) m s err = Some r"
  shows "parses vs m s err r"
  using assms parse.simps(2) unfolding parses_def by metis

lemma parses_seq:
  assumes "parses vs m1 s1 e1 (Val (v, s2, e2))" "parses vs m2 s2 e2 r"
    and "\<And>n. parse vs n m1 s1 e1 = Some (Val (v, s2, e2)) \<Longrightarrow> parse vs n m2 s2 e2 = Some r \<Longrightarrow>
      parse_body vs (parse vs n) m s err = Some r"
  shows "parses vs m s err r"
proof -
  obtain n1 n2 where "parse vs n1 m1 s1 e1 = Some (Val (v, s2, e2))" "parse vs n2 m2 s2 e2 = Some r"
    using assms(1,2) by (auto simp: parses_def)
  then have "parse_body vs (parse vs (max n1 n2)) m s err = Some r"
    by (intro assms(3)) (erule parse_more_fuel, simp)+
  then show ?thesis
    using parse.simps(2) [of vs "max n1 n2"] unfolding parses_def by metis
qed

lemma parses_Expr:
  "parses vs Term (skip_spaces s) err (Val (v, s', e')) \<Longrightarrow> parses vs (Expr_loop v) s' e' r \<Longrightarrow>
   parses vs Expr s err r"
  by (erule (1) parses_seq) (simp add: parse_body_def)

lemma parses_Term:
  "parses vs Factor s err (Val (v, s', e')) \<Longrightarrow> parses vs (Term_loop v) s' e' r \<Longrightarrow>
   parses vs Term s err r"
  by (erule (1) parses_seq) (simp add: parse_body_def)

lemma parses_Expr_loop:
  assumes "skip_spaces s = op_char b # t" "op_prec b = 0"
    and "parses vs Term t err (Val (w, s', e'))" "apply_op b v w = Some q" "parses vs (Expr_loop q) s' e' r"
  shows "parses vs (Expr_loop v) s err r"
  using assms by (intro parses_seq [OF assms(3,5)]) (cases b; simp add: parse_body_def op_prec_def)

lemma parses_Term_loop:
  assumes "skip_spaces s = op_char b # t" "op_prec b = 1"
    and "parses vs Factor t err (Val (w, s', e'))" "apply_op b v w = Some q" "parses vs (Term_loop q) s' e' r"
  shows "parses vs (Term_loop v) s err r"
  using assms
  by (intro parses_seq [OF assms(3,5)]) (cases b; simp add: parse_body_def op_prec_def split: if_splits)

lemma parses_Expr_loop_stop:
  "peek (skip_spaces s) \<noteq> CHR ''+'' \<Longrightarrow> peek (skip_spaces s) \<noteq> CHR ''-'' \<Longrightarrow>
   parses vs (Expr_loop v) s err (Val (v, skip_spaces s, err))"
  by (rule parses_one) (simp add: parse_body_def)

lemma parses_Term_loop_stop:
  "peek (skip_spaces s) \<noteq> CHR ''*'' \<Longrightarrow> peek (skip_spaces s) \<noteq> CHR ''/'' \<Longrightarrow>
   parses vs (Term_loop v) s err (Val (v, skip_spaces s, err))"
  by (rule parses_one) (simp add: parse_body_def)

lemma parses_Expr_loop_skip:
  "parses vs (Expr_loop v) s err r \<Longrightarrow> parses vs (Expr_loop v) (skip_spaces s) err r"
proof -
  assume "parses vs (Expr_loop v) s err r"
  then obtain n where n: "parse vs n (Expr_loop v) s err = Some r" by (auto simp: parses_def)
  then show ?thesis
    by (cases n) (auto simp: parses_def parse_body_def intro: exI [of _ n])
qed

text \<open>
  What it means that a text is read as a value where a factor, a term or an expression is expected,
  with whatever follows it.
\<close>

definition reads_factor :: "(nat \<Rightarrow> i32) \<Rightarrow> char list \<Rightarrow> i32 \<Rightarrow> bool" where
  "reads_factor vs str v \<longleftrightarrow>
     (\<forall>rest err. \<not> is_digit (peek rest) \<longrightarrow> parses vs Factor (str @ rest) err (Val (v, rest, err)))"

definition reads_term :: "(nat \<Rightarrow> i32) \<Rightarrow> char list \<Rightarrow> i32 \<Rightarrow> bool" where
  "reads_term vs str v \<longleftrightarrow>
     (\<forall>rest err r. \<not> is_digit (peek rest) \<longrightarrow> parses vs (Term_loop v) rest err r \<longrightarrow>
        parses vs Term (str @ rest) err r)"

definition reads_expr :: "(nat \<Rightarrow> i32) \<Rightarrow> char list \<Rightarrow> i32 \<Rightarrow> bool" where
  "reads_expr vs str v \<longleftrightarrow>
     (\<forall>rest err r. \<not> is_digit (peek rest) \<longrightarrow> peek (skip_spaces rest) \<notin> {CHR ''*'', CHR ''/''} \<longrightarrow>
        parses vs (Expr_loop v) rest err r \<longrightarrow> parses vs Expr (str @ rest) err r)"

lemmas reads_defs = reads_factor_def reads_term_def reads_expr_def

lemma reads_term_factor: "reads_factor vs str v \<Longrightarrow> reads_term vs str v"
  unfolding reads_defs by (blast intro: parses_Term)

lemma reads_expr_term:
  assumes "reads_term vs str v" "\<And>rest. skip_spaces (str @ rest) = str @ rest"
  shows "reads_expr vs str v"
  unfolding reads_expr_def
proof (intro allI impI)
  fix rest err r
  assume *: "\<not> is_digit (peek rest)" "peek (skip_spaces rest) \<notin> {CHR ''*'', CHR ''/''}"
    "parses vs (Expr_loop v) rest err r"
  have "parses vs (Term_loop v) rest err (Val (v, skip_spaces rest, err))"
    using * by (intro parses_Term_loop_stop) auto
  then have "parses vs Term (str @ rest) err (Val (v, skip_spaces rest, err))"
    using assms(1) * unfolding reads_term_def by blast
  then show "parses vs Expr (str @ rest) err r"
    using parses_Expr_loop_skip [OF *(3)] assms(2) [of rest] by (intro parses_Expr) simp_all
qed

lemma skip_spaces_Cons [simp]: "\<not> is_space c \<Longrightarrow> skip_spaces (c # s) = c # s"
  by (simp add: skip_spaces_def)

lemma op_char_simps [simp]:
  "\<not> is_space (op_char b)" "\<not> is_digit (op_char b)"
  "op_prec b = 0 \<Longrightarrow> op_char b \<notin> {CHR ''*'', CHR ''/''}"
  by (cases b; simp add: is_space_def is_digit_def op_prec_def)+

lemma reads_term_op:
  assumes "reads_term vs s v" "reads_factor vs t w" "op_prec b = 1" "apply_op b v w = Some q"
  shows "reads_term vs (s @ [op_char b] @ t) q"
  unfolding reads_term_def
proof (intro allI impI)
  fix rest err r
  assume *: "\<not> is_digit (peek rest)" "parses vs (Term_loop q) rest err r"
  have "parses vs (Term_loop v) (op_char b # t @ rest) err r"
    using assms(2) * unfolding reads_factor_def
    by (intro parses_Term_loop [OF _ assms(3) _ assms(4)]) auto
  then show "parses vs Term ((s @ [op_char b] @ t) @ rest) err r"
    using assms(1) unfolding reads_term_def by simp
qed

lemma reads_expr_op:
  assumes "reads_expr vs s v" "reads_term vs t w" "op_prec b = 0" "apply_op b v w = Some q"
  shows "reads_expr vs (s @ [op_char b] @ t) q"
  unfolding reads_expr_def
proof (intro allI impI)
  fix rest err r
  assume *: "\<not> is_digit (peek rest)" "peek (skip_spaces rest) \<notin> {CHR ''*'', CHR ''/''}"
    "parses vs (Expr_loop q) rest err r"
  have "parses vs (Term_loop w) rest err (Val (w, skip_spaces rest, err))"
    using * by (intro parses_Term_loop_stop) auto
  then have "parses vs Term (t @ rest) err (Val (w, skip_spaces rest, err))"
    using assms(2) * unfolding reads_term_def by blast
  then have "parses vs (Expr_loop v) (op_char b # t @ rest) err r"
    using parses_Expr_loop_skip [OF *(3)]
    by (intro parses_Expr_loop [OF _ assms(3) _ assms(4)]) auto
  then show "parses vs Expr ((s @ [op_char b] @ t) @ rest) err r"
    using assms(1) op_char_simps(3) [OF assms(3)] unfolding reads_expr_def by simp
qed

lemma reads_factor_paren:
  assumes "reads_expr vs s v"
  shows "reads_factor vs (''('' @ s @ '')'') v"
  unfolding reads_factor_def
proof (intro allI impI)
  fix rest err
  have close: "\<not> is_space (CHR '')'')" "\<not> is_space (CHR ''('')" "\<not> is_digit (CHR '')'')"
    by (simp_all add: is_space_def is_digit_def)
  then have "parses vs (Expr_loop v) ('')'' @ rest) err (Val (v, '')'' @ rest, err))"
    using parses_Expr_loop_stop [of "'')'' @ rest" vs v err] by simp
  then have "parses vs Expr (s @ '')'' @ rest) err (Val (v, '')'' @ rest, err))"
    using assms close unfolding reads_expr_def by simp
  then show "parses vs Factor ((''('' @ s @ '')'') @ rest) err (Val (v, rest, err))"
    by (rule parses_two) (use close in \<open>simp add: parse_body_def\<close>)
qed

lemma reads_factor_Neg:
  assumes "reads_factor vs s v"
  shows "reads_factor vs (CHR ''-'' # s) (- v)"
  unfolding reads_factor_def
proof (intro allI impI)
  fix rest err
  assume "\<not> is_digit (peek rest)"
  with assms have "parses vs Factor (s @ rest) err (Val (v, rest, err))"
    unfolding reads_factor_def by blast
  then show "parses vs Factor ((CHR ''-'' # s) @ rest) err (Val (- v, rest, err))"
    by (rule parses_two) (simp add: parse_body_def is_space_def)
qed

lemma digit_not_other:
  assumes "is_digit c"
  shows "\<not> is_space c" "c \<noteq> CHR ''(''" "c \<noteq> CHR ''-''"
  using assms by (auto simp: is_space_def is_digit_def)

lemma letter_not_other:
  assumes "is_letter c"
  shows "\<not> is_space c" "c \<noteq> CHR ''(''" "c \<noteq> CHR ''-''" "\<not> is_digit c"
  using assms by (auto simp: is_space_def is_digit_def is_letter_def is_upper_def is_lower_def)

lemma reads_factor_Num: "reads_factor vs (show_at p (Num n)) (of_nat n)"
  unfolding reads_factor_def
proof (intro allI impI)
  fix rest err
  assume rest: "\<not> is_digit (peek rest)"
  obtain c cs where d: "show_at p (Num n) = c # cs" by (cases "show_at p (Num n)") (auto split: if_splits)
  then have c: "is_digit c"
    using digits_are_digits [of c n] by (auto simp: is_digit_def split: if_splits)
  have "number_loop 0 (show_at p (Num n) @ rest) = (of_nat n, rest)"
    using rest number_loop_digits [of 0 n rest] by (auto simp: is_digit_def)
  with d c rest show "parses vs Factor (show_at p (Num n) @ rest) err (Val (of_nat n, rest, err))"
    by (intro parses_one) (simp add: parse_body_def parse_number_def digit_not_other)
qed

lemma reads_factor_Var: "is_letter c \<Longrightarrow> reads_factor vs [c] (vs (var_index c))"
  unfolding reads_factor_def by (auto intro!: parses_one simp: parse_body_def letter_not_other)

lemma show_at_start: "letters a \<Longrightarrow> skip_spaces (show_at p a @ rest) = show_at p a @ rest"
proof (induction a arbitrary: p rest)
  case (Num n)
  obtain c cs where d: "show_at p (Num n) = c # cs" by (cases "show_at p (Num n)") (auto split: if_splits)
  then have "is_digit c"
    using digits_are_digits [of c n] by (auto simp: is_digit_def split: if_splits)
  with d show ?case by (simp add: digit_not_other)
next
  case (Var c)
  then show ?case using letter_not_other(1) [of c] by simp
qed (auto simp: paren_def is_space_def)

lemma show_at_reads:
  assumes "letters a" "eval vs a = Some v"
  shows "reads_factor vs (show_at 2 a) v \<and> reads_term vs (show_at 1 a) v \<and> reads_expr vs (show_at 0 a) v"
  using assms
proof (induction a arbitrary: v)
  case (Bin b l r)
  then obtain x y where xy: "eval vs l = Some x" "eval vs r = Some y" "apply_op b x y = Some v"
    by (auto split: option.splits)
  note IH = Bin.IH(1) [OF _ xy(1)] Bin.IH(2) [OF _ xy(2)]
  have start: "skip_spaces (show_at p (Bin b l r) @ rest) = show_at p (Bin b l r) @ rest" for p rest
    by (rule show_at_start [OF Bin.prems(1)])
  consider "op_prec b = 0" | "op_prec b = 1" by (cases b) (auto simp: op_prec_def)
  then show ?case
  proof cases
    case 1
    then have E: "reads_expr vs (show_at 0 (Bin b l r)) v"
      using IH Bin.prems(1) xy(3) reads_expr_op [of vs "show_at 0 l" x "show_at 1 r" y b v]
      by (simp add: paren_def)
    then have "reads_factor vs (show_at 2 (Bin b l r)) v"
      using 1 reads_factor_paren [OF E] by (simp add: paren_def)
    then show ?thesis using E 1 reads_term_factor by (simp add: paren_def)
  next
    case 2
    then have T: "reads_term vs (show_at 1 (Bin b l r)) v"
      using IH Bin.prems(1) xy(3) reads_term_op [of vs "show_at 1 l" x "show_at 2 r" y b v]
      by (simp add: paren_def numeral_2_eq_2)
    then have E: "reads_expr vs (show_at 0 (Bin b l r)) v"
      using reads_expr_term [OF T start] 2 by (simp add: paren_def)
    then show ?thesis
      using T 2 reads_factor_paren [OF E] by (simp add: paren_def)
  qed
next
  case (Neg a)
  then obtain w where w: "eval vs a = Some w" "v = - w" by auto
  then have F: "reads_factor vs (show_at 2 (Neg a)) v"
    using Neg by (simp add: reads_factor_Neg)
  then show ?case
    using reads_term_factor [OF F] reads_expr_term [OF reads_term_factor [OF F] show_at_start [OF Neg.prems(1)]]
    by simp
next
  case (Var c)
  then have F: "reads_factor vs (show_at 2 (Var c)) v"
    using reads_factor_Var [of c vs] by simp
  then show ?case
    using reads_term_factor [OF F] reads_expr_term [OF reads_term_factor [OF F] show_at_start [OF Var(1)]]
    by simp
next
  case (Num n)
  then have F: "reads_factor vs (show_at 2 (Num n)) v"
    using reads_factor_Num [of vs 2 n] by simp
  then show ?case
    using reads_term_factor [OF F] reads_expr_term [OF reads_term_factor [OF F] show_at_start [OF Num(1)]]
    by simp
qed

text \<open>C18: the parser computes the conventional value of an expression: products and quotients bind
  tighter than sums and differences, both associate to the left, a unary minus belongs to its
  factor, parentheses override. Written with no more parentheses than that needs, and followed by
  anything that is neither a digit nor an operator, every expression whose value is defined
  evaluates to it in 32-bit arithmetic, with no error raised.\<close>

theorem parse_precedence:
  assumes "letters a" "eval vs a = Some v"
    and "\<not> is_digit (peek rest)" "\<forall>b. peek (skip_spaces rest) \<noteq> op_char b"
  shows "parse_expr vs (show_at 0 a @ rest) err = Some (Val (v, skip_spaces rest, err))"
proof (rule parse_expr_parses)
  have ops: "peek (skip_spaces rest) \<notin> {CHR ''+'', CHR ''-'', CHR ''*'', CHR ''/''}"
    using assms(4) op_char.simps by (metis insertE singletonD)
  then have "parses vs (Expr_loop v) rest err (Val (v, skip_spaces rest, err))"
    by (intro parses_Expr_loop_stop) auto
  then show "parses vs Expr (show_at 0 a @ rest) err (Val (v, skip_spaces rest, err))"
    using show_at_reads [OF assms(1,2)] assms(3) ops unfolding reads_expr_def by blast
qed

lemma parse_precedence_witness:
  "parse_expr (\<lambda>i. if i = 0 then 7 else 0) ''a-2-3*(a+1) THEN'' False =
     Some (Val (word_of_int (-19), ''THEN'', False))"
proof -
  let ?a = "Bin Minus (Bin Minus (Var (CHR ''a'')) (Num 2)) (Bin Times (Num 3) (Bin Plus (Var (CHR ''a'')) (Num 1)))"
  let ?vs = "\<lambda>i. if i = 0 then 7 else 0 :: i32"
  have ev: "eval ?vs ?a = Some (word_of_int (-19))"
    by (simp add: var_index_def is_lower_def)
  have "show_at 0 ?a = ''a-2-3*(a+1)''"
    by (simp add: digits.simps paren_def op_prec_def char_of_def bit_iff_odd bit_0)
  moreover have "letters ?a" by (simp add: is_letter_def is_lower_def)
  moreover have "\<forall>b. peek (skip_spaces '' THEN'') \<noteq> op_char b"
  proof
    show "peek (skip_spaces '' THEN'') \<noteq> op_char b" for b
      by (cases b) (simp_all add: skip_spaces_def is_space_def)
  qed
  ultimately show ?thesis
    using parse_precedence [OF _ ev, of "'' THEN''" False]
    by (simp add: is_digit_def skip_spaces_def is_space_def)
qed

section \<open>Programs end\<close>

lemma parse_expr_good: "good_result s err (parse_expr vs s err)"
  unfolding parse_expr_def by (rule parse_good [OF order.refl])

lemma good_result_cases:
  assumes "good_result s err r"
  obtains "r = Some Trap" | v s' err' where "r = Some (Val (v, s', err'))" "length s' \<le> length s"
  using assms suffix_length_le unfolding good_result_def by blast

lemma parse_condition_returns: "\<exists>r. parse_condition vs s err = Some r"
proof (cases rule: good_result_cases [OF parse_expr_good [of s err vs]])
  case (2 v s1 err1)
  show ?thesis
  proof (cases "relop (peek (skip_spaces s1)) (peek (tl (skip_spaces s1)))")
    case (Some kc)
    obtain k cmp where kc: "kc = (k, cmp)" by (cases kc)
    show ?thesis
      by (cases rule: good_result_cases [OF parse_expr_good [of "drop k (skip_spaces s1)" err1 vs]])
        (simp_all add: parse_condition_def 2 Some kc Let_def)
  qed (simp add: parse_condition_def 2 Let_def)
qed (simp add: parse_condition_def)

lemma print_items_returns: "length p < n \<Longrightarrow> \<exists>r. print_items n p k = Some r"
proof (induction n arbitrary: p k)
  case (Suc n)
  let ?p = "skip_spaces p"
  have more: "\<exists>r. (let q = skip_spaces q in
      if peek q = CHR '','' then print_items n (tl q) (put '' '' k') else Some (Val k')) = Some r"
    if "length q \<le> length p" for q k'
  proof (cases "peek (skip_spaces q) = CHR '',''")
    case True
    then have "length (tl (skip_spaces q)) < n"
      using tl_skip_shorter [OF True] that Suc.prems by simp
    from Suc.IH [OF this] True show ?thesis by (simp add: Let_def)
  qed (simp add: Let_def)
  have str: "length (if peek q = CHR 0x22 then tl q else q) \<le> length p"
    if "q = dropWhile (\<lambda>c. c \<noteq> CHR 0x00 \<and> c \<noteq> CHR 0x22) (tl ?p)" for q
  proof -
    have "length q \<le> length p"
      unfolding that using length_skip_spaces [of p]
        length_dropWhile_le [of "\<lambda>c. c \<noteq> CHR 0x00 \<and> c \<noteq> CHR 0x22" "tl ?p"] by simp
    then show ?thesis using le_trans [OF diff_le_self] by auto
  qed
  show ?case
  proof (cases "peek ?p = CHR 0x00 \<or> peek ?p = CHR 0x22")
    case True
    then show ?thesis
      using more [OF str [OF refl]] by (auto simp: Let_def)
  next
    case False
    then show ?thesis
    proof (cases rule: good_result_cases [OF parse_expr_good [of ?p "had_error k" "variables k"]])
      case (2 v q err)
      then have "length q \<le> length p" using length_skip_spaces [of p] by simp
      from more [OF this] show ?thesis using False 2 by (simp add: Let_def)
    qed (use False in \<open>simp add: Let_def\<close>)
  qed
qed simp

lemma bind_res_returns: "\<exists>x. r = Some x \<Longrightarrow> (\<And>a. \<exists>x. f a = Some x) \<Longrightarrow> \<exists>x. bind_res r f = Some x"
  by (metis bind_res_simps(2,3) res.exhaust)

lemma bind_parsed_returns:
  "\<exists>x. r = Some x \<Longrightarrow> (\<And>v s e. \<exists>x. f v s e = Some x) \<Longrightarrow> \<exists>x. bind_parsed r f = Some x"
  unfolding bind_parsed_def by (rule bind_res_returns)

lemma parse_expr_returns: "\<exists>r. parse_expr vs s err = Some r"
  using parse_expr_good [of s err vs] unfolding good_result_def by blast

lemma exec_line_returns:
  assumes "\<not> str_starts_with (skip_spaces (snd (prog ! idx))) ''INPUT''"
  shows "\<exists>r. exec_line prog idx k = Some r"
proof -
  let ?p = "skip_spaces (snd (prog ! idx))"
  have 1: "\<exists>r. exec_let p k = Some r" for p
    unfolding exec_let_def Let_def
    by (auto intro!: bind_parsed_returns parse_expr_returns)
  have 2: "\<exists>r. exec_if prog idx p k = Some r" for p
    unfolding exec_if_def Let_def
    by (auto intro!: bind_parsed_returns parse_condition_returns)
  have 3: "\<exists>r. bind_res (print_items (Suc (length ?p)) (drop 5 ?p) k)
      (\<lambda>k'. Some (Val (Advance, put [CHR 0x0A] k'))) = Some r"
    by (intro bind_res_returns print_items_returns) auto
  show ?thesis
    using assms 1 2 3 unfolding exec_line_def Let_def by (simp del: print_items.simps str_starts_with.simps)
qed

lemma run_loop_returns:
  assumes "\<forall>l\<in>set prog. \<not> str_starts_with (skip_spaces (snd l)) ''INPUT''"
  shows "\<exists>r. run_loop prog pc steps k = Some r"
  using assms
proof (induction prog pc steps k rule: run_loop.induct)
  case (1 prog pc steps k)
  show ?case
  proof (cases "length prog \<le> pc")
    case False
    then have "\<not> str_starts_with (skip_spaces (snd (prog ! pc))) ''INPUT''"
      using 1(2) by simp
    then have "\<exists>r. exec_line prog pc k = Some r" by (rule exec_line_returns)
    then obtain r where r: "exec_line prog pc k = Some r" ..
    show ?thesis
    proof (cases r)
      case (Val x)
      obtain result k' where x: "x = (result, k')" by (cases x)
      show ?thesis
        using 1(1) [OF False, of k' result] 1(2) False r Val x
        by (subst run_loop.simps) (auto simp: Let_def)
    qed (use False r in \<open>subst run_loop.simps, simp\<close>)
  qed (subst run_loop.simps, simp)
qed

text \<open>Running a program ends. Whatever the file holds, \<open>kronk_run\<close> returns or stops at the divide
  error, within the 200000 steps of its guard, unless a loaded line is an \<open>INPUT\<close>, which waits
  for keys.\<close>

theorem kronk_run_returns:
  assumes "\<forall>bytes. content = Some (Some bytes) \<longrightarrow>
      (\<forall>l\<in>set (load_lines (takeWhile (\<lambda>c. c \<noteq> CHR 0x00) bytes) 0).
         \<not> str_starts_with (skip_spaces (snd l)) ''INPUT'')"
  shows "\<exists>r. kronk_run filename content ks = Some r"
proof (cases content)
  case (Some f)
  then show ?thesis
  proof (cases f)
    case (Some bytes)
    with \<open>content = Some f\<close> assms show ?thesis
      by (auto simp: kronk_run_def Let_def intro!: bind_res_returns run_loop_returns)
  qed (simp add: kronk_run_def Let_def)
qed (simp add: kronk_run_def Let_def)

lemma kronk_run_returns_witness:
  "\<exists>r. kronk_run ''LOOP'' (Some (Some (''10 PRINT 1/0, 2''@ [CHR 0x0A] @ ''20 GOTO 10''))) [] = Some r"
proof (rule kronk_run_returns)
  have "\<forall>l\<in>set (load_lines (takeWhile (\<lambda>c. c \<noteq> CHR 0x00) (''10 PRINT 1/0, 2''@ [CHR 0x0A] @ ''20 GOTO 10'')) 0).
      \<not> str_starts_with (skip_spaces (snd l)) ''INPUT''"
    by code_simp
  then show "\<forall>bytes. Some (Some (''10 PRINT 1/0, 2''@ [CHR 0x0A] @ ''20 GOTO 10'')) = Some (Some bytes) \<longrightarrow>
      (\<forall>l\<in>set (load_lines (takeWhile (\<lambda>c. c \<noteq> CHR 0x00) bytes) 0).
         \<not> str_starts_with (skip_spaces (snd l)) ''INPUT'')"
    by simp
qed

text \<open>An expression can stop the machine: -2147483648 / -1 raises the divide error in the kernel.\<close>

lemma divide_traps: "parse_expr (\<lambda>_. 0) ''(0-2147483647-1)/-1'' False = Some Trap"
  by code_simp

end
