(* ===== verification/Fat16.thy ===== *)
theory Fat16
  imports Ata
begin

text \<open>
  \<open>kernel/fat16.c\<close>, on the disk driver of \<open>Ata\<close>. A C string is the list of its bytes without the
  NUL; a sector buffer is the list of its 256 words, which the code also reads as bytes (little
  endian) and as 16 directory entries. A function that may fail returns an option or a flag next to
  the new state. Where a loop may not end, or the divisor \<open>sectors_per_cluster\<close> may be 0, the
  outermost result is \<open>None\<close>.

  Serial output is left out, and so are the fields of the boot sector that the code never reads.
  The 4 KiB cluster buffers on the stack hold 8 sectors; the code does not check that
  \<open>sectors_per_cluster\<close> stays within that.
\<close>

section \<open>Data\<close>

record bpb =
  bytes_per_sector :: u16
  sectors_per_cluster :: u8
  reserved_sector_count :: u16
  num_fats :: u8
  root_entry_count :: u16
  total_sectors_16 :: u16
  sectors_per_fat :: u16

record dirent =
  de_name :: "u8 list"
  de_ext :: "u8 list"
  de_attr :: u8
  de_reserved :: "u8 list"
  de_write_time :: u16
  de_write_date :: u16
  de_first_cluster :: u16
  de_file_size :: u32

record fat16_file =
  first_cluster :: u16
  file_size :: u32

text \<open>The static variables, and the device behind the I/O ports.\<close>

record 'd fs =
  the_bpb :: bpb
  fat_start_lba :: u32
  root_dir_start_lba :: u32
  root_dir_sectors :: u32
  data_start_lba :: u32
  mounted :: bool
  dev :: 'd

definition ATTR_DIRECTORY :: u8 where "ATTR_DIRECTORY = 0x10"
definition ATTR_VOLUME_ID :: u8 where "ATTR_VOLUME_ID = 0x08"
definition FAT_ENTRY_FREE :: u16 where "FAT_ENTRY_FREE = 0x0000"
definition FAT_ENTRY_END :: u16 where "FAT_ENTRY_END = 0xFFFF"

text \<open>A sector buffer as bytes, and bytes as a sector buffer.\<close>

definition word_bytes :: "u16 \<Rightarrow> u8 list" where
  "word_bytes w = [ucast w, ucast (drop_bit 8 w)]"

definition to_bytes :: "u16 list \<Rightarrow> u8 list" where
  "to_bytes ws = concat (map word_bytes ws)"

fun to_words :: "u8 list \<Rightarrow> u16 list" where
  "to_words (lo # hi # bs) = or (ucast lo) (push_bit 8 (ucast hi)) # to_words bs"
| "to_words _ = []"

definition le16 :: "u8 list \<Rightarrow> nat \<Rightarrow> u16" where
  "le16 bs i = or (ucast (bs ! i)) (push_bit 8 (ucast (bs ! (i + 1))))"

text \<open>\<open>struct fat16_dirent\<close> is 16 words: 12 bytes of name, extension and attribute, 10 reserved.\<close>

definition decode_dirent :: "u16 list \<Rightarrow> dirent" where
  "decode_dirent ws = \<lparr>de_name = take 8 (to_bytes ws), de_ext = take 3 (drop 8 (to_bytes ws)),
     de_attr = to_bytes ws ! 11, de_reserved = take 10 (drop 12 (to_bytes ws)),
     de_write_time = ws ! 11, de_write_date = ws ! 12, de_first_cluster = ws ! 13,
     de_file_size = or (ucast (ws ! 14)) (push_bit 16 (ucast (ws ! 15)))\<rparr>"

definition encode_dirent :: "dirent \<Rightarrow> u16 list" where
  "encode_dirent e = to_words (de_name e @ de_ext e @ [de_attr e] @ de_reserved e) @
     [de_write_time e, de_write_date e, de_first_cluster e, ucast (de_file_size e),
      ucast (drop_bit 16 (de_file_size e))]"

definition entries :: "u16 list \<Rightarrow> dirent list" where
  "entries ws = map (\<lambda>e. decode_dirent (take 16 (drop (16 * e) ws))) [0..<16]"

definition put_entry :: "nat \<Rightarrow> dirent \<Rightarrow> u16 list \<Rightarrow> u16 list" where
  "put_entry e d ws = take (16 * e) ws @ encode_dirent d @ drop (16 * e + 16) ws"

text \<open>\<open>ata_read_sectors\<close> and \<open>ata_write_sectors\<close> on the state of the file system.\<close>

definition read_secs :: "'d ports \<Rightarrow> u32 \<Rightarrow> u8 \<Rightarrow> 'd fs \<Rightarrow> u16 list option \<times> 'd fs" where
  "read_secs P lba n s = (let (r, d) = ata_read_sectors P lba n (dev s) in (r, s\<lparr>dev := d\<rparr>))"

definition write_secs :: "'d ports \<Rightarrow> u32 \<Rightarrow> u8 \<Rightarrow> u16 list \<Rightarrow> 'd fs \<Rightarrow> bool \<times> 'd fs" where
  "write_secs P lba n buf s = (let (r, d) = ata_write_sectors P lba n buf (dev s) in (r, s\<lparr>dev := d\<rparr>))"

section \<open>Mounting\<close>

definition read_bpb :: "u8 list \<Rightarrow> bpb" where
  "read_bpb raw = \<lparr>bytes_per_sector = le16 raw 11, sectors_per_cluster = raw ! 13,
     reserved_sector_count = le16 raw 14, num_fats = raw ! 16, root_entry_count = le16 raw 17,
     total_sectors_16 = le16 raw 19, sectors_per_fat = le16 raw 22\<rparr>"

definition fat16_mount :: "'d ports \<Rightarrow> 'd fs \<Rightarrow> bool \<times> 'd fs" where
  "fat16_mount P s =
     (case read_secs P 0 1 s of
        (None, s) \<Rightarrow> (False, s)
      | (Some sector0, s) \<Rightarrow>
          let b = read_bpb (to_bytes sector0); s = s\<lparr>the_bpb := b\<rparr> in
          if bytes_per_sector b \<noteq> 512 then (False, s)
          else let fat = ucast (reserved_sector_count b);
                   root = fat + ucast (num_fats b) * ucast (sectors_per_fat b);
                   root_dir_bytes = ucast (root_entry_count b) * 32;
                   bps = ucast (bytes_per_sector b);
                   root_secs = (root_dir_bytes + bps - 1) div bps
               in (True, s\<lparr>fat_start_lba := fat, root_dir_start_lba := root, root_dir_sectors := root_secs,
                     data_start_lba := root + root_secs, mounted := True\<rparr>))"

definition cluster_to_lba :: "'d fs \<Rightarrow> u16 \<Rightarrow> u32" where
  "cluster_to_lba s cluster =
     data_start_lba s + (ucast cluster - 2) * ucast (sectors_per_cluster (the_bpb s))"

definition cluster_bytes :: "'d fs \<Rightarrow> u32" where
  "cluster_bytes s = ucast (sectors_per_cluster (the_bpb s)) * ucast (bytes_per_sector (the_bpb s))"

section \<open>Looking up a file\<close>

definition upcase :: "u8 \<Rightarrow> u8" where
  "upcase c = (if 97 \<le> c \<and> c \<le> 122 then c - 97 + 65 else c)"

definition pad :: "nat \<Rightarrow> u8 list \<Rightarrow> u8 list" where
  "pad n cs = cs @ replicate (n - length cs) 32"

definition DOT :: u8 where "DOT = 46"

definition to_fat_name :: "u8 list \<Rightarrow> u8 list \<times> u8 list" where
  "to_fat_name input =
     (let stem = takeWhile (\<lambda>c. c \<noteq> DOT) input; rest = drop (length stem) input
      in (pad 8 (map upcase (take 8 stem)), pad 3 (map upcase (take 3 (tl rest)))))"

text \<open>One sector of the root directory: end of the directory, an entry that matches, or go on.\<close>

datatype scan = Dir_end | Match nat dirent | Go_on

fun scan_entries :: "u8 list \<Rightarrow> u8 list \<Rightarrow> nat \<Rightarrow> dirent list \<Rightarrow> scan" where
  "scan_entries name ext i [] = Go_on"
| "scan_entries name ext i (e # es) =
     (if hd (de_name e) = 0x00 then Dir_end
      else if hd (de_name e) = 0xE5 then scan_entries name ext (i + 1) es
      else if and (de_attr e) ATTR_VOLUME_ID \<noteq> 0 then scan_entries name ext (i + 1) es
      else if and (de_attr e) ATTR_DIRECTORY \<noteq> 0 then scan_entries name ext (i + 1) es
      else if de_name e = name \<and> de_ext e = ext then Match i e
      else scan_entries name ext (i + 1) es)"

primrec find_loop :: "'d ports \<Rightarrow> u8 list \<Rightarrow> u8 list \<Rightarrow> nat \<Rightarrow> u32 \<Rightarrow> 'd fs \<Rightarrow> fat16_file option \<times> 'd fs" where
  "find_loop P name ext 0 lba s = (None, s)"
| "find_loop P name ext (Suc n) lba s =
     (case read_secs P lba 1 s of
        (None, s) \<Rightarrow> (None, s)
      | (Some sector, s) \<Rightarrow>
          (case scan_entries name ext 0 (entries sector) of
             Dir_end \<Rightarrow> (None, s)
           | Match _ e \<Rightarrow> (Some \<lparr>first_cluster = de_first_cluster e, file_size = de_file_size e\<rparr>, s)
           | Go_on \<Rightarrow> find_loop P name ext n (lba + 1) s))"

definition fat16_find_file :: "'d ports \<Rightarrow> u8 list \<Rightarrow> 'd fs \<Rightarrow> fat16_file option \<times> 'd fs" where
  "fat16_find_file P filename s =
     (if \<not> mounted s then (None, s)
      else let (name, ext) = to_fat_name filename
        in find_loop P name ext (unat (root_dir_sectors s)) (root_dir_start_lba s) s)"

section \<open>Reading a file\<close>

definition fat_sector :: "'d fs \<Rightarrow> u16 \<Rightarrow> u32" where
  "fat_sector s cluster = fat_start_lba s + ucast cluster * 2 div ucast (bytes_per_sector (the_bpb s))"

definition fat_index :: "'d fs \<Rightarrow> u16 \<Rightarrow> nat" where
  "fat_index s cluster = unat ((ucast cluster * 2 :: u32) mod ucast (bytes_per_sector (the_bpb s))) div 2"

text \<open>
  The cluster loop. \<open>buffer\<close> is what has been written to the caller's buffer so far, \<open>bytes_read\<close>
  long; \<open>cached\<close> and \<open>cache\<close> are the FAT sector kept between rounds.
\<close>

partial_function (option) read_chain ::
    "'d ports \<Rightarrow> u32 \<Rightarrow> u32 \<Rightarrow> u16 \<Rightarrow> u32 \<Rightarrow> u32 \<Rightarrow> u16 list \<Rightarrow> u8 list \<Rightarrow> 'd fs
      \<Rightarrow> (u8 list option \<times> 'd fs) option" where
  "read_chain P fsize buffer_size cluster bytes_read cached cache buffer s =
     (if 2 \<le> cluster \<and> cluster < 0xFFF8 \<and> bytes_read < fsize then
        let to_read = cluster_bytes s;
            to_read = (if buffer_size < bytes_read + to_read then buffer_size - bytes_read else to_read);
            to_read = (if fsize < bytes_read + to_read then fsize - bytes_read else to_read)
        in case read_secs P (cluster_to_lba s cluster) (sectors_per_cluster (the_bpb s)) s of
             (None, s) \<Rightarrow> Some (None, s)
           | (Some cluster_buf, s) \<Rightarrow>
               let buffer = buffer @ take (unat to_read) (to_bytes cluster_buf);
                   bytes_read = bytes_read + to_read
               in if fat_sector s cluster \<noteq> cached then
                    (case read_secs P (fat_sector s cluster) 1 s of
                       (None, s) \<Rightarrow> Some (None, s)
                     | (Some sector, s) \<Rightarrow> read_chain P fsize buffer_size (sector ! fat_index s cluster)
                           bytes_read (fat_sector s cluster) sector buffer s)
                  else read_chain P fsize buffer_size (cache ! fat_index s cluster) bytes_read cached cache buffer s
      else Some (Some buffer, s))"

definition fat16_read_file ::
    "'d ports \<Rightarrow> fat16_file \<Rightarrow> u32 \<Rightarrow> 'd fs \<Rightarrow> (u8 list option \<times> 'd fs) option" where
  "fat16_read_file P file buffer_size s =
     (if \<not> mounted s then Some (None, s)
      else read_chain P (file_size file) buffer_size (first_cluster file) 0 0xFFFFFFFF [] [] s)"

section \<open>Listing the root directory\<close>

definition format_name :: "dirent \<Rightarrow> u8 list" where
  "format_name e = takeWhile (\<lambda>c. c \<noteq> 32) (de_name e) @
     (if hd (de_ext e) \<noteq> 32 then DOT # takeWhile (\<lambda>c. c \<noteq> 32) (de_ext e) else [])"

text \<open>The calls of the callback for one sector, and whether the end of the directory was met.\<close>

fun list_entries :: "dirent list \<Rightarrow> (u8 list \<times> u32) list \<times> bool" where
  "list_entries [] = ([], False)"
| "list_entries (e # es) =
     (if hd (de_name e) = 0x00 then ([], True)
      else if hd (de_name e) = 0xE5 then list_entries es
      else if and (de_attr e) ATTR_VOLUME_ID \<noteq> 0 then list_entries es
      else if and (de_attr e) ATTR_DIRECTORY \<noteq> 0 then list_entries es
      else let (calls, stop) = list_entries es in ((format_name e, de_file_size e) # calls, stop))"

primrec list_loop :: "'d ports \<Rightarrow> nat \<Rightarrow> u32 \<Rightarrow> 'd fs \<Rightarrow> (u8 list \<times> u32) list \<times> 'd fs" where
  "list_loop P 0 lba s = ([], s)"
| "list_loop P (Suc n) lba s =
     (case read_secs P lba 1 s of
        (None, s) \<Rightarrow> ([], s)
      | (Some sector, s) \<Rightarrow>
          let (calls, stop) = list_entries (entries sector)
          in if stop then (calls, s)
             else let (more, s) = list_loop P n (lba + 1) s in (calls @ more, s))"

definition fat16_list_root :: "'d ports \<Rightarrow> 'd fs \<Rightarrow> (u8 list \<times> u32) list \<times> 'd fs" where
  "fat16_list_root P s =
     (if \<not> mounted s then ([], s)
      else list_loop P (unat (root_dir_sectors s)) (root_dir_start_lba s) s)"

section \<open>The file allocation table\<close>

definition fat_read_entry :: "'d ports \<Rightarrow> u16 \<Rightarrow> 'd fs \<Rightarrow> u16 option \<times> 'd fs" where
  "fat_read_entry P cluster s =
     (let (sector, s') = read_secs P (fat_sector s cluster) 1 s
      in (map_option (\<lambda>ws. ws ! fat_index s cluster) sector, s'))"

text \<open>The copies of the FAT still to update.\<close>

primrec write_copies :: "'d ports \<Rightarrow> u16 \<Rightarrow> u16 \<Rightarrow> nat \<Rightarrow> u32 \<Rightarrow> 'd fs \<Rightarrow> bool \<times> 'd fs" where
  "write_copies P cluster val 0 lba s = (True, s)"
| "write_copies P cluster val (Suc n) lba s =
     (case read_secs P lba 1 s of
        (None, s) \<Rightarrow> (False, s)
      | (Some sector, s) \<Rightarrow>
          (case write_secs P lba 1 (sector[fat_index s cluster := val]) s of
             (False, s) \<Rightarrow> (False, s)
           | (True, s) \<Rightarrow> write_copies P cluster val n (lba + ucast (sectors_per_fat (the_bpb s))) s))"

definition fat_write_entry :: "'d ports \<Rightarrow> u16 \<Rightarrow> u16 \<Rightarrow> 'd fs \<Rightarrow> bool \<times> 'd fs" where
  "fat_write_entry P cluster val s =
     write_copies P cluster val (unat (num_fats (the_bpb s))) (fat_sector s cluster) s"

definition total_clusters :: "'d fs \<Rightarrow> u32" where
  "total_clusters s = (ucast (total_sectors_16 (the_bpb s)) - data_start_lba s)
     div ucast (sectors_per_cluster (the_bpb s)) + 2"

text \<open>The scan counts in 16 bits and may wrap.\<close>

partial_function (option) alloc_loop :: "'d ports \<Rightarrow> u16 \<Rightarrow> 'd fs \<Rightarrow> (u16 option \<times> 'd fs) option" where
  "alloc_loop P c s =
     (if ucast c < total_clusters s then
        (case fat_read_entry P c s of
           (None, s) \<Rightarrow> Some (None, s)
         | (Some val, s) \<Rightarrow>
             if val = FAT_ENTRY_FREE then
               (case fat_write_entry P c FAT_ENTRY_END s of
                  (False, s) \<Rightarrow> Some (None, s)
                | (True, s) \<Rightarrow> Some (Some c, s))
             else alloc_loop P (c + 1) s)
      else Some (None, s))"

definition fat_alloc_cluster :: "'d ports \<Rightarrow> 'd fs \<Rightarrow> (u16 option \<times> 'd fs) option" where
  "fat_alloc_cluster P s = (if sectors_per_cluster (the_bpb s) = 0 then None else alloc_loop P 2 s)"

partial_function (option) fat_free_chain :: "'d ports \<Rightarrow> u16 \<Rightarrow> 'd fs \<Rightarrow> 'd fs option" where
  "fat_free_chain P cluster s =
     (if 2 \<le> cluster \<and> cluster < 0xFFF8 then
        (case fat_read_entry P cluster s of
           (None, s) \<Rightarrow> Some s
         | (Some nxt, s) \<Rightarrow> fat_free_chain P nxt (snd (fat_write_entry P cluster FAT_ENTRY_FREE s)))
      else Some s)"

section \<open>Writing and deleting a file\<close>

text \<open>
  \<open>find_dirent_slot\<close>: the sector, the index, and the entry when there was one. \<open>free\<close> is the first
  free slot met so far.
\<close>

fun slot_entries ::
    "u8 list \<Rightarrow> u8 list \<Rightarrow> u32 \<Rightarrow> nat \<Rightarrow> (u32 \<times> nat) option \<Rightarrow> dirent list \<Rightarrow> scan \<times> (u32 \<times> nat) option" where
  "slot_entries name ext lba i free [] = (Go_on, free)"
| "slot_entries name ext lba i free (e # es) =
     (let free' = (if free = None then Some (lba, i) else free) in
      if hd (de_name e) = 0x00 then (Dir_end, free')
      else if hd (de_name e) = 0xE5 then slot_entries name ext lba (i + 1) free' es
      else if and (de_attr e) (or ATTR_VOLUME_ID ATTR_DIRECTORY) \<noteq> 0
        then slot_entries name ext lba (i + 1) free es
      else if de_name e = name \<and> de_ext e = ext then (Match i e, free)
      else slot_entries name ext lba (i + 1) free es)"

primrec slot_loop ::
    "'d ports \<Rightarrow> u8 list \<Rightarrow> u8 list \<Rightarrow> nat \<Rightarrow> u32 \<Rightarrow> (u32 \<times> nat) option \<Rightarrow> 'd fs
      \<Rightarrow> (u32 \<times> nat \<times> dirent option) option \<times> 'd fs" where
  "slot_loop P name ext 0 lba free s = (map_option (\<lambda>(l, i). (l, i, None)) free, s)"
| "slot_loop P name ext (Suc n) lba free s =
     (case read_secs P lba 1 s of
        (None, s) \<Rightarrow> (None, s)
      | (Some sector, s) \<Rightarrow>
          (case slot_entries name ext lba 0 free (entries sector) of
             (Dir_end, free) \<Rightarrow> (map_option (\<lambda>(l, i). (l, i, None)) free, s)
           | (Match i e, _) \<Rightarrow> (Some (lba, i, Some e), s)
           | (Go_on, free) \<Rightarrow> slot_loop P name ext n (lba + 1) free s))"

definition find_dirent_slot ::
    "'d ports \<Rightarrow> u8 list \<Rightarrow> 'd fs \<Rightarrow> (u32 \<times> nat \<times> dirent option) option \<times> 'd fs" where
  "find_dirent_slot P filename s =
     (let (name, ext) = to_fat_name filename
      in slot_loop P name ext (unat (root_dir_sectors s)) (root_dir_start_lba s) None s)"

text \<open>Freeing the clusters an entry had, if it existed.\<close>

definition free_existing :: "'d ports \<Rightarrow> dirent option \<Rightarrow> 'd fs \<Rightarrow> 'd fs option" where
  "free_existing P existing s =
     (case existing of
        Some e \<Rightarrow> if de_first_cluster e \<noteq> 0 then fat_free_chain P (de_first_cluster e) s else Some s
      | None \<Rightarrow> Some s)"

text \<open>
  The cluster loop of \<open>fat16_write_file\<close>, with the clusters still needed and the bytes still to
  copy; \<open>i0\<close> is \<open>i == 0\<close>. \<open>Inl\<close> when the function returns 0 from inside the loop, else the first and last cluster.
\<close>

primrec write_clusters ::
    "'d ports \<Rightarrow> nat \<Rightarrow> bool \<Rightarrow> u16 \<Rightarrow> u16 \<Rightarrow> u8 list \<Rightarrow> 'd fs
      \<Rightarrow> ((unit + u16 \<times> u16) \<times> 'd fs) option" where
  "write_clusters P 0 i0 first prev data s = Some (Inr (first, prev), s)"
| "write_clusters P (Suc n) i0 first prev data s =
     (case fat_alloc_cluster P s of
        None \<Rightarrow> None
      | Some (None, s) \<Rightarrow>
          if first \<noteq> 0 then map_option (\<lambda>s. (Inl (), s)) (fat_free_chain P first s) else Some (Inl (), s)
      | Some (Some cluster, s) \<Rightarrow>
          let s = (if i0 then s else snd (fat_write_entry P prev cluster s));
              first = (if i0 then cluster else first);
              chunk = take (unat (cluster_bytes s)) data;
              cluster_buf = to_words (chunk @ replicate (unat (cluster_bytes s) - length chunk) 0)
          in (case write_secs P (cluster_to_lba s cluster) (sectors_per_cluster (the_bpb s)) cluster_buf s of
                (False, s) \<Rightarrow> Some (Inl (), s)
              | (True, s) \<Rightarrow> write_clusters P n False first cluster (drop (unat (cluster_bytes s)) data) s))"

definition clusters_needed :: "'d fs \<Rightarrow> u32 \<Rightarrow> u32" where
  "clusters_needed s n = (if n = 0 then 0 else (n + cluster_bytes s - 1) div cluster_bytes s)"

definition file_dirent :: "u8 list \<Rightarrow> u16 \<Rightarrow> u32 \<Rightarrow> dirent" where
  "file_dirent filename first n =
     (let (name, ext) = to_fat_name filename
      in \<lparr>de_name = name, de_ext = ext, de_attr = 0x20, de_reserved = replicate 10 0,
          de_write_time = 0, de_write_date = 0, de_first_cluster = first, de_file_size = n\<rparr>)"

definition fat16_write_file :: "'d ports \<Rightarrow> u8 list \<Rightarrow> u8 list \<Rightarrow> 'd fs \<Rightarrow> (bool \<times> 'd fs) option" where
  "fat16_write_file P filename data s =
     (if \<not> mounted s then Some (False, s)
      else case find_dirent_slot P filename s of
        (None, s) \<Rightarrow> Some (False, s)
      | (Some (lba, i, existing), s) \<Rightarrow>
        (case free_existing P existing s of None \<Rightarrow> None
         | Some s \<Rightarrow>
           if data \<noteq> [] \<and> cluster_bytes s = 0 then None
           else (let needed = clusters_needed s (of_nat (length data)) in
             case write_clusters P (unat needed) True 0 0 data s of
             None \<Rightarrow> None
           | Some (Inl _, s) \<Rightarrow> Some (False, s)
           | Some (Inr (first, prev), s) \<Rightarrow>
               let s = (if needed = 0 then s else snd (fat_write_entry P prev FAT_ENTRY_END s)) in
               (case read_secs P lba 1 s of
                  (None, s) \<Rightarrow> Some (False, s)
                | (Some sector, s) \<Rightarrow>
                    Some (write_secs P lba 1
                      (put_entry i (file_dirent filename first (of_nat (length data))) sector) s)))))"

definition fat16_delete_file :: "'d ports \<Rightarrow> u8 list \<Rightarrow> 'd fs \<Rightarrow> (bool \<times> 'd fs) option" where
  "fat16_delete_file P filename s =
     (if \<not> mounted s then Some (False, s)
      else case find_dirent_slot P filename s of
        (None, s) \<Rightarrow> Some (False, s)
      | (Some (lba, i, None), s) \<Rightarrow> Some (False, s)
      | (Some (lba, i, Some e), s) \<Rightarrow>
        (case free_existing P (Some e) s of None \<Rightarrow> None
         | Some s \<Rightarrow>
           (case read_secs P lba 1 s of
              (None, s) \<Rightarrow> Some (False, s)
            | (Some sector, s) \<Rightarrow>
                Some (write_secs P lba 1 (sector[16 * i := or (and (sector ! (16 * i)) 0xFF00) 0xE5]) s))))"

section \<open>Volumes\<close>

text \<open>
  A mounted volume with the regions in order, within the 16-bit sector count of the boot sector,
  and with a FAT that has an entry for every cluster. \<open>f\<close> below are the sectors of the partition.
\<close>

definition volume :: "'d fs \<Rightarrow> bool" where
  "volume s \<longleftrightarrow> mounted s \<and> bytes_per_sector (the_bpb s) = 512 \<and>
     1 \<le> unat (sectors_per_cluster (the_bpb s)) \<and> unat (sectors_per_cluster (the_bpb s)) \<le> 8 \<and>
     1 \<le> unat (num_fats (the_bpb s)) \<and>
     unat (fat_start_lba s) + unat (num_fats (the_bpb s)) * unat (sectors_per_fat (the_bpb s))
       \<le> unat (root_dir_start_lba s) \<and>
     unat (root_dir_start_lba s) + unat (root_dir_sectors s) \<le> unat (data_start_lba s) \<and>
     unat (data_start_lba s) \<le> unat (total_sectors_16 (the_bpb s)) \<and>
     unat (total_clusters s) \<le> 256 * unat (sectors_per_fat (the_bpb s)) \<and>
     unat (total_clusters s) \<le> 0xFFF8"

definition valid_cluster :: "'d fs \<Rightarrow> u16 \<Rightarrow> bool" where
  "valid_cluster s c \<longleftrightarrow> 2 \<le> unat c \<and> unat c < unat (total_clusters s)"

definition spc :: "'d fs \<Rightarrow> nat" where
  "spc s = unat (sectors_per_cluster (the_bpb s))"

definition fat_at :: "'d fs \<Rightarrow> (nat \<Rightarrow> u16 list) \<Rightarrow> u16 \<Rightarrow> u16" where
  "fat_at s f c = f (unat (fat_start_lba s) + unat c div 256) ! (unat c mod 256)"

definition cluster_start :: "'d fs \<Rightarrow> u16 \<Rightarrow> nat" where
  "cluster_start s c = unat (data_start_lba s) + (unat c - 2) * spc s"

definition cluster_data :: "'d fs \<Rightarrow> (nat \<Rightarrow> u16 list) \<Rightarrow> u16 \<Rightarrow> u8 list" where
  "cluster_data s f c = to_bytes (concat (map f [cluster_start s c..<cluster_start s c + spc s]))"

text \<open>The clusters of a file, in order.\<close>

primrec fat_chain :: "(u16 \<Rightarrow> u16) \<Rightarrow> u16 \<Rightarrow> u16 list \<Rightarrow> bool" where
  "fat_chain nxt c [] \<longleftrightarrow> \<not> (2 \<le> c \<and> c < 0xFFF8)"
| "fat_chain nxt c (x # xs) \<longleftrightarrow> x = c \<and> 2 \<le> c \<and> c < 0xFFF8 \<and> fat_chain nxt (nxt c) xs"

lemma unat_u16_bound: "unat (c :: u16) < 65536"
  using unsigned_less [of c] by simp

lemma fat_index_eq:
  assumes "bytes_per_sector (the_bpb s) = 512"
  shows "fat_index s c = unat c mod 256"
proof -
  have "unat (ucast c * 2 :: u32) = unat c * 2"
    using unat_u16_bound [of c] by (simp add: unat_word_ariths unsigned_ucast_eq take_bit_nat_eq_self)
  moreover have "unat c * 2 mod 512 = unat c mod 256 * 2"
    using mod_mult_mult2 [of "unat c" 2 256] by simp
  ultimately show ?thesis using assms by (simp add: fat_index_def unat_mod)
qed

lemma fat_sector_eq:
  assumes "volume s"
  shows "unat (fat_sector s c) = unat (fat_start_lba s) + unat c div 256"
proof -
  have "unat (ucast c * 2 :: u32) = unat c * 2"
    using unat_u16_bound [of c] by (simp add: unat_word_ariths unsigned_ucast_eq take_bit_nat_eq_self)
  then have "unat (ucast c * 2 div ucast (bytes_per_sector (the_bpb s)) :: u32) = unat c div 256"
    using assms by (simp add: volume_def unat_div)
  moreover have "unat (fat_start_lba s) < 65536"
    using assms unat_u16_bound [of "total_sectors_16 (the_bpb s)"] by (simp add: volume_def)
  ultimately show ?thesis
    using unat_u16_bound [of c] by (simp add: fat_sector_def unat_word_ariths)
qed

lemma unat_total_clusters:
  assumes "volume s"
  shows "unat (total_clusters s) =
    (unat (total_sectors_16 (the_bpb s)) - unat (data_start_lba s)) div spc s + 2"
proof -
  let ?d = "ucast (total_sectors_16 (the_bpb s)) - data_start_lba s :: u32"
  have t: "unat (ucast (total_sectors_16 (the_bpb s)) :: u32) = unat (total_sectors_16 (the_bpb s))"
    using unat_u16_bound [of "total_sectors_16 (the_bpb s)"] by (simp add: unsigned_ucast_eq take_bit_nat_eq_self)
  have d: "unat ?d = unat (total_sectors_16 (the_bpb s)) - unat (data_start_lba s)"
    using assms t by (subst unat_sub) (simp_all add: volume_def word_le_nat_alt)
  have q: "unat (?d div ucast (sectors_per_cluster (the_bpb s))) = unat ?d div spc s"
    by (simp add: unat_div spc_def unsigned_ucast_eq take_bit_nat_eq_self
        order.strict_trans2 [OF unsigned_less [of "sectors_per_cluster (the_bpb s)"]])
  have "unat ?d div spc s < 65536"
    using d unat_u16_bound [of "total_sectors_16 (the_bpb s)"] div_le_dividend [of "unat ?d" "spc s"] by linarith
  then show ?thesis
    using d q by (simp add: total_clusters_def unat_word_ariths)
qed

lemma valid_cluster_bounds:
  assumes "volume s" "valid_cluster s c"
  shows "cluster_start s c + spc s \<le> unat (total_sectors_16 (the_bpb s))"
    and "unat (cluster_to_lba s c) = cluster_start s c"
    and "2 \<le> c \<and> c < 0xFFF8"
proof -
  let ?t = "unat (total_sectors_16 (the_bpb s))" and ?d = "unat (data_start_lba s)"
  have "unat c - 2 + 1 \<le> (?t - ?d) div spc s"
    using assms(2) unat_total_clusters [OF assms(1)] unfolding valid_cluster_def by linarith
  then have "(unat c - 2 + 1) * spc s \<le> (?t - ?d) div spc s * spc s"
    by (rule mult_le_mono1)
  also have "\<dots> \<le> ?t - ?d" by simp
  finally have "(unat c - 2) * spc s + spc s \<le> ?t - ?d" by simp
  then show *: "cluster_start s c + spc s \<le> ?t"
    using assms(1) unfolding cluster_start_def volume_def by linarith
  have "?t < 65536" by (rule unat_u16_bound)
  have "2 \<le> (ucast c :: u32)" "unat (ucast c :: u32) = unat c"
    using assms(2) unat_u16_bound [of c]
    by (simp_all add: valid_cluster_def word_le_nat_alt unsigned_ucast_eq take_bit_nat_eq_self)
  then have "unat ((ucast c - 2) * ucast (sectors_per_cluster (the_bpb s)) :: u32) = (unat c - 2) * spc s"
    using * \<open>?t < 65536\<close> unsigned_less [of "sectors_per_cluster (the_bpb s)"]
    by (simp add: unat_word_ariths unat_sub spc_def unsigned_ucast_eq take_bit_nat_eq_self cluster_start_def)
  then show "unat (cluster_to_lba s c) = cluster_start s c"
    using * \<open>?t < 65536\<close> by (simp add: cluster_to_lba_def cluster_start_def unat_word_ariths)
  show "2 \<le> c \<and> c < 0xFFF8"
    using assms by (simp add: valid_cluster_def volume_def word_le_nat_alt word_less_nat_alt)
qed

lemma fat_sector_bound:
  assumes "volume s" "unat c < unat (total_clusters s)"
  shows "unat (fat_sector s c) < unat (root_dir_start_lba s)"
proof -
  have "unat c < 256 * unat (sectors_per_fat (the_bpb s))"
    using assms by (simp add: volume_def)
  then have "unat c div 256 < unat (sectors_per_fat (the_bpb s))"
    by (simp add: less_mult_imp_div_less mult.commute)
  moreover have "1 * unat (sectors_per_fat (the_bpb s)) \<le> unat (num_fats (the_bpb s)) * unat (sectors_per_fat (the_bpb s))"
    using assms(1) by (intro mult_le_mono1) (simp add: volume_def)
  ultimately show ?thesis
    using assms(1) fat_sector_eq [OF assms(1), of c] unfolding volume_def by linarith
qed

lemma volume_sectors:
  assumes "volume s"
  shows "unat (root_dir_start_lba s) + unat (root_dir_sectors s) < 65536" "unat (data_start_lba s) < 65536"
  using assms unat_u16_bound [of "total_sectors_16 (the_bpb s)"] by (auto simp: volume_def)

lemma cluster_bytes_eq:
  assumes "volume s"
  shows "unat (cluster_bytes s) = 512 * spc s" "1 \<le> spc s" "spc s \<le> 8"
  using assms by (auto simp: volume_def spc_def cluster_bytes_def unat_word_ariths unsigned_ucast_eq take_bit_nat_eq_self)

text \<open>How much of a cluster is copied.\<close>

lemma clip_to_read:
  fixes n cb fsize bsize :: u32
  assumes "unat n \<le> unat fsize" "unat fsize \<le> unat bsize" "unat fsize + 4096 < 2 ^ 32" "unat cb \<le> 4096"
    and "t1 = (if bsize < n + cb then bsize - n else cb)"
    and "t = (if fsize < n + t1 then fsize - n else t1)"
  shows "unat t = min (unat cb) (unat fsize - unat n)"
proof -
  have n_cb: "unat (n + cb) = unat n + unat cb"
    using assms(1,3,4) by (simp add: unat_word_ariths)
  have sub: "unat (bsize - n) = unat bsize - unat n" "unat (fsize - n) = unat fsize - unat n"
    using assms(1,2) by (simp_all add: unat_sub word_le_nat_alt)
  have t1: "unat t1 = min (unat cb) (unat bsize - unat n)"
    using assms(1,2) n_cb sub by (auto simp: assms(5) word_less_nat_alt)
  then have "unat (n + t1) = unat n + unat t1"
    using assms(1,3,4) by (simp add: unat_word_ariths)
  then show ?thesis
    using assms(1,2) t1 sub by (auto simp: assms(6) word_less_nat_alt min_def split: if_splits)
qed

section \<open>Reading\<close>

lemma length_to_bytes [simp]: "length (to_bytes ws) = 2 * length ws"
  by (induction ws) (simp_all add: to_bytes_def word_bytes_def)

lemma volume_dev [simp]:
  "volume (s\<lparr>dev := d\<rparr>) = volume s"
  "cluster_bytes (s\<lparr>dev := d\<rparr>) = cluster_bytes s"
  "cluster_to_lba (s\<lparr>dev := d\<rparr>) c = cluster_to_lba s c"
  "fat_sector (s\<lparr>dev := d\<rparr>) c = fat_sector s c"
  "fat_index (s\<lparr>dev := d\<rparr>) c = fat_index s c"
  "total_clusters (s\<lparr>dev := d\<rparr>) = total_clusters s"
  "valid_cluster (s\<lparr>dev := d\<rparr>) c = valid_cluster s c"
  "cluster_start (s\<lparr>dev := d\<rparr>) c = cluster_start s c"
  "cluster_data (s\<lparr>dev := d\<rparr>) = cluster_data s"
  "fat_at (s\<lparr>dev := d\<rparr>) = fat_at s"
  "spc (s\<lparr>dev := d\<rparr>) = spc s"
  by (simp_all add: volume_def cluster_bytes_def cluster_to_lba_def fat_sector_def fat_index_def
      total_clusters_def valid_cluster_def cluster_start_def cluster_data_def fat_at_def spc_def fun_eq_iff)

definition cache_ok :: "(nat \<Rightarrow> u16 list) \<Rightarrow> u32 \<Rightarrow> u16 list \<Rightarrow> bool" where
  "cache_ok f cached cache \<longleftrightarrow> cached = 0xFFFFFFFF \<or> cache = f (unat cached)"

lemma concat_sectors_length:
  "\<forall>i. length (f i) = (256::nat) \<Longrightarrow> length (concat (map f [a..<a + n])) = 256 * n"
  using length_concat_sectors [of f "[a..<a + n]"] by simp

text \<open>One round of the cluster loop.\<close>

lemma read_chain_round:
  assumes "2 \<le> c" "c < 0xFFF8" "n < fsize"
    and "t1 = (if bsize < n + cluster_bytes s then bsize - n else cluster_bytes s)"
    and "t = (if fsize < n + t1 then fsize - n else t1)"
    and "read_secs P (cluster_to_lba s c) (sectors_per_cluster (the_bpb s)) s = (Some buf, s1)"
  shows "read_chain P fsize bsize c n cached cache buffer s =
    (if fat_sector s1 c \<noteq> cached then
       (case read_secs P (fat_sector s1 c) 1 s1 of
          (None, s) \<Rightarrow> Some (None, s)
        | (Some sector, s) \<Rightarrow> read_chain P fsize bsize (sector ! fat_index s c)
              (n + t) (fat_sector s c) sector (buffer @ take (unat t) (to_bytes buf)) s)
     else read_chain P fsize bsize (cache ! fat_index s1 c) (n + t) cached cache
        (buffer @ take (unat t) (to_bytes buf)) s1)"
  unfolding read_chain.simps [of P fsize bsize c n cached cache buffer s]
    assms(6) Let_def prod.case option.case assms(4,5) [symmetric]
  by (simp only: assms(1-3) if_True simp_thms)

lemma take_min_append:
  "length x = l \<Longrightarrow> take (min l r) x @ take (r - min l r) y = take r (x @ y)"
  by (simp add: min_def)

context sector_store
begin

lemma read_secs_ok:
  assumes "ok (dev s)" "unat lba + unat n \<le> capacity"
  obtains d where "read_secs P lba n s =
      (Some (concat (map (sec (dev s)) [unat lba..<unat lba + unat n])), s\<lparr>dev := d\<rparr>)"
    "ok d" "sec d = sec (dev s)"
proof -
  obtain d' where "ata_read_sectors P lba n (dev s) =
      (Some (concat (map (sec (dev s)) [unat lba..<unat lba + unat n])), d')" "ok d'" "sec d' = sec (dev s)"
    using read_sectors [OF assms] by blast
  then show ?thesis by (intro that [of d']) (simp_all add: read_secs_def)
qed

lemma read_sec_ok:
  assumes "ok (dev s)" "unat lba < capacity"
  obtains d where "read_secs P lba 1 s = (Some (sec (dev s) (unat lba)), s\<lparr>dev := d\<rparr>)"
    "ok d" "sec d = sec (dev s)"
  using read_secs_ok [of s lba 1] assms by auto

lemma write_sec_ok:
  assumes "ok (dev s)" "unat lba < capacity" "length buf = 256"
  obtains d where "write_secs P lba 1 buf s = (True, s\<lparr>dev := d\<rparr>)"
    "ok d" "sec d = (sec (dev s))(unat lba := buf)"
proof (rule write_one [OF assms])
  fix d'
  assume "ata_write_sectors P lba 1 buf (dev s) = (True, d')" "ok d'"
    "sec d' = (sec (dev s))(unat lba := buf)"
  then show ?thesis by (intro that [of d']) (simp_all add: write_secs_def)
qed

lemma read_chain_spec:
  assumes "volume s" "ok (dev s)" "65536 \<le> capacity" "f = sec (dev s)"
    and "fat_chain (fat_at s f) c cs" "\<forall>c\<in>set cs. valid_cluster s c"
    and "unat n \<le> unat fsize" "unat fsize \<le> unat bsize" "unat fsize + 4096 < 2 ^ 32"
    and "cache_ok f cached cache"
  shows "\<exists>d. read_chain P fsize bsize c n cached cache buffer s =
      Some (Some (buffer @ take (unat fsize - unat n) (concat (map (cluster_data s f) cs))), s\<lparr>dev := d\<rparr>)
      \<and> ok d \<and> sec d = f"
  using assms
proof (induction cs arbitrary: c n cached cache buffer s)
  case Nil
  then show ?case
    by (subst read_chain.simps) (auto intro!: exI [of _ "dev s"])
next
  case (Cons c' cs)
  have [simp]: "c' = c" using Cons.prems(5) by simp
  have val: "valid_cluster s c" using Cons.prems(6) by simp
  note bounds = valid_cluster_bounds [OF Cons.prems(1) val]
  have t16: "unat (total_sectors_16 (the_bpb s)) < 65536" by (rule unat_u16_bound)
  show ?case
  proof (cases "n < fsize")
    case False
    then have "unat fsize - unat n = 0" by (simp add: word_less_nat_alt)
    with False show ?thesis
      using Cons.prems(2,4) by (subst read_chain.simps) (auto intro!: exI [of _ "dev s"])
  next
    case True
    obtain d1 where d1: "read_secs P (cluster_to_lba s c) (sectors_per_cluster (the_bpb s)) s =
        (Some (concat (map f [cluster_start s c..<cluster_start s c + spc s])), s\<lparr>dev := d1\<rparr>)"
      "ok d1" "sec d1 = f"
      using read_secs_ok [OF Cons.prems(2), of "cluster_to_lba s c" "sectors_per_cluster (the_bpb s)"]
        bounds t16 Cons.prems(3,4) by (auto simp: spc_def)
    define t1 where "t1 = (if bsize < n + cluster_bytes s then bsize - n else cluster_bytes s)"
    define t where "t = (if fsize < n + t1 then fsize - n else t1)"
    have t: "unat t = min (512 * spc s) (unat fsize - unat n)"
      using clip_to_read [OF Cons.prems(7-9) _ t1_def t_def] cluster_bytes_eq [OF Cons.prems(1)] by simp
    have "unat n + unat t \<le> unat fsize"
      unfolding t using Cons.prems(7) by simp
    then have n_t: "unat (n + t) = unat n + unat t" "unat (n + t) \<le> unat fsize"
      using Cons.prems(9) by (simp_all add: unat_word_ariths)
    have len: "length (cluster_data s f c) = 512 * spc s"
      using length_sec [OF Cons.prems(2)] Cons.prems(4)
      by (simp add: cluster_data_def concat_sectors_length)
    let ?buffer = "buffer @ take (unat t) (cluster_data s f c)"
    have data: "?buffer @ take (unat fsize - unat (n + t)) (concat (map (cluster_data s f) cs)) =
        buffer @ take (unat fsize - unat n) (concat (map (cluster_data s f) (c # cs)))"
      using take_min_append [OF len, of "unat fsize - unat n"] by (simp add: n_t t)
    have sector: "unat (fat_sector s c) < capacity" "fat_sector s c \<noteq> 0xFFFFFFFF"
    proof -
      have "unat (fat_sector s c) < 65536"
        using fat_sector_bound [OF Cons.prems(1), of c] val volume_sectors(1) [OF Cons.prems(1)]
        by (simp add: valid_cluster_def)
      with Cons.prems(3) show "unat (fat_sector s c) < capacity" "fat_sector s c \<noteq> 0xFFFFFFFF" by auto
    qed
    have nxt: "f (unat (fat_sector s c)) ! fat_index s c = fat_at s f c"
      using Cons.prems(1) by (simp add: fat_at_def fat_sector_eq fat_index_eq volume_def)
    have chn: "fat_chain (fat_at s f) (fat_at s f c) cs" "\<forall>c\<in>set cs. valid_cluster s c"
      using Cons.prems(5,6) by simp_all
    have IH: "\<exists>d'. read_chain P fsize bsize (fat_at s f c) (n + t) cached' cache' ?buffer (s\<lparr>dev := d\<rparr>) =
        Some (Some (buffer @ take (unat fsize - unat n) (concat (map (cluster_data s f) (c # cs)))), s\<lparr>dev := d'\<rparr>)
        \<and> ok d' \<and> sec d' = f"
      if "ok d" "sec d = f" "cache_ok f cached' cache'" for d cached' cache'
      using Cons.IH [of "s\<lparr>dev := d\<rparr>" "fat_at s f c" "n + t" cached' cache' ?buffer] that chn n_t(2)
        Cons.prems(1,3,8,9) data by simp
    have step: "read_chain P fsize bsize c n cached cache buffer s =
      (if fat_sector s c \<noteq> cached then
         (case read_secs P (fat_sector s c) 1 (s\<lparr>dev := d1\<rparr>) of
            (None, s) \<Rightarrow> Some (None, s)
          | (Some sector, s') \<Rightarrow> read_chain P fsize bsize (sector ! fat_index s' c)
                (n + t) (fat_sector s' c) sector ?buffer s')
       else read_chain P fsize bsize (cache ! fat_index s c) (n + t) cached cache ?buffer (s\<lparr>dev := d1\<rparr>))"
      using read_chain_round [OF _ _ True t1_def t_def d1(1)] bounds(3)
      unfolding cluster_data_def by simp
    show ?thesis
    proof (cases "fat_sector s c = cached")
      case hit: True
      then have "cache ! fat_index s c = fat_at s f c"
        using Cons.prems(10) sector(2) nxt by (auto simp: cache_ok_def)
      with hit step IH [OF d1(2,3) Cons.prems(10)] show ?thesis by simp
    next
      case False
      obtain d2 where d2: "read_secs P (fat_sector s c) 1 (s\<lparr>dev := d1\<rparr>) =
          (Some (f (unat (fat_sector s c))), s\<lparr>dev := d2\<rparr>)" "ok d2" "sec d2 = f"
        using read_sec_ok [of "s\<lparr>dev := d1\<rparr>" "fat_sector s c"] d1 sector(1) by auto
      have "cache_ok f (fat_sector s c) (f (unat (fat_sector s c)))" by (simp add: cache_ok_def)
      from IH [OF d2(2,3) this] False step d2(1) nxt show ?thesis by simp
    qed
  qed
qed

end

text \<open>A small volume: two FATs of one sector, one root directory sector, data from sector 4.\<close>

definition demo_drive :: drive where
  "demo_drive = blank_drive\<lparr>d_sectors := (\<lambda>_. replicate 256 0)
     (2049 := [0xFFF8, 0xFFFF, 3, 0xFFFF] @ replicate 252 0,
      2050 := [0xFFF8, 0xFFFF, 3, 0xFFFF] @ replicate 252 0,
      2051 := [0x4946, 0x454C, 0x2020, 0x2020, 0x5854, 0x2054] @ replicate 7 0 @ [2, 600, 0] @ replicate 240 0,
      2052 := replicate 256 0x4142, 2053 := replicate 256 0x4344)\<rparr>"

definition demo_fs :: "drive fs" where
  "demo_fs = \<lparr>the_bpb = \<lparr>bytes_per_sector = 512, sectors_per_cluster = 1, reserved_sector_count = 1,
       num_fats = 2, root_entry_count = 16, total_sectors_16 = 40, sectors_per_fat = 1\<rparr>,
     fat_start_lba = 1, root_dir_start_lba = 3, root_dir_sectors = 1, data_start_lba = 4,
     mounted = True, dev = demo_drive\<rparr>"

lemma demo_volume: "volume demo_fs"
  by (simp add: volume_def demo_fs_def total_clusters_def)

lemma demo_ok: "drive_ok (dev demo_fs)"
  by (simp add: drive_ok_def demo_fs_def demo_drive_def)

lemma demo_dev [simp]: "dev demo_fs = demo_drive"
  by (simp add: demo_fs_def)

lemma fs_sectors_512: "FS_SECTORS \<ge> 65536"
  by (simp add: FS_SECTORS_def)

text \<open>C20: \<open>fat16_read_file\<close>, given a buffer as large as the file says it is, returns, and what it
  leaves in the buffer is the data of the clusters of the file's chain, in chain order, cut at the
  file size; nothing on the disk changes. (A chain that ends early gives a shorter result, not an
  error.)\<close>

theorem fat16_read_file_spec:
  assumes "volume s" "drive_ok (dev s)" "f = fs_sectors (dev s)"
    and "fat_chain (fat_at s f) (first_cluster file) cs" "\<forall>c\<in>set cs. valid_cluster s c"
    and "unat (file_size file) \<le> unat buffer_size" "unat (file_size file) + 4096 < 2 ^ 32"
  shows "\<exists>d. fat16_read_file drive_ports file buffer_size s =
      Some (Some (take (unat (file_size file)) (concat (map (cluster_data s f) cs))), s\<lparr>dev := d\<rparr>)
    \<and> drive_ok d \<and> fs_sectors d = f"
  using disk.read_chain_spec [OF assms(1,2) fs_sectors_512 assms(3,4,5) _ assms(6,7), of 0 "0xFFFFFFFF" "[]" "[]"]
    assms(1) by (simp add: fat16_read_file_def volume_def cache_ok_def)

lemma fat16_read_file_spec_witness:
  "\<exists>d. fat16_read_file drive_ports \<lparr>first_cluster = 2, file_size = 600\<rparr> 4096 demo_fs =
      Some (Some (take 600 (concat (map (cluster_data demo_fs (fs_sectors demo_drive)) [2, 3]))), demo_fs\<lparr>dev := d\<rparr>)
    \<and> drive_ok d \<and> fs_sectors d = fs_sectors demo_drive"
proof -
  have *: "fat_chain (fat_at demo_fs (fs_sectors (dev demo_fs))) (first_cluster \<lparr>first_cluster = 2, file_size = 600\<rparr>) [2, 3]"
    "\<forall>c\<in>set [2, 3]. valid_cluster demo_fs c"
    by (simp_all add: fat_at_def fs_sectors_def demo_drive_def demo_fs_def valid_cluster_def total_clusters_def)
  show ?thesis
    using fat16_read_file_spec [OF demo_volume demo_ok refl *, of 4096] by simp
qed

section \<open>Names\<close>

text \<open>A field as other systems write it: no dot, no lower case, spaces only as padding.\<close>

definition valid_field :: "nat \<Rightarrow> u8 list \<Rightarrow> bool" where
  "valid_field n cs \<longleftrightarrow> pad n (takeWhile (\<lambda>c. c \<noteq> 32) cs) = cs \<and> length (takeWhile (\<lambda>c. c \<noteq> 32) cs) \<le> n \<and>
     list_all (\<lambda>c. c \<noteq> DOT \<and> upcase c = c) cs"

lemma takeWhile_stem:
  assumes "list_all (\<lambda>c. c \<noteq> DOT) cs" "rest = [] \<or> hd rest = DOT"
  shows "takeWhile (\<lambda>c. c \<noteq> DOT) (cs @ rest) = cs"
  using assms by (cases rest) (auto simp: takeWhile_append2 list_all_iff takeWhile_tail)

lemma list_all_takeWhile: "list_all Q cs \<Longrightarrow> list_all Q (takeWhile R cs)"
  by (auto simp: list_all_iff dest: set_takeWhileD)

lemma map_upcase_id: "list_all (\<lambda>c. c \<noteq> DOT \<and> upcase c = c) cs \<Longrightarrow> map upcase cs = cs"
  by (simp add: list_all_iff map_idI)

lemma to_fat_name_format:
  assumes "valid_field 8 (de_name e)" "valid_field 3 (de_ext e)"
  shows "to_fat_name (format_name e) = (de_name e, de_ext e)"
proof -
  let ?stem = "takeWhile (\<lambda>c. c \<noteq> 32) (de_name e)" and ?x = "takeWhile (\<lambda>c. c \<noteq> 32) (de_ext e)"
  let ?rest = "if hd (de_ext e) \<noteq> 32 then DOT # ?x else []"
  have chars: "list_all (\<lambda>c. c \<noteq> DOT \<and> upcase c = c) ?stem" "list_all (\<lambda>c. c \<noteq> DOT \<and> upcase c = c) ?x"
    using assms by (auto simp: valid_field_def list_all_takeWhile)
  have stem: "takeWhile (\<lambda>c. c \<noteq> DOT) (format_name e) = ?stem"
    unfolding format_name_def using chars(1) by (intro takeWhile_stem) (auto simp: list_all_iff)
  have "tl ?rest = ?x"
    using assms(2) by (cases "de_ext e") (auto simp: valid_field_def)
  then have rest: "tl (drop (length ?stem) (format_name e)) = ?x"
    by (simp add: format_name_def)
  show ?thesis
    using assms chars unfolding to_fat_name_def Let_def stem rest
    by (simp add: map_upcase_id valid_field_def)
qed

text \<open>The entries that name files, and volumes on which all of them have valid names.\<close>

definition is_file :: "dirent \<Rightarrow> bool" where
  "is_file e \<longleftrightarrow> hd (de_name e) \<noteq> 0 \<and> hd (de_name e) \<noteq> 0xE5 \<and>
     and (de_attr e) ATTR_VOLUME_ID = 0 \<and> and (de_attr e) ATTR_DIRECTORY = 0"

definition valid_name :: "dirent \<Rightarrow> bool" where
  "valid_name e \<longleftrightarrow> valid_field 8 (de_name e) \<and> valid_field 3 (de_ext e)"

definition root_sectors :: "'d fs \<Rightarrow> (nat \<Rightarrow> u16 list) \<Rightarrow> u16 list list" where
  "root_sectors s f =
     map f [unat (root_dir_start_lba s)..<unat (root_dir_start_lba s) + unat (root_dir_sectors s)]"

lemma list_entries_Cons:
  "list_entries (e # es) =
     (if hd (de_name e) = 0 then ([], True)
      else if is_file e then ((format_name e, de_file_size e) # fst (list_entries es), snd (list_entries es))
      else list_entries es)"
  by (auto simp: is_file_def split: prod.split)

lemma scan_entries_Cons:
  "scan_entries name ext i (e # es) =
     (if hd (de_name e) = 0 then Dir_end
      else if is_file e \<and> de_name e = name \<and> de_ext e = ext then Match i e
      else scan_entries name ext (i + 1) es)"
  by (auto simp: is_file_def)

text \<open>A listed entry is found in its sector, and a sector that does not end the listing does not
  end the search.\<close>

lemma listed_is_found:
  assumes "\<forall>e\<in>set es. is_file e \<longrightarrow> valid_name e" "(nm, n) \<in> set (fst (list_entries es))"
  shows "\<exists>j e. scan_entries (fst (to_fat_name nm)) (snd (to_fat_name nm)) i es = Match j e"
  using assms
proof (induction es arbitrary: i)
  case (Cons e es)
  show ?case
  proof (cases "is_file e \<and> format_name e = nm")
    case True
    then have "to_fat_name nm = (de_name e, de_ext e)"
      using Cons.prems(1) to_fat_name_format [of e] by (auto simp: valid_name_def)
    then show ?thesis
      using True by (simp add: scan_entries_Cons is_file_def del: scan_entries.simps)
  next
    case False
    then have "(nm, n) \<in> set (fst (list_entries es))" "hd (de_name e) \<noteq> 0"
      using Cons.prems(2) by (auto simp: list_entries_Cons simp del: list_entries.simps split: if_splits)
    then show ?thesis
      using Cons.IH Cons.prems(1) by (auto simp: scan_entries_Cons simp del: scan_entries.simps)
  qed
qed simp

lemma not_stopped_goes_on: "\<not> snd (list_entries es) \<Longrightarrow> scan_entries name ext i es \<noteq> Dir_end"
  by (induction es arbitrary: i)
    (auto simp: scan_entries_Cons list_entries_Cons simp del: scan_entries.simps(2) list_entries.simps(2) split: if_splits)

context sector_store
begin

lemma listed_found_loop:
  assumes "ok (dev s)" "f = sec (dev s)" "unat lba + n \<le> 65536" "65536 \<le> capacity"
    and "\<forall>i\<in>{unat lba..<unat lba + n}. \<forall>e\<in>set (entries (f i)). is_file e \<longrightarrow> valid_name e"
    and "(nm, z) \<in> set (fst (list_loop P n lba s))"
  shows "\<exists>file d. find_loop P (fst (to_fat_name nm)) (snd (to_fat_name nm)) n lba s = (Some file, s\<lparr>dev := d\<rparr>)
    \<and> ok d \<and> sec d = f"
  using assms
proof (induction n arbitrary: lba s)
  case (Suc n)
  obtain d where d: "read_secs P lba 1 s = (Some (f (unat lba)), s\<lparr>dev := d\<rparr>)" "ok d" "sec d = f"
    using read_sec_ok [of s lba] Suc.prems by auto
  let ?es = "entries (f (unat lba))" and ?n = "fst (to_fat_name nm)" and ?x = "snd (to_fat_name nm)"
  have valid: "\<forall>e\<in>set ?es. is_file e \<longrightarrow> valid_name e"
    using bspec [OF Suc.prems(5), of "unat lba"] by simp
  show ?case
  proof (cases "\<exists>j e. scan_entries ?n ?x 0 ?es = Match j e")
    case True
    then show ?thesis using d by (auto intro!: exI [of _ d])
  next
    case False
    then have notin: "(nm, z) \<notin> set (fst (list_entries ?es))"
      using listed_is_found [OF valid] by blast
    have go: "\<not> snd (list_entries ?es)"
      using notin Suc.prems(6) d(1) by (auto split: prod.splits if_splits)
    then have "scan_entries ?n ?x 0 ?es = Go_on"
      using not_stopped_goes_on False by (metis scan.exhaust)
    moreover have "\<exists>file d'. find_loop P ?n ?x n (lba + 1) (s\<lparr>dev := d\<rparr>) = (Some file, s\<lparr>dev := d\<rparr>\<lparr>dev := d'\<rparr>)
        \<and> ok d' \<and> sec d' = f"
    proof (cases n)
      case 0
      then show ?thesis using go notin Suc.prems(6) d(1) by (auto split: prod.splits)
    next
      case (Suc m)
      then have "unat (lba + 1) = unat lba + 1"
        using \<open>unat lba + Suc n \<le> 65536\<close> by (simp add: unat_word_ariths)
      then show ?thesis
        using d go notin Suc.prems by (intro Suc.IH) (auto split: prod.splits)
    qed
    ultimately show ?thesis using d(1) by auto
  qed
qed simp

end

text \<open>Every file that \<open>fat16_list_root\<close> names can be opened under that name: on a volume whose
  files have names as other systems write them, \<open>fat16_find_file\<close> finds an entry for each name
  passed to the callback, although it converts the name back into the padded 8+3 form and compares
  all eleven bytes. Searching changes nothing on the disk.\<close>

theorem listed_files_open:
  assumes "volume s" "drive_ok (dev s)"
    and "\<forall>ws\<in>set (root_sectors s (fs_sectors (dev s))). \<forall>e\<in>set (entries ws). is_file e \<longrightarrow> valid_name e"
    and "(name, n) \<in> set (fst (fat16_list_root drive_ports s))"
  shows "\<exists>file d. fat16_find_file drive_ports name s = (Some file, s\<lparr>dev := d\<rparr>) \<and>
    drive_ok d \<and> fs_sectors d = fs_sectors (dev s)"
  using disk.listed_found_loop [OF assms(2) refl _ fs_sectors_512, of "root_dir_start_lba s"
      "unat (root_dir_sectors s)" name n] volume_sectors [OF assms(1)] assms
  by (auto simp: root_sectors_def fat16_list_root_def fat16_find_file_def volume_def split: prod.split)

definition demo_root :: "u16 list" where
  "demo_root = [0x4946, 0x454C, 0x2020, 0x2020, 0x5854, 0x2054] @ replicate 7 0 @ [2, 600, 0] @ replicate 240 0"

lemma demo_root_sector: "fs_sectors demo_drive 3 = demo_root"
  by (simp add: fs_sectors_def demo_drive_def demo_root_def)

lemma demo_listing: "list_entries (entries demo_root) = ([([70, 73, 76, 69, 46, 84, 88, 84], 600)], True)"
  by code_simp

lemma demo_names: "list_all (\<lambda>e. is_file e \<longrightarrow> valid_name e) (entries demo_root)"
  by code_simp

lemma listed_files_open_witness:
  "\<exists>file d. fat16_find_file drive_ports [70, 73, 76, 69, 46, 84, 88, 84] demo_fs = (Some file, demo_fs\<lparr>dev := d\<rparr>) \<and>
    drive_ok d \<and> fs_sectors d = fs_sectors demo_drive"
proof -
  have "root_sectors demo_fs (fs_sectors (dev demo_fs)) = [demo_root]"
    by (simp add: root_sectors_def demo_root_sector) (simp add: demo_fs_def demo_root_sector)
  then have names: "\<forall>ws\<in>set (root_sectors demo_fs (fs_sectors (dev demo_fs))).
      \<forall>e\<in>set (entries ws). is_file e \<longrightarrow> valid_name e"
    using demo_names by (simp add: list_all_iff)
  obtain d where "read_secs drive_ports 3 1 demo_fs = (Some demo_root, demo_fs\<lparr>dev := d\<rparr>)"
    using disk.read_sec_ok [OF demo_ok, of 3] fs_sectors_512 demo_root_sector by auto
  then have "fst (fat16_list_root drive_ports demo_fs) = [([70, 73, 76, 69, 46, 84, 88, 84], 600)]"
    by (simp add: fat16_list_root_def demo_fs_def demo_listing)
  then show ?thesis
    using listed_files_open [OF demo_volume demo_ok names, of "[70, 73, 76, 69, 46, 84, 88, 84]" 600] by simp
qed

end
