(* ===== verification/Fat_Table.thy ===== *)
theory Fat_Table
  imports Fat16
begin

text \<open>
  The allocation table of \<open>Fat16\<close>: what setting an entry in every copy does to the sectors, and with
  it what allocating a cluster, freeing a chain and deleting a file do to the volume.
\<close>

section \<open>The allocation table and its copies\<close>

text \<open>The sectors of the partition after entry \<open>c\<close> has been set in every copy.\<close>

definition fat_copy_sector :: "'d fs \<Rightarrow> nat \<Rightarrow> nat \<Rightarrow> nat" where
  "fat_copy_sector s k j = unat (fat_start_lba s) + k * unat (sectors_per_fat (the_bpb s)) + j"

definition put_fat :: "'d fs \<Rightarrow> u16 \<Rightarrow> u16 \<Rightarrow> (nat \<Rightarrow> u16 list) \<Rightarrow> nat \<Rightarrow> u16 list" where
  "put_fat s c v f i =
     (if \<exists>k<unat (num_fats (the_bpb s)). i = fat_copy_sector s k (unat c div 256)
      then (f i)[unat c mod 256 := v] else f i)"

definition fats_agree :: "'d fs \<Rightarrow> (nat \<Rightarrow> u16 list) \<Rightarrow> bool" where
  "fats_agree s f \<longleftrightarrow> (\<forall>k<unat (num_fats (the_bpb s)). \<forall>j<unat (sectors_per_fat (the_bpb s)).
     f (fat_copy_sector s k j) = f (fat_copy_sector s 0 j))"

lemma fat_sector_in_fat:
  assumes "volume s" "unat c < unat (total_clusters s)"
  shows "unat c div 256 < unat (sectors_per_fat (the_bpb s))"
proof -
  have "unat c < unat (sectors_per_fat (the_bpb s)) * 256"
    using assms by (simp add: volume_def)
  then show ?thesis by (rule less_mult_imp_div_less)
qed

lemma fat_copy_bound:
  assumes "volume s" "k < unat (num_fats (the_bpb s))" "j < unat (sectors_per_fat (the_bpb s))"
  shows "fat_copy_sector s k j < unat (root_dir_start_lba s)"
proof -
  have "(k + 1) * unat (sectors_per_fat (the_bpb s)) \<le> unat (num_fats (the_bpb s)) * unat (sectors_per_fat (the_bpb s))"
    using assms(2) by (intro mult_le_mono1) simp
  then show ?thesis
    using assms(1,3) unfolding fat_copy_sector_def volume_def by simp
qed

lemma put_fat_at:
  assumes "volume s" "\<forall>i. length (f i) = 256" "unat c < unat (total_clusters s)" "unat c' < unat (total_clusters s)"
  shows "fat_at s (put_fat s c v f) c' = (if c' = c then v else fat_at s f c')"
proof -
  let ?S = "unat (sectors_per_fat (the_bpb s))"
  have j: "unat c div 256 < ?S" "unat c' div 256 < ?S"
    using fat_sector_in_fat [OF assms(1)] assms(3,4) by blast+
  have first: "(\<exists>k<unat (num_fats (the_bpb s)). unat (fat_start_lba s) + unat c' div 256 = fat_copy_sector s k (unat c div 256))
      \<longleftrightarrow> unat c' div 256 = unat c div 256" (is "?L \<longleftrightarrow> ?R")
  proof
    assume ?L
    then obtain k where "unat c' div 256 = k * ?S + unat c div 256"
      by (auto simp: fat_copy_sector_def)
    with j(2) show ?R by (cases k) auto
  next
    assume ?R
    moreover have "0 < unat (num_fats (the_bpb s))" using assms(1) by (simp add: volume_def)
    ultimately show ?L by (intro exI [of _ 0]) (simp add: fat_copy_sector_def)
  qed
  have "c' = c \<longleftrightarrow> unat c' div 256 = unat c div 256 \<and> unat c' mod 256 = unat c mod 256"
    by (metis div_mult_mod_eq unsigned_word_eqI)
  then show ?thesis
    using assms(2) by (auto simp: fat_at_def put_fat_def first)
qed

lemma put_fat_agree:
  assumes "volume s" "fats_agree s f" "unat c < unat (total_clusters s)"
  shows "fats_agree s (put_fat s c v f)"
  unfolding fats_agree_def
proof (intro allI impI)
  let ?S = "unat (sectors_per_fat (the_bpb s))" and ?n = "unat (num_fats (the_bpb s))"
  fix k j
  assume k: "k < ?n" and j: "j < ?S"
  have jc: "unat c div 256 < ?S" by (rule fat_sector_in_fat [OF assms(1,3)])
  have "(\<exists>k'<?n. fat_copy_sector s k j = fat_copy_sector s k' (unat c div 256)) \<longleftrightarrow> j = unat c div 256"
    if "k < ?n" for k
  proof
    assume "\<exists>k'<?n. fat_copy_sector s k j = fat_copy_sector s k' (unat c div 256)"
    then obtain k' where "k * ?S + j = k' * ?S + unat c div 256"
      by (auto simp: fat_copy_sector_def)
    then have "(k * ?S + j) mod ?S = (k' * ?S + unat c div 256) mod ?S" by simp
    with j jc show "j = unat c div 256" by simp
  qed (use that in auto)
  note hit = this
  have pos: "0 < ?n" using assms(1) by (simp add: volume_def)
  have "f (fat_copy_sector s k j) = f (fat_copy_sector s 0 j)"
    using assms(2) k j unfolding fats_agree_def by blast
  then show "put_fat s c v f (fat_copy_sector s k j) = put_fat s c v f (fat_copy_sector s 0 j)"
    unfolding put_fat_def hit [OF k] hit [OF pos] by (simp only:)
qed

lemma put_fat_outside:
  assumes "volume s" "unat c < unat (total_clusters s)" "unat (root_dir_start_lba s) \<le> i"
  shows "put_fat s c v f i = f i"
  using fat_copy_bound [OF assms(1) _ fat_sector_in_fat [OF assms(1,2)]] assms(3)
  by (fastforce simp: put_fat_def)

lemma put_fat_length: "\<forall>i. length (f i) = 256 \<Longrightarrow> \<forall>i. length (put_fat s c v f i) = 256"
  by (simp add: put_fat_def)

lemma put_fat_dev [simp]: "put_fat (s\<lparr>dev := d\<rparr>) = put_fat s"
  by (simp add: put_fat_def fat_copy_sector_def fun_eq_iff)

text \<open>The entry at \<open>lba\<close> and at the places \<open>S\<close> sectors apart behind it.\<close>

definition put_column :: "nat \<Rightarrow> nat \<Rightarrow> nat \<Rightarrow> nat \<Rightarrow> u16 \<Rightarrow> (nat \<Rightarrow> u16 list) \<Rightarrow> nat \<Rightarrow> u16 list" where
  "put_column lba S n x v f i = (if \<exists>k<n. i = lba + k * S then (f i)[x := v] else f i)"

lemma put_column_Suc:
  "put_column (lba + S) S n x v (f(lba := (f lba)[x := v])) = put_column lba S (Suc n) x v f"
proof
  fix i
  have "(\<exists>k<Suc n. i = lba + k * S) \<longleftrightarrow> i = lba \<or> (\<exists>k<n. i = lba + S + k * S)"
    by (auto simp: less_Suc_eq_0_disj)
  then show "put_column (lba + S) S n x v (f(lba := (f lba)[x := v])) i = put_column lba S (Suc n) x v f i"
    by (auto simp: put_column_def)
qed

lemma put_fat_column:
  assumes "volume s"
  shows "put_fat s c v f = put_column (unat (fat_sector s c)) (unat (sectors_per_fat (the_bpb s)))
    (unat (num_fats (the_bpb s))) (fat_index s c) v f"
  using assms
  by (simp add: put_fat_def put_column_def fat_copy_sector_def fat_sector_eq fat_index_eq volume_def
      fun_eq_iff ac_simps)

context sector_store
begin

lemma fat_read_ok:
  assumes "volume s" "ok (dev s)" "65536 \<le> capacity" "unat c < unat (total_clusters s)"
  obtains d where "fat_read_entry P c s = (Some (fat_at s (sec (dev s)) c), s\<lparr>dev := d\<rparr>)"
    "ok d" "sec d = sec (dev s)"
proof -
  have "unat (fat_sector s c) < capacity"
    using fat_sector_bound [OF assms(1,4)] volume_sectors(1) [OF assms(1)] assms(3) by simp
  then obtain d where d: "read_secs P (fat_sector s c) 1 s =
      (Some (sec (dev s) (unat (fat_sector s c))), s\<lparr>dev := d\<rparr>)" "ok d" "sec d = sec (dev s)"
    using read_sec_ok [OF assms(2)] by blast
  have "fat_read_entry P c s = (Some (fat_at s (sec (dev s)) c), s\<lparr>dev := d\<rparr>)"
    using d(1) assms(1) by (simp add: fat_read_entry_def fat_at_def fat_sector_eq fat_index_eq volume_def)
  with d(2,3) that show ?thesis by blast
qed

lemma write_copies_ok:
  assumes "ok (dev s)" "\<forall>k<n. unat lba + k * unat (sectors_per_fat (the_bpb s)) < min capacity 65536"
    and "f = sec (dev s)"
  shows "\<exists>d. write_copies P c v n lba s = (True, s\<lparr>dev := d\<rparr>) \<and> ok d \<and>
    sec d = put_column (unat lba) (unat (sectors_per_fat (the_bpb s))) n (fat_index s c) v f"
  using assms
proof (induction n arbitrary: lba s f)
  case 0
  then show ?case by (auto simp: put_column_def intro!: exI [of _ "dev s"])
next
  case (Suc n)
  let ?S = "unat (sectors_per_fat (the_bpb s))" and ?x = "fat_index s c"
  have lba: "unat lba < capacity" using spec [OF Suc.prems(2), of 0] by simp
  obtain d1 where d1: "read_secs P lba 1 s = (Some (f (unat lba)), s\<lparr>dev := d1\<rparr>)" "ok d1" "sec d1 = f"
    using read_sec_ok [OF Suc.prems(1) lba] Suc.prems(3) by blast
  let ?buf = "(f (unat lba))[?x := v]"
  have len: "length ?buf = 256" using length_sec [OF Suc.prems(1)] Suc.prems(3) by simp
  have "ok (dev (s\<lparr>dev := d1\<rparr>))" using d1(2) by simp
  from write_sec_ok [OF this lba len] obtain d2 where d2: "write_secs P lba 1 ((f (unat lba))[?x := v]) (s\<lparr>dev := d1\<rparr>) = (True, s\<lparr>dev := d2\<rparr>)"
    "ok d2" "sec d2 = f(unat lba := (f (unat lba))[?x := v])"
    using d1(3) by (metis fs.select_convs(7) fs.surjective fs.update_convs(7))
  show ?case
  proof (cases n)
    case 0
    then show ?thesis
      using d1(1) d2 by (auto simp: put_column_def fun_eq_iff intro!: exI [of _ d2])
  next
    case (Suc m)
    have next_lba: "unat (lba + ucast (sectors_per_fat (the_bpb s))) = unat lba + ?S"
      using spec [OF Suc.prems(2), of 1] Suc by (simp add: unat_word_ariths unsigned_ucast_eq take_bit_nat_eq_self)
    let ?s = "s\<lparr>dev := d2\<rparr>" and ?lba = "lba + ucast (sectors_per_fat (the_bpb s))"
    have 1: "ok (dev ?s)" "f(unat lba := ?buf) = sec (dev ?s)" using d2(2,3) by simp_all
    have 2: "\<forall>k<n. unat ?lba + k * unat (sectors_per_fat (the_bpb ?s)) < min capacity 65536"
    proof (intro allI impI)
      show "unat ?lba + k * unat (sectors_per_fat (the_bpb ?s)) < min capacity 65536" if "k < n" for k
        using spec [OF Suc.prems(2), of "Suc k"] that by (simp add: next_lba)
    qed
    have "\<exists>d. write_copies P c v n ?lba ?s = (True, ?s\<lparr>dev := d\<rparr>) \<and> ok d \<and>
        sec d = put_column (unat ?lba) ?S n ?x v (f(unat lba := ?buf))"
      using Suc.IH [OF 1(1) 2 1(2)] by (simp add: fun_upd_def)
    then show ?thesis
      using d1(1) d2(1) by (auto simp: put_column_Suc next_lba)
  qed
qed

lemma fat_write_ok:
  assumes "volume s" "ok (dev s)" "65536 \<le> capacity" "unat c < unat (total_clusters s)"
  obtains d where "fat_write_entry P c v s = (True, s\<lparr>dev := d\<rparr>)" "ok d"
    "sec d = put_fat s c v (sec (dev s))"
proof -
  have "\<forall>k<unat (num_fats (the_bpb s)).
      unat (fat_sector s c) + k * unat (sectors_per_fat (the_bpb s)) < min capacity 65536"
    using fat_copy_bound [OF assms(1) _ fat_sector_in_fat [OF assms(1,4)]] volume_sectors(1) [OF assms(1)] assms(3)
    by (fastforce simp: fat_copy_sector_def fat_sector_eq [OF assms(1)])
  from write_copies_ok [OF assms(2) this refl, of c v] that show ?thesis
    using put_fat_column [OF assms(1)] by (auto simp: fat_write_entry_def)
qed

end

section \<open>Chains\<close>

lemma fat_chain_cong: "\<forall>x\<in>set cs. g x = h x \<Longrightarrow> fat_chain g c cs = fat_chain h c cs"
  by (induction cs arbitrary: c) auto

lemma fat_chain_unique: "fat_chain g c xs \<Longrightarrow> fat_chain g c ys \<Longrightarrow> xs = ys"
proof (induction xs arbitrary: c ys)
  case Nil
  then show ?case by (cases ys) auto
next
  case (Cons x xs)
  then show ?case by (cases ys) auto
qed

lemma fat_chain_from: "fat_chain g c (xs @ x # ys) \<Longrightarrow> fat_chain g x (x # ys)"
  by (induction xs arbitrary: c) auto

lemma fat_chain_distinct: "fat_chain g c cs \<Longrightarrow> distinct cs"
proof (induction cs arbitrary: c)
  case (Cons x xs)
  have "x \<notin> set xs"
  proof
    assume "x \<in> set xs"
    then obtain us vs where xs: "xs = us @ x # vs" by (auto simp: in_set_conv_decomp)
    then have "fat_chain g x (x # vs)" using Cons.prems xs by (intro fat_chain_from [of g c "x # us"]) auto
    moreover have "fat_chain g x (x # xs)" using Cons.prems by simp
    ultimately have "x # vs = x # xs" by (rule fat_chain_unique)
    then show False using xs by simp
  qed
  with Cons show ?case by auto
qed simp

definition free_all :: "'d fs \<Rightarrow> u16 list \<Rightarrow> (nat \<Rightarrow> u16 list) \<Rightarrow> nat \<Rightarrow> u16 list" where
  "free_all s cs f = fold (\<lambda>c f. put_fat s c FAT_ENTRY_FREE f) cs f"

lemma valid_cluster_less: "valid_cluster s c \<Longrightarrow> unat c < unat (total_clusters s)"
  by (simp add: valid_cluster_def)

lemma free_all_spec:
  assumes "volume s" "\<forall>i. length (f i) = 256" "\<forall>c\<in>set cs. valid_cluster s c"
  shows "\<forall>c. unat c < unat (total_clusters s) \<longrightarrow>
      fat_at s (free_all s cs f) c = (if c \<in> set cs then FAT_ENTRY_FREE else fat_at s f c)"
    and "fats_agree s f \<Longrightarrow> fats_agree s (free_all s cs f)"
    and "unat (root_dir_start_lba s) \<le> i \<Longrightarrow> free_all s cs f i = f i"
  using assms(2,3)
proof (induction cs arbitrary: f)
  case Nil
  { case 1 show ?case by (simp add: free_all_def) }
  { case 2 then show ?case by (simp add: free_all_def) }
  { case 3 show ?case by (simp add: free_all_def) }
next
  case (Cons c cs)
  have step: "free_all s (c # cs) f = free_all s cs (put_fat s c FAT_ENTRY_FREE f)" for f
    by (simp add: free_all_def)
  { case 1
    then have c: "unat c < unat (total_clusters s)" by (simp add: valid_cluster_less)
    have "\<forall>c'. unat c' < unat (total_clusters s) \<longrightarrow> fat_at s (free_all s cs (put_fat s c FAT_ENTRY_FREE f)) c' =
        (if c' \<in> set cs then FAT_ENTRY_FREE else fat_at s (put_fat s c FAT_ENTRY_FREE f) c')"
      using 1 by (intro Cons.IH(1)) (simp_all add: put_fat_length)
    then show ?case
      unfolding step using put_fat_at [OF assms(1) 1(1) c] by simp }
  { case 2
    then show ?case
      unfolding step
      by (intro Cons.IH(2)) (simp_all add: put_fat_agree [OF assms(1)] put_fat_length valid_cluster_less) }
  { case 3
    then show ?case
      unfolding step
      by (simp add: Cons.IH(3) put_fat_length put_fat_outside [OF assms(1)] valid_cluster_less) }
qed

context sector_store
begin

lemma free_chain_ok:
  assumes "volume s" "ok (dev s)" "65536 \<le> capacity" "f = sec (dev s)"
    and "fat_chain (fat_at s f) c cs" "\<forall>c\<in>set cs. valid_cluster s c"
  shows "\<exists>d. fat_free_chain P c s = Some (s\<lparr>dev := d\<rparr>) \<and> ok d \<and> sec d = free_all s cs f"
  using assms
proof (induction cs arbitrary: c s f)
  case Nil
  then show ?case
    by (subst fat_free_chain.simps) (auto simp: free_all_def intro!: exI [of _ "dev s"])
next
  case (Cons c' cs)
  have [simp]: "c' = c" and go: "2 \<le> c \<and> c < 0xFFF8" and chn: "fat_chain (fat_at s f) (fat_at s f c) cs"
    using Cons.prems(5) by simp_all
  have c: "unat c < unat (total_clusters s)" and cs: "\<forall>c\<in>set cs. valid_cluster s c"
    using Cons.prems(6) valid_cluster_less by auto
  let ?g = "put_fat s c FAT_ENTRY_FREE f"
  obtain d1 where d1: "fat_read_entry P c s = (Some (fat_at s f c), s\<lparr>dev := d1\<rparr>)" "ok d1" "sec d1 = f"
    using fat_read_ok [OF Cons.prems(1-3) c] Cons.prems(4) by auto
  have v1: "volume (s\<lparr>dev := d1\<rparr>)" "ok (dev (s\<lparr>dev := d1\<rparr>))" "unat c < unat (total_clusters (s\<lparr>dev := d1\<rparr>))"
    using Cons.prems(1) d1(2) c by simp_all
  obtain d2 where "fat_write_entry P c FAT_ENTRY_FREE (s\<lparr>dev := d1\<rparr>) = (True, s\<lparr>dev := d1\<rparr>\<lparr>dev := d2\<rparr>)"
    "ok d2" "sec d2 = put_fat (s\<lparr>dev := d1\<rparr>) c FAT_ENTRY_FREE (sec (dev (s\<lparr>dev := d1\<rparr>)))"
    using fat_write_ok [OF v1(1,2) Cons.prems(3) v1(3)] by blast
  then have d2: "fat_write_entry P c FAT_ENTRY_FREE (s\<lparr>dev := d1\<rparr>) = (True, s\<lparr>dev := d2\<rparr>)"
    "ok d2" "sec d2 = ?g"
    using d1(3) by simp_all
  have "c \<notin> set cs" using fat_chain_distinct [OF Cons.prems(5)] by simp
  then have "fat_chain (fat_at s ?g) (fat_at s f c) cs"
    using chn cs c length_sec [OF Cons.prems(2)] Cons.prems(4)
    by (subst fat_chain_cong [where h = "fat_at s f"]) (auto simp: put_fat_at [OF Cons.prems(1)] valid_cluster_less)
  then have "\<exists>d. fat_free_chain P (fat_at s f c) (s\<lparr>dev := d2\<rparr>) = Some (s\<lparr>dev := d2\<rparr>\<lparr>dev := d\<rparr>) \<and> ok d \<and>
      sec d = free_all (s\<lparr>dev := d2\<rparr>) cs ?g"
    using Cons.prems(1,3) d2(2,3) cs by (intro Cons.IH) simp_all
  then show ?case
    using d1(1) d2(1) go by (subst fat_free_chain.simps) (simp add: free_all_def)
qed

lemma alloc_loop_ok:
  assumes "volume s" "ok (dev s)" "65536 \<le> capacity" "f = sec (dev s)"
  shows "\<exists>r d. alloc_loop P c s = Some (r, s\<lparr>dev := d\<rparr>) \<and> ok d \<and>
    (case r of
       None \<Rightarrow> sec d = f \<and> (\<forall>c'. c \<le> c' \<and> unat c' < unat (total_clusters s) \<longrightarrow> fat_at s f c' \<noteq> 0)
     | Some x \<Rightarrow> sec d = put_fat s x FAT_ENTRY_END f \<and> c \<le> x \<and> unat x < unat (total_clusters s) \<and>
         fat_at s f x = 0 \<and> (\<forall>c'. c \<le> c' \<and> c' < x \<longrightarrow> fat_at s f c' \<noteq> 0))"
  using assms
proof (induction "unat (total_clusters s) - unat c" arbitrary: c s)
  case 0
  then have "\<not> (ucast c :: u32) < total_clusters s"
    using unat_u16_bound [of c] by (simp add: word_less_nat_alt unsigned_ucast_eq take_bit_nat_eq_self)
  with 0 show ?case
    by (subst alloc_loop.simps) (auto simp: word_le_nat_alt intro!: exI [of _ "dev s"])
next
  case (Suc n)
  then have c: "unat c < unat (total_clusters s)" by simp
  then have go: "(ucast c :: u32) < total_clusters s"
    using unat_u16_bound [of c] by (simp add: word_less_nat_alt unsigned_ucast_eq take_bit_nat_eq_self)
  have c1: "unat (c + 1) = unat c + 1"
    using c Suc.prems(1) by (simp add: volume_def unat_word_ariths)
  obtain d1 where d1: "fat_read_entry P c s = (Some (fat_at s f c), s\<lparr>dev := d1\<rparr>)" "ok d1" "sec d1 = f"
    using fat_read_ok [OF Suc.prems(1-3) c] Suc.prems(4) by auto
  show ?case
  proof (cases "fat_at s f c = 0")
    case True
    have v1: "volume (s\<lparr>dev := d1\<rparr>)" "ok (dev (s\<lparr>dev := d1\<rparr>))" "unat c < unat (total_clusters (s\<lparr>dev := d1\<rparr>))"
      using Suc.prems(1) d1(2) c by simp_all
    obtain d2 where "fat_write_entry P c FAT_ENTRY_END (s\<lparr>dev := d1\<rparr>) = (True, s\<lparr>dev := d2\<rparr>)"
      "ok d2" "sec d2 = put_fat s c FAT_ENTRY_END f"
      using fat_write_ok [OF v1(1,2) Suc.prems(3) v1(3), of FAT_ENTRY_END] d1(3) by auto
    then show ?thesis
      using go d1(1) True c
      by (subst alloc_loop.simps) (auto simp: FAT_ENTRY_FREE_def intro!: exI [of _ "Some c"] exI [of _ d2])
  next
    case False
    have "\<exists>r d. alloc_loop P (c + 1) (s\<lparr>dev := d1\<rparr>) = Some (r, s\<lparr>dev := d1\<rparr>\<lparr>dev := d\<rparr>) \<and> ok d \<and>
      (case r of
         None \<Rightarrow> sec d = f \<and> (\<forall>c'. c + 1 \<le> c' \<and> unat c' < unat (total_clusters (s\<lparr>dev := d1\<rparr>)) \<longrightarrow>
           fat_at (s\<lparr>dev := d1\<rparr>) f c' \<noteq> 0)
       | Some x \<Rightarrow> sec d = put_fat (s\<lparr>dev := d1\<rparr>) x FAT_ENTRY_END f \<and> c + 1 \<le> x \<and>
           unat x < unat (total_clusters (s\<lparr>dev := d1\<rparr>)) \<and> fat_at (s\<lparr>dev := d1\<rparr>) f x = 0 \<and>
           (\<forall>c'. c + 1 \<le> c' \<and> c' < x \<longrightarrow> fat_at (s\<lparr>dev := d1\<rparr>) f c' \<noteq> 0))"
      using Suc.hyps(2) Suc.prems d1 c1 by (intro Suc.hyps(1)) simp_all
    then obtain r d where r: "alloc_loop P (c + 1) (s\<lparr>dev := d1\<rparr>) = Some (r, s\<lparr>dev := d1\<rparr>\<lparr>dev := d\<rparr>) \<and> ok d \<and>
      (case r of
         None \<Rightarrow> sec d = f \<and> (\<forall>c'. c + 1 \<le> c' \<and> unat c' < unat (total_clusters (s\<lparr>dev := d1\<rparr>)) \<longrightarrow>
           fat_at (s\<lparr>dev := d1\<rparr>) f c' \<noteq> 0)
       | Some x \<Rightarrow> sec d = put_fat (s\<lparr>dev := d1\<rparr>) x FAT_ENTRY_END f \<and> c + 1 \<le> x \<and>
           unat x < unat (total_clusters (s\<lparr>dev := d1\<rparr>)) \<and> fat_at (s\<lparr>dev := d1\<rparr>) f x = 0 \<and>
           (\<forall>c'. c + 1 \<le> c' \<and> c' < x \<longrightarrow> fat_at (s\<lparr>dev := d1\<rparr>) f c' \<noteq> 0))" by blast
    have le: "c \<le> c' \<longleftrightarrow> c' = c \<or> c + 1 \<le> c'" for c'
      using c1 by (auto simp: word_le_nat_alt word_unat_eq_iff)
    have "alloc_loop P c s = Some (r, s\<lparr>dev := d\<rparr>)"
      using go d1(1) False r by (subst alloc_loop.simps) (simp add: FAT_ENTRY_FREE_def)
    then show ?thesis
      using r False by (intro exI [of _ r] exI [of _ d]) (auto simp: le split: option.splits)
  qed
qed

end

text \<open>C21: allocating a cluster. On a volume, \<open>fat_alloc_cluster\<close> returns; it fails, changing nothing,
  exactly when every cluster is taken, and otherwise hands out the lowest free cluster and marks it
  as the end of a chain. No other entry changes, the copies of the table stay equal, and the
  directory and the data are not touched.\<close>

theorem fat_alloc_spec:
  assumes "volume s" "drive_ok (dev s)" "f = fs_sectors (dev s)"
  shows "\<exists>r d. fat_alloc_cluster drive_ports s = Some (r, s\<lparr>dev := d\<rparr>) \<and> drive_ok d \<and>
    (case r of
       None \<Rightarrow> fs_sectors d = f \<and> (\<forall>c. valid_cluster s c \<longrightarrow> fat_at s f c \<noteq> 0)
     | Some x \<Rightarrow> valid_cluster s x \<and> fat_at s f x = 0 \<and>
         (\<forall>c. valid_cluster s c \<and> c < x \<longrightarrow> fat_at s f c \<noteq> 0) \<and>
         (\<forall>c. unat c < unat (total_clusters s) \<longrightarrow>
            fat_at s (fs_sectors d) c = (if c = x then 0xFFFF else fat_at s f c)) \<and>
         (fats_agree s f \<longrightarrow> fats_agree s (fs_sectors d)) \<and>
         (\<forall>i. unat (root_dir_start_lba s) \<le> i \<longrightarrow> fs_sectors d i = f i))"
proof -
  have two: "2 \<le> c \<longleftrightarrow> 2 \<le> unat c" for c :: u16 by (simp add: word_le_nat_alt)
  have len: "\<forall>i. length (f i) = 256" using disk.length_sec [OF assms(2)] assms(3) by simp
  have "fat_alloc_cluster drive_ports s = alloc_loop drive_ports 2 s"
    using assms(1) by (auto simp: fat_alloc_cluster_def volume_def)
  moreover obtain r d where r: "alloc_loop drive_ports 2 s = Some (r, s\<lparr>dev := d\<rparr>)" "drive_ok d"
    "case r of
       None \<Rightarrow> fs_sectors d = f \<and> (\<forall>c'. 2 \<le> c' \<and> unat c' < unat (total_clusters s) \<longrightarrow> fat_at s f c' \<noteq> 0)
     | Some x \<Rightarrow> fs_sectors d = put_fat s x FAT_ENTRY_END f \<and> 2 \<le> x \<and> unat x < unat (total_clusters s) \<and>
         fat_at s f x = 0 \<and> (\<forall>c'. 2 \<le> c' \<and> c' < x \<longrightarrow> fat_at s f c' \<noteq> 0)"
    using disk.alloc_loop_ok [OF assms(1,2) fs_sectors_512 assms(3), of 2] by blast
  ultimately show ?thesis
    using put_fat_at [OF assms(1) len] put_fat_agree [OF assms(1)] put_fat_outside [OF assms(1)]
    by (intro exI [of _ r] exI [of _ d] conjI)
      (auto simp: valid_cluster_def two FAT_ENTRY_END_def split: option.splits)
qed

lemma fat_alloc_spec_witness:
  "\<exists>r d. fat_alloc_cluster drive_ports demo_fs = Some (r, demo_fs\<lparr>dev := d\<rparr>) \<and> drive_ok d \<and> r \<noteq> None"
proof -
  have free: "valid_cluster demo_fs 4" "fat_at demo_fs (fs_sectors demo_drive) 4 = 0"
    by (simp_all add: fat_at_def fs_sectors_def demo_drive_def demo_fs_def valid_cluster_def total_clusters_def)
  obtain r d where "fat_alloc_cluster drive_ports demo_fs = Some (r, demo_fs\<lparr>dev := d\<rparr>)" "drive_ok d"
    "r = None \<longrightarrow> (\<forall>c. valid_cluster demo_fs c \<longrightarrow> fat_at demo_fs (fs_sectors demo_drive) c \<noteq> 0)"
    using fat_alloc_spec [OF demo_volume demo_ok refl] by (fastforce split: option.splits)
  with free show ?thesis by blast
qed

text \<open>Freeing a file's clusters. \<open>fat_free_chain\<close> returns on every chain that ends, and marks
  exactly the clusters of the chain free; no other entry changes, the copies of the table stay
  equal, and the directory and the data are not touched.\<close>

theorem fat_free_chain_spec:
  assumes "volume s" "drive_ok (dev s)" "f = fs_sectors (dev s)"
    and "fat_chain (fat_at s f) c cs" "\<forall>c\<in>set cs. valid_cluster s c"
  shows "\<exists>d. fat_free_chain drive_ports c s = Some (s\<lparr>dev := d\<rparr>) \<and> drive_ok d \<and>
    (\<forall>c. unat c < unat (total_clusters s) \<longrightarrow>
       fat_at s (fs_sectors d) c = (if c \<in> set cs then 0 else fat_at s f c)) \<and>
    (fats_agree s f \<longrightarrow> fats_agree s (fs_sectors d)) \<and>
    (\<forall>i. unat (root_dir_start_lba s) \<le> i \<longrightarrow> fs_sectors d i = f i)"
proof -
  have len: "\<forall>i. length (f i) = 256" using disk.length_sec [OF assms(2)] assms(3) by simp
  show ?thesis
    using disk.free_chain_ok [OF assms(1,2) fs_sectors_512 assms(3-5)] free_all_spec [OF assms(1) len assms(5)]
    by (auto simp: FAT_ENTRY_FREE_def)
qed

lemma fat_free_chain_spec_witness:
  "\<exists>d. fat_free_chain drive_ports 2 demo_fs = Some (demo_fs\<lparr>dev := d\<rparr>) \<and>
    fat_at demo_fs (fs_sectors d) 2 = 0 \<and> fat_at demo_fs (fs_sectors d) 3 = 0"
proof -
  have chn: "fat_chain (fat_at demo_fs (fs_sectors (dev demo_fs))) 2 [2, 3]" "\<forall>c\<in>set [2, 3]. valid_cluster demo_fs c"
    by (simp_all add: fat_at_def fs_sectors_def demo_drive_def demo_fs_def valid_cluster_def total_clusters_def)
  obtain d where "fat_free_chain drive_ports 2 demo_fs = Some (demo_fs\<lparr>dev := d\<rparr>)"
    "\<forall>c. unat c < unat (total_clusters demo_fs) \<longrightarrow>
       fat_at demo_fs (fs_sectors d) c = (if c \<in> set [2, 3] then 0 else fat_at demo_fs (fs_sectors (dev demo_fs)) c)"
    using fat_free_chain_spec [OF demo_volume demo_ok refl chn] by auto
  moreover have "unat (total_clusters demo_fs) = 38" by (simp add: total_clusters_def demo_fs_def)
  ultimately show ?thesis by (intro exI [of _ d]) auto
qed

end
