(* ===== verification/Mouse.thy ===== *)
theory Mouse
  imports Ata
begin

text \<open>
  \<open>kernel/mouse.c\<close>: the PS/2 mouse. The ports of the controller are the parameter of \<open>Ata\<close>; the
  interrupt handler is a step on the byte it reads from the data port.
\<close>

record 'd mouse =
  m_dev :: 'd
  screen_w :: int
  screen_h :: int
  mouse_x :: int
  mouse_y :: int
  mouse_buttons :: u8
  mouse_dirty :: bool
  packet :: "u8 list"
  packet_index :: nat
  discard_next_packet :: bool

definition PS2_DATA :: u16 where "PS2_DATA = 0x60"
definition PS2_STATUS :: u16 where "PS2_STATUS = 0x64"
definition PS2_COMMAND :: u16 where "PS2_COMMAND = 0x64"

section \<open>Talking to the controller\<close>

primrec wait_write_loop :: "'d ports \<Rightarrow> nat \<Rightarrow> 'd \<Rightarrow> 'd" where
  "wait_write_loop P 0 d = d"
| "wait_write_loop P (Suc n) d =
     (let (st, d) = p_inb P PS2_STATUS d
      in if \<not> status_has st 0x02 then d else wait_write_loop P n d)"

definition ps2_wait_write :: "'d ports \<Rightarrow> 'd \<Rightarrow> 'd" where
  "ps2_wait_write P d = wait_write_loop P 100000 d"

primrec wait_read_loop :: "'d ports \<Rightarrow> nat \<Rightarrow> 'd \<Rightarrow> 'd" where
  "wait_read_loop P 0 d = d"
| "wait_read_loop P (Suc n) d =
     (let (st, d) = p_inb P PS2_STATUS d
      in if status_has st 0x01 then d else wait_read_loop P n d)"

definition ps2_wait_read :: "'d ports \<Rightarrow> 'd \<Rightarrow> 'd" where
  "ps2_wait_read P d = wait_read_loop P 100000 d"

definition mouse_write :: "'d ports \<Rightarrow> u8 \<Rightarrow> 'd \<Rightarrow> 'd" where
  "mouse_write P val d =
     p_outb P PS2_DATA val (ps2_wait_write P (p_outb P PS2_COMMAND 0xD4 (ps2_wait_write P d)))"

definition mouse_read :: "'d ports \<Rightarrow> 'd \<Rightarrow> u8 \<times> 'd" where
  "mouse_read P d = p_inb P PS2_DATA (ps2_wait_read P d)"

section \<open>The interrupt handler\<close>

definition clamp :: "int \<Rightarrow> int \<Rightarrow> int" where
  "clamp limit v = (let v = (if v < 0 then 0 else v) in if limit \<le> v then limit - 1 else v)"

text \<open>A delta: the low eight bits from the packet, the sign bit from the status byte.\<close>

definition signed_delta :: "u8 \<Rightarrow> nat \<Rightarrow> u8 \<Rightarrow> int" where
  "signed_delta status sign_bit v = (if bit status sign_bit then uint v - 256 else uint v)"

definition apply_packet :: "u8 \<Rightarrow> u8 \<Rightarrow> u8 \<Rightarrow> 'd mouse \<Rightarrow> 'd mouse" where
  "apply_packet status bx by' m =
     m\<lparr>mouse_buttons := and status 0x07,
       mouse_x := clamp (screen_w m) (mouse_x m + signed_delta status 4 bx),
       mouse_y := clamp (screen_h m) (mouse_y m - signed_delta status 5 by'),
       mouse_dirty := True\<rparr>"

definition mouse_byte :: "u8 \<Rightarrow> 'd mouse \<Rightarrow> 'd mouse" where
  "mouse_byte data m =
     (if packet_index m = 0 \<and> and data 0x08 = 0 then m
      else let m = m\<lparr>packet := (packet m)[packet_index m := data], packet_index := packet_index m + 1\<rparr>
        in if packet_index m < 3 then m
           else let m = m\<lparr>packet_index := 0\<rparr>
             in if discard_next_packet m then m\<lparr>discard_next_packet := False\<rparr>
                else apply_packet (packet m ! 0) (packet m ! 1) (packet m ! 2) m)"

definition mouse_callback :: "'d ports \<Rightarrow> 'd mouse \<Rightarrow> 'd mouse" where
  "mouse_callback P m =
     (let (data, d) = p_inb P PS2_DATA (m_dev m) in mouse_byte data (m\<lparr>m_dev := d\<rparr>))"

text \<open>\<open>w / 2\<close> of C, for the sizes of a screen. Installing the handler for IRQ 12 is left out.\<close>

definition mouse_init :: "'d ports \<Rightarrow> int \<Rightarrow> int \<Rightarrow> 'd mouse \<Rightarrow> 'd mouse" where
  "mouse_init P w h m =
     (let d = p_outb P PS2_COMMAND 0xA8 (ps2_wait_write P (m_dev m));
          d = p_outb P PS2_COMMAND 0x20 (ps2_wait_write P d);
          (status, d) = mouse_read P d;
          status = and (or status 0x02) (not 0x20);
          d = p_outb P PS2_COMMAND 0x60 (ps2_wait_write P d);
          d = p_outb P PS2_DATA status (ps2_wait_write P d);
          d = snd (mouse_read P (mouse_write P 0xF6 d));
          d = snd (mouse_read P (mouse_write P 0xF4 d))
      in m\<lparr>m_dev := d, screen_w := w, screen_h := h, mouse_x := w div 2, mouse_y := h div 2,
           packet_index := 0, discard_next_packet := True\<rparr>)"

definition mouse_get_x :: "'d mouse \<Rightarrow> int" where "mouse_get_x m = mouse_x m"
definition mouse_get_y :: "'d mouse \<Rightarrow> int" where "mouse_get_y m = mouse_y m"
definition mouse_get_buttons :: "'d mouse \<Rightarrow> u8" where "mouse_get_buttons m = mouse_buttons m"

definition mouse_consume_dirty :: "'d mouse \<Rightarrow> bool \<times> 'd mouse" where
  "mouse_consume_dirty m =
     (if \<not> mouse_dirty m then (False, m) else (True, m\<lparr>mouse_dirty := False\<rparr>))"

section \<open>The pointer and the packets\<close>

definition pointer_ok :: "'d mouse \<Rightarrow> bool" where
  "pointer_ok m \<longleftrightarrow> length (packet m) = 3 \<and> packet_index m < 3 \<and>
     0 \<le> mouse_x m \<and> mouse_x m < screen_w m \<and> 0 \<le> mouse_y m \<and> mouse_y m < screen_h m"

lemma clamp_range: "0 < limit \<Longrightarrow> 0 \<le> clamp limit v \<and> clamp limit v < limit"
  by (auto simp: clamp_def Let_def)

lemma mouse_byte_ok: "pointer_ok m \<Longrightarrow> pointer_ok (mouse_byte data m)"
  using clamp_range [of "screen_w m"] clamp_range [of "screen_h m"]
  by (auto simp: pointer_ok_def mouse_byte_def apply_packet_def Let_def)

text \<open>What the mouse reports, and the three bytes in which the PS/2 protocol sends it: the buttons, a bit
  that is always 1, the signs and the overflow flags in the first, the low eight bits of the movement
  to the right and upwards in the others.\<close>

record report =
  left_button :: bool
  right_button :: bool
  middle_button :: bool
  to_right :: int
  upwards :: int
  overflow_x :: bool
  overflow_y :: bool

definition status_byte :: "report \<Rightarrow> u8" where
  "status_byte r = 0x08 OR (if left_button r then 0x01 else 0) OR (if right_button r then 0x02 else 0) OR
     (if middle_button r then 0x04 else 0) OR (if to_right r < 0 then 0x10 else 0) OR
     (if upwards r < 0 then 0x20 else 0) OR (if overflow_x r then 0x40 else 0) OR (if overflow_y r then 0x80 else 0)"

definition packet_bytes :: "report \<Rightarrow> u8 list" where
  "packet_bytes r = [status_byte r, word_of_int (to_right r), word_of_int (upwards r)]"

definition sendable :: "report \<Rightarrow> bool" where
  "sendable r \<longleftrightarrow> - 256 \<le> to_right r \<and> to_right r \<le> 255 \<and> - 256 \<le> upwards r \<and> upwards r \<le> 255"

text \<open>What a report means for a pointer that cannot leave the screen, whose rows count downwards.\<close>

definition moved :: "int \<Rightarrow> int \<Rightarrow> report \<Rightarrow> int \<times> int \<Rightarrow> int \<times> int" where
  "moved w h r = (\<lambda>(x, y). (max 0 (min (w - 1) (x + to_right r)), max 0 (min (h - 1) (y - upwards r))))"

definition buttons_byte :: "report \<Rightarrow> u8" where
  "buttons_byte r = (if left_button r then 1 else 0) + (if right_button r then 2 else 0) + (if middle_button r then 4 else 0)"

text \<open>The bytes on the wire: before each packet there may be bytes that cannot be the first of one.\<close>

definition wire :: "(u8 list \<times> report) list \<Rightarrow> u8 list" where
  "wire ps = concat (map (\<lambda>(junk, r). junk @ packet_bytes r) ps)"

definition wire_ok :: "(u8 list \<times> report) list \<Rightarrow> bool" where
  "wire_ok ps \<longleftrightarrow> (\<forall>(junk, r)\<in>set ps. sendable r \<and> (\<forall>b\<in>set junk. b AND 0x08 = 0))"

lemma status_bits:
  "status_byte r AND 0x08 \<noteq> 0" "status_byte r AND 0x07 = buttons_byte r"
  "bit (status_byte r) 4 \<longleftrightarrow> to_right r < 0" "bit (status_byte r) 5 \<longleftrightarrow> upwards r < 0"
  unfolding status_byte_def buttons_byte_def
  by (cases "left_button r"; cases "right_button r"; cases "middle_button r"; cases "to_right r < 0"; cases "upwards r < 0";
      cases "overflow_x r"; cases "overflow_y r"; simp add: bit_numeral_word_iff)+

lemma delta_decoded:
  assumes "- 256 \<le> i" "i \<le> 255" "bit st n \<longleftrightarrow> i < 0"
  shows "signed_delta st n (word_of_int i) = i"
proof -
  have "i mod 256 = (if i < 0 then i + 256 else i)"
    using assms(1,2) mod_pos_pos_trivial [of "i + 256" 256] mod_pos_pos_trivial [of i 256] by simp
  then show ?thesis using assms(3) by (simp add: signed_delta_def uint_word_of_int)
qed

lemma clamp_max: "0 < limit \<Longrightarrow> clamp limit v = max 0 (min (limit - 1) v)"
  by (auto simp: clamp_def)

lemma junk_dropped:
  "packet_index m = 0 \<Longrightarrow> \<forall>b\<in>set junk. b AND 0x08 = 0 \<Longrightarrow> fold mouse_byte junk m = m"
  by (induction junk) (simp_all add: mouse_byte_def)

lemma packet_taken:
  assumes "pointer_ok m" "packet_index m = 0" "sendable r"
  defines "t \<equiv> fold mouse_byte (packet_bytes r) m"
  shows "(mouse_x t, mouse_y t) =
      (if discard_next_packet m then (mouse_x m, mouse_y m) else moved (screen_w m) (screen_h m) r (mouse_x m, mouse_y m))"
    "mouse_buttons t = (if discard_next_packet m then mouse_buttons m else buttons_byte r)"
    "mouse_dirty t \<longleftrightarrow> mouse_dirty m \<or> \<not> discard_next_packet m"
    "packet_index t = 0" "\<not> discard_next_packet t" "screen_w t = screen_w m" "screen_h t = screen_h m"
proof -
  obtain a b c where p: "packet m = [a, b, c]"
    using assms(1) by (auto simp: pointer_ok_def numeral_3_eq_3 length_Suc_conv)
  have size: "0 < screen_w m" "0 < screen_h m" using assms(1) by (auto simp: pointer_ok_def)
  have t: "t = (if discard_next_packet m then m\<lparr>packet := packet_bytes r, discard_next_packet := False\<rparr>
      else apply_packet (status_byte r) (word_of_int (to_right r)) (word_of_int (upwards r)) (m\<lparr>packet := packet_bytes r\<rparr>))"
    using assms(2) status_bits(1) [of r] p by (simp add: t_def packet_bytes_def mouse_byte_def Let_def apply_packet_def)
  have d: "signed_delta (status_byte r) 4 (word_of_int (to_right r)) = to_right r"
    "signed_delta (status_byte r) 5 (word_of_int (upwards r)) = upwards r"
    using assms(3) by (auto intro!: delta_decoded simp: sendable_def status_bits)
  show "(mouse_x t, mouse_y t) =
      (if discard_next_packet m then (mouse_x m, mouse_y m) else moved (screen_w m) (screen_h m) r (mouse_x m, mouse_y m))"
    "mouse_buttons t = (if discard_next_packet m then mouse_buttons m else buttons_byte r)"
    "mouse_dirty t \<longleftrightarrow> mouse_dirty m \<or> \<not> discard_next_packet m"
    "packet_index t = 0" "\<not> discard_next_packet t" "screen_w t = screen_w m" "screen_h t = screen_h m"
    using assms(2) by (simp_all add: t apply_packet_def d clamp_max size moved_def status_bits)
qed

lemma fold_mouse_byte_ok: "pointer_ok m \<Longrightarrow> pointer_ok (fold mouse_byte bs m)"
  by (induction bs arbitrary: m) (auto intro: mouse_byte_ok)

lemma reports_followed:
  assumes "pointer_ok m" "packet_index m = 0" "wire_ok ps"
  defines "t \<equiv> fold mouse_byte (wire ps) m"
    and "rs \<equiv> (if discard_next_packet m then tl (map snd ps) else map snd ps)"
  shows "(mouse_x t, mouse_y t) = fold (moved (screen_w m) (screen_h m)) rs (mouse_x m, mouse_y m) \<and>
    mouse_buttons t = (if rs = [] then mouse_buttons m else buttons_byte (last rs)) \<and>
    (mouse_dirty t \<longleftrightarrow> mouse_dirty m \<or> rs \<noteq> []) \<and> packet_index t = 0 \<and>
    (discard_next_packet t \<longleftrightarrow> discard_next_packet m \<and> ps = [])"
  using assms(1-3) unfolding t_def rs_def
proof (induction ps arbitrary: m)
  case Nil
  then show ?case by (simp add: wire_def)
next
  case (Cons p ps)
  obtain junk r where p: "p = (junk, r)" by (cases p)
  have ok: "sendable r" "\<forall>b\<in>set junk. b AND 0x08 = 0" "wire_ok ps" using Cons.prems(3) by (auto simp: wire_ok_def p)
  let ?t = "fold mouse_byte (packet_bytes r) m"
  have split: "fold mouse_byte (wire (p # ps)) m = fold mouse_byte (wire ps) ?t"
    using junk_dropped [OF Cons.prems(2) ok(2)] by (simp add: wire_def p)
  note one = packet_taken [OF Cons.prems(1,2) ok(1)]
  note rest = Cons.IH [OF fold_mouse_byte_ok [OF Cons.prems(1)] one(4) ok(3)]
  show ?case unfolding split using rest one by (auto simp: p)
qed

section \<open>Properties\<close>

text \<open>C24: the mouse. Whatever bytes the controller sends, the pointer stays on the screen. From a
  packet boundary the bytes of any reports of the mouse, with any bytes in between that cannot start
  a packet, move the pointer by what was reported, clipped to the screen after each report, leave the
  buttons of the last report, and end at a packet boundary; after initialisation the first report is
  thrown away. The overflow flags make no difference.\<close>

theorem mouse_stream_spec:
  assumes "pointer_ok m" "packet_index m = 0" "wire_ok ps"
  defines "t \<equiv> fold mouse_byte (wire ps) m"
    and "rs \<equiv> (if discard_next_packet m then tl (map snd ps) else map snd ps)"
  shows "pointer_ok (fold mouse_byte bs m) \<and>
    (mouse_x t, mouse_y t) = fold (moved (screen_w m) (screen_h m)) rs (mouse_x m, mouse_y m) \<and>
    mouse_buttons t = (if rs = [] then mouse_buttons m else buttons_byte (last rs)) \<and>
    (mouse_dirty t \<longleftrightarrow> mouse_dirty m \<or> rs \<noteq> []) \<and> packet_index t = 0 \<and>
    (discard_next_packet t \<longleftrightarrow> discard_next_packet m \<and> ps = [])"
  using fold_mouse_byte_ok [OF assms(1)] reports_followed [OF assms(1-3)] by (simp add: t_def rs_def)

definition demo_mouse :: "unit mouse" where
  "demo_mouse = \<lparr>m_dev = (), screen_w = 1024, screen_h = 768, mouse_x = 512, mouse_y = 384, mouse_buttons = 0,
     mouse_dirty = False, packet = [0, 0, 0], packet_index = 0, discard_next_packet = True\<rparr>"

text \<open>Two reports, the second after two stray bytes: the first is dropped, the second moves the pointer 5
  to the left and 10 down, with the left button held.\<close>

definition demo_report :: report where
  "demo_report = \<lparr>left_button = True, right_button = False, middle_button = False, to_right = - 5, upwards = - 10,
     overflow_x = False, overflow_y = False\<rparr>"

theorem mouse_stream_spec_witness:
  "let m = fold mouse_byte (packet_bytes (demo_report\<lparr>to_right := 100\<rparr>) @ [0x07, 0xF6] @ packet_bytes demo_report) demo_mouse
   in mouse_x m = 507 \<and> mouse_y m = 394 \<and> mouse_buttons m = 1 \<and> pointer_ok m"
proof -
  have ok: "pointer_ok demo_mouse" "packet_index demo_mouse = 0" by (simp_all add: pointer_ok_def demo_mouse_def)
  have sync: "wire_ok [([], demo_report\<lparr>to_right := 100\<rparr>), ([0x07, 0xF6], demo_report)]"
    by (simp add: wire_ok_def sendable_def demo_report_def)
  have w: "wire [([], demo_report\<lparr>to_right := 100\<rparr>), ([0x07, 0xF6], demo_report)] =
      packet_bytes (demo_report\<lparr>to_right := 100\<rparr>) @ [0x07, 0xF6] @ packet_bytes demo_report" by (simp add: wire_def)
  show ?thesis
    using mouse_stream_spec [OF ok sync, of "packet_bytes (demo_report\<lparr>to_right := 100\<rparr>) @ [0x07, 0xF6] @ packet_bytes demo_report"]
    unfolding w Let_def by (simp add: demo_mouse_def moved_def demo_report_def buttons_byte_def)
qed

end
