(* ===== verification/Elf.thy ===== *)
theory Elf
  imports Fork
begin

text \<open>
  \<open>kernel/elf.c\<close>: the ELF32 loader. The image is read from memory at \<open>elf_data\<close>, at the moment and as
  often as the code reads it (its headers are read again after every frame that is written), each
  page of a \<open>PT_LOAD\<close> segment gets a frame of the allocator, is zeroed, filled with the file's bytes
  and mapped into the directory. The result is the entry point, or \<open>None\<close> where \<open>elf_load\<close>
  returns 0. The serial log is left out.
\<close>

section \<open>The headers\<close>

definition PT_LOAD :: u32 where "PT_LOAD = 1"
definition ELF_PAGE_SIZE :: u32 where "ELF_PAGE_SIZE = 4096"

definition load16 :: "memory \<Rightarrow> addr \<Rightarrow> u16" where
  "load16 m a = push_bit 8 (ucast (m (a + 1))) OR ucast (m a)"

record elf32_ehdr =
  e_ident :: "u8 list"
  e_entry :: u32
  e_phoff :: u32
  e_phnum :: u16

definition ehdr :: "memory \<Rightarrow> addr \<Rightarrow> elf32_ehdr" where
  "ehdr m a = \<lparr>e_ident = map (\<lambda>k. m (a + of_nat k)) [0..<16],
     e_entry = load32 m (a + 24), e_phoff = load32 m (a + 28), e_phnum = load16 m (a + 44)\<rparr>"

record elf32_phdr =
  p_type :: u32
  p_offset :: u32
  p_vaddr :: u32
  p_filesz :: u32
  p_memsz :: u32

definition phdr :: "memory \<Rightarrow> addr \<Rightarrow> nat \<Rightarrow> elf32_phdr" where
  "phdr m ph i = (let a = ph + of_nat (32 * i) in
     \<lparr>p_type = load32 m a, p_offset = load32 m (a + 4), p_vaddr = load32 m (a + 8),
      p_filesz = load32 m (a + 16), p_memsz = load32 m (a + 20)\<rparr>)"

section \<open>Loading\<close>

text \<open>The frame is zeroed, then the bytes of the file that fall within its page are copied.\<close>

definition zero_frame :: "addr \<Rightarrow> memory \<Rightarrow> memory" where
  "zero_frame dst m = fold (\<lambda>z m. m(dst + of_nat z := 0)) [0..<unat ELF_PAGE_SIZE] m"

definition elf_copy_bytes :: "addr \<Rightarrow> addr \<Rightarrow> nat \<Rightarrow> memory \<Rightarrow> memory" where
  "elf_copy_bytes dst src n m = fold (\<lambda>b m. m(dst + of_nat b := m (src + of_nat b))) [0..<n] m"

definition copy_file_bytes :: "addr \<Rightarrow> elf32_phdr \<Rightarrow> addr \<Rightarrow> addr \<Rightarrow> memory \<Rightarrow> memory" where
  "copy_file_bytes elf_data h page_vaddr dst_phys m =
     (let page_file_start = (if p_vaddr h < page_vaddr then page_vaddr else p_vaddr h);
          seg_file_end = p_vaddr h + p_filesz h;
          page_file_end = page_vaddr + ELF_PAGE_SIZE;
          page_file_end = (if seg_file_end < page_file_end then seg_file_end else page_file_end)
      in if page_file_start < page_file_end then
           let copy_len = page_file_end - page_file_start;
               src_offset = p_offset h + (page_file_start - p_vaddr h);
               dst_offset = page_file_start - page_vaddr
           in elf_copy_bytes (dst_phys + dst_offset) (elf_data + src_offset) (unat copy_len) m
         else m)"

definition load_page :: "addr \<Rightarrow> addr \<Rightarrow> addr \<Rightarrow> nat \<Rightarrow> addr \<Rightarrow> 'a vm_scheme \<Rightarrow> bool \<times> 'a vm_scheme" where
  "load_page elf_data dir_phys ph i page_vaddr s =
     (let (phys, s) = pmm_alloc_frame s in
      if phys = 0 then (False, s)
      else let m = zero_frame phys (mem s);
               m = copy_file_bytes elf_data (phdr m ph i) page_vaddr phys m
        in (True, snd (paging_map_user_page dir_phys phys page_vaddr (PAGE_RW OR PAGE_USER) (s\<lparr>mem := m\<rparr>))))"

text \<open>The loop over the pages of a segment, whose bounds are read once, and over the headers.\<close>

definition seg_start :: "elf32_phdr \<Rightarrow> addr" where
  "seg_start h = p_vaddr h AND NOT (ELF_PAGE_SIZE - 1)"

definition seg_end :: "elf32_phdr \<Rightarrow> addr" where
  "seg_end h = (p_vaddr h + p_memsz h + ELF_PAGE_SIZE - 1) AND NOT (ELF_PAGE_SIZE - 1)"

definition num_pages :: "elf32_phdr \<Rightarrow> nat" where
  "num_pages h = unat ((seg_end h - seg_start h) div ELF_PAGE_SIZE)"

primrec load_pages ::
    "addr \<Rightarrow> addr \<Rightarrow> addr \<Rightarrow> nat \<Rightarrow> addr list \<Rightarrow> 'a vm_scheme \<Rightarrow> bool \<times> 'a vm_scheme" where
  "load_pages elf_data dir_phys ph i [] s = (True, s)"
| "load_pages elf_data dir_phys ph i (v # vs) s =
     (let (ok, s) = load_page elf_data dir_phys ph i v s
      in if ok then load_pages elf_data dir_phys ph i vs s else (False, s))"

definition seg_pages :: "elf32_phdr \<Rightarrow> addr list" where
  "seg_pages h = map (\<lambda>p. seg_start h + of_nat p * ELF_PAGE_SIZE) [0..<num_pages h]"

definition load_segment :: "addr \<Rightarrow> addr \<Rightarrow> addr \<Rightarrow> nat \<Rightarrow> 'a vm_scheme \<Rightarrow> bool \<times> 'a vm_scheme" where
  "load_segment elf_data dir_phys ph i s =
     (let h = phdr (mem s) ph i in
      if p_type h \<noteq> PT_LOAD then (True, s)
      else load_pages elf_data dir_phys ph i (seg_pages h) s)"

lemma unat_u16: "unat (w :: u16) < 65536"
  using unsigned_less [of w] by simp

function load_segments :: "addr \<Rightarrow> addr \<Rightarrow> addr \<Rightarrow> nat \<Rightarrow> 'a vm_scheme \<Rightarrow> bool \<times> 'a vm_scheme" where
  "load_segments elf_data dir_phys ph i s =
     (if i < unat (e_phnum (ehdr (mem s) elf_data)) then
        let (ok, s) = load_segment elf_data dir_phys ph i s
        in if ok then load_segments elf_data dir_phys ph (i + 1) s else (False, s)
      else (True, s))"
  by pat_completeness auto
termination
  apply (relation "measure (\<lambda>(_, _, _, i, _). 65536 - i)")
   apply simp
  subgoal for elf_data dir_phys ph i s
    using unat_u16 [of "e_phnum (ehdr (mem s) elf_data)"] by simp
  done

declare load_segments.simps [simp del]

definition elf_load :: "addr \<Rightarrow> addr \<Rightarrow> 'a vm_scheme \<Rightarrow> u32 option \<times> 'a vm_scheme" where
  "elf_load elf_data dir_phys s =
     (let eh = ehdr (mem s) elf_data in
      if e_ident eh ! 0 \<noteq> 0x7F \<or> e_ident eh ! 1 \<noteq> 0x45 \<or> e_ident eh ! 2 \<noteq> 0x4C \<or> e_ident eh ! 3 \<noteq> 0x46
      then (None, s)
      else if e_ident eh ! 4 \<noteq> 1 then (None, s)
      else let (ok, s) = load_segments elf_data dir_phys (elf_data + e_phoff eh) 0 s
        in if ok then (Some (e_entry (ehdr (mem s) elf_data)), s) else (None, s))"

section \<open>Bytes of pages\<close>

lemma page_split: "page_base a + of_nat (unat a mod 4096) = a"
proof -
  have "unat (a AND mask 12) = unat a mod 4096"
    by (simp flip: take_bit_eq_mask) (simp add: take_bit_eq_mod unat_mod)
  then have low: "of_nat (unat a mod 4096) = a AND mask 12"
    by (simp add: word_unat_eq_iff unat_of_nat)
  have "page_base a + (a AND mask 12) = page_base a OR (a AND mask 12)"
    by (rule disjunctive_add) (auto simp: bit_page_base bit_and_iff bit_mask_iff)
  also have "\<dots> = a" by (rule bit_word_eqI) (auto simp: bit_page_base bit_or_iff bit_and_iff bit_mask_iff)
  finally show ?thesis using low by simp
qed

lemma unat_page_base: "unat (page_base a) = unat a - unat a mod 4096"
  using unat_page_byte [of "page_base a" "unat a mod 4096"] by (simp add: page_split)

lemma page_base_byte: "page_aligned q \<Longrightarrow> b < 4096 \<Longrightarrow> page_base (q + of_nat b) = q"
  using page_byte_eq_iff [of "page_base (q + of_nat b)" q "unat (q + of_nat b) mod 4096" b]
  by (simp add: page_split)

lemma zero_frame_bytes:
  assumes "page_aligned d" "page_aligned q" "b < 4096"
  shows "zero_frame d m (q + of_nat b) = (if q = d then 0 else m (q + of_nat b))"
proof -
  have "fold (\<lambda>z m. m(d + of_nat z := 0)) [0..<n] m (q + of_nat b) =
      (if q = d \<and> b < n then 0 else m (q + of_nat b))" if "n \<le> 4096" for n
    using that assms by (induction n) (auto simp: page_byte_eq_iff less_Suc_eq)
  then show ?thesis using assms(3) by (simp add: zero_frame_def ELF_PAGE_SIZE_def)
qed

lemma elf_copy_bytes_bytes:
  assumes "page_aligned d" "page_aligned q" "b < 4096" "k + n \<le> 4096"
    and "\<And>j. j < n \<Longrightarrow> page_base (src + of_nat j) \<noteq> d"
  shows "elf_copy_bytes (d + of_nat k) src n m (q + of_nat b) =
    (if q = d \<and> k \<le> b \<and> b < k + n then m (src + of_nat (b - k)) else m (q + of_nat b))"
proof -
  define f where "f = (\<lambda>j (m :: memory). m(d + of_nat k + of_nat j := m (src + of_nat j)))"
  have "fold f [0..<i] m (r + of_nat c) =
      (if r = d \<and> k \<le> c \<and> c < k + i then m (src + of_nat (c - k)) else m (r + of_nat c))"
    if "i \<le> n" "page_aligned r" "c < 4096" for i r c
    using that
  proof (induction i arbitrary: r c)
    case (Suc i)
    have dst: "d + of_nat k + of_nat i = d + of_nat (k + i)" by simp
    have "page_base (src + of_nat i) \<noteq> d" using assms(5) Suc.prems by simp
    then have src: "fold f [0..<i] m (src + of_nat i) = m (src + of_nat i)"
      using Suc.IH [of "page_base (src + of_nat i)" "unat (src + of_nat i) mod 4096"] Suc.prems
      by (simp add: page_split)
    have "fold f [0..<Suc i] m (r + of_nat c) = (if r + of_nat c = d + of_nat (k + i) then
        m (src + of_nat i) else fold f [0..<i] m (r + of_nat c))"
      using src by (simp add: f_def)
    also have "r + of_nat c = d + of_nat (k + i) \<longleftrightarrow> r = d \<and> c = k + i"
      using Suc.prems assms by (intro page_byte_eq_iff) auto
    finally show ?case using Suc by auto
  qed auto
  from this [of n q b] show ?thesis using assms by (simp add: elf_copy_bytes_def f_def)
qed

lemma zero_table_other_page:
  assumes "page_aligned t" "page_aligned q" "t \<noteq> q" "b < 4096"
  shows "zero_table t m (q + of_nat b) = m (q + of_nat b)"
proof -
  have "fold (\<lambda>i. set_entry t i 0) [0..<n] m (q + of_nat b) = m (q + of_nat b)" if "n \<le> 1024" for n
    using that assms by (induction n) (auto simp: set_entry_other_page)
  then show ?thesis by (simp add: zero_table_def ENTRIES_PER_TABLE_def)
qed

section \<open>Data pages\<close>

text \<open>A page in use that is neither the directory nor one of its tables: mapping a page leaves it alone.\<close>

definition data_page :: "'a vm_scheme \<Rightarrow> addr \<Rightarrow> addr \<Rightarrow> bool" where
  "data_page s dir q \<longleftrightarrow> page_aligned q \<and> frame_live s q \<and> q \<notin> pages_of (mem s) dir"

lemma map_user_page_data:
  assumes inv: "pmm_inv s" and wf: "as_wf s dir" and pd: "16 \<le> pd_index va"
    and room: "\<not> is_present (get_entry (mem s) dir (pd_index va)) \<Longrightarrow> 0 < free_frames s"
    and q: "data_page s dir q"
  shows "data_page (snd (paging_map_user_page dir phys va flags s)) dir q"
    "b < 4096 \<Longrightarrow> mem (snd (paging_map_user_page dir phys va flags s)) (q + of_nat b) = mem s (q + of_nat b)"
proof -
  show "data_page (snd (paging_map_user_page dir phys va flags s)) dir q"
    using map_user_page_effect(4) [OF inv wf pd room, of phys flags] q map_user_page_live [OF inv]
    by (auto simp: data_page_def)
  have dir: "page_aligned dir" "q \<noteq> dir" using q as_wfD [OF wf] by (auto simp: data_page_def pages_of_def)
  have live: "t \<noteq> q" if "\<not> frame_live s t" for t using q that by (auto simp: data_page_def)
  have table: "page_base (get_entry (mem s) dir (pd_index va)) \<noteq> q"
    if "is_present (get_entry (mem s) dir (pd_index va))"
    using q pages_ofI [OF pd _ that] by (auto simp: data_page_def)
  show "mem (snd (paging_map_user_page dir phys va flags s)) (q + of_nat b) = mem s (q + of_nat b)" if "b < 4096"
    by (cases rule: map_user_page_cases [OF inv pd room, of dir phys flags])
      (use q that pd dir dir(2) [symmetric] live table in
        \<open>auto simp: set_entry_other_page zero_table_other_page data_page_def\<close>)
qed

text \<open>A frame fresh from the allocator can be filled: it is a data page, and nothing else changes.\<close>

lemma fill_new_frame:
  assumes inv: "pmm_inv s" and wf: "as_wf s dir" and alloc: "pmm_alloc_frame s = (d, s1)" "d \<noteq> 0"
    and same: "\<And>q b. page_aligned q \<Longrightarrow> q \<noteq> d \<Longrightarrow> b < 4096 \<Longrightarrow> m (q + of_nat b) = mem s (q + of_nat b)"
  shows "pmm_inv (s1\<lparr>mem := m\<rparr>)" "as_wf (s1\<lparr>mem := m\<rparr>) dir" "data_page (s1\<lparr>mem := m\<rparr>) dir d"
    "data_page s dir q \<Longrightarrow> q \<noteq> d \<and> data_page (s1\<lparr>mem := m\<rparr>) dir q"
    "x \<in> user_slots \<Longrightarrow> leaf m dir x = leaf (mem s) dir x" "page_aligned d"
proof -
  note fresh = frames.alloc_fresh [OF inv alloc] pmm_alloc_free [OF inv alloc]
  show aligned: "page_aligned d" using fresh by simp
  have live: "frame_live (s1\<lparr>mem := m\<rparr>) q \<longleftrightarrow> frame_of q = frame_of d \<or> frame_live s q" for q
    using fresh by (simp add: frame_live_def)
  have new: "\<not> frame_live s d" using fresh by (simp add: frame_live_def)
  have entries: "get_entry m q i = get_entry (mem s) q i"
    if "page_aligned q" "q \<noteq> d" "i < 1024" for q i
    using same that by (intro get_entry_bytes_cong) auto
  have pages: "q \<in> pages_of (mem s) dir \<Longrightarrow> page_aligned q \<and> q \<noteq> d" for q
    using pages_of_live [OF wf] new by blast
  have pages_eq: "pages_of m dir = pages_of (mem s) dir"
    using pages entries by (intro pages_of_cong(1)) auto
  show "pmm_inv (s1\<lparr>mem := m\<rparr>)" using pmm_alloc_frame_inv [OF inv] alloc by simp
  show "as_wf (s1\<lparr>mem := m\<rparr>) dir"
    by (rule as_wf_mono [OF wf]) (use pages [of dir] in \<open>simp_all add: entries live pages_of_def\<close>)
  show "data_page (s1\<lparr>mem := m\<rparr>) dir d"
    using aligned pages [of d] by (auto simp: data_page_def pages_eq live)
  show "data_page s dir q \<Longrightarrow> q \<noteq> d \<and> data_page (s1\<lparr>mem := m\<rparr>) dir q"
    using new by (auto simp: data_page_def pages_eq live)
  show "x \<in> user_slots \<Longrightarrow> leaf m dir x = leaf (mem s) dir x"
    using pages entries by (intro pages_of_cong(2)) auto
qed

section \<open>The contents of a page\<close>

text \<open>The byte a segment has at a virtual address, and a page of the address space with given bytes.\<close>

definition file_byte :: "memory \<Rightarrow> addr \<Rightarrow> elf32_phdr \<Rightarrow> nat \<Rightarrow> u8" where
  "file_byte m elf_data h a =
     (if unat (p_vaddr h) \<le> a \<and> a < unat (p_vaddr h) + unat (p_filesz h)
      then m (elf_data + (p_offset h + of_nat (a - unat (p_vaddr h)))) else 0)"

definition page_holds :: "'a vm_scheme \<Rightarrow> addr \<Rightarrow> addr \<Rightarrow> (nat \<Rightarrow> u8) \<Rightarrow> bool" where
  "page_holds s dir v f \<longleftrightarrow> (\<exists>p. leaf (mem s) dir (pd_index v, pt_index v) = Some (make_pte p (PAGE_RW OR PAGE_USER)) \<and>
     data_page s dir p \<and> (\<forall>b<4096. mem s (p + of_nat b) = f b))"

lemma unat_add_of_nat:
  "unat a + k < 2 ^ 32 \<Longrightarrow> unat (a + of_nat k :: u32) = unat a + k"
  by (subst unat_add_lt) (simp_all add: unat_of_nat)

lemma minus_of_nat: "b \<le> a \<Longrightarrow> a - b = (of_nat (unat a - unat b) :: u32)"
  by (simp add: of_nat_diff word_le_nat_alt)

lemma copy_file_bytes_bytes:
  assumes d: "page_aligned d" "page_aligned q" "b < 4096"
    and v: "page_aligned v" "unat v + 4096 < 2 ^ 32"
    and h: "unat (p_vaddr h) + unat (p_filesz h) < 2 ^ 32"
    and src: "\<And>j. j < unat (p_filesz h) \<Longrightarrow> page_base (elf + (p_offset h + of_nat j)) \<noteq> d"
  shows "copy_file_bytes elf h v d m (q + of_nat b) =
    (if q = d \<and> unat (p_vaddr h) \<le> unat v + b \<and> unat v + b < unat (p_vaddr h) + unat (p_filesz h)
     then m (elf + (p_offset h + of_nat (unat v + b - unat (p_vaddr h)))) else m (q + of_nat b))"
proof -
  define V F where "V = unat (p_vaddr h)" and "F = unat (p_filesz h)"
  define st where "st = (if p_vaddr h < v then v else p_vaddr h)"
  define en where "en = (if p_vaddr h + p_filesz h < v + ELF_PAGE_SIZE then p_vaddr h + p_filesz h else v + ELF_PAGE_SIZE)"
  have st: "unat st = max (unat v) V" by (auto simp: st_def V_def word_less_nat_alt)
  have "unat (v + ELF_PAGE_SIZE) = unat v + 4096"
    using v unat_add_of_nat [of v 4096] by (simp add: ELF_PAGE_SIZE_def)
  moreover have "unat (p_vaddr h + p_filesz h) = V + F"
    using h by (simp add: V_def F_def unat_add_lt)
  ultimately have en: "unat en = min (V + F) (unat v + 4096)" by (auto simp: en_def word_less_nat_alt)
  have code: "copy_file_bytes elf h v d m = (if st < en then
      elf_copy_bytes (d + (st - v)) (elf + (p_offset h + (st - p_vaddr h))) (unat (en - st)) m else m)"
    by (simp add: copy_file_bytes_def Let_def st_def en_def)
  show ?thesis
  proof (cases "st < en")
    case False
    then show ?thesis using assms(3) st en unfolding code by (auto simp: word_less_nat_alt V_def F_def)
  next
    case True
    then have less: "unat st < unat en" by (simp add: word_less_nat_alt)
    have dst: "st - v = of_nat (unat st - unat v)" "st - p_vaddr h = of_nat (unat st - V)"
      using minus_of_nat [of v st] minus_of_nat [of "p_vaddr h" st] st by (simp_all add: word_le_nat_alt V_def)
    have len: "unat (en - st) = unat en - unat st" using True by (simp add: unat_sub_le)
    have "elf_copy_bytes (d + of_nat (unat st - unat v)) (elf + (p_offset h + of_nat (unat st - V)))
        (unat en - unat st) m (q + of_nat b) =
      (if q = d \<and> unat st - unat v \<le> b \<and> b < unat st - unat v + (unat en - unat st)
       then m (elf + (p_offset h + of_nat (unat st - V)) + of_nat (b - (unat st - unat v))) else m (q + of_nat b))"
    proof (rule elf_copy_bytes_bytes [OF d])
      show "unat st - unat v + (unat en - unat st) \<le> 4096" using st en less by simp
      fix j assume "j < unat en - unat st"
      then have "unat st - V + j < F" using st en less by simp
      then show "page_base (elf + (p_offset h + of_nat (unat st - V)) + of_nat j) \<noteq> d"
        using src [of "unat st - V + j"] by (simp add: F_def add.assoc)
    qed
    moreover have iff: "unat st - unat v \<le> b \<and> b < unat st - unat v + (unat en - unat st) \<longleftrightarrow>
        V \<le> unat v + b \<and> unat v + b < V + F"
      using st en less assms(3) by auto
    moreover have "elf + (p_offset h + of_nat (unat st - V)) + of_nat (b - (unat st - unat v)) =
        elf + (p_offset h + of_nat (unat v + b - V))" if "unat st - unat v \<le> b"
    proof -
      have "unat v + b - V = (unat st - V) + (b - (unat st - unat v))" using that st by simp
      then show ?thesis by (simp only: of_nat_add add.assoc)
    qed
    ultimately show ?thesis
      unfolding code dst len V_def [symmetric] F_def [symmetric] using True
      by (cases "q = d \<and> V \<le> unat v + b \<and> unat v + b < V + F") (simp_all only: if_True if_False simp_thms)
  qed
qed

section \<open>Loading one page\<close>

text \<open>What a step of the loader leaves alone: the data pages and their bytes.\<close>

definition keeps :: "addr \<Rightarrow> 'a vm_scheme \<Rightarrow> 'a vm_scheme \<Rightarrow> bool" where
  "keeps dir s s' \<longleftrightarrow> (\<forall>q. data_page s dir q \<longrightarrow> data_page s' dir q \<and>
     (\<forall>b<4096. mem s' (q + of_nat b) = mem s (q + of_nat b)))"

lemma keeps_refl: "keeps dir s s"
  by (simp add: keeps_def)

lemma keeps_trans: "keeps dir s t \<Longrightarrow> keeps dir t u \<Longrightarrow> keeps dir s u"
  by (simp add: keeps_def)

lemma keeps_byte: "keeps dir s s' \<Longrightarrow> data_page s dir (page_base a) \<Longrightarrow> mem s' a = mem s a"
  unfolding keeps_def using page_split [of a] by (metis mod_less_divisor zero_less_numeral)

lemma keeps_page_holds:
  "keeps dir s s' \<Longrightarrow> page_holds s dir v f \<Longrightarrow>
    leaf (mem s') dir (pd_index v, pt_index v) = leaf (mem s) dir (pd_index v, pt_index v) \<Longrightarrow>
    page_holds s' dir v f"
  unfolding keeps_def page_holds_def by metis

text \<open>An address range whose bytes all lie in data pages.\<close>

definition data_range :: "'a vm_scheme \<Rightarrow> addr \<Rightarrow> addr \<Rightarrow> nat \<Rightarrow> bool" where
  "data_range s dir a n \<longleftrightarrow> (\<forall>k<n. data_page s dir (page_base (a + of_nat k)))"

lemma data_range_keeps: "keeps dir s s' \<Longrightarrow> data_range s dir a n \<Longrightarrow> data_range s' dir a n"
  by (simp add: data_range_def keeps_def)

lemma data_range_sub:
  assumes "data_range s dir a n" "k + i \<le> n"
  shows "data_range s dir (a + of_nat k) i"
  unfolding data_range_def
proof (intro allI impI)
  fix j assume "j < i"
  then have "data_page s dir (page_base (a + of_nat (k + j)))"
    using assms unfolding data_range_def by (meson add_less_cancel_left order_less_le_trans)
  then show "data_page s dir (page_base (a + of_nat k + of_nat j))" by (simp add: add.assoc)
qed

lemma load32_cong:
  assumes "\<And>k. k < 4 \<Longrightarrow> m (a + of_nat k) = m' (a + of_nat k)"
  shows "load32 m a = load32 m' a"
  using assms [of 0] assms [of 1] assms [of 2] assms [of 3] by (simp add: load32_def)

lemma phdr_cong:
  assumes "\<And>k. k < 32 \<Longrightarrow> m (ph + of_nat (32 * i) + of_nat k) = m' (ph + of_nat (32 * i) + of_nat k)"
  shows "phdr m ph i = phdr m' ph i"
proof -
  have "load32 m (ph + of_nat (32 * i) + of_nat k) = load32 m' (ph + of_nat (32 * i) + of_nat k)"
    if "k + 4 \<le> 32" for k
  proof (rule load32_cong)
    fix j :: nat assume "j < 4"
    then show "m (ph + of_nat (32 * i) + of_nat k + of_nat j) = m' (ph + of_nat (32 * i) + of_nat k + of_nat j)"
      using that assms [of "k + j"] by (simp add: add.assoc)
  qed
  from this [of 0] this [of 4] this [of 8] this [of 16] this [of 20] show ?thesis
    by (simp add: phdr_def Let_def)
qed

lemma slot_in [simp]: "16 \<le> pd_index v \<Longrightarrow> (pd_index v, pt_index v) \<in> user_slots"
  by (simp add: user_slots_def)

lemma load_page_spec:
  fixes s :: "'a vm_scheme"
  assumes inv: "pmm_inv s" and wf: "as_wf s dir" and room: "2 \<le> free_frames s"
    and v: "16 \<le> pd_index v" "page_aligned v" "unat v + 4096 < 2 ^ 32"
    and h: "h = phdr (mem s) ph i" "unat (p_vaddr h) + unat (p_filesz h) < 2 ^ 32"
    and hdr: "data_range s dir (ph + of_nat (32 * i)) 32"
    and src: "data_range s dir (elf + p_offset h) (unat (p_filesz h))"
  obtains s' where "load_page elf dir ph i v s = (True, s')" "pmm_inv s'" "as_wf s' dir"
    "free_frames s \<le> free_frames s' + 2" "keeps dir s s'"
    "page_holds s' dir v (\<lambda>b. file_byte (mem s) elf h (unat v + b))"
    "\<And>x. x \<in> user_slots \<Longrightarrow> x \<noteq> (pd_index v, pt_index v) \<Longrightarrow> leaf (mem s') dir x = leaf (mem s) dir x"
proof -
  obtain d s1 where alloc: "pmm_alloc_frame s = (d, s1)" "d \<noteq> 0" "Suc (free_frames s1) = free_frames s"
    using free_frames_alloc [OF inv] room by (metis gr0I not_numeral_le_zero)
  have mem1: "mem s1 = mem s" using pmm_ops_vm(3) [of s] alloc by simp
  have d: "page_aligned d" using frames.alloc_fresh [OF inv alloc(1,2)] by simp
  have new: "\<not> data_page s dir d"
    using pmm_alloc_free [OF inv alloc(1,2)] by (simp add: data_page_def frame_live_def)
  define m where "m = copy_file_bytes elf h v d (zero_frame d (mem s))"
  define s2 where "s2 = s1\<lparr>mem := m\<rparr>"
  define s' where "s' = snd (paging_map_user_page dir d v (PAGE_RW OR PAGE_USER) s2)"
  have away: "page_base a \<noteq> d \<Longrightarrow> zero_frame d (mem s) a = mem s a" for a
    using zero_frame_bytes [OF d, of "page_base a" "unat a mod 4096"] by (simp add: page_split)
  have src': "page_base (elf + (p_offset h + of_nat j)) \<noteq> d" if "j < unat (p_filesz h)" for j
    using src that new by (auto simp: data_range_def add.assoc)
  have "phdr (zero_frame d (mem s)) ph i = phdr (mem s) ph i"
    using hdr new by (intro phdr_cong away) (auto simp: data_range_def)
  then have run: "load_page elf dir ph i v s = (True, s')"
    using alloc by (simp add: load_page_def mem1 s'_def s2_def m_def h(1))
  have bytes: "m (q + of_nat b) = (if q = d then file_byte (mem s) elf h (unat v + b) else mem s (q + of_nat b))"
    if "page_aligned q" "b < 4096" for q b
  proof -
    have "zero_frame d (mem s) (elf + (p_offset h + of_nat (unat v + b - unat (p_vaddr h)))) =
        mem s (elf + (p_offset h + of_nat (unat v + b - unat (p_vaddr h))))"
      if "unat (p_vaddr h) \<le> unat v + b" "unat v + b < unat (p_vaddr h) + unat (p_filesz h)"
      using that by (intro away src') simp
    moreover have "copy_file_bytes elf h v d (zero_frame d (mem s)) (q + of_nat b) =
      (if q = d \<and> unat (p_vaddr h) \<le> unat v + b \<and> unat v + b < unat (p_vaddr h) + unat (p_filesz h)
       then zero_frame d (mem s) (elf + (p_offset h + of_nat (unat v + b - unat (p_vaddr h))))
       else zero_frame d (mem s) (q + of_nat b))"
      by (rule copy_file_bytes_bytes [OF d that v(2,3) h(2)]) (rule src')
    ultimately show ?thesis
      using zero_frame_bytes [OF d that, of "mem s"] unfolding m_def file_byte_def by presburger
  qed
  have fill: "pmm_inv s2" "as_wf s2 dir" "data_page s2 dir d"
    "data_page s dir q \<Longrightarrow> q \<noteq> d \<and> data_page s2 dir q"
    "x \<in> user_slots \<Longrightarrow> leaf (mem s2) dir x = leaf (mem s) dir x" for q x
    using fill_new_frame [OF inv wf alloc(1,2), of m] bytes by (simp_all add: s2_def)
  have room2: "0 < free_frames s2" using room alloc(3) by (simp add: s2_def)
  note data = map_user_page_data [OF fill(1,2) v(1) room2, where phys = d and flags = "PAGE_RW OR PAGE_USER",
      folded s'_def]
  note eff = map_user_page_effect [OF fill(1,2) v(1) room2, where phys = d and flags = "PAGE_RW OR PAGE_USER",
      folded s'_def]
  have slot: "leaf (mem s') dir x = (if x = (pd_index v, pt_index v) then Some (make_pte d (PAGE_RW OR PAGE_USER))
      else leaf (mem s) dir x)" if "x \<in> user_slots" for x
    using eff(3) [of "fst x" "snd x"] fill(5) [OF that] that by (cases x) auto
  have "keeps dir s s'"
    unfolding keeps_def using fill(4) data bytes by (auto simp: s2_def data_page_def)
  moreover have "page_holds s' dir v (\<lambda>b. file_byte (mem s) elf h (unat v + b))"
    unfolding page_holds_def using slot [OF slot_in [OF v(1)]] data [OF fill(3)] bytes [OF d]
    by (auto simp: s2_def)
  moreover have "free_frames s \<le> free_frames s' + 2"
    using eff(6) alloc(3) by (simp add: s2_def split: if_splits)
  ultimately show ?thesis using that [OF run eff(1,2)] slot by simp
qed

section \<open>Loading a segment\<close>

lemma pd_index_div: "pd_index v = unat v div 2 ^ 22"
  by (simp add: pd_index_def drop_bit_eq_div unat_div)

lemma pt_index_div: "pt_index v = unat v div 4096 mod 1024"
proof -
  have m: "(0x3FF :: u32) = mask 10" by (simp add: mask_eq_exp_minus_1)
  show ?thesis
    unfolding pt_index_def m
    by (simp flip: take_bit_eq_mask) (simp add: take_bit_eq_mod unat_mod drop_bit_eq_div unat_div)
qed

lemma slot_page: "(pd_index v, pt_index v) = (pd_index w, pt_index w) \<longleftrightarrow> page_base v = page_base w"
proof
  assume "(pd_index v, pt_index v) = (pd_index w, pt_index w)"
  then have "unat v div 4096 div 1024 = unat w div 4096 div 1024" "unat v div 4096 mod 1024 = unat w div 4096 mod 1024"
    by (simp_all add: pd_index_div pt_index_div flip: div_mult2_eq)
  then have "unat v div 4096 = unat w div 4096" by (metis div_mult_mod_eq)
  then show "page_base v = page_base w"
    by (simp add: word_unat_eq_iff unat_page_base minus_mod_eq_div_mult)
next
  assume "page_base v = page_base w"
  then have "unat v div 4096 * 4096 = unat w div 4096 * 4096"
    by (metis minus_mod_eq_div_mult unat_page_base)
  then have "unat v div 4096 = unat w div 4096" by simp
  moreover have "pd_index u = unat u div 4096 div 1024" for u by (simp add: pd_index_div flip: div_mult2_eq)
  ultimately show "(pd_index v, pt_index v) = (pd_index w, pt_index w)" by (simp add: pt_index_div)
qed

lemma file_byte_keeps:
  assumes "keeps dir s s'" "data_range s dir (elf + p_offset h) (unat (p_filesz h))"
  shows "file_byte (mem s') elf h a = file_byte (mem s) elf h a"
proof -
  have "mem s' (elf + p_offset h + of_nat (a - unat (p_vaddr h))) = mem s (elf + p_offset h + of_nat (a - unat (p_vaddr h)))"
    if "unat (p_vaddr h) \<le> a" "a < unat (p_vaddr h) + unat (p_filesz h)"
  proof (rule keeps_byte [OF assms(1)])
    have "a - unat (p_vaddr h) < unat (p_filesz h)" using that by simp
    then show "data_page s dir (page_base (elf + p_offset h + of_nat (a - unat (p_vaddr h))))"
      using assms(2) unfolding data_range_def by blast
  qed
  then show ?thesis unfolding file_byte_def add.assoc [symmetric] by presburger
qed

lemma load_pages_spec:
  fixes s :: "'a vm_scheme"
  assumes "pmm_inv s" "as_wf s dir" "2 * length vs \<le> free_frames s"
    and "\<And>v. v \<in> set vs \<Longrightarrow> 16 \<le> pd_index v \<and> page_aligned v \<and> unat v + 4096 < 2 ^ 32" "distinct vs"
    and "h = phdr (mem s) ph i" "unat (p_vaddr h) + unat (p_filesz h) < 2 ^ 32"
    and "data_range s dir (ph + of_nat (32 * i)) 32"
    and "data_range s dir (elf + p_offset h) (unat (p_filesz h))"
  shows "\<exists>s'. load_pages elf dir ph i vs s = (True, s') \<and> pmm_inv s' \<and> as_wf s' dir \<and>
    free_frames s \<le> free_frames s' + 2 * length vs \<and> keeps dir s s' \<and>
    (\<forall>v\<in>set vs. page_holds s' dir v (\<lambda>b. file_byte (mem s) elf h (unat v + b))) \<and>
    (\<forall>x\<in>user_slots. x \<notin> (\<lambda>v. (pd_index v, pt_index v)) ` set vs \<longrightarrow> leaf (mem s') dir x = leaf (mem s) dir x)"
  using assms
proof (induction vs arbitrary: s)
  case Nil
  then show ?case by (simp add: keeps_refl)
next
  case (Cons v vs)
  have v: "16 \<le> pd_index v" "page_aligned v" "unat v + 4096 < 2 ^ 32" using Cons.prems(4) [of v] by auto
  have room: "2 \<le> free_frames s" using Cons.prems(3) by simp
  obtain t where t: "load_page elf dir ph i v s = (True, t)" "pmm_inv t" "as_wf t dir"
    "free_frames s \<le> free_frames t + 2" "keeps dir s t"
    "page_holds t dir v (\<lambda>b. file_byte (mem s) elf h (unat v + b))"
    "\<And>x. x \<in> user_slots \<Longrightarrow> x \<noteq> (pd_index v, pt_index v) \<Longrightarrow> leaf (mem t) dir x = leaf (mem s) dir x"
    using load_page_spec [OF Cons.prems(1,2) room v Cons.prems(6-9)] by blast
  have "mem t a = mem s a" if "a = ph + of_nat (32 * i) + of_nat k" "k < 32" for a k
    using keeps_byte [OF t(5), of a] Cons.prems(8) that unfolding data_range_def by blast
  then have h: "h = phdr (mem t) ph i" using Cons.prems(6) by (metis phdr_cong)
  have fb: "file_byte (mem t) elf h = file_byte (mem s) elf h"
    using file_byte_keeps [OF t(5) Cons.prems(9)] by blast
  have "\<exists>s'. load_pages elf dir ph i vs t = (True, s') \<and> pmm_inv s' \<and> as_wf s' dir \<and>
    free_frames t \<le> free_frames s' + 2 * length vs \<and> keeps dir t s' \<and>
    (\<forall>v\<in>set vs. page_holds s' dir v (\<lambda>b. file_byte (mem t) elf h (unat v + b))) \<and>
    (\<forall>x\<in>user_slots. x \<notin> (\<lambda>v. (pd_index v, pt_index v)) ` set vs \<longrightarrow> leaf (mem s') dir x = leaf (mem t) dir x)"
    using Cons.prems t data_range_keeps [OF t(5)] by (intro Cons.IH h) auto
  then obtain s' where s': "load_pages elf dir ph i vs t = (True, s')" "pmm_inv s'" "as_wf s' dir"
    "free_frames t \<le> free_frames s' + 2 * length vs" "keeps dir t s'"
    "\<forall>v\<in>set vs. page_holds s' dir v (\<lambda>b. file_byte (mem s) elf h (unat v + b))"
    "\<forall>x\<in>user_slots. x \<notin> (\<lambda>v. (pd_index v, pt_index v)) ` set vs \<longrightarrow> leaf (mem s') dir x = leaf (mem t) dir x"
    unfolding fb by blast
  have "(pd_index v, pt_index v) \<notin> (\<lambda>v. (pd_index v, pt_index v)) ` set vs"
  proof
    assume "(pd_index v, pt_index v) \<in> (\<lambda>v. (pd_index v, pt_index v)) ` set vs"
    then obtain w where w: "w \<in> set vs" "page_base v = page_base w" using slot_page by blast
    then have "v = w" using v(2) Cons.prems(4) [of w] by auto
    with w(1) Cons.prems(5) show False by simp
  qed
  then have "page_holds s' dir v (\<lambda>b. file_byte (mem s) elf h (unat v + b))"
    using keeps_page_holds [OF s'(5) t(6)] s'(7) slot_in [OF v(1)] by blast
  moreover have "leaf (mem s') dir x = leaf (mem s) dir x"
    if "x \<in> user_slots" "x \<notin> (\<lambda>v. (pd_index v, pt_index v)) ` set (v # vs)" for x
    using that s'(7) t(7) by auto
  moreover have "load_pages elf dir ph i (v # vs) s = (True, s')" using t(1) s'(1) by simp
  moreover have "free_frames s \<le> free_frames s' + 2 * length (v # vs)" using t(4) s'(4) by simp
  ultimately show ?case using s'(2,3,6) keeps_trans [OF t(5) s'(5)] by (intro exI [of _ s']) simp
qed

section \<open>The pages of a segment\<close>

text \<open>
  What the loader relies on and does not check: a \<open>PT_LOAD\<close> segment lies above the identity map,
  does not wrap around the address space, and its bytes are inside the file.
\<close>

definition seg_ok :: "nat \<Rightarrow> elf32_phdr \<Rightarrow> bool" where
  "seg_ok len h \<longleftrightarrow> 0x4000000 \<le> unat (p_vaddr h) \<and> p_filesz h \<le> p_memsz h \<and>
     unat (p_vaddr h) + unat (p_memsz h) + 4095 < 2 ^ 32 \<and> unat (p_offset h) + unat (p_filesz h) \<le> len"

lemma page_floor: "4096 * k \<le> (n :: nat) \<Longrightarrow> 4096 * k \<le> n - n mod 4096"
  using div_le_mono [of "4096 * k" n 4096] by (simp add: minus_mod_eq_mult_div)

lemma seg_bounds:
  assumes "seg_ok len h"
  shows "seg_start h = page_base (p_vaddr h)" "page_aligned (seg_start h)" "page_aligned (seg_end h)"
    "0x4000000 \<le> unat (seg_start h)" "unat (seg_start h) \<le> unat (p_vaddr h)"
    "unat (p_vaddr h) + unat (p_memsz h) \<le> unat (seg_end h)"
    "num_pages h = (unat (seg_end h) - unat (seg_start h)) div 4096"
    "unat (p_vaddr h) + unat (p_filesz h) < 2 ^ 32"
proof -
  have mask: "NOT (ELF_PAGE_SIZE - 1) = 0xFFFFF000" by (simp add: ELF_PAGE_SIZE_def)
  show start: "seg_start h = page_base (p_vaddr h)" by (simp only: seg_start_def mask page_base_def)
  have fin: "seg_end h = page_base (p_vaddr h + p_memsz h + of_nat 4095)"
    by (simp only: seg_end_def mask page_base_def) (simp add: ELF_PAGE_SIZE_def ac_simps)
  show "page_aligned (seg_start h)" "page_aligned (seg_end h)" by (simp_all add: start fin)
  have mod: "n - n mod 4096 \<le> n" "n < n - n mod 4096 + 4096" for n :: nat
    using mod_less_divisor [of 4096 n] by simp_all
  have "0x4000000 \<le> unat (p_vaddr h)" using assms by (simp add: seg_ok_def)
  then show "0x4000000 \<le> unat (seg_start h)"
    using page_floor [of "0x4000" "unat (p_vaddr h)"] by (simp add: start unat_page_base)
  show "unat (seg_start h) \<le> unat (p_vaddr h)" by (simp add: start unat_page_base)
  have sum: "unat (p_vaddr h + p_memsz h) = unat (p_vaddr h) + unat (p_memsz h)"
    using assms by (intro unat_add_lt) (simp add: seg_ok_def)
  have "unat (p_vaddr h + p_memsz h + of_nat 4095) = unat (p_vaddr h) + unat (p_memsz h) + 4095"
    using assms unat_add_of_nat [of "p_vaddr h + p_memsz h" 4095] by (simp only: sum seg_ok_def)
  then show le: "unat (p_vaddr h) + unat (p_memsz h) \<le> unat (seg_end h)"
    unfolding fin unat_page_base using mod(2) [of "unat (p_vaddr h) + unat (p_memsz h) + 4095"] by linarith
  have "seg_start h \<le> seg_end h"
    using le by (simp add: word_le_nat_alt start unat_page_base)
  then show "num_pages h = (unat (seg_end h) - unat (seg_start h)) div 4096"
    by (simp add: num_pages_def unat_div unat_sub_le ELF_PAGE_SIZE_def)
  show "unat (p_vaddr h) + unat (p_filesz h) < 2 ^ 32"
    using assms by (simp add: seg_ok_def word_le_nat_alt)
qed

lemma seg_pages_nth:
  assumes "seg_ok len h" "p < num_pages h"
  shows "unat (seg_start h + of_nat p * ELF_PAGE_SIZE) = unat (seg_start h) + p * 4096"
    "unat (seg_start h) + p * 4096 + 4096 \<le> unat (seg_end h)"
proof -
  note b = seg_bounds [OF assms(1)]
  have "Suc p * 4096 \<le> (unat (seg_end h) - unat (seg_start h)) div 4096 * 4096"
    using assms(2) b(7) by (intro mult_le_mono1) simp
  also have "\<dots> \<le> unat (seg_end h) - unat (seg_start h)" by simp
  finally show le: "unat (seg_start h) + p * 4096 + 4096 \<le> unat (seg_end h)" by simp
  have "unat (seg_end h) < 2 ^ 32" using unsigned_less [of "seg_end h"] by simp
  with le have "unat (seg_start h) + p * 4096 < 2 ^ 32" by simp
  moreover have "of_nat p * ELF_PAGE_SIZE = of_nat (p * 4096)" by (simp add: ELF_PAGE_SIZE_def)
  ultimately show "unat (seg_start h + of_nat p * ELF_PAGE_SIZE) = unat (seg_start h) + p * 4096"
    by (simp only: unat_add_of_nat)
qed

lemma page_aligned_iff: "page_aligned v \<longleftrightarrow> unat v mod 4096 = 0"
  by (simp add: page_aligned_def dvd_eq_mod_eq_0)

lemma seg_pages_facts:
  assumes ok: "seg_ok len h"
  shows "distinct (seg_pages h)" "length (seg_pages h) = num_pages h"
    "v \<in> set (seg_pages h) \<Longrightarrow> 16 \<le> pd_index v \<and> page_aligned v \<and> unat v + 4096 < 2 ^ 32"
    "v \<in> set (seg_pages h) \<Longrightarrow> seg_start h \<le> v \<and> v < seg_end h"
    "seg_start h \<le> w \<Longrightarrow> w < seg_end h \<Longrightarrow> page_base w \<in> set (seg_pages h)"
proof -
  note b = seg_bounds [OF ok]
  have top: "unat (seg_end h) < 2 ^ 32" using unsigned_less [of "seg_end h"] by simp
  show "length (seg_pages h) = num_pages h" by (simp add: seg_pages_def)
  have "inj_on (\<lambda>p. seg_start h + of_nat p * ELF_PAGE_SIZE) {..<num_pages h}"
  proof (rule inj_onI)
    fix p q assume "p \<in> {..<num_pages h}" "q \<in> {..<num_pages h}"
      "seg_start h + of_nat p * ELF_PAGE_SIZE = seg_start h + of_nat q * ELF_PAGE_SIZE"
    then have "unat (seg_start h) + p * 4096 = unat (seg_start h) + q * 4096"
      by (metis seg_pages_nth(1) [OF ok] lessThan_iff)
    then show "p = q" by simp
  qed
  then show "distinct (seg_pages h)" by (simp add: seg_pages_def distinct_map atLeast0LessThan)
  show "16 \<le> pd_index v \<and> page_aligned v \<and> unat v + 4096 < 2 ^ 32"
    and "seg_start h \<le> v \<and> v < seg_end h" if mem: "v \<in> set (seg_pages h)"
  proof -
    obtain p where p: "p < num_pages h" "v = seg_start h + of_nat p * ELF_PAGE_SIZE"
      using mem by (auto simp: seg_pages_def)
    note n = seg_pages_nth [OF ok p(1), folded p(2)]
    show "seg_start h \<le> v \<and> v < seg_end h" using n by (simp add: word_le_nat_alt word_less_nat_alt)
    have "(unat (seg_start h) + p * 4096) mod 4096 = 0"
      using b(2) by (simp add: page_aligned_iff)
    moreover have "16 \<le> unat v div 2 ^ 22" using n(1) b(4) by simp
    ultimately show "16 \<le> pd_index v \<and> page_aligned v \<and> unat v + 4096 < 2 ^ 32"
      using n top by (simp add: pd_index_div page_aligned_iff)
  qed
  assume w: "seg_start h \<le> w" "w < seg_end h"
  obtain i where i: "unat (seg_start h) = 4096 * i" using b(2) by (auto simp: page_aligned_def)
  obtain j where j: "unat (seg_end h) = 4096 * j" using b(3) by (auto simp: page_aligned_def)
  define c where "c = unat w div 4096"
  define p where "p = c - i"
  have ij: "4096 * i \<le> unat w" "unat w < j * 4096" using w i j by (simp_all add: word_le_nat_alt word_less_nat_alt)
  have "i \<le> c" using div_le_mono [OF ij(1), of 4096] by (simp add: c_def)
  moreover have "c < j" using ij(2) by (simp add: c_def less_mult_imp_div_less)
  moreover have "num_pages h = j - i" unfolding b(7) i j by (simp flip: right_diff_distrib')
  ultimately have lt: "p < num_pages h" by (simp add: p_def)
  have "unat (seg_start h) + p * 4096 = unat (page_base w)"
    using \<open>i \<le> c\<close> unfolding i p_def unat_page_base minus_mod_eq_mult_div c_def [symmetric]
    by (simp add: diff_mult_distrib)
  then have "page_base w = seg_start h + of_nat p * ELF_PAGE_SIZE"
    using seg_pages_nth(1) [OF ok lt] by (simp add: word_unat_eq_iff)
  then show "page_base w \<in> set (seg_pages h)" using lt by (auto simp: seg_pages_def)
qed

lemma page_in_segment:
  assumes "page_base v = w" "w \<in> set (seg_pages h)" "seg_ok len h"
  shows "seg_start h \<le> v \<and> v < seg_end h"
proof -
  obtain p where p: "p < num_pages h" "w = seg_start h + of_nat p * ELF_PAGE_SIZE"
    using assms(2) by (auto simp: seg_pages_def)
  note n = seg_pages_nth [OF assms(3) p(1), folded p(2)]
  define r where "r = unat v mod 4096"
  have "r < 4096" "r \<le> unat v" by (simp_all add: r_def)
  moreover have "unat w = unat v - r" using assms(1) unat_page_base [of v] by (simp add: r_def)
  ultimately have "unat (seg_start h) \<le> unat v" "unat v < unat (seg_end h)" using n by linarith+
  then show ?thesis by (simp add: word_le_nat_alt word_less_nat_alt)
qed

section \<open>The image\<close>

text \<open>The \<open>PT_LOAD\<close> headers among the first \<open>n\<close>, and the conditions on an image of \<open>len\<close> bytes.\<close>

definition load_phdrs :: "memory \<Rightarrow> addr \<Rightarrow> nat \<Rightarrow> elf32_phdr list" where
  "load_phdrs m elf n =
     filter (\<lambda>h. p_type h = PT_LOAD) (map (phdr m (elf + e_phoff (ehdr m elf))) [0..<n])"

definition apart :: "elf32_phdr \<Rightarrow> elf32_phdr \<Rightarrow> bool" where
  "apart h k \<longleftrightarrow> seg_end h \<le> seg_start k \<or> seg_end k \<le> seg_start h"

definition image_ok :: "memory \<Rightarrow> addr \<Rightarrow> nat \<Rightarrow> bool" where
  "image_ok m elf len \<longleftrightarrow> (let eh = ehdr m elf; n = unat (e_phnum eh) in
     52 \<le> len \<and> map (\<lambda>k. e_ident eh ! k) [0..<5] = [0x7F, 0x45, 0x4C, 0x46, 1] \<and>
     unat (e_phoff eh) + 32 * n \<le> len \<and>
     (\<forall>h\<in>set (load_phdrs m elf n). seg_ok len h) \<and> sorted_wrt apart (load_phdrs m elf n))"

definition image_pages :: "memory \<Rightarrow> addr \<Rightarrow> nat \<Rightarrow> nat" where
  "image_pages m elf n = sum_list (map num_pages (load_phdrs m elf n))"

lemma load_phdrs_Suc:
  "load_phdrs m elf (Suc i) = load_phdrs m elf i @
     (let h = phdr m (elf + e_phoff (ehdr m elf)) i in if p_type h = PT_LOAD then [h] else [])"
  by (simp add: load_phdrs_def)

lemma image_pages_Suc:
  "image_pages m elf (Suc i) = image_pages m elf i +
     (let h = phdr m (elf + e_phoff (ehdr m elf)) i in if p_type h = PT_LOAD then num_pages h else 0)"
  by (simp add: image_pages_def load_phdrs_Suc Let_def)

lemma load_phdrs_mono: "i \<le> n \<Longrightarrow> \<exists>hs. load_phdrs m elf n = load_phdrs m elf i @ hs"
  by (induction n rule: dec_induct) (auto simp: load_phdrs_Suc)

lemma image_pages_mono: "i \<le> n \<Longrightarrow> image_pages m elf i \<le> image_pages m elf n"
  using load_phdrs_mono [of i n m elf] by (auto simp: image_pages_def)

lemma ehdr_keeps:
  assumes k: "keeps dir s s'" and r: "data_range s dir elf len" and len: "52 \<le> len"
  shows "ehdr (mem s') elf = ehdr (mem s) elf"
proof -
  have byte: "mem s' (elf + of_nat k) = mem s (elf + of_nat k)" if "k < 52" for k
    using that r len unfolding data_range_def by (intro keeps_byte [OF k]) simp
  have "load32 (mem s') (elf + of_nat k) = load32 (mem s) (elf + of_nat k)" if "k + 4 \<le> 52" for k
    using byte that by (intro load32_cong) (simp add: add.assoc flip: of_nat_add)
  from this [of 24] this [of 28] byte [of 44] byte [of 45] byte show ?thesis
    by (simp add: ehdr_def load16_def add.assoc)
qed

text \<open>The state of the loader before header \<open>i\<close>.\<close>

definition loading :: "'a vm_scheme \<Rightarrow> addr \<Rightarrow> addr \<Rightarrow> nat \<Rightarrow> 'a vm_scheme \<Rightarrow> bool" where
  "loading s0 dir elf i s \<longleftrightarrow> pmm_inv s \<and> as_wf s dir \<and> keeps dir s0 s \<and>
     free_frames s0 \<le> free_frames s + 2 * image_pages (mem s0) elf i \<and>
     (\<forall>h\<in>set (load_phdrs (mem s0) elf i). \<forall>v\<in>set (seg_pages h).
        page_holds s dir v (\<lambda>b. file_byte (mem s0) elf h (unat v + b))) \<and>
     (\<forall>x\<in>user_slots. (\<forall>h\<in>set (load_phdrs (mem s0) elf i). \<forall>v\<in>set (seg_pages h). x \<noteq> (pd_index v, pt_index v)) \<longrightarrow>
        leaf (mem s) dir x = leaf (mem s0) dir x)"

lemma image_segment:
  assumes img: "image_ok (mem s0) elf len" "data_range s0 dir elf len"
    and i: "i < unat (e_phnum (ehdr (mem s0) elf))"
  defines "ph \<equiv> elf + e_phoff (ehdr (mem s0) elf)"
  defines "h \<equiv> phdr (mem s0) ph i"
  shows "data_range s0 dir (ph + of_nat (32 * i)) 32"
    "p_type h = PT_LOAD \<Longrightarrow> seg_ok len h \<and> data_range s0 dir (elf + p_offset h) (unat (p_filesz h)) \<and>
       (\<forall>k\<in>set (load_phdrs (mem s0) elf i). apart k h)"
proof -
  let ?n = "unat (e_phnum (ehdr (mem s0) elf))"
  have len: "unat (e_phoff (ehdr (mem s0) elf)) + 32 * ?n \<le> len"
    using img(1) by (simp add: image_ok_def Let_def)
  have "data_range s0 dir (elf + of_nat (unat (e_phoff (ehdr (mem s0) elf)) + 32 * i)) 32"
    using len i by (intro data_range_sub [OF img(2)]) simp
  then show "data_range s0 dir (ph + of_nat (32 * i)) 32" by (simp add: ph_def add.assoc)
  assume load: "p_type h = PT_LOAD"
  obtain hs where hs: "load_phdrs (mem s0) elf ?n = load_phdrs (mem s0) elf (Suc i) @ hs"
    using load_phdrs_mono [of "Suc i" ?n] i by auto
  then have all: "load_phdrs (mem s0) elf ?n = load_phdrs (mem s0) elf i @ h # hs"
    using load by (simp add: load_phdrs_Suc Let_def flip: ph_def h_def)
  have ok: "seg_ok len h" and ap: "\<forall>k\<in>set (load_phdrs (mem s0) elf i). apart k h"
    using img(1) by (auto simp: image_ok_def Let_def all sorted_wrt_append)
  have "data_range s0 dir (elf + of_nat (unat (p_offset h))) (unat (p_filesz h))"
    using ok by (intro data_range_sub [OF img(2)]) (simp add: seg_ok_def)
  with ok ap show "seg_ok len h \<and> data_range s0 dir (elf + p_offset h) (unat (p_filesz h)) \<and>
       (\<forall>k\<in>set (load_phdrs (mem s0) elf i). apart k h)" by simp
qed

lemma apart_pages:
  assumes "seg_ok len h" "seg_ok len k" "apart k h" "v \<in> set (seg_pages h)" "w \<in> set (seg_pages k)"
  shows "(pd_index w, pt_index w) \<noteq> (pd_index v, pt_index v)"
proof
  assume "(pd_index w, pt_index w) = (pd_index v, pt_index v)"
  then have "page_base w = page_base v" using slot_page by blast
  then have "w = v" using seg_pages_facts(3) [OF assms(1,4)] seg_pages_facts(3) [OF assms(2,5)] by simp
  then show False
    using assms(3) seg_pages_facts(4) [OF assms(1,4)] seg_pages_facts(4) [OF assms(2,5)]
    by (auto simp: apart_def)
qed

text \<open>Once all pages of one more segment are in place, the loader has come past its header.\<close>

lemma loading_snoc:
  fixes s0 :: "'a vm_scheme"
  assumes now: "loading s0 dir elf i s"
    and sum: "load_phdrs (mem s0) elf (Suc i) = load_phdrs (mem s0) elf i @ [h]"
    and oks: "seg_ok len h" "\<And>k. k \<in> set (load_phdrs (mem s0) elf i) \<Longrightarrow> seg_ok len k \<and> apart k h"
    and s': "pmm_inv s'" "as_wf s' dir" "free_frames s \<le> free_frames s' + 2 * num_pages h" "keeps dir s s'"
      "\<forall>v\<in>set (seg_pages h). page_holds s' dir v (\<lambda>b. file_byte (mem s0) elf h (unat v + b))"
    and leaves: "\<forall>x\<in>user_slots. x \<notin> (\<lambda>v. (pd_index v, pt_index v)) ` set (seg_pages h) \<longrightarrow>
      leaf (mem s') dir x = leaf (mem s) dir x"
  shows "loading s0 dir elf (Suc i) s'"
proof -
  note st = now [unfolded loading_def]
  have old: "page_holds s' dir w (\<lambda>b. file_byte (mem s0) elf k (unat w + b))"
    if k: "k \<in> set (load_phdrs (mem s0) elf i)" and w: "w \<in> set (seg_pages k)" for k w
  proof (rule keeps_page_holds [OF s'(4)])
    show "page_holds s dir w (\<lambda>b. file_byte (mem s0) elf k (unat w + b))" using st k w by blast
    have "16 \<le> pd_index w" using seg_pages_facts(3) [OF _ w] oks(2) [OF k] by blast
    moreover have "(pd_index w, pt_index w) \<notin> (\<lambda>v. (pd_index v, pt_index v)) ` set (seg_pages h)"
      using apart_pages [OF oks(1) _ _ _ w] oks(2) [OF k] by blast
    ultimately show "leaf (mem s') dir (pd_index w, pt_index w) = leaf (mem s) dir (pd_index w, pt_index w)"
      using leaves slot_in by blast
  qed
  have rest: "leaf (mem s') dir x = leaf (mem s0) dir x"
    if "x \<in> user_slots" "\<forall>k\<in>set (load_phdrs (mem s0) elf (Suc i)). \<forall>v\<in>set (seg_pages k). x \<noteq> (pd_index v, pt_index v)" for x
  proof -
    have "x \<notin> (\<lambda>v. (pd_index v, pt_index v)) ` set (seg_pages h)"
      and "\<forall>k\<in>set (load_phdrs (mem s0) elf i). \<forall>v\<in>set (seg_pages k). x \<noteq> (pd_index v, pt_index v)"
      using that(2) by (auto simp: sum)
    then show ?thesis using leaves st that(1) by metis
  qed
  have "free_frames s0 \<le> free_frames s' + 2 * image_pages (mem s0) elf (Suc i)"
    using st s'(3) by (simp add: image_pages_def sum)
  then show ?thesis
    unfolding loading_def using s' keeps_trans [OF _ s'(4)] st old rest by (auto simp: sum)
qed

lemma load_segment_step:
  fixes s0 :: "'a vm_scheme"
  assumes img: "image_ok (mem s0) elf len" "data_range s0 dir elf len"
    and i: "i < unat (e_phnum (ehdr (mem s0) elf))"
    and room: "2 * image_pages (mem s0) elf (Suc i) \<le> free_frames s0"
    and now: "loading s0 dir elf i s"
  defines "ph \<equiv> elf + e_phoff (ehdr (mem s0) elf)"
  shows "\<exists>s'. load_segment elf dir ph i s = (True, s') \<and> loading s0 dir elf (Suc i) s'"
proof -
  define h where "h = phdr (mem s0) ph i"
  have inv: "pmm_inv s" and wf: "as_wf s dir" and k: "keeps dir s0 s"
    and used: "free_frames s0 \<le> free_frames s + 2 * image_pages (mem s0) elf i"
    using now by (simp_all add: loading_def)
  note sg = image_segment [OF img i, folded ph_def, folded h_def]
  have "mem s a = mem s0 a" if "a = ph + of_nat (32 * i) + of_nat j" "j < 32" for a j
    using keeps_byte [OF k, of a] sg(1) that unfolding data_range_def by blast
  then have h: "h = phdr (mem s) ph i" unfolding h_def by (metis phdr_cong)
  show ?thesis
  proof (cases "p_type h = PT_LOAD")
    case False
    then have "loading s0 dir elf (Suc i) s"
      using now by (simp add: loading_def load_phdrs_Suc image_pages_Suc Let_def flip: ph_def h_def)
    moreover have "load_segment elf dir ph i s = (True, s)"
      using False by (simp add: load_segment_def flip: h)
    ultimately show ?thesis by blast
  next
    case load: True
    then have ok: "seg_ok len h" and src: "data_range s0 dir (elf + p_offset h) (unat (p_filesz h))"
      and ap: "\<forall>k\<in>set (load_phdrs (mem s0) elf i). apart k h"
      using sg(2) by blast+
    have oks: "seg_ok len k \<and> apart k h" if "k \<in> set (load_phdrs (mem s0) elf i)" for k
      using img(1) load_phdrs_mono [of i "unat (e_phnum (ehdr (mem s0) elf))" "mem s0" elf] i that ap
      by (auto simp: image_ok_def Let_def)
    note pg = seg_pages_facts [OF ok]
    have sum: "load_phdrs (mem s0) elf (Suc i) = load_phdrs (mem s0) elf i @ [h]"
      using load by (simp add: load_phdrs_Suc Let_def flip: ph_def h_def)
    have fb: "file_byte (mem s) elf h = file_byte (mem s0) elf h"
      using file_byte_keeps [OF k src] by blast
    have enough: "2 * length (seg_pages h) \<le> free_frames s"
      using used room by (simp add: image_pages_def sum pg(2))
    from load_pages_spec [OF inv wf enough pg(3) pg(1) h seg_bounds(8) [OF ok] data_range_keeps [OF k sg(1)]
        data_range_keeps [OF k src]]
    obtain s' where run: "load_pages elf dir ph i (seg_pages h) s = (True, s')"
      and "loading s0 dir elf (Suc i) s'"
      unfolding fb pg(2) using loading_snoc [OF now sum ok oks] by blast
    moreover have "load_segment elf dir ph i s = (True, s')"
      using load run by (simp add: load_segment_def flip: h)
    ultimately show ?thesis by blast
  qed
qed

lemma load_segments_loading:
  fixes s0 :: "'a vm_scheme"
  assumes img: "image_ok (mem s0) elf len" "data_range s0 dir elf len"
    and room: "2 * image_pages (mem s0) elf n \<le> free_frames s0"
    and n: "n = unat (e_phnum (ehdr (mem s0) elf))" "i \<le> n" and now: "loading s0 dir elf i s"
  shows "\<exists>s'. load_segments elf dir (elf + e_phoff (ehdr (mem s0) elf)) i s = (True, s') \<and> loading s0 dir elf n s'"
  using n(2) now
proof (induction i arbitrary: s rule: inc_induct)
  have len: "52 \<le> len" using img(1) by (simp add: image_ok_def Let_def)
  have eh: "ehdr (mem s) elf = ehdr (mem s0) elf" if "loading s0 dir elf j s" for j s
    using ehdr_keeps [OF _ img(2) len] that by (simp add: loading_def)
  {
    case base
    then show ?case using eh [OF base] n by (simp add: load_segments.simps)
  next
    case (step i)
    have "2 * image_pages (mem s0) elf (Suc i) \<le> free_frames s0"
      using room image_pages_mono [of "Suc i" n "mem s0" elf] step.hyps by simp
    then obtain t where t: "load_segment elf dir (elf + e_phoff (ehdr (mem s0) elf)) i s = (True, t)"
      "loading s0 dir elf (Suc i) t"
      using load_segment_step [OF img _ _ step.prems] step.hyps n by auto
    then show ?case
      using step.IH [OF t(2)] eh [OF step.prems] step.hyps n by (simp add: load_segments.simps [of _ _ _ i])
  }
qed

text \<open>The byte a user-mode access through the directory reads.\<close>

definition user_byte :: "memory \<Rightarrow> addr \<Rightarrow> addr \<Rightarrow> u8 option" where
  "user_byte m dir v = (case leaf m dir (pd_index v, pt_index v) of
     None \<Rightarrow> None | Some e \<Rightarrow> Some (m (page_base e + of_nat (unat v mod 4096))))"

lemma page_holds_byte:
  assumes "page_holds s dir (page_base v) (\<lambda>b. f (unat (page_base v) + b))"
  shows "user_byte (mem s) dir v = Some (f (unat v))"
proof -
  have slot: "(pd_index (page_base v), pt_index (page_base v)) = (pd_index v, pt_index v)"
    by (subst slot_page) simp
  obtain p where p: "leaf (mem s) dir (pd_index v, pt_index v) = Some (make_pte p (PAGE_RW OR PAGE_USER))"
    "data_page s dir p" "\<forall>b<4096. mem s (p + of_nat b) = f (unat (page_base v) + b)"
    using assms unfolding page_holds_def slot by blast
  have "unat (page_base v) + unat v mod 4096 = unat v" by (simp add: unat_page_base)
  then show ?thesis using p by (simp add: user_byte_def data_page_def)
qed

section \<open>Properties\<close>

text \<open>A file without the magic number or of another class is refused without an effect.\<close>

lemma elf_rejects:
  "map (\<lambda>k. e_ident (ehdr (mem s) elf) ! k) [0..<5] \<noteq> [0x7F, 0x45, 0x4C, 0x46, 1] \<Longrightarrow>
    elf_load elf dir s = (None, s)"
  by (auto simp: elf_load_def Let_def upt_rec numeral_eq_Suc)

lemma elf_load_loading:
  fixes s :: "'a vm_scheme"
  assumes "pmm_inv s" "as_wf s dir" "image_ok (mem s) elf len" "data_range s dir elf len"
  defines "n \<equiv> unat (e_phnum (ehdr (mem s) elf))"
  assumes "2 * image_pages (mem s) elf n \<le> free_frames s"
  shows "\<exists>s'. elf_load elf dir s = (Some (e_entry (ehdr (mem s) elf)), s') \<and> loading s dir elf n s'"
proof -
  have "loading s dir elf 0 s"
    using assms(1,2) by (simp add: loading_def keeps_refl load_phdrs_def image_pages_def)
  then obtain s' where s': "load_segments elf dir (elf + e_phoff (ehdr (mem s) elf)) 0 s = (True, s')"
    "loading s dir elf n s'"
    using load_segments_loading [OF assms(3,4,6)] by (auto simp: n_def)
  have "52 \<le> len" and magic: "map (\<lambda>k. e_ident (ehdr (mem s) elf) ! k) [0..<5] = [0x7F, 0x45, 0x4C, 0x46, 1]"
    using assms(3) by (simp_all add: image_ok_def Let_def)
  then have "ehdr (mem s') elf = ehdr (mem s) elf"
    using s'(2) [unfolded loading_def] assms(4) by (intro ehdr_keeps) auto
  then show ?thesis using magic s' by (simp add: elf_load_def upt_rec numeral_eq_Suc)
qed

text \<open>The pages of the image, by address.\<close>

lemma image_page:
  assumes img: "image_ok m elf len" "h \<in> set (load_phdrs m elf (unat (e_phnum (ehdr m elf))))"
  shows "seg_ok len h" "seg_start h \<le> v \<Longrightarrow> v < seg_end h \<Longrightarrow> page_base v \<in> set (seg_pages h)"
    "w \<in> set (seg_pages h) \<Longrightarrow> (pd_index v, pt_index v) = (pd_index w, pt_index w) \<Longrightarrow> seg_start h \<le> v \<and> v < seg_end h"
proof -
  show ok: "seg_ok len h" using img by (simp add: image_ok_def Let_def)
  show "page_base v \<in> set (seg_pages h)" if "seg_start h \<le> v" "v < seg_end h"
    by (rule seg_pages_facts(5) [OF ok that])
  assume w: "w \<in> set (seg_pages h)" "(pd_index v, pt_index v) = (pd_index w, pt_index w)"
  then have "page_base v = w" using slot_page seg_pages_facts(3) [OF ok w(1)] by auto
  then show "seg_start h \<le> v \<and> v < seg_end h" using page_in_segment [OF _ w(1) ok] by simp
qed

text \<open>C23: loading an executable. For an image that lies in memory apart from the directory and its
  tables, whose segments are inside the file, above the identity map and on pages of their own, and
  with two free frames per page, \<open>elf_load\<close> returns the entry point; then every byte of every segment's
  pages reads, through the directory, as the byte of the file, or as zero beyond the file's part
  (\<open>.bss\<close> and padding), every other page of the address space is mapped as before, and the
  directory and the frame allocator keep their invariants.\<close>

theorem elf_load_spec:
  fixes s :: "'a vm_scheme"
  assumes "pmm_inv s" "as_wf s dir" "image_ok (mem s) elf len" "data_range s dir elf len"
  defines "n \<equiv> unat (e_phnum (ehdr (mem s) elf))"
  assumes "2 * image_pages (mem s) elf n \<le> free_frames s"
  shows "\<exists>s'. elf_load elf dir s = (Some (e_entry (ehdr (mem s) elf)), s') \<and> pmm_inv s' \<and> as_wf s' dir \<and>
    (\<forall>h\<in>set (load_phdrs (mem s) elf n). \<forall>v. seg_start h \<le> v \<and> v < seg_end h \<longrightarrow>
       user_byte (mem s') dir v = Some (file_byte (mem s) elf h (unat v))) \<and>
    (\<forall>v. 16 \<le> pd_index v \<and> (\<forall>h\<in>set (load_phdrs (mem s) elf n). \<not> (seg_start h \<le> v \<and> v < seg_end h)) \<longrightarrow>
       leaf (mem s') dir (pd_index v, pt_index v) = leaf (mem s) dir (pd_index v, pt_index v))"
proof -
  obtain s' where s': "elf_load elf dir s = (Some (e_entry (ehdr (mem s) elf)), s')" "loading s dir elf n s'"
    using elf_load_loading [OF assms(1-4)] assms(6) by (auto simp: n_def)
  note fin = s'(2) [unfolded loading_def] and page = image_page [OF assms(3), folded n_def]
  have "user_byte (mem s') dir v = Some (file_byte (mem s) elf h (unat v))"
    if "h \<in> set (load_phdrs (mem s) elf n)" "seg_start h \<le> v" "v < seg_end h" for h v
    using fin that page(2) [OF that] by (intro page_holds_byte) blast
  moreover have "leaf (mem s') dir (pd_index v, pt_index v) = leaf (mem s) dir (pd_index v, pt_index v)"
    if v: "16 \<le> pd_index v" "\<forall>h\<in>set (load_phdrs (mem s) elf n). \<not> (seg_start h \<le> v \<and> v < seg_end h)" for v
    using fin v page(3) slot_in [OF v(1)] by blast
  ultimately show ?thesis using s'(1) fin by blast
qed

text \<open>An image of one segment, at 0x10000 in a machine with the demonstration address space.\<close>

definition demo_image :: "u8 list" where
  "demo_image = [0x7F, 0x45, 0x4C, 0x46, 1, 1, 1, 0, 0, 0, 0, 0, 0, 0, 0, 0,
     2, 0, 3, 0, 1, 0, 0, 0, 0x02, 0x10, 0x00, 0x04, 52, 0, 0, 0, 0, 0, 0, 0, 0, 0, 0, 0,
     52, 0, 32, 0, 1, 0, 0, 0, 0, 0, 0, 0,
     1, 0, 0, 0, 84, 0, 0, 0, 0x02, 0x10, 0x00, 0x04, 0, 0, 0, 0, 4, 0, 0, 0, 8, 0, 0, 0,
     7, 0, 0, 0, 0, 0x10, 0, 0, 0xDE, 0xAD, 0xBE, 0xEF]"

definition elf_mem :: memory where
  "elf_mem = (\<lambda>a. if 0x10000 \<le> a \<and> a < 0x10058 then demo_image ! unat (a - 0x10000) else demo_mem a)"

definition elf_vm :: vm where
  "elf_vm = demo_vm\<lparr>mem := elf_mem\<rparr>"

definition demo_phdr :: elf32_phdr where
  "demo_phdr = \<lparr>p_type = 1, p_offset = 84, p_vaddr = 0x4001002, p_filesz = 4, p_memsz = 8\<rparr>"

lemma elf_mem_dir [simp]:
  "i < 1024 \<Longrightarrow> get_entry elf_mem 0x100000 i = get_entry demo_mem 0x100000 i"
  "i < 1024 \<Longrightarrow> get_entry elf_mem 0x101000 i = get_entry demo_mem 0x101000 i"
proof -
  have "elf_mem (q + of_nat b) = demo_mem (q + of_nat b)"
    if "page_aligned q" "0x100000 \<le> unat q" "b < 4096" for q b
    using unat_page_byte [OF that(1,3)] that(2) by (simp add: elf_mem_def word_less_nat_alt)
  then have "get_entry elf_mem q i = get_entry demo_mem q i" if "page_aligned q" "0x100000 \<le> unat q" "i < 1024" for q i
    using that by (intro get_entry_bytes_cong) auto
  from this [of "0x100000" i] this [of "0x101000" i]
  show "i < 1024 \<Longrightarrow> get_entry elf_mem 0x100000 i = get_entry demo_mem 0x100000 i"
    "i < 1024 \<Longrightarrow> get_entry elf_mem 0x101000 i = get_entry demo_mem 0x101000 i"
    by (simp_all del: demo_mem_dir)
qed

lemma demo_headers:
  "ehdr elf_mem 0x10000 = \<lparr>e_ident = [0x7F, 0x45, 0x4C, 0x46, 1, 1, 1, 0, 0, 0, 0, 0, 0, 0, 0, 0],
     e_entry = 0x4001002, e_phoff = 52, e_phnum = 1\<rparr>"
  "phdr elf_mem 0x10034 0 = demo_phdr"
  by (simp_all add: ehdr_def phdr_def load32_def load16_def elf_mem_def demo_image_def demo_phdr_def upt_rec)

lemma demo_load_phdrs: "load_phdrs elf_mem 0x10000 (Suc 0) = [demo_phdr]"
  using demo_headers(2) by (simp add: load_phdrs_def demo_headers(1) PT_LOAD_def) (simp add: demo_phdr_def)

lemma demo_segment:
  "seg_start demo_phdr = 0x4001000" "seg_end demo_phdr = 0x4002000" "num_pages demo_phdr = 1" "seg_ok 88 demo_phdr"
  by (simp_all add: seg_start_def seg_end_def num_pages_def seg_ok_def demo_phdr_def ELF_PAGE_SIZE_def)

lemma demo_elf_vm: "pmm_inv elf_vm" "as_wf elf_vm 0x100000" "data_range elf_vm 0x100000 0x10000 88"
proof -
  show "pmm_inv elf_vm" by (simp add: elf_vm_def demo_vm_inv)
  show "as_wf elf_vm 0x100000"
    by (rule as_wf_mono [OF demo_vm_wf]) (simp_all add: elf_vm_def frame_live_def)
  have al: "page_aligned 0x10000" by (simp add: page_aligned_def)
  have "(0x10000 :: addr) \<notin> pages_of elf_mem 0x100000"
    by (auto simp: pages_of_def split: if_splits)
  then have "data_page elf_vm 0x100000 0x10000"
    using al by (simp add: data_page_def elf_vm_def frame_live_def frame_of_def)
  moreover have "page_base (0x10000 + of_nat k) = 0x10000" if "k < 88" for k
    using page_base_byte [OF al] that by simp
  ultimately show "data_range elf_vm 0x100000 0x10000 88"
    unfolding data_range_def by metis
qed

theorem elf_load_spec_witness:
  "\<exists>s'. elf_load 0x10000 0x100000 elf_vm = (Some 0x4001002, s') \<and>
     user_byte (mem s') 0x100000 0x4001003 = Some 0xAD \<and> user_byte (mem s') 0x100000 0x4001006 = Some 0 \<and>
     leaf (mem s') 0x100000 (16, 0) = Some 0x102205"
proof -
  have m: "mem elf_vm = elf_mem" by (simp add: elf_vm_def)
  have img: "image_ok (mem elf_vm) 0x10000 88"
    by (simp add: image_ok_def m demo_headers(1) demo_load_phdrs demo_segment(4) Let_def upt_rec)
  have room: "2 * image_pages (mem elf_vm) 0x10000 (unat (e_phnum (ehdr (mem elf_vm) 0x10000))) \<le> free_frames elf_vm"
    by (simp add: m demo_headers(1) image_pages_def demo_load_phdrs demo_segment(3))
      (simp add: elf_vm_def demo_free_frames)
  obtain s' where s': "elf_load 0x10000 0x100000 elf_vm = (Some 0x4001002, s')"
    "\<forall>v. 0x4001000 \<le> v \<and> v < 0x4002000 \<longrightarrow>
       user_byte (mem s') 0x100000 v = Some (file_byte elf_mem 0x10000 demo_phdr (unat v))"
    "\<forall>v. 16 \<le> pd_index v \<and> \<not> (0x4001000 \<le> v \<and> v < 0x4002000) \<longrightarrow>
       leaf (mem s') 0x100000 (pd_index v, pt_index v) = leaf elf_mem 0x100000 (pd_index v, pt_index v)"
    using elf_load_spec [OF demo_elf_vm(1,2) img demo_elf_vm(3) room]
    by (auto simp: m demo_headers(1) demo_load_phdrs demo_segment)
  have "file_byte elf_mem 0x10000 demo_phdr (unat (0x4001003 :: addr)) = 0xAD"
    "file_byte elf_mem 0x10000 demo_phdr (unat (0x4001006 :: addr)) = 0"
    by (simp_all add: file_byte_def demo_phdr_def elf_mem_def demo_image_def)
  moreover have "leaf elf_mem 0x100000 (16, 0) = Some 0x102205"
    by (simp add: leaf_def user_pte_def)
  ultimately show ?thesis
    using s'(1) s'(2) [rule_format, of "0x4001003"] s'(2) [rule_format, of "0x4001006"]
      s'(3) [rule_format, of "0x4000000"] by simp
qed

end
