(* ===== verification/Fb.thy ===== *)
theory Fb
  imports Prelude
begin

text \<open>
  \<open>kernel/fb.c\<close> and \<open>kernel/font8x16.c\<close>: drawing into the linear framebuffer. Pixels are kept by
  their index from the base address. C's \<open>int\<close> is a 32-bit word read as signed, so that the sums of
  a coordinate and an extent wrap as they do in the machine.
\<close>

record framebuf =
  fb_pixels :: "u32 \<Rightarrow> u32"
  fb_width :: u32
  fb_height :: u32
  fb_pitch_px :: u32

definition RGB :: "u32 \<Rightarrow> u32 \<Rightarrow> u32 \<Rightarrow> u32" where
  "RGB r g b = or (or (push_bit 16 r) (push_bit 8 g)) b"

text \<open>The pointer \<open>fb\<close> is the origin of the indices; initialisation leaves the pixels alone.\<close>

definition fb_init :: "u32 \<Rightarrow> u32 \<Rightarrow> u32 \<Rightarrow> framebuf \<Rightarrow> framebuf" where
  "fb_init width height pitch_bytes b =
     b\<lparr>fb_width := width, fb_height := height, fb_pitch_px := pitch_bytes div 4\<rparr>"

definition fb_get_width :: "framebuf \<Rightarrow> u32" where "fb_get_width b = fb_width b"
definition fb_get_height :: "framebuf \<Rightarrow> u32" where "fb_get_height b = fb_height b"

definition set_pixel :: "u32 \<Rightarrow> u32 \<Rightarrow> framebuf \<Rightarrow> framebuf" where
  "set_pixel i color b = b\<lparr>fb_pixels := (fb_pixels b)(i := color)\<rparr>"

definition fb_put_pixel :: "u32 \<Rightarrow> u32 \<Rightarrow> u32 \<Rightarrow> framebuf \<Rightarrow> framebuf" where
  "fb_put_pixel x y color b =
     (if sint x < 0 \<or> sint y < 0 \<or> fb_width b \<le> x \<or> fb_height b \<le> y then b
      else set_pixel (y * fb_pitch_px b + x) color b)"

definition clip_low :: "u32 \<Rightarrow> u32" where
  "clip_low x = (if sint x < 0 then 0 else x)"

definition clip_high :: "u32 \<Rightarrow> u32 \<Rightarrow> u32" where
  "clip_high x1 limit = (if sint limit < sint x1 then limit else x1)"

definition fb_fill_rect :: "u32 \<Rightarrow> u32 \<Rightarrow> u32 \<Rightarrow> u32 \<Rightarrow> u32 \<Rightarrow> framebuf \<Rightarrow> framebuf" where
  "fb_fill_rect x y w h color b =
     (let x0 = clip_low x; y0 = clip_low y;
          x1 = clip_high (x + w) (fb_width b); y1 = clip_high (y + h) (fb_height b)
      in fold (\<lambda>yy. fold (\<lambda>xx. set_pixel (word_of_int yy * fb_pitch_px b + word_of_int xx) color)
           [sint x0..sint x1 - 1]) [sint y0..sint y1 - 1] b)"

definition fb_draw_rect :: "u32 \<Rightarrow> u32 \<Rightarrow> u32 \<Rightarrow> u32 \<Rightarrow> u32 \<Rightarrow> framebuf \<Rightarrow> framebuf" where
  "fb_draw_rect x y w h color b =
     fb_fill_rect (x + w - 1) y 1 h color (fb_fill_rect x y 1 h color
       (fb_fill_rect x (y + h - 1) w 1 color (fb_fill_rect x y w 1 color b)))"

definition fb_draw_hline :: "u32 \<Rightarrow> u32 \<Rightarrow> u32 \<Rightarrow> u32 \<Rightarrow> framebuf \<Rightarrow> framebuf" where
  "fb_draw_hline x y w color = fb_fill_rect x y w 1 color"

definition fb_draw_vline :: "u32 \<Rightarrow> u32 \<Rightarrow> u32 \<Rightarrow> u32 \<Rightarrow> framebuf \<Rightarrow> framebuf" where
  "fb_draw_vline x y h color = fb_fill_rect x y 1 h color"

text \<open>The glyphs of ASCII 32 to 126, a byte per row with the leftmost pixel in the high bit.\<close>

definition font8x16_data :: "u8 list list" where
  "font8x16_data =
  [[0, 0, 0, 0, 0, 0, 0, 0, 0, 0, 0, 0, 0, 0, 0, 0],
   [0, 0, 0, 0, 16, 16, 16, 16, 16, 16, 0, 16, 16, 0, 0, 0],
   [0, 0, 0, 0, 40, 40, 40, 40, 0, 0, 0, 0, 0, 0, 0, 0],
   [0, 0, 0, 18, 18, 22, 127, 36, 36, 254, 40, 72, 72, 0, 0, 0],
   [0, 0, 0, 0, 8, 62, 73, 72, 56, 14, 9, 73, 62, 8, 8, 0],
   [0, 0, 0, 0, 96, 144, 144, 98, 28, 102, 9, 9, 6, 0, 0, 0],
   [0, 0, 0, 0, 28, 32, 32, 48, 73, 77, 69, 98, 61, 0, 0, 0],
   [0, 0, 0, 0, 16, 16, 16, 16, 0, 0, 0, 0, 0, 0, 0, 0],
   [0, 0, 12, 8, 8, 16, 16, 16, 16, 16, 16, 8, 8, 4, 0, 0],
   [0, 0, 48, 16, 16, 8, 8, 8, 8, 8, 8, 16, 16, 32, 0, 0],
   [0, 0, 0, 0, 8, 73, 62, 28, 107, 8, 0, 0, 0, 0, 0, 0],
   [0, 0, 0, 0, 0, 16, 16, 16, 254, 16, 16, 16, 0, 0, 0, 0],
   [0, 0, 0, 0, 0, 0, 0, 0, 0, 0, 0, 24, 24, 16, 32, 0],
   [0, 0, 0, 0, 0, 0, 0, 0, 0, 56, 0, 0, 0, 0, 0, 0],
   [0, 0, 0, 0, 0, 0, 0, 0, 0, 0, 0, 24, 24, 0, 0, 0],
   [0, 0, 0, 0, 2, 4, 4, 8, 8, 24, 16, 16, 32, 32, 64, 0],
   [0, 0, 0, 0, 28, 34, 65, 65, 73, 65, 65, 34, 28, 0, 0, 0],
   [0, 0, 0, 0, 56, 8, 8, 8, 8, 8, 8, 8, 62, 0, 0, 0],
   [0, 0, 0, 0, 62, 67, 1, 1, 2, 12, 24, 32, 127, 0, 0, 0],
   [0, 0, 0, 0, 62, 65, 1, 3, 28, 3, 1, 67, 62, 0, 0, 0],
   [0, 0, 0, 0, 6, 10, 26, 18, 34, 66, 127, 2, 2, 0, 0, 0],
   [0, 0, 0, 0, 126, 64, 64, 124, 3, 1, 1, 67, 60, 0, 0, 0],
   [0, 0, 0, 0, 30, 33, 64, 94, 99, 65, 65, 35, 30, 0, 0, 0],
   [0, 0, 0, 0, 127, 2, 2, 4, 4, 8, 24, 16, 32, 0, 0, 0],
   [0, 0, 0, 0, 62, 65, 65, 65, 62, 99, 65, 97, 62, 0, 0, 0],
   [0, 0, 0, 0, 60, 98, 65, 65, 99, 61, 1, 66, 60, 0, 0, 0],
   [0, 0, 0, 0, 0, 0, 24, 24, 0, 0, 0, 24, 24, 0, 0, 0],
   [0, 0, 0, 0, 0, 0, 24, 24, 0, 0, 0, 24, 24, 16, 32, 0],
   [0, 0, 0, 0, 0, 0, 1, 14, 112, 112, 14, 1, 0, 0, 0, 0],
   [0, 0, 0, 0, 0, 0, 0, 127, 0, 0, 127, 0, 0, 0, 0, 0],
   [0, 0, 0, 0, 0, 0, 64, 56, 7, 7, 56, 64, 0, 0, 0, 0],
   [0, 0, 0, 0, 56, 68, 4, 8, 16, 16, 0, 16, 16, 0, 0, 0],
   [0, 0, 0, 0, 30, 51, 33, 71, 73, 73, 73, 71, 32, 48, 30, 0],
   [0, 0, 0, 0, 8, 20, 20, 20, 34, 34, 62, 99, 65, 0, 0, 0],
   [0, 0, 0, 0, 126, 65, 65, 65, 126, 65, 65, 65, 126, 0, 0, 0],
   [0, 0, 0, 0, 30, 33, 64, 64, 64, 64, 64, 33, 30, 0, 0, 0],
   [0, 0, 0, 0, 124, 66, 65, 65, 65, 65, 65, 66, 124, 0, 0, 0],
   [0, 0, 0, 0, 127, 64, 64, 64, 127, 64, 64, 64, 127, 0, 0, 0],
   [0, 0, 0, 0, 127, 64, 64, 64, 127, 64, 64, 64, 64, 0, 0, 0],
   [0, 0, 0, 0, 30, 33, 64, 64, 67, 65, 65, 33, 30, 0, 0, 0],
   [0, 0, 0, 0, 65, 65, 65, 65, 127, 65, 65, 65, 65, 0, 0, 0],
   [0, 0, 0, 0, 124, 16, 16, 16, 16, 16, 16, 16, 124, 0, 0, 0],
   [0, 0, 0, 0, 28, 4, 4, 4, 4, 4, 4, 68, 56, 0, 0, 0],
   [0, 0, 0, 0, 66, 68, 72, 80, 112, 72, 68, 68, 66, 0, 0, 0],
   [0, 0, 0, 0, 64, 64, 64, 64, 64, 64, 64, 64, 127, 0, 0, 0],
   [0, 0, 0, 0, 99, 99, 85, 85, 85, 73, 65, 65, 65, 0, 0, 0],
   [0, 0, 0, 0, 97, 97, 81, 81, 73, 69, 69, 67, 67, 0, 0, 0],
   [0, 0, 0, 0, 28, 34, 65, 65, 65, 65, 65, 34, 28, 0, 0, 0],
   [0, 0, 0, 0, 126, 67, 65, 65, 67, 126, 64, 64, 64, 0, 0, 0],
   [0, 0, 0, 0, 28, 34, 65, 65, 65, 65, 65, 35, 30, 6, 2, 0],
   [0, 0, 0, 0, 126, 67, 65, 65, 126, 66, 65, 65, 64, 0, 0, 0],
   [0, 0, 0, 0, 62, 97, 64, 96, 62, 3, 1, 67, 62, 0, 0, 0],
   [0, 0, 0, 0, 254, 16, 16, 16, 16, 16, 16, 16, 16, 0, 0, 0],
   [0, 0, 0, 0, 65, 65, 65, 65, 65, 65, 65, 65, 62, 0, 0, 0],
   [0, 0, 0, 0, 65, 99, 34, 34, 34, 20, 20, 20, 8, 0, 0, 0],
   [0, 0, 0, 0, 129, 129, 129, 90, 90, 90, 102, 102, 102, 0, 0, 0],
   [0, 0, 0, 0, 99, 34, 20, 28, 8, 20, 54, 34, 65, 0, 0, 0],
   [0, 0, 0, 0, 130, 68, 40, 40, 16, 16, 16, 16, 16, 0, 0, 0],
   [0, 0, 0, 0, 127, 3, 6, 4, 8, 16, 48, 96, 127, 0, 0, 0],
   [0, 0, 28, 16, 16, 16, 16, 16, 16, 16, 16, 16, 16, 28, 0, 0],
   [0, 0, 0, 0, 64, 32, 32, 16, 16, 24, 8, 8, 4, 4, 2, 0],
   [0, 0, 56, 8, 8, 8, 8, 8, 8, 8, 8, 8, 8, 56, 0, 0],
   [0, 0, 0, 0, 16, 40, 68, 198, 0, 0, 0, 0, 0, 0, 0, 0],
   [0, 0, 0, 0, 0, 0, 0, 0, 0, 0, 0, 0, 0, 0, 0, 255],
   [0, 0, 0, 16, 8, 0, 0, 0, 0, 0, 0, 0, 0, 0, 0, 0],
   [0, 0, 0, 0, 0, 0, 28, 34, 2, 62, 66, 70, 58, 0, 0, 0],
   [0, 0, 64, 64, 64, 64, 124, 102, 66, 66, 66, 102, 124, 0, 0, 0],
   [0, 0, 0, 0, 0, 0, 28, 34, 64, 64, 64, 34, 28, 0, 0, 0],
   [0, 0, 2, 2, 2, 2, 62, 102, 66, 66, 66, 102, 62, 0, 0, 0],
   [0, 0, 0, 0, 0, 0, 60, 102, 66, 126, 64, 98, 60, 0, 0, 0],
   [0, 0, 12, 16, 16, 16, 124, 16, 16, 16, 16, 16, 16, 0, 0, 0],
   [0, 0, 0, 0, 0, 0, 62, 102, 66, 66, 66, 102, 58, 2, 34, 28],
   [0, 0, 64, 64, 64, 64, 92, 98, 66, 66, 66, 66, 66, 0, 0, 0],
   [0, 0, 16, 0, 0, 0, 112, 16, 16, 16, 16, 16, 124, 0, 0, 0],
   [0, 0, 8, 0, 0, 0, 56, 8, 8, 8, 8, 8, 8, 8, 8, 112],
   [0, 0, 64, 64, 64, 64, 68, 72, 80, 112, 72, 68, 66, 0, 0, 0],
   [0, 0, 112, 16, 16, 16, 16, 16, 16, 16, 16, 16, 14, 0, 0, 0],
   [0, 0, 0, 0, 0, 0, 127, 73, 73, 73, 73, 73, 73, 0, 0, 0],
   [0, 0, 0, 0, 0, 0, 92, 98, 66, 66, 66, 66, 66, 0, 0, 0],
   [0, 0, 0, 0, 0, 0, 60, 102, 66, 66, 66, 102, 60, 0, 0, 0],
   [0, 0, 0, 0, 0, 0, 124, 102, 66, 66, 66, 102, 124, 64, 64, 64],
   [0, 0, 0, 0, 0, 0, 62, 102, 66, 66, 66, 102, 58, 2, 2, 2],
   [0, 0, 0, 0, 0, 0, 60, 50, 32, 32, 32, 32, 32, 0, 0, 0],
   [0, 0, 0, 0, 0, 0, 60, 66, 64, 60, 2, 66, 60, 0, 0, 0],
   [0, 0, 0, 0, 16, 16, 126, 16, 16, 16, 16, 16, 14, 0, 0, 0],
   [0, 0, 0, 0, 0, 0, 66, 66, 66, 66, 66, 70, 58, 0, 0, 0],
   [0, 0, 0, 0, 0, 0, 66, 102, 36, 36, 60, 24, 24, 0, 0, 0],
   [0, 0, 0, 0, 0, 0, 129, 129, 90, 90, 90, 36, 36, 0, 0, 0],
   [0, 0, 0, 0, 0, 0, 102, 36, 24, 24, 24, 36, 102, 0, 0, 0],
   [0, 0, 0, 0, 0, 0, 66, 34, 36, 36, 20, 24, 8, 8, 16, 48],
   [0, 0, 0, 0, 0, 0, 126, 2, 4, 24, 32, 64, 126, 0, 0, 0],
   [0, 0, 28, 16, 16, 16, 16, 96, 16, 16, 16, 16, 16, 12, 0, 0],
   [0, 0, 16, 16, 16, 16, 16, 16, 16, 16, 16, 16, 16, 16, 16, 0],
   [0, 0, 112, 16, 16, 16, 16, 12, 16, 16, 16, 16, 16, 96, 0, 0],
   [0, 0, 0, 0, 0, 0, 0, 0, 57, 70, 0, 0, 0, 0, 0, 0]]"

definition fb_draw_char :: "u32 \<Rightarrow> u32 \<Rightarrow> u8 \<Rightarrow> u32 \<Rightarrow> u32 \<Rightarrow> bool \<Rightarrow> framebuf \<Rightarrow> framebuf" where
  "fb_draw_char x y c fg bg opaque =
     (let c = (if sint c < 32 \<or> 126 < sint c then 63 else c);
          glyph = font8x16_data ! (unat c - 32)
      in fold (\<lambda>row. fold (\<lambda>col.
             if bit (glyph ! row) (7 - col) then fb_put_pixel (x + of_nat col) (y + of_nat row) fg
             else if opaque then fb_put_pixel (x + of_nat col) (y + of_nat row) bg
             else id) [0..<8]) [0..<16])"

text \<open>The loop of \<open>fb_draw_string\<close>, with the column where a line starts.\<close>

primrec draw_string_loop ::
    "u32 \<Rightarrow> u32 \<Rightarrow> u32 \<Rightarrow> u8 list \<Rightarrow> u32 \<Rightarrow> u32 \<Rightarrow> bool \<Rightarrow> framebuf \<Rightarrow> framebuf" where
  "draw_string_loop x cx y [] fg bg opaque b = b"
| "draw_string_loop x cx y (c # s) fg bg opaque b =
     (if c = 10 then draw_string_loop x x (y + 16) s fg bg opaque b
      else draw_string_loop x (cx + 8) y s fg bg opaque (fb_draw_char cx y c fg bg opaque b))"

definition fb_draw_string :: "u32 \<Rightarrow> u32 \<Rightarrow> u8 list \<Rightarrow> u32 \<Rightarrow> u32 \<Rightarrow> bool \<Rightarrow> framebuf \<Rightarrow> framebuf" where
  "fb_draw_string x y s fg bg opaque b = draw_string_loop x x y s fg bg opaque b"

section \<open>Drawing stays on the screen\<close>

text \<open>
  The pixels of the screen, and a change confined to them: geometry and all other memory as before.
\<close>

definition on_screen :: "framebuf \<Rightarrow> u32 \<Rightarrow> bool" where
  "on_screen b i \<longleftrightarrow> (\<exists>x y. x < fb_width b \<and> y < fb_height b \<and> i = y * fb_pitch_px b + x)"

definition draws :: "framebuf \<Rightarrow> framebuf \<Rightarrow> bool" where
  "draws b b' \<longleftrightarrow> fb_width b' = fb_width b \<and> fb_height b' = fb_height b \<and> fb_pitch_px b' = fb_pitch_px b \<and>
     (\<forall>i. \<not> on_screen b i \<longrightarrow> fb_pixels b' i = fb_pixels b i)"

lemma draws_refl [simp, intro]: "draws b b"
  by (simp add: draws_def)

lemma draws_trans: "draws a b \<Longrightarrow> draws b c \<Longrightarrow> draws a c"
  by (auto simp: draws_def on_screen_def)

lemma draws_set_pixel: "on_screen b i \<Longrightarrow> draws b (set_pixel i color b)"
  by (auto simp: draws_def set_pixel_def)

lemma draws_put_pixel: "draws b (fb_put_pixel x y color b)"
proof -
  have "on_screen b (y * fb_pitch_px b + x)" if "x < fb_width b" "y < fb_height b"
    using that unfolding on_screen_def by blast
  then show ?thesis by (auto simp: fb_put_pixel_def intro!: draws_set_pixel)
qed

lemma clipped:
  fixes limit :: u32
  assumes "sint (clip_low x) \<le> i" "i < sint (clip_high x1 limit)"
  shows "(word_of_int i :: u32) < limit"
proof -
  have "0 \<le> i" using assms(1) by (auto simp: clip_low_def split: if_splits)
  moreover have "i < sint limit"
    using assms(2) by (auto simp: clip_high_def split: if_splits)
  moreover have "uint limit = sint limit" if "0 \<le> sint limit"
    using that sint_lt [of limit] by (simp add: uint_sint take_bit_int_eq_self)
  ultimately show ?thesis
    using uint_lt2p [of limit] by (simp add: word_less_def uint_word_of_int)
qed

lemma draws_clipped_pixel:
  assumes "draws a b" "sint (clip_low x) \<le> xx" "xx < sint (clip_high x1 (fb_width a))"
    and "sint (clip_low y) \<le> yy" "yy < sint (clip_high y1 (fb_height a))"
  shows "draws b (set_pixel (word_of_int yy * fb_pitch_px a + word_of_int xx) color b)"
proof (rule draws_set_pixel)
  show "on_screen b (word_of_int yy * fb_pitch_px a + word_of_int xx)"
    unfolding on_screen_def
    using assms(1) clipped [OF assms(2,3)] clipped [OF assms(4,5)]
    by (intro exI [of _ "word_of_int xx"] exI [of _ "word_of_int yy"]) (simp add: draws_def)
qed

lemma draws_fold_from:
  assumes "\<And>x b'. x \<in> set xs \<Longrightarrow> draws a b' \<Longrightarrow> draws b' (f x b')" "draws a b"
  shows "draws b (fold f xs b)"
  using assms
proof (induction xs arbitrary: b)
  case (Cons x xs)
  then have step: "draws b (f x b)" by simp
  with Cons.prems(2) have "draws a (f x b)" by (rule draws_trans)
  with Cons have "draws (f x b) (fold f xs (f x b))" by simp
  with step show ?case by (auto intro: draws_trans)
qed simp

lemma draws_fill_rect: "draws a (fb_fill_rect x y w h color a)"
  unfolding fb_fill_rect_def Let_def
  by (intro draws_fold_from [OF _ draws_refl] draws_fold_from [where a = a]) (auto intro: draws_clipped_pixel)

lemma draws_char: "draws b (fb_draw_char x y c fg bg opaque b)"
  unfolding fb_draw_char_def Let_def
  by (intro draws_fold_from [OF _ draws_refl]) (auto intro!: draws_fold_from draws_put_pixel)

lemma draws_string: "draws b (draw_string_loop x cx y s fg bg opaque b)"
  by (induction s arbitrary: cx y b) (auto intro: draws_trans [OF draws_char])

text \<open>No drawing primitive writes outside the screen. Whatever the coordinates and extents, in
  32-bit arithmetic with their sums wrapping, filling, outlining, lines, characters and strings
  change only words of the framebuffer that are pixels of the screen, and never its geometry.\<close>

theorem fb_drawing_safe:
  "draws b (fb_put_pixel x y color b) \<and> draws b (fb_fill_rect x y w h color b) \<and>
    draws b (fb_draw_rect x y w h color b) \<and> draws b (fb_draw_hline x y w color b) \<and>
    draws b (fb_draw_vline x y h color b) \<and> draws b (fb_draw_char x y c fg bg opaque b) \<and>
    draws b (fb_draw_string x y s fg bg opaque b)"
  unfolding fb_draw_rect_def fb_draw_hline_def fb_draw_vline_def fb_draw_string_def
  by (intro conjI draws_put_pixel draws_fill_rect draws_char draws_string
      draws_trans [OF _ draws_fill_rect])

end
