(* ===== verification/Vga.thy ===== *)
theory Vga
  imports Keyboard Fb
begin

text \<open>
  \<open>kernel/vga.c\<close>: the text console with its three backends: the character buffer a task has been
  redirected to, the VGA text memory, and, once graphics mode is on, a character buffer rendered
  into the framebuffer. The pointer of \<open>vga_set_redirect\<close> names an array of cells in \<open>cells\<close>.

  A write or read outside of an array gives \<open>None\<close>; that it does not happen is a theorem. What is
  mirrored to the serial port is left out.
\<close>

record console = kbd +
  cells :: "addr \<Rightarrow> u16 list"
  vga_memory :: "u16 list"
  cursor_row :: int
  cursor_col :: int
  color :: u8
  real_screen_buf :: "u16 list"
  real_screen_initialized :: bool
  g_gui_ready :: bool
  screen_fb :: framebuf

definition VGA_WIDTH :: int where "VGA_WIDTH = 80"
definition VGA_HEIGHT :: int where "VGA_HEIGHT = 25"
definition REAL_FB_COLS :: int where "REAL_FB_COLS = 128"
definition REAL_FB_ROWS :: int where "REAL_FB_ROWS = 48"

definition NEWLINE :: u8 where "NEWLINE = 10"
definition BACKSPACE :: u8 where "BACKSPACE = 8"
definition SPACE :: u8 where "SPACE = 32"

text \<open>\<open>char\<close> is signed: the conversion extends its sign into the attribute.\<close>

definition vga_entry :: "u8 \<Rightarrow> u8 \<Rightarrow> u16" where
  "vga_entry c attr = or (scast c) (push_bit 8 (ucast attr))"

definition palette :: "u32 list" where
  "palette = [0x000000, 0x0000AA, 0x00AA00, 0x00AAAA, 0xAA0000, 0xAA00AA, 0xAA5500, 0xAAAAAA,
     0x555555, 0x5555FF, 0x55FF55, 0x55FFFF, 0xFF5555, 0xFF55FF, 0xFFFF55, 0xFFFFFF]"

definition vga_color_to_rgb :: "u8 \<Rightarrow> u32" where
  "vga_color_to_rgb idx = palette ! unat (and idx 0xF)"

definition gui_is_active :: "'a console_scheme \<Rightarrow> bool" where
  "gui_is_active s = g_gui_ready s"

section \<open>Task accessors\<close>

definition vga_set_redirect :: "addr \<Rightarrow> int \<Rightarrow> int \<Rightarrow> 'a console_scheme \<Rightarrow> 'a console_scheme" where
  "vga_set_redirect buffer cols rows s = task_set_vga_redirect (current_task s) buffer cols rows s"

definition vga_redirect_consume_dirty :: "'a console_scheme \<Rightarrow> bool \<times> 'a console_scheme" where
  "vga_redirect_consume_dirty s = task_consume_vga_dirty (current_task s) s"

definition task_current_vga_cols :: "'a sched_scheme \<Rightarrow> int" where
  "task_current_vga_cols s =
     (if current_task s \<noteq> 0 then t_vga_redirect_cols (tasks s (current_task s)) else 0)"

definition task_current_vga_rows :: "'a sched_scheme \<Rightarrow> int" where
  "task_current_vga_rows s =
     (if current_task s \<noteq> 0 then t_vga_redirect_rows (tasks s (current_task s)) else 0)"

text \<open>The cursor of the redirected task, read and set through \<open>task_current_vga_row_ptr\<close> and
  \<open>task_current_vga_col_ptr\<close>; they are only used when the task is redirected.\<close>

definition redirect_cursor :: "'a sched_scheme \<Rightarrow> int \<times> int" where
  "redirect_cursor s =
     (t_vga_cursor_row (tasks s (current_task s)), t_vga_cursor_col (tasks s (current_task s)))"

definition set_redirect_cursor :: "int \<Rightarrow> int \<Rightarrow> 'a sched_scheme \<Rightarrow> 'a sched_scheme" where
  "set_redirect_cursor row col s =
     upd_task (current_task s) (\<lambda>k. k\<lparr>t_vga_cursor_row := row, t_vga_cursor_col := col\<rparr>) s"

section \<open>Cells\<close>

definition poke :: "int \<Rightarrow> 'c \<Rightarrow> 'c list \<Rightarrow> 'c list option" where
  "poke i v buf = (if 0 \<le> i \<and> i < int (length buf) then Some (buf[nat i := v]) else None)"

text \<open>Moving all rows up by one and blanking the last, as the three scroll loops do.\<close>

definition scroll_up :: "int \<Rightarrow> int \<Rightarrow> u16 \<Rightarrow> u16 list \<Rightarrow> u16 list option" where
  "scroll_up cols rows blank buf =
     (let w = nat cols; n = nat (cols * rows) in
      if 1 \<le> rows \<and> 0 \<le> cols \<and> n \<le> length buf
      then Some (drop w (take n buf) @ replicate w blank @ drop n buf) else None)"

definition fill_cells :: "int \<Rightarrow> int \<Rightarrow> u16 \<Rightarrow> u16 list \<Rightarrow> u16 list option" where
  "fill_cells cols rows blank buf =
     (let n = nat cols * nat rows in if n \<le> length buf then Some (replicate n blank @ drop n buf) else None)"

text \<open>
  The cell to write, if any, and where the cursor goes: the case distinction the three versions of
  putc share. The backspace of a cursor in column 0 goes to the end of the row above.
\<close>

definition back_up :: "int \<Rightarrow> int \<Rightarrow> int \<Rightarrow> int \<times> int" where
  "back_up cols row col =
     (if 0 < col then (row, col - 1) else if 0 < row then (row - 1, cols - 1) else (row, col))"

definition advance :: "int \<Rightarrow> int \<Rightarrow> int \<Rightarrow> int \<times> int" where
  "advance cols row col = (if cols \<le> col + 1 then (row + 1, 0) else (row, col + 1))"

text \<open>The part of \<open>redirect_putc\<close> and \<open>vga_putc\<close> before the scroll: cells and cursor.\<close>

definition cell_step :: "int \<Rightarrow> u8 \<Rightarrow> u8 \<Rightarrow> u16 list \<Rightarrow> int \<Rightarrow> int \<Rightarrow> (u16 list \<times> int \<times> int) option" where
  "cell_step cols attr c buf row col =
     (if c = NEWLINE then Some (buf, row + 1, 0)
      else if c = BACKSPACE then
        (let (row, col) = back_up cols row col
         in map_option (\<lambda>buf. (buf, row, col)) (poke (row * cols + col) (vga_entry SPACE attr) buf))
      else map_option (\<lambda>buf. (buf, advance cols row col)) (poke (row * cols + col) (vga_entry c attr) buf))"

section \<open>The redirected console\<close>

definition redirect_scroll :: "u8 \<Rightarrow> int \<Rightarrow> int \<Rightarrow> u16 list \<Rightarrow> u16 list option" where
  "redirect_scroll attr cols rows buf = scroll_up cols rows (vga_entry SPACE attr) buf"

definition set_cells :: "addr \<Rightarrow> u16 list \<Rightarrow> 'a console_scheme \<Rightarrow> 'a console_scheme" where
  "set_cells a buf s = s\<lparr>cells := (cells s)(a := buf)\<rparr>"

definition redirect_putc :: "u8 \<Rightarrow> 'a console_scheme \<Rightarrow> 'a console_scheme option" where
  "redirect_putc c s = do {
     let a = task_current_vga_buf s;
     let buf = cells s a;
     let cols = task_current_vga_cols s;
     let rows = task_current_vga_rows s;
     let (row, col) = redirect_cursor s;
     (buf, row, col) \<leftarrow> cell_step cols (color s) c buf row col;
     (buf, row) \<leftarrow>
       (if rows \<le> row then map_option (\<lambda>b. (b, rows - 1)) (redirect_scroll (color s) cols rows buf)
        else Some (buf, row));
     Some (task_current_vga_mark_dirty (set_redirect_cursor row col (set_cells a buf s))) }"

section \<open>The console in graphics mode\<close>

definition real_render_char :: "int \<Rightarrow> int \<Rightarrow> 'a console_scheme \<Rightarrow> 'a console_scheme" where
  "real_render_char row col s =
     (let cell = real_screen_buf s ! nat (row * REAL_FB_COLS + col);
          ch = ucast (and cell 0xFF); ch = (if ch = 0 then SPACE else ch)
      in s\<lparr>screen_fb := fb_draw_char (of_int (col * 8)) (of_int (row * 16)) ch
            (RGB 220 220 220) (RGB 0 0 0) True (screen_fb s)\<rparr>)"

definition real_render_all :: "'a console_scheme \<Rightarrow> 'a console_scheme" where
  "real_render_all s =
     fold (\<lambda>r. fold (real_render_char r) [0..REAL_FB_COLS - 1]) [0..REAL_FB_ROWS - 1]
       (s\<lparr>screen_fb := fb_fill_rect 0 0 (of_int (REAL_FB_COLS * 8)) (of_int (REAL_FB_ROWS * 16))
            (RGB 0 0 0) (screen_fb s)\<rparr>)"

definition blank_real_screen :: "'a console_scheme \<Rightarrow> 'a console_scheme" where
  "blank_real_screen s = real_render_all
     (s\<lparr>real_screen_buf := replicate (nat (REAL_FB_ROWS * REAL_FB_COLS)) (vga_entry SPACE (color s)),
        real_screen_initialized := True\<rparr>)"

definition real_screen_ensure_init :: "'a console_scheme \<Rightarrow> 'a console_scheme" where
  "real_screen_ensure_init s = (if real_screen_initialized s then s else blank_real_screen s)"

definition real_poke :: "int \<Rightarrow> int \<Rightarrow> u16 \<Rightarrow> 'a console_scheme \<Rightarrow> 'a console_scheme option" where
  "real_poke row col v s =
     map_option (\<lambda>buf. real_render_char row col (s\<lparr>real_screen_buf := buf\<rparr>))
       (poke (row * REAL_FB_COLS + col) v (real_screen_buf s))"

definition real_scroll :: "'a console_scheme \<Rightarrow> 'a console_scheme option" where
  "real_scroll s =
     (if REAL_FB_ROWS \<le> cursor_row s
      then map_option (\<lambda>buf. real_render_all (s\<lparr>real_screen_buf := buf, cursor_row := REAL_FB_ROWS - 1\<rparr>))
        (scroll_up REAL_FB_COLS REAL_FB_ROWS (vga_entry SPACE (color s)) (real_screen_buf s))
      else Some s)"

definition real_putc_framebuffer :: "u8 \<Rightarrow> 'a console_scheme \<Rightarrow> 'a console_scheme option" where
  "real_putc_framebuffer c s = do {
     let s = real_screen_ensure_init s;
     (s, row, col) \<leftarrow>
       (if c = NEWLINE then Some (s, cursor_row s + 1, 0)
        else if c = BACKSPACE then do {
          let (row, col) = back_up REAL_FB_COLS (cursor_row s) (cursor_col s);
          s \<leftarrow> real_poke row col (vga_entry SPACE (color s)) s;
          Some (s, row, col) }
        else do {
          s \<leftarrow> real_poke (cursor_row s) (cursor_col s) (vga_entry c (color s)) s;
          Some (s, advance REAL_FB_COLS (cursor_row s) (cursor_col s)) });
     real_scroll (s\<lparr>cursor_row := row, cursor_col := col\<rparr>) }"

section \<open>The console\<close>

definition vga_clear :: "'a console_scheme \<Rightarrow> 'a console_scheme option" where
  "vga_clear s =
     (let a = task_current_vga_buf s; blank = vga_entry SPACE (color s) in
      if a \<noteq> 0 then
        map_option (\<lambda>buf. task_current_vga_mark_dirty (set_redirect_cursor 0 0 (set_cells a buf s)))
          (fill_cells (task_current_vga_cols s) (task_current_vga_rows s) blank (cells s a))
      else if gui_is_active s then Some ((blank_real_screen s)\<lparr>cursor_row := 0, cursor_col := 0\<rparr>)
      else map_option (\<lambda>buf. s\<lparr>vga_memory := buf, cursor_row := 0, cursor_col := 0\<rparr>)
             (fill_cells VGA_WIDTH VGA_HEIGHT blank (vga_memory s)))"

definition vga_scroll :: "'a console_scheme \<Rightarrow> 'a console_scheme option" where
  "vga_scroll s =
     map_option (\<lambda>buf. s\<lparr>vga_memory := buf, cursor_row := VGA_HEIGHT - 1\<rparr>)
       (scroll_up VGA_WIDTH VGA_HEIGHT (vga_entry SPACE (color s)) (vga_memory s))"

definition text_putc :: "u8 \<Rightarrow> 'a console_scheme \<Rightarrow> 'a console_scheme option" where
  "text_putc c s = do {
     (buf, row, col) \<leftarrow> cell_step VGA_WIDTH (color s) c (vga_memory s) (cursor_row s) (cursor_col s);
     let s = s\<lparr>vga_memory := buf, cursor_row := row, cursor_col := col\<rparr>;
     (if VGA_HEIGHT \<le> row then vga_scroll s else Some s) }"

definition vga_putc :: "u8 \<Rightarrow> 'a console_scheme \<Rightarrow> 'a console_scheme option" where
  "vga_putc c s =
     (if task_current_vga_buf s \<noteq> 0 then redirect_putc c s
      else if gui_is_active s then real_putc_framebuffer c s
      else text_putc c s)"

primrec vga_write :: "u8 list \<Rightarrow> 'a console_scheme \<Rightarrow> 'a console_scheme option" where
  "vga_write [] s = Some s"
| "vga_write (c # cs) s = Option.bind (vga_putc c s) (vga_write cs)"

definition vga_put_at :: "int \<Rightarrow> int \<Rightarrow> u8 \<Rightarrow> u8 \<Rightarrow> 'a console_scheme \<Rightarrow> 'a console_scheme option" where
  "vga_put_at row col c attr s =
     (if row < 0 \<or> VGA_HEIGHT \<le> row \<or> col < 0 \<or> VGA_WIDTH \<le> col then Some s
      else if gui_is_active s then
        Some (s\<lparr>screen_fb := fb_draw_char (of_int (col * 8)) (of_int (row * 16)) c
          (vga_color_to_rgb (and attr 0x0F)) (vga_color_to_rgb (and (drop_bit 4 attr) 0x0F)) True (screen_fb s)\<rparr>)
      else map_option (\<lambda>buf. s\<lparr>vga_memory := buf\<rparr>)
        (poke (row * VGA_WIDTH + col) (vga_entry c attr) (vga_memory s)))"

definition vga_set_cursor_pos :: "int \<Rightarrow> int \<Rightarrow> 'a console_scheme \<Rightarrow> 'a console_scheme" where
  "vga_set_cursor_pos row col s =
     (if task_current_vga_buf s \<noteq> 0 then set_redirect_cursor row col s
      else s\<lparr>cursor_row := row, cursor_col := col\<rparr>)"

section \<open>The console writes inside its arrays\<close>

text \<open>A cursor inside a grid that fits its array.\<close>

definition grid_ok :: "int \<Rightarrow> int \<Rightarrow> u16 list \<Rightarrow> int \<Rightarrow> int \<Rightarrow> bool" where
  "grid_ok cols rows buf row col \<longleftrightarrow> 0 \<le> row \<and> row < rows \<and> 0 \<le> col \<and> col < cols \<and>
     cols * rows \<le> int (length buf)"

definition console_ok :: "'a console_scheme \<Rightarrow> bool" where
  "console_ok s \<longleftrightarrow>
     length (vga_memory s) = 2000 \<and> length (real_screen_buf s) = 6144 \<and>
     (if g_gui_ready s then grid_ok REAL_FB_COLS REAL_FB_ROWS (real_screen_buf s) (cursor_row s) (cursor_col s)
      else grid_ok VGA_WIDTH VGA_HEIGHT (vga_memory s) (cursor_row s) (cursor_col s)) \<and>
     (task_current_vga_buf s \<noteq> 0 \<longrightarrow>
        grid_ok (task_current_vga_cols s) (task_current_vga_rows s) (cells s (task_current_vga_buf s))
          (fst (redirect_cursor s)) (snd (redirect_cursor s)))"

lemma grid_index:
  assumes "0 \<le> row" "row < rows" "0 \<le> col" "col < (cols :: int)"
  shows "0 \<le> row * cols + col" "row * cols + col < cols * rows"
proof -
  show "0 \<le> row * cols + col" using assms by simp
  have "(row + 1) * cols \<le> rows * cols" using assms by (intro mult_right_mono) auto
  then show "row * cols + col < cols * rows" using assms by (simp add: algebra_simps)
qed

lemma grid_poke:
  assumes "grid_ok cols rows buf row col"
  obtains buf' where "poke (row * cols + col) v buf = Some buf'" "length buf' = length buf"
  using grid_index [of row rows col cols] assms by (auto simp: grid_ok_def poke_def)

lemma back_up_ok:
  assumes "grid_ok cols rows buf row col" "back_up cols row col = (r, c)"
  shows "grid_ok cols rows buf r c"
  using assms by (auto simp: grid_ok_def back_up_def split: if_splits)

lemma scroll_up_ok:
  assumes "cols * rows \<le> int (length buf)" "1 \<le> rows" "1 \<le> cols"
  obtains buf' where "scroll_up cols rows blank buf = Some buf'" "length buf' = length buf"
proof -
  have n: "nat (cols * rows) \<le> length buf" using assms(1) by simp
  have "nat cols \<le> nat (cols * rows)"
    using mult_left_mono [of 1 rows cols] assms(2,3) by (intro nat_mono) simp
  then have "length (drop (nat cols) (take (nat (cols * rows)) buf) @ replicate (nat cols) blank
      @ drop (nat (cols * rows)) buf) = length buf"
    using n by simp
  with n assms that show ?thesis by (simp add: scroll_up_def Let_def)
qed

lemma advance_ok:
  assumes "grid_ok cols rows buf row col" "advance cols row col = (r, c)"
  shows "0 \<le> r \<and> r \<le> rows \<and> 0 \<le> c \<and> c < cols"
  using assms by (auto simp: grid_ok_def advance_def split: if_splits)

lemma poke_simps: "poke i v buf = Some buf' \<Longrightarrow> length buf' = length buf"
  by (auto simp: poke_def split: if_splits)

text \<open>The part of putc before the scroll: it stays inside the array, and leaves the cursor at most
  one row below the grid.\<close>

lemma cell_step_ok:
  assumes "grid_ok cols rows buf row col"
  shows "\<exists>buf' r c'. cell_step cols attr c buf row col = Some (buf', r, c') \<and>
    length buf' = length buf \<and> 0 \<le> r \<and> r \<le> rows \<and> 0 \<le> c' \<and> c' < cols"
proof -
  obtain r c' where bk: "back_up cols row col = (r, c')" by (cases "back_up cols row col")
  obtain r2 c2 where ad: "advance cols row col = (r2, c2)" by (cases "advance cols row col")
  obtain b1 where b1: "poke (r * cols + c') (vga_entry SPACE attr) buf = Some b1" "length b1 = length buf"
    using grid_poke [OF back_up_ok [OF assms bk]] .
  obtain b2 where b2: "poke (row * cols + col) (vga_entry c attr) buf = Some b2" "length b2 = length buf"
    using grid_poke [OF assms] .
  show ?thesis
    using assms back_up_ok [OF assms bk] advance_ok [OF assms ad] b1 b2
    by (auto simp: cell_step_def bk ad grid_ok_def)
qed

lemma redirect_simps [simp]:
  "task_current_vga_buf (set_cells a b s) = task_current_vga_buf s"
  "task_current_vga_buf (set_redirect_cursor r c s) = task_current_vga_buf s"
  "task_current_vga_buf (task_current_vga_mark_dirty s) = task_current_vga_buf s"
  "task_current_vga_cols (set_cells a b s) = task_current_vga_cols s"
  "task_current_vga_cols (set_redirect_cursor r c s) = task_current_vga_cols s"
  "task_current_vga_cols (task_current_vga_mark_dirty s) = task_current_vga_cols s"
  "task_current_vga_rows (set_cells a b s) = task_current_vga_rows s"
  "task_current_vga_rows (set_redirect_cursor r c s) = task_current_vga_rows s"
  "task_current_vga_rows (task_current_vga_mark_dirty s) = task_current_vga_rows s"
  "redirect_cursor (set_cells a b s) = redirect_cursor s"
  "redirect_cursor (set_redirect_cursor r c s) = (r, c)"
  "redirect_cursor (task_current_vga_mark_dirty s) = redirect_cursor s"
  by (simp_all add: task_current_vga_buf_def task_current_vga_cols_def task_current_vga_rows_def
      redirect_cursor_def set_redirect_cursor_def set_cells_def task_current_vga_mark_dirty_def upd_task_def)

lemma console_fields [simp]:
  "cells (set_redirect_cursor r c s) = cells s" "cells (task_current_vga_mark_dirty s) = cells s"
  "cells (set_cells a b s) = (cells s)(a := b)"
  "vga_memory (set_redirect_cursor r c s) = vga_memory s" "vga_memory (task_current_vga_mark_dirty s) = vga_memory s"
  "vga_memory (set_cells a b s) = vga_memory s"
  "real_screen_buf (set_redirect_cursor r c s) = real_screen_buf s"
  "real_screen_buf (task_current_vga_mark_dirty s) = real_screen_buf s"
  "real_screen_buf (set_cells a b s) = real_screen_buf s"
  "cursor_row (set_redirect_cursor r c s) = cursor_row s" "cursor_row (task_current_vga_mark_dirty s) = cursor_row s"
  "cursor_row (set_cells a b s) = cursor_row s"
  "cursor_col (set_redirect_cursor r c s) = cursor_col s" "cursor_col (task_current_vga_mark_dirty s) = cursor_col s"
  "cursor_col (set_cells a b s) = cursor_col s"
  "g_gui_ready (set_redirect_cursor r c s) = g_gui_ready s" "g_gui_ready (task_current_vga_mark_dirty s) = g_gui_ready s"
  "g_gui_ready (set_cells a b s) = g_gui_ready s"
  by (simp_all add: set_redirect_cursor_def set_cells_def task_current_vga_mark_dirty_def upd_task_def)

lemma redirect_putc_ok:
  assumes "console_ok s" "task_current_vga_buf s \<noteq> 0"
  shows "\<exists>s'. redirect_putc c s = Some s' \<and> console_ok s' \<and> task_current_vga_buf s' = task_current_vga_buf s \<and>
    (\<forall>a. a \<noteq> task_current_vga_buf s \<longrightarrow> cells s' a = cells s a)"
proof -
  let ?a = "task_current_vga_buf s" and ?cols = "task_current_vga_cols s" and ?rows = "task_current_vga_rows s"
  obtain row col where rc: "redirect_cursor s = (row, col)" by (cases "redirect_cursor s")
  have grid: "grid_ok ?cols ?rows (cells s ?a) row col"
    using assms rc by (simp add: console_ok_def)
  obtain buf r c' where step: "cell_step ?cols (color s) c (cells s ?a) row col = Some (buf, r, c')"
    "length buf = length (cells s ?a)" "0 \<le> r" "r \<le> ?rows" "0 \<le> c'" "c' < ?cols"
    using cell_step_ok [OF grid, of "color s" c] by blast
  obtain buf2 where scr: "scroll_up ?cols ?rows (vga_entry SPACE (color s)) buf = Some buf2" "length buf2 = length buf"
    using scroll_up_ok [of ?cols ?rows buf "vga_entry SPACE (color s)"] grid step(2) by (auto simp: grid_ok_def)
  let ?buf = "if ?rows \<le> r then buf2 else buf" and ?r = "if ?rows \<le> r then ?rows - 1 else r"
  let ?s = "task_current_vga_mark_dirty (set_redirect_cursor ?r c' (set_cells ?a ?buf s))"
  have "redirect_putc c s = Some ?s"
    by (simp add: redirect_putc_def Let_def rc step(1) redirect_scroll_def scr(1))
  moreover have "grid_ok ?cols ?rows ?buf ?r c'"
    using grid step scr(2) by (auto simp: grid_ok_def)
  then have "console_ok ?s"
    using assms(1) by (simp add: console_ok_def)
  ultimately show ?thesis by auto
qed

lemma text_putc_ok:
  assumes "console_ok s" "task_current_vga_buf s = 0" "\<not> g_gui_ready s"
  shows "\<exists>s'. text_putc c s = Some s' \<and> console_ok s' \<and> task_current_vga_buf s' = 0 \<and> cells s' = cells s"
proof -
  have grid: "grid_ok VGA_WIDTH VGA_HEIGHT (vga_memory s) (cursor_row s) (cursor_col s)"
    using assms by (simp add: console_ok_def)
  obtain buf r c' where step:
    "cell_step VGA_WIDTH (color s) c (vga_memory s) (cursor_row s) (cursor_col s) = Some (buf, r, c')"
    "length buf = length (vga_memory s)" "0 \<le> r" "r \<le> VGA_HEIGHT" "0 \<le> c'" "c' < VGA_WIDTH"
    using cell_step_ok [OF grid, of "color s" c] by blast
  obtain buf2 where scr: "scroll_up VGA_WIDTH VGA_HEIGHT (vga_entry SPACE (color s)) buf = Some buf2"
    "length buf2 = length buf"
    using scroll_up_ok [of VGA_WIDTH VGA_HEIGHT buf "vga_entry SPACE (color s)"] grid step(2)
    by (auto simp: grid_ok_def)
  have "\<exists>s'. text_putc c s = Some s' \<and> current_task s' = current_task s \<and> tasks s' = tasks s \<and> cells s' = cells s
      \<and> g_gui_ready s' = g_gui_ready s \<and> length (vga_memory s') = length (vga_memory s)
      \<and> real_screen_buf s' = real_screen_buf s
      \<and> 0 \<le> cursor_row s' \<and> cursor_row s' < VGA_HEIGHT \<and> cursor_col s' = c'"
    using step scr
    by (auto simp: text_putc_def vga_scroll_def Let_def VGA_HEIGHT_def)
  then show ?thesis
    using assms grid step(5,6) by (force simp: console_ok_def grid_ok_def task_current_vga_buf_def)
qed

text \<open>Rendering changes nothing but pixels.\<close>

definition renders :: "'a console_scheme \<Rightarrow> 'a console_scheme \<Rightarrow> bool" where
  "renders s s' \<longleftrightarrow> (\<exists>b. s' = s\<lparr>screen_fb := b\<rparr> \<and> draws (screen_fb s) b)"

lemma renders_char: "renders s (real_render_char row col s)"
  unfolding renders_def real_render_char_def Let_def by (auto intro: draws_char)

lemma renders_trans: "renders s t \<Longrightarrow> renders t u \<Longrightarrow> renders s u"
  unfolding renders_def
proof (elim exE conjE)
  fix b ba
  assume "t = s\<lparr>screen_fb := b\<rparr>" "draws (screen_fb s) b" "u = t\<lparr>screen_fb := ba\<rparr>" "draws (screen_fb t) ba"
  then show "\<exists>b. u = s\<lparr>screen_fb := b\<rparr> \<and> draws (screen_fb s) b"
    by (intro exI [of _ ba]) (auto intro: draws_trans)
qed

lemma renders_fold: "(\<And>x t. renders t (f x t)) \<Longrightarrow> renders s t \<Longrightarrow> renders s (fold f xs t)"
proof (induction xs arbitrary: t)
  case (Cons x xs)
  from Cons.prems(2,1) have "renders s (f x t)" by (rule renders_trans)
  with Cons show ?case by simp
qed simp

lemma renders_all: "renders s (real_render_all s)"
proof -
  have refl: "renders t t" for t :: "'a console_scheme"
    unfolding renders_def by (intro exI [of _ "screen_fb t"]) simp
  show ?thesis
    unfolding real_render_all_def
    by (intro renders_fold renders_char refl) (auto simp: renders_def intro: draws_fill_rect)
qed

lemma renders_fields:
  assumes "renders s s'"
  shows "vga_memory s' = vga_memory s" "real_screen_buf s' = real_screen_buf s" "g_gui_ready s' = g_gui_ready s"
    "cursor_row s' = cursor_row s" "cursor_col s' = cursor_col s" "cells s' = cells s" "tasks s' = tasks s"
    "current_task s' = current_task s" "color s' = color s"
    "real_screen_initialized s' = real_screen_initialized s"
  using assms by (auto simp: renders_def)

lemmas render_fields [simp] = renders_fields [OF renders_char] renders_fields [OF renders_all]

lemma real_scroll_ok:
  assumes "length (real_screen_buf s) = 6144" "0 \<le> cursor_row s" "cursor_row s \<le> REAL_FB_ROWS"
  shows "\<exists>s'. real_scroll s = Some s' \<and> current_task s' = current_task s \<and> tasks s' = tasks s \<and>
      cells s' = cells s \<and> g_gui_ready s' = g_gui_ready s \<and> vga_memory s' = vga_memory s \<and>
      length (real_screen_buf s') = 6144 \<and>
      0 \<le> cursor_row s' \<and> cursor_row s' < REAL_FB_ROWS \<and> cursor_col s' = cursor_col s"
proof -
  obtain b where "scroll_up REAL_FB_COLS REAL_FB_ROWS (vga_entry SPACE (color s)) (real_screen_buf s) = Some b"
    "length b = 6144"
    using scroll_up_ok [of REAL_FB_COLS REAL_FB_ROWS "real_screen_buf s" "vga_entry SPACE (color s)"] assms(1)
    by (auto simp: REAL_FB_COLS_def REAL_FB_ROWS_def)
  then show ?thesis
    using assms by (auto simp: real_scroll_def REAL_FB_ROWS_def)
qed

lemma real_putc_ok:
  assumes "console_ok s" "task_current_vga_buf s = 0" "g_gui_ready s"
  shows "\<exists>s'. real_putc_framebuffer c s = Some s' \<and> console_ok s' \<and> task_current_vga_buf s' = 0 \<and> cells s' = cells s"
proof -
  define t where "t = real_screen_ensure_init s"
  have t: "length (real_screen_buf t) = 6144" "vga_memory t = vga_memory s" "g_gui_ready t" "cells t = cells s"
    "tasks t = tasks s" "current_task t = current_task s" "cursor_row t = cursor_row s" "cursor_col t = cursor_col s"
    using assms by (auto simp: t_def real_screen_ensure_init_def blank_real_screen_def console_ok_def
        REAL_FB_ROWS_def REAL_FB_COLS_def)
  have grid: "grid_ok REAL_FB_COLS REAL_FB_ROWS (real_screen_buf t) (cursor_row t) (cursor_col t)"
    using assms t by (simp add: console_ok_def grid_ok_def)
  obtain r c' where bk: "back_up REAL_FB_COLS (cursor_row t) (cursor_col t) = (r, c')"
    by (cases "back_up REAL_FB_COLS (cursor_row t) (cursor_col t)")
  obtain r2 c2 where ad: "advance REAL_FB_COLS (cursor_row t) (cursor_col t) = (r2, c2)"
    by (cases "advance REAL_FB_COLS (cursor_row t) (cursor_col t)")
  note grid' = back_up_ok [OF grid bk] and ad' = advance_ok [OF grid ad]
  obtain b1 where b1: "poke (r * REAL_FB_COLS + c') (vga_entry SPACE (color t)) (real_screen_buf t) = Some b1"
    "length b1 = 6144" using grid_poke [OF grid'] t(1) by metis
  obtain b2 where b2: "poke (cursor_row t * REAL_FB_COLS + cursor_col t) (vga_entry c (color t)) (real_screen_buf t) = Some b2"
    "length b2 = 6144" using grid_poke [OF grid] t(1) by metis
  have fin: "\<exists>s'. real_scroll (u\<lparr>cursor_row := r, cursor_col := c'\<rparr>) = Some s' \<and> current_task s' = current_task s \<and>
      tasks s' = tasks s \<and> cells s' = cells s \<and> g_gui_ready s' \<and> vga_memory s' = vga_memory s \<and>
      length (real_screen_buf s') = 6144 \<and>
      0 \<le> cursor_row s' \<and> cursor_row s' < REAL_FB_ROWS \<and> 0 \<le> cursor_col s' \<and> cursor_col s' < REAL_FB_COLS"
    if "length (real_screen_buf u) = 6144" "vga_memory u = vga_memory s" "g_gui_ready u" "cells u = cells s"
      "tasks u = tasks s" "current_task u = current_task s" "0 \<le> r" "r \<le> REAL_FB_ROWS" "0 \<le> c'" "c' < REAL_FB_COLS"
    for u r c'
    using real_scroll_ok [of "u\<lparr>cursor_row := r, cursor_col := c'\<rparr>"] that by auto
  have "\<exists>s'. real_putc_framebuffer c s = Some s' \<and> current_task s' = current_task s \<and> tasks s' = tasks s \<and>
      cells s' = cells s \<and> g_gui_ready s' \<and> vga_memory s' = vga_memory s \<and> length (real_screen_buf s') = 6144 \<and>
      0 \<le> cursor_row s' \<and> cursor_row s' < REAL_FB_ROWS \<and> 0 \<le> cursor_col s' \<and> cursor_col s' < REAL_FB_COLS"
  proof (cases "c = NEWLINE \<or> c = BACKSPACE")
    case True
    show ?thesis
    proof (cases "c = NEWLINE")
      case True
      then show ?thesis
        using fin [of t "cursor_row t + 1" 0] t grid
        by (simp add: real_putc_framebuffer_def Let_def grid_ok_def flip: t_def)
    next
      case False
      with True have "c = BACKSPACE" by simp
      with False show ?thesis
        using fin [of "real_render_char r c' (t\<lparr>real_screen_buf := b1\<rparr>)" r c'] t grid' b1
        by (simp add: real_putc_framebuffer_def Let_def grid_ok_def real_poke_def bk [unfolded t(7,8)] flip: t_def)
    qed
  next
    case False
    then show ?thesis
      using fin [of "real_render_char (cursor_row t) (cursor_col t) (t\<lparr>real_screen_buf := b2\<rparr>)" r2 c2] t ad' b2 ad
      by (simp add: real_putc_framebuffer_def Let_def real_poke_def flip: t_def)
  qed
  then show ?thesis
    using assms by (force simp: console_ok_def grid_ok_def task_current_vga_buf_def REAL_FB_COLS_def REAL_FB_ROWS_def)
qed

lemma vga_putc_ok:
  assumes "console_ok s"
  shows "\<exists>s'. vga_putc c s = Some s' \<and> console_ok s' \<and> task_current_vga_buf s' = task_current_vga_buf s \<and>
    (\<forall>a. a \<noteq> task_current_vga_buf s \<longrightarrow> cells s' a = cells s a)"
proof (cases "task_current_vga_buf s = 0")
  case True
  then show ?thesis
    using text_putc_ok [OF assms True, of c] real_putc_ok [OF assms True, of c]
    by (cases "g_gui_ready s") (auto simp: vga_putc_def gui_is_active_def)
next
  case False
  then show ?thesis
    using redirect_putc_ok [OF assms False, of c] by (simp add: vga_putc_def)
qed

lemma vga_write_ok:
  "console_ok s \<Longrightarrow> \<exists>s'. vga_write cs s = Some s' \<and> console_ok s'"
proof (induction cs arbitrary: s)
  case (Cons c cs)
  then show ?case using vga_putc_ok [OF Cons.prems, of c] by auto
qed simp

text \<open>C22: the console never writes outside its screen. In every mode, redirected, text or graphics,
  with the cursor inside the grid, writing any characters succeeds, newlines and backspaces at the
  edges and scrolling included, leaves the cursor inside the grid, and changes no other task's
  buffer.\<close>

theorem vga_write_safe:
  assumes "console_ok s"
  shows "\<exists>s'. vga_write cs s = Some s' \<and> console_ok s' \<and>
    (\<forall>a. a \<noteq> task_current_vga_buf s \<longrightarrow> cells s' a = cells s a)"
  using assms
proof (induction cs arbitrary: s)
  case (Cons c cs)
  obtain s1 where s1: "vga_putc c s = Some s1" "console_ok s1" "task_current_vga_buf s1 = task_current_vga_buf s"
    "\<forall>a. a \<noteq> task_current_vga_buf s \<longrightarrow> cells s1 a = cells s a"
    using vga_putc_ok [OF Cons.prems, of c] by blast
  with Cons.IH [OF s1(2)] show ?case by auto
qed auto

text \<open>A terminal of 60 by 20 cells, as the desktop gives its tasks.\<close>

definition terminal :: console where
  "terminal = kbd.extend (timed.extend (sched.extend (boot_sched\<lparr>current_task := 0x100000,
       tasks := (\<lambda>_. blank_task\<lparr>t_vga_redirect_buf := 0x200000, t_vga_redirect_cols := 60, t_vga_redirect_rows := 20\<rparr>)\<rparr>)
       (timed.fields 0)) (kbd.fields (replicate 256 (CHR 0x00)) 0 0 False))
     \<lparr>cells = (\<lambda>_. replicate 1200 0), vga_memory = replicate 2000 0, cursor_row = 0, cursor_col = 0,
      color = 0x0F, real_screen_buf = replicate 6144 0, real_screen_initialized = True, g_gui_ready = True,
      screen_fb = \<lparr>fb_pixels = (\<lambda>_. 0), fb_width = 1024, fb_height = 768, fb_pitch_px = 1024\<rparr>\<rparr>"

lemma terminal_ok: "console_ok terminal" "task_current_vga_buf terminal = 0x200000"
  by (simp_all add: console_ok_def terminal_def sched.defs timed.defs kbd.defs boot_sched_def grid_ok_def REAL_FB_COLS_def REAL_FB_ROWS_def
      task_current_vga_buf_def task_current_vga_cols_def task_current_vga_rows_def redirect_cursor_def blank_task_def)

lemma vga_write_safe_witness:
  "\<exists>s'. vga_write [8, 72, 105, 10] terminal = Some s' \<and> console_ok s' \<and>
    (\<forall>a. a \<noteq> 0x200000 \<longrightarrow> cells s' a = cells terminal a)"
  using vga_write_safe [OF terminal_ok(1), of "[8, 72, 105, 10]"] by (simp add: terminal_ok(2))

text \<open>The snake game ends with \<open>vga_set_cursor_pos(24, 0)\<close>. In a terminal of the desktop that is
  below the grid, and the next character is written behind the terminal's buffer.\<close>

lemma cursor_below_terminal: "vga_putc 65 (vga_set_cursor_pos 24 0 terminal) = None"
  by (simp add: vga_putc_def vga_set_cursor_pos_def terminal_ok(2) redirect_putc_def Let_def)
    (simp add: terminal_def sched.defs timed.defs kbd.defs boot_sched_def task_current_vga_cols_def task_current_vga_rows_def
      task_current_vga_buf_def cell_step_def poke_def NEWLINE_def BACKSPACE_def)

end
