(* ===== verification/Cpu_Tables.thy ===== *)
theory Cpu_Tables
  imports Vga Ata
begin

text \<open>
  \<open>kernel/gdt.c\<close> and \<open>kernel/idt.c\<close>: the descriptor tables, the interrupt controllers, and the
  dispatch of exceptions and interrupts. The addresses of the tables and of the entry stubs in
  \<open>isr_stubs.s\<close> are parameters; what the \<open>lgdt\<close>, \<open>ltr\<close> and \<open>lidt\<close> instructions load is kept in the
  state. The abstract side is how the processor reads a descriptor.
\<close>

section \<open>Segments\<close>

record gdt_entry =
  limit_low :: u16
  base_low :: u16
  base_middle :: u8
  access :: u8
  granularity :: u8
  base_high :: u8

text \<open>The fields of the task state segment that are not always 0.\<close>

record tss_entry =
  tss_esp0 :: u32
  tss_ss0 :: u32
  tss_iomap_base :: u16

record idt_entry =
  gate_base_low :: u16
  gate_sel :: u16
  gate_always0 :: u8
  gate_flags :: u8
  gate_base_high :: u16

record 'h cpu_tables =
  gdt :: "gdt_entry list"
  gdtp :: "u16 \<times> addr"
  tss :: tss_entry
  task_register :: u16
  idt :: "idt_entry list"
  idtp :: "u16 \<times> addr"
  irq_routines :: "'h option list"

definition GDT_ENTRIES :: nat where "GDT_ENTRIES = 6"
definition IDT_ENTRIES :: nat where "IDT_ENTRIES = 256"
definition TSS_SIZE :: u32 where "TSS_SIZE = 104"

definition gdt_set_entry :: "nat \<Rightarrow> u32 \<Rightarrow> u32 \<Rightarrow> u8 \<Rightarrow> u8 \<Rightarrow> 'h cpu_tables \<Rightarrow> 'h cpu_tables" where
  "gdt_set_entry i base limit acc gran s = s\<lparr>gdt := (gdt s)[i :=
     \<lparr>limit_low = ucast (limit AND 0xFFFF), base_low = ucast (base AND 0xFFFF),
      base_middle = ucast (drop_bit 16 base AND 0xFF), access = acc,
      granularity = ucast (drop_bit 16 limit AND 0x0F) OR (gran AND 0xF0),
      base_high = ucast (drop_bit 24 base AND 0xFF)\<rparr>]\<rparr>"

definition gdt_init :: "addr \<Rightarrow> addr \<Rightarrow> 'h cpu_tables \<Rightarrow> 'h cpu_tables" where
  "gdt_init gdt_addr tss_addr s =
     (let s = gdt_set_entry 0 0 0 0 0 s;
          s = gdt_set_entry 1 0 0xFFFFFFFF 0x9A 0xCF s;
          s = gdt_set_entry 2 0 0xFFFFFFFF 0x92 0xCF s;
          s = gdt_set_entry 3 0 0xFFFFFFFF 0xFA 0xCF s;
          s = gdt_set_entry 4 0 0xFFFFFFFF 0xF2 0xCF s;
          s = s\<lparr>tss := \<lparr>tss_esp0 = 0, tss_ss0 = 0x10, tss_iomap_base = ucast TSS_SIZE\<rparr>\<rparr>;
          s = gdt_set_entry 5 tss_addr (TSS_SIZE - 1) 0x89 0x40 s
      in s\<lparr>gdtp := (of_nat (8 * GDT_ENTRIES) - 1, gdt_addr), task_register := 0x28\<rparr>)"

definition tss_set_kernel_stack :: "u32 \<Rightarrow> 'h cpu_tables \<Rightarrow> 'h cpu_tables" where
  "tss_set_kernel_stack esp0 s = s\<lparr>tss := (tss s)\<lparr>tss_esp0 := esp0\<rparr>\<rparr>"

section \<open>Gates\<close>

definition idt_set_gate :: "nat \<Rightarrow> addr \<Rightarrow> u16 \<Rightarrow> u8 \<Rightarrow> 'h cpu_tables \<Rightarrow> 'h cpu_tables" where
  "idt_set_gate num base sel flags s = s\<lparr>idt := (idt s)[num :=
     \<lparr>gate_base_low = ucast (base AND 0xFFFF), gate_sel = sel, gate_always0 = 0, gate_flags = flags,
      gate_base_high = ucast (drop_bit 16 base AND 0xFFFF)\<rparr>]\<rparr>"

definition pic_remap :: "'d ports \<Rightarrow> 'd \<Rightarrow> 'd" where
  "pic_remap P d = fold (\<lambda>(port, val). p_outb P port val)
     [(0x20, 0x11), (0xA0, 0x11), (0x21, 0x20), (0xA1, 0x28), (0x21, 0x04), (0xA1, 0x02),
      (0x21, 0x01), (0xA1, 0x01), (0x21, 0x00), (0xA1, 0x00)] d"

definition pic_send_eoi :: "'d ports \<Rightarrow> u8 \<Rightarrow> 'd \<Rightarrow> 'd" where
  "pic_send_eoi P irq d = p_outb P 0x20 0x20 (if 8 \<le> irq then p_outb P 0xA0 0x20 d else d)"

definition irq_install_handler :: "nat \<Rightarrow> 'h \<Rightarrow> 'h cpu_tables \<Rightarrow> 'h cpu_tables" where
  "irq_install_handler irq handler s = s\<lparr>irq_routines := (irq_routines s)[irq := Some handler]\<rparr>"

text \<open>\<open>isr n\<close> and \<open>irq n\<close> are the addresses of the stubs.\<close>

definition idt_init ::
    "addr \<Rightarrow> (nat \<Rightarrow> addr) \<Rightarrow> (nat \<Rightarrow> addr) \<Rightarrow> 'd ports \<Rightarrow> 'h cpu_tables \<times> 'd \<Rightarrow> 'h cpu_tables \<times> 'd" where
  "idt_init idt_addr isr irq P = (\<lambda>(s, d).
     let s = fold (\<lambda>i. idt_set_gate i 0 0 0) [0..<IDT_ENTRIES] s;
         d = pic_remap P d;
         s = fold (\<lambda>i. idt_set_gate i (isr i) 0x08 0x8E) [0..<32] s;
         s = fold (\<lambda>i. idt_set_gate (32 + i) (irq i) 0x08 0x8E) [0..<16] s;
         s = idt_set_gate 128 (isr 128) 0x08 0xEE s
     in (s\<lparr>idtp := (of_nat (8 * IDT_ENTRIES) - 1, idt_addr)\<rparr>, d))"

section \<open>Dispatch\<close>

definition exception_messages :: "string list" where
  "exception_messages =
     [''Division By Zero'', ''Debug'', ''Non Maskable Interrupt'', ''Breakpoint'',
      ''Into Detected Overflow'', ''Out of Bounds'', ''Invalid Opcode'',
      ''No Coprocessor'', ''Double Fault'', ''Coprocessor Segment Overrun'',
      ''Bad TSS'', ''Segment Not Present'', ''Stack Fault'',
      ''General Protection Fault'', ''Page Fault'', ''Unknown Interrupt'',
      ''Coprocessor Fault'', ''Alignment Check'', ''Machine Check'',
      ''SIMD Floating-Point Exception''] @ replicate 12 ''Reserved''"

datatype isr_result = Resumed | Halted

text \<open>\<open>cr2\<close> is the faulting address. The loop of \<open>cli; hlt\<close> at the end is \<open>Halted\<close>.\<close>

definition report_exception :: "nat \<Rightarrow> 'a console_scheme \<Rightarrow> 'a console_scheme option" where
  "report_exception int_no s =
     Option.bind (vga_write (text_bytes (CHR 0x0A # ''*** CPU EXCEPTION: '')) s) (\<lambda>s.
     Option.bind (vga_write (text_bytes (exception_messages ! int_no)) s)
       (vga_write (text_bytes ('' ***'' @ [CHR 0x0A]))))"

definition isr_handler ::
    "nat \<Rightarrow> u32 \<Rightarrow> addr \<Rightarrow> 'a console_scheme \<Rightarrow> (isr_result \<times> 'a console_scheme) option" where
  "isr_handler int_no err_code cr2 s =
     (let (resolved, s) =
        (if int_no = 14 \<and> err_code AND 0x3 = 0x3 then paging_handle_cow_fault cr2 s else (False, s))
      in if resolved then Some (Resumed, s) else map_option (Pair Halted) (report_exception int_no s))"

text \<open>The routine \<open>irq_handler\<close> calls, after the end of the interrupt has been signalled.\<close>

definition irq_handler :: "'d ports \<Rightarrow> nat \<Rightarrow> 'h cpu_tables \<Rightarrow> 'd \<Rightarrow> 'h option \<times> 'd" where
  "irq_handler P int_no s d =
     (let irq = int_no - 32 in (irq_routines s ! irq, pic_send_eoi P (of_nat irq) d))"

section \<open>How the processor reads the tables\<close>

definition segment_base :: "gdt_entry \<Rightarrow> u32" where
  "segment_base e = push_bit 24 (ucast (base_high e)) OR push_bit 16 (ucast (base_middle e)) OR ucast (base_low e)"

definition segment_limit :: "gdt_entry \<Rightarrow> u32" where
  "segment_limit e = push_bit 16 (ucast (granularity e AND 0x0F)) OR ucast (limit_low e)"

definition gate_target :: "idt_entry \<Rightarrow> addr" where
  "gate_target e = push_bit 16 (ucast (gate_base_high e)) OR ucast (gate_base_low e)"

definition present :: "u8 \<Rightarrow> bool" where "present flags \<longleftrightarrow> bit flags 7"
definition dpl :: "u8 \<Rightarrow> u8" where "dpl flags = drop_bit 5 flags AND 3"

lemma field_masks:
  "(0xFF :: u32) = mask 8" "(0xFFFF :: u32) = mask 16" "(0x0F :: u32) = mask 4"
  "(0x0F :: u8) = mask 4" "(0xF0 :: u8) = NOT (mask 4)"
  by (simp_all add: mask_eq_exp_minus_1)

lemma gate_roundtrip:
  "gate_target \<lparr>gate_base_low = ucast (base AND 0xFFFF), gate_sel = sel, gate_always0 = z, gate_flags = fl,
     gate_base_high = ucast (drop_bit 16 base AND 0xFFFF)\<rparr> = base"
proof (rule bit_word_eqI)
  fix n assume "n < LENGTH(32)"
  then show "bit (gate_target \<lparr>gate_base_low = ucast (base AND 0xFFFF), gate_sel = sel, gate_always0 = z,
      gate_flags = fl, gate_base_high = ucast (drop_bit 16 base AND 0xFFFF)\<rparr>) n = bit base n"
    by (cases "n < 16") (auto simp: gate_target_def field_masks bit_simps)
qed

text \<open>A descriptor holds the whole base, but only the low 20 bits of the limit.\<close>

lemma descriptor_roundtrip:
  fixes base limit :: u32 and acc gran :: u8
  assumes "i < length (gdt s)"
  defines "e \<equiv> gdt (gdt_set_entry i base limit acc gran s) ! i"
  shows "segment_base e = base" "segment_limit e = take_bit 20 limit" "access e = acc"
    "drop_bit 4 (granularity e) = drop_bit 4 gran"
proof -
  show "segment_base e = base"
  proof (rule bit_word_eqI)
    fix n assume "n < LENGTH(32)"
    then show "bit (segment_base e) n = bit base n"
      using assms(1) by (cases "n < 16"; cases "n < 24")
        (auto simp: e_def gdt_set_entry_def segment_base_def field_masks bit_simps)
  qed
  show "segment_limit e = take_bit 20 limit"
  proof (rule bit_word_eqI)
    fix n assume "n < LENGTH(32)"
    then show "bit (segment_limit e) n = bit (take_bit 20 limit) n"
      using assms(1) by (cases "n < 16")
        (auto simp: e_def gdt_set_entry_def segment_limit_def field_masks bit_simps)
  qed
  show "access e = acc" using assms(1) by (simp add: e_def gdt_set_entry_def)
  show "drop_bit 4 (granularity e) = drop_bit 4 gran"
    using assms(1) by (intro bit_word_eqI) (auto simp: e_def gdt_set_entry_def field_masks bit_simps dest: bit_imp_le_length)
qed

lemma set_gate_simps [simp]:
  "length (idt (idt_set_gate n base sel fl s)) = length (idt s)"
  "irq_routines (idt_set_gate n base sel fl s) = irq_routines s" "gdt (idt_set_gate n base sel fl s) = gdt s"
  by (simp_all add: idt_set_gate_def)

lemma fold_set_gate:
  fixes s :: "'h cpu_tables"
  assumes "k + n \<le> length (idt s)"
  shows "length (idt (fold (\<lambda>i. idt_set_gate (k + i) (f i) sel fl) [0..<n] s)) = length (idt s) \<and>
    irq_routines (fold (\<lambda>i. idt_set_gate (k + i) (f i) sel fl) [0..<n] s) = irq_routines s \<and>
    gdt (fold (\<lambda>i. idt_set_gate (k + i) (f i) sel fl) [0..<n] s) = gdt s \<and>
    (\<forall>j. idt (fold (\<lambda>i. idt_set_gate (k + i) (f i) sel fl) [0..<n] s) ! j =
      (if k \<le> j \<and> j < k + n then idt (idt_set_gate j (f (j - k)) sel fl s) ! j else idt s ! j))"
  using assms
proof (induction n)
  case (Suc n)
  then show ?case
    by (auto simp: idt_set_gate_def nth_list_update less_Suc_eq)
qed auto

text \<open>The gates after \<open>idt_init\<close>, as the processor reads them: target, selector and flags.\<close>

definition gate_view :: "idt_entry \<Rightarrow> addr \<times> u16 \<times> u8" where
  "gate_view e = (gate_target e, gate_sel e, gate_flags e)"

lemma gate_view_set:
  "j < length (idt s) \<Longrightarrow> gate_view (idt (idt_set_gate n base sel fl s) ! j) =
    (if j = n then (base, sel, fl) else gate_view (idt s ! j))"
  by (simp add: idt_set_gate_def nth_list_update gate_view_def gate_roundtrip)

lemma fold_gate_view:
  assumes "k + n \<le> length (idt s)" "j < length (idt s)"
  shows "gate_view (idt (fold (\<lambda>i. idt_set_gate (k + i) (f i) sel fl) [0..<n] s) ! j) =
    (if k \<le> j \<and> j < k + n then (f (j - k), sel, fl) else gate_view (idt s ! j))"
  using fold_set_gate [OF assms(1), of f sel fl] assms(2) by (simp add: gate_view_set)

lemma idt_init_gates:
  assumes "length (idt s) = 256" "j < 256"
  shows "gate_view (idt (fst (idt_init idt_addr isr irq P (s, d))) ! j) =
    (if j < 32 then (isr j, 0x08, 0x8E) else if j < 48 then (irq (j - 32), 0x08, 0x8E)
     else if j = 128 then (isr 128, 0x08, 0xEE) else (0, 0, 0))"
proof -
  define s1 where "s1 = fold (\<lambda>i. idt_set_gate i 0 0 0) [0..<IDT_ENTRIES] s"
  define s2 where "s2 = fold (\<lambda>i. idt_set_gate i (isr i) 0x08 0x8E) [0..<32] s1"
  define s3 where "s3 = fold (\<lambda>i. idt_set_gate (32 + i) (irq i) 0x08 0x8E) [0..<16] s2"
  have len: "length (idt s1) = 256" "length (idt s2) = 256" "length (idt s3) = 256"
    using fold_set_gate [of 0 256 s] fold_set_gate [of 0 32 s1] fold_set_gate [of 32 16 s2] assms(1)
    by (simp_all add: s1_def s2_def s3_def IDT_ENTRIES_def)
  have "idt (fst (idt_init idt_addr isr irq P (s, d))) = idt (idt_set_gate 128 (isr 128) 0x08 0xEE s3)"
    by (simp add: idt_init_def s1_def s2_def s3_def Let_def)
  moreover have "gate_view (idt s3 ! j) = (if 32 \<le> j \<and> j < 48 then (irq (j - 32), 0x08, 0x8E) else gate_view (idt s2 ! j))"
    using fold_gate_view [of 32 16 s2 j irq "0x08" "0x8E"] len assms(2) by (simp add: s3_def)
  moreover have "gate_view (idt s2 ! j) = (if j < 32 then (isr j, 0x08, 0x8E) else gate_view (idt s1 ! j))"
    using fold_gate_view [of 0 32 s1 j isr "0x08" "0x8E"] len assms(2) by (simp add: s2_def)
  moreover have "gate_view (idt s1 ! j) = (0, 0, 0)"
    using fold_gate_view [of 0 256 s j "\<lambda>_. 0" 0 0] assms by (simp add: s1_def IDT_ENTRIES_def)
  ultimately show ?thesis using len assms(2) by (auto simp: gate_view_set)
qed

text \<open>The segments after \<open>gdt_init\<close>: flat code and data for ring 0 and ring 3, and the task segment.\<close>

definition segment_view :: "gdt_entry \<Rightarrow> u32 \<times> u32 \<times> u8" where
  "segment_view e = (segment_base e, segment_limit e, access e)"

lemma segment_view_set:
  "j < length (gdt s) \<Longrightarrow> segment_view (gdt (gdt_set_entry i base limit acc gran s) ! j) =
    (if j = i then (base, take_bit 20 limit, acc) else segment_view (gdt s ! j))"
  using descriptor_roundtrip(1-3) [of j s base limit acc gran]
  by (auto simp: segment_view_def) (simp_all add: gdt_set_entry_def)

lemma length_gdt_set [simp]: "length (gdt (gdt_set_entry i base limit acc gran s)) = length (gdt s)"
  by (simp add: gdt_set_entry_def)

lemma gdt_init_segments:
  assumes "length (gdt s) = 6"
  shows "map segment_view (gdt (gdt_init gdt_addr tss_addr s)) =
    [(0, 0, 0), (0, 0xFFFFF, 0x9A), (0, 0xFFFFF, 0x92), (0, 0xFFFFF, 0xFA), (0, 0xFFFFF, 0xF2),
     (tss_addr, 103, 0x89)]"
proof (rule nth_equalityI)
  show "length (map segment_view (gdt (gdt_init gdt_addr tss_addr s))) = length
    [(0, 0, 0), (0, 0xFFFFF, 0x9A), (0, 0xFFFFF, 0x92), (0, 0xFFFFF, 0xFA), (0, 0xFFFFF, 0xF2),
     (tss_addr, 103, 0x89)]"
    by (simp add: gdt_init_def Let_def assms)
  fix j assume "j < length (map segment_view (gdt (gdt_init gdt_addr tss_addr s)))"
  then have j: "j < 6" by (simp add: gdt_init_def Let_def assms)
  then have "j \<in> {0, 1, 2, 3, 4, 5}" by auto
  then show "map segment_view (gdt (gdt_init gdt_addr tss_addr s)) ! j =
    [(0, 0, 0), (0, 0xFFFFF, 0x9A), (0, 0xFFFFF, 0x92), (0, 0xFFFFF, 0xFA), (0, 0xFFFFF, 0xF2),
     (tss_addr, 103, 0x89)] ! j"
    by (auto simp: gdt_init_def Let_def assms segment_view_set TSS_SIZE_def take_bit_eq_mod)
qed

section \<open>Exceptions\<close>

lemmas console_fields = console_ok_def task_current_vga_buf_def task_current_vga_cols_def
  task_current_vga_rows_def redirect_cursor_def

lemma console_ok_frames [simp]:
  fixes s :: "'a console_scheme"
  shows "console_ok (s\<lparr>mem := m\<rparr>) = console_ok s" "console_ok (snd (pmm_alloc_frame s)) = console_ok s"
    "console_ok (pmm_free_frame a s) = console_ok s"
  by (simp_all add: console_fields pmm_alloc_frame_def pmm_free_frame_def Let_def mark_free_def
      bitmap_clear_def bitmap_set_def split: option.split)

lemma cow_fault_console:
  fixes s :: "'a console_scheme"
  shows "console_ok (snd (paging_handle_cow_fault va s)) = console_ok s"
proof -
  obtain t s1 where alloc: "pmm_alloc_frame s = (t, s1)" by fastforce
  then have "console_ok s1 = console_ok s" using console_ok_frames(2) [of s] by simp
  then show ?thesis by (simp add: paging_handle_cow_fault_def alloc Let_def)
qed

lemma report_exception_ok:
  assumes "console_ok s"
  shows "\<exists>s'. report_exception int_no s = Some s' \<and> console_ok s'"
proof -
  obtain s1 where s1: "vga_write (text_bytes (CHR 0x0A # ''*** CPU EXCEPTION: '')) s = Some s1" "console_ok s1"
    using vga_write_ok [OF assms] by blast
  obtain s2 where s2: "vga_write (text_bytes (exception_messages ! int_no)) s1 = Some s2" "console_ok s2"
    using vga_write_ok [OF s1(2)] by blast
  obtain s3 where s3: "vga_write (text_bytes ('' ***'' @ [CHR 0x0A])) s2 = Some s3" "console_ok s3"
    using vga_write_ok [OF s2(2)] by blast
  show ?thesis
    unfolding report_exception_def s1(1) bind.bind_lunit s2(1) using s3 by blast
qed

section \<open>Properties\<close>

text \<open>A page fault on a present page by a write is resumed exactly when the copy-on-write handler
  resolves it; every other exception is reported inside the screen and halts.\<close>

lemma isr_handler_spec:
  assumes "console_ok s"
  shows "\<exists>r s'. isr_handler int_no err_code cr2 s = Some (r, s') \<and> console_ok s' \<and>
    (r = Resumed \<longleftrightarrow> int_no = 14 \<and> err_code AND 0x3 = 0x3 \<and> fst (paging_handle_cow_fault cr2 s)) \<and>
    (r = Resumed \<longrightarrow> s' = snd (paging_handle_cow_fault cr2 s))"
proof (cases "int_no = 14 \<and> err_code AND 0x3 = 0x3")
  case True
  obtain ok t where t: "paging_handle_cow_fault cr2 s = (ok, t)" by fastforce
  have "console_ok t" using cow_fault_console [of cr2 s] assms t by simp
  then obtain t' where "report_exception 14 t = Some t'" "console_ok t'" using report_exception_ok by blast
  with True t \<open>console_ok t\<close> show ?thesis by (simp add: isr_handler_def)
next
  case False
  obtain t' where "report_exception int_no s = Some t'" "console_ok t'" using report_exception_ok [OF assms] by blast
  moreover have "(if int_no = 14 \<and> err_code AND 0x3 = 0x3 then paging_handle_cow_fault cr2 s else (False, s)) = (False, s)"
    using False by (rule if_not_P)
  ultimately show ?thesis
    using False unfolding isr_handler_def by (cases "int_no = 14") simp_all
qed

text \<open>C25: the interrupt table. After \<open>idt_init\<close> every vector that has a stub leads to exactly that stub
  in the kernel's code segment, every other vector is not present, and vector 128, the system call,
  is the only gate that user code may enter.\<close>

theorem idt_init_spec:
  fixes s :: "'h cpu_tables" and P :: "'d ports" and d :: 'd and idt_addr :: addr and isr irq :: "nat \<Rightarrow> addr"
  assumes "length (idt s) = 256" "n < 256"
  defines "e \<equiv> idt (fst (idt_init idt_addr isr irq P (s, d))) ! n"
  shows "(present (gate_flags e) \<longleftrightarrow> n < 48 \<or> n = 128) \<and>
    (n < 32 \<or> n = 128 \<longrightarrow> gate_target e = isr n \<and> gate_sel e = 0x08) \<and>
    (32 \<le> n \<and> n < 48 \<longrightarrow> gate_target e = irq (n - 32) \<and> gate_sel e = 0x08) \<and>
    (present (gate_flags e) \<and> dpl (gate_flags e) = 3 \<longleftrightarrow> n = 128)"
proof -
  have fl: "present 0x8E" "\<not> present 0" "present 0xEE" "dpl 0x8E = 0" "dpl 0xEE = 3"
    by (simp_all add: present_def dpl_def)
  show ?thesis
    using idt_init_gates [OF assms(1,2), of idt_addr isr irq P d] fl
    by (simp add: gate_view_def flip: e_def split: if_splits)
qed

definition still_ports :: "unit ports" where
  "still_ports = \<lparr>p_inb = \<lambda>_ d. (0, d), p_outb = \<lambda>_ _ d. d, p_inw = \<lambda>_ d. (0, d), p_outw = \<lambda>_ _ d. d\<rparr>"

definition demo_tables :: "nat cpu_tables" where
  "demo_tables = \<lparr>gdt = replicate 6 \<lparr>limit_low = 0, base_low = 0, base_middle = 0, access = 0, granularity = 0, base_high = 0\<rparr>,
     gdtp = (0, 0), tss = \<lparr>tss_esp0 = 0, tss_ss0 = 0, tss_iomap_base = 0\<rparr>, task_register = 0,
     idt = replicate 256 \<lparr>gate_base_low = 0, gate_sel = 0, gate_always0 = 0, gate_flags = 0, gate_base_high = 0\<rparr>,
     idtp = (0, 0), irq_routines = replicate 16 None\<rparr>"

theorem idt_init_spec_witness:
  "gate_target (idt (fst (idt_init 0x9000 (\<lambda>n. 0x101000 + of_nat (16 * n)) (\<lambda>n. 0x102000 + of_nat (16 * n))
     still_ports (demo_tables, ()))) ! 128) = 0x101800 \<and>
   gate_target (idt (fst (idt_init 0x9000 (\<lambda>n. 0x101000 + of_nat (16 * n)) (\<lambda>n. 0x102000 + of_nat (16 * n))
     still_ports (demo_tables, ()))) ! 33) = 0x102010"
  using idt_init_spec [of demo_tables 128 "0x9000" "\<lambda>n. 0x101000 + of_nat (16 * n)" "\<lambda>n. 0x102000 + of_nat (16 * n)" still_ports "()"]
    idt_init_spec [of demo_tables 33 "0x9000" "\<lambda>n. 0x101000 + of_nat (16 * n)" "\<lambda>n. 0x102000 + of_nat (16 * n)" still_ports "()"]
  by (simp add: demo_tables_def)

end
