(* ===== verification/Devices.thy ===== *)
theory Devices
  imports Cpu_Tables
begin

text \<open>
  The small drivers on I/O ports: \<open>kernel/serial.c\<close>, \<open>vbe.c\<close>, \<open>pci.c\<close> and \<open>cpuinfo.c\<close>, and
  \<open>gui.c\<close>, which brings the framebuffer up with them. The ports are the parameter of \<open>Ata\<close>, with the
  32-bit accesses of PCI added; \<open>cpuid\<close> is a parameter too.
\<close>

record 'd wide_ports = "'d ports" +
  p_inl :: "u16 \<Rightarrow> 'd \<Rightarrow> u32 \<times> 'd"
  p_outl :: "u16 \<Rightarrow> u32 \<Rightarrow> 'd \<Rightarrow> 'd"

section \<open>The serial port\<close>

definition COM1 :: u16 where "COM1 = 0x3F8"

definition serial_init :: "('d, 'm) ports_scheme \<Rightarrow> 'd \<Rightarrow> 'd" where
  "serial_init P d = fold (\<lambda>(reg, val). p_outb P (COM1 + reg) val)
     [(1, 0x00), (3, 0x80), (0, 0x03), (1, 0x00), (3, 0x03), (2, 0xC7), (4, 0x0B)] d"

definition serial_tx_empty :: "('d, 'm) ports_scheme \<Rightarrow> 'd \<Rightarrow> bool \<times> 'd" where
  "serial_tx_empty P d = (let (st, d) = p_inb P (COM1 + 5) d in (and st 0x20 \<noteq> 0, d))"

partial_function (option) serial_putc :: "('d, 'm) ports_scheme \<Rightarrow> u8 \<Rightarrow> 'd \<Rightarrow> 'd option" where
  "serial_putc P c d =
     (case serial_tx_empty P d of (ready, d) \<Rightarrow>
        if ready then Some (p_outb P COM1 c d) else serial_putc P c d)"

primrec serial_write :: "('d, 'm) ports_scheme \<Rightarrow> u8 list \<Rightarrow> 'd \<Rightarrow> 'd option" where
  "serial_write P [] d = Some d"
| "serial_write P (c # cs) d =
     Option.bind (if c = 0x0A then serial_putc P 0x0D d else Some d) (\<lambda>d.
     Option.bind (serial_putc P c d) (serial_write P cs))"

text \<open>The hexadecimal digits \<open>elf.c\<close>, \<open>pci.c\<close> and \<open>idt.c\<close> write to the log, least significant first.\<close>

definition hex_digit :: "u32 \<Rightarrow> u8" where
  "hex_digit nib = ucast (if nib < 10 then 0x30 + nib else 0x61 + (nib - 10))"

definition print_hex :: "u32 \<Rightarrow> u8 list" where
  "print_hex n = snd (((\<lambda>(n, buf). (drop_bit 4 n, hex_digit (n AND 0xF) # buf)) ^^ 8) (n, []))"

section \<open>The video mode\<close>

definition VBE_DISPI_IOPORT_INDEX :: u16 where "VBE_DISPI_IOPORT_INDEX = 0x01CE"
definition VBE_DISPI_IOPORT_DATA :: u16 where "VBE_DISPI_IOPORT_DATA = 0x01CF"
definition VBE_DISPI_INDEX_ID :: u16 where "VBE_DISPI_INDEX_ID = 0"
definition VBE_DISPI_INDEX_XRES :: u16 where "VBE_DISPI_INDEX_XRES = 1"
definition VBE_DISPI_INDEX_YRES :: u16 where "VBE_DISPI_INDEX_YRES = 2"
definition VBE_DISPI_INDEX_BPP :: u16 where "VBE_DISPI_INDEX_BPP = 3"
definition VBE_DISPI_INDEX_ENABLE :: u16 where "VBE_DISPI_INDEX_ENABLE = 4"
definition VBE_DISPI_INDEX_VIRT_WIDTH :: u16 where "VBE_DISPI_INDEX_VIRT_WIDTH = 6"
definition VBE_DISPI_INDEX_VIRT_HEIGHT :: u16 where "VBE_DISPI_INDEX_VIRT_HEIGHT = 7"
definition VBE_DISPI_DISABLED :: u16 where "VBE_DISPI_DISABLED = 0x00"
definition VBE_DISPI_ENABLED :: u16 where "VBE_DISPI_ENABLED = 0x01"
definition VBE_DISPI_LFB_ENABLED :: u16 where "VBE_DISPI_LFB_ENABLED = 0x40"

definition vbe_write :: "('d, 'm) ports_scheme \<Rightarrow> u16 \<Rightarrow> u16 \<Rightarrow> 'd \<Rightarrow> 'd" where
  "vbe_write P index val d = p_outw P VBE_DISPI_IOPORT_DATA val (p_outw P VBE_DISPI_IOPORT_INDEX index d)"

definition vbe_read :: "('d, 'm) ports_scheme \<Rightarrow> u16 \<Rightarrow> 'd \<Rightarrow> u16 \<times> 'd" where
  "vbe_read P index d = p_inw P VBE_DISPI_IOPORT_DATA (p_outw P VBE_DISPI_IOPORT_INDEX index d)"

definition vbe_set_mode :: "('d, 'm) ports_scheme \<Rightarrow> u32 \<Rightarrow> u32 \<Rightarrow> u32 \<Rightarrow> 'd \<Rightarrow> bool \<times> 'd" where
  "vbe_set_mode P width height bpp d =
     (let d = snd (vbe_read P VBE_DISPI_INDEX_ID d);
          d = vbe_write P VBE_DISPI_INDEX_ENABLE VBE_DISPI_DISABLED d;
          d = vbe_write P VBE_DISPI_INDEX_XRES (ucast width) d;
          d = vbe_write P VBE_DISPI_INDEX_YRES (ucast height) d;
          d = vbe_write P VBE_DISPI_INDEX_BPP (ucast bpp) d;
          d = vbe_write P VBE_DISPI_INDEX_VIRT_WIDTH (ucast width) d;
          d = vbe_write P VBE_DISPI_INDEX_VIRT_HEIGHT (ucast height) d;
          d = vbe_write P VBE_DISPI_INDEX_ENABLE (VBE_DISPI_ENABLED OR VBE_DISPI_LFB_ENABLED) d;
          (actual_x, d) = vbe_read P VBE_DISPI_INDEX_XRES d;
          (actual_y, d) = vbe_read P VBE_DISPI_INDEX_YRES d;
          (actual_bpp, d) = vbe_read P VBE_DISPI_INDEX_BPP d
      in (\<not> (ucast actual_x \<noteq> width \<or> ucast actual_y \<noteq> height), d))"

definition vbe_disable :: "('d, 'm) ports_scheme \<Rightarrow> 'd \<Rightarrow> 'd" where
  "vbe_disable P d = vbe_write P VBE_DISPI_INDEX_ENABLE VBE_DISPI_DISABLED d"

section \<open>PCI\<close>

definition PCI_CONFIG_ADDRESS :: u16 where "PCI_CONFIG_ADDRESS = 0xCF8"
definition PCI_CONFIG_DATA :: u16 where "PCI_CONFIG_DATA = 0xCFC"

definition config_address :: "u8 \<Rightarrow> u8 \<Rightarrow> u8 \<Rightarrow> u8 \<Rightarrow> u32" where
  "config_address bus slot func offset = push_bit 31 1 OR push_bit 16 (ucast bus) OR push_bit 11 (ucast slot)
     OR push_bit 8 (ucast func) OR ucast (offset AND 0xFC)"

definition pci_config_read32 :: "'d wide_ports \<Rightarrow> u8 \<Rightarrow> u8 \<Rightarrow> u8 \<Rightarrow> u8 \<Rightarrow> 'd \<Rightarrow> u32 \<times> 'd" where
  "pci_config_read32 P bus slot func offset d =
     p_inl P PCI_CONFIG_DATA (p_outl P PCI_CONFIG_ADDRESS (config_address bus slot func offset) d)"

text \<open>The slots still to look at; the result is the address, if there is one.\<close>

primrec pci_scan :: "'d wide_ports \<Rightarrow> nat list \<Rightarrow> 'd \<Rightarrow> addr option \<times> 'd" where
  "pci_scan P [] d = (None, d)"
| "pci_scan P (slot # slots) d =
     (let (id, d) = pci_config_read32 P 0 (of_nat slot) 0 0x00 d in
      if (ucast (id AND 0xFFFF) :: u16) = 0xFFFF then pci_scan P slots d
      else let (class_reg, d) = pci_config_read32 P 0 (of_nat slot) 0 0x08 d in
        if (ucast (drop_bit 24 class_reg) :: u8) = 0x03 then
          let (bar0, d) = pci_config_read32 P 0 (of_nat slot) 0 0x10 d in
          if bar0 AND 0x1 \<noteq> 0 then pci_scan P slots d
          else (Some (bar0 AND 0xFFFFFFF0), d)
        else pci_scan P slots d)"

definition pci_find_vga_framebuffer :: "'d wide_ports \<Rightarrow> 'd \<Rightarrow> addr option \<times> 'd" where
  "pci_find_vga_framebuffer P d = pci_scan P [0..<32] d"

section \<open>CPU identification\<close>

definition word_bytes :: "u32 \<Rightarrow> u8 list" where
  "word_bytes w = [ucast w, ucast (drop_bit 8 w), ucast (drop_bit 16 w), ucast (drop_bit 24 w)]"

definition cpu_get_vendor :: "(u32 \<Rightarrow> u32 \<times> u32 \<times> u32 \<times> u32) \<Rightarrow> u8 list" where
  "cpu_get_vendor cpuid = (let (a, b, c, d) = cpuid 0 in word_bytes b @ word_bytes d @ word_bytes c @ [0])"

definition cpu_get_brand :: "(u32 \<Rightarrow> u32 \<times> u32 \<times> u32 \<times> u32) \<Rightarrow> u8 list option" where
  "cpu_get_brand cpuid =
     (if fst (cpuid 0x80000000) < 0x80000004 then None
      else Some (concat (map (\<lambda>leaf. let (a, b, c, d) = cpuid leaf in concat (map word_bytes [a, b, c, d]))
        [0x80000002, 0x80000003, 0x80000004]) @ [0]))"

section \<open>Graphics\<close>

definition GUI_WIDTH :: u32 where "GUI_WIDTH = 1024"
definition GUI_HEIGHT :: u32 where "GUI_HEIGHT = 768"
definition GUI_BPP :: u32 where "GUI_BPP = 32"

record 'd gui = console +
  g_dev :: 'd
  g_fb_phys :: u32
  g_fb_pitch :: u32

primrec map_fb_pages :: "nat list \<Rightarrow> addr \<Rightarrow> 'a vm_scheme \<Rightarrow> bool \<times> 'a vm_scheme" where
  "map_fb_pages [] fb_phys s = (True, s)"
| "map_fb_pages (i # is) fb_phys s =
     (let a = fb_phys + of_nat i * 4096; (ok, s) = paging_map_kernel_page a a PAGE_RW s
      in if ok then map_fb_pages is fb_phys s else (False, s))"

definition gui_init :: "'d wide_ports \<Rightarrow> ('d, 'a) gui_scheme \<Rightarrow> bool \<times> ('d, 'a) gui_scheme" where
  "gui_init P s =
     (if g_gui_ready s then (True, s)
      else let (ok, d) = vbe_set_mode P GUI_WIDTH GUI_HEIGHT GUI_BPP (g_dev s); s = s\<lparr>g_dev := d\<rparr> in
        if \<not> ok then (False, s)
        else let (fb, d) = pci_find_vga_framebuffer P (g_dev s); s = s\<lparr>g_dev := d\<rparr> in
          case fb of None \<Rightarrow> (False, s)
          | Some fb_phys \<Rightarrow>
              let pitch = GUI_WIDTH * (GUI_BPP div 8); fb_bytes = pitch * GUI_HEIGHT;
                  num_pages = (fb_bytes + 4096 - 1) div 4096;
                  (ok, s) = map_fb_pages [0..<unat num_pages] fb_phys s
              in if \<not> ok then (False, s)
                 else (True, s\<lparr>screen_fb := fb_init GUI_WIDTH GUI_HEIGHT pitch (screen_fb s),
                   g_fb_phys := fb_phys, g_fb_pitch := pitch, g_gui_ready := True\<rparr>))"

definition gui_get_fb_phys_info :: "('d, 'a) gui_scheme \<Rightarrow> u32 \<times> u32 \<times> u32 \<times> u32" where
  "gui_get_fb_phys_info s = (g_fb_phys s, GUI_WIDTH, GUI_HEIGHT, g_fb_pitch s)"

section \<open>The drivers on their devices\<close>

text \<open>A UART that is busy for a while after each character, and what reaches the line.\<close>

definition uart :: "nat \<Rightarrow> (nat \<times> u8 list) ports" where
  "uart delay = \<lparr>p_inb = \<lambda>port (busy, out). (if busy = 0 then 0x20 else 0, (busy - 1, out)),
     p_outb = \<lambda>port val (busy, out). if port = COM1 then (delay, out @ [val]) else (busy, out),
     p_inw = \<lambda>port d. (0, d), p_outw = \<lambda>port val d. d\<rparr>"

fun crlf :: "u8 list \<Rightarrow> u8 list" where
  "crlf [] = []"
| "crlf (c # cs) = (if c = 0x0A then [0x0D, c] else [c]) @ crlf cs"

lemma serial_putc_uart: "serial_putc (uart delay) c (busy, out) = Some (delay, out @ [c])"
proof (induction busy)
  case 0
  then show ?case by (subst serial_putc.simps) (simp add: serial_tx_empty_def uart_def)
next
  case (Suc n)
  have "serial_tx_empty (uart delay) (Suc n, out) = (False, (n, out))"
    by (simp add: serial_tx_empty_def uart_def)
  then show ?case using Suc by (subst serial_putc.simps) simp
qed

lemma serial_write_uart: "\<exists>b. serial_write (uart delay) cs (busy, out) = Some (b, out @ crlf cs)"
proof (induction cs arbitrary: busy out)
  case (Cons c cs)
  show ?case
    using Cons [of delay "out @ (if c = 0x0A then [0x0D, c] else [c])"]
    by (cases "c = 0x0A") (simp_all add: serial_putc_uart)
qed simp

text \<open>The DISPI registers: an index register in front of a register file.\<close>

definition dispi :: "(u16 \<times> (u16 \<Rightarrow> u16)) ports" where
  "dispi = \<lparr>p_inb = \<lambda>port d. (0, d), p_outb = \<lambda>port val d. d,
     p_inw = \<lambda>port (i, r). (r i, (i, r)),
     p_outw = \<lambda>port val (i, r). if port = VBE_DISPI_IOPORT_INDEX then (val, r)
       else if port = VBE_DISPI_IOPORT_DATA then (i, r(i := val)) else (i, r)\<rparr>"

lemma vbe_dispi:
  "vbe_write dispi i v (j, r) = (i, r(i := v))" "vbe_read dispi i (j, r) = (r i, (i, r))"
  by (simp_all add: vbe_write_def vbe_read_def dispi_def VBE_DISPI_IOPORT_INDEX_def VBE_DISPI_IOPORT_DATA_def)

lemma fits_u16: "ucast (ucast w :: u16) = (w :: u32) \<longleftrightarrow> unat w < 65536"
proof -
  have "unat (ucast (ucast w :: u16) :: u32) = unat w mod 65536"
    by (simp add: unsigned_ucast_eq take_bit_eq_mod unat_mod)
  then show ?thesis by (simp add: word_unat_eq_iff mod_eq_self_iff_div_eq_0 div_eq_0_iff)
qed

lemma vbe_set_mode_dispi:
  "fst (vbe_set_mode dispi width height bpp d) \<longleftrightarrow> unat width < 65536 \<and> unat height < 65536"
  by (cases d) (simp add: vbe_set_mode_def vbe_dispi Let_def VBE_DISPI_INDEX_XRES_def VBE_DISPI_INDEX_YRES_def
      VBE_DISPI_INDEX_BPP_def VBE_DISPI_INDEX_ENABLE_def VBE_DISPI_INDEX_VIRT_WIDTH_def
      VBE_DISPI_INDEX_VIRT_HEIGHT_def fits_u16)

text \<open>Configuration mechanism 1: an address register in front of the configuration space.\<close>

definition pci_bus :: "(u32 \<Rightarrow> u32) \<Rightarrow> u32 wide_ports" where
  "pci_bus cfg = ports.extend
     \<lparr>p_inb = \<lambda>port d. (0, d), p_outb = \<lambda>port val d. d, p_inw = \<lambda>port d. (0, d), p_outw = \<lambda>port val d. d\<rparr>
     (wide_ports.fields (\<lambda>port a. (if port = PCI_CONFIG_DATA then cfg a else 0, a))
       (\<lambda>port val a. if port = PCI_CONFIG_ADDRESS then val else a))"

definition framebuffer_slot :: "(u32 \<Rightarrow> u32) \<Rightarrow> nat \<Rightarrow> bool" where
  "framebuffer_slot cfg slot \<longleftrightarrow>
     (ucast (cfg (config_address 0 (of_nat slot) 0 0)) :: u16) \<noteq> 0xFFFF \<and>
     (ucast (drop_bit 24 (cfg (config_address 0 (of_nat slot) 0 8))) :: u8) = 0x03 \<and>
     cfg (config_address 0 (of_nat slot) 0 0x10) AND 1 = 0"

lemma ucast_low: "(ucast (w AND 0xFFFF) :: u16) = ucast (w :: u32)"
  by (rule bit_word_eqI) (auto simp: field_masks bit_simps)

lemma read_pci_bus: "pci_config_read32 (pci_bus cfg) bus slot func off d =
    (cfg (config_address bus slot func off), config_address bus slot func off)"
  by (simp add: pci_config_read32_def pci_bus_def ports.defs wide_ports.defs PCI_CONFIG_DATA_def PCI_CONFIG_ADDRESS_def)

lemma pci_scan_bus:
  "fst (pci_scan (pci_bus cfg) slots d) =
    map_option (\<lambda>slot. cfg (config_address 0 (of_nat slot) 0 0x10) AND 0xFFFFFFF0) (find (framebuffer_slot cfg) slots)"
  by (induction slots arbitrary: d) (auto simp: read_pci_bus framebuffer_slot_def ucast_low)

section \<open>Bringing the framebuffer up\<close>

lemma console_ok_page_map [simp]:
  fixes s :: "'a console_scheme"
  shows "console_ok (snd (paging_map_kernel_page p v fl s)) = console_ok s"
    "g_gui_ready (snd (paging_map_kernel_page p v fl s)) = g_gui_ready s"
    "screen_fb (snd (paging_map_kernel_page p v fl s)) = screen_fb s"
proof -
  obtain t s1 where alloc: "pmm_alloc_frame s = (t, s1)" by fastforce
  have "console_ok s1 = console_ok s" "g_gui_ready s1 = g_gui_ready s" "screen_fb s1 = screen_fb s"
    using console_ok_frames(2) [of s] alloc
    by (auto simp: pmm_alloc_frame_def bitmap_set_def split: option.splits)
  then show "console_ok (snd (paging_map_kernel_page p v fl s)) = console_ok s"
    "g_gui_ready (snd (paging_map_kernel_page p v fl s)) = g_gui_ready s"
    "screen_fb (snd (paging_map_kernel_page p v fl s)) = screen_fb s"
    by (simp_all add: paging_map_kernel_page_def alloc Let_def)
qed

lemma map_fb_pages_console:
  fixes s :: "'a console_scheme"
  shows "console_ok (snd (map_fb_pages is fb s)) = console_ok s \<and>
    g_gui_ready (snd (map_fb_pages is fb s)) = g_gui_ready s \<and> screen_fb (snd (map_fb_pages is fb s)) = screen_fb s"
proof (induction "is" arbitrary: s)
  case (Cons i "is")
  obtain ok t where t: "paging_map_kernel_page (fb + of_nat i * 4096) (fb + of_nat i * 4096) PAGE_RW s = (ok, t)"
    by fastforce
  then show ?case
    using Cons [of t] console_ok_page_map [of "fb + of_nat i * 4096" "fb + of_nat i * 4096" PAGE_RW s]
    by (simp add: Let_def)
qed simp

text \<open>Switching a text console to graphics keeps its cursor inside the larger grid.\<close>

lemma console_ok_graphics:
  "console_ok s \<Longrightarrow> \<not> g_gui_ready s \<Longrightarrow>
    console_ok (s\<lparr>screen_fb := b, g_fb_phys := p, g_fb_pitch := q, g_gui_ready := True\<rparr>)"
  by (auto simp: console_fields grid_ok_def VGA_WIDTH_def VGA_HEIGHT_def REAL_FB_COLS_def REAL_FB_ROWS_def)

lemma gui_init_ready: "g_gui_ready s \<Longrightarrow> gui_init P s = (True, s)"
  by (simp add: gui_init_def)

text \<open>Bringing up graphics: the console stays inside its arrays, graphics mode is on exactly when
  \<open>gui_init\<close> returns 1, and calling it again then changes nothing.\<close>

lemma gui_init_spec:
  fixes s :: "('d, 'a) gui_scheme"
  assumes "console_ok s"
  shows "console_ok (snd (gui_init P s)) \<and>
    (g_gui_ready (snd (gui_init P s)) \<longleftrightarrow> fst (gui_init P s)) \<and>
    (fst (gui_init P s) \<longrightarrow> gui_init P (snd (gui_init P s)) = (True, snd (gui_init P s))) \<and>
    (fst (gui_init P s) \<and> \<not> g_gui_ready s \<longrightarrow>
       fb_width (screen_fb (snd (gui_init P s))) = 1024 \<and> fb_height (screen_fb (snd (gui_init P s))) = 768 \<and>
       fb_pitch_px (screen_fb (snd (gui_init P s))) = 1024 \<and> g_fb_pitch (snd (gui_init P s)) = 4096)"
proof (cases "g_gui_ready s")
  case True
  then show ?thesis using assms by (simp add: gui_init_ready)
next
  case False
  have "console_ok (s\<lparr>g_dev := d\<rparr>) = console_ok s" for d by (simp add: console_fields)
  with assms have d: "console_ok (s\<lparr>g_dev := d\<rparr>)" for d by simp
  obtain ok1 d1 where 1: "vbe_set_mode P GUI_WIDTH GUI_HEIGHT GUI_BPP (g_dev s) = (ok1, d1)" by fastforce
  obtain fb d2 where 2: "pci_find_vga_framebuffer P d1 = (fb, d2)" by fastforce
  show ?thesis
  proof (cases "ok1 \<and> fb \<noteq> None")
    case no: False
    then show ?thesis using False 1 2 d by (auto simp: gui_init_def Let_def split: option.splits)
  next
    case yes: True
    then obtain p where p: "fb = Some p" by auto
    obtain ok3 t where 3: "map_fb_pages [0..<768] p (s\<lparr>g_dev := d2\<rparr>) = (ok3, t)" by fastforce
    have t: "console_ok t" "\<not> g_gui_ready t"
      using map_fb_pages_console [of "[0..<768]" p "s\<lparr>g_dev := d2\<rparr>"] 3 d [of d2] False by simp_all
    have "gui_init P s = (if \<not> ok3 then (False, t) else (True, t\<lparr>screen_fb := fb_init 1024 768 4096 (screen_fb t),
        g_fb_phys := p, g_fb_pitch := 4096, g_gui_ready := True\<rparr>))"
      using False yes by (simp add: gui_init_def 1 [unfolded GUI_WIDTH_def GUI_HEIGHT_def GUI_BPP_def] 2 p 3 GUI_WIDTH_def GUI_HEIGHT_def GUI_BPP_def)
    then show ?thesis
      using t console_ok_graphics [OF t] by (cases ok3) (simp_all add: gui_init_ready fb_init_def)
  qed
qed

end
