(* ===== verification/Input.thy ===== *)
theory Input
  imports Vga
begin

text \<open>
  Reading the keyboard and writing the screen together: the line input that \<open>shell.c\<close> and
  \<open>editor.c\<close> share, with the string helpers they have their own copies of. A task that finds no
  character executes \<open>hlt\<close> until an interrupt comes; the interrupts are an argument, a list of
  events, and each \<open>hlt\<close> takes the next one. (A tick also lets other tasks run and comes back; that
  is \<open>Task\<close>.) \<open>None\<close> is a task that waits when no event is left, or a write outside of the screen.
\<close>

section \<open>Events\<close>

text \<open>A keyboard interrupt with its scancode, a timer interrupt, and a character that the desktop
  pushes into the queue of the waiting task.\<close>

datatype event = Key u8 | Tick | Pushed char

fun happen :: "event \<Rightarrow> 'a kbd_scheme \<Rightarrow> 'a kbd_scheme" where
  "happen (Key scancode) s = keyboard_callback scancode s"
| "happen Tick s = s\<lparr>tick := tick s + 1\<rparr>"
| "happen (Pushed c) s = snd (task_push_input_char (current_task s) c s)"

text \<open>\<open>keyboard_getchar\<close> with its waiting loop.\<close>

fun wait_char :: "event list \<Rightarrow> 'a kbd_scheme \<Rightarrow> (char \<times> event list \<times> 'a kbd_scheme) option" where
  "wait_char evs s =
     (case keyboard_getchar s of
        Some (c, s) \<Rightarrow> Some (c, evs, s)
      | None \<Rightarrow> (case evs of [] \<Rightarrow> None | e # evs \<Rightarrow> wait_char evs (happen e s)))"

declare wait_char.simps [simp del]

text \<open>\<open>while (keyboard_has_char()) keyboard_getchar();\<close>\<close>

partial_function (option) drain_input :: "'a kbd_scheme \<Rightarrow> 'a kbd_scheme option" where
  "drain_input s =
     (if keyboard_has_char s then do { (c, s) \<leftarrow> keyboard_getchar s; drain_input s } else Some s)"

section \<open>Lines and words\<close>

partial_function (option) read_line ::
  "nat \<Rightarrow> char list \<Rightarrow> event list \<Rightarrow> 'a console_scheme \<Rightarrow> (char list \<times> event list \<times> 'a console_scheme) option" where
  "read_line max_len buf evs s = do {
     (c, evs, s) \<leftarrow> wait_char evs s;
     if c = CHR 0x0A then do { s \<leftarrow> vga_putc NEWLINE s; Some (buf, evs, s) }
     else if c = CHR 0x08 then
       (if 0 < length buf then do { s \<leftarrow> vga_putc BACKSPACE s; read_line max_len (butlast buf) evs s }
        else read_line max_len buf evs s)
     else if length buf < max_len - 1 then do {
       s \<leftarrow> vga_putc (of_char c) s;
       read_line max_len (buf @ [c]) evs s }
     else read_line max_len buf evs s }"

fun str_eq :: "char list \<Rightarrow> char list \<Rightarrow> bool" where
  "str_eq (a # as) (b # bs) = (if a \<noteq> b then False else str_eq as bs)"
| "str_eq as bs = (as = [] \<and> bs = [])"

definition split_command :: "char list \<Rightarrow> char list \<times> char list" where
  "split_command line =
     (let cmd = takeWhile (\<lambda>c. c \<noteq> CHR '' '') line; p = dropWhile (\<lambda>c. c \<noteq> CHR '' '') line in
      case p of [] \<Rightarrow> (cmd, []) | _ # p \<Rightarrow> (cmd, dropWhile (\<lambda>c. c = CHR '' '') p))"

text \<open>The decimal number that \<open>print_dec\<close> and its copies write.\<close>

definition dec_bytes :: "u32 \<Rightarrow> u8 list" where
  "dec_bytes n = (if n = 0 then [0x30] else tick_digits (unat n) [])"

definition write_str :: "char list \<Rightarrow> 'a console_scheme \<Rightarrow> 'a console_scheme option" where
  "write_str cs = vga_write (text_bytes cs)"

lemma str_eq_iff [simp]: "str_eq as bs \<longleftrightarrow> as = bs"
  by (induction as bs rule: str_eq.induct) auto

section \<open>What the keyboard state and the screen state depend on\<close>

definition input_view :: "'a kbd_scheme \<Rightarrow> (char list \<times> nat \<times> nat \<times> bool) \<times> addr \<times> (bool \<times> char list \<times> nat \<times> nat)" where
  "input_view s = (let k = tasks s (current_task s) in
     ((kb_buffer s, kb_head s, kb_tail s, shift_held s), current_task s,
      (t_use_input_redirect k, t_input_queue k, t_input_head k, t_input_tail k)))"

definition screen_view :: "'a console_scheme \<Rightarrow>
    ((addr \<Rightarrow> u16 list) \<times> u16 list \<times> int \<times> int) \<times> (u8 \<times> u16 list \<times> bool \<times> bool \<times> framebuf) \<times> (addr \<times> int \<times> int \<times> int \<times> int)" where
  "screen_view s = ((cells s, vga_memory s, cursor_row s, cursor_col s),
     (color s, real_screen_buf s, real_screen_initialized s, g_gui_ready s, screen_fb s),
     (task_current_vga_buf s, task_current_vga_cols s, task_current_vga_rows s, redirect_cursor s))"

text \<open>The characters a task will read: those buffered, and those the events bring.\<close>

fun pushed :: "event list \<Rightarrow> char list" where
  "pushed [] = []"
| "pushed (Pushed c # evs) = c # pushed evs"
| "pushed (e # evs) = pushed evs"

fun scancodes :: "event list \<Rightarrow> u8 list" where
  "scancodes [] = []"
| "scancodes (Key sc # evs) = sc # scancodes evs"
| "scancodes (e # evs) = scancodes evs"

definition pending :: "event list \<Rightarrow> 'a kbd_scheme \<Rightarrow> char list" where
  "pending evs s =
     (if task_current_uses_input_redirect s then input_contents (current_task s) s @ pushed evs
      else kb_contents s @ typed (shift_held s) (scancodes evs))"

definition input_ok :: "'a kbd_scheme \<Rightarrow> bool" where
  "input_ok s \<longleftrightarrow> kb_inv s \<and> (task_current_uses_input_redirect s \<longrightarrow> input_inv (current_task s) s)"

lemma view_pending: "input_view s = input_view t \<Longrightarrow> pending evs s = pending evs t"
  by (auto simp: input_view_def pending_def task_current_uses_input_redirect_def input_contents_def kb_contents_def Let_def)

lemma view_input_ok: "input_view s = input_view t \<Longrightarrow> input_ok s = input_ok t"
  by (auto simp: input_view_def input_ok_def task_current_uses_input_redirect_def input_inv_def kb_inv_def Let_def)

lemma view_console_ok: "screen_view s = screen_view t \<Longrightarrow> console_ok s = console_ok t"
  by (auto simp: screen_view_def console_ok_def)

section \<open>What console output and keyboard input change\<close>

text \<open>The state with everything blanked that writing to the console may change, and with everything
  blanked that waiting for a character may change. That an operation changes nothing else is one
  equation.\<close>

definition but_screen :: "'a console_scheme \<Rightarrow> 'a console_scheme" where
  "but_screen s = s\<lparr>tasks := (\<lambda>t. (tasks s t)\<lparr>t_vga_cursor_row := 0, t_vga_cursor_col := 0, t_vga_redirect_dirty := False\<rparr>),
     cells := (\<lambda>_. []), vga_memory := [], cursor_row := 0, cursor_col := 0, real_screen_buf := [],
     real_screen_initialized := False, screen_fb := \<lparr>fb_pixels = (\<lambda>_. 0), fb_width = 0, fb_height = 0, fb_pitch_px = 0\<rparr>\<rparr>"

definition but_input :: "'a kbd_scheme \<Rightarrow> 'a kbd_scheme" where
  "but_input s = s\<lparr>tasks := (\<lambda>t. (tasks s t)\<lparr>t_state := TASK_READY, t_input_queue := [], t_input_head := 0, t_input_tail := 0\<rparr>),
     kb_buffer := [], kb_head := 0, kb_tail := 0, shift_held := False, tick := 0\<rparr>"

lemma but_screen_updates [simp]:
  "but_screen (s\<lparr>cells := x1\<rparr>) = but_screen s" "but_screen (s\<lparr>vga_memory := x2\<rparr>) = but_screen s"
  "but_screen (s\<lparr>cursor_row := x3\<rparr>) = but_screen s" "but_screen (s\<lparr>cursor_col := x4\<rparr>) = but_screen s"
  "but_screen (s\<lparr>real_screen_buf := x5\<rparr>) = but_screen s"
  "but_screen (s\<lparr>real_screen_initialized := x6\<rparr>) = but_screen s" "but_screen (s\<lparr>screen_fb := x7\<rparr>) = but_screen s"
  by (simp_all add: but_screen_def)

lemma but_screen_task [simp]:
  "but_screen (set_redirect_cursor r c s) = but_screen s" "but_screen (task_current_vga_mark_dirty s) = but_screen s"
  "but_screen (set_cells a b s) = but_screen s"
  by (auto simp: but_screen_def set_redirect_cursor_def task_current_vga_mark_dirty_def set_cells_def upd_task_def fun_eq_iff)

lemma but_screen_fold: "(\<And>x t. but_screen (f x t) = but_screen t) \<Longrightarrow> but_screen (fold f xs s) = but_screen s"
  by (induction xs arbitrary: s) auto

lemma but_screen_render [simp]:
  "but_screen (real_render_char r c s) = but_screen s" "but_screen (real_render_all s) = but_screen s"
  "but_screen (blank_real_screen s) = but_screen s" "but_screen (real_screen_ensure_init s) = but_screen s"
  by (simp_all add: real_render_char_def real_render_all_def blank_real_screen_def real_screen_ensure_init_def
      but_screen_fold Let_def)

lemma vga_putc_frame:
  assumes "vga_putc c s = Some s'"
  shows "but_screen s' = but_screen s"
proof -
  have poke: "real_poke r c v t = Some t' \<Longrightarrow> but_screen t' = but_screen t" for r c v and t t' :: "'a console_scheme"
    by (auto simp: real_poke_def)
  have scroll: "real_scroll t = Some t' \<Longrightarrow> but_screen t' = but_screen t" for t t' :: "'a console_scheme"
    by (auto simp: real_scroll_def split: if_splits)
  have "text_putc c s = Some t' \<Longrightarrow> but_screen t' = but_screen s" for t'
    by (auto simp: text_putc_def vga_scroll_def Let_def split: bind_splits if_splits)
  moreover have "redirect_putc c s = Some t' \<Longrightarrow> but_screen t' = but_screen s" for t'
    by (auto simp: redirect_putc_def Let_def split: bind_splits if_splits prod.splits)
  moreover have "real_putc_framebuffer c s = Some t' \<Longrightarrow> but_screen t' = but_screen s" for t'
    by (auto simp: real_putc_framebuffer_def Let_def split: bind_splits if_splits prod.splits dest!: poke scroll)
  ultimately show ?thesis using assms by (auto simp: vga_putc_def split: if_splits)
qed

lemma vga_write_frame: "vga_write cs s = Some s' \<Longrightarrow> but_screen s' = but_screen s"
  by (induction cs arbitrary: s) (auto split: bind_splits dest: vga_putc_frame)

lemma vga_clear_frame: "vga_clear s = Some s' \<Longrightarrow> but_screen s' = but_screen s"
  by (auto simp: vga_clear_def Let_def split: if_splits)

lemma input_view_but_screen: "input_view (but_screen s) = input_view s"
  by (simp add: input_view_def but_screen_def Let_def)

lemma but_screen_view: "but_screen s' = but_screen s \<Longrightarrow> input_view s' = input_view s"
  by (metis input_view_but_screen)

lemma screen_view_but_input: "screen_view (but_input s) = screen_view s"
  by (simp add: screen_view_def but_input_def task_current_vga_buf_def task_current_vga_cols_def
      task_current_vga_rows_def redirect_cursor_def)

lemma but_input_view: "but_input s' = but_input s \<Longrightarrow> screen_view s' = screen_view s"
  by (metis screen_view_but_input)

lemma but_input_updates [simp]:
  "but_input (s\<lparr>kb_buffer := x1\<rparr>) = but_input s" "but_input (s\<lparr>kb_head := x2\<rparr>) = but_input s"
  "but_input (s\<lparr>kb_tail := x3\<rparr>) = but_input s" "but_input (s\<lparr>shift_held := b\<rparr>) = but_input s"
  "but_input (s\<lparr>tick := x4\<rparr>) = but_input s"
  "but_input (upd_task t (\<lambda>k. k\<lparr>t_input_queue := q k, t_input_head := h k\<rparr>) s) = but_input s"
  "but_input (upd_task t (\<lambda>k. k\<lparr>t_input_tail := h k\<rparr>) s) = but_input s"
  "but_input (task_unblock t s) = but_input s"
  by (auto simp: but_input_def upd_task_def task_unblock_def fun_eq_iff)

lemma happen_frame: "but_input (happen e s) = but_input s"
  by (cases e) (auto simp: keyboard_callback_def kb_buffer_push_def task_push_input_char_def Let_def)

lemma getchar_frame: "keyboard_getchar s = Some (c, s') \<Longrightarrow> but_input s' = but_input s"
  by (auto simp: keyboard_getchar_def kb_buffer_pop_def task_current_input_getchar_def Let_def split: if_splits)

lemma wait_char_frame: "wait_char evs s = Some (c, evs', s') \<Longrightarrow> but_input s' = but_input s"
proof (induction evs arbitrary: s)
  case Nil
  then show ?case by (subst (asm) wait_char.simps) (auto split: option.splits dest: getchar_frame)
next
  case (Cons e evs)
  then show ?case
    by (subst (asm) wait_char.simps) (auto simp: happen_frame split: option.splits dest: getchar_frame)
qed

section \<open>Waiting for a character reads the next of the pending ones\<close>

lemma pending_getchar:
  assumes "input_ok s"
  shows "case keyboard_getchar s of
      None \<Rightarrow> pending evs s = (if task_current_uses_input_redirect s then pushed evs else typed (shift_held s) (scancodes evs))
    | Some (c, s') \<Rightarrow> input_ok s' \<and> pending evs s = c # pending evs s'"
proof (cases "task_current_uses_input_redirect s")
  case True
  then have inv: "input_inv (current_task s) s" using assms by (simp add: input_ok_def)
  then have has: "task_current_input_has_char s \<longleftrightarrow> input_contents (current_task s) s \<noteq> []"
    using ring_empty_iff by (fastforce simp: task_current_input_has_char_def input_inv_def input_contents_def)
  show ?thesis
  proof (cases "task_current_input_has_char s")
    case yes: True
    obtain c s' where g: "task_current_input_getchar s = (c, s')" by fastforce
    have "current_task s' = current_task s" "task_current_uses_input_redirect s' = task_current_uses_input_redirect s"
      "kb_inv s' = kb_inv s"
      using g by (auto simp: task_current_input_getchar_def task_current_uses_input_redirect_def kb_inv_def
          upd_task_def Let_def split: if_splits)
    moreover have "input_inv (current_task s) s'" "input_contents (current_task s) s = c # input_contents (current_task s) s'"
      using input_queue.pop_inv [OF inv] input_queue.pop_contents [OF inv] yes has g by auto
    ultimately show ?thesis using True yes g assms by (simp add: keyboard_getchar_def pending_def input_ok_def)
  next
    case False
    then show ?thesis using True has by (simp add: keyboard_getchar_def pending_def)
  qed
next
  case False
  have inv: "kb_inv s" using assms by (simp add: input_ok_def)
  then have has: "kb_head s = kb_tail s \<longleftrightarrow> kb_contents s = []"
    using ring_empty_iff by (fastforce simp: kb_inv_def kb_contents_def)
  show ?thesis
  proof (cases "kb_head s = kb_tail s")
    case True
    then show ?thesis using False has by (simp add: keyboard_getchar_def pending_def)
  next
    case no: False
    obtain c s' where g: "kb_buffer_pop s = (c, s')" by fastforce
    then have "task_current_uses_input_redirect s' = task_current_uses_input_redirect s" "shift_held s' = shift_held s"
      by (auto simp: kb_buffer_pop_def task_current_uses_input_redirect_def)
    moreover have "kb_inv s'" "kb_contents s = c # kb_contents s'"
      using kb_queue.pop_inv [OF inv] kb_queue.pop_contents [OF inv] no has g by auto
    ultimately show ?thesis using False no g by (simp add: keyboard_getchar_def pending_def input_ok_def)
  qed
qed

lemma length_typed_one: "length (typed b [sc]) \<le> 1"
  by (simp add: Let_def)

lemma callback_tasks: "tasks (keyboard_callback sc s) = tasks s" "current_task (keyboard_callback sc s) = current_task s"
  by (simp_all add: keyboard_callback_def kb_buffer_push_def Let_def)

lemma push_keyboard:
  "kb_inv (snd (task_push_input_char t c s)) = kb_inv s" "kb_contents (snd (task_push_input_char t c s)) = kb_contents s"
  "shift_held (snd (task_push_input_char t c s)) = shift_held s"
  "task_current_uses_input_redirect (snd (task_push_input_char t c s)) = task_current_uses_input_redirect s"
  by (auto simp: task_push_input_char_def task_unblock_def upd_task_def Let_def kb_inv_def kb_contents_def
      task_current_uses_input_redirect_def)

lemma pending_happen:
  assumes "input_ok s" "keyboard_getchar s = None"
  shows "input_ok (happen e s) \<and> pending (e # evs) s = pending evs (happen e s)"
proof -
  have inv: "kb_inv s" using assms(1) by (simp add: input_ok_def)
  show ?thesis
  proof (cases e)
    case (Key sc)
    have cb: "kb_inv (keyboard_callback sc s)"
      "kb_contents (keyboard_callback sc s) = take 255 (kb_contents s @ typed (shift_held s) [sc])"
      "typed (shift_held s) (sc # scancodes evs) =
         typed (shift_held s) [sc] @ typed (shift_held (keyboard_callback sc s)) (scancodes evs)"
      using keyboard_callback_typed [OF inv, of sc] by blast+
    have red: "task_current_uses_input_redirect (keyboard_callback sc s) = task_current_uses_input_redirect s"
      "input_contents t (keyboard_callback sc s) = input_contents t s"
      "input_inv t (keyboard_callback sc s) = input_inv t s" for t
      by (simp_all add: task_current_uses_input_redirect_def input_contents_def input_inv_def callback_tasks)
    have "pending (e # evs) s = pending evs (happen e s)"
    proof (cases "task_current_uses_input_redirect s")
      case True
      then show ?thesis using Key by (simp add: pending_def red callback_tasks)
    next
      case False
      then have "kb_contents s = []"
        using assms(2) inv ring_empty_iff
        by (fastforce simp: keyboard_getchar_def kb_inv_def kb_contents_def split: if_splits)
      then have "kb_contents (keyboard_callback sc s) = typed (shift_held s) [sc]"
        using cb(2) length_typed_one [of "shift_held s" sc] by (simp del: typed.simps)
      then show ?thesis
        using False Key \<open>kb_contents s = []\<close> cb(3) by (simp add: pending_def red del: typed.simps)
    qed
    then show ?thesis using Key assms(1) cb(1) by (simp add: input_ok_def red callback_tasks)
  next
    case Tick
    have "input_view (s\<lparr>tick := tick s + 1\<rparr>) = input_view s" by (simp add: input_view_def)
    from view_pending [OF this] view_input_ok [OF this] Tick assms(1) show ?thesis by (simp add: pending_def)
  next
    case (Pushed c)
    have cur: "current_task (snd (task_push_input_char (current_task s) c s)) = current_task s"
      by (simp add: task_push_input_char_def Let_def upd_task_def)
    show ?thesis
    proof (cases "task_current_uses_input_redirect s")
      case True
      then have i: "input_inv (current_task s) s" using assms(1) by (simp add: input_ok_def)
      have "input_contents (current_task s) s = []"
        using assms(2) True i ring_empty_iff
        by (fastforce simp: keyboard_getchar_def task_current_input_has_char_def input_inv_def input_contents_def split: if_splits)
      then show ?thesis
        using True i inv input_queue.push_inv [OF i, of c] input_queue.push_contents [OF i, of c] Pushed
        by (simp add: pending_def input_ok_def push_keyboard cur)
    next
      case False
      then show ?thesis using Pushed inv by (simp add: pending_def input_ok_def push_keyboard)
    qed
  qed
qed

text \<open>Waiting returns the first pending character, and leaves the others pending; with none it waits
  for ever.\<close>

lemma wait_char_spec:
  assumes "input_ok s"
  shows "case pending evs s of
      [] \<Rightarrow> wait_char evs s = None
    | c # cs \<Rightarrow> \<exists>evs' s'. wait_char evs s = Some (c, evs', s') \<and> input_ok s' \<and> pending evs' s' = cs \<and> but_input s' = but_input s"
  using assms
proof (induction evs arbitrary: s)
  case Nil
  show ?case
  proof (cases "keyboard_getchar s")
    case None
    then show ?thesis
      using pending_getchar [OF Nil, of "[]"] by (simp add: wait_char.simps [of "[]" s] split: if_splits)
  next
    case (Some r)
    then show ?thesis
      using pending_getchar [OF Nil, of "[]"] getchar_frame
      by (cases r) (auto simp: wait_char.simps [of "[]" s])
  qed
next
  case (Cons e evs)
  show ?case
  proof (cases "keyboard_getchar s")
    case None
    note h = pending_happen [OF Cons.prems None, of e evs]
    have "wait_char (e # evs) s = wait_char evs (happen e s)" by (subst wait_char.simps) (simp add: None)
    with h Cons.IH [of "happen e s"] show ?thesis by (auto simp: happen_frame split: list.splits)
  next
    case (Some r)
    then show ?thesis
      using pending_getchar [OF Cons.prems, of "e # evs"] getchar_frame
      by (cases r) (auto simp: wait_char.simps [of "e # evs" s])
  qed
qed

section \<open>Reading a line\<close>

text \<open>The line that a sequence of characters types: the reference for \<open>read_line\<close>.\<close>

fun line_of :: "nat \<Rightarrow> char list \<Rightarrow> char list \<Rightarrow> (char list \<times> char list) option" where
  "line_of m buf [] = None"
| "line_of m buf (c # cs) =
     (if c = CHR 0x0A then Some (buf, cs)
      else line_of m (if c = CHR 0x08 then butlast buf else if length buf < m - 1 then buf @ [c] else buf) cs)"

definition but_io :: "'a console_scheme \<Rightarrow> 'a console_scheme" where
  "but_io s = but_screen (but_input s)"

lemma but_io_input: "but_input s' = but_input s \<Longrightarrow> but_io s' = but_io s"
  by (simp add: but_io_def)

lemma but_io_commute: "but_io s = but_input (but_screen s)"
  by (simp add: but_io_def but_screen_def but_input_def fun_eq_iff)

lemma but_io_screen: "but_screen s' = but_screen s \<Longrightarrow> but_io s' = but_io s"
  by (simp add: but_io_commute)

text \<open>Writing one character in the middle of reading a line.\<close>

lemma echo_ok:
  assumes "input_ok s" "console_ok s"
  obtains s' where "vga_putc c s = Some s'" "console_ok s'" "input_ok s'" "\<And>evs. pending evs s' = pending evs s" "but_io s' = but_io s"
proof -
  obtain s' where s': "vga_putc c s = Some s'" "console_ok s'" using vga_putc_ok [OF assms(2)] by blast
  have "but_screen s' = but_screen s" by (rule vga_putc_frame [OF s'(1)])
  with that s' assms(1) view_pending view_input_ok but_screen_view but_io_screen show thesis by metis
qed

lemma write_ok:
  assumes "input_ok s" "console_ok s"
  obtains s' where "vga_write cs s = Some s'" "console_ok s'" "input_ok s'" "\<And>evs. pending evs s' = pending evs s" "but_io s' = but_io s"
proof -
  obtain s' where s': "vga_write cs s = Some s'" "console_ok s'" using vga_write_ok [OF assms(2)] by blast
  have "but_screen s' = but_screen s" by (rule vga_write_frame [OF s'(1)])
  with that s' assms(1) view_pending view_input_ok but_screen_view but_io_screen show thesis by metis
qed

lemma read_line_spec:
  assumes "input_ok s" "console_ok s"
  shows "case line_of m buf (pending evs s) of
      None \<Rightarrow> read_line m buf evs s = None
    | Some (line, rest) \<Rightarrow> \<exists>evs' s'. read_line m buf evs s = Some (line, evs', s') \<and>
        input_ok s' \<and> console_ok s' \<and> pending evs' s' = rest \<and> but_io s' = but_io s"
  using assms
proof (induction "pending evs s" arbitrary: buf evs s)
  case Nil
  then show ?case using wait_char_spec [of s evs] by (simp add: read_line.simps [of m buf evs s] flip: Nil.hyps)
next
  case (Cons c cs)
  obtain evs1 s1 where w: "wait_char evs s = Some (c, evs1, s1)" "input_ok s1" "pending evs1 s1 = cs" "but_input s1 = but_input s"
    using wait_char_spec [OF Cons.prems(1), of evs] by (auto simp flip: Cons.hyps(2))
  have con: "console_ok s1" using w(4) view_console_ok but_input_view Cons.prems(2) by blast
  let ?k = "if c = CHR 0x0A then NEWLINE else if c = CHR 0x08 then BACKSPACE else of_char c"
  obtain t where t: "vga_putc ?k s1 = Some t" "console_ok t" "input_ok t" "\<And>evs. pending evs t = pending evs s1"
    "but_io t = but_io s1"
    using echo_ok [OF w(2) con, of ?k] by blast
  have io: "but_io s1 = but_io s" using w(4) by (rule but_io_input)
  consider (nl) "c = CHR 0x0A" | (rubout) "c = CHR 0x08" "buf \<noteq> []" | (plain) "c \<noteq> CHR 0x0A" "c \<noteq> CHR 0x08" "length buf < m - 1"
    | (ignored) "c \<noteq> CHR 0x0A" "c = CHR 0x08 \<and> buf = [] \<or> c \<noteq> CHR 0x08 \<and> \<not> length buf < m - 1" by blast
  then show ?case
  proof cases
    case nl
    then show ?thesis
      using w t io by (simp add: read_line.simps [of m buf evs s] flip: Cons.hyps(2))
  next
    case rubout
    then have "read_line m buf evs s = read_line m (butlast buf) evs1 t"
      "line_of m buf (pending evs s) = line_of m (butlast buf) cs"
      using w(1) t(1) by (simp_all add: read_line.simps [of m buf evs s] flip: Cons.hyps(2))
    then show ?thesis
      using Cons.hyps(1) [of evs1 t "butlast buf"] w t io by (auto split: option.splits)
  next
    case plain
    then have "read_line m buf evs s = read_line m (buf @ [c]) evs1 t"
      "line_of m buf (pending evs s) = line_of m (buf @ [c]) cs"
      using w(1) t(1) by (simp_all add: read_line.simps [of m buf evs s] flip: Cons.hyps(2))
    then show ?thesis
      using Cons.hyps(1) [of evs1 t "buf @ [c]"] w t io by (auto split: option.splits)
  next
    case ignored
    then have "read_line m buf evs s = read_line m buf evs1 s1"
      "line_of m buf (pending evs s) = line_of m buf cs"
      using w(1) by (auto simp: read_line.simps [of m buf evs s] simp flip: Cons.hyps(2))
    then show ?thesis
      using Cons.hyps(1) [of evs1 s1 buf] w con io by (auto split: option.splits)
  qed
qed

lemma line_of_rest: "line_of m buf cs = Some (line, rest) \<Longrightarrow> length rest < length cs"
  by (induction m buf cs rule: line_of.induct) (auto split: if_splits)

lemma line_of_length: "line_of m buf cs = Some (line, rest) \<Longrightarrow> length buf < m \<Longrightarrow> length line < m"
  by (induction m buf cs rule: line_of.induct) (auto split: if_splits)

lemma line_of_printable:
  "line_of m buf cs = Some (line, rest) \<Longrightarrow> CHR 0x0A \<notin> set buf \<Longrightarrow> CHR 0x08 \<notin> set buf \<Longrightarrow>
     CHR 0x0A \<notin> set line \<and> CHR 0x08 \<notin> set line"
  by (induction m buf cs rule: line_of.induct) (auto split: if_splits dest: in_set_butlastD)

lemma line_of_typed:
  "length (buf @ line) < m \<Longrightarrow> CHR 0x0A \<notin> set line \<Longrightarrow> CHR 0x08 \<notin> set line \<Longrightarrow>
     line_of m buf (line @ CHR 0x0A # rest) = Some (buf @ line, rest)"
  by (induction line arbitrary: buf) auto

end
