(* ===== verification/Snake_Food.thy ===== *)
theory Snake_Food
  imports Prelude
begin

text \<open>
  The random numbers of \<open>kernel/snake.c\<close> and its \<open>place_food\<close>, which draws cells until one is not
  covered by the snake. That the loop ends is a property of the generator: taken two numbers at a
  time it runs through all states of the same parity, and enough of them lead to different cells.
\<close>

type_synonym point = "int \<times> int"

definition FIELD_TOP :: int where "FIELD_TOP = 2"
definition FIELD_BOTTOM :: int where "FIELD_BOTTOM = 22"
definition FIELD_LEFT :: int where "FIELD_LEFT = 1"
definition FIELD_RIGHT :: int where "FIELD_RIGHT = 78"
definition MAX_SNAKE_LEN :: nat where "MAX_SNAKE_LEN = 400"

lemmas field_bounds = FIELD_TOP_def FIELD_BOTTOM_def FIELD_LEFT_def FIELD_RIGHT_def

section \<open>The code\<close>

definition rng_seed :: "u32 \<Rightarrow> u32" where
  "rng_seed seed = (if seed \<noteq> 0 then seed else 12345)"

definition rng_next :: "u32 \<Rightarrow> u32 \<times> u32" where
  "rng_next rng_state =
     (let rng_state = rng_state * 1103515245 + 12345 in (drop_bit 16 rng_state AND 0x7FFF, rng_state))"

text \<open>One attempt of \<open>place_food\<close>, and its loop.\<close>

definition random_cell :: "u32 \<Rightarrow> point \<times> u32" where
  "random_cell rng =
     (let (a, rng) = rng_next rng;
          r = FIELD_TOP + uint (a mod of_int (FIELD_BOTTOM - FIELD_TOP + 1));
          (b, rng) = rng_next rng;
          c = FIELD_LEFT + uint (b mod of_int (FIELD_RIGHT - FIELD_LEFT + 1))
      in ((r, c), rng))"

partial_function (option) place_food :: "u32 \<Rightarrow> point list \<Rightarrow> (point \<times> u32) option" where
  "place_food rng body =
     (let (p, rng) = random_cell rng in if p \<in> set body then place_food rng body else Some (p, rng))"

section \<open>The generator reaches every state of the same parity\<close>

lemma affine_power:
  fixes A C :: int
  assumes "A = 1 + 8 * p0" "C = 2 * (2 * q0 + 1)"
  shows "\<exists>p q. \<forall>x. ((\<lambda>x. A * x + C) ^^ (2 ^ k)) x = (1 + 2 ^ (k + 3) * p) * x + 2 ^ (k + 1) * (2 * q + 1)"
proof (induction k)
  case 0
  then show ?case using assms by (intro exI [of _ p0] exI [of _ q0]) simp
next
  case (Suc k)
  then obtain p q where h: "((\<lambda>x. A * x + C) ^^ (2 ^ k)) x = (1 + 2 ^ (k + 3) * p) * x + 2 ^ (k + 1) * (2 * q + 1)" for x
    by blast
  let ?P = "(2::int) ^ k"
  have "((\<lambda>x. A * x + C) ^^ (2 ^ Suc k)) x =
      (1 + 2 ^ (Suc k + 3) * (p + 4 * ?P * p * p)) * x + 2 ^ (Suc k + 1) * (2 * (q + 2 * ?P * p * (2 * q + 1)) + 1)" for x
    by (simp only: power_Suc mult_2 funpow_add o_apply h) (simp add: power_add algebra_simps)
  then show ?case by blast
qed

lemma affine_reaches:
  fixes A C :: int
  assumes "A = 1 + 8 * p0" "C = 2 * (2 * q0 + 1)" "(x - y) mod 2 = 0"
  shows "\<exists>n. (((\<lambda>x. A * x + C) ^^ n) x - y) mod 2 ^ (k + 1) = 0"
proof (induction k)
  case 0
  show ?case using assms(3) by (intro exI [of _ 0]) simp
next
  case (Suc k)
  let ?G = "\<lambda>x. A * x + C"
  obtain n where n: "((?G ^^ n) x - y) mod 2 ^ (k + 1) = 0" using Suc.IH by (rule exE)
  then obtain d where d: "(?G ^^ n) x - y = 2 ^ (k + 1) * d" by (auto simp: mod_eq_0_iff_dvd elim: dvdE)
  show ?case
  proof (cases "even d")
    case True
    then have "(?G ^^ n) x - y = 2 ^ (k + 2) * (d div 2)" using d by auto
    then show ?thesis by (intro exI [of _ n]) simp
  next
    case False
    obtain p q where h: "(?G ^^ (2 ^ k)) z = (1 + 2 ^ (k + 3) * p) * z + 2 ^ (k + 1) * (2 * q + 1)" for z
      using affine_power [OF assms(1,2), of k] by blast
    obtain e where e: "d = 2 * e + 1" using False by (auto elim: oddE)
    have "(?G ^^ (2 ^ k + n)) x - y = (?G ^^ (2 ^ k)) ((?G ^^ n) x) - y"
      by (simp add: funpow_add)
    also have "\<dots> = ((?G ^^ n) x - y) + 2 ^ (k + 3) * p * (?G ^^ n) x + 2 ^ (k + 1) * (2 * q + 1)"
      by (simp only: h) (simp add: algebra_simps)
    also have "\<dots> = 2 ^ (k + 2) * (e + 1 + q + 2 * p * (?G ^^ n) x)"
      by (simp only: d e) (simp add: algebra_simps power_add)
    finally show ?thesis by (intro exI [of _ "2 ^ k + n"]) simp
  qed
qed

definition rng_step :: "u32 \<Rightarrow> u32" where "rng_step x = x * 1103515245 + 12345"

lemma random_cell_next: "snd (random_cell x) = rng_step (rng_step x)"
  by (simp add: random_cell_def rng_next_def field_bounds rng_step_def Let_def)

lemma rng_step2_of_int:
  "((\<lambda>x. rng_step (rng_step x)) ^^ n) (of_int i) = of_int (((\<lambda>x. 1103515245 ^ 2 * x + 1103515246 * 12345) ^^ n) i)"
  by (induction n) (simp_all add: rng_step_def algebra_simps power2_eq_square)

lemma rng_reaches:
  assumes "even (uint x) = even (uint y)"
  shows "\<exists>n. ((\<lambda>x. rng_step (rng_step x)) ^^ n) x = y"
proof -
  let ?G = "\<lambda>x. 1103515245 ^ 2 * x + 1103515246 * 12345 :: int"
  have "(uint x - uint y) mod 2 = 0" using assms by presburger
  then have "\<exists>n. ((?G ^^ n) (uint x) - uint y) mod 2 ^ (31 + 1) = 0"
    by (rule affine_reaches [of _ 152218236993426253 _ 3405723927967, rotated 2]) simp_all
  then obtain n where n: "((?G ^^ n) (uint x) - uint y) mod 2 ^ (31 + 1) = 0" by (rule exE)
  have "((\<lambda>x. rng_step (rng_step x)) ^^ n) x = of_int ((?G ^^ n) (uint x))"
    using rng_step2_of_int [of n "uint x"] by simp
  also have "(?G ^^ n) (uint x) mod 2 ^ 32 = uint y mod 2 ^ 32"
    using n by (simp add: mod_eq_dvd_iff mod_eq_0_iff_dvd)
  then have "of_int ((?G ^^ n) (uint x)) = (of_int (uint y) :: u32)"
    by (simp only: word_of_int_eq_iff take_bit_eq_mod len_bit0 len_num1) simp
  finally show ?thesis by auto
qed


text \<open>A state whose next cell is computed from the given value of the generator.\<close>

definition rng_back :: "u32 \<Rightarrow> u32" where
  "rng_back x = (x - 12345) * 4005161829"

lemma rng_step_back: "rng_step (rng_back x) = x"
proof -
  have "(4005161829 :: u32) * 1103515245 = 1" by simp
  then have "(x - 12345) * 4005161829 * 1103515245 = x - 12345" by (simp only: mult.assoc) simp
  then show ?thesis by (simp only: rng_step_def rng_back_def) simp
qed

lemma even_rng_step: "even (uint (rng_step x)) \<longleftrightarrow> odd (uint x)"
proof -
  have "uint (rng_step x) = (uint x * 1103515245 + 12345) mod 4294967296"
    by (simp add: rng_step_def uint_word_ariths mod_simps)
  then show ?thesis by (simp add: dvd_mod_iff)
qed

lemma random_bits: "uint (drop_bit 16 (word_of_int z :: u32) AND 0x7FFF) = z div 65536 mod 32768"
proof -
  have m: "(0x7FFF :: u32) = mask 15" by (simp add: mask_eq_exp_minus_1)
  have "take_bit 15 (drop_bit 16 (take_bit 32 z)) = take_bit 15 (drop_bit 16 z)"
    by (rule bit_eqI) (auto simp: bit_simps)
  then have "uint (drop_bit 16 (word_of_int z :: u32) AND 0x7FFF) = take_bit 15 (drop_bit 16 z)"
    unfolding m by (simp add: unsigned_drop_bit_eq unsigned_take_bit_eq unsigned_of_int flip: take_bit_eq_mask)
  then show ?thesis by (simp add: take_bit_eq_mod drop_bit_eq_div)
qed

definition free_cells :: "int \<Rightarrow> int \<Rightarrow> (int \<times> int) list" where
  "free_cells d r = map (\<lambda>t. (2 + r, 1 + (1103515245 * (r + 21 * t) + d) mod 32768 mod 78)) [0..19]"

lemma random_cell_steps:
  "fst (random_cell x) = (2 + uint (drop_bit 16 (rng_step x) AND 0x7FFF) mod 21,
     1 + uint (drop_bit 16 (rng_step (rng_step x)) AND 0x7FFF) mod 78)"
  by (simp add: random_cell_def rng_next_def field_bounds rng_step_def Let_def uint_mod)

lemma random_cell_at:
  assumes "0 \<le> k" "k < 32768" "0 \<le> w" "w < 65536"
  shows "fst (random_cell (rng_back (word_of_int (65536 * k + w)))) =
    (2 + k mod 21, 1 + (1103515245 * k + (1103515245 * w + 12345) div 65536) mod 32768 mod 78)"
proof -
  have 1: "(1103515245 * (65536 * k + w) + 12345) div 65536 = 1103515245 * k + (1103515245 * w + 12345) div 65536"
    using div_mult_self2 [of 65536 "1103515245 * w + 12345" "1103515245 * k"] by (simp add: algebra_simps)
  have 2: "(65536 * k + w) div 65536 = k" using assms(3,4) by simp
  have 3: "rng_step (word_of_int (65536 * k + w)) = word_of_int (1103515245 * (65536 * k + w) + 12345)"
    by (simp add: rng_step_def algebra_simps)
  show ?thesis
    unfolding random_cell_steps rng_step_back 3 random_bits 1 2 using assms by simp
qed

text \<open>Within a row the columns go up, seen from the first of them.\<close>

fun ascending :: "int list \<Rightarrow> bool" where
  "ascending (x # y # zs) \<longleftrightarrow> x < y \<and> ascending (y # zs)"
| "ascending zs \<longleftrightarrow> True"

lemma ascending_distinct: "ascending xs \<Longrightarrow> distinct xs \<and> (\<forall>x\<in>set (tl xs). hd xs < x)"
  by (induction xs rule: ascending.induct) auto

definition column :: "int \<Rightarrow> int \<Rightarrow> int \<Rightarrow> int" where
  "column d r t = (20077 * (r + 21 * t) + d) mod 32768 mod 78"

lemma columns_ascending:
  "list_all (\<lambda>d. list_all (\<lambda>r. let c = column d r 0 in ascending (map (\<lambda>t. (column d r t - c) mod 78) [0..19])) [0..20]) [0, 16838]"
  by code_simp

lemma columns_distinct:
  assumes "d = 0 \<or> d = 16838" "0 \<le> r" "r \<le> 20"
  shows "distinct (map (column d r) [0..19])"
proof -
  have "r \<in> set [0..20]" "d \<in> set [0, 16838]" using assms by auto
  then have "ascending (map (\<lambda>c. (c - column d r 0) mod 78) (map (column d r) [0..19]))"
    using columns_ascending unfolding list_all_iff Let_def map_map comp_def by blast
  then have "distinct (map (\<lambda>c. (c - column d r 0) mod 78) (map (column d r) [0..19]))"
    by (rule ascending_distinct [THEN conjunct1])
  then show ?thesis unfolding distinct_map [of _ "map (column d r) [0..19]"] by (rule conjunct1)
qed

lemma free_cells_distinct:
  assumes "d = 0 \<or> d = 16838" "0 \<le> r" "r \<le> 20"
  shows "distinct (free_cells d r)"
proof -
  let ?cols = "map (column d r) [0..19]"
  have eq: "(1103515245 * k + d) mod 32768 = (20077 * k + d) mod 32768" for k
    using mod_mult_self2 [of "20077 * k + d" 32768 "33676 * k"] by (simp add: algebra_simps)
  have "distinct ?cols" using assms by (rule columns_distinct)
  moreover have "inj_on (\<lambda>c. (2 + r, 1 + c)) (set ?cols)" by (simp add: inj_on_def)
  moreover have "free_cells d r = map (\<lambda>c. (2 + r, 1 + c)) ?cols"
    unfolding free_cells_def eq map_map comp_def column_def by (rule refl)
  ultimately show ?thesis unfolding distinct_map by (simp only: distinct_map)
qed

lemma length_free_cells: "length (concat (map (free_cells d) [0..20])) = 420"
proof -
  have "length (free_cells d r) = 20" for r by (simp add: free_cells_def del: upto_rec_numeral)
  then show ?thesis by (simp add: length_concat comp_def sum_list_triv)
qed

lemma free_cells_fst: "p \<in> set (free_cells d r) \<Longrightarrow> fst p = 2 + r"
  unfolding free_cells_def set_map by auto

lemma free_cells_hd: "fst (hd (free_cells d r)) = 2 + r"
  by (simp add: free_cells_def upto_rec1)

lemma distinct_free_cells:
  assumes "d = 0 \<or> d = 16838"
  shows "distinct (concat (map (free_cells d) [0..20]))"
proof (rule distinct_concat)
  have "inj_on (free_cells d) (set [0..20])"
    by (rule inj_onI) (metis free_cells_hd add_left_cancel)
  then show "distinct (map (free_cells d) [0..20])" by (simp add: distinct_map)
  show "distinct ys" if "ys \<in> set (map (free_cells d) [0..20])" for ys
    using that assms free_cells_distinct by auto
  show "set ys \<inter> set zs = {}" if "ys \<in> set (map (free_cells d) [0..20])" "zs \<in> set (map (free_cells d) [0..20])" "ys \<noteq> zs" for ys zs
    using that by (auto dest!: free_cells_fst)
qed

text \<open>There is a free cell that some state of each parity leads to.\<close>

lemma free_state:
  assumes "length body \<le> 400"
  shows "\<exists>y. even (uint y) = b \<and> fst (random_cell y) \<notin> set body"
proof -
  define w :: int where "w = (if b then 1 else 0)"
  define d where "d = (1103515245 * w + 12345) div 65536"
  have d: "d = 0 \<or> d = 16838" by (simp add: d_def w_def)
  obtain cs where cs: "cs = concat (map (free_cells d) [0..20])" by blast
  have "card (set cs) = 420"
    using distinct_card [OF distinct_free_cells [OF d]] length_free_cells [of d] unfolding cs by (rule trans)
  moreover have "card (set body) \<le> 400" using card_length [of body] assms by simp
  ultimately have "\<not> set cs \<subseteq> set body" using card_mono [of "set body" "set cs"] by auto
  then obtain p where "p \<in> set cs" "p \<notin> set body" by blast
  then obtain r where p: "0 \<le> r" "r \<le> 20" "p \<in> set (free_cells d r)" "p \<notin> set body"
    unfolding cs set_concat set_map set_upto by auto
  then obtain t where t: "0 \<le> t" "t \<le> 19" "p = (2 + r, 1 + (1103515245 * (r + 21 * t) + d) mod 32768 mod 78)"
    unfolding free_cells_def set_map set_upto by auto
  let ?k = "r + 21 * t"
  let ?y = "rng_back (word_of_int (65536 * ?k + w))"
  have w: "0 \<le> w" "w < 65536" by (simp_all add: w_def)
  have 4: "fst (random_cell ?y) \<notin> set body"
  proof -
    have k: "?k mod 21 = r" "0 \<le> ?k" "?k < 32768" using p(1,2) t(1,2) by simp_all
    show ?thesis
      using p(4) unfolding random_cell_at [OF k(2,3) w] k(1) t(3) d_def .
  qed
  have "even (uint ?y) \<longleftrightarrow> odd (uint (word_of_int (65536 * ?k + w) :: u32))"
    using even_rng_step [of ?y] by (simp add: rng_step_back)
  moreover have "even (uint (word_of_int z :: u32)) = even z" for z
    by (simp add: unsigned_of_int take_bit_eq_mod dvd_mod_iff)
  ultimately have "even (uint ?y) \<longleftrightarrow> b"
    unfolding w_def by (cases b) (simp_all del: of_int_add of_int_mult)
  then show ?thesis using 4 by blast
qed

section \<open>Food is always placed\<close>

text \<open>The cell of the \<open>n\<close>-th attempt, and the state after it.\<close>

definition attempt :: "nat \<Rightarrow> u32 \<Rightarrow> point \<times> u32" where
  "attempt n rng = random_cell (((\<lambda>x. rng_step (rng_step x)) ^^ n) rng)"

lemma attempt_Suc: "attempt (Suc n) rng = attempt n (rng_step (rng_step rng))"
  by (simp add: attempt_def funpow_Suc_right del: funpow.simps)

lemma place_food_attempts:
  "fst (attempt n rng) \<notin> set body \<Longrightarrow>
   \<exists>m. place_food rng body = Some (attempt m rng) \<and> fst (attempt m rng) \<notin> set body \<and> (\<forall>k<m. fst (attempt k rng) \<in> set body)"
proof (induction n arbitrary: rng)
  case 0
  then show ?case
    by (intro exI [of _ 0]) (simp add: place_food.simps [of rng] attempt_def case_prod_beta Let_def)
next
  case (Suc n)
  show ?case
  proof (cases "fst (attempt 0 rng) \<in> set body")
    case True
    then have "place_food rng body = place_food (rng_step (rng_step rng)) body"
      by (subst place_food.simps) (simp add: attempt_def case_prod_beta Let_def random_cell_next)
    moreover obtain m where "place_food (rng_step (rng_step rng)) body = Some (attempt (Suc m) rng)"
      "fst (attempt (Suc m) rng) \<notin> set body" "\<forall>k<m. fst (attempt (Suc k) rng) \<in> set body"
      using Suc.IH [of "rng_step (rng_step rng)"] Suc.prems by (auto simp: attempt_Suc)
    ultimately show ?thesis
      using True by (intro exI [of _ "Suc m"]) (simp add: All_less_Suc2)
  next
    case False
    then show ?thesis by (intro exI [of _ 0]) (simp add: place_food.simps [of rng] attempt_def case_prod_beta Let_def)
  qed
qed

definition in_field :: "point \<Rightarrow> bool" where
  "in_field p \<longleftrightarrow> FIELD_TOP \<le> fst p \<and> fst p \<le> FIELD_BOTTOM \<and> FIELD_LEFT \<le> snd p \<and> snd p \<le> FIELD_RIGHT"

lemma random_cell_in_field: "in_field (fst (random_cell x))"
proof -
  have "uint (drop_bit 16 (rng_step x) AND 0x7FFF) mod 21 < 21" "uint (drop_bit 16 (rng_step (rng_step x)) AND 0x7FFF) mod 78 < 78"
    by (rule pos_mod_bound; simp)+
  then show ?thesis by (simp add: in_field_def field_bounds random_cell_steps zle_diff1_eq [symmetric] del: zle_diff1_eq)
qed

lemma place_food_returns:
  assumes "length body \<le> MAX_SNAKE_LEN"
  obtains m where "place_food rng body = Some (attempt m rng)" "in_field (fst (attempt m rng))"
    "fst (attempt m rng) \<notin> set body" "\<forall>k<m. fst (attempt k rng) \<in> set body"
proof -
  obtain y where y: "even (uint y) = even (uint rng)" "fst (random_cell y) \<notin> set body"
    using free_state [OF assms [unfolded MAX_SNAKE_LEN_def]] by blast
  obtain n where "((\<lambda>x. rng_step (rng_step x)) ^^ n) rng = y" using rng_reaches y(1) by metis
  then have "fst (attempt n rng) \<notin> set body" using y(2) by (simp add: attempt_def)
  from place_food_attempts [OF this] that random_cell_in_field show thesis
    unfolding attempt_def by blast
qed

text \<open>C26: \<open>place_food\<close> always returns. For every state of the random number generator and every snake
  of at most 400 cells, the loop ends with the first drawn cell that the snake does not cover, inside
  the field. (Two numbers at a time, the generator runs through all states of one parity, and states
  of each parity lead to 420 different cells.)\<close>

theorem place_food_spec:
  assumes "length body \<le> MAX_SNAKE_LEN"
  shows "\<exists>m. place_food rng body = Some (attempt m rng) \<and> in_field (fst (attempt m rng)) \<and>
    fst (attempt m rng) \<notin> set body \<and> (\<forall>k<m. fst (attempt k rng) \<in> set body)"
  using place_food_returns [OF assms, of rng] by metis

lemma place_food_spec_witness:
  "\<exists>m. place_food 42 [(12, 39), (12, 38), (12, 37)] = Some (attempt m 42) \<and> in_field (fst (attempt m 42)) \<and>
    fst (attempt m 42) \<notin> set [(12, 39), (12, 38), (12, 37)] \<and>
    (\<forall>k<m. fst (attempt k 42) \<in> set [(12, 39), (12, 38), (12, 37)])"
  by (rule place_food_spec) (simp add: MAX_SNAKE_LEN_def)

end
