(* ===== verification/Snake.thy ===== *)
theory Snake
  imports Input Snake_Food
begin

text \<open>
  \<open>kernel/snake.c\<close>: the Snake game on the text screen. The local variables of \<open>snake_run\<close> are a
  record; the array \<open>body\<close> is a list with the head first, which the code shifts by one cell per move.
  Waiting for the next move takes events as in \<open>Input\<close>.
\<close>

datatype dir = DIR_UP | DIR_DOWN | DIR_LEFT | DIR_RIGHT

record snake =
  body :: "point list"
  food :: point
  direction :: dir
  score :: u32
  alive :: bool
  rng_state :: u32

definition TICKS_PER_STEP :: u32 where "TICKS_PER_STEP = 12"

definition VGA_BLACK :: u8 where "VGA_BLACK = 0"
definition VGA_DARK_GREY :: u8 where "VGA_DARK_GREY = 8"
definition VGA_LIGHT_GREEN :: u8 where "VGA_LIGHT_GREEN = 10"
definition VGA_YELLOW :: u8 where "VGA_YELLOW = 14"
definition VGA_WHITE :: u8 where "VGA_WHITE = 15"

definition VGA_COLOR :: "u8 \<Rightarrow> u8 \<Rightarrow> u8" where
  "VGA_COLOR fg bg = fg OR push_bit 4 bg"

section \<open>Drawing\<close>

text \<open>A sequence of calls of \<open>vga_put_at\<close>: row, column, character, attribute.\<close>

primrec put_cells :: "(int \<times> int \<times> u8 \<times> u8) list \<Rightarrow> 'a console_scheme \<Rightarrow> 'a console_scheme option" where
  "put_cells [] s = Some s"
| "put_cells (p # ps) s =
     (case p of (row, col, c, attr) \<Rightarrow> Option.bind (vga_put_at row col c attr s) (put_cells ps))"

text \<open>The characters of a text from a column on, as \<open>while (*msg) vga_put_at(0, col++, *msg++, attr)\<close>.\<close>

definition text_cells :: "int \<Rightarrow> int \<Rightarrow> u8 list \<Rightarrow> u8 \<Rightarrow> (int \<times> int \<times> u8 \<times> u8) list" where
  "text_cells row col cs attr = map (\<lambda>(i, c). (row, col + int i, c, attr)) (enumerate 0 cs)"

definition HASH :: u8 where "HASH = 0x23"
definition HEAD_CHAR :: u8 where "HEAD_CHAR = 0x40"
definition BODY_CHAR :: u8 where "BODY_CHAR = 0x6F"
definition FOOD_CHAR :: u8 where "FOOD_CHAR = 0x2A"

definition draw_border :: "'a console_scheme \<Rightarrow> 'a console_scheme option" where
  "draw_border = (let attr = VGA_COLOR VGA_DARK_GREY VGA_BLACK in put_cells
     (concat (map (\<lambda>c. [(FIELD_TOP - 1, c, HASH, attr), (FIELD_BOTTOM + 1, c, HASH, attr)]) [FIELD_LEFT - 1..FIELD_RIGHT + 1]) @
      concat (map (\<lambda>r. [(r, FIELD_LEFT - 1, HASH, attr), (r, FIELD_RIGHT + 1, HASH, attr)]) [FIELD_TOP - 1..FIELD_BOTTOM + 1])))"

definition draw_score :: "u32 \<Rightarrow> bool \<Rightarrow> 'a console_scheme \<Rightarrow> 'a console_scheme option" where
  "draw_score n is_alive =
     (let label = text_bytes (if is_alive then ''SNAKE -- score: '' else ''GAME OVER -- final score: '');
          digits = dec_bytes n; col = int (length label)
      in put_cells (text_cells 0 0 (replicate 80 SPACE) (VGA_COLOR VGA_WHITE VGA_BLACK) @
           text_cells 0 0 label (VGA_COLOR VGA_YELLOW VGA_BLACK) @
           text_cells 0 col digits (VGA_COLOR VGA_YELLOW VGA_BLACK) @
           (if is_alive then [] else text_cells 0 (col + int (length digits))
              (text_bytes ''  (press any key to return to shell)'') (VGA_COLOR VGA_WHITE VGA_BLACK))))"

section \<open>Steering\<close>

text \<open>One character: the direction requested next, and whether the game is to be left.\<close>

definition steer :: "dir \<Rightarrow> char \<Rightarrow> dir \<Rightarrow> bool \<Rightarrow> dir \<times> bool" where
  "steer current c requested quit =
     (if c = CHR ''w'' \<and> current \<noteq> DIR_DOWN then (DIR_UP, quit)
      else if c = CHR ''s'' \<and> current \<noteq> DIR_UP then (DIR_DOWN, quit)
      else if c = CHR ''a'' \<and> current \<noteq> DIR_RIGHT then (DIR_LEFT, quit)
      else if c = CHR ''d'' \<and> current \<noteq> DIR_LEFT then (DIR_RIGHT, quit)
      else if c = CHR ''q'' then (requested, True)
      else (requested, quit))"

text \<open>The wait between two moves.\<close>

partial_function (option) steer_wait ::
  "u32 \<Rightarrow> dir \<Rightarrow> dir \<Rightarrow> bool \<Rightarrow> event list \<Rightarrow> 'a console_scheme \<Rightarrow> ((dir \<times> bool) \<times> event list \<times> 'a console_scheme) option" where
  "steer_wait target current requested quit evs s =
     (if timer_ticks s < target then
        if keyboard_has_char s then do {
          (c, s) \<leftarrow> keyboard_getchar s;
          let (requested, quit) = steer current c requested quit;
          steer_wait target current requested quit evs s }
        else (case evs of [] \<Rightarrow> None | e # evs \<Rightarrow> steer_wait target current requested quit evs (happen e s))
      else Some ((requested, quit), evs, s))"

section \<open>Moving\<close>

fun next_cell :: "dir \<Rightarrow> point \<Rightarrow> point" where
  "next_cell DIR_UP (r, c) = (r - 1, c)"
| "next_cell DIR_DOWN (r, c) = (r + 1, c)"
| "next_cell DIR_LEFT (r, c) = (r, c - 1)"
| "next_cell DIR_RIGHT (r, c) = (r, c + 1)"

text \<open>The rest of the loop body, once the direction is set.\<close>

definition snake_step :: "snake \<Rightarrow> 'a console_scheme \<Rightarrow> (snake \<times> 'a console_scheme) option" where
  "snake_step g s =
     (let new_head = next_cell (direction g) (hd (body g)) in
      if fst new_head < FIELD_TOP \<or> fst new_head > FIELD_BOTTOM \<or>
         snd new_head < FIELD_LEFT \<or> snd new_head > FIELD_RIGHT then Some (g\<lparr>alive := False\<rparr>, s)
      else if new_head \<in> set (body g) then Some (g\<lparr>alive := False\<rparr>, s)
      else do {
        let ate = (new_head = food g);
        (g, s) \<leftarrow>
          (if ate \<and> length (body g) < MAX_SNAKE_LEN then do {
             let g = g\<lparr>body := new_head # body g, score := score g + 10\<rparr>;
             (p, rng) \<leftarrow> place_food (rng_state g) (body g);
             s \<leftarrow> vga_put_at (fst p) (snd p) FOOD_CHAR (VGA_COLOR VGA_YELLOW VGA_BLACK) s;
             Some (g\<lparr>food := p, rng_state := rng\<rparr>, s) }
           else do {
             let old_tail = last (body g);
             s \<leftarrow> vga_put_at (fst old_tail) (snd old_tail) SPACE (VGA_COLOR VGA_BLACK VGA_BLACK) s;
             Some (g\<lparr>body := new_head # butlast (body g)\<rparr>, s) });
        s \<leftarrow> vga_put_at (fst (hd (body g))) (snd (hd (body g))) HEAD_CHAR (VGA_COLOR VGA_LIGHT_GREEN VGA_BLACK) s;
        s \<leftarrow> (if 1 < length (body g)
              then vga_put_at (fst (body g ! 1)) (snd (body g ! 1)) BODY_CHAR (VGA_COLOR VGA_LIGHT_GREEN VGA_BLACK) s
              else Some s);
        s \<leftarrow> draw_score (score g) True s;
        Some (g, s) })"

partial_function (option) snake_loop ::
  "snake \<Rightarrow> event list \<Rightarrow> 'a console_scheme \<Rightarrow> (snake \<times> event list \<times> 'a console_scheme) option" where
  "snake_loop g evs s =
     (if alive g then do {
        ((requested, quit), evs, s) \<leftarrow>
          steer_wait (timer_ticks s + TICKS_PER_STEP) (direction g) (direction g) False evs s;
        if quit then Some (g, evs, s)
        else do { (g, s) \<leftarrow> snake_step (g\<lparr>direction := requested\<rparr>) s; snake_loop g evs s } }
      else Some (g, evs, s))"

section \<open>The game\<close>

definition start_body :: "point list" where
  "start_body = (let r = (FIELD_TOP + FIELD_BOTTOM) div 2; c = (FIELD_LEFT + FIELD_RIGHT) div 2
     in [(r, c), (r, c - 1), (r, c - 2)])"

definition snake_start :: "'a console_scheme \<Rightarrow> (snake \<times> 'a console_scheme) option" where
  "snake_start s = do {
     let rng = rng_seed (timer_ticks s * 2654435761 + 1);
     s \<leftarrow> vga_clear s;
     s \<leftarrow> draw_border s;
     s \<leftarrow> put_cells (map (\<lambda>(i, (r, c)). (r, c, if i = 0 then HEAD_CHAR else BODY_CHAR, VGA_COLOR VGA_LIGHT_GREEN VGA_BLACK))
            (enumerate 0 start_body)) s;
     (p, rng) \<leftarrow> place_food rng start_body;
     s \<leftarrow> vga_put_at (fst p) (snd p) FOOD_CHAR (VGA_COLOR VGA_YELLOW VGA_BLACK) s;
     s \<leftarrow> draw_score 0 True s;
     s \<leftarrow> write_str ''Controls: w a s d to move, q to quit.'' (vga_set_cursor_pos 24 0 s);
     Some (\<lparr>body = start_body, food = p, direction = DIR_RIGHT, score = 0, alive = True, rng_state = rng\<rparr>, s) }"

definition snake_run :: "event list \<Rightarrow> 'a console_scheme \<Rightarrow> (event list \<times> 'a console_scheme) option" where
  "snake_run evs s = do {
     s \<leftarrow> drain_input s;
     (g, s) \<leftarrow> snake_start s;
     (g, evs, s) \<leftarrow> snake_loop g evs s;
     s \<leftarrow> draw_score (score g) False s;
     s \<leftarrow> drain_input (vga_set_cursor_pos 24 0 s);
     (c, evs, s) \<leftarrow> wait_char evs s;
     s \<leftarrow> vga_clear s;
     Some (evs, s) }"

section \<open>Drawing stays on the screen\<close>

text \<open>What drawing changes: characters on the VGA screen, or pixels; no task's buffer and no cursor.\<close>

definition drawn :: "'a console_scheme \<Rightarrow> 'a console_scheme \<Rightarrow> bool" where
  "drawn s s' \<longleftrightarrow> (\<exists>m b. s' = s\<lparr>vga_memory := m, screen_fb := b\<rparr> \<and> length m = length (vga_memory s))"

lemma drawn_refl: "drawn s s"
  unfolding drawn_def by (intro exI [of _ "vga_memory s"] exI [of _ "screen_fb s"]) simp

lemma drawn_trans: "drawn s t \<Longrightarrow> drawn t u \<Longrightarrow> drawn s u"
  unfolding drawn_def by (elim exE conjE) (simp, blast)

lemma drawn_fields:
  assumes "drawn s s'"
  shows "length (vga_memory s') = length (vga_memory s)" "console_ok s' = console_ok s" "cells s' = cells s"
    "but_screen s' = but_screen s" "tick s' = tick s" "input_view s' = input_view s"
proof -
  obtain m b where s': "s' = s\<lparr>vga_memory := m, screen_fb := b\<rparr>" "length m = length (vga_memory s)"
    using assms by (auto simp: drawn_def)
  show "length (vga_memory s') = length (vga_memory s)" "cells s' = cells s" "but_screen s' = but_screen s" "tick s' = tick s"
    "input_view s' = input_view s"
    using s' by (simp_all add: input_view_def)
  show "console_ok s' = console_ok s"
    unfolding s'(1) console_ok_def using s'(2)
    by (simp add: grid_ok_def task_current_vga_buf_def task_current_vga_cols_def task_current_vga_rows_def redirect_cursor_def)
qed

lemma drawn_pixels: "drawn s (s\<lparr>screen_fb := b\<rparr>)"
  unfolding drawn_def by (intro exI [of _ "vga_memory s"] exI [of _ b]) simp

lemma drawn_memory: "length m = length (vga_memory s) \<Longrightarrow> drawn s (s\<lparr>vga_memory := m\<rparr>)"
  unfolding drawn_def by (intro exI [of _ m] exI [of _ "screen_fb s"]) simp

lemma put_at_drawn:
  assumes "length (vga_memory s) = 2000"
  shows "\<exists>s'. vga_put_at row col c attr s = Some s' \<and> drawn s s'"
proof (cases "row < 0 \<or> VGA_HEIGHT \<le> row \<or> col < 0 \<or> VGA_WIDTH \<le> col")
  case True
  then have "vga_put_at row col c attr s = Some s" by (auto simp: vga_put_at_def)
  then show ?thesis using drawn_refl by blast
next
  case False
  show ?thesis
  proof (cases "gui_is_active s")
    case True
    with False show ?thesis by (simp add: vga_put_at_def drawn_pixels)
  next
    case chars: False
    have "0 \<le> row * VGA_WIDTH + col" "row * VGA_WIDTH + col < 2000"
      using grid_index [of row VGA_HEIGHT col VGA_WIDTH] False by (simp_all add: VGA_WIDTH_def VGA_HEIGHT_def)
    then have "poke (row * VGA_WIDTH + col) (vga_entry c attr) (vga_memory s) =
        Some ((vga_memory s)[nat (row * VGA_WIDTH + col) := vga_entry c attr])"
      using assms by (simp add: poke_def)
    then show ?thesis
      using False chars by (simp add: vga_put_at_def drawn_memory)
  qed
qed

lemma put_cells_drawn:
  "length (vga_memory s) = 2000 \<Longrightarrow> \<exists>s'. put_cells ps s = Some s' \<and> drawn s s'"
proof (induction ps arbitrary: s)
  case Nil
  show ?case using drawn_refl by simp
next
  case (Cons p ps)
  obtain row col c attr where p: "p = (row, col, c, attr)" by (metis prod_cases4)
  obtain s1 where s1: "vga_put_at row col c attr s = Some s1" "drawn s s1"
    using put_at_drawn [OF Cons.prems] by blast
  moreover obtain s2 where "put_cells ps s1 = Some s2" "drawn s1 s2"
    using Cons.IH [of s1] drawn_fields(1) [OF s1(2)] Cons.prems by auto
  ultimately show ?case using p drawn_trans by auto
qed

lemma draw_score_drawn: "length (vga_memory s) = 2000 \<Longrightarrow> \<exists>s'. draw_score n b s = Some s' \<and> drawn s s'"
  unfolding draw_score_def Let_def by (rule put_cells_drawn)

lemma put_at_again:
  assumes "length (vga_memory s) = 2000" "drawn s t"
  obtains t' where "vga_put_at row col c attr t = Some t'" "drawn s t'"
proof -
  have "length (vga_memory t) = 2000" using drawn_fields(1) [OF assms(2)] assms(1) by simp
  then obtain t' where "vga_put_at row col c attr t = Some t'" "drawn t t'" using put_at_drawn by blast
  with that drawn_trans [OF assms(2)] show thesis by blast
qed

lemma draw_score_again:
  assumes "length (vga_memory s) = 2000" "drawn s t"
  obtains t' where "draw_score n b t = Some t'" "drawn s t'"
proof -
  have "length (vga_memory t) = 2000" using drawn_fields(1) [OF assms(2)] assms(1) by simp
  then obtain t' where "draw_score n b t = Some t'" "drawn t t'" using draw_score_drawn by blast
  with that drawn_trans [OF assms(2)] show thesis by blast
qed

section \<open>The snake\<close>

text \<open>Cells next to each other, as the parts of a snake are.\<close>

definition adjacent :: "point \<Rightarrow> point \<Rightarrow> bool" where
  "adjacent p q \<longleftrightarrow> \<bar>fst p - fst q\<bar> + \<bar>snd p - snd q\<bar> = 1"

definition snake_inv :: "snake \<Rightarrow> bool" where
  "snake_inv g \<longleftrightarrow> distinct (body g) \<and> (\<forall>p\<in>set (body g). in_field p) \<and> successively adjacent (body g) \<and>
     3 \<le> length (body g) \<and> length (body g) \<le> MAX_SNAKE_LEN \<and>
     in_field (food g) \<and> (food g \<notin> set (body g) \<or> length (body g) = MAX_SNAKE_LEN) \<and>
     score g = of_nat (10 * (length (body g) - 3))"

lemma adjacent_next: "adjacent (next_cell d p) p"
  by (cases d; cases p) (auto simp: adjacent_def)

lemma in_field_iff:
  "\<not> (fst p < FIELD_TOP \<or> fst p > FIELD_BOTTOM \<or> snd p < FIELD_LEFT \<or> snd p > FIELD_RIGHT) \<longleftrightarrow> in_field p"
  by (auto simp: in_field_def)

lemma successively_butlast: "successively P xs \<Longrightarrow> successively P (butlast xs)"
  by (induction xs rule: induct_list012) (auto simp: successively_Cons)

text \<open>A move: the snake dies exactly when its head would leave the field or meet its body; otherwise the
  head goes one cell on, and the tail follows unless food was eaten.\<close>

definition moves_to :: "snake \<Rightarrow> snake \<Rightarrow> bool" where
  "moves_to g g' \<longleftrightarrow>
     (let p = next_cell (direction g) (hd (body g)) in
      if in_field p \<and> p \<notin> set (body g) then alive g' \<and>
        (if p = food g \<and> length (body g) < MAX_SNAKE_LEN
         then body g' = p # body g \<and> score g' = score g + 10
         else body g' = p # butlast (body g) \<and> score g' = score g \<and> food g' = food g)
      else g' = g\<lparr>alive := False\<rparr>)"

text \<open>C27: a move of Snake. From a state with the snake inside the field, its cells distinct and next to
  each other, 3 to 400 long, the food beside it and the score ten times the cells eaten, every move
  returns (placing new food included) and keeps all that; the snake dies exactly when its head would
  leave the field or meet its body, otherwise the head goes one cell on and the tail follows unless
  food was eaten; only the game's screen is drawn on.\<close>

theorem snake_step_spec:
  assumes inv: "snake_inv g" and alive: "alive g" and len: "length (vga_memory s) = 2000"
  shows "\<exists>g' s'. snake_step g s = Some (g', s') \<and> snake_inv g' \<and> moves_to g g' \<and> drawn s s'"
proof -
  let ?p = "next_cell (direction g) (hd (body g))"
  have body: "body g \<noteq> []" "distinct (body g)" "\<forall>p\<in>set (body g). in_field p" "successively adjacent (body g)"
    "3 \<le> length (body g)" "length (body g) \<le> 400" "in_field (food g)"
    "score g = of_nat (10 * (length (body g) - 3))" "food g \<notin> set (body g) \<or> length (body g) = 400"
    using inv by (auto simp: snake_inv_def MAX_SNAKE_LEN_def)
  show ?thesis
  proof (cases "in_field ?p \<and> ?p \<notin> set (body g)")
    case False
    then have "snake_step g s = Some (g\<lparr>alive := False\<rparr>, s)"
      using in_field_iff [of ?p] by (auto simp: snake_step_def Let_def)
    moreover have "snake_inv (g\<lparr>alive := False\<rparr>)" using inv by (simp add: snake_inv_def)
    ultimately show ?thesis using False drawn_refl by (auto simp: moves_to_def Let_def)
  next
    case True
    have adj: "successively adjacent (?p # body g)"
      using body(1,4) adjacent_next by (cases "body g") auto
    show ?thesis
    proof (cases "?p = food g \<and> length (body g) < MAX_SNAKE_LEN")
      case ate: True
      let ?b = "?p # body g"
      obtain q rng where q: "place_food (rng_state g) ?b = Some (q, rng)" "in_field q" "q \<notin> set ?b"
        using place_food_returns [of ?b "rng_state g"] ate by (metis Suc_leI length_Cons prod.collapse)
      obtain s1 where s1: "vga_put_at (fst q) (snd q) FOOD_CHAR (VGA_COLOR VGA_YELLOW VGA_BLACK) s = Some s1" "drawn s s1"
        by (rule put_at_again [OF len drawn_refl])
      obtain s2 where s2: "vga_put_at (fst ?p) (snd ?p) HEAD_CHAR (VGA_COLOR VGA_LIGHT_GREEN VGA_BLACK) s1 = Some s2" "drawn s s2"
        by (rule put_at_again [OF len s1(2)])
      obtain s3 where s3: "vga_put_at (fst (?b ! 1)) (snd (?b ! 1)) BODY_CHAR (VGA_COLOR VGA_LIGHT_GREEN VGA_BLACK) s2 = Some s3" "drawn s s3"
        by (rule put_at_again [OF len s2(2)])
      obtain s4 where s4: "draw_score (score g + 10) True s3 = Some s4" "drawn s s4"
        by (rule draw_score_again [OF len s3(2)])
      let ?g = "g\<lparr>body := ?b, score := score g + 10, food := q, rng_state := rng\<rparr>"
      have "snake_step g s = Some (?g, s4)"
        unfolding snake_step_def Let_def using True in_field_iff [of ?p] ate q(1) s1(1) s2(1) s3(1) s4(1) body(1) by auto
      moreover have "of_nat (10 * (length ?b - 3)) = (score g + 10 :: u32)"
        using body(5,8) by (simp add: Suc_diff_le algebra_simps)
      then have "snake_inv ?g"
        using True body adj ate q by (auto simp: snake_inv_def)
      moreover have "moves_to g ?g" using True ate alive by (simp add: moves_to_def Let_def)
      ultimately show ?thesis using s4(2) by blast
    next
      case no: False
      let ?b = "?p # butlast (body g)"
      let ?t = "last (body g)"
      obtain s1 where s1: "vga_put_at (fst ?t) (snd ?t) SPACE (VGA_COLOR VGA_BLACK VGA_BLACK) s = Some s1" "drawn s s1"
        by (rule put_at_again [OF len drawn_refl])
      obtain s2 where s2: "vga_put_at (fst ?p) (snd ?p) HEAD_CHAR (VGA_COLOR VGA_LIGHT_GREEN VGA_BLACK) s1 = Some s2" "drawn s s2"
        by (rule put_at_again [OF len s1(2)])
      obtain s3 where s3: "vga_put_at (fst (?b ! 1)) (snd (?b ! 1)) BODY_CHAR (VGA_COLOR VGA_LIGHT_GREEN VGA_BLACK) s2 = Some s3" "drawn s s3"
        by (rule put_at_again [OF len s2(2)])
      obtain s4 where s4: "draw_score (score g) True s3 = Some s4" "drawn s s4"
        by (rule draw_score_again [OF len s3(2)])
      let ?g = "g\<lparr>body := ?b\<rparr>"
      have lb: "length ?b = length (body g)" using body(1) by simp
      then have "1 < length ?b" using body(5) by simp
      then have "snake_step g s = Some (?g, s4)"
        unfolding snake_step_def Let_def using True in_field_iff [of ?p] no s1(1) s2(1) s3(1) s4(1) by auto
      moreover have "successively adjacent ?b"
        using successively_butlast [OF adj] body(1) by simp
      moreover have "food g \<notin> set ?b \<or> length (body g) = MAX_SNAKE_LEN"
        using body(6,9) no by (auto simp: MAX_SNAKE_LEN_def dest: in_set_butlastD)
      ultimately have step: "snake_step g s = Some (?g, s4)" and "snake_inv ?g"
        using True body inv lb by (auto simp: snake_inv_def distinct_butlast dest: in_set_butlastD)
      moreover have "moves_to g ?g" using True no alive by (simp add: moves_to_def Let_def)
      ultimately show ?thesis using s4(2) by blast
    qed
  qed
qed

definition demo_snake :: snake where
  "demo_snake = \<lparr>body = start_body, food = (12, 40), direction = DIR_RIGHT, score = 0, alive = True, rng_state = 1\<rparr>"

lemma demo_snake_inv: "snake_inv demo_snake"
  by (simp add: snake_inv_def demo_snake_def start_body_def in_field_def field_bounds adjacent_def MAX_SNAKE_LEN_def Let_def)

lemma snake_step_spec_witness:
  "\<exists>g' s'. snake_step demo_snake terminal = Some (g', s') \<and> snake_inv g' \<and> moves_to demo_snake g' \<and> drawn terminal s'"
  by (rule snake_step_spec [OF demo_snake_inv]) (simp_all add: demo_snake_def terminal_def kbd.defs)

text \<open>A key never turns the snake around.\<close>

fun opposite :: "dir \<Rightarrow> dir" where
  "opposite DIR_UP = DIR_DOWN" | "opposite DIR_DOWN = DIR_UP"
| "opposite DIR_LEFT = DIR_RIGHT" | "opposite DIR_RIGHT = DIR_LEFT"

lemma steer_no_reversal:
  "requested \<noteq> opposite current \<Longrightarrow> fst (steer current c requested quit) \<noteq> opposite current"
  by (cases current) (auto simp: steer_def)

section \<open>Starting the game\<close>

lemma console_ok_cursor:
  assumes "console_ok s" "task_current_vga_buf s = 0" "0 \<le> row" "row < VGA_HEIGHT" "0 \<le> col" "col < VGA_WIDTH"
  shows "console_ok (vga_set_cursor_pos row col s)" "task_current_vga_buf (vga_set_cursor_pos row col s) = 0"
  using assms
  by (auto simp: console_ok_def vga_set_cursor_pos_def task_current_vga_buf_def grid_ok_def VGA_WIDTH_def VGA_HEIGHT_def
      REAL_FB_COLS_def REAL_FB_ROWS_def)

lemma vga_clear_real:
  assumes "console_ok s" "task_current_vga_buf s = 0"
  shows "\<exists>s'. vga_clear s = Some s' \<and> console_ok s' \<and> task_current_vga_buf s' = 0"
  using assms
  by (auto simp: vga_clear_def console_ok_def gui_is_active_def fill_cells_def blank_real_screen_def grid_ok_def
      task_current_vga_buf_def VGA_WIDTH_def VGA_HEIGHT_def REAL_FB_COLS_def REAL_FB_ROWS_def)

lemma drawn_buf: "drawn s s' \<Longrightarrow> task_current_vga_buf s' = task_current_vga_buf s"
  by (auto simp: drawn_def task_current_vga_buf_def)

lemma write_str_ok:
  "console_ok s \<Longrightarrow> \<exists>s'. write_str cs s = Some s' \<and> console_ok s'"
  using vga_write_ok [of s "text_bytes cs"] by (simp add: write_str_def)

text \<open>On the real screen the game starts with its invariant.\<close>

lemma snake_start_spec:
  assumes "console_ok s" "task_current_vga_buf s = 0"
  shows "\<exists>g s'. snake_start s = Some (g, s') \<and> snake_inv g \<and> alive g \<and> console_ok s'"
proof -
  obtain s1 where s1: "vga_clear s = Some s1" "console_ok s1" "task_current_vga_buf s1 = 0"
    using vga_clear_real [OF assms] by blast
  have len: "length (vga_memory s1) = 2000" using s1(2) by (simp add: console_ok_def)
  obtain s2 where s2: "draw_border s1 = Some s2" "drawn s1 s2"
    using put_cells_drawn [OF len] unfolding draw_border_def Let_def by blast
  let ?ps = "map (\<lambda>(i, (r, c)). (r, c, if i = 0 then HEAD_CHAR else BODY_CHAR, VGA_COLOR VGA_LIGHT_GREEN VGA_BLACK)) (enumerate 0 start_body)"
  obtain s3 where s3: "put_cells ?ps s2 = Some s3" "drawn s2 s3"
    using put_cells_drawn [of s2 ?ps] drawn_fields(1) [OF s2(2)] len by auto
  obtain q rng where q: "place_food (rng_seed (timer_ticks s * 2654435761 + 1)) start_body = Some (q, rng)"
    "in_field q" "q \<notin> set start_body"
  proof -
    have "length start_body \<le> MAX_SNAKE_LEN" by (simp add: start_body_def MAX_SNAKE_LEN_def Let_def)
    from place_food_returns [OF this] that show ?thesis by (metis prod.collapse)
  qed
  have d3: "drawn s1 s3" using s2(2) s3(2) by (rule drawn_trans)
  obtain s4 where s4: "vga_put_at (fst q) (snd q) FOOD_CHAR (VGA_COLOR VGA_YELLOW VGA_BLACK) s3 = Some s4" "drawn s1 s4"
    by (rule put_at_again [OF len d3])
  obtain s5 where s5: "draw_score 0 True s4 = Some s5" "drawn s1 s5"
    by (rule draw_score_again [OF len s4(2)])
  have "console_ok s5" "task_current_vga_buf s5 = 0"
    using drawn_fields(2) [OF s5(2)] drawn_buf [OF s5(2)] s1 by simp_all
  then have "console_ok (vga_set_cursor_pos 24 0 s5)"
    using console_ok_cursor [of s5 24 0] by (simp add: VGA_WIDTH_def VGA_HEIGHT_def)
  then obtain s6 where s6: "write_str ''Controls: w a s d to move, q to quit.'' (vga_set_cursor_pos 24 0 s5) = Some s6" "console_ok s6"
    using write_str_ok by blast
  let ?g = "\<lparr>body = start_body, food = q, direction = DIR_RIGHT, score = 0, alive = True, rng_state = rng\<rparr>"
  have "snake_start s = Some (?g, s6)"
    using s1(1) s2(1) s3(1) q(1) s4(1) s5(1) s6(1) by (simp add: snake_start_def)
  moreover have "snake_inv ?g"
    using q demo_snake_inv by (auto simp: snake_inv_def demo_snake_def)
  ultimately show ?thesis using s6(2) by auto
qed

text \<open>In a terminal of the desktop, whose 20 rows end above row 24, the first character of the text of
  the controls is written behind the terminal's buffer.\<close>

definition is_terminal :: "'a console_scheme \<Rightarrow> bool" where
  "is_terminal s \<longleftrightarrow> task_current_vga_buf s \<noteq> 0 \<and> task_current_vga_cols s = 60 \<and> task_current_vga_rows s = 20 \<and>
     length (cells s (task_current_vga_buf s)) = 1200"

lemma put_at_terminal: "vga_put_at row col c attr s = Some s' \<Longrightarrow> is_terminal s' = is_terminal s"
  by (auto simp: vga_put_at_def is_terminal_def task_current_vga_buf_def task_current_vga_cols_def
      task_current_vga_rows_def split: if_splits)

lemma put_cells_terminal: "put_cells ps s = Some s' \<Longrightarrow> is_terminal s' = is_terminal s"
  by (induction ps arbitrary: s) (auto split: prod.splits bind_splits dest: put_at_terminal)

lemma clear_terminal: "is_terminal s \<Longrightarrow> vga_clear s = Some s' \<Longrightarrow> is_terminal s'"
  by (auto simp: vga_clear_def is_terminal_def fill_cells_def Let_def)

lemma write_below_terminal:
  "is_terminal s \<Longrightarrow> c \<noteq> NEWLINE \<Longrightarrow> c \<noteq> BACKSPACE \<Longrightarrow> vga_write (c # cs) (vga_set_cursor_pos 24 0 s) = None"
  by (simp add: is_terminal_def vga_putc_def vga_set_cursor_pos_def redirect_putc_def Let_def cell_step_def poke_def)

lemma controls_below_terminal:
  assumes "is_terminal s"
  shows "write_str ''Controls: w a s d to move, q to quit.'' (vga_set_cursor_pos 24 0 s) = None"
proof -
  have "text_bytes ''Controls: w a s d to move, q to quit.'' =
      of_char (CHR ''C'') # text_bytes ''ontrols: w a s d to move, q to quit.''"
    by (simp only: text_bytes_def list.map)
  moreover have "of_char (CHR ''C'') \<noteq> NEWLINE" "of_char (CHR ''C'') \<noteq> BACKSPACE"
    by (simp_all add: NEWLINE_def BACKSPACE_def)
  ultimately show ?thesis
    using write_below_terminal [OF assms] by (simp only: write_str_def)
qed

lemma snake_start_terminal:
  assumes "is_terminal s"
  shows "snake_start s = None"
proof (rule ccontr)
  let ?ps = "map (\<lambda>(i, (r, c)). (r, c, if i = 0 then HEAD_CHAR else BODY_CHAR, VGA_COLOR VGA_LIGHT_GREEN VGA_BLACK)) (enumerate 0 start_body)"
  assume n: "snake_start s \<noteq> None"
  obtain s1 where s1: "vga_clear s = Some s1" using n by (cases "vga_clear s") (simp_all add: snake_start_def)
  obtain s2 where s2: "draw_border s1 = Some s2" using n s1 by (cases "draw_border s1") (simp_all add: snake_start_def)
  obtain s3 where s3: "put_cells ?ps s2 = Some s3" using n s1 s2 by (cases "put_cells ?ps s2") (simp_all add: snake_start_def)
  obtain p rng where p: "place_food (rng_seed (timer_ticks s * 2654435761 + 1)) start_body = Some (p, rng)"
    using n s1 s2 s3 by (cases "place_food (rng_seed (timer_ticks s * 2654435761 + 1)) start_body") (auto simp: snake_start_def)
  obtain s4 where s4: "vga_put_at (fst p) (snd p) FOOD_CHAR (VGA_COLOR VGA_YELLOW VGA_BLACK) s3 = Some s4"
    using n s1 s2 s3 p by (cases "vga_put_at (fst p) (snd p) FOOD_CHAR (VGA_COLOR VGA_YELLOW VGA_BLACK) s3") (simp_all add: snake_start_def)
  obtain s5 where s5: "draw_score 0 True s4 = Some s5"
    using n s1 s2 s3 p s4 by (cases "draw_score 0 True s4") (simp_all add: snake_start_def)
  have "is_terminal s1" using clear_terminal [OF assms s1] .
  then have "is_terminal s2" using put_cells_terminal s2 unfolding draw_border_def Let_def by blast
  then have "is_terminal s4" using put_cells_terminal [OF s3] put_at_terminal [OF s4] by simp
  then have "is_terminal s5" using put_cells_terminal s5 unfolding draw_score_def Let_def by blast
  then show False
    using n s1 s2 s3 p s4 s5 controls_below_terminal [of s5] by (simp add: snake_start_def)
qed

end
