(* ===== verification/Machine.thy ===== *)
theory Machine
  imports Devices Input Fat16 Mouse
begin

text \<open>
  The state of the whole kernel: the record of \<open>Devices\<close>, which extends the frame allocator, the page
  tables, the heap, the tasks, the timer, the keyboard and the console in turn, with the file system
  and the mouse. Each driver has the state of its own device. The operations of the file system work
  on their part; the buffers they fill are lists of bytes.
\<close>

record ('g, 'f, 'm) machine = "'g gui" +
  the_fs :: "'f fs"
  the_mouse :: "'m mouse"

text \<open>What the kernel is given from outside: the ports of the devices and the addresses of the assembly
  labels that new tasks start at.\<close>

record ('g, 'f, 'm) env =
  gui_ports :: "'g wide_ports"
  disk_ports :: "'f ports"
  ps2_ports :: "'m ports"
  trampoline_addr :: addr
  return_tail_addr :: addr

definition find_file :: "'f ports \<Rightarrow> char list \<Rightarrow> ('g, 'f, 'm, 'x) machine_scheme
    \<Rightarrow> fat16_file option \<times> ('g, 'f, 'm, 'x) machine_scheme" where
  "find_file P filename s = (let (r, t) = fat16_find_file P (text_bytes filename) (the_fs s) in (r, s\<lparr>the_fs := t\<rparr>))"

definition read_file :: "'f ports \<Rightarrow> fat16_file \<Rightarrow> u32 \<Rightarrow> ('g, 'f, 'm, 'x) machine_scheme
    \<Rightarrow> (u8 list option \<times> ('g, 'f, 'm, 'x) machine_scheme) option" where
  "read_file P file buffer_size s =
     map_option (\<lambda>(r, t). (r, s\<lparr>the_fs := t\<rparr>)) (fat16_read_file P file buffer_size (the_fs s))"

definition write_file :: "'f ports \<Rightarrow> char list \<Rightarrow> u8 list \<Rightarrow> ('g, 'f, 'm, 'x) machine_scheme
    \<Rightarrow> (bool \<times> ('g, 'f, 'm, 'x) machine_scheme) option" where
  "write_file P filename data s =
     map_option (\<lambda>(r, t). (r, s\<lparr>the_fs := t\<rparr>)) (fat16_write_file P (text_bytes filename) data (the_fs s))"

definition delete_file :: "'f ports \<Rightarrow> char list \<Rightarrow> ('g, 'f, 'm, 'x) machine_scheme
    \<Rightarrow> (bool \<times> ('g, 'f, 'm, 'x) machine_scheme) option" where
  "delete_file P filename s =
     map_option (\<lambda>(r, t). (r, s\<lparr>the_fs := t\<rparr>)) (fat16_delete_file P (text_bytes filename) (the_fs s))"

definition list_root :: "'f ports \<Rightarrow> ('g, 'f, 'm, 'x) machine_scheme
    \<Rightarrow> (u8 list \<times> u32) list \<times> ('g, 'f, 'm, 'x) machine_scheme" where
  "list_root P s = (let (r, t) = fat16_list_root P (the_fs s) in (r, s\<lparr>the_fs := t\<rparr>))"

text \<open>A buffer of the heap after the given bytes have been stored at its start.\<close>

definition overwrite :: "u8 list \<Rightarrow> u8 list \<Rightarrow> u8 list" where
  "overwrite bytes buf = bytes @ drop (length bytes) buf"

section \<open>An example state\<close>

definition demo_machine :: "(unit, drive, unit) machine" where
  "demo_machine = gui.extend (console.extend terminal (gui.fields () 0 0)) (machine.fields demo_fs demo_mouse)"

lemmas demo_machine_defs = demo_machine_def gui.defs console.defs machine.defs

lemma demo_machine_view:
  "screen_view demo_machine = screen_view terminal" "input_view demo_machine = input_view terminal"
  "console_ok demo_machine = console_ok terminal" "the_fs demo_machine = demo_fs"
  by (simp_all add: screen_view_def input_view_def demo_machine_defs console_ok_def task_current_vga_buf_def
      task_current_vga_cols_def task_current_vga_rows_def redirect_cursor_def Let_def)

lemma demo_machine_ok: "console_ok demo_machine" "input_ok demo_machine"
proof -
  show "console_ok demo_machine" by (simp add: demo_machine_view terminal_ok)
  show "input_ok demo_machine"
    by (simp add: input_ok_def kb_inv_def ring_wf_def task_current_uses_input_redirect_def demo_machine_defs
        terminal_def sched.defs boot_sched_def timed.defs kbd.defs blank_task_def)
qed

lemma demo_machine_pending: "pending evs demo_machine = typed False (scancodes evs)"
  by (simp add: pending_def kb_contents_def ring_contents_def task_current_uses_input_redirect_def demo_machine_defs
      terminal_def sched.defs boot_sched_def timed.defs kbd.defs blank_task_def)

end
