(* ===== verification/Editor.thy ===== *)
theory Editor
  imports Machine
begin

text \<open>
  \<open>kernel/editor.c\<close>: the line editor. Its buffer is an array of 4096 bytes of the heap, whose first
  contents (\<open>junk\<close>) are whatever the heap holds there. \<open>None\<close> is a task that waits for input, an
  operation that does not end, or an access outside of an array.
\<close>

definition EDITOR_BUF_SIZE :: nat where "EDITOR_BUF_SIZE = 4096"
definition LINE_MAX :: nat where "LINE_MAX = 128"

text \<open>Storing bytes at the end of the text, and showing the text.\<close>

primrec append_bytes :: "u8 list \<Rightarrow> nat \<Rightarrow> u8 list \<Rightarrow> (u8 list \<times> nat) option" where
  "append_bytes [] len buf = Some (buf, len)"
| "append_bytes (c # cs) len buf = Option.bind (poke (int len) c buf) (append_bytes cs (len + 1))"

definition show_text :: "u8 list \<Rightarrow> nat \<Rightarrow> 'a console_scheme \<Rightarrow> 'a console_scheme option" where
  "show_text buf len s = (if len \<le> length buf then vga_write (take len buf) s else None)"

definition editor_load :: "'f ports \<Rightarrow> char list \<Rightarrow> u8 list \<Rightarrow> ('g, 'f, 'm, 'x) machine_scheme
    \<Rightarrow> (u8 list \<times> nat \<times> ('g, 'f, 'm, 'x) machine_scheme) option" where
  "editor_load P filename buf s =
     (case find_file P filename s of
        (Some f, s) \<Rightarrow> do {
          let to_read = file_size f;
          let to_read = (if of_nat (EDITOR_BUF_SIZE - 1) < to_read then of_nat (EDITOR_BUF_SIZE - 1) else to_read);
          (bytes, s) \<leftarrow> read_file P f to_read s;
          case bytes of
            Some bytes \<Rightarrow> do {
              let buf = overwrite bytes buf;
              s \<leftarrow> write_str ''Loaded existing file ('' s;
              s \<leftarrow> vga_write (dec_bytes (file_size f)) s;
              s \<leftarrow> write_str ('' bytes):'' @ [CHR 0x0A] @ ''---'' @ [CHR 0x0A]) s;
              s \<leftarrow> show_text buf (unat to_read) s;
              s \<leftarrow> write_str ([CHR 0x0A] @ ''---'' @ [CHR 0x0A]) s;
              Some (buf, unat to_read, s) }
          | None \<Rightarrow> Some (buf, 0, s) }
      | (None, s) \<Rightarrow> do { s \<leftarrow> write_str (''New file.'' @ [CHR 0x0A]) s; Some (buf, 0, s) })"

definition editor_help :: "char list \<Rightarrow> 'a console_scheme \<Rightarrow> 'a console_scheme option" where
  "editor_help filename s = do {
     s \<leftarrow> write_str (''Editing '' @ [CHR 0x27]) s;
     s \<leftarrow> write_str filename s;
     s \<leftarrow> write_str ([CHR 0x27] @ ''.'' @ [CHR 0x0A]) s;
     s \<leftarrow> write_str (''Type text; each Enter adds a line. Commands:'' @ [CHR 0x0A]) s;
     s \<leftarrow> write_str (''  .save   write to disk and exit'' @ [CHR 0x0A]) s;
     s \<leftarrow> write_str (''  .quit   discard changes and exit'' @ [CHR 0x0A]) s;
     s \<leftarrow> write_str (''  .list   show current buffer'' @ [CHR 0x0A]) s;
     write_str (''  .clear  erase the buffer (start over)'' @ [CHR 0x0A, CHR 0x0A]) s }"

definition editor_save :: "'f ports \<Rightarrow> addr \<Rightarrow> char list \<Rightarrow> u8 list \<Rightarrow> ('g, 'f, 'm, 'x) machine_scheme
    \<Rightarrow> ('g, 'f, 'm, 'x) machine_scheme option" where
  "editor_save P a filename data s = do {
     (ok, s) \<leftarrow> write_file P filename data s;
     s \<leftarrow> write_str ((if ok then ''Saved.'' else ''Save FAILED.'') @ [CHR 0x0A]) s;
     kfree a s }"

definition editor_quit :: "addr \<Rightarrow> 'a console_scheme \<Rightarrow> 'a console_scheme option" where
  "editor_quit a s = do { s \<leftarrow> write_str (''Discarded.'' @ [CHR 0x0A]) s; kfree a s }"

partial_function (option) editor_loop :: "'f ports \<Rightarrow> addr \<Rightarrow> char list \<Rightarrow> u8 list \<Rightarrow> nat \<Rightarrow> event list
    \<Rightarrow> ('g, 'f, 'm, 'x) machine_scheme \<Rightarrow> (event list \<times> ('g, 'f, 'm, 'x) machine_scheme) option" where
  "editor_loop P a filename buf len evs s = do {
     (line, evs, s) \<leftarrow> read_line LINE_MAX [] evs s;
     if str_eq line ''.save'' then do { s \<leftarrow> editor_save P a filename (take len buf) s; Some (evs, s) }
     else if str_eq line ''.quit'' then do { s \<leftarrow> editor_quit a s; Some (evs, s) }
     else if str_eq line ''.list'' then do {
       s \<leftarrow> write_str (''---'' @ [CHR 0x0A]) s;
       s \<leftarrow> show_text buf len s;
       s \<leftarrow> write_str (''---'' @ [CHR 0x0A]) s;
       editor_loop P a filename buf len evs s }
     else if str_eq line ''.clear'' then do {
       s \<leftarrow> write_str (''Buffer cleared.'' @ [CHR 0x0A]) s;
       editor_loop P a filename buf 0 evs s }
     else if EDITOR_BUF_SIZE \<le> len + length line + 1 then do {
       s \<leftarrow> write_str (''Buffer full -- can'' @ [CHR 0x27] @ ''t add more (try .save).'' @ [CHR 0x0A]) s;
       editor_loop P a filename buf len evs s }
     else do {
       (buf, len) \<leftarrow> append_bytes (text_bytes line @ [10]) len buf;
       editor_loop P a filename buf len evs s } }"

definition editor_run :: "'f ports \<Rightarrow> char list \<Rightarrow> u8 list \<Rightarrow> event list
    \<Rightarrow> ('g, 'f, 'm, 'x) machine_scheme \<Rightarrow> (event list \<times> ('g, 'f, 'm, 'x) machine_scheme) option" where
  "editor_run P filename junk evs s = do {
     (a, s) \<leftarrow> kmalloc (of_nat EDITOR_BUF_SIZE) s;
     (buf, len, s) \<leftarrow> editor_load P filename junk s;
     s \<leftarrow> editor_help filename s;
     editor_loop P a filename buf len evs s }"

section \<open>What a session does\<close>

text \<open>The effect of a line on the text, and of the typed characters up to a \<open>.save\<close> or \<open>.quit\<close>: whether
  the text is saved, the text, and the characters after it.\<close>

definition edit_line :: "char list \<Rightarrow> u8 list \<Rightarrow> u8 list" where
  "edit_line line content =
     (if line = ''.list'' then content
      else if line = ''.clear'' then []
      else if 4096 \<le> length content + length line + 1 then content
      else content @ text_bytes line @ [10])"

function session :: "u8 list \<Rightarrow> char list \<Rightarrow> (bool \<times> u8 list \<times> char list) option" where
  "session content input =
     (case line_of LINE_MAX [] input of
        None \<Rightarrow> None
      | Some (line, rest) \<Rightarrow>
          if line = ''.save'' then Some (True, content, rest)
          else if line = ''.quit'' then Some (False, content, rest)
          else session (edit_line line content) rest)"
  by pat_completeness auto
termination
  by (relation "measure (length \<circ> snd)") (auto dest: line_of_rest)

declare session.simps [simp del]

lemma append_bytes_spec:
  "len + length cs \<le> length buf \<Longrightarrow>
   append_bytes cs len buf = Some (take len buf @ cs @ drop (len + length cs) buf, len + length cs)"
proof (induction cs arbitrary: len buf)
  case (Cons c cs)
  have "poke (int len) c buf = Some (buf[len := c])" using Cons.prems by (simp add: poke_def)
  moreover have "take (len + 1) (buf[len := c]) = take len buf @ [c]"
    using Cons.prems by (simp add: take_Suc_conv_app_nth)
  ultimately show ?case using Cons.IH [of "len + 1" "buf[len := c]"] Cons.prems by simp
qed simp

lemma length_edit_line: "length content < 4096 \<Longrightarrow> length (edit_line line content) < 4096"
  by (auto simp: edit_line_def text_bytes_def)

text \<open>The part of the loop after the line has been read, for a line that does not end the session.\<close>

lemma write_str_keeps:
  assumes "input_ok s" "console_ok s"
  obtains s' where "write_str cs s = Some s'" "console_ok s'" "input_ok s'" "\<And>evs. pending evs s' = pending evs s" "but_io s' = but_io s"
  using write_ok [OF assms, of "text_bytes cs"] unfolding write_str_def by blast

lemma editor_loop_line:
  assumes s: "input_ok s" "console_ok s" "length buf = 4096" "len < 4096"
    and line: "read_line LINE_MAX [] evs s = Some (line, evs1, s1)" "input_ok s1" "console_ok s1" "but_io s1 = but_io s"
    and goes_on: "line \<noteq> ''.save''" "line \<noteq> ''.quit''"
  shows "\<exists>buf' len' s'. editor_loop P a filename buf len evs s = editor_loop P a filename buf' len' evs1 s' \<and>
    length buf' = 4096 \<and> len' < 4096 \<and> take len' buf' = edit_line line (take len buf) \<and>
    input_ok s' \<and> console_ok s' \<and> pending evs1 s' = pending evs1 s1 \<and> but_io s' = but_io s"
proof -
  consider (list_it) "line = ''.list''" | (clear_it) "line = ''.clear''"
    | (full) "line \<noteq> ''.list''" "line \<noteq> ''.clear''" "4096 \<le> len + length line + 1"
    | (add) "line \<noteq> ''.list''" "line \<noteq> ''.clear''" "len + length line + 1 < 4096" by linarith
  then show ?thesis
  proof cases
    case list_it
    obtain s2 where s2: "write_str (''---'' @ [CHR 0x0A]) s1 = Some s2" "console_ok s2" "input_ok s2"
      "\<And>evs. pending evs s2 = pending evs s1" "but_io s2 = but_io s1"
      using write_str_keeps [OF line(2,3), of "''---'' @ [CHR 0x0A]"] by blast
    obtain s3 where s3: "vga_write (take len buf) s2 = Some s3" "console_ok s3" "input_ok s3"
      "\<And>evs. pending evs s3 = pending evs s2" "but_io s3 = but_io s2" using write_ok [OF s2(3,2), of "take len buf"] by blast
    obtain s4 where s4: "write_str (''---'' @ [CHR 0x0A]) s3 = Some s4" "console_ok s4" "input_ok s4"
      "\<And>evs. pending evs s4 = pending evs s3" "but_io s4 = but_io s3"
      using write_str_keeps [OF s3(3,2), of "''---'' @ [CHR 0x0A]"] by blast
    have "editor_loop P a filename buf len evs s = editor_loop P a filename buf len evs1 s4"
      using list_it line(1) s2(1) s3(1) s4(1) s(3,4)
      by (simp add: editor_loop.simps [of P a filename buf len evs s] show_text_def)
    then show ?thesis
      using list_it s2 s3 s4 s line by (intro exI [of _ buf] exI [of _ len] exI [of _ s4]) (simp add: edit_line_def)
  next
    case clear_it
    obtain s2 where s2: "write_str (''Buffer cleared.'' @ [CHR 0x0A]) s1 = Some s2" "console_ok s2" "input_ok s2"
      "\<And>evs. pending evs s2 = pending evs s1" "but_io s2 = but_io s1"
      using write_str_keeps [OF line(2,3), of "''Buffer cleared.'' @ [CHR 0x0A]"] by blast
    have "editor_loop P a filename buf len evs s = editor_loop P a filename buf 0 evs1 s2"
      using clear_it line(1) s2(1) by (simp add: editor_loop.simps [of P a filename buf len evs s])
    then show ?thesis
      using clear_it s2 s line by (intro exI [of _ buf] exI [of _ 0] exI [of _ s2]) (simp add: edit_line_def)
  next
    case full
    obtain s2 where s2: "write_str (''Buffer full -- can'' @ [CHR 0x27] @ ''t add more (try .save).'' @ [CHR 0x0A]) s1 = Some s2"
      "console_ok s2" "input_ok s2" "\<And>evs. pending evs s2 = pending evs s1" "but_io s2 = but_io s1"
      using write_str_keeps [OF line(2,3), of "''Buffer full -- can'' @ [CHR 0x27] @ ''t add more (try .save).'' @ [CHR 0x0A]"] by blast
    have "editor_loop P a filename buf len evs s = editor_loop P a filename buf len evs1 s2"
      using full goes_on line(1) s2(1)
      by (simp add: editor_loop.simps [of P a filename buf len evs s] EDITOR_BUF_SIZE_def)
    then show ?thesis
      using full s2 s line by (intro exI [of _ buf] exI [of _ len] exI [of _ s2]) (simp add: edit_line_def)
  next
    case add
    let ?cs = "text_bytes line @ [10]"
    have len_cs: "length ?cs = length line + 1" by (simp add: text_bytes_def)
    have ap: "append_bytes ?cs len buf = Some (take len buf @ ?cs @ drop (len + length ?cs) buf, len + length ?cs)"
      using add(3) s(3) len_cs by (intro append_bytes_spec) simp
    have "editor_loop P a filename buf len evs s =
        editor_loop P a filename (take len buf @ ?cs @ drop (len + length ?cs) buf) (len + length ?cs) evs1 s1"
      using add goes_on line(1) ap
      by (simp add: editor_loop.simps [of P a filename buf len evs s] EDITOR_BUF_SIZE_def)
    then show ?thesis
      using add s line len_cs
      by (intro exI [of _ "take len buf @ ?cs @ drop (len + length ?cs) buf"] exI [of _ "len + length ?cs"] exI [of _ s1])
        (simp add: edit_line_def)
  qed
qed

text \<open>C28: a session of the line editor. For any typed characters, backspaces included, the loop ends
  exactly when a line \<open>.save\<close> or \<open>.quit\<close> is typed, with the text that the lines before it make of the
  loaded text (each line appended with its newline, \<open>.clear\<close> emptying it, a line that would fill the
  buffer refused), which \<open>.save\<close> writes to the file; every access is inside the 4096 bytes of the
  buffer, and until then nothing but the screen and the keyboard changes.\<close>

theorem editor_session:
  assumes "input_ok s" "console_ok s" "length buf = 4096" "len < 4096"
  shows "case session (take len buf) (pending evs s) of
      None \<Rightarrow> editor_loop P a filename buf len evs s = None
    | Some (save, content, rest) \<Rightarrow> \<exists>evs' s'.
        editor_loop P a filename buf len evs s =
          map_option (Pair evs') (if save then editor_save P a filename content s' else editor_quit a s') \<and>
        pending evs' s' = rest \<and> input_ok s' \<and> console_ok s' \<and> but_io s' = but_io s"
  using assms
proof (induction "take len buf" "pending evs s" arbitrary: buf len evs s rule: session.induct)
  case 1
  note rl = read_line_spec [OF 1(2,3), of LINE_MAX "[]" evs]
  show ?case
  proof (cases "line_of LINE_MAX [] (pending evs s)")
    case None
    then show ?thesis
      using rl by (simp add: session.simps [of "take len buf"] editor_loop.simps [of P a filename buf len evs s])
  next
    case (Some r)
    then obtain line rest where lr: "line_of LINE_MAX [] (pending evs s) = Some (line, rest)" by (cases r) auto
    then obtain evs1 s1 where s1: "read_line LINE_MAX [] evs s = Some (line, evs1, s1)" "input_ok s1" "console_ok s1"
      "pending evs1 s1 = rest" "but_io s1 = but_io s" using rl by auto
    show ?thesis
    proof (cases "line = ''.save'' \<or> line = ''.quit''")
      case True
      then show ?thesis
        using lr s1 by (auto simp: session.simps [of "take len buf"] editor_loop.simps [of P a filename buf len evs s]
            Option.map_conv_bind_option comp_def intro!: exI [of _ evs1] exI [of _ s1])
    next
      case False
      obtain buf' len' s' where n: "editor_loop P a filename buf len evs s = editor_loop P a filename buf' len' evs1 s'"
        "length buf' = 4096" "len' < 4096" "take len' buf' = edit_line line (take len buf)"
        "input_ok s'" "console_ok s'" "pending evs1 s' = pending evs1 s1" "but_io s' = but_io s"
        using editor_loop_line [OF 1(2-5) s1(1-3,5), of P a filename] False by auto
      have sess: "session (take len buf) (pending evs s) = session (take len' buf') (pending evs1 s')"
        using lr False n(4,7) s1(4) by (simp add: session.simps [of "take len buf"])
      have eq: "(line, pending evs1 s') = (line, rest)" using n(7) s1(4) by simp
      show ?thesis
        using 1(1) [OF lr eq _ _ n(4) [symmetric] n(5,6,2,3)] False unfolding n(1,8) sess by blast
    qed
  qed
qed

text \<open>Typing \<open>.quit\<close> and Enter.\<close>

definition quit_keys :: "event list" where
  "quit_keys = [Key 0x34, Key 0x10, Tick, Key 0x16, Key 0x17, Key 0x14, Key 0x1C]"

lemma quit_keys_typed: "typed False (scancodes quit_keys) = ''.quit'' @ [CHR 0x0A]"
  by (simp add: quit_keys_def scancode_ascii_def)

lemma editor_session_witness:
  "\<exists>evs' s'. editor_loop drive_ports 0x400000 ''A.TXT'' (replicate 4096 0) 0 quit_keys demo_machine =
      map_option (Pair evs') (editor_quit 0x400000 s') \<and> pending evs' s' = [] \<and> input_ok s' \<and> console_ok s' \<and> but_io s' = but_io demo_machine"
proof -
  have "line_of LINE_MAX [] (''.quit'' @ [CHR 0x0A]) = Some (''.quit'', [])" by (simp add: LINE_MAX_def)
  then have "session (take 0 (replicate 4096 0)) (pending quit_keys demo_machine) = Some (False, [], [])"
    unfolding demo_machine_pending quit_keys_typed by (simp add: session.simps)
  then show ?thesis
    using editor_session [OF demo_machine_ok(2,1), where buf = "replicate 4096 0" and len = 0 and evs = quit_keys and P = drive_ports
          and a = "0x400000" and filename = "''A.TXT''"] by simp
qed

end
