(* ===== verification/Syscall.thy ===== *)
theory Syscall
  imports Machine Elf
begin

text \<open>
  \<open>kernel/syscall.c\<close>: the handler of \<open>int 0x80\<close>, on the whole machine. The saved registers are an
  argument and a result. The kernel follows user pointers through the current page tables in ring 0;
  an access to a page that is not mapped raises an exception, which halts the machine: \<open>None\<close>. So is
  an operation that does not end. The serial log is left out.
\<close>

record registers =
  r_ds :: u32
  r_edi :: u32
  r_esi :: u32
  r_ebp :: u32
  r_esp_orig :: u32
  r_ebx :: u32
  r_edx :: u32
  r_ecx :: u32
  r_eax :: u32
  r_int_no :: u32
  r_err_code :: u32
  r_eip :: u32
  r_cs :: u32
  r_eflags :: u32
  r_useresp :: u32
  r_ss :: u32

text \<open>The structure in memory: sixteen words, without padding.\<close>

definition frame_words :: "registers \<Rightarrow> u32 list" where
  "frame_words r = [r_ds r, r_edi r, r_esi r, r_ebp r, r_esp_orig r, r_ebx r, r_edx r, r_ecx r, r_eax r,
     r_int_no r, r_err_code r, r_eip r, r_cs r, r_eflags r, r_useresp r, r_ss r]"

primrec store_words :: "addr \<Rightarrow> u32 list \<Rightarrow> memory \<Rightarrow> memory" where
  "store_words a [] m = m"
| "store_words a (w # ws) m = store_words (a + 4) ws (store32 m a w)"

section \<open>User pointers\<close>

text \<open>The physical address behind an address, by the page tables that \<open>cr3\<close> points to.\<close>

definition page_entry :: "addr \<Rightarrow> 'a vm_scheme \<Rightarrow> u32 option" where
  "page_entry va s =
     (case user_pte (mem s) (cr3 s) (pd_index va) (pt_index va) of
        None \<Rightarrow> None
      | Some pte \<Rightarrow> if is_present pte then Some pte else None)"

definition physical :: "u32 \<Rightarrow> addr \<Rightarrow> addr" where
  "physical pte va = page_base pte + (va AND 0xFFF)"

definition read_byte :: "addr \<Rightarrow> 'a vm_scheme \<Rightarrow> u8 option" where
  "read_byte va s = map_option (\<lambda>pte. mem s (physical pte va)) (page_entry va s)"

text \<open>A write in ring 0: a read-only page is refused only when CR0.WP (bit 16) is set.\<close>

definition write_byte :: "addr \<Rightarrow> u8 \<Rightarrow> 'a vm_scheme \<Rightarrow> 'a vm_scheme option" where
  "write_byte va b s =
     (case page_entry va s of
        None \<Rightarrow> None
      | Some pte \<Rightarrow>
          if bit (cr0 s) 16 \<and> \<not> is_writable pte then None
          else Some (s\<lparr>mem := (mem s)(physical pte va := b)\<rparr>))"

primrec write_bytes :: "addr \<Rightarrow> u8 list \<Rightarrow> 'a vm_scheme \<Rightarrow> 'a vm_scheme option" where
  "write_bytes va [] s = Some s"
| "write_bytes va (b # bs) s = Option.bind (write_byte va b s) (write_bytes (va + 1) bs)"

definition write_user32 :: "addr \<Rightarrow> u32 \<Rightarrow> 'a vm_scheme \<Rightarrow> 'a vm_scheme option" where
  "write_user32 va v = write_bytes va [ucast v, ucast (drop_bit 8 v), ucast (drop_bit 16 v), ucast (drop_bit 24 v)]"

text \<open>A string, up to its NUL.\<close>

partial_function (option) user_string :: "addr \<Rightarrow> 'a vm_scheme \<Rightarrow> u8 list option" where
  "user_string va s = do {
     c \<leftarrow> read_byte va s;
     if c = 0 then Some [] else do { cs \<leftarrow> user_string (va + 1) s; Some (c # cs) } }"

section \<open>The calls\<close>

definition SYS_EXIT :: u32 where "SYS_EXIT = 0"
definition SYS_WRITE :: u32 where "SYS_WRITE = 1"
definition SYS_FORK :: u32 where "SYS_FORK = 2"
definition SYS_EXEC :: u32 where "SYS_EXEC = 3"
definition SYS_WAIT :: u32 where "SYS_WAIT = 4"
definition SYS_MAP_FB :: u32 where "SYS_MAP_FB = 5"
definition SYS_MOUSE_STATE :: u32 where "SYS_MOUSE_STATE = 6"
definition SYS_GETCHAR_NB :: u32 where "SYS_GETCHAR_NB = 7"
definition USER_STACK_VADDR :: addr where "USER_STACK_VADDR = 0x40100000"
definition USER_FB_VADDR :: addr where "USER_FB_VADDR = 0x50000000"

text \<open>How a call leaves: back to the program with these registers, out of a task that ended, or asleep
  in the middle (the caller is blocked and runs the rest of its round when it is woken).\<close>

datatype sys_result = Return registers | Ended exit_result | Asleep

definition MINUS_ONE :: u32 where "MINUS_ONE = - 1"

definition sys_write :: "registers \<Rightarrow> 'a console_scheme \<Rightarrow> (sys_result \<times> 'a console_scheme) option" where
  "sys_write regs s = do {
     str \<leftarrow> user_string (r_ebx regs) s;
     s \<leftarrow> vga_write str s;
     Some (Return (regs\<lparr>r_eax := 0\<rparr>), s) }"

definition sys_exit :: "registers \<Rightarrow> 'a sched_scheme \<Rightarrow> (sys_result \<times> 'a sched_scheme) option" where
  "sys_exit regs s = map_option (\<lambda>(r, s). (Ended r, s)) (task_exit_current (sint (r_ebx regs)) s)"

text \<open>\<open>frame\<close> is the address of the local variable \<open>child_regs\<close> on the kernel stack.\<close>

definition sys_fork :: "addr \<Rightarrow> addr \<Rightarrow> registers \<Rightarrow> 'a sched_scheme \<Rightarrow> (sys_result \<times> 'a sched_scheme) option" where
  "sys_fork return_tail frame regs s = do {
     let self = current_task s;
     let parent_dir = task_get_page_directory self s;
     let (child_dir, s) = paging_clone_address_space parent_dir s;
     let s = s\<lparr>kmem := store_words frame (frame_words (regs\<lparr>r_eax := 0\<rparr>)) (kmem s)\<rparr>;
     (child, s) \<leftarrow> task_create_forked return_tail child_dir frame 64 s;
     Some (Return (regs\<lparr>r_eax := of_int (task_get_id child s)\<rparr>), s) }"

text \<open>Storing the bytes of a file at an address, as the copy loop of \<open>fat16_read_file\<close> does.\<close>

definition store_bytes :: "addr \<Rightarrow> u8 list \<Rightarrow> memory \<Rightarrow> memory" where
  "store_bytes a bs m = (\<lambda>x. if unat (x - a) < length bs then bs ! unat (x - a) else m x)"

text \<open>The file is read into a block of the heap; \<open>None\<close> is a file that is not there or cannot be read.\<close>

definition exec_file :: "'f ports \<Rightarrow> registers \<Rightarrow> ('g, 'f, 'm, 'x) machine_scheme
    \<Rightarrow> ((addr \<times> u8 list) option \<times> ('g, 'f, 'm, 'x) machine_scheme) option" where
  "exec_file P regs s = do {
     filename \<leftarrow> user_string (r_ebx regs) s;
     case find_file P (map (\<lambda>c. char_of (unat c)) filename) s of
       (None, s) \<Rightarrow> Some (None, s)
     | (Some f, s) \<Rightarrow> do {
         (buf, s) \<leftarrow> kmalloc (file_size f) s;
         (bytes, s) \<leftarrow> read_file P f (file_size f) s;
         case bytes of
           None \<Rightarrow> Some (None, s)
         | Some bytes \<Rightarrow> Some (Some (buf, bytes), s\<lparr>mem := store_bytes buf bytes (mem s)\<rparr>) } }"

text \<open>The new address space is built, and takes the place of the old one.\<close>

definition exec_image :: "addr \<Rightarrow> registers \<Rightarrow> 'a sched_scheme \<Rightarrow> sys_result \<times> 'a sched_scheme" where
  "exec_image buf regs s =
     (let (new_dir, s) = paging_clone_kernel_directory s
      in (case elf_load buf new_dir s of
        (None, s) \<Rightarrow>
          (Return (regs\<lparr>r_eax := MINUS_ONE\<rparr>), pmm_free_frame new_dir (paging_free_address_space new_dir s))
      | (Some start, s) \<Rightarrow>
          let (stack_phys, s) = pmm_alloc_frame s;
              (_, s) = paging_map_user_page new_dir stack_phys USER_STACK_VADDR (PAGE_RW OR PAGE_USER) s;
              user_stack_top = USER_STACK_VADDR + PAGE_SIZE;
              self = current_task s;
              old_dir = task_get_page_directory self s;
              s = paging_switch_directory new_dir (task_set_page_directory self new_dir s);
              s = pmm_free_frame old_dir (paging_free_address_space old_dir s)
          in (Return (regs\<lparr>r_eip := start, r_useresp := user_stack_top, r_eax := 0, r_ebx := 0, r_ecx := 0, r_edx := 0\<rparr>), s)))"

definition sys_exec :: "'f ports \<Rightarrow> registers \<Rightarrow> ('g, 'f, 'm, 'x) machine_scheme
    \<Rightarrow> (sys_result \<times> ('g, 'f, 'm, 'x) machine_scheme) option" where
  "sys_exec P regs s = do {
     (image, s) \<leftarrow> exec_file P regs s;
     Some (case image of
       None \<Rightarrow> (Return (regs\<lparr>r_eax := MINUS_ONE\<rparr>), s)
     | Some (buf, bytes) \<Rightarrow> exec_image buf regs s) }"

definition sys_wait :: "registers \<Rightarrow> 'a sched_scheme \<Rightarrow> (sys_result \<times> 'a sched_scheme) option" where
  "sys_wait regs s = do {
     (r, s) \<leftarrow> task_wait_any s;
     case r of
       Inl _ \<Rightarrow> Some (Asleep, s)
     | Inr (pid, exit_code) \<Rightarrow>
         if pid < 0 then Some (Return (regs\<lparr>r_eax := MINUS_ONE\<rparr>), s)
         else do {
           s \<leftarrow> (if r_ebx regs \<noteq> 0 then write_user32 (r_ebx regs) (of_int (case exit_code of Some c \<Rightarrow> c | None \<Rightarrow> 0)) s
                else Some s);
           Some (Return (regs\<lparr>r_eax := of_int pid\<rparr>), s) } }"

primrec map_user_fb :: "nat list \<Rightarrow> addr \<Rightarrow> addr \<Rightarrow> 'a vm_scheme \<Rightarrow> bool \<times> 'a vm_scheme" where
  "map_user_fb [] dir fb_phys s = (True, s)"
| "map_user_fb (i # is) dir fb_phys s =
     (let (ok, s) = paging_map_user_page dir (fb_phys + of_nat i * PAGE_SIZE) (USER_FB_VADDR + of_nat i * PAGE_SIZE)
            (PAGE_RW OR PAGE_USER) s
      in if ok then map_user_fb is dir fb_phys s else (False, s))"

text \<open>A page that cannot be mapped only ends the loop: the call goes on and returns 0.\<close>

definition sys_map_fb :: "'g wide_ports \<Rightarrow> 'm ports \<Rightarrow> registers \<Rightarrow> ('g, 'f, 'm, 'x) machine_scheme
    \<Rightarrow> (sys_result \<times> ('g, 'f, 'm, 'x) machine_scheme) option" where
  "sys_map_fb G M regs s =
     (let (ok, s) = gui_init G s in
      if \<not> ok then Some (Return (regs\<lparr>r_eax := MINUS_ONE\<rparr>), s)
      else do {
        let (fb_phys, width, height, pitch) = gui_get_fb_phys_info s;
        let fb_bytes = pitch * height;
        let num_pages = (fb_bytes + PAGE_SIZE - 1) div PAGE_SIZE;
        let self_dir = task_get_page_directory (current_task s) s;
        let (_, s) = map_user_fb [0..<unat num_pages] self_dir fb_phys s;
        let info = r_ebx regs;
        s \<leftarrow> write_user32 info USER_FB_VADDR s;
        s \<leftarrow> write_user32 (info + 4) width s;
        s \<leftarrow> write_user32 (info + 8) height s;
        s \<leftarrow> write_user32 (info + 12) pitch s;
        let s = s\<lparr>the_mouse := mouse_init M (sint width) (sint height) (the_mouse s)\<rparr>;
        Some (Return (regs\<lparr>r_eax := 0\<rparr>), s) })"

definition sys_mouse_state :: "registers \<Rightarrow> ('g, 'f, 'm, 'x) machine_scheme
    \<Rightarrow> (sys_result \<times> ('g, 'f, 'm, 'x) machine_scheme) option" where
  "sys_mouse_state regs s = do {
     let info = r_ebx regs;
     s \<leftarrow> write_user32 info (of_int (mouse_get_x (the_mouse s))) s;
     s \<leftarrow> write_user32 (info + 4) (of_int (mouse_get_y (the_mouse s))) s;
     s \<leftarrow> write_user32 (info + 8) (ucast (mouse_get_buttons (the_mouse s))) s;
     Some (Return (regs\<lparr>r_eax := 0\<rparr>), s) }"

definition sys_getchar_nb :: "registers \<Rightarrow> 'a kbd_scheme \<Rightarrow> (sys_result \<times> 'a kbd_scheme) option" where
  "sys_getchar_nb regs s =
     (if keyboard_has_char s then do {
        (c, s) \<leftarrow> keyboard_getchar s;
        Some (Return (regs\<lparr>r_eax := scast (of_char c :: u8)\<rparr>), s) }
      else Some (Return (regs\<lparr>r_eax := MINUS_ONE\<rparr>), s))"

definition syscall_handler :: "('g, 'f, 'm) env \<Rightarrow> addr \<Rightarrow> registers \<Rightarrow> ('g, 'f, 'm, 'x) machine_scheme
    \<Rightarrow> (sys_result \<times> ('g, 'f, 'm, 'x) machine_scheme) option" where
  "syscall_handler E frame regs s =
     (if r_eax regs = SYS_WRITE then sys_write regs s
      else if r_eax regs = SYS_EXIT then sys_exit regs s
      else if r_eax regs = SYS_FORK then sys_fork (return_tail_addr E) frame regs s
      else if r_eax regs = SYS_EXEC then sys_exec (disk_ports E) regs s
      else if r_eax regs = SYS_WAIT then sys_wait regs s
      else if r_eax regs = SYS_MAP_FB then sys_map_fb (gui_ports E) (ps2_ports E) regs s
      else if r_eax regs = SYS_MOUSE_STATE then sys_mouse_state regs s
      else if r_eax regs = SYS_GETCHAR_NB then sys_getchar_nb regs s
      else Some (Return (regs\<lparr>r_eax := MINUS_ONE\<rparr>), s))"

section \<open>Writing to a page\<close>

lemma physical_offset: "physical pte va = page_base pte + of_nat (unat va mod 4096)"
proof -
  have "unat (va AND mask 12) = unat va mod 4096"
    by (simp flip: take_bit_eq_mask) (simp add: take_bit_eq_mod unat_mod)
  then have "va AND mask 12 = of_nat (unat va mod 4096)" by (simp add: word_unat_eq_iff unat_of_nat)
  then show ?thesis by (simp add: physical_def low_mask)
qed

lemma same_page:
  assumes "unat va mod 4096 + k < 4096"
  shows "unat (va + of_nat k) mod 4096 = unat va mod 4096 + k" "page_base (va + of_nat k) = page_base va"
    "pd_index (va + of_nat k) = pd_index va" "pt_index (va + of_nat k) = pt_index va"
proof -
  have eq: "va + of_nat k = page_base va + of_nat (unat va mod 4096 + k)"
    by (simp only: of_nat_add add.assoc [symmetric] page_split)
  have "unat (page_base va + of_nat (unat va mod 4096 + k)) = unat (page_base va) + (unat va mod 4096 + k)"
    using assms by (intro unat_page_byte) simp_all
  moreover have "(unat (page_base va) + n) mod 4096 = n" if "n < 4096" for n
    using that unat_page_base [of va] by (simp add: minus_mod_eq_mult_div)
  ultimately show "unat (va + of_nat k) mod 4096 = unat va mod 4096 + k"
    using assms unfolding eq by simp
  show "page_base (va + of_nat k) = page_base va"
    unfolding eq using page_base_byte [of "page_base va" "unat va mod 4096 + k"] assms by simp
  then show "pd_index (va + of_nat k) = pd_index va" "pt_index (va + of_nat k) = pt_index va"
    using slot_page by blast+
qed

text \<open>A page that is neither a directory nor the table used: writing to it leaves a walk alone.\<close>

lemma walk_other_page:
  assumes "\<And>a. page_base a \<noteq> q \<Longrightarrow> m a = m' a" "page_aligned dir" "dir \<noteq> q"
    and "page_base (get_entry m' dir pd) \<noteq> q" "pd < 1024" "pt < 1024"
  shows "user_pte m dir pd pt = user_pte m' dir pd pt"
proof -
  have e: "get_entry m p i = get_entry m' p i" if "page_aligned p" "p \<noteq> q" "i < 1024" for p i
    using that assms(1) by (intro get_entry_bytes_cong) (auto simp: page_base_byte)
  show ?thesis using e [of dir pd] e [of "page_base (get_entry m' dir pd)" pt] assms by (simp add: user_pte_def Let_def)
qed

definition plain_page :: "u32 \<Rightarrow> addr \<Rightarrow> 'a vm_scheme \<Rightarrow> bool" where
  "plain_page pte va s \<longleftrightarrow> page_entry va s = Some pte \<and> page_aligned (cr3 s) \<and> cr3 s \<noteq> page_base pte \<and>
     page_base (get_entry (mem s) (cr3 s) (pd_index va)) \<noteq> page_base pte"

lemma plain_page_store:
  assumes "plain_page pte va s" "\<And>a. page_base a \<noteq> page_base pte \<Longrightarrow> m a = mem s a"
  shows "plain_page pte va (s\<lparr>mem := m\<rparr>)"
proof -
  have "get_entry m (cr3 s) (pd_index va) = get_entry (mem s) (cr3 s) (pd_index va)"
    using assms by (intro get_entry_bytes_cong) (auto simp: plain_page_def page_base_byte)
  moreover have "user_pte m (cr3 s) (pd_index va) (pt_index va) = user_pte (mem s) (cr3 s) (pd_index va) (pt_index va)"
    using assms by (intro walk_other_page) (auto simp: plain_page_def)
  ultimately show ?thesis using assms(1) by (simp add: plain_page_def page_entry_def)
qed

lemma plain_page_offset:
  assumes "plain_page pte va s" "unat va mod 4096 + k < 4096"
  shows "plain_page pte (va + of_nat k) s" "physical pte (va + of_nat k) = physical pte va + of_nat k"
  using assms same_page [OF assms(2)] by (simp_all add: plain_page_def page_entry_def physical_offset)

lemma page_base_physical: "page_base (physical pte va) = page_base pte"
  by (simp add: physical_offset page_base_byte)

lemma write_byte_page:
  assumes "plain_page pte va s" "\<not> bit (cr0 s) 16 \<or> is_writable pte"
  shows "write_byte va b s = Some (s\<lparr>mem := (mem s)(physical pte va := b)\<rparr>)"
    "plain_page pte va (s\<lparr>mem := (mem s)(physical pte va := b)\<rparr>)"
proof -
  show "write_byte va b s = Some (s\<lparr>mem := (mem s)(physical pte va := b)\<rparr>)"
    using assms by (auto simp: write_byte_def plain_page_def)
  show "plain_page pte va (s\<lparr>mem := (mem s)(physical pte va := b)\<rparr>)"
    by (rule plain_page_store [OF assms(1)]) (auto simp: page_base_physical)
qed

lemma write_user32_page:
  assumes "plain_page pte va s" "unat va mod 4096 + 3 < 4096" "\<not> bit (cr0 s) 16 \<or> is_writable pte"
  shows "write_user32 va v s = Some (s\<lparr>mem := store32 (mem s) (physical pte va) v\<rparr>)"
    "plain_page pte va (s\<lparr>mem := store32 (mem s) (physical pte va) v\<rparr>)"
proof -
  let ?a = "physical pte va"
  have p: "plain_page pte (va + of_nat k) t" "physical pte (va + of_nat k) = ?a + of_nat k"
    if "plain_page pte va t" "k \<le> 3" for k and t :: "'a vm_scheme"
    using plain_page_offset [OF that(1), of k] assms(2) that(2) by auto
  have w: "write_byte (va + of_nat k) b t = Some (t\<lparr>mem := (mem t)(?a + of_nat k := b)\<rparr>)"
    "plain_page pte va (t\<lparr>mem := (mem t)(?a + of_nat k := b)\<rparr>)"
    if t: "plain_page pte va t" "k \<le> 3" "\<not> bit (cr0 t) 16 \<or> is_writable pte" for k b and t :: "'a vm_scheme"
  proof -
    show "write_byte (va + of_nat k) b t = Some (t\<lparr>mem := (mem t)(?a + of_nat k := b)\<rparr>)"
      using write_byte_page(1) [OF p(1) [OF t(1,2)] t(3), of b] p(2) [OF t(1,2)] by simp
    show "plain_page pte va (t\<lparr>mem := (mem t)(?a + of_nat k := b)\<rparr>)"
      using p(2) [OF t(1,2)] page_base_physical [of pte "va + of_nat k"]
      by (intro plain_page_store [OF t(1)]) auto
  qed
  note w0 = w [of _ 0, simplified] and w1 = w [of _ 1, simplified]
    and w2 = w [of _ 2, simplified] and w3 = w [of _ 3, simplified]
  define s1 where "s1 = s\<lparr>mem := (mem s)(?a := ucast v)\<rparr>"
  define s2 where "s2 = s1\<lparr>mem := (mem s1)(?a + 1 := ucast (drop_bit 8 v))\<rparr>"
  define s3 where "s3 = s2\<lparr>mem := (mem s2)(?a + 2 := ucast (drop_bit 16 v))\<rparr>"
  define s4 where "s4 = s3\<lparr>mem := (mem s3)(?a + 3 := ucast (drop_bit 24 v))\<rparr>"
  have wp: "bit (cr0 s) 16 \<longrightarrow> is_writable pte" using assms(3) by blast
  have cr: "cr0 s1 = cr0 s" "cr0 s2 = cr0 s" "cr0 s3 = cr0 s" by (simp_all add: s1_def s2_def s3_def)
  have s1: "write_byte va (ucast v) s = Some s1" "plain_page pte va s1"
    using w0 [OF assms(1) wp] by (simp_all add: s1_def)
  have s2: "write_byte (va + 1) (ucast (drop_bit 8 v)) s1 = Some s2" "plain_page pte va s2"
    using w1 [OF s1(2)] wp cr by (simp_all add: s2_def)
  have s3: "write_byte (va + 2) (ucast (drop_bit 16 v)) s2 = Some s3" "plain_page pte va s3"
    using w2 [OF s2(2)] wp cr by (simp_all add: s3_def)
  have s4: "write_byte (va + 3) (ucast (drop_bit 24 v)) s3 = Some s4" "plain_page pte va s4"
    using w3 [OF s3(2)] wp cr by (simp_all add: s4_def)
  have s4_eq: "s4 = s\<lparr>mem := store32 (mem s) ?a v\<rparr>" by (simp add: s4_def s3_def s2_def s1_def store32_def)
  show "write_user32 va v s = Some (s\<lparr>mem := store32 (mem s) ?a v\<rparr>)"
    using s1(1) s2(1) s3(1) s4(1) by (simp add: write_user32_def add.assoc flip: s4_eq)
  show "plain_page pte va (s\<lparr>mem := store32 (mem s) ?a v\<rparr>)"
    using s4(2) unfolding s4_eq .
qed

lemma store32_page:
  assumes "unat va mod 4096 + 3 < 4096" "page_base x \<noteq> page_base pte"
  shows "store32 m (physical pte va) v x = m x"
proof -
  have "x \<noteq> physical pte va + of_nat k" if "k \<le> 3" for k
  proof -
    have "page_base (physical pte va + of_nat k) = page_base pte"
      using page_base_byte [of "page_base pte" "unat va mod 4096 + k"] that assms(1)
      by (simp add: physical_offset add.assoc)
    then show ?thesis using assms(2) by auto
  qed
  from this [of 0] this [of 1] this [of 2] this [of 3] show ?thesis by (simp add: store32_def)
qed

lemma aligned_physical: "4 dvd unat va \<Longrightarrow> aligned4 (physical pte va)"
proof -
  assume "4 dvd unat va"
  then have "4 dvd unat va mod 4096" by (simp add: dvd_mod)
  moreover have "4 dvd unat (page_base pte)" using page_aligned_base [of pte] by (auto simp: page_aligned_def)
  moreover have "unat (physical pte va) = unat (page_base pte) + unat va mod 4096"
    unfolding physical_offset by (intro unat_page_byte) simp_all
  ultimately show ?thesis by (simp add: aligned4_def)
qed

section \<open>Ring 0 does not copy on write\<close>

text \<open>\<open>paging_init\<close> sets CR0.PG only.\<close>

lemma paging_init_wp: "bit (cr0 (paging_init s)) 16 = bit (cr0 s) 16"
proof -
  have "cr0 (fold paging_init_table ts t) = cr0 t" for ts and t :: "'a vm_scheme"
    by (induction ts arbitrary: t) (simp_all add: paging_init_table_def Let_def)
  then have "cr0 (paging_init s) = cr0 s OR push_bit 31 1" by (simp add: paging_init_def Let_def push_bit_of_1)
  then show ?thesis by (simp add: bit_or_iff bit_push_bit_iff)
qed

text \<open>C31: system calls write through copy-on-write. The kernel runs with CR0.WP clear, so when it
  stores a result at a user pointer into a page that a fork has shared, no fault is raised and no
  copy is made: \<open>SYS_MOUSE_STATE\<close> returns 0 and has changed the shared frame, and every other address
  space that maps this frame now reads the new value there.\<close>

theorem syscall_writes_shared_page:
  assumes "\<not> bit (cr0 s) 16" "plain_page pte info s" "is_cow pte \<and> \<not> is_writable pte"
    and "r_ebx regs = info" "4 dvd unat info" "unat info mod 4096 \<le> 4084"
    and other: "page_aligned dir" "dir \<noteq> page_base pte" "page_base (get_entry (mem s) dir pd) \<noteq> page_base pte"
      "pd < 1024" "pt < 1024" "user_pte (mem s) dir pd pt = Some pte2" "page_base pte2 = page_base pte"
  shows "\<exists>s'. sys_mouse_state regs s = Some (Return (regs\<lparr>r_eax := 0\<rparr>), s') \<and>
    page_entry info s' = Some pte \<and> frame_refcount s' = frame_refcount s \<and>
    user_pte (mem s') dir pd pt = Some pte2 \<and>
    load32 (mem s') (physical pte2 info) = of_int (mouse_x (the_mouse s))"
proof -
  let ?a = "physical pte info"
  let ?x = "of_int (mouse_x (the_mouse s)) :: u32" and ?y = "of_int (mouse_y (the_mouse s)) :: u32"
    and ?b = "ucast (mouse_buttons (the_mouse s)) :: u32"
  define m1 where "m1 = store32 (mem s) ?a ?x"
  define m2 where "m2 = store32 m1 (?a + 4) ?y"
  define m3 where "m3 = store32 m2 (?a + 8) ?b"
  let ?s = "s\<lparr>mem := m3\<rparr>"
  have p1: "write_user32 info ?x s = Some (s\<lparr>mem := m1\<rparr>)" "plain_page pte info (s\<lparr>mem := m1\<rparr>)"
    using write_user32_page [OF assms(2), of ?x] assms(1,6) by (simp_all add: m1_def)
  have o: "unat (info + 4) mod 4096 = unat info mod 4096 + 4" "unat (info + 8) mod 4096 = unat info mod 4096 + 8"
    using same_page(1) [of info 4] same_page(1) [of info 8] assms(6) by simp_all
  have a: "physical pte (info + 4) = ?a + 4" "physical pte (info + 8) = ?a + 8"
    using plain_page_offset(2) [OF p1(2), of 4] plain_page_offset(2) [OF p1(2), of 8] assms(6) by simp_all
  have q1: "plain_page pte (info + 4) (s\<lparr>mem := m1\<rparr>)" using plain_page_offset(1) [OF p1(2), of 4] assms(6) by simp
  have p2: "write_user32 (info + 4) ?y (s\<lparr>mem := m1\<rparr>) = Some (s\<lparr>mem := m2\<rparr>)" "plain_page pte (info + 4) (s\<lparr>mem := m2\<rparr>)"
    using write_user32_page [OF q1, of ?y] assms(1,6) a o by (simp_all add: m2_def)
  have q2: "plain_page pte (info + 8) (s\<lparr>mem := m2\<rparr>)" using plain_page_offset(1) [OF p2(2), of 4] assms(6) o by (simp add: add.commute)
  have p3: "write_user32 (info + 8) ?b (s\<lparr>mem := m2\<rparr>) = Some (s\<lparr>mem := m3\<rparr>)"
    using write_user32_page [OF q2, of ?b] assms(1,6) a o by (simp_all add: m3_def)
  have only: "m3 x = mem s x" if "page_base x \<noteq> page_base pte" for x
    using that store32_page [of info x pte] store32_page [of "info + 4" x pte] store32_page [of "info + 8" x pte] assms(6) o a
    by (simp add: m1_def m2_def m3_def)
  have dv: "4 dvd n mod 4096 \<longleftrightarrow> 4 dvd n" for n :: nat by (simp add: dvd_mod_iff)
  have "4 dvd unat (info + 4)" "4 dvd unat (info + 8)"
    using dv [of "unat (info + 4)"] dv [of "unat (info + 8)"] dv [of "unat info"] assms(5) unfolding o by simp_all
  then have al: "aligned4 ?a" "aligned4 (?a + 4)" "aligned4 (?a + 8)"
    using aligned_physical [of info pte] aligned_physical [of "info + 4" pte] aligned_physical [of "info + 8" pte] assms(5)
    unfolding a by blast+
  have "sys_mouse_state regs s = Some (Return (regs\<lparr>r_eax := 0\<rparr>), ?s)"
    using p1(1) p2(1) p3 assms(4) by (simp add: sys_mouse_state_def mouse_get_x_def mouse_get_y_def mouse_get_buttons_def)
  moreover have "page_entry info ?s = Some pte"
    using plain_page_store [OF assms(2) only] by (simp add: plain_page_def)
  moreover have "user_pte m3 dir pd pt = Some pte2"
    using walk_other_page [OF only other(1,2,3,4,5)] other(6) by simp
  moreover have "load32 m3 ?a = ?x"
    by (simp add: m3_def m2_def m1_def load32_store32_other al)
  ultimately show ?thesis using other(7) by (intro exI [of _ ?s]) (simp add: physical_def)
qed

text \<open>The page at 0x4000000 of the example, shared with a second directory at 0x104000.\<close>

definition shared_demo :: "(unit, drive, unit) machine" where
  "shared_demo = demo_machine\<lparr>mem := set_entry 0x104000 16 0x101007 demo_mem, cr3 := 0x100000, cr0 := 0x80000011\<rparr>"

definition blank_regs :: registers where
  "blank_regs = \<lparr>r_ds = 0x23, r_edi = 0, r_esi = 0, r_ebp = 0, r_esp_orig = 0, r_ebx = 0x4000000, r_edx = 0, r_ecx = 0,
     r_eax = 6, r_int_no = 0x80, r_err_code = 0, r_eip = 0x40000000, r_cs = 0x1B, r_eflags = 0x202,
     r_useresp = 0x40101000, r_ss = 0x23\<rparr>"

lemma shared_demo_entry: "i < 1024 \<Longrightarrow> get_entry (mem shared_demo) 0x100000 i = get_entry demo_mem 0x100000 i"
  "i < 1024 \<Longrightarrow> get_entry (mem shared_demo) 0x101000 i = get_entry demo_mem 0x101000 i"
  "get_entry (mem shared_demo) 0x104000 16 = 0x101007"
  by (simp_all add: shared_demo_def word_mem.get_put page_aligned_def)

lemma syscall_writes_shared_page_witness:
  "\<exists>s'. sys_mouse_state blank_regs shared_demo = Some (Return (blank_regs\<lparr>r_eax := 0\<rparr>), s') \<and>
    page_entry 0x4000000 s' = Some 0x102205 \<and> frame_refcount s' = frame_refcount shared_demo \<and>
    user_pte (mem s') 0x104000 16 0 = Some 0x102205 \<and>
    load32 (mem s') (physical 0x102205 0x4000000) = of_int (mouse_x (the_mouse shared_demo))"
proof (rule syscall_writes_shared_page)
  have i: "pd_index 0x4000000 = 16" "pt_index 0x4000000 = 0" by (simp_all add: pd_index_def pt_index_def)
  have b: "page_base 0x102205 = 0x102000" "page_base 0x101007 = 0x101000" by (simp_all add: page_base_def)
  have c: "cr3 shared_demo = 0x100000" "cr0 shared_demo = 0x80000011" by (simp_all add: shared_demo_def)
  have w: "user_pte (mem shared_demo) 0x100000 16 0 = Some 0x102205" "user_pte (mem shared_demo) 0x104000 16 0 = Some 0x102205"
    using demo_walk by (simp_all add: user_pte_def Let_def shared_demo_entry b)
  show "\<not> bit (cr0 shared_demo) 16" unfolding c by simp
  show "plain_page 0x102205 0x4000000 shared_demo"
    using w(1) by (simp add: plain_page_def page_entry_def i c b shared_demo_entry page_aligned_def is_present_def PAGE_PRESENT_def)
  show "is_cow 0x102205 \<and> \<not> is_writable 0x102205"
    by (simp add: is_cow_def is_writable_def PAGE_COW_def PAGE_RW_def)
  show "page_base (get_entry (mem shared_demo) 0x104000 16) \<noteq> page_base 0x102205" by (simp add: shared_demo_entry b)
  show "user_pte (mem shared_demo) 0x104000 16 0 = Some 0x102205" by (rule w)
qed (simp_all add: page_aligned_def page_base_def blank_regs_def)

section \<open>Characters without waiting\<close>

definition ascii :: "char \<Rightarrow> bool" where
  "ascii c \<longleftrightarrow> 0 < (of_char c :: nat) \<and> (of_char c :: nat) < 128"

lemma tables_ascii: "c \<in> set scancode_ascii \<union> set scancode_ascii_shift \<Longrightarrow> c = CHR 0x00 \<or> ascii c"
proof -
  have "\<forall>c\<in>set scancode_ascii \<union> set scancode_ascii_shift. c = CHR 0x00 \<or> ascii c"
    unfolding scancode_ascii_def scancode_ascii_shift_def ascii_def by simp
  then show "c \<in> set scancode_ascii \<union> set scancode_ascii_shift \<Longrightarrow> c = CHR 0x00 \<or> ascii c" by blast
qed

lemma typed_ascii: "c \<in> set (typed shift scs) \<Longrightarrow> ascii c"
proof (induction scs arbitrary: shift)
  case (Cons sc scs)
  have "unat (sc AND 0x7F) < 128" using code_bound [of sc] by (simp add: word_less_nat_alt)
  then have "(if shift then scancode_ascii_shift else scancode_ascii) ! unat (sc AND 0x7F)
      \<in> set scancode_ascii \<union> set scancode_ascii_shift"
    using nth_mem [of "unat (sc AND 0x7F)" scancode_ascii] nth_mem [of "unat (sc AND 0x7F)" scancode_ascii_shift]
    by auto
  from tables_ascii [OF this] Cons show ?case by (auto simp: Let_def split: if_splits)
qed simp

lemma fold_callback_input:
  assumes "input_ok s" "\<forall>c\<in>set (pending [] s). ascii c"
  shows "input_ok (fold keyboard_callback scs s) \<and> (\<forall>c\<in>set (pending [] (fold keyboard_callback scs s)). ascii c)"
proof -
  let ?s = "fold keyboard_callback scs s"
  have t: "tasks ?s = tasks s \<and> current_task ?s = current_task s"
    by (induction scs rule: rev_induct) (simp_all add: callback_tasks)
  then have r: "task_current_uses_input_redirect ?s = task_current_uses_input_redirect s"
    "input_inv (current_task ?s) ?s = input_inv (current_task s) s"
    "input_contents (current_task ?s) ?s = input_contents (current_task s) s"
    by (simp_all add: task_current_uses_input_redirect_def input_inv_def input_contents_def)
  have k: "kb_inv ?s" "kb_contents ?s = take 255 (kb_contents s @ typed (shift_held s) scs)"
    using fold_callback [of s scs] assms(1) by (simp_all add: input_ok_def)
  show ?thesis
    using assms k r by (auto simp: input_ok_def pending_def dest!: in_set_takeD dest: typed_ascii)
qed

lemma char_byte:
  assumes "ascii c"
  shows "scast (of_char c :: u8) = (of_char c :: u32)" "0 < (of_char c :: u32)" "(of_char c :: u32) < 128"
proof -
  have n: "0 < (of_char c :: nat)" "(of_char c :: nat) < 128" using assms by (simp_all add: ascii_def)
  have u: "(of_char c :: u32) = of_nat (of_char c)" "(of_char c :: u8) = of_nat (of_char c)"
    by (simp_all only: of_nat_of_char)
  show "0 < (of_char c :: u32)" "(of_char c :: u32) < 128"
    using n unfolding u by (simp_all add: word_less_nat_alt unat_of_nat)
  have "sint (of_nat (of_char c) :: u8) = int (of_char c)"
    using n by (simp add: sint_uint unsigned_of_nat take_bit_nat_eq_self signed_take_bit_int_eq_self)
  then show "scast (of_char c :: u8) = (of_char c :: u32)"
    unfolding u by (simp add: signed_def)
qed

text \<open>C32: \<open>SYS_GETCHAR_NB\<close>. Whatever keys have been pressed, the call returns at once: -1, changing
  nothing, exactly when no character is pending for the task, and otherwise the oldest pending
  character, as a number between 1 and 127, never to be taken for -1; only this character is consumed.\<close>

theorem getchar_nb_result:
  fixes s :: "'a kbd_scheme" and scs :: "u8 list"
  assumes "input_ok s" "\<forall>c\<in>set (pending [] s). ascii c"
  defines "s1 \<equiv> fold keyboard_callback scs s"
  shows "\<exists>r s'. sys_getchar_nb regs s1 = Some (Return (regs\<lparr>r_eax := r\<rparr>), s') \<and> input_ok s' \<and>
    (\<forall>c\<in>set (pending [] s'). ascii c) \<and>
    (if pending [] s1 = [] then r = - 1 \<and> s' = s1
     else r = of_char (hd (pending [] s1)) \<and> 0 < r \<and> r < 128 \<and> pending [] s' = tl (pending [] s1))"
proof -
  have s1: "input_ok s1" "\<forall>c\<in>set (pending [] s1). ascii c" using fold_callback_input [OF assms(1,2)] by (simp_all add: s1_def)
  have has: "keyboard_has_char s1 \<longleftrightarrow> keyboard_getchar s1 \<noteq> None"
    by (simp add: keyboard_has_char_def keyboard_getchar_def)
  show ?thesis
  proof (cases "keyboard_getchar s1")
    case None
    then have "pending [] s1 = []" using pending_getchar [OF s1(1), of "[]"] by simp
    then show ?thesis using None has s1 by (simp add: sys_getchar_nb_def MINUS_ONE_def)
  next
    case (Some p)
    obtain c s' where p: "p = (c, s')" by fastforce
    have i: "input_ok s'" "pending [] s1 = c # pending [] s'" using pending_getchar [OF s1(1), of "[]"] Some p by simp_all
    then have a: "ascii c" using s1(2) by simp
    have "sys_getchar_nb regs s1 = Some (Return (regs\<lparr>r_eax := of_char c\<rparr>), s')"
      using Some p has char_byte(1) [OF a] by (simp add: sys_getchar_nb_def)
    then show ?thesis using i s1(2) char_byte(2,3) [OF a] by auto
  qed
qed

lemma getchar_nb_result_witness:
  "\<exists>s'. sys_getchar_nb blank_regs (fold keyboard_callback [0x23] demo_machine) = Some (Return (blank_regs\<lparr>r_eax := 0x68\<rparr>), s')"
proof -
  have p: "pending [] demo_machine = []" by (simp add: demo_machine_pending)
  then have none: "keyboard_getchar demo_machine = None"
    using pending_getchar [OF demo_machine_ok(2), of "[]"] by (auto split: option.splits)
  have "pending [Key 0x23] demo_machine = ''h''" by (simp add: demo_machine_pending scancode_ascii_def)
  then have "pending [] (fold keyboard_callback [0x23] demo_machine) = ''h''"
    using pending_happen [OF demo_machine_ok(2) none, of "Key 0x23" "[]"] by simp
  then show ?thesis using getchar_nb_result [OF demo_machine_ok(2), where scs = "[0x23]" and regs = blank_regs] p by auto
qed

end
