(* ===== verification/Isolation.thy ===== *)
theory Isolation
  imports Syscall
begin

text \<open>
  Address spaces together: what \<open>paging.c\<close> promises the processes. The state of \<open>Paging\<close> with a set of
  page directories, one per process, refines one memory per process: a store of a process, with the
  copy-on-write fault it may take, changes that process's memory at that address only, \<open>fork\<close> copies a
  memory, and the end of a process changes nobody else's.

  The invariant behind it relates all directories to the reference counts: a frame has at least one
  reference for each place that maps it, and a place that may be written is the only one that maps
  its frame.
\<close>

section \<open>Memory as seen by a process\<close>

definition slot_of :: "addr \<Rightarrow> nat \<times> nat" where
  "slot_of va = (pd_index va, pt_index va)"

definition user_addr :: "addr \<Rightarrow> bool" where
  "user_addr va \<longleftrightarrow> 16 \<le> pd_index va"

text \<open>A byte of a process's memory: \<open>None\<close> where nothing is mapped.\<close>

definition byte_of :: "'a vm_scheme \<Rightarrow> addr \<Rightarrow> addr \<Rightarrow> u8 option" where
  "byte_of s dir va = map_option (\<lambda>e. mem s (physical e va)) (leaf (mem s) dir (slot_of va))"

text \<open>Where a process may write, possibly after a fault.\<close>

definition may_store :: "'a vm_scheme \<Rightarrow> addr \<Rightarrow> addr \<Rightarrow> bool" where
  "may_store s dir va \<longleftrightarrow> (\<exists>e. leaf (mem s) dir (slot_of va) = Some e \<and> (is_writable e \<or> is_cow e))"

text \<open>A store by the running process: a page that is not writable raises a page fault, and the
  instruction runs again when the handler has resolved it.\<close>

definition user_store :: "addr \<Rightarrow> u8 \<Rightarrow> 'a vm_scheme \<Rightarrow> 'a vm_scheme option" where
  "user_store va b s =
     (let store = (\<lambda>s. case page_entry va s of
            None \<Rightarrow> None
          | Some e \<Rightarrow> if is_writable e then Some (s\<lparr>mem := (mem s)(physical e va := b)\<rparr>) else None)
      in case page_entry va s of
           None \<Rightarrow> None
         | Some e \<Rightarrow>
             if is_writable e then store s
             else case paging_handle_cow_fault va s of
                    (False, _) \<Rightarrow> None
                  | (True, s) \<Rightarrow> store s)"

lemma page_entry_leaf: "page_entry va s = leaf (mem s) (cr3 s) (slot_of va)"
  by (simp add: page_entry_def leaf_def slot_of_def)

lemma slot_of_user: "user_addr va \<Longrightarrow> slot_of va \<in> user_slots"
  by (simp add: user_addr_def slot_of_def user_slots_def)

section \<open>Pages and their bytes\<close>

lemma ucast_or_bytes:
  "ucast (push_bit 24 (ucast d) OR push_bit 16 (ucast c) OR push_bit 8 (ucast b) OR ucast a :: u32) = (a :: u8)"
  "ucast (drop_bit 8 (push_bit 24 (ucast d) OR push_bit 16 (ucast c) OR push_bit 8 (ucast b) OR ucast a :: u32)) = (b :: u8)"
  "ucast (drop_bit 16 (push_bit 24 (ucast d) OR push_bit 16 (ucast c) OR push_bit 8 (ucast b) OR ucast a :: u32)) = (c :: u8)"
  "ucast (drop_bit 24 (push_bit 24 (ucast d) OR push_bit 16 (ucast c) OR push_bit 8 (ucast b) OR ucast a :: u32)) = (d :: u8)"
  by (rule bit_word_eqI; auto simp: bit_ucast_iff bit_or_iff bit_push_bit_iff bit_drop_bit_eq dest: bit_imp_le_length)+

lemma load32_inj:
  assumes "load32 m a = load32 m' a" "k < 4"
  shows "m (a + of_nat k) = m' (a + of_nat k)"
proof -
  have "ucast (load32 n a) = n a" "ucast (drop_bit 8 (load32 n a)) = n (a + 1)"
    "ucast (drop_bit 16 (load32 n a)) = n (a + 2)" "ucast (drop_bit 24 (load32 n a)) = n (a + 3)" for n
    unfolding load32_def by (rule ucast_or_bytes)+
  then have "m a = m' a" "m (a + 1) = m' (a + 1)" "m (a + 2) = m' (a + 2)" "m (a + 3) = m' (a + 3)"
    using assms(1) by metis+
  moreover have "k \<in> {0, 1, 2, 3}" using assms(2) by auto
  ultimately show ?thesis by auto
qed

lemma bytes_of_entries:
  assumes "\<And>i. i < 1024 \<Longrightarrow> get_entry m q i = get_entry m' q i" "b < 4096"
  shows "m (q + of_nat b) = m' (q + of_nat b)"
proof -
  have "load32 m (entry q (b div 4)) = load32 m' (entry q (b div 4))"
    using assms(1) [of "b div 4"] assms(2) by (simp add: get_entry_def)
  then have "m (entry q (b div 4) + of_nat (b mod 4)) = m' (entry q (b div 4) + of_nat (b mod 4))"
    by (rule load32_inj) simp
  then show ?thesis by (simp add: entry_bytes)
qed

text \<open>A physical address is a frame and an offset.\<close>

lemma physical_bytes: "\<exists>b<4096. (va :: addr) AND 0xFFF = of_nat b"
proof -
  have "unat (va AND 0xFFF) < 4096"
    unfolding low_mask by (simp flip: take_bit_eq_mask) (simp add: take_bit_eq_mod unat_mod)
  then show ?thesis by (intro exI [of _ "unat (va AND 0xFFF)"]) simp
qed

lemma physical_same: "(\<And>b. b < 4096 \<Longrightarrow> m (page_base e + of_nat b) = m' (page_base e' + of_nat b)) \<Longrightarrow>
    m (physical e va) = m' (physical e' va)"
  using physical_bytes [of va] by (auto simp: physical_def)

lemma physical_eq_iff: "physical e va = physical e' va' \<longleftrightarrow> page_base e = page_base e' \<and> va AND 0xFFF = va' AND 0xFFF"
  for va va' :: addr
proof -
  obtain b c where b: "b < 4096" "va AND 0xFFF = of_nat b" and c: "c < 4096" "va' AND 0xFFF = of_nat c"
    using physical_bytes by metis
  have "b = c" if "(of_nat b :: addr) = of_nat c" using that b(1) c(1)
    by (metis add_0 page_byte_eq_iff [of 0 0] dvd_0_right page_aligned_def unat_0)
  then show ?thesis using page_byte_eq_iff [of "page_base e" "page_base e'" b c] b c by (auto simp: physical_def)
qed

lemma address_eq:
  fixes va va' :: addr
  assumes "slot_of va = slot_of va'" "va AND 0xFFF = va' AND 0xFFF"
  shows "va = va'"
proof (rule bit_word_eqI)
  fix n assume n: "n < LENGTH(32)"
  have pd: "drop_bit 22 va = drop_bit 22 va'" and pt: "drop_bit 12 va AND 0x3FF = drop_bit 12 va' AND 0x3FF"
    using assms(1) unfolding slot_of_def pd_index_def pt_index_def by (simp_all only: prod.inject word_unat_eq_iff [symmetric])
  have m: "(0x3FF :: u32) = mask 10" "(0xFFF :: u32) = mask 12" by (simp_all add: mask_eq_exp_minus_1)
  consider "n < 12" | "12 \<le> n" "n < 22" | "22 \<le> n" by linarith
  then show "bit va n = bit va' n"
  proof cases
    case 1
    have "bit (va AND 0xFFF) n = bit (va' AND 0xFFF) n" using assms(2) by simp
    then show ?thesis using 1 n by (simp add: m bit_and_iff bit_mask_iff)
  next
    case 2
    have "bit (drop_bit 12 va AND 0x3FF) (n - 12) = bit (drop_bit 12 va' AND 0x3FF) (n - 12)" using pt by simp
    moreover have "n - 12 < 10" "n - 12 < 32" "12 + (n - 12) = n" using 2 by linarith+
    ultimately show ?thesis by (simp add: m bit_and_iff bit_mask_iff bit_drop_bit_eq)
  next
    case 3
    have "bit (drop_bit 22 va) (n - 22) = bit (drop_bit 22 va') (n - 22)" using pd by simp
    then show ?thesis using 3 by (simp add: bit_drop_bit_eq)
  qed
qed

section \<open>The invariant of all address spaces\<close>

text \<open>The places that map a frame.\<close>

definition mappings :: "'a vm_scheme \<Rightarrow> addr set \<Rightarrow> nat \<Rightarrow> (addr \<times> nat \<times> nat) set" where
  "mappings s D f = Sigma D (\<lambda>d. slots_of (mem s) d f)"

text \<open>A page that is no directory and no table.\<close>

definition data_frame :: "'a vm_scheme \<Rightarrow> addr set \<Rightarrow> addr \<Rightarrow> bool" where
  "data_frame s D p \<longleftrightarrow> frame_of p < MAX_FRAMES \<and> p \<noteq> page_directory s \<and> (\<forall>d\<in>D. p \<notin> pages_of (mem s) d)"

definition kernel_dir_ok :: "'a vm_scheme \<Rightarrow> addr set \<Rightarrow> bool" where
  "kernel_dir_ok s D \<longleftrightarrow> page_aligned (page_directory s) \<and> frame_live s (page_directory s) \<and>
     (\<forall>pd. 16 \<le> pd \<and> pd < 1024 \<longrightarrow> \<not> is_present (get_entry (mem s) (page_directory s) pd)) \<and>
     (\<forall>d\<in>D. page_directory s \<notin> pages_of (mem s) d)"

definition spaces_inv :: "'a vm_scheme \<Rightarrow> addr set \<Rightarrow> bool" where
  "spaces_inv s D \<longleftrightarrow> pmm_inv s \<and> finite D \<and> kernel_dir_ok s D \<and> (\<forall>d\<in>D. as_wf s d) \<and>
     (\<forall>d\<in>D. \<forall>d'\<in>D. d \<noteq> d' \<longrightarrow> pages_of (mem s) d \<inter> pages_of (mem s) d' = {}) \<and>
     (\<forall>d\<in>D. \<forall>x\<in>user_slots. \<forall>e. leaf (mem s) d x = Some e \<longrightarrow> data_frame s D (page_base e)) \<and>
     (\<forall>f<MAX_FRAMES. card (mappings s D f) \<le> frame_refs s f) \<and>
     (\<forall>d\<in>D. \<forall>x\<in>user_slots. \<forall>e. leaf (mem s) d x = Some e \<longrightarrow> is_writable e \<longrightarrow>
        mappings s D (frame_of (page_base e)) = {(d, x)})"

lemma spacesD:
  assumes "spaces_inv s D"
  shows "pmm_inv s" "finite D" "kernel_dir_ok s D" "d \<in> D \<Longrightarrow> as_wf s d"
    "d \<in> D \<Longrightarrow> d' \<in> D \<Longrightarrow> d \<noteq> d' \<Longrightarrow> pages_of (mem s) d \<inter> pages_of (mem s) d' = {}"
    "d \<in> D \<Longrightarrow> x \<in> user_slots \<Longrightarrow> leaf (mem s) d x = Some e \<Longrightarrow> data_frame s D (page_base e)"
    "f < MAX_FRAMES \<Longrightarrow> card (mappings s D f) \<le> frame_refs s f"
    "d \<in> D \<Longrightarrow> x \<in> user_slots \<Longrightarrow> leaf (mem s) d x = Some e \<Longrightarrow> is_writable e \<Longrightarrow>
      mappings s D (frame_of (page_base e)) = {(d, x)}"
proof -
  note i = assms [unfolded spaces_inv_def]
  show "pmm_inv s" "finite D" "kernel_dir_ok s D" using i by simp_all
  show "as_wf s d" if "d \<in> D" using i that by simp
  show "pages_of (mem s) d \<inter> pages_of (mem s) d' = {}" if "d \<in> D" "d' \<in> D" "d \<noteq> d'"
    using i [THEN conjunct2, THEN conjunct2, THEN conjunct2, THEN conjunct2, THEN conjunct1] that by blast
  show "data_frame s D (page_base e)" if "d \<in> D" "x \<in> user_slots" "leaf (mem s) d x = Some e"
    using i [THEN conjunct2, THEN conjunct2, THEN conjunct2, THEN conjunct2, THEN conjunct2, THEN conjunct1] that by blast
  show "card (mappings s D f) \<le> frame_refs s f" if "f < MAX_FRAMES" using i that by simp
  show "mappings s D (frame_of (page_base e)) = {(d, x)}"
    if "d \<in> D" "x \<in> user_slots" "leaf (mem s) d x = Some e" "is_writable e"
    using i [THEN conjunct2, THEN conjunct2, THEN conjunct2, THEN conjunct2, THEN conjunct2, THEN conjunct2, THEN conjunct2] that
    by blast
qed

lemma finite_mappings: "finite D \<Longrightarrow> finite (mappings s D f)"
  by (simp add: mappings_def)

lemma in_mappings: "(d, x) \<in> mappings s D f \<longleftrightarrow> d \<in> D \<and> x \<in> user_slots \<and> (\<exists>e. leaf (mem s) d x = Some e \<and> frame_of (page_base e) = f)"
  by (simp add: mappings_def slots_of_def)

lemma live_referenced: "pmm_inv s \<Longrightarrow> frame_of p < MAX_FRAMES \<Longrightarrow> 0 < frame_refs s (frame_of p) \<Longrightarrow> frame_live s p"
  by (auto simp: frame_live_def pmm_inv_def frame_refs_def split: if_splits)

lemma leaf_live:
  assumes "spaces_inv s D" "d \<in> D" "x \<in> user_slots" "leaf (mem s) d x = Some e"
  shows "frame_live s (page_base e)" "0 < frame_refs s (frame_of (page_base e))"
proof -
  have f: "frame_of (page_base e) < MAX_FRAMES" using spacesD(6) [OF assms] by (simp add: data_frame_def)
  have "(d, x) \<in> mappings s D (frame_of (page_base e))" using assms by (auto simp: in_mappings)
  then have "0 < card (mappings s D (frame_of (page_base e)))"
    using finite_mappings [OF spacesD(2) [OF assms(1)]] by (auto simp: card_gt_0_iff)
  then show "0 < frame_refs s (frame_of (page_base e))" using spacesD(7) [OF assms(1) f] by linarith
  then show "frame_live s (page_base e)" by (rule live_referenced [OF spacesD(1) [OF assms(1)] f])
qed

lemma tables_live:
  "spaces_inv s D \<Longrightarrow> d \<in> D \<Longrightarrow> q \<in> pages_of (mem s) d \<Longrightarrow> page_aligned q \<and> frame_live s q"
  "spaces_inv s D \<Longrightarrow> page_aligned (page_directory s) \<and> frame_live s (page_directory s)"
  using pages_of_live [OF spacesD(4)] spacesD(3) unfolding kernel_dir_ok_def by blast+

text \<open>Writing one entry of a table, when every page in use is otherwise the same.\<close>

lemma set_leaf:
  assumes inv: "spaces_inv s D" and d: "d \<in> D" and x: "(pd, pt) \<in> user_slots"
    and pres: "is_present (get_entry (mem s) d pd)"
    and t: "mem t = set_entry (page_base (get_entry (mem s) d pd)) pt e' m" "is_present e'"
    and same: "\<And>q i. page_aligned q \<Longrightarrow> frame_live s q \<Longrightarrow> i < 1024 \<Longrightarrow> get_entry m q i = get_entry (mem s) q i"
    and live: "\<And>q. frame_live s q \<Longrightarrow> frame_live t q"
    and c: "c \<in> D"
  shows "as_wf t c" "pages_of (mem t) c = pages_of (mem s) c"
    "y \<in> user_slots \<Longrightarrow> leaf (mem t) c y = (if c = d \<and> y = (pd, pt) then Some e' else leaf (mem s) c y)"
    "i < 1024 \<Longrightarrow> get_entry (mem t) (page_directory s) i = get_entry (mem s) (page_directory s) i"
proof -
  let ?T = "page_base (get_entry (mem s) d pd)"
  have idx: "16 \<le> pd" "pd < 1024" "pt < 1024" using x by (simp_all add: user_slots_def)
  have T: "?T \<in> pages_of (mem s) d" by (rule pages_ofI [OF idx(1,2) pres])
  have get: "get_entry (mem t) q i = (if q = ?T \<and> i = pt then e' else get_entry (mem s) q i)"
    if "page_aligned q" "frame_live s q" "i < 1024" for q i
    using that idx by (auto simp: t(1) word_mem.get_put same)
  have dir: "get_entry (mem t) c i = get_entry (mem s) c i" if "i < 1024" for i
  proof -
    have "?T \<noteq> c"
    proof (cases "c = d")
      case True
      then show ?thesis using as_wf_table(1) [OF spacesD(4) [OF inv d] idx(1,2) pres] by simp
    next
      case False
      have "c \<in> pages_of (mem s) c" by (simp add: pages_of_def)
      then show ?thesis using spacesD(5) [OF inv d c] False T by auto
    qed
    then show ?thesis using get [of c i] as_wfD [OF spacesD(4) [OF inv c]] that by simp
  qed
  show "as_wf t c" using dir live by (rule as_wf_mono [OF spacesD(4) [OF inv c]])
  show "pages_of (mem t) c = pages_of (mem s) c" using dir by (rule pages_of_dir_cong)
  show "leaf (mem t) c y = (if c = d \<and> y = (pd, pt) then Some e' else leaf (mem s) c y)" if y: "y \<in> user_slots"
  proof (cases "c = d")
    case True
    have "user_pte (mem t) d (fst y) (snd y) = (if y = (pd, pt) then Some e' else user_pte (mem s) d (fst y) (snd y))"
      using walk_set_entry [OF spacesD(4) [OF inv d] idx pres same, of "fst y" "snd y" e'] y
      by (cases y) (simp add: t(1) user_slots_def)
    then show ?thesis using True t(2) by (simp add: leaf_def)
  next
    case False
    have "get_entry (mem t) q i = get_entry (mem s) q i" if "q \<in> pages_of (mem s) c" "i < 1024" for q i
      using get [of q i] tables_live(1) [OF inv c that(1)] spacesD(5) [OF inv c d False] T that by auto
    then show ?thesis using pages_of_cong(2) [of "mem s" c "mem t" y] y False by simp
  qed
  show "get_entry (mem t) (page_directory s) i = get_entry (mem s) (page_directory s) i" if "i < 1024"
    using get [of "page_directory s" i] tables_live(2) [OF inv] T d spacesD(3) [OF inv] that by (auto simp: kernel_dir_ok_def)
qed

section \<open>Resolving a fault keeps the invariant and the memories\<close>

text \<open>One place \<open>(d, pd, pt)\<close> gets a writable entry for the same frame, which it alone maps, or for a copy of
  it in a frame that was free.\<close>

lemma relocate:
  assumes inv: "spaces_inv s D" and d: "d \<in> D" and x: "(pd, pt) \<in> user_slots" and e: "leaf (mem s) d (pd, pt) = Some e"
    and t: "mem t = set_entry (page_base (get_entry (mem s) d pd)) pt e' m" "is_present e'" "page_directory t = page_directory s"
      "pmm_inv t"
    and same: "\<And>q b. page_aligned q \<Longrightarrow> frame_live s q \<Longrightarrow> b < 4096 \<Longrightarrow> m (q + of_nat b) = mem s (q + of_nat b)"
    and live: "\<And>q. frame_live s q \<Longrightarrow> frame_live t q"
    and copy: "\<And>b. b < 4096 \<Longrightarrow> m (page_base e' + of_nat b) = mem s (page_base e + of_nat b)"
    and kind: "page_base e' = page_base e \<and> frame_refs s (frame_of (page_base e)) \<le> 1 \<and> frame_refs t = frame_refs s \<or>
      \<not> frame_live s (page_base e') \<and> frame_of (page_base e') < MAX_FRAMES \<and>
      frame_refs t = (frame_refs s)(frame_of (page_base e') := 1,
        frame_of (page_base e) := frame_refs s (frame_of (page_base e)) - 1)"
  shows "spaces_inv t D" "c \<in> D \<Longrightarrow> y \<in> user_slots \<Longrightarrow>
      leaf (mem t) c y = (if c = d \<and> y = (pd, pt) then Some e' else leaf (mem s) c y)"
    "c \<in> D \<Longrightarrow> user_addr va \<Longrightarrow> byte_of t c va = byte_of s c va"
proof -
  let ?N = "page_base e'" and ?O = "page_base e" and ?T = "page_base (get_entry (mem s) d pd)"
  have idx: "16 \<le> pd" "pd < 1024" "pt < 1024" using x by (simp_all add: user_slots_def)
  have pres: "is_present (get_entry (mem s) d pd)" using e by (auto simp: leaf_Some user_pte_def Let_def split: if_splits)
  have same_entries: "get_entry m q i = get_entry (mem s) q i" if "page_aligned q" "frame_live s q" "i < 1024" for q i
    using that by (intro get_entry_bytes_cong) (simp_all add: same)
  note L = set_leaf [OF inv d x pres t(1,2) same_entries live]
  show leaf: "leaf (mem t) c y = (if c = d \<and> y = (pd, pt) then Some e' else leaf (mem s) c y)"
    if "c \<in> D" "y \<in> user_slots" for c y by (rule L(3) [OF _ _ _ _ that])
  have T: "?T \<in> pages_of (mem s) d" by (rule pages_ofI [OF idx(1,2) pres])
  note O = spacesD(6) [OF inv d x e] and Olive = leaf_live [OF inv d x e]
  have Odata: "?O \<noteq> page_directory s" "c \<in> D \<Longrightarrow> ?O \<notin> pages_of (mem s) c" "frame_of ?O < MAX_FRAMES" for c
    using O by (simp_all add: data_frame_def)
  have Ndata: "?N \<noteq> page_directory s" "c \<in> D \<Longrightarrow> ?N \<notin> pages_of (mem s) c" "frame_of ?N < MAX_FRAMES" for c
    using kind Odata tables_live(1) [OF inv, of c ?N] tables_live(2) [OF inv] by auto
  have pages: "pages_of (mem t) c = pages_of (mem s) c" if "c \<in> D" for c by (rule L(2) [OF _ _ _ _ that])
  have data: "data_frame t D (page_base e1)" if "c \<in> D" "y \<in> user_slots" "leaf (mem t) c y = Some e1" for c y e1
  proof (cases "c = d \<and> y = (pd, pt)")
    case True
    then have "e1 = e'" using leaf [OF that(1,2)] that(3) by simp
    then show ?thesis using Ndata by (simp add: data_frame_def t(3) pages)
  next
    case False
    then have "leaf (mem s) c y = Some e1" using leaf [OF that(1,2)] that(3) by metis
    from spacesD(6) [OF inv that(1,2) this] show ?thesis by (simp add: data_frame_def t(3) pages)
  qed
  have fin: "finite (mappings s D f)" for f by (rule finite_mappings [OF spacesD(2) [OF inv]])
  have maps: "mappings t D f = (if f = frame_of ?N then insert (d, pd, pt) (mappings s D f - {(d, pd, pt)})
      else mappings s D f - {(d, pd, pt)})" for f
  proof -
    have "z \<in> mappings t D f \<longleftrightarrow> (if z = (d, pd, pt) then f = frame_of ?N else z \<in> mappings s D f)" for z
    proof -
      obtain c y where z: "z = (c, y)" by (cases z)
      show ?thesis
      proof (cases "c \<in> D \<and> y \<in> user_slots")
        case True
        then show ?thesis using leaf [of c y] by (simp add: z in_mappings) (auto simp: in_mappings)
      next
        case False
        then show ?thesis using d x by (auto simp: z in_mappings)
      qed
    qed
    then show ?thesis by (auto split: if_splits)
  qed
  have mapO: "(d, pd, pt) \<in> mappings s D (frame_of ?O)" using d x e by (simp add: in_mappings)
  have only: "(d, pd, pt) \<notin> mappings s D f" if "f \<noteq> frame_of ?O" for f using that e by (simp add: in_mappings)
  have old_case: "mappings s D (frame_of ?O) = {(d, pd, pt)}" if "frame_refs s (frame_of ?O) \<le> 1"
  proof -
    have "card (mappings s D (frame_of ?O)) \<le> 1" using spacesD(7) [OF inv Odata(3)] that by simp
    then have "\<forall>a\<in>mappings s D (frame_of ?O). \<forall>b\<in>mappings s D (frame_of ?O). a = b"
      using card_le_Suc0_iff_eq [OF fin] by simp
    then show ?thesis using mapO by blast
  qed
  have new_case: "mappings s D (frame_of ?N) = {}" if "\<not> frame_live s ?N"
  proof -
    have "False" if "(c, y) \<in> mappings s D (frame_of ?N)" for c y
      using that leaf_live(1) [OF inv, of c y] \<open>\<not> frame_live s ?N\<close> by (auto simp: in_mappings frame_live_def)
    then show ?thesis by auto
  qed
  have count: "card (mappings t D f) \<le> frame_refs t f" if f: "f < MAX_FRAMES" for f
  proof -
    note c = spacesD(7) [OF inv f]
    from kind show ?thesis
    proof
      assume k: "?N = ?O \<and> frame_refs s (frame_of ?O) \<le> 1 \<and> frame_refs t = frame_refs s"
      then have "mappings t D f = mappings s D f" using maps [of f] mapO only by auto
      then show ?thesis using c k by simp
    next
      assume k: "\<not> frame_live s ?N \<and> frame_of ?N < MAX_FRAMES \<and> frame_refs t = (frame_refs s)(frame_of ?N := 1,
          frame_of ?O := frame_refs s (frame_of ?O) - 1)"
      have ne: "frame_of ?N \<noteq> frame_of ?O" using k Olive(1) by (auto simp: frame_live_def)
      show ?thesis
      proof (cases "f = frame_of ?O")
        case True
        then have "card (mappings t D f) = card (mappings s D f) - 1" using maps [of f] ne mapO by (simp add: card_Diff_singleton)
        then show ?thesis using True k c ne by (simp add: diff_le_mono)
      next
        case False
        then show ?thesis using k c ne only [OF False] maps [of f] new_case by (auto simp: card_Diff_subset)
      qed
    qed
  qed
  have excl: "mappings t D (frame_of (page_base e1)) = {(c, y)}"
    if "c \<in> D" "y \<in> user_slots" "leaf (mem t) c y = Some e1" "is_writable e1" for c y e1
  proof (cases "c = d \<and> y = (pd, pt)")
    case True
    then have "e1 = e'" using leaf [OF that(1,2)] that(3) by simp
    then show ?thesis using kind old_case new_case maps [of "frame_of ?N"] True by auto
  next
    case False
    then have l: "leaf (mem s) c y = Some e1" using leaf [OF that(1,2)] that(3) by metis
    note m = spacesD(8) [OF inv that(1,2) l that(4)]
    have ne: "frame_of (page_base e1) \<noteq> frame_of ?O" using m mapO False by auto
    have "frame_of (page_base e1) \<noteq> frame_of ?N"
      using kind ne leaf_live(1) [OF inv that(1,2) l] by (auto simp: frame_live_def)
    then show ?thesis using maps m only [OF ne] by auto
  qed
  have "kernel_dir_ok t D"
    using spacesD(3) [OF inv] live L(4) [OF _ _ _ _ d] pages unfolding kernel_dir_ok_def t(3) by simp
  moreover have "as_wf t c" if "c \<in> D" for c by (rule L(1) [OF _ _ _ _ that])
  ultimately show "spaces_inv t D"
    unfolding spaces_inv_def using t(4) spacesD(2,5) [OF inv] pages data count excl by simp
  have bytes: "mem t (q + of_nat b) = m (q + of_nat b)" if "page_aligned q" "q \<notin> pages_of (mem s) d" "b < 4096" for q b
    unfolding t(1) using that T tables_live(1) [OF inv d T] idx(3) by (intro set_entry_other_page) auto
  show "byte_of t c va = byte_of s c va" if "c \<in> D" "user_addr va"
  proof (cases "leaf (mem s) c (slot_of va)")
    case None
    then have "\<not> (c = d \<and> slot_of va = (pd, pt))" using e by auto
    then show ?thesis using leaf [OF that(1) slot_of_user [OF that(2)]] None by (simp add: byte_of_def)
  next
    case (Some e1)
    note u = slot_of_user [OF that(2)]
    show ?thesis
    proof (cases "c = d \<and> slot_of va = (pd, pt)")
      case True
      then have "e1 = e" using Some e by simp
      moreover have "mem t (physical e' va) = mem s (physical e va)"
        by (rule physical_same) (simp add: bytes Ndata(2) [OF d] copy)
      ultimately show ?thesis using leaf [OF that(1) u] True Some by (simp add: byte_of_def)
    next
      case False
      have "mem t (page_base e1 + of_nat b) = mem s (page_base e1 + of_nat b)" if "b < 4096" for b
        using bytes [of "page_base e1" b] same [of "page_base e1" b] leaf_live(1) [OF inv \<open>c \<in> D\<close> u Some]
          spacesD(6) [OF inv \<open>c \<in> D\<close> u Some] d that by (simp add: data_frame_def)
      then have "mem t (physical e1 va) = mem s (physical e1 va)" by (rule physical_same)
      moreover have "leaf (mem t) c (slot_of va) = Some e1" using leaf [OF that(1) u] False Some by simp
      ultimately show ?thesis using Some by (simp add: byte_of_def)
    qed
  qed
qed

lemma cow_fault_reclaim_eq:
  assumes walk: "user_pte (mem s) (cr3 s) (pd_index va) (pt_index va) = Some pte" and pte: "is_present pte" "is_cow pte"
    and sole: "frame_refs s (frame_of (page_base pte)) \<le> 1"
  shows "paging_handle_cow_fault va s = (True, s\<lparr>mem := set_entry (page_base (get_entry (mem s) (cr3 s) (pd_index va)))
    (pt_index va) (writable_pte (page_base pte) (pte AND 0xFFF AND NOT PAGE_COW)) (mem s)\<rparr>)"
  using walk_Some [OF walk] pte sole
  by (simp add: paging_handle_cow_fault_def Let_def pmm_frame_refcount_le1 is_cow_def)

text \<open>A fault on a copy-on-write page: the handler makes the page writable, and no memory changes.\<close>

lemma cow_fault_keeps:
  assumes inv: "spaces_inv s D" and d: "cr3 s \<in> D" and va: "user_addr va"
    and e: "leaf (mem s) (cr3 s) (slot_of va) = Some e" "is_cow e" and room: "0 < free_frames s"
  shows "\<exists>t e'. paging_handle_cow_fault va s = (True, t) \<and> spaces_inv t D \<and> cr3 t = cr3 s \<and>
    free_frames s \<le> Suc (free_frames t) \<and> is_writable e' \<and>
    (\<forall>c\<in>D. \<forall>y\<in>user_slots. leaf (mem t) c y = (if c = cr3 s \<and> y = slot_of va then Some e' else leaf (mem s) c y)) \<and>
    (\<forall>c\<in>D. \<forall>a. user_addr a \<longrightarrow> byte_of t c a = byte_of s c a)"
proof -
  have walk: "user_pte (mem s) (cr3 s) (pd_index va) (pt_index va) = Some e" and pres: "is_present e"
    using e(1) by (auto simp: leaf_Some slot_of_def)
  have x: "(pd_index va, pt_index va) \<in> user_slots" "leaf (mem s) (cr3 s) (pd_index va, pt_index va) = Some e"
    using slot_of_user [OF va] e(1) by (simp_all add: slot_of_def)
  note R = relocate [OF inv d x]
  show ?thesis
  proof (cases "frame_refs s (frame_of (page_base e)) \<le> 1")
    case True
    let ?e = "writable_pte (page_base e) (e AND 0xFFF AND NOT PAGE_COW)"
    let ?t = "s\<lparr>mem := set_entry (page_base (get_entry (mem s) (cr3 s) (pd_index va))) (pt_index va) ?e (mem s)\<rparr>"
    have w: "is_present ?e" "is_writable ?e" "page_base ?e = page_base e"
      by (simp_all add: is_present_bit pte_bits bit_page_flags)
    have hyps: "mem ?t = set_entry (page_base (get_entry (mem s) (cr3 s) (pd_index va))) (pt_index va) ?e (mem s)"
      "page_directory ?t = page_directory s" "pmm_inv ?t" "\<And>q. frame_live s q \<Longrightarrow> frame_live ?t q"
      "frame_refs ?t = frame_refs s"
      using spacesD(1) [OF inv] by (simp_all add: frame_live_def)
    have copied: "mem s (page_base ?e + of_nat b) = mem s (page_base e + of_nat b)" for b unfolding w(3) by (rule refl)
    have kind: "page_base ?e = page_base e \<and> frame_refs s (frame_of (page_base e)) \<le> 1 \<and> frame_refs ?t = frame_refs s \<or>
      \<not> frame_live s (page_base ?e) \<and> frame_of (page_base ?e) < MAX_FRAMES \<and>
      frame_refs ?t = (frame_refs s)(frame_of (page_base ?e) := 1,
        frame_of (page_base e) := frame_refs s (frame_of (page_base e)) - 1)"
      using w(3) True hyps(5) by blast
    note R = R [OF hyps(1) w(1) hyps(2,3) refl hyps(4) copied kind]
    have "spaces_inv ?t D"
      "\<forall>c\<in>D. \<forall>y\<in>user_slots. leaf (mem ?t) c y = (if c = cr3 s \<and> y = (pd_index va, pt_index va) then Some ?e else leaf (mem s) c y)"
      "\<forall>c\<in>D. \<forall>a. user_addr a \<longrightarrow> byte_of ?t c a = byte_of s c a"
      using R by blast+
    then show ?thesis
      using cow_fault_reclaim_eq [OF walk pres e(2) True] w(2) unfolding slot_of_def
      by (intro exI [of _ ?t] exI [of _ ?e]) simp
  next
    case False
    then have shared: "1 < frame_refs s (frame_of (page_base e))" by simp
    obtain new s1 where alloc: "pmm_alloc_frame s = (new, s1)" "new \<noteq> 0" "Suc (free_frames s1) = free_frames s"
      using free_frames_alloc [OF spacesD(1) [OF inv] room] by blast
    note inv0 = spacesD(1) [OF inv]
    note fresh = frames.alloc_fresh [OF inv0 alloc(1,2)] pmm_alloc_free [OF inv0 alloc(1,2)]
    have new: "page_aligned new" "\<not> frame_live s new" "frame_of new < MAX_FRAMES" "frame_refs s1 = (frame_refs s)(frame_of new := 1)"
      using fresh by (simp_all add: frame_live_def)
    have s1: "pmm_inv s1" "mem s1 = mem s" "cr3 s1 = cr3 s" "page_directory s1 = page_directory s"
      using pmm_alloc_frame_inv [OF inv0] pmm_ops_vm(3,7,11) [of s] alloc(1) by simp_all
    let ?O = "page_base e" and ?e = "writable_pte new (e AND 0xFFF AND NOT PAGE_COW)"
    let ?m = "copy_frame new ?O (mem s)"
    let ?t = "(pmm_free_frame ?O s1)\<lparr>mem := set_entry (page_base (get_entry (mem s) (cr3 s) (pd_index va))) (pt_index va) ?e ?m\<rparr>"
    have w: "is_present ?e" "is_writable ?e" "page_base ?e = new"
      using new(1) by (simp_all add: is_present_bit pte_bits bit_page_flags)
    have O: "frame_live s ?O" by (rule leaf_live(1) [OF inv d slot_of_user [OF va] e(1)])
    then have ne: "frame_of new \<noteq> frame_of ?O" "new \<noteq> ?O" using new(2) by (auto simp: frame_live_def)
    note free = pmm_free_spec [OF s1(1), of ?O]
    have bm: "bitmap_test g (pmm_free_frame ?O s1) \<longleftrightarrow> bitmap_test g s1" for g
      using free shared new(4) ne(1) by auto
    have hyps: "mem ?t = set_entry (page_base (get_entry (mem s) (cr3 s) (pd_index va))) (pt_index va) ?e ?m"
      "page_directory ?t = page_directory s" "pmm_inv ?t" "\<And>q. frame_live s q \<Longrightarrow> frame_live ?t q"
      "frame_refs ?t = (frame_refs s)(frame_of new := 1, frame_of ?O := frame_refs s (frame_of ?O) - 1)"
      using s1 free fresh new(4) ne(1) by (simp_all add: frame_live_def bm)
    have copy: "?m (q + of_nat b) = (if q = new then mem s (?O + of_nat b) else mem s (q + of_nat b))"
      if "page_aligned q" "b < 4096" for q b
      using copy_frame_bytes [OF new(1) _ that(1) ne(2) that(2)] by simp
    have same: "?m (q + of_nat b) = mem s (q + of_nat b)" if "page_aligned q" "frame_live s q" "b < 4096" for q b
      using copy [OF that(1,3)] that(2) new(2) by auto
    have copied: "?m (page_base ?e + of_nat b) = mem s (?O + of_nat b)" if "b < 4096" for b
      unfolding w(3) using copy [OF new(1) that] by simp
    note R = R [OF hyps(1) w(1) hyps(2,3) same hyps(4) copied]
    have kind: "page_base ?e = ?O \<and> frame_refs s (frame_of ?O) \<le> 1 \<and> frame_refs ?t = frame_refs s \<or>
      \<not> frame_live s (page_base ?e) \<and> frame_of (page_base ?e) < MAX_FRAMES \<and>
      frame_refs ?t = (frame_refs s)(frame_of (page_base ?e) := 1, frame_of ?O := frame_refs s (frame_of ?O) - 1)"
      unfolding w(3) using new hyps(5) by blast
    have "spaces_inv ?t D"
      "\<forall>c\<in>D. \<forall>y\<in>user_slots. leaf (mem ?t) c y = (if c = cr3 s \<and> y = (pd_index va, pt_index va) then Some ?e else leaf (mem s) c y)"
      "\<forall>c\<in>D. \<forall>a. user_addr a \<longrightarrow> byte_of ?t c a = byte_of s c a"
      using R(1-3) kind by blast+
    moreover have "free_frames ?t = free_frames s1" by (simp add: free_frames_def bm)
    moreover have "cr3 ?t = cr3 s" using s1(3) by simp
    ultimately show ?thesis
      using cow_fault_copy_eq [OF walk pres e(2) shared alloc(1,2)] w(2) alloc(3) unfolding slot_of_def
      by (intro exI [of _ ?t] exI [of _ ?e]) simp
  qed
qed

section \<open>A store changes one byte of one memory\<close>

lemma spaces_cong:
  assumes inv: "spaces_inv s D"
    and same: "\<And>q i. q = page_directory s \<or> (\<exists>d\<in>D. q \<in> pages_of (mem s) d) \<Longrightarrow> i < 1024 \<Longrightarrow>
      get_entry (mem t) q i = get_entry (mem s) q i"
    and t: "pmm_inv t" "\<And>q. frame_live t q = frame_live s q" "frame_refs t = frame_refs s" "page_directory t = page_directory s"
  shows "spaces_inv t D" "c \<in> D \<Longrightarrow> y \<in> user_slots \<Longrightarrow> leaf (mem t) c y = leaf (mem s) c y"
proof -
  have own: "get_entry (mem t) q i = get_entry (mem s) q i" if "c \<in> D" "q \<in> pages_of (mem s) c" "i < 1024" for c q i
    using that by (intro same) blast+
  have pages: "pages_of (mem t) c = pages_of (mem s) c" if "c \<in> D" for c by (rule pages_of_cong(1) [OF own [OF that]])
  show leaf: "leaf (mem t) c y = leaf (mem s) c y" if "c \<in> D" "y \<in> user_slots" for c y
    by (rule pages_of_cong(2) [OF own [OF that(1)] that(2)])
  have "mappings t D f = mappings s D f" for f
    using leaf by (auto simp: mappings_def slots_of_def)
  moreover have "as_wf t c" if "c \<in> D" for c
    using own [OF that, of c] t(2) by (intro as_wf_mono [OF spacesD(4) [OF inv that]]) (simp_all add: pages_of_def)
  moreover have "kernel_dir_ok t D"
    using spacesD(3) [OF inv] same [of "page_directory s"] pages unfolding kernel_dir_ok_def t(2,4) by simp
  moreover have "data_frame t D = data_frame s D" by (simp add: data_frame_def [abs_def] t(4) pages)
  ultimately show "spaces_inv t D"
    unfolding spaces_inv_def using t(1,3) spacesD(2,5-8) [OF inv] pages leaf by simp
qed

lemma store_writable:
  fixes s :: "'a vm_scheme" and b :: u8
  assumes inv: "spaces_inv s D" and d: "d \<in> D" and va: "user_addr va"
    and e: "leaf (mem s) d (slot_of va) = Some e" "is_writable e"
  defines "t \<equiv> s\<lparr>mem := (mem s)(physical e va := b)\<rparr>"
  shows "spaces_inv t D" "c \<in> D \<Longrightarrow> y \<in> user_slots \<Longrightarrow> leaf (mem t) c y = leaf (mem s) c y"
    "c \<in> D \<Longrightarrow> user_addr a \<Longrightarrow> byte_of t c a = (if c = d \<and> a = va then Some b else byte_of s c a)"
proof -
  note u = slot_of_user [OF va]
  have data: "data_frame s D (page_base e)" by (rule spacesD(6) [OF inv d u e(1)])
  obtain b0 where b0: "b0 < 4096" "physical e va = page_base e + of_nat b0" using physical_bytes [of va] by (auto simp: physical_def)
  have same: "get_entry (mem t) q i = get_entry (mem s) q i"
    if "q = page_directory s \<or> (\<exists>d\<in>D. q \<in> pages_of (mem s) d)" "i < 1024" for q i
  proof (rule get_entry_bytes_cong [OF _ that(2)])
    fix k :: nat assume k: "k < 4096"
    have "page_aligned q" "q \<noteq> page_base e"
      using that(1) tables_live [OF inv] data by (auto simp: data_frame_def)
    then have "q + of_nat k \<noteq> physical e va" using page_byte_eq_iff [of q "page_base e" k b0] k b0 by simp
    then show "mem t (q + of_nat k) = mem s (q + of_nat k)" by (simp add: t_def)
  qed
  have f: "pmm_inv t" "frame_live t q = frame_live s q" "frame_refs t = frame_refs s" "page_directory t = page_directory s" for q
    using spacesD(1) [OF inv] by (simp_all add: t_def frame_live_def)
  note C = spaces_cong [OF inv same f]
  show "spaces_inv t D" by (rule C(1))
  show leaf: "leaf (mem t) c y = leaf (mem s) c y" if "c \<in> D" "y \<in> user_slots" for c y by (rule C(2) [OF _ _ that])
  show "byte_of t c a = (if c = d \<and> a = va then Some b else byte_of s c a)" if c: "c \<in> D" and a: "user_addr a"
  proof (cases "leaf (mem s) c (slot_of a)")
    case None
    then have "\<not> (c = d \<and> a = va)" using e(1) by auto
    then show ?thesis using leaf [OF c slot_of_user [OF a]] None by (simp add: byte_of_def)
  next
    case (Some e1)
    note l = leaf [OF c slot_of_user [OF a]]
    have "physical e1 a = physical e va \<longleftrightarrow> c = d \<and> a = va"
    proof
      assume "physical e1 a = physical e va"
      then have p: "page_base e1 = page_base e" "a AND 0xFFF = va AND 0xFFF" by (simp_all add: physical_eq_iff)
      have "(c, slot_of a) \<in> mappings s D (frame_of (page_base e))"
        using c slot_of_user [OF a] Some p(1) by (auto simp: in_mappings)
      then have "c = d" "slot_of a = slot_of va" using spacesD(8) [OF inv d u e] by auto
      then show "c = d \<and> a = va" using address_eq p(2) by blast
    next
      assume "c = d \<and> a = va"
      then show "physical e1 a = physical e va" using Some e(1) by simp
    qed
    then show ?thesis using l Some by (simp add: byte_of_def t_def)
  qed
qed

text \<open>The places where a store still takes a fault. There is room when each of them can get a frame.\<close>

definition cow_places :: "'a vm_scheme \<Rightarrow> addr set \<Rightarrow> (addr \<times> nat \<times> nat) set" where
  "cow_places s D = {(d, x). d \<in> D \<and> x \<in> user_slots \<and> (\<exists>e. leaf (mem s) d x = Some e \<and> is_cow e \<and> \<not> is_writable e)}"

definition cow_room :: "'a vm_scheme \<Rightarrow> addr set \<Rightarrow> bool" where
  "cow_room s D \<longleftrightarrow> card (cow_places s D) \<le> free_frames s"

lemma finite_cow_places: "finite D \<Longrightarrow> finite (cow_places s D)"
  by (rule finite_subset [of _ "D \<times> user_slots"]) (auto simp: cow_places_def)

lemma cow_places_cong:
  "(\<And>c y. c \<in> D \<Longrightarrow> y \<in> user_slots \<Longrightarrow> leaf (mem t) c y = leaf (mem s) c y) \<Longrightarrow> cow_places t D = cow_places s D"
  by (auto simp: cow_places_def)

text \<open>A store of the running process, with the fault that it may take.\<close>

lemma user_store_ok:
  assumes inv: "spaces_inv s D" and d: "cr3 s \<in> D" and va: "user_addr va" and may: "may_store s (cr3 s) va"
    and room: "cow_room s D"
  shows "\<exists>t. user_store va b s = Some t \<and> spaces_inv t D \<and> cr3 t = cr3 s \<and> cow_room t D \<and>
    (\<forall>c\<in>D. \<forall>a. user_addr a \<longrightarrow> byte_of t c a = (if c = cr3 s \<and> a = va then Some b else byte_of s c a) \<and>
       (may_store s c a \<longrightarrow> may_store t c a))"
proof -
  note u = slot_of_user [OF va]
  obtain e where e: "leaf (mem s) (cr3 s) (slot_of va) = Some e" "is_writable e \<or> is_cow e" using may by (auto simp: may_store_def)
  show ?thesis
  proof (cases "is_writable e")
    case True
    note W = store_writable [OF inv d va e(1) True, where b = b]
    let ?t = "s\<lparr>mem := (mem s)(physical e va := b)\<rparr>"
    have "user_store va b s = Some ?t" using e(1) True by (simp add: user_store_def page_entry_leaf)
    moreover have "may_store ?t c a" if "c \<in> D" "user_addr a" "may_store s c a" for c a
      using W(2) [OF that(1) slot_of_user [OF that(2)]] that(3) by (simp add: may_store_def)
    moreover have "spaces_inv ?t D" using W(1) by blast
    moreover have "cow_room ?t D" using room cow_places_cong [of D ?t s] W(2) by (simp add: cow_room_def)
    ultimately show ?thesis using W(3) by (intro exI [of _ ?t]) simp
  next
    case False
    then have cow: "is_cow e" using e(2) by simp
    have place: "(cr3 s, slot_of va) \<in> cow_places s D" using d u e(1) cow False by (simp add: cow_places_def)
    note fin = finite_cow_places [OF spacesD(2) [OF inv], of s]
    have "0 < card (cow_places s D)" using place fin by (auto simp: card_gt_0_iff)
    then have free: "0 < free_frames s" using room by (simp add: cow_room_def)
    obtain t1 e1 where t1: "paging_handle_cow_fault va s = (True, t1)" "spaces_inv t1 D" "cr3 t1 = cr3 s"
      "free_frames s \<le> Suc (free_frames t1)" "is_writable e1"
      and l: "\<forall>c\<in>D. \<forall>y\<in>user_slots. leaf (mem t1) c y = (if c = cr3 s \<and> y = slot_of va then Some e1 else leaf (mem s) c y)"
      and by1: "\<forall>c\<in>D. \<forall>a. user_addr a \<longrightarrow> byte_of t1 c a = byte_of s c a"
      using cow_fault_keeps [OF inv d va e(1) cow free] by blast
    have e1: "leaf (mem t1) (cr3 t1) (slot_of va) = Some e1" using l d u t1(3) by simp
    let ?t = "t1\<lparr>mem := (mem t1)(physical e1 va := b)\<rparr>"
    have d1: "cr3 t1 \<in> D" using d t1(3) by simp
    note W = store_writable [OF t1(2) d1 va e1 t1(5), where b = b]
    have "(c, y) \<in> cow_places t1 D \<longleftrightarrow> (c, y) \<in> cow_places s D \<and> (c, y) \<noteq> (cr3 s, slot_of va)" for c y
    proof (cases "c \<in> D \<and> y \<in> user_slots")
      case True
      then have "leaf (mem t1) c y = (if c = cr3 s \<and> y = slot_of va then Some e1 else leaf (mem s) c y)" using l by blast
      then show ?thesis using t1(5) True by (cases "c = cr3 s \<and> y = slot_of va") (simp_all add: cow_places_def)
    qed (auto simp: cow_places_def)
    then have "cow_places t1 D = cow_places s D - {(cr3 s, slot_of va)}" by auto
    then have "card (cow_places t1 D) = card (cow_places s D) - 1" using place by (simp add: card_Diff_singleton)
    then have "card (cow_places t1 D) \<le> free_frames t1" using room t1(4) by (simp add: cow_room_def)
    then have "cow_room ?t D" using cow_places_cong [of D ?t t1] W(2) by (simp add: cow_room_def)
    moreover have "user_store va b s = Some ?t" using e(1) False t1(1,5) e1 by (simp add: user_store_def page_entry_leaf)
    moreover have "may_store ?t c a" if "c \<in> D" "user_addr a" "may_store s c a" for c a
      using W(2) [OF that(1) slot_of_user [OF that(2)]] l that t1(5) slot_of_user [OF that(2)] by (auto simp: may_store_def)
    moreover have "spaces_inv ?t D" using W(1) by blast
    ultimately show ?thesis using W(3) by1 t1(3) by (intro exI [of _ ?t]) simp
  qed
qed

section \<open>Fork leaves the other processes alone\<close>

text \<open>While the pages are shared, the child's directory and tables are new frames, and no page but theirs and
  the parent's tables changes.\<close>

definition clone_frame :: "'a vm_scheme \<Rightarrow> addr \<Rightarrow> addr \<Rightarrow> 'a vm_scheme \<Rightarrow> bool" where
  "clone_frame s0 parent child s \<longleftrightarrow> (\<forall>q\<in>pages_of (mem s) child. \<not> frame_live s0 q) \<and>
     (\<forall>q i. page_aligned q \<and> frame_live s0 q \<and> q \<notin> pages_of (mem s0) parent \<and> i < 1024 \<longrightarrow>
        get_entry (mem s) q i = get_entry (mem s0) q i) \<and>
     page_directory s = page_directory s0 \<and> cr3 s = cr3 s0 \<and>
     (\<forall>g. bitmap_test g s \<longrightarrow> bitmap_test g s0 \<or> g \<in> frame_of ` pages_of (mem s) child) \<and>
     (\<forall>i. 16 \<le> i \<and> i < 1024 \<and> is_present (get_entry (mem s) child i) \<longrightarrow> is_present (get_entry (mem s0) parent i))"

lemma map_user_page_regs:
  "page_directory (snd (paging_map_user_page dir phys va flags s)) = page_directory s"
  "cr3 (snd (paging_map_user_page dir phys va flags s)) = cr3 s"
proof -
  obtain a s1 where a: "pmm_alloc_frame s = (a, s1)" by fastforce
  then have "page_directory s1 = page_directory s" "cr3 s1 = cr3 s" using pmm_ops_vm(7,11) [of s] by simp_all
  then show "page_directory (snd (paging_map_user_page dir phys va flags s)) = page_directory s"
    "cr3 (snd (paging_map_user_page dir phys va flags s)) = cr3 s"
    by (simp_all add: paging_map_user_page_def Let_def a)
qed

lemma map_user_page_bits:
  fixes s :: "'a vm_scheme" and phys :: addr and flags :: u32
  assumes inv: "pmm_inv s" and wf: "as_wf s dir" and pd: "16 \<le> pd_index va"
    and room: "\<not> is_present (get_entry (mem s) dir (pd_index va)) \<Longrightarrow> 0 < free_frames s"
  defines "s' \<equiv> snd (paging_map_user_page dir phys va flags s)"
  shows "bitmap_test g s' \<Longrightarrow> bitmap_test g s \<or> g \<in> frame_of ` pages_of (mem s') dir"
    "pages_of (mem s) dir \<subseteq> pages_of (mem s') dir"
proof -
  note E = map_user_page_effect [OF inv wf pd room, where phys = phys and flags = flags, folded s'_def]
  note dir = as_wfD [OF wf]
  show "pages_of (mem s) dir \<subseteq> pages_of (mem s') dir"
  proof
    fix q assume "q \<in> pages_of (mem s) dir"
    then consider "q = dir" | i where "16 \<le> i" "i < 1024" "is_present (get_entry (mem s) dir i)" "q = page_base (get_entry (mem s) dir i)"
      by (auto simp: pages_of_def)
    then show "q \<in> pages_of (mem s') dir"
    proof cases
      case 2
      have "get_entry (mem s') dir i = get_entry (mem s) dir i"
      proof (cases "i = pd_index va")
        case True
        then have "is_present (get_entry (mem s) dir (pd_index va))" using 2(3) by simp
        then show ?thesis
          unfolding s'_def map_user_page_present [OF pd \<open>is_present (get_entry (mem s) dir (pd_index va))\<close>]
          using as_wf_table(1) [OF wf pd _ \<open>is_present (get_entry (mem s) dir (pd_index va))\<close>] dir 2(2)
          by (simp add: word_mem.get_put)
      qed (use E(9) [of i] 2 in simp)
      then show ?thesis using pages_ofI [of i "mem s'" dir] 2 by simp
    qed (simp add: pages_of_def)
  qed
  show "bitmap_test g s \<or> g \<in> frame_of ` pages_of (mem s') dir" if g: "bitmap_test g s'"
  proof (cases "is_present (get_entry (mem s) dir (pd_index va))")
    case True
    then show ?thesis using g by (simp add: s'_def map_user_page_present [OF pd])
  next
    case False
    obtain t s1 where alloc: "pmm_alloc_frame s = (t, s1)" "t \<noteq> 0" using free_frames_alloc [OF inv room [OF False]] by metis
    note fresh = frames.alloc_fresh [OF inv alloc] pmm_alloc_free [OF inv alloc]
    have ne: "t \<noteq> dir" using fresh dir(2) by (auto simp: frame_live_def)
    have m: "mem s' = set_entry t (pt_index va) (make_pte phys flags)
        (set_entry dir (pd_index va) (t OR PAGE_PRESENT OR PAGE_RW OR PAGE_USER) (zero_table t (mem s)))"
      "bitmap_test g s' \<longleftrightarrow> bitmap_test g s1" by (simp_all add: s'_def map_user_page_new [OF pd False alloc(1)])
    have "get_entry (mem s') dir (pd_index va) = t OR PAGE_PRESENT OR PAGE_RW OR PAGE_USER"
      using ne fresh dir(1) by (simp add: m(1) word_mem.get_put)
    then have "t \<in> pages_of (mem s') dir"
      using pages_ofI [of "pd_index va" "mem s'" dir] pd fresh by (simp add: page_base_pde)
    then show ?thesis using g m(2) fresh by auto
  qed
qed

lemma clone_page_frame:
  assumes inv: "clone_inv s0 parent child proc s" and frame: "clone_frame s0 parent child s" and fork: "forkable s0 parent"
    and x: "(pd, pt) \<in> user_slots" "(pd, pt) \<notin> proc" and pres: "is_present (get_entry (mem s0) parent pd)"
  shows "clone_frame s0 parent child (clone_page child (page_base (get_entry (mem s0) parent pd)) pd pt s)"
proof (cases "leaf (mem s0) parent (pd, pt)")
  case None
  have "get_entry (mem s) parent pd = get_entry (mem s0) parent pd"
    using inv x by (simp add: clone_inv_def user_slots_def)
  moreover have "leaf (mem s) parent (pd, pt) = None" using inv x None by (simp add: clone_inv_def)
  ultimately have "\<not> is_present (get_entry (mem s) (page_base (get_entry (mem s0) parent pd)) pt)"
    using pres by (simp add: leaf_def user_pte_def Let_def split: if_splits)
  then show ?thesis using frame by (simp add: clone_page_def Let_def)
next
  case (Some e)
  let ?T = "page_base (get_entry (mem s0) parent pd)"
  define s2 where "s2 = (pmm_frame_addref (page_base e) s)\<lparr>mem := set_entry ?T pt (share e) (mem s)\<rparr>"
  note S = clone_share_parent [OF inv fork x Some, folded s2_def]
  let ?va = "push_bit 22 (of_nat pd) OR push_bit 12 (of_nat pt) :: addr"
  let ?s' = "snd (paging_map_user_page child (page_base e) ?va (cow_flags_of e) s2)"
  have idx: "16 \<le> pd" "pd < 1024" "pt < 1024" using x(1) by (auto simp: user_slots_def)
  note va = slot_address [OF idx(2,3)]
  have T: "?T \<in> pages_of (mem s0) parent" by (rule pages_ofI [OF idx(1,2) pres])
  have room: "0 < free_frames s2" if "\<not> is_present (get_entry (mem s2) child (pd_index ?va))"
  proof -
    let ?A = "{k. 16 \<le> k \<and> k < 1024 \<and> is_present (get_entry (mem s0) parent k) \<and> \<not> is_present (get_entry (mem s) child k)}"
    have "pd \<in> ?A" using that idx pres S(8) by (simp add: va)
    moreover have "finite ?A" by (rule finite_subset [of _ "{..<1024}"]) auto
    ultimately have "0 < card ?A" by (subst card_gt_0_iff) auto
    then show ?thesis using inv S(11) by (simp add: clone_inv_def)
  qed
  have pd16: "16 \<le> pd_index ?va" using idx by (simp add: va)
  note E = map_user_page_effect [OF S(2,4) pd16 room, where phys = "page_base e" and flags = "cow_flags_of e"]
  have live: "frame_live s2 q" if "frame_live s0 q" for q
    using that inv S(12) by (simp add: frame_live_def clone_inv_def)
  have fresh: "\<not> frame_live s0 q" if "q \<in> pages_of (mem s2) child" for q
    using frame that S(5) by (simp add: clone_frame_def)
  have "\<not> frame_live s0 q" if "q \<in> pages_of (mem ?s') child" for q
    using E(4) that fresh live by blast
  moreover have "get_entry (mem ?s') q i = get_entry (mem s0) q i"
    if q: "page_aligned q" "frame_live s0 q" "q \<notin> pages_of (mem s0) parent" "i < 1024" for q i
  proof -
    have "get_entry (mem ?s') q i = get_entry (mem s2) q i" using E(8) [of q i] live fresh q by blast
    also have "\<dots> = get_entry (mem s) q i" using q T idx by (auto simp: s2_def word_mem.get_put)
    also have "\<dots> = get_entry (mem s0) q i" using frame q by (simp add: clone_frame_def)
    finally show ?thesis .
  qed
  moreover have "page_directory s2 = page_directory s" "cr3 s2 = cr3 s" by (simp_all add: s2_def)
  moreover have "bitmap_test g s0 \<or> g \<in> frame_of ` pages_of (mem ?s') child" if "bitmap_test g ?s'" for g
    using map_user_page_bits(1) [OF S(2,4) pd16 room that] map_user_page_bits(2) [OF S(2,4) pd16 room, of "page_base e" "cow_flags_of e"]
      frame S(5,12) unfolding clone_frame_def by blast
  moreover have "is_present (get_entry (mem s0) parent i)"
    if "16 \<le> i" "i < 1024" "is_present (get_entry (mem ?s') child i)" for i
    using E(5) [of i] that S(8) [OF that(2)] frame pres by (auto simp: clone_frame_def va)
  ultimately show ?thesis
    using frame unfolding S(1) clone_frame_def map_user_page_regs by simp
qed

lemma clone_table_frame:
  assumes inv: "clone_inv s0 parent child (slots_before pd 0) s" and frame: "clone_frame s0 parent child s"
    and fork: "forkable s0 parent" and pd: "16 \<le> pd" "pd < 1024"
  shows "clone_frame s0 parent child (clone_table child parent pd s)"
proof -
  have pde: "get_entry (mem s) parent pd = get_entry (mem s0) parent pd" using inv pd by (simp add: clone_inv_def)
  show ?thesis
  proof (cases "is_present (get_entry (mem s0) parent pd)")
    case True
    let ?f = "clone_page child (page_base (get_entry (mem s0) parent pd)) pd"
    have "clone_inv s0 parent child (slots_before pd 1024) (fold ?f [0..<1024] s) \<and> clone_frame s0 parent child (fold ?f [0..<1024] s)"
    proof (rule fold_upt_inv [where P = "\<lambda>k s. clone_inv s0 parent child (slots_before pd k) s \<and> clone_frame s0 parent child s"])
      show "clone_inv s0 parent child (slots_before pd 0) s \<and> clone_frame s0 parent child s" using inv frame by simp
      fix k u assume k: "0 \<le> k" "k < (1024 :: nat)" "clone_inv s0 parent child (slots_before pd k) u \<and> clone_frame s0 parent child u"
      have x: "(pd, k) \<in> user_slots" "(pd, k) \<notin> slots_before pd k" using pd k(2) by (simp_all add: user_slots_def slots_before_step)
      show "clone_inv s0 parent child (slots_before pd (Suc k)) (?f k u) \<and> clone_frame s0 parent child (?f k u)"
        using clone_page_inv [OF _ fork x True] clone_page_frame [OF _ _ fork x True] k pd by (simp add: slots_before_step)
    qed simp
    then show ?thesis using True pde by (simp add: clone_table_def Let_def ENTRIES_PER_TABLE_def)
  next
    case False
    then show ?thesis using frame pde by (simp add: clone_table_def)
  qed
qed

lemma clone_kernel_directory_frame:
  assumes inv: "pmm_inv s" and c: "paging_clone_kernel_directory s = (c, s1)" "c \<noteq> 0"
    and kdir: "page_aligned (page_directory s)" "frame_live s (page_directory s)"
      "\<forall>pd. 16 \<le> pd \<and> pd < 1024 \<longrightarrow> \<not> is_present (get_entry (mem s) (page_directory s) pd)"
  shows "clone_frame s parent c s1"
proof -
  let ?m = "\<lambda>n. fold (\<lambda>i m. set_entry c i (get_entry m (page_directory s) i) m) [0..<n] (mem s)"
  obtain p a where pa: "pmm_alloc_frame s = (p, a)" by fastforce
  then have "mem a = mem s" using pmm_ops_vm(3) [of s] by simp
  then have a: "pmm_alloc_frame s = (c, a)" "s1 = a\<lparr>mem := ?m 1024\<rparr>"
    using c(1) pa by (auto simp: paging_clone_kernel_directory_def ENTRIES_PER_TABLE_def)
  note fresh = frames.alloc_fresh [OF inv a(1) c(2)] pmm_alloc_free [OF inv a(1) c(2)]
  have ne: "c \<noteq> page_directory s" using fresh kdir(2) by (auto simp: frame_live_def)
  have copy: "get_entry (?m n) q j = (if q = c \<and> j < n then get_entry (mem s) (page_directory s) j
      else get_entry (mem s) q j)" if "page_aligned q" "n \<le> 1024" "j < 1024" for n q j
    using that(2,1,3) by (induction n arbitrary: q j) (use fresh kdir(1) ne in \<open>auto simp: word_mem.get_put less_Suc_eq\<close>)
  have child: "get_entry (mem s1) c i = get_entry (mem s) (page_directory s) i" if "i < 1024" for i
    using that fresh copy [of c 1024 i] by (simp add: a(2))
  have "pages_of (mem s1) c = {c}" using child kdir(3) by (auto simp: pages_of_def)
  moreover have "\<not> frame_live s c" using fresh by (simp add: frame_live_def)
  moreover have "get_entry (mem s1) q i = get_entry (mem s) q i" if "page_aligned q" "frame_live s q" "i < 1024" for q i
    using copy [of q 1024 i] that \<open>\<not> frame_live s c\<close> by (auto simp: a(2))
  moreover have "page_directory s1 = page_directory s" "cr3 s1 = cr3 s" using pmm_ops_vm(7,11) [of s] a by simp_all
  moreover have "bitmap_test g s1 \<longleftrightarrow> g = frame_of c \<or> bitmap_test g s" for g using fresh by (simp add: a(2))
  moreover have "\<not> is_present (get_entry (mem s1) c i)" if "16 \<le> i" "i < 1024" for i using child [OF that(2)] kdir(3) that by simp
  ultimately show ?thesis unfolding clone_frame_def by auto
qed

lemma clone_address_space_frame:
  assumes "forkable s parent" "page_aligned (page_directory s)" "frame_live s (page_directory s)"
    and "\<forall>pd. 16 \<le> pd \<and> pd < 1024 \<longrightarrow> \<not> is_present (get_entry (mem s) (page_directory s) pd)"
    and "card {pd. 16 \<le> pd \<and> pd < 1024 \<and> is_present (get_entry (mem s) parent pd)} < free_frames s"
  shows "\<exists>child s'. paging_clone_address_space parent s = (child, s') \<and> child \<noteq> 0 \<and> \<not> frame_live s child \<and>
    clone_inv s parent child user_slots s' \<and> clone_frame s parent child s'"
proof -
  have "0 < free_frames s" using assms(5) by simp
  from clone_kernel_directory_inv [OF assms(1) this assms(2-5)]
  obtain child s1 where c: "paging_clone_kernel_directory s = (child, s1)" "child \<noteq> 0" "\<not> frame_live s child"
    and inv: "clone_inv s parent child {} s1" by blast
  have frame: "clone_frame s parent child s1"
    using clone_kernel_directory_frame [OF _ c(1,2) assms(2-4)] assms(1) by (simp add: forkable_def)
  let ?f = "fold (clone_table child parent) [16..<1024] s1"
  have "clone_inv s parent child (slots_before 1024 0) ?f \<and> clone_frame s parent child ?f"
  proof (rule fold_upt_inv [where P = "\<lambda>k s'. clone_inv s parent child (slots_before k 0) s' \<and> clone_frame s parent child s'"])
    show "clone_inv s parent child (slots_before 16 0) s1 \<and> clone_frame s parent child s1"
      using inv frame by (simp add: slots_before_step)
    fix k u assume k: "16 \<le> k" "k < (1024 :: nat)" "clone_inv s parent child (slots_before k 0) u \<and> clone_frame s parent child u"
    then show "clone_inv s parent child (slots_before (Suc k) 0) (clone_table child parent k u) \<and>
        clone_frame s parent child (clone_table child parent k u)"
      using clone_table_inv [OF _ assms(1)] clone_table_frame [OF _ _ assms(1)] by simp
  qed simp
  then show ?thesis using c
    by (simp add: paging_clone_address_space_def IDENTITY_MAP_TABLES_def ENTRIES_PER_TABLE_def slots_before_step)
qed

definition forkable_space :: "'a vm_scheme \<Rightarrow> addr \<Rightarrow> bool" where
  "forkable_space s p \<longleftrightarrow> (\<forall>f<MAX_FRAMES. frame_refs s f + card (slots_of (mem s) p f) \<le> 255) \<and>
     card {pd. 16 \<le> pd \<and> pd < 1024 \<and> is_present (get_entry (mem s) p pd)} < free_frames s"

text \<open>Frames for the child's directory and tables, and for every page that may be copied afterwards.\<close>

definition mapped :: "'a vm_scheme \<Rightarrow> addr \<Rightarrow> (nat \<times> nat) set" where
  "mapped s p = {x \<in> user_slots. leaf (mem s) p x \<noteq> None}"

definition fork_room :: "'a vm_scheme \<Rightarrow> addr set \<Rightarrow> addr \<Rightarrow> bool" where
  "fork_room s D p \<longleftrightarrow> 1 + card {pd. 16 \<le> pd \<and> pd < 1024 \<and> is_present (get_entry (mem s) p pd)} +
     card (cow_places s D) + 2 * card (mapped s p) \<le> free_frames s"

text \<open>Fork: the child's memory is a copy of the parent's, and nobody's memory changes.\<close>

lemma fork_keeps:
  assumes inv: "spaces_inv s D" and p: "p \<in> D" and room: "forkable_space s p"
  shows "\<exists>c s'. paging_clone_address_space p s = (c, s') \<and> c \<noteq> 0 \<and> c \<notin> D \<and> spaces_inv s' (insert c D) \<and> cr3 s' = cr3 s \<and>
    (\<forall>a. user_addr a \<longrightarrow> byte_of s' c a = byte_of s p a \<and>
       (byte_of s p a \<noteq> None \<longrightarrow> may_store s' c a \<and> may_store s' p a)) \<and>
    (\<forall>d\<in>D. \<forall>a. user_addr a \<longrightarrow> byte_of s' d a = byte_of s d a \<and> (may_store s d a \<longrightarrow> may_store s' d a)) \<and>
    (fork_room s D p \<longrightarrow> cow_room s' (insert c D))"
proof -
  have slots: "slots_of (mem s) d f \<noteq> {} \<Longrightarrow> 0 < frame_refs s f" if "d \<in> D" for d f
    using leaf_live(2) [OF inv that] by (auto simp: slots_of_def)
  have fork: "forkable s p"
    using spacesD(1) [OF inv] spacesD(4) [OF inv p] room slots [OF p] by (simp add: forkable_def forkable_space_def)
  note kd = spacesD(3) [OF inv, unfolded kernel_dir_ok_def]
  obtain c s' where res: "paging_clone_address_space p s = (c, s')" "c \<noteq> 0" "\<not> frame_live s c"
    and K: "clone_inv s p c user_slots s'" and F: "clone_frame s p c s'"
    using clone_address_space_frame [OF fork] kd room unfolding forkable_space_def by blast
  have live: "frame_live s' q" if "frame_live s q" for q using that K by (simp add: clone_inv_def frame_live_def)
  have keep: "get_entry (mem s') q i = get_entry (mem s) q i"
    if "page_aligned q" "frame_live s q" "q \<notin> pages_of (mem s) p" "i < 1024" for q i
    using F that by (simp add: clone_frame_def)
  have other: "get_entry (mem s') q i = get_entry (mem s) q i" if "d \<in> D" "d \<noteq> p" "q \<in> pages_of (mem s) d" "i < 1024" for d q i
    using keep [of q i] tables_live(1) [OF inv that(1,3)] spacesD(5) [OF inv that(1) p that(2)] that by blast
  have c: "c \<notin> D" using res(3) as_wfD(2) [OF spacesD(4) [OF inv]] by blast
  have pages: "pages_of (mem s') d = pages_of (mem s) d" if "d \<in> D" for d
  proof (cases "d = p")
    case True
    then show ?thesis using K by (intro pages_of_dir_cong) (simp add: clone_inv_def)
  next
    case False
    show ?thesis by (rule pages_of_cong(1) [OF other [OF that False]])
  qed
  have cpages: "q \<in> pages_of (mem s') c \<Longrightarrow> \<not> frame_live s q" for q using F by (simp add: clone_frame_def)
  have leaf_p: "leaf (mem s') p x = map_option share (leaf (mem s) p x)" "leaf (mem s') c x = map_option share (leaf (mem s) p x)"
    if "x \<in> user_slots" for x using K that by (simp_all add: clone_inv_def)
  have leaf_d: "leaf (mem s') d x = leaf (mem s) d x" if "d \<in> D" "d \<noteq> p" "x \<in> user_slots" for d x
    by (rule pages_of_cong(2) [OF other [OF that(1,2)] that(3)])
  have base: "\<exists>e0. leaf (mem s) (if d = c then p else d) x = Some e0 \<and> page_base e0 = page_base e \<and> (is_writable e \<longrightarrow> d \<noteq> c \<and> d \<noteq> p)"
    if "d \<in> insert c D" "x \<in> user_slots" "leaf (mem s') d x = Some e" for d x e
  proof (cases "d = c \<or> d = p")
    case True
    then show ?thesis using that leaf_p [OF that(2)] c p by (auto simp: share_flags)
  next
    case False
    then have "leaf (mem s) d x = Some e" using leaf_d [of d x] that by simp
    then show ?thesis using False by simp
  qed
  have slots_eq: "slots_of (mem s') d f = slots_of (mem s) d f" if "d \<in> D" for d f
    using leaf_p(1) leaf_d [OF that] by (cases "d = p") (auto simp: slots_of_def)
  have slots_c: "slots_of (mem s') c f = slots_of (mem s) p f" for f using leaf_p(2) by (auto simp: slots_of_def)
  have maps: "mappings s' (insert c D) f = mappings s D f \<union> {c} \<times> slots_of (mem s) p f" for f
    using slots_eq slots_c c by (auto simp: mappings_def)
  have data: "data_frame s' (insert c D) (page_base e)"
    if "d \<in> insert c D" "x \<in> user_slots" "leaf (mem s') d x = Some e" for d x e
  proof -
    note h = that
    obtain e0 where e0: "leaf (mem s) (if d = c then p else d) x = Some e0" "page_base e0 = page_base e" using base [OF h] by blast
    have D: "(if d = c then p else d) \<in> D" using that(1) p by auto
    have "data_frame s D (page_base e)" "frame_live s (page_base e)"
      using spacesD(6) [OF inv D that(2) e0(1)] leaf_live(1) [OF inv D that(2) e0(1)] e0(2) by simp_all
    then show ?thesis using F cpages pages by (auto simp: data_frame_def clone_frame_def)
  qed
  have count: "card (mappings s' (insert c D) f) \<le> frame_refs s' f" if f: "f < MAX_FRAMES" for f
  proof -
    have "card (mappings s' (insert c D) f) \<le> card (mappings s D f) + card (slots_of (mem s) p f)"
      unfolding maps using card_Un_le [of "mappings s D f" "{c} \<times> slots_of (mem s) p f"] by (simp add: card_cartesian_product)
    also have "\<dots> \<le> frame_refs s f + card (slots_of (mem s) p f)" using spacesD(7) [OF inv f] by simp
    also have "\<dots> \<le> frame_refs s' f"
    proof (cases "bitmap_test f s")
      case True
      have "slots_of (mem s) p f \<inter> user_slots = slots_of (mem s) p f" by (auto simp: slots_of_def)
      then show ?thesis using K f True by (simp add: clone_inv_def)
    next
      case False
      then have "frame_refs s f = 0"
        using spacesD(1) [OF inv] f by (auto simp: pmm_inv_def frame_refs_def split: if_splits)
      moreover from this have "slots_of (mem s) p f = {}" using slots [OF p, of f] by auto
      ultimately show ?thesis by simp
    qed
    finally show ?thesis .
  qed
  have excl: "mappings s' (insert c D) (frame_of (page_base e)) = {(d, x)}"
    if "d \<in> insert c D" "x \<in> user_slots" "leaf (mem s') d x = Some e" "is_writable e" for d x e
  proof -
    have d: "d \<noteq> c" "d \<noteq> p" "d \<in> D" using base [OF that(1-3)] that(1,4) by auto
    then have l: "leaf (mem s) d x = Some e" using leaf_d that(2,3) by simp
    note m = spacesD(8) [OF inv d(3) that(2) l that(4)]
    have "slots_of (mem s) p (frame_of (page_base e)) = {}"
      using m d(2) p by (auto simp: mappings_def)
    then show ?thesis using m by (simp add: maps)
  qed
  have wf: "as_wf s' d" if "d \<in> insert c D" for d
  proof (cases "d = c \<or> d = p")
    case True
    then show ?thesis using K by (auto simp: clone_inv_def)
  next
    case False
    then have d: "d \<in> D" "d \<noteq> p" using that by auto
    show ?thesis using other [OF d, of d] live by (intro as_wf_mono [OF spacesD(4) [OF inv d(1)]]) (simp_all add: pages_of_def)
  qed
  have disj: "pages_of (mem s') d \<inter> pages_of (mem s') d' = {}" if "d \<in> insert c D" "d' \<in> insert c D" "d \<noteq> d'" for d d'
    using that cpages pages spacesD(5) [OF inv, of d d'] tables_live(1) [OF inv] by blast
  have "kernel_dir_ok s' (insert c D)"
  proof -
    have "page_directory s' = page_directory s" using F by (simp add: clone_frame_def)
    moreover have "page_directory s \<notin> pages_of (mem s') c" using cpages kd by blast
    moreover have "get_entry (mem s') (page_directory s) i = get_entry (mem s) (page_directory s) i" if "i < 1024" for i
      using keep kd p that by blast
    ultimately show ?thesis using kd live pages unfolding kernel_dir_ok_def by simp
  qed
  then have "spaces_inv s' (insert c D)"
    unfolding spaces_inv_def using K spacesD(2) [OF inv] wf disj data count excl by (simp add: clone_inv_def)
  moreover have bytes: "mem s' (physical e a) = mem s (physical e0 a)"
    if "d \<in> D" "x \<in> user_slots" "leaf (mem s) d x = Some e0" "page_base e0 = page_base e" for d x e e0 a
  proof (rule physical_same)
    fix b :: nat assume b: "b < 4096"
    have "frame_live s (page_base e)" "page_base e \<notin> pages_of (mem s) p"
      using leaf_live(1) [OF inv that(1-3)] spacesD(6) [OF inv that(1-3)] p that(4) by (simp_all add: data_frame_def)
    then show "mem s' (page_base e + of_nat b) = mem s (page_base e0 + of_nat b)"
      unfolding that(4) using keep [OF page_aligned_base] b by (intro bytes_of_entries) simp_all
  qed
  have "byte_of s' c a = byte_of s p a" "byte_of s' p a = byte_of s p a"
    "byte_of s p a \<noteq> None \<longrightarrow> may_store s' c a \<and> may_store s' p a" if a: "user_addr a" for a
  proof -
    note u = slot_of_user [OF a]
    show "byte_of s' c a = byte_of s p a" "byte_of s' p a = byte_of s p a"
      using leaf_p [OF u] bytes [OF p u, where a = a] by (cases "leaf (mem s) p (slot_of a)"; simp add: byte_of_def)+
    show "byte_of s p a \<noteq> None \<longrightarrow> may_store s' c a \<and> may_store s' p a"
      using leaf_p [OF u] share_flags by (auto simp: byte_of_def may_store_def)
  qed
  moreover have "byte_of s' d a = byte_of s d a \<and> (may_store s d a \<longrightarrow> may_store s' d a)"
    if "d \<in> D" "d \<noteq> p" "user_addr a" for d a
  proof -
    note u = slot_of_user [OF that(3)]
    show ?thesis using leaf_d [OF that(1,2) u] bytes [OF that(1) u, where a = a]
      by (cases "leaf (mem s) d (slot_of a)") (simp_all add: byte_of_def may_store_def)
  qed
  moreover have "may_store s p a \<Longrightarrow> byte_of s p a \<noteq> None" for a by (auto simp: may_store_def byte_of_def)
  moreover have "cr3 s' = cr3 s" using F by (simp add: clone_frame_def)
  moreover have "cow_room s' (insert c D)" if "fork_room s D p"
  proof -
    have "cow_places s' (insert c D) \<subseteq> cow_places s D \<union> ({c} \<times> mapped s p \<union> {p} \<times> mapped s p)"
    proof (intro subsetI)
      fix z assume "z \<in> cow_places s' (insert c D)"
      then obtain d x e where z: "z = (d, x)" "d \<in> insert c D" "x \<in> user_slots" "leaf (mem s') d x = Some e"
        "is_cow e" "\<not> is_writable e" by (auto simp: cow_places_def)
      show "z \<in> cow_places s D \<union> ({c} \<times> mapped s p \<union> {p} \<times> mapped s p)"
      proof (cases "d = c \<or> d = p")
        case True
        then have "leaf (mem s) p x \<noteq> None" using z(4) leaf_p [OF z(3)] by auto
        then show ?thesis using True z(1,3) by (auto simp: mapped_def)
      next
        case False
        then have "leaf (mem s) d x = Some e" using leaf_d [of d x] z(2-4) by simp
        then show ?thesis using False z by (auto simp: cow_places_def)
      qed
    qed
    moreover have fin: "finite (cow_places s D)" "finite (mapped s p)"
      using finite_cow_places [OF spacesD(2) [OF inv]] by (simp_all add: mapped_def)
    ultimately have "card (cow_places s' (insert c D)) \<le> card (cow_places s D \<union> ({c} \<times> mapped s p \<union> {p} \<times> mapped s p))"
      by (intro card_mono) simp_all
    also have "\<dots> \<le> card (cow_places s D) + card ({c} \<times> mapped s p \<union> {p} \<times> mapped s p)" by (rule card_Un_le)
    also have "\<dots> \<le> card (cow_places s D) + 2 * card (mapped s p)"
      using card_Un_le [of "{c} \<times> mapped s p" "{p} \<times> mapped s p"] by (simp add: card_cartesian_product)
    finally have places: "card (cow_places s' (insert c D)) \<le> card (cow_places s D) + 2 * card (mapped s p)" .
    let ?I = "{pd. 16 \<le> pd \<and> pd < 1024 \<and> is_present (get_entry (mem s) p pd)}"
    have pres: "is_present (get_entry (mem s) p i)" if "16 \<le> i" "i < 1024" "is_present (get_entry (mem s') c i)" for i
      using F that unfolding clone_frame_def by blast
    have bits: "bitmap_test g s \<or> g \<in> frame_of ` pages_of (mem s') c" if "bitmap_test g s'" for g
      using F that unfolding clone_frame_def by blast
    have sub: "pages_of (mem s') c \<subseteq> insert c ((\<lambda>i. page_base (get_entry (mem s') c i)) ` ?I)"
      unfolding pages_of_def using pres by blast
    have finI: "finite ?I" by simp
    then have finP: "finite (pages_of (mem s') c)" by (intro finite_subset [OF sub]) simp
    have "card (pages_of (mem s') c) \<le> card (insert c ((\<lambda>i. page_base (get_entry (mem s') c i)) ` ?I))"
      using sub finI by (intro card_mono) simp_all
    also have "\<dots> \<le> Suc (card ?I)"
      using card_insert_le_m1 card_image_le [OF finI, of "\<lambda>i. page_base (get_entry (mem s') c i)"]
      by (metis (no_types, lifting) card_insert_if finI finite_imageI le_SucI not_less_eq_eq)
    finally have pagesI: "card (pages_of (mem s') c) \<le> Suc (card ?I)" .
    have "{f. f < MAX_FRAMES \<and> \<not> bitmap_test f s} \<subseteq> {f. f < MAX_FRAMES \<and> \<not> bitmap_test f s'} \<union> frame_of ` pages_of (mem s') c"
      using bits by blast
    then have "free_frames s \<le> card ({f. f < MAX_FRAMES \<and> \<not> bitmap_test f s'} \<union> frame_of ` pages_of (mem s') c)"
      unfolding free_frames_def using finP by (intro card_mono) simp_all
    also have "\<dots> \<le> free_frames s' + card (frame_of ` pages_of (mem s') c)" unfolding free_frames_def by (rule card_Un_le)
    also have "\<dots> \<le> free_frames s' + Suc (card ?I)" using card_image_le [OF finP, of frame_of] pagesI by linarith
    finally show ?thesis using places that by (simp add: cow_room_def fork_room_def)
  qed
  ultimately have views: "spaces_inv s' (insert c D)" "cr3 s' = cr3 s" "fork_room s D p \<longrightarrow> cow_room s' (insert c D)"
    "\<forall>a. user_addr a \<longrightarrow> byte_of s' c a = byte_of s p a \<and> (byte_of s p a \<noteq> None \<longrightarrow> may_store s' c a \<and> may_store s' p a)"
    "\<forall>a. user_addr a \<longrightarrow> byte_of s' p a = byte_of s p a \<and> (may_store s p a \<longrightarrow> may_store s' p a)"
    "\<forall>d\<in>D. d \<noteq> p \<longrightarrow> (\<forall>a. user_addr a \<longrightarrow> byte_of s' d a = byte_of s d a \<and> (may_store s d a \<longrightarrow> may_store s' d a))"
    by blast+
  then have "\<forall>d\<in>D. \<forall>a. user_addr a \<longrightarrow> byte_of s' d a = byte_of s d a \<and> (may_store s d a \<longrightarrow> may_store s' d a)" by metis
  then show ?thesis using res(1,2) c views(1-4) by (intro exI [of _ c] exI [of _ s'] conjI)
qed

section \<open>The end of a process leaves the other processes alone\<close>

text \<open>A frame is given back only when its count goes down.\<close>

definition released :: "'a pmm_scheme \<Rightarrow> 'a pmm_scheme \<Rightarrow> bool" where
  "released s0 s \<longleftrightarrow> pmm_inv s \<and> (\<forall>g. frame_refs s g \<le> frame_refs s0 g \<and>
     (bitmap_test g s = bitmap_test g s0 \<or> frame_refs s g < frame_refs s0 g))"

lemma released_free:
  assumes "released s0 s"
  shows "released s0 (pmm_free_frame a s)"
proof -
  have inv: "pmm_inv s" using assms by (simp add: released_def)
  note f = pmm_free_spec [OF inv, of a]
  have refs: "frame_refs (pmm_free_frame a s) g = (if g = frame_of a then frame_refs s g - 1 else frame_refs s g)" for g
    using f by simp
  have bits: "bitmap_test g (pmm_free_frame a s) \<longleftrightarrow> bitmap_test g s \<and> \<not> (g = frame_of a \<and> frame_refs s g = 1)" for g
    using f by blast
  have "frame_refs (pmm_free_frame a s) g \<le> frame_refs s0 g \<and>
      (bitmap_test g (pmm_free_frame a s) = bitmap_test g s0 \<or> frame_refs (pmm_free_frame a s) g < frame_refs s0 g)" for g
  proof -
    have g: "frame_refs s g \<le> frame_refs s0 g" "bitmap_test g s = bitmap_test g s0 \<or> frame_refs s g < frame_refs s0 g"
      using assms by (simp_all add: released_def)
    then show ?thesis using refs [of g] bits [of g] by (cases "g = frame_of a \<and> frame_refs s g = 1") auto
  qed
  then show ?thesis using f by (simp add: released_def)
qed

lemma released_mem: "released s0 (s\<lparr>mem := m\<rparr>) = released s0 s" for s :: "'a vm_scheme"
  by (simp add: released_def)

lemma released_teardown:
  assumes "pmm_inv s"
  shows "released s (paging_free_address_space dir s)"
proof -
  have page: "released s (free_page t i u)" if "released s u" for t i and u :: "'a vm_scheme"
    using that by (simp add: free_page_def Let_def released_free released_mem)
  have pages: "released s (fold (free_page t) xs u)" if "released s u" for t xs and u :: "'a vm_scheme"
    using that by (induction xs arbitrary: u) (simp_all add: page)
  have table: "released s (free_table dir i u)" if "released s u" for i and u :: "'a vm_scheme"
    using that by (simp add: free_table_def Let_def released_mem released_free pages)
  have "released s (fold (free_table dir) xs u)" if "released s u" for xs and u :: "'a vm_scheme"
    using that by (induction xs arbitrary: u) (simp_all add: table)
  moreover have "released s s" using assms by (simp add: released_def)
  ultimately show ?thesis by (simp add: paging_free_address_space_def)
qed

text \<open>What \<open>task.c\<close> and \<open>syscall.c\<close> do with the directory of a process that is gone.\<close>

definition end_space :: "addr \<Rightarrow> 'a vm_scheme \<Rightarrow> 'a vm_scheme" where
  "end_space dir s = pmm_free_frame dir (paging_free_address_space dir s)"

lemma teardown_regs:
  "page_directory (paging_free_address_space dir s) = page_directory s" "cr3 (paging_free_address_space dir s) = cr3 s"
proof -
  have page: "page_directory (free_page t i u) = page_directory u \<and> cr3 (free_page t i u) = cr3 u" for t i and u :: "'a vm_scheme"
    by (simp add: free_page_def Let_def)
  have pages: "page_directory (fold (free_page t) xs u) = page_directory u \<and> cr3 (fold (free_page t) xs u) = cr3 u"
    for t xs and u :: "'a vm_scheme" by (induction xs arbitrary: u) (simp_all add: page)
  have table: "page_directory (free_table d i u) = page_directory u \<and> cr3 (free_table d i u) = cr3 u" for d i and u :: "'a vm_scheme"
    by (simp add: free_table_def Let_def pages)
  have "page_directory (fold (free_table dir) xs u) = page_directory u \<and> cr3 (fold (free_table dir) xs u) = cr3 u"
    for xs and u :: "'a vm_scheme" by (induction xs arbitrary: u) (simp_all add: table)
  then show "page_directory (paging_free_address_space dir s) = page_directory s" "cr3 (paging_free_address_space dir s) = cr3 s"
    by (simp_all add: paging_free_address_space_def)
qed

lemma end_space_keeps:
  assumes inv: "spaces_inv s D" and d: "d \<in> D"
  shows "spaces_inv (end_space d s) (D - {d})"
    "c \<in> D - {d} \<Longrightarrow> user_addr a \<Longrightarrow> byte_of (end_space d s) c a = byte_of s c a"
    "c \<in> D - {d} \<Longrightarrow> user_addr a \<Longrightarrow> may_store (end_space d s) c a = may_store s c a"
proof -
  let ?u = "paging_free_address_space d s" and ?t = "end_space d s"
  have mem_t: "mem ?t = mem ?u" "page_directory ?t = page_directory s" "cr3 ?t = cr3 s"
    by (simp_all add: end_space_def teardown_regs)
  have K: "free_inv s d 1024 0 ?u" by (rule free_address_space_inv [OF spacesD(1) [OF inv] spacesD(4) [OF inv d]])
  have keep: "get_entry (mem ?t) q i = get_entry (mem s) q i" if "page_aligned q" "q \<notin> pages_of (mem s) d" "i < 1024" for q i
    using K that unfolding mem_t free_inv_def by blast
  have other: "get_entry (mem ?t) q i = get_entry (mem s) q i"
    if "c \<in> D - {d}" "q \<in> pages_of (mem s) c" "i < 1024" for c q i
    using keep [of q i] tables_live(1) [OF inv _ that(2)] spacesD(5) [OF inv _ d, of c] that by blast
  have pages: "pages_of (mem ?t) c = pages_of (mem s) c" if "c \<in> D - {d}" for c by (rule pages_of_cong(1) [OF other [OF that]])
  have leaf: "leaf (mem ?t) c x = leaf (mem s) c x" if "c \<in> D - {d}" "x \<in> user_slots" for c x
    by (rule pages_of_cong(2) [OF other [OF that(1)] that(2)])
  have rel: "released s ?t" unfolding end_space_def by (rule released_free [OF released_teardown [OF spacesD(1) [OF inv]]])
  have refs_u: "frame_refs ?u f = frame_refs s f - (card (slots_of (mem s) d f) + card (tables_in (mem s) d 1024 f))" for f
  proof -
    have "slots_of (mem s) d f \<inter> slots_before 1024 0 = slots_of (mem s) d f" by (auto simp: slots_of_def slots_before_step)
    then show ?thesis using K by (simp add: free_inv_def)
  qed
  have inv_u: "pmm_inv ?u" using K by (simp add: free_inv_def)
  have refs: "frame_refs ?t f = frame_refs s f - card (slots_of (mem s) d f)"
    if "\<forall>q\<in>pages_of (mem s) d. frame_of q \<noteq> f" for f
  proof -
    have "tables_in (mem s) d 1024 f = {}" using that by (auto simp: tables_in_def dest: pages_ofI)
    moreover have "f \<noteq> frame_of d" using that by (auto simp: pages_of_def)
    ultimately show ?thesis using refs_u [of f] frames.release_refs [OF inv_u, of d] by (simp add: end_space_def)
  qed
  have apart: "\<forall>q'\<in>pages_of (mem s) d. frame_of q' \<noteq> frame_of q" if "page_aligned q" "q \<notin> pages_of (mem s) d" for q
    using that tables_live(1) [OF inv d] frame_addr_inj by blast
  have unmapped: "slots_of (mem s) d (frame_of q) = {}" if "page_aligned q" "\<And>e x. x \<in> user_slots \<Longrightarrow> leaf (mem s) d x = Some e \<Longrightarrow> page_base e \<noteq> q" for q
    using that frame_addr_inj [OF page_aligned_base that(1)] by (auto simp: slots_of_def)
  have live: "frame_live ?t q"
    if "frame_live s q" "page_aligned q" "q \<notin> pages_of (mem s) d" "\<And>e x. x \<in> user_slots \<Longrightarrow> leaf (mem s) d x = Some e \<Longrightarrow> page_base e \<noteq> q" for q
  proof -
    have "frame_refs ?t (frame_of q) = frame_refs s (frame_of q)"
      using refs [OF apart [OF that(2,3)]] unmapped [OF that(2,4)] by simp
    then have "bitmap_test (frame_of q) ?t = bitmap_test (frame_of q) s" using rel by (auto simp: released_def)
    then show ?thesis using that(1) by (simp add: frame_live_def)
  qed
  have table_live: "frame_live ?t q" if "c \<in> D - {d}" "q \<in> pages_of (mem s) c" for c q
  proof (rule live)
    show "frame_live s q" "page_aligned q" using tables_live(1) [OF inv _ that(2)] that(1) by auto
    show "q \<notin> pages_of (mem s) d" using spacesD(5) [OF inv _ d, of c] that by blast
    show "page_base e \<noteq> q" if "x \<in> user_slots" "leaf (mem s) d x = Some e" for e x
      using spacesD(6) [OF inv d that] \<open>q \<in> pages_of (mem s) c\<close> \<open>c \<in> D - {d}\<close> by (auto simp: data_frame_def)
  qed
  have kd: "kernel_dir_ok ?t (D - {d})"
  proof -
    note k = spacesD(3) [OF inv, unfolded kernel_dir_ok_def]
    have "frame_live ?t (page_directory s)"
    proof (rule live)
      show "page_base e \<noteq> page_directory s" if "x \<in> user_slots" "leaf (mem s) d x = Some e" for e x
        using spacesD(6) [OF inv d that] by (simp add: data_frame_def)
    qed (use k d in blast)+
    moreover have "get_entry (mem ?t) (page_directory s) i = get_entry (mem s) (page_directory s) i" if "i < 1024" for i
      using keep [of "page_directory s"] k d that by blast
    ultimately show ?thesis using k pages unfolding kernel_dir_ok_def mem_t(2) by simp
  qed
  have data: "data_frame ?t (D - {d}) (page_base e)" if "c \<in> D - {d}" "x \<in> user_slots" "leaf (mem ?t) c x = Some e" for c x e
    using spacesD(6) [OF inv _ that(2), of c e] leaf [OF that(1,2)] that pages by (auto simp: data_frame_def mem_t(2))
  have slots: "slots_of (mem ?t) c f = slots_of (mem s) c f" if "c \<in> D - {d}" for c f
    using leaf [OF that] by (auto simp: slots_of_def)
  have maps: "mappings ?t (D - {d}) f = mappings s D f - {d} \<times> slots_of (mem s) d f" for f
    using slots by (auto simp: mappings_def)
  have count: "card (mappings ?t (D - {d}) f) \<le> frame_refs ?t f" if f: "f < MAX_FRAMES" for f
  proof (cases "mappings ?t (D - {d}) f = {}")
    case False
    then obtain c x where m0: "(c, x) \<in> mappings ?t (D - {d}) f" by fast
    then obtain e where m: "c \<in> D - {d}" "x \<in> user_slots" "leaf (mem s) c x = Some e" "frame_of (page_base e) = f"
      using leaf [of c x] unfolding in_mappings by auto
    have "page_base e \<notin> pages_of (mem s) d" using spacesD(6) [OF inv _ m(2,3)] m(1) d by (auto simp: data_frame_def)
    then have r: "frame_refs ?t f = frame_refs s f - card (slots_of (mem s) d f)"
      using refs [OF apart [OF page_aligned_base]] m(4) by blast
    have "{d} \<times> slots_of (mem s) d f \<subseteq> mappings s D f" using d by (auto simp: mappings_def)
    then have "card (mappings ?t (D - {d}) f) = card (mappings s D f) - card (slots_of (mem s) d f)"
      unfolding maps by (subst card_Diff_subset) (simp_all add: card_cartesian_product)
    then show ?thesis using r spacesD(7) [OF inv f] by (simp add: diff_le_mono)
  qed simp
  have excl: "mappings ?t (D - {d}) (frame_of (page_base e)) = {(c, x)}"
    if "c \<in> D - {d}" "x \<in> user_slots" "leaf (mem ?t) c x = Some e" "is_writable e" for c x e
  proof -
    have "mappings s D (frame_of (page_base e)) = {(c, x)}"
      using spacesD(8) [OF inv _ that(2) _ that(4), of c] leaf [OF that(1,2)] that(1,3) by simp
    then show ?thesis using maps that(1) by auto
  qed
  have wf: "as_wf ?t c" if c: "c \<in> D - {d}" for c
  proof -
    have old: "as_wf s c" using spacesD(4) [OF inv] c by simp
    have dir: "get_entry (mem ?t) c i = get_entry (mem s) c i" if "i < 1024" for i
      using other [OF c _ that, of c] by (simp add: pages_of_def)
    have "frame_live ?t c" using table_live [OF c, of c] by (simp add: pages_of_def)
    moreover have "frame_live ?t (page_base (get_entry (mem s) c i))"
      if "16 \<le> i" "i < 1024" "is_present (get_entry (mem s) c i)" for i
      using table_live [OF c] pages_ofI [OF that] by simp
    moreover have "j = i" if "16 \<le> i" "i < 1024" "is_present (get_entry (mem ?t) c i)" "16 \<le> j" "j < 1024"
      "is_present (get_entry (mem ?t) c j)" "page_base (get_entry (mem ?t) c j) = page_base (get_entry (mem ?t) c i)" for i j
      using as_wf_inj [OF old that(1,2) _ that(4,5)] that(3,6,7) dir [OF that(2)] dir [OF that(5)] by simp
    moreover have "page_base (get_entry (mem s) c i) \<noteq> c" if "16 \<le> i" "i < 1024" "is_present (get_entry (mem s) c i)" for i
      by (rule as_wf_table(1) [OF old that])
    ultimately show ?thesis using as_wfD(1) [OF old] dir unfolding as_wf_def by (metis (no_types, lifting))
  qed
  show "spaces_inv ?t (D - {d})"
    unfolding spaces_inv_def using rel spacesD(2) [OF inv] kd wf spacesD(5) [OF inv] pages data count excl
    by (simp add: released_def)
  show "may_store ?t c a = may_store s c a" if "c \<in> D - {d}" "user_addr a"
    using leaf [OF that(1) slot_of_user [OF that(2)]] by (simp add: may_store_def)
  show "byte_of ?t c a = byte_of s c a" if c: "c \<in> D - {d}" and a: "user_addr a"
  proof (cases "leaf (mem s) c (slot_of a)")
    case None
    then show ?thesis using leaf [OF c slot_of_user [OF a]] by (simp add: byte_of_def)
  next
    case (Some e)
    have "page_base e \<notin> pages_of (mem s) d"
      using spacesD(6) [OF inv _ slot_of_user [OF a] Some] c d by (auto simp: data_frame_def)
    then have "mem ?t (page_base e + of_nat b) = mem s (page_base e + of_nat b)" if "b < 4096" for b
      using keep [OF page_aligned_base] that by (intro bytes_of_entries) simp_all
    then have "mem ?t (physical e a) = mem s (physical e a)" by (rule physical_same)
    then show ?thesis using leaf [OF c slot_of_user [OF a]] Some by (simp add: byte_of_def)
  qed
qed

section \<open>Runs\<close>

datatype space_op = Store addr addr u8 | Fork addr | End addr

text \<open>The kernel and the processor: a store runs with the process's directory in CR3.\<close>

fun run_op :: "space_op \<Rightarrow> addr set \<times> 'a vm_scheme \<Rightarrow> (addr set \<times> 'a vm_scheme) option" where
  "run_op (Store d va b) (D, s) = map_option (Pair D) (user_store va b (paging_switch_directory d s))"
| "run_op (Fork p) (D, s) = (let (c, s) = paging_clone_address_space p s in Some (insert c D, s))"
| "run_op (End d) (D, s) = Some (D - {d}, end_space d s)"

text \<open>The specification: every process has a memory of its own.\<close>

type_synonym memories = "addr \<Rightarrow> (addr \<Rightarrow> u8 option) option"

definition memories_of :: "addr set \<times> 'a vm_scheme \<Rightarrow> memories" where
  "memories_of Ds = (\<lambda>d. if d \<in> fst Ds then Some (\<lambda>va. if user_addr va then byte_of (snd Ds) d va else None) else None)"

fun spec_op :: "space_op \<Rightarrow> addr \<Rightarrow> memories \<Rightarrow> memories" where
  "spec_op (Store d va b) _ m = m(d := map_option (\<lambda>v. v(va \<mapsto> b)) (m d))"
| "spec_op (Fork p) child m = m(child := m p)"
| "spec_op (End d) _ m = m(d := None)"

fun allowed :: "space_op \<Rightarrow> addr set \<times> 'a vm_scheme \<Rightarrow> bool" where
  "allowed (Store d va b) (D, s) = (d \<in> D \<and> user_addr va \<and> may_store s d va \<and> cow_room s D)"
| "allowed (Fork p) (D, s) = (p \<in> D \<and> forkable_space s p)"
| "allowed (End d) (D, s) = (d \<in> D)"

lemma switch_same:
  "spaces_inv (paging_switch_directory d s) D = spaces_inv s D" "byte_of (paging_switch_directory d s) = byte_of s"
  "may_store (paging_switch_directory d s) = may_store s" "cow_room (paging_switch_directory d s) D = cow_room s D"
  by (simp_all add: paging_switch_directory_def spaces_inv_def kernel_dir_ok_def as_wf_def frame_live_def data_frame_def
      mappings_def byte_of_def [abs_def] may_store_def [abs_def] cow_room_def cow_places_def free_frames_def pmm_inv_def counts_ok_def
      used_count_def bitmap_test_def frame_refs_def [abs_def])

lemma switched_store_ok:
  assumes "spaces_inv s D" "d \<in> D" "user_addr va" "may_store s d va" "cow_room s D"
  shows "\<exists>t. user_store va b (paging_switch_directory d s) = Some t \<and> spaces_inv t D \<and> cow_room t D \<and>
    (\<forall>c\<in>D. \<forall>a. user_addr a \<longrightarrow> byte_of t c a = (if c = d \<and> a = va then Some b else byte_of s c a) \<and>
       (may_store s c a \<longrightarrow> may_store t c a))"
proof -
  have "cr3 (paging_switch_directory d s) = d" by (simp add: paging_switch_directory_def)
  then show ?thesis using user_store_ok [of "paging_switch_directory d s" D va b] assms by (auto simp: switch_same)
qed

section \<open>Properties\<close>

text \<open>C2: the kernel's address spaces implement separate memories. Whatever the processes share inside, a
  store of a process changes its own memory at that address only, fork gives a new process a copy of
  the parent's memory, and the end of a process removes its memory and no other; each of these
  operations succeeds where it is allowed, and keeps the invariant that ties the page tables of all
  processes to the reference counts.\<close>

theorem address_spaces_refine:
  assumes inv: "spaces_inv s D" and ok: "allowed oper (D, s)"
  shows "\<exists>D' s' child. run_op oper (D, s) = Some (D', s') \<and> spaces_inv s' D' \<and>
    memories_of (D', s') = spec_op oper child (memories_of (D, s)) \<and> (\<forall>p. oper = Fork p \<longrightarrow> child \<notin> D \<and> D' = insert child D)"
proof (cases oper)
  case (Store d va b)
  then have a: "d \<in> D" "user_addr va" "may_store s d va" "cow_room s D" using ok by simp_all
  obtain t where t: "user_store va b (paging_switch_directory d s) = Some t" "spaces_inv t D"
    "\<forall>c\<in>D. \<forall>a. user_addr a \<longrightarrow> byte_of t c a = (if c = d \<and> a = va then Some b else byte_of s c a)"
    using switched_store_ok [OF inv a, of b] by blast
  have "memories_of (D, t) = spec_op oper d (memories_of (D, s))"
    using t(3) a by (auto simp: Store memories_of_def fun_eq_iff)
  then show ?thesis using t(1,2) by (auto simp: Store)
next
  case (Fork p)
  then have a: "p \<in> D" "forkable_space s p" using ok by simp_all
  obtain c t where t: "paging_clone_address_space p s = (c, t)" "c \<notin> D" "spaces_inv t (insert c D)"
    "\<forall>a. user_addr a \<longrightarrow> byte_of t c a = byte_of s p a" "\<forall>d\<in>D. \<forall>a. user_addr a \<longrightarrow> byte_of t d a = byte_of s d a"
    using fork_keeps [OF inv a] by blast
  have "memories_of (insert c D, t) = spec_op oper c (memories_of (D, s))"
    using t(2,4,5) a(1) by (auto simp: Fork memories_of_def fun_eq_iff)
  then show ?thesis using t(1-3) by (intro exI [of _ "insert c D"] exI [of _ t] exI [of _ c]) (simp add: Fork)
next
  case (End d)
  then have d: "d \<in> D" using ok by simp
  have "memories_of (D - {d}, end_space d s) = spec_op oper d (memories_of (D, s))"
    using end_space_keeps(2) [OF inv d] by (auto simp: End memories_of_def fun_eq_iff)
  then show ?thesis using end_space_keeps(1) [OF inv d] by (auto simp: End)
qed

text \<open>The process of \<open>Paging\<close>'s example, whose one page is copy-on-write: it forks.\<close>

lemma demo_spaces: "spaces_inv demo_vm {0x100000}"
proof -
  have pages: "pages_of demo_mem 0x100000 = {0x100000, 0x101000}"
  proof -
    have "pages_of demo_mem 0x100000 = insert 0x100000 ((\<lambda>pd. page_base (get_entry demo_mem 0x100000 pd)) `
        {pd. 16 \<le> pd \<and> pd < 1024 \<and> is_present (get_entry demo_mem 0x100000 pd)})"
      unfolding pages_of_def by blast
    then show ?thesis unfolding demo_tables by simp
  qed
  have maps: "mappings demo_vm {0x100000} f = (if f = 258 then {(0x100000, 16, 0)} else {})" for f
    by (auto simp: mappings_def demo_slots)
  have "kernel_dir_ok demo_vm {0x100000}"
    by (simp add: kernel_dir_ok_def pages frame_live_def frame_of_def)
  moreover have "\<not> is_writable 0x102205" by (simp add: is_writable_def PAGE_RW_def)
  ultimately show ?thesis
    unfolding spaces_inv_def using demo_vm_inv demo_vm_wf maps
    by (auto simp: demo_leaf data_frame_def pages MAX_FRAMES_val demo_frame_refs split: if_splits)
qed

lemma demo_forkable_space: "forkable_space demo_vm 0x100000"
  unfolding forkable_space_def demo_vm_simps demo_tables demo_free_frames
  by (simp add: demo_slots demo_frame_refs)

theorem address_spaces_refine_witness:
  "\<exists>D' s' child. run_op (Fork 0x100000) ({0x100000}, demo_vm) = Some (D', s') \<and> spaces_inv s' D' \<and>
     memories_of (D', s') child = memories_of ({0x100000}, demo_vm) 0x100000 \<and> child \<noteq> 0x100000"
proof -
  have "allowed (Fork 0x100000) ({0x100000}, demo_vm)" using demo_forkable_space by simp
  from address_spaces_refine [OF demo_spaces this] show ?thesis by fastforce
qed

end
