(* ===== verification/Loading.thy ===== *)
theory Loading
  imports Isolation
begin

text \<open>
  What a program that is being loaded cannot touch. The pages of a set that is in use before stay in
  use, with the same bytes and the same reference counts, whatever \<open>elf.c\<close> finds in the image, also
  when it runs out of frames in the middle, and when the half-built directory is torn down again. No
  condition is put on the image here: its headers may be nonsense.
\<close>

section \<open>Pages that stay as they are\<close>

definition untouched :: "addr set \<Rightarrow> 'a vm_scheme \<Rightarrow> 'a vm_scheme \<Rightarrow> bool" where
  "untouched F s t \<longleftrightarrow> page_directory t = page_directory s \<and>
     (\<forall>q\<in>F. frame_live t q = frame_live s q \<and> frame_refs t (frame_of q) = frame_refs s (frame_of q) \<and>
       (\<forall>b<4096. mem t (q + of_nat b) = mem s (q + of_nat b)))"

lemma untouched_refl [simp]: "untouched F s s"
  by (simp add: untouched_def)

lemma untouched_trans: "untouched F s t \<Longrightarrow> untouched F t u \<Longrightarrow> untouched F s u"
  by (simp add: untouched_def)

lemma untouched_mono: "untouched F s t \<Longrightarrow> G \<subseteq> F \<Longrightarrow> untouched G s t"
  unfolding untouched_def by blast

lemma untouched_entry: "untouched F s t \<Longrightarrow> q \<in> F \<Longrightarrow> i < 1024 \<Longrightarrow> get_entry (mem t) q i = get_entry (mem s) q i"
  unfolding untouched_def by (intro get_entry_bytes_cong) simp_all

text \<open>The pages that the processes and the kernel directory consist of.\<close>

definition space_pages :: "'a vm_scheme \<Rightarrow> addr set \<Rightarrow> addr set" where
  "space_pages s D = {page_directory s} \<union> (\<Union>d\<in>D. pages_of (mem s) d) \<union>
     {page_base e |d x e. d \<in> D \<and> x \<in> user_slots \<and> leaf (mem s) d x = Some e}"

lemma space_pages_live:
  assumes "spaces_inv s D" "q \<in> space_pages s D"
  shows "page_aligned q" "frame_live s q"
  using assms(2) tables_live [OF assms(1)] leaf_live(1) [OF assms(1)] by (auto simp: space_pages_def)

text \<open>When these pages are untouched, so are the invariant and the memories of all processes.\<close>

lemma untouched_spaces:
  assumes inv: "spaces_inv s D" and un: "untouched (space_pages s D) s t" and t: "pmm_inv t"
  shows "spaces_inv t D" "memories_of (D, t) = memories_of (D, s)" "space_pages t D = space_pages s D"
    "c \<in> D \<Longrightarrow> y \<in> user_slots \<Longrightarrow> leaf (mem t) c y = leaf (mem s) c y"
proof -
  have pd: "page_directory t = page_directory s" using un by (simp add: untouched_def)
  have live: "frame_live t q = frame_live s q" and refs: "frame_refs t (frame_of q) = frame_refs s (frame_of q)"
    if "q \<in> space_pages s D" for q using un that by (simp_all add: untouched_def)
  have tab: "q \<in> space_pages s D" if "c \<in> D" "q \<in> pages_of (mem s) c" for c q using that by (auto simp: space_pages_def)
  have data: "page_base e \<in> space_pages s D" if "c \<in> D" "x \<in> user_slots" "leaf (mem s) c x = Some e" for c x e
    using that unfolding space_pages_def by blast
  have own: "get_entry (mem t) q i = get_entry (mem s) q i" if "c \<in> D" "q \<in> pages_of (mem s) c" "i < 1024" for c q i
    using untouched_entry [OF un tab [OF that(1,2)] that(3)] .
  have pages: "pages_of (mem t) c = pages_of (mem s) c" if "c \<in> D" for c by (rule pages_of_cong(1) [OF own [OF that]])
  show leaf: "leaf (mem t) c y = leaf (mem s) c y" if "c \<in> D" "y \<in> user_slots" for c y
    by (rule pages_of_cong(2) [OF own [OF that(1)] that(2)])
  have maps: "mappings t D f = mappings s D f" for f using leaf by (auto simp: mappings_def slots_of_def)
  have wf: "as_wf t c" if c: "c \<in> D" for c
  proof -
    have old: "as_wf s c" by (rule spacesD(4) [OF inv c])
    have dir: "get_entry (mem t) c i = get_entry (mem s) c i" if "i < 1024" for i
      using own [OF c _ that, of c] by (simp add: pages_of_def)
    have "frame_live t c" using live [OF tab [OF c, of c]] as_wfD(2) [OF old] by (simp add: pages_of_def)
    moreover have "frame_live t (page_base (get_entry (mem s) c i))"
      if "16 \<le> i" "i < 1024" "is_present (get_entry (mem s) c i)" for i
      using live [OF tab [OF c pages_ofI [OF that]]] as_wf_table(2) [OF old that] by simp
    moreover have "j = i" if "16 \<le> i" "i < 1024" "is_present (get_entry (mem t) c i)" "16 \<le> j" "j < 1024"
      "is_present (get_entry (mem t) c j)" "page_base (get_entry (mem t) c j) = page_base (get_entry (mem t) c i)" for i j
      using as_wf_inj [OF old that(1,2) _ that(4,5)] that(3,6,7) dir [OF that(2)] dir [OF that(5)] by simp
    moreover have "page_base (get_entry (mem s) c i) \<noteq> c" if "16 \<le> i" "i < 1024" "is_present (get_entry (mem s) c i)" for i
      by (rule as_wf_table(1) [OF old that])
    ultimately show ?thesis using as_wfD(1) [OF old] dir unfolding as_wf_def by (metis (no_types, lifting))
  qed
  have kd: "kernel_dir_ok t D"
  proof -
    note k = spacesD(3) [OF inv, unfolded kernel_dir_ok_def]
    have "page_directory s \<in> space_pages s D" by (simp add: space_pages_def)
    then show ?thesis using k pages live untouched_entry [OF un] unfolding kernel_dir_ok_def pd by simp
  qed
  have count: "card (mappings t D f) \<le> frame_refs t f" if f: "f < MAX_FRAMES" for f
  proof (cases "mappings s D f = {}")
    case False
    then obtain c x where "(c, x) \<in> mappings s D f" by fast
    then obtain e where e: "c \<in> D" "x \<in> user_slots" "leaf (mem s) c x = Some e" "frame_of (page_base e) = f"
      unfolding in_mappings by auto
    then have "frame_refs t f = frame_refs s f" using refs [OF data [OF e(1-3)]] by simp
    then show ?thesis using spacesD(7) [OF inv f] by (simp add: maps)
  qed (simp add: maps)
  have dataf: "data_frame t D = data_frame s D" by (simp add: data_frame_def [abs_def] pd pages)
  show "spaces_inv t D"
    unfolding spaces_inv_def using t spacesD(2,5,6,8) [OF inv] kd wf pages leaf maps count dataf by simp
  show "space_pages t D = space_pages s D"
    unfolding space_pages_def pd using pages leaf by (auto 0 3)
  have "byte_of t c a = byte_of s c a" if c: "c \<in> D" and a: "user_addr a" for c a
  proof (cases "leaf (mem s) c (slot_of a)")
    case None
    then show ?thesis using leaf [OF c slot_of_user [OF a]] by (simp add: byte_of_def)
  next
    case (Some e)
    have "mem t (page_base e + of_nat b) = mem s (page_base e + of_nat b)" if "b < 4096" for b
      using un data [OF c slot_of_user [OF a] Some] that by (simp add: untouched_def)
    then have "mem t (physical e a) = mem s (physical e a)" by (rule physical_same)
    then show ?thesis using leaf [OF c slot_of_user [OF a]] Some by (simp add: byte_of_def)
  qed
  then show "memories_of (D, t) = memories_of (D, s)" by (auto simp: memories_of_def fun_eq_iff)
qed

section \<open>A directory of one's own\<close>

text \<open>Nothing that a directory's user half leads to is in the set \<open>F\<close> of pages.\<close>

definition leads_out :: "addr set \<Rightarrow> addr \<Rightarrow> memory \<Rightarrow> bool" where
  "leads_out F dir m \<longleftrightarrow> (\<forall>pd. 16 \<le> pd \<and> pd < 1024 \<and> is_present (get_entry m dir pd) \<longrightarrow>
     page_base (get_entry m dir pd) \<notin> insert dir F \<and>
     (\<forall>pt<1024. is_present (get_entry m (page_base (get_entry m dir pd)) pt) \<longrightarrow>
        page_base (get_entry m (page_base (get_entry m dir pd)) pt) \<notin> F))"

definition own_space :: "addr set \<Rightarrow> addr \<Rightarrow> 'a vm_scheme \<Rightarrow> bool" where
  "own_space F dir s \<longleftrightarrow> pmm_inv s \<and> page_aligned dir \<and> dir \<noteq> 0 \<and> frame_live s dir \<and> dir \<notin> F \<and>
     (\<forall>q\<in>F. page_aligned q \<and> frame_live s q \<and> q \<noteq> 0) \<and> leads_out F dir (mem s) \<and>
     (\<forall>pd. 16 \<le> pd \<and> pd < 1024 \<and> is_present (get_entry (mem s) dir pd) \<longrightarrow>
        frame_live s (page_base (get_entry (mem s) dir pd)))"

text \<open>An allocation; no frame is the address 0.\<close>

lemma alloc_untouched:
  assumes inv: "pmm_inv s" and F: "\<forall>q\<in>F. page_aligned q \<and> frame_live s q" and alloc: "pmm_alloc_frame s = (d, s1)"
  shows "untouched F s s1" "pmm_inv s1" "mem s1 = mem s" "frame_live s q \<Longrightarrow> frame_live s1 q" "page_aligned d"
    "d \<noteq> 0 \<Longrightarrow> \<not> frame_live s d \<and> frame_live s1 d \<and> d \<notin> F"
proof -
  show m: "mem s1 = mem s" using pmm_ops_vm(3) [of s] alloc by simp
  have pd: "page_directory s1 = page_directory s" using pmm_ops_vm(11) [of s] alloc by simp
  show "pmm_inv s1" using pmm_alloc_frame_inv [OF inv] alloc by simp
  have "page_aligned d \<and> (frame_live s q \<longrightarrow> frame_live s1 q) \<and>
    (d \<noteq> 0 \<longrightarrow> \<not> frame_live s d \<and> frame_live s1 d \<and> d \<notin> F) \<and> untouched F s s1" for q
  proof (cases "d = 0")
    case True
    then have "s1 = s" using frames.alloc_none [OF inv] alloc by simp
    then show ?thesis using True by (simp add: page_aligned_def)
  next
    case False
    note fresh = frames.alloc_fresh [OF inv alloc False] pmm_alloc_free [OF inv alloc False]
    have "d \<notin> F" using F fresh by (auto simp: frame_live_def)
    moreover have "frame_of q \<noteq> frame_of d" if "q \<in> F" for q
      using that F fresh frame_addr_inj [of q d] calculation by blast
    ultimately show ?thesis using fresh m pd by (simp add: frame_live_def untouched_def)
  qed
  then show "untouched F s s1" "frame_live s q \<Longrightarrow> frame_live s1 q" "page_aligned d"
    "d \<noteq> 0 \<Longrightarrow> \<not> frame_live s d \<and> frame_live s1 d \<and> d \<notin> F" by blast+
qed

lemma map_own:
  fixes s :: "'a vm_scheme" and va :: addr and flags :: u32
  assumes priv: "own_space F dir s" and phys: "page_base phys \<notin> F"
  defines "t \<equiv> snd (paging_map_user_page dir phys va flags s)"
  shows "own_space F dir t \<and> untouched F s t"
proof (cases "16 \<le> pd_index va")
  case False
  then show ?thesis using priv by (simp add: t_def paging_map_user_page_def IDENTITY_MAP_TABLES_def)
next
  case pd: True
  have inv: "pmm_inv s" and dir: "page_aligned dir" "dir \<noteq> 0" "frame_live s dir" "dir \<notin> F"
    and F: "\<forall>q\<in>F. page_aligned q \<and> frame_live s q \<and> q \<noteq> 0" and out: "leads_out F dir (mem s)"
    and live: "\<And>i. 16 \<le> i \<Longrightarrow> i < 1024 \<Longrightarrow> is_present (get_entry (mem s) dir i) \<Longrightarrow> frame_live s (page_base (get_entry (mem s) dir i))"
    using priv by (simp_all add: own_space_def)
  have tab: "page_base (get_entry (mem s) dir i) \<noteq> dir" "page_base (get_entry (mem s) dir i) \<notin> F"
    "\<And>j. j < 1024 \<Longrightarrow> is_present (get_entry (mem s) (page_base (get_entry (mem s) dir i)) j) \<Longrightarrow>
      page_base (get_entry (mem s) (page_base (get_entry (mem s) dir i)) j) \<notin> F"
    if "16 \<le> i" "i < 1024" "is_present (get_entry (mem s) dir i)" for i
    using out that unfolding leads_out_def by blast+
  have fr: "page_aligned q" "q \<noteq> 0" if "q \<in> F" for q using that F by blast+
  show ?thesis
  proof (cases "is_present (get_entry (mem s) dir (pd_index va))")
    case present: True
    let ?T = "page_base (get_entry (mem s) dir (pd_index va))"
    have t: "t = s\<lparr>mem := set_entry ?T (pt_index va) (make_pte phys flags) (mem s)\<rparr>"
      by (simp add: t_def map_user_page_present [OF pd present])
    have T: "?T \<noteq> dir" "?T \<notin> F" using tab [OF pd _ present] by simp_all
    have d: "get_entry (mem t) dir i = get_entry (mem s) dir i" if "i < 1024" for i
      using that T dir by (simp add: t word_mem.get_put)
    have e: "get_entry (mem t) (page_base q) j = (if page_base q = ?T \<and> j = pt_index va then make_pte phys flags
        else get_entry (mem s) (page_base q) j)" if "j < 1024" for q j
      using that by (auto simp: t word_mem.get_put)
    have "leads_out F dir (mem t)"
      unfolding leads_out_def using tab phys by (auto simp: d e split: if_splits)
    moreover have "pmm_inv t" "frame_live t q = frame_live s q" for q using inv by (simp_all add: t frame_live_def)
    ultimately have "own_space F dir t"
      using dir F live unfolding own_space_def by (auto simp: d)
    moreover have "untouched F s t"
      using T fr by (auto simp: untouched_def t frame_live_def intro!: set_entry_other_page)
    ultimately show ?thesis by blast
  next
    case absent: False
    obtain T s1 where alloc: "pmm_alloc_frame s = (T, s1)" by fastforce
    note a = alloc_untouched [OF inv _ alloc, of F]
    have F': "\<forall>q\<in>F. page_aligned q \<and> frame_live s q" using F by blast
    have T: "page_aligned T" "T \<noteq> dir" "T \<notin> F" "frame_live s1 T"
      using a(5,6) [OF F'] dir F inv alloc frames.alloc_none [OF inv] by (cases "T = 0"; force simp: frame_live_def pmm_inv_def frame_of_def)+
    have t: "t = s1\<lparr>mem := set_entry T (pt_index va) (make_pte phys flags)
       (set_entry dir (pd_index va) (T OR PAGE_PRESENT OR PAGE_RW OR PAGE_USER) (zero_table T (mem s)))\<rparr>"
      by (simp add: t_def map_user_page_new [OF pd absent alloc])
    have d: "get_entry (mem t) dir i = (if i = pd_index va then T OR PAGE_PRESENT OR PAGE_RW OR PAGE_USER
        else get_entry (mem s) dir i)" if "i < 1024" for i
      using that T dir by (simp add: t word_mem.get_put get_zero_table)
    have e: "get_entry (mem t) q j = (if q = T then if j = pt_index va then make_pte phys flags else 0
        else get_entry (mem s) q j)" if "j < 1024" "page_aligned q" "q \<noteq> dir" for q j
      using that T dir by (simp add: t word_mem.get_put get_zero_table)
    have base: "page_base (T OR PAGE_PRESENT OR PAGE_RW OR PAGE_USER) = T" by (rule page_base_pde(2) [OF T(1)])
    have "leads_out F dir (mem t)"
      unfolding leads_out_def using tab phys T by (auto simp: d e base split: if_splits)
    moreover have lt: "frame_live t q = frame_live s1 q" for q by (simp add: t frame_live_def)
    moreover have "frame_live t (page_base (get_entry (mem t) dir i))"
      if "16 \<le> i" "i < 1024" "is_present (get_entry (mem t) dir i)" for i
      using that T live a(4) [OF F'] unfolding lt by (auto simp: d base split: if_splits)
    ultimately have "own_space F dir t"
      using priv a(2,4) [OF F'] unfolding own_space_def by (simp add: t)
    moreover have "mem t (q + of_nat b) = mem s1 (q + of_nat b)" if "q \<in> F" "b < 4096" for q b
    proof -
      have "T \<noteq> q" "dir \<noteq> q" using that(1) T dir by auto
      then show ?thesis using T dir fr [OF that(1)] that(2) a(3) [OF F']
        by (simp add: t set_entry_other_page zero_table_other_page)
    qed
    then have "untouched F s1 t" by (simp add: untouched_def lt) (simp add: t)
    ultimately show ?thesis using a(1) [OF F'] untouched_trans by blast
  qed
qed

text \<open>Filling a frame that has just been allocated.\<close>

lemma fill_own:
  fixes s :: "'a vm_scheme"
  assumes own: "own_space F dir s" and alloc: "pmm_alloc_frame s = (d, s1)" "d \<noteq> 0"
    and same: "\<And>q b. page_aligned q \<Longrightarrow> q \<noteq> d \<Longrightarrow> b < 4096 \<Longrightarrow> m (q + of_nat b) = mem s (q + of_nat b)"
  shows "own_space F dir (s1\<lparr>mem := m\<rparr>) \<and> untouched F s (s1\<lparr>mem := m\<rparr>) \<and> d \<notin> F \<and> page_aligned d"
proof -
  have inv: "pmm_inv s" and dir: "page_aligned dir" "dir \<noteq> 0" "frame_live s dir" "dir \<notin> F"
    and F: "\<forall>q\<in>F. page_aligned q \<and> frame_live s q \<and> q \<noteq> 0" and out: "leads_out F dir (mem s)"
    and live: "\<And>i. 16 \<le> i \<Longrightarrow> i < 1024 \<Longrightarrow> is_present (get_entry (mem s) dir i) \<Longrightarrow> frame_live s (page_base (get_entry (mem s) dir i))"
    using own by (simp_all add: own_space_def)
  have F': "\<forall>q\<in>F. page_aligned q \<and> frame_live s q" using F by blast
  note a = alloc_untouched [OF inv F' alloc(1)]
  have d: "\<not> frame_live s d" "d \<notin> F" "page_aligned d" using a(5,6) alloc(2) by simp_all
  have e: "get_entry m q i = get_entry (mem s) q i" if "page_aligned q" "frame_live s q" "i < 1024" for q i
  proof -
    have "q \<noteq> d" using that(2) d(1) by blast
    then show ?thesis using same that(1,3) by (intro get_entry_bytes_cong) auto
  qed
  have "leads_out F dir m"
    unfolding leads_out_def
  proof (intro allI impI, elim conjE)
    fix pd assume pd: "16 \<le> pd" "pd < 1024" "is_present (get_entry m dir pd)"
    have p: "is_present (get_entry (mem s) dir pd)" "get_entry m dir pd = get_entry (mem s) dir pd" using pd e dir by simp_all
    have "get_entry m (page_base (get_entry (mem s) dir pd)) j = get_entry (mem s) (page_base (get_entry (mem s) dir pd)) j"
      if "j < 1024" for j using e [OF page_aligned_base live [OF pd(1,2) p(1)] that] .
    then show "page_base (get_entry m dir pd) \<notin> insert dir F \<and>
       (\<forall>pt<1024. is_present (get_entry m (page_base (get_entry m dir pd)) pt) \<longrightarrow>
          page_base (get_entry m (page_base (get_entry m dir pd)) pt) \<notin> F)"
      using out pd(1,2) p unfolding leads_out_def by simp
  qed
  moreover have "frame_live (s1\<lparr>mem := m\<rparr>) q = frame_live s1 q" for q by (simp add: frame_live_def)
  moreover have "frame_live s1 (page_base (get_entry m dir i))" if "16 \<le> i" "i < 1024" "is_present (get_entry m dir i)" for i
    using that live a(4) e dir by simp
  ultimately have "own_space F dir (s1\<lparr>mem := m\<rparr>)"
    using dir F a(2,4) unfolding own_space_def by simp
  moreover have "untouched F s1 (s1\<lparr>mem := m\<rparr>)"
    using F d same a(3) by (auto simp: untouched_def frame_live_def)
  ultimately show ?thesis using untouched_trans [OF a(1)] d by blast
qed

section \<open>The loader\<close>

text \<open>Whatever a header says, the bytes of a page are copied into that page's frame only.\<close>

lemma copy_into_frame:
  assumes "page_aligned d" "page_aligned q" "q \<noteq> d" "b < 4096" "k + n \<le> 4096"
  shows "elf_copy_bytes (d + of_nat k) src n m (q + of_nat b) = m (q + of_nat b)"
proof -
  have "fold (\<lambda>j m. m(d + of_nat k + of_nat j := m (src + of_nat j))) [0..<i] m (q + of_nat b) = m (q + of_nat b)"
    if "i \<le> n" for i
    using that
  proof (induction i)
    case (Suc i)
    have "q + of_nat b \<noteq> d + of_nat (k + i)"
      using page_byte_eq_iff [of q d b "k + i"] assms Suc.prems by simp
    then have "q + of_nat b \<noteq> d + of_nat k + of_nat i" by (simp add: add.assoc)
    then show ?case using Suc by simp
  qed simp
  then show ?thesis by (simp add: elf_copy_bytes_def)
qed

lemma copy_file_into_frame:
  assumes d: "page_aligned d" "page_aligned q" "q \<noteq> d" "b < 4096" and v: "page_aligned v"
  shows "copy_file_bytes elf h v d m (q + of_nat b) = m (q + of_nat b)"
proof -
  define st where "st = (if p_vaddr h < v then v else p_vaddr h)"
  define en where "en = (if p_vaddr h + p_filesz h < v + ELF_PAGE_SIZE then p_vaddr h + p_filesz h else v + ELF_PAGE_SIZE)"
  have code: "copy_file_bytes elf h v d m = (if st < en then
      elf_copy_bytes (d + (st - v)) (elf + (p_offset h + (st - p_vaddr h))) (unat (en - st)) m else m)"
    by (simp add: copy_file_bytes_def Let_def st_def en_def)
  show ?thesis
  proof (cases "st < en")
    case True
    have le: "unat v \<le> unat st" by (auto simp: st_def word_less_nat_alt)
    have "unat en \<le> unat (v + ELF_PAGE_SIZE)" by (auto simp: en_def word_less_nat_alt)
    also have "\<dots> \<le> unat v + 4096" by (simp add: unat_word_ariths ELF_PAGE_SIZE_def)
    finally have en: "unat en \<le> unat v + 4096" .
    have less: "unat st < unat en" using True by (simp add: word_less_nat_alt)
    have k: "st - v = of_nat (unat st - unat v)" using minus_of_nat [of v st] le by (simp add: word_le_nat_alt)
    have "unat (en - st) = unat en - unat st" using True by (simp add: unat_sub_le)
    then have "unat st - unat v + unat (en - st) \<le> 4096" using en less le by simp
    then show ?thesis using copy_into_frame [OF d] True unfolding code k by simp
  qed (simp add: code)
qed

lemma seg_pages_aligned: "v \<in> set (seg_pages h) \<Longrightarrow> page_aligned v"
proof -
  have mask: "NOT (ELF_PAGE_SIZE - 1) = 0xFFFFF000" by (simp add: ELF_PAGE_SIZE_def)
  have start: "page_aligned (seg_start h)" by (simp only: seg_start_def mask flip: page_base_def) simp
  have "page_aligned (a + of_nat p * ELF_PAGE_SIZE)" if "page_aligned a" for a p
  proof (induction p)
    case (Suc p)
    have "page_aligned (c + ELF_PAGE_SIZE)" if "page_aligned c" for c
    proof -
      have "(4096 :: nat) dvd 2 ^ 32" by simp
      then show ?thesis using that by (simp add: page_aligned_def unat_word_ariths ELF_PAGE_SIZE_def dvd_mod)
    qed
    from this [OF Suc] show ?case by (simp add: algebra_simps)
  qed (use that in simp)
  then show "v \<in> set (seg_pages h) \<Longrightarrow> page_aligned v" using start by (auto simp: seg_pages_def)
qed

text \<open>One step of the loader, and the loops.\<close>

definition loads :: "addr set \<Rightarrow> addr \<Rightarrow> 'a vm_scheme \<Rightarrow> 'a vm_scheme \<Rightarrow> bool" where
  "loads F dir s t \<longleftrightarrow> (own_space F dir s \<longrightarrow> own_space F dir t \<and> untouched F s t)"

lemma loads_refl [simp]: "loads F dir s s"
  by (simp add: loads_def)

lemma loads_trans: "loads F dir s t \<Longrightarrow> loads F dir t u \<Longrightarrow> loads F dir s u"
  unfolding loads_def using untouched_trans by blast

lemma loads_page: "page_aligned v \<Longrightarrow> loads F dir s (snd (load_page elf dir ph i v s))"
proof (unfold loads_def, intro impI)
  assume v: "page_aligned v" and own: "own_space F dir s"
  obtain d s1 where alloc: "pmm_alloc_frame s = (d, s1)" by fastforce
  have m1: "mem s1 = mem s" using pmm_ops_vm(3) [of s] alloc by simp
  show "own_space F dir (snd (load_page elf dir ph i v s)) \<and> untouched F s (snd (load_page elf dir ph i v s))"
  proof (cases "d = 0")
    case True
    have "pmm_inv s" using own by (simp add: own_space_def)
    then have "s1 = s" using frames.alloc_none True alloc by blast
    then show ?thesis using True alloc own by (simp add: load_page_def)
  next
    case False
    define z where "z = zero_frame d (mem s)"
    define m where "m = copy_file_bytes elf (phdr z ph i) v d z"
    have d: "page_aligned d" using alloc_untouched(5) [OF _ _ alloc, of "{}"] own by (simp add: own_space_def)
    have "m (q + of_nat b) = mem s (q + of_nat b)" if "page_aligned q" "q \<noteq> d" "b < 4096" for q b
      using that zero_frame_bytes [OF d] copy_file_into_frame [OF d that(1,2,3) v] by (simp add: m_def z_def)
    from fill_own [OF own alloc False this]
    have fill: "own_space F dir (s1\<lparr>mem := m\<rparr>)" "untouched F s (s1\<lparr>mem := m\<rparr>)" "page_base d \<notin> F" using d by simp_all
    have "snd (load_page elf dir ph i v s) = snd (paging_map_user_page dir d v (PAGE_RW OR PAGE_USER) (s1\<lparr>mem := m\<rparr>))"
      using False alloc by (simp add: load_page_def m1 m_def z_def Let_def)
    then show ?thesis using map_own [OF fill(1,3)] untouched_trans [OF fill(2)] by simp
  qed
qed

lemma loads_pages: "\<forall>v\<in>set vs. page_aligned v \<Longrightarrow> loads F dir s (snd (load_pages elf dir ph i vs s))"
proof (induction vs arbitrary: s)
  case (Cons v vs)
  have "loads F dir s (snd (load_page elf dir ph i v s))" using Cons.prems by (simp add: loads_page)
  then show ?case using Cons by (auto simp: split_def Let_def intro: loads_trans)
qed simp

lemma loads_segment: "loads F dir s (snd (load_segment elf dir ph i s))"
  using seg_pages_aligned by (simp add: load_segment_def Let_def loads_pages)

lemma loads_segments: "loads F dir s (snd (load_segments elf dir ph i s))"
proof (induction elf dir ph i s rule: load_segments.induct)
  case (1 elf dir ph i s)
  then show ?case
    using loads_segment [of F dir s elf ph i]
    by (subst load_segments.simps) (auto simp: Let_def split: prod.split intro: loads_trans)
qed

lemma loads_elf: "loads F dir s (snd (elf_load elf dir s))"
  using loads_segments [of F dir s elf] by (simp add: elf_load_def Let_def split_def)

section \<open>Tearing down a directory of one's own\<close>

lemma free_untouched:
  assumes inv: "pmm_inv s" and F: "\<forall>q\<in>F. page_aligned q" and a: "page_aligned a" "a \<notin> F"
  shows "untouched F s (pmm_free_frame a s)"
proof -
  note f = pmm_free_spec [OF inv, of a]
  have ne: "frame_of q \<noteq> frame_of a" if "q \<in> F" for q using that F a frame_addr_inj [of q a] by blast
  have "bitmap_test (frame_of q) (pmm_free_frame a s) = bitmap_test (frame_of q) s" if "q \<in> F" for q
    using f ne [OF that] by blast
  moreover have "frame_refs (pmm_free_frame a s) (frame_of q) = frame_refs s (frame_of q)" if "q \<in> F" for q
    using frames.release_refs [OF inv, of a] ne [OF that] by simp
  ultimately show ?thesis by (simp add: untouched_def frame_live_def)
qed

lemma clear_untouched:
  assumes F: "\<forall>q\<in>F. page_aligned q" and T: "page_aligned T" "T \<notin> F" "j < 1024"
  shows "untouched F s (s\<lparr>mem := set_entry T j 0 (mem s)\<rparr>)"
proof -
  have "set_entry T j 0 (mem s) (q + of_nat b) = mem s (q + of_nat b)" if "q \<in> F" "b < 4096" for q b
    using T F that by (intro set_entry_other_page) auto
  then show ?thesis by (simp add: untouched_def frame_live_def)
qed

lemma clear_leads_out:
  assumes "leads_out F dir m" "page_aligned dir" "page_aligned T" "j < 1024"
  shows "leads_out F dir (set_entry T j 0 m)"
  using assms unfolding leads_out_def by (auto simp: word_mem.get_put split: if_splits)

definition frees :: "addr set \<Rightarrow> addr \<Rightarrow> 'a vm_scheme \<Rightarrow> 'a vm_scheme \<Rightarrow> bool" where
  "frees F dir s t \<longleftrightarrow> pmm_inv t \<and> leads_out F dir (mem t) \<and> untouched F s t"

lemma free_page_frees:
  fixes s0 :: "'a vm_scheme"
  assumes F: "\<forall>q\<in>F. page_aligned q" and dir: "page_aligned dir" and T: "page_aligned T" "T \<notin> F" and j: "j < 1024"
    and s: "frees F dir s0 s" "\<forall>i<1024. is_present (get_entry (mem s) T i) \<longrightarrow> page_base (get_entry (mem s) T i) \<notin> F"
  shows "frees F dir s0 (free_page T j s) \<and>
    (\<forall>i<1024. is_present (get_entry (mem (free_page T j s)) T i) \<longrightarrow> page_base (get_entry (mem (free_page T j s)) T i) \<notin> F)"
proof (cases "is_present (get_entry (mem s) T j)")
  case True
  let ?a = "page_base (get_entry (mem s) T j)"
  let ?u = "pmm_free_frame ?a s"
  have t: "free_page T j s = ?u\<lparr>mem := set_entry T j 0 (mem ?u)\<rparr>" "mem ?u = mem s"
    using True by (simp_all add: free_page_def Let_def)
  have inv: "pmm_inv s" using s(1) by (simp add: frees_def)
  have "untouched F s0 s" using s(1) by (simp add: frees_def)
  then have "untouched F s0 (free_page T j s)"
    unfolding t(1) by (rule untouched_trans [OF untouched_trans [OF _ free_untouched [OF inv F page_aligned_base
        s(2) [rule_format, OF j True]]] clear_untouched [OF F T j]])
  moreover have "pmm_inv (free_page T j s)" unfolding t(1) using frames.release_inv [OF inv] by simp
  moreover have "leads_out F dir (mem (free_page T j s))"
    unfolding t using clear_leads_out [OF _ dir T(1) j] s(1) by (simp add: frees_def t(2))
  ultimately show ?thesis using s(2) T j by (auto simp: frees_def t word_mem.get_put)
qed (use s in \<open>simp add: free_page_def\<close>)

lemma free_table_frees:
  fixes s0 :: "'a vm_scheme"
  assumes F: "\<forall>q\<in>F. page_aligned q" and dir: "page_aligned dir" "dir \<notin> F" and pd: "16 \<le> pd" "pd < 1024" and s: "frees F dir s0 s"
  shows "frees F dir s0 (free_table dir pd s)"
proof (cases "is_present (get_entry (mem s) dir pd)")
  case True
  let ?T = "page_base (get_entry (mem s) dir pd)"
  have T: "page_aligned ?T" "?T \<notin> F" "\<forall>i<1024. is_present (get_entry (mem s) ?T i) \<longrightarrow> page_base (get_entry (mem s) ?T i) \<notin> F"
    using s pd True unfolding frees_def leads_out_def by simp_all
  let ?u = "fold (free_page ?T) [0..<1024] s"
  have "frees F dir s0 ?u \<and> (\<forall>i<1024. is_present (get_entry (mem ?u) ?T i) \<longrightarrow> page_base (get_entry (mem ?u) ?T i) \<notin> F)"
  proof (rule fold_upt_inv [where P = "\<lambda>_ u. frees F dir s0 u \<and>
        (\<forall>i<1024. is_present (get_entry (mem u) ?T i) \<longrightarrow> page_base (get_entry (mem u) ?T i) \<notin> F)"])
    show "frees F dir s0 s \<and> (\<forall>i<1024. is_present (get_entry (mem s) ?T i) \<longrightarrow> page_base (get_entry (mem s) ?T i) \<notin> F)"
      using s T(3) by blast
    fix k u
    assume "k < (1024 :: nat)" "frees F dir s0 u \<and> (\<forall>i<1024. is_present (get_entry (mem u) ?T i) \<longrightarrow> page_base (get_entry (mem u) ?T i) \<notin> F)"
    then show "frees F dir s0 (free_page ?T k u) \<and> (\<forall>i<1024. is_present (get_entry (mem (free_page ?T k u)) ?T i) \<longrightarrow>
        page_base (get_entry (mem (free_page ?T k u)) ?T i) \<notin> F)"
      using free_page_frees [OF F dir(1) T(1,2)] by blast
  qed simp
  then obtain u where u_eq: "u = ?u" and u: "pmm_inv u" "leads_out F dir (mem u)" "untouched F s0 u" unfolding frees_def by blast
  let ?v = "pmm_free_frame ?T u"
  have t: "free_table dir pd s = ?v\<lparr>mem := set_entry dir pd 0 (mem ?v)\<rparr>" "mem ?v = mem u"
    unfolding free_table_def Let_def ENTRIES_PER_TABLE_def u_eq using True by (simp_all only: not_True_eq_False if_False pmm_ops_vm(1))
  have "untouched F s0 (free_table dir pd s)"
    unfolding t(1) by (rule untouched_trans [OF untouched_trans [OF u(3) free_untouched [OF u(1) F T(1,2)]] clear_untouched [OF F dir pd(2)]])
  moreover have "pmm_inv (free_table dir pd s)" unfolding t(1) using frames.release_inv [OF u(1)] by simp
  ultimately show ?thesis using clear_leads_out [OF u(2) dir(1) dir(1) pd(2)] by (simp add: frees_def t)
qed (use s in \<open>simp add: free_table_def\<close>)

lemma own_space_ended:
  assumes "own_space F dir s"
  shows "pmm_inv (end_space dir s) \<and> untouched F s (end_space dir s)"
proof -
  have F: "\<forall>q\<in>F. page_aligned q" and dir: "page_aligned dir" "dir \<notin> F" and inv: "pmm_inv s"
    using assms by (simp_all add: own_space_def)
  have "frees F dir s (fold (free_table dir) [16..<1024] s)"
    by (rule fold_upt_inv [where P = "\<lambda>_. frees F dir s"])
      (use assms free_table_frees [OF F dir] in \<open>auto simp: frees_def own_space_def\<close>)
  then have u: "pmm_inv (paging_free_address_space dir s)" "untouched F s (paging_free_address_space dir s)"
    by (simp_all add: frees_def paging_free_address_space_def IDENTITY_MAP_TABLES_def ENTRIES_PER_TABLE_def)
  then show ?thesis
    unfolding end_space_def using frames.release_inv [OF u(1)] untouched_trans [OF u(2) free_untouched [OF u(1) F dir]] by blast
qed

section \<open>A new directory\<close>

lemma clone_own:
  assumes inv: "pmm_inv s" and room: "0 < free_frames s" and F: "\<forall>q\<in>F. page_aligned q \<and> frame_live s q \<and> q \<noteq> 0"
    and kdir: "page_aligned (page_directory s)" "frame_live s (page_directory s)"
      "\<forall>pd. 16 \<le> pd \<and> pd < 1024 \<longrightarrow> \<not> is_present (get_entry (mem s) (page_directory s) pd)"
  shows "\<exists>c s1. paging_clone_kernel_directory s = (c, s1) \<and> own_space F c s1 \<and> untouched F s s1 \<and> \<not> frame_live s c \<and>
    pages_of (mem s1) c = {c} \<and> free_frames s1 + 1 = free_frames s \<and> (\<forall>q. frame_live s q \<longrightarrow> frame_live s1 q)"
proof -
  obtain c a where alloc: "pmm_alloc_frame s = (c, a)" "c \<noteq> 0" "Suc (free_frames a) = free_frames s"
    using free_frames_alloc [OF inv room] by blast
  have F': "\<forall>q\<in>F. page_aligned q \<and> frame_live s q" using F by blast
  note al = alloc_untouched [OF inv F' alloc(1)]
  have c: "\<not> frame_live s c" "frame_live a c" "c \<notin> F" using al(6) alloc(2) by simp_all
  obtain s1 where cl: "paging_clone_kernel_directory s = (c, s1)" and s1: "s1 = a\<lparr>mem := mem s1\<rparr>"
    using alloc(1) by (simp add: paging_clone_kernel_directory_def)
  let ?m = "fold (\<lambda>i m. set_entry c i (get_entry m (page_directory s) i) m) [0..<1024] (mem s)"
  have m: "mem s1 = ?m" using cl alloc(1) al(3) by (auto simp: paging_clone_kernel_directory_def ENTRIES_PER_TABLE_def)
  have byte: "mem s1 (q + of_nat b) = mem s (q + of_nat b)" if "page_aligned q" "q \<noteq> c" "b < 4096" for q b
  proof -
    have "fold (\<lambda>i m. set_entry c i (get_entry m (page_directory s) i) m) [0..<n] (mem s) (q + of_nat b) = mem s (q + of_nat b)"
      if "n \<le> 1024" for n
      using that by (induction n) (use al(5) \<open>page_aligned q\<close> \<open>q \<noteq> c\<close> \<open>b < 4096\<close> in \<open>auto simp: set_entry_other_page\<close>)
    then show ?thesis by (simp add: m)
  qed
  have none: "\<not> is_present (get_entry (mem s1) c i)" if "16 \<le> i" "i < 1024" for i
  proof -
    have "get_entry (fold (\<lambda>i m. set_entry c i (get_entry m (page_directory s) i) m) [0..<n] (mem s)) q j =
        (if q = c \<and> j < n then get_entry (mem s) (page_directory s) j else get_entry (mem s) q j)"
      if "page_aligned q" "n \<le> 1024" "j < 1024" for n q j
      using that(2,1,3) by (induction n arbitrary: q j)
        (use al(5) kdir(1,2) c(1) in \<open>auto simp: word_mem.get_put less_Suc_eq\<close>)
    from this [of c 1024 i] show ?thesis using that al(5) kdir(3) by (simp add: m)
  qed
  then have pages: "pages_of (mem s1) c = {c}" by (auto simp: pages_of_def)
  have lv: "frame_live s1 q = frame_live a q" for q by (subst s1) (simp add: frame_live_def)
  have "pmm_inv s1" using al(2) by (subst s1) simp
  moreover have "leads_out F c (mem s1)" using none by (auto simp: leads_out_def)
  ultimately have "own_space F c s1"
    using F al(4,5) alloc(2) c none lv by (auto simp: own_space_def)
  moreover have "frame_refs s1 = frame_refs a" "page_directory s1 = page_directory a" by (subst s1, simp)+
  then have "untouched F a s1"
    using byte al(3) F c(3) unfolding untouched_def by (auto simp: lv)
  moreover have "free_frames s1 = free_frames a" by (subst s1) simp
  ultimately show ?thesis using cl c(1) pages alloc(3) al(4) untouched_trans [OF al(1)] lv
    by (intro exI [of _ c] exI [of _ s1]) simp
qed

section \<open>The end of the old program\<close>

lemma end_space_bytes:
  assumes inv: "pmm_inv s" and wf: "as_wf s p" and q: "page_aligned q" "q \<notin> pages_of (mem s) p"
  shows "i < 1024 \<Longrightarrow> get_entry (mem (end_space p s)) q i = get_entry (mem s) q i"
    "b < 4096 \<Longrightarrow> mem (end_space p s) (q + of_nat b) = mem s (q + of_nat b)"
proof -
  have K: "free_inv s p 1024 0 (paging_free_address_space p s)" by (rule free_address_space_inv [OF inv wf])
  have "mem (end_space p s) = mem (paging_free_address_space p s)" by (simp add: end_space_def)
  then show e: "get_entry (mem (end_space p s)) q i = get_entry (mem s) q i" if "i < 1024" for i
    using K q that unfolding free_inv_def by simp
  show "b < 4096 \<Longrightarrow> mem (end_space p s) (q + of_nat b) = mem s (q + of_nat b)" by (rule bytes_of_entries [OF e])
qed

lemma end_space_refs:
  assumes "pmm_inv s" "as_wf s p"
  shows "frame_refs (end_space p s) f =
    frame_refs s f - (card (slots_of (mem s) p f) + card (tables_in (mem s) p 1024 f)) - (if f = frame_of p then 1 else 0)"
proof -
  have K: "free_inv s p 1024 0 (paging_free_address_space p s)" by (rule free_address_space_inv [OF assms])
  have "slots_of (mem s) p f \<inter> slots_before 1024 0 = slots_of (mem s) p f" by (auto simp: slots_of_def slots_before_step)
  then have "frame_refs (paging_free_address_space p s) f =
      frame_refs s f - (card (slots_of (mem s) p f) + card (tables_in (mem s) p 1024 f))" using K by (simp add: free_inv_def)
  moreover have "pmm_inv (paging_free_address_space p s)" using K by (simp add: free_inv_def)
  ultimately show ?thesis using frames.release_refs [of "paging_free_address_space p s" p]
    by (cases "f = frame_of p") (auto simp: end_space_def)
qed

text \<open>It is as if the old program had ended before: every page in use then has the same count.\<close>

lemma end_space_untouched_refs:
  assumes inv: "spaces_inv s D" and p: "p \<in> D" and un: "untouched F s t" "space_pages s D \<subseteq> F" and t: "pmm_inv t"
    and q: "q \<in> F"
  shows "frame_refs (end_space p t) (frame_of q) = frame_refs (end_space p s) (frame_of q)"
proof -
  note sp = untouched_spaces [OF inv untouched_mono [OF un] t]
  have "slots_of (mem t) p f = slots_of (mem s) p f" for f using sp(4) [OF p] by (auto simp: slots_of_def)
  moreover have "p \<in> F" using un(2) p by (auto simp: space_pages_def pages_of_def)
  then have "tables_in (mem t) p 1024 f = tables_in (mem s) p 1024 f" for f
    using untouched_entry [OF un(1)] by (auto simp: tables_in_def)
  moreover have "frame_refs t (frame_of q) = frame_refs s (frame_of q)" using un(1) q by (simp add: untouched_def)
  ultimately show ?thesis
    using end_space_refs [OF spacesD(1) [OF inv] spacesD(4) [OF inv p]] end_space_refs [OF t spacesD(4) [OF sp(1) p]] by simp
qed

text \<open>The new program keeps what its directory leads to.\<close>

lemma end_space_own:
  assumes inv: "spaces_inv s D" and p: "p \<in> D" and own: "own_space F dir s" and F: "space_pages s D \<subseteq> F"
  shows "x \<in> user_slots \<Longrightarrow> leaf (mem (end_space p s)) dir x = leaf (mem s) dir x"
    "user_addr a \<Longrightarrow> byte_of (end_space p s) dir a = byte_of s dir a"
    "user_addr a \<Longrightarrow> may_store (end_space p s) dir a = may_store s dir a"
proof -
  have P: "pages_of (mem s) p \<subseteq> F" using F p by (auto simp: space_pages_def)
  note keep = end_space_bytes [OF spacesD(1) [OF inv] spacesD(4) [OF inv p]]
  have out: "leads_out F dir (mem s)" and dir: "page_aligned dir" "dir \<notin> F" using own by (simp_all add: own_space_def)
  have mine: "page_aligned q \<and> q \<notin> F" if "q \<in> pages_of (mem s) dir" for q
    using that dir out by (auto simp: pages_of_def leads_out_def)
  show leaf: "leaf (mem (end_space p s)) dir x = leaf (mem s) dir x" if "x \<in> user_slots" for x
    by (rule pages_of_cong(2) [OF keep(1) that]) (use mine P in blast)+
  show "may_store (end_space p s) dir a = may_store s dir a" if "user_addr a"
    using leaf [OF slot_of_user [OF that]] by (simp add: may_store_def)
  show "byte_of (end_space p s) dir a = byte_of s dir a" if a: "user_addr a"
  proof (cases "leaf (mem s) dir (slot_of a)")
    case None
    then show ?thesis using leaf [OF slot_of_user [OF a]] by (simp add: byte_of_def)
  next
    case (Some e)
    have "page_base e \<notin> F"
      using Some slot_of_user [OF a] out unfolding leads_out_def
      by (auto simp: leaf_def user_pte_def Let_def user_slots_def split: if_splits option.splits)
    then have "mem (end_space p s) (page_base e + of_nat b) = mem s (page_base e + of_nat b)" if "b < 4096" for b
      using keep(2) [OF page_aligned_base] P that by blast
    then have "mem (end_space p s) (physical e a) = mem s (physical e a)" by (rule physical_same)
    then show ?thesis using leaf [OF slot_of_user [OF a]] Some by (simp add: byte_of_def)
  qed
qed

section \<open>The heap\<close>

text \<open>The kernel's own pages: page 0, its page tables, and the frames at the addresses of the heap. They
  are reserved, and no process has one of them.\<close>

definition kernel_apart :: "'a vm_scheme \<Rightarrow> addr set \<Rightarrow> bool" where
  "kernel_apart s D \<longleftrightarrow> page_aligned (page_tables s) \<and>
     (\<forall>q\<in>space_pages s D. q \<noteq> 0 \<and> (\<forall>t<16. q \<noteq> identity_table s t) \<and> \<not> (0x400000 \<le> q \<and> q < 0x4000000)) \<and>
     (\<forall>f. 1024 \<le> f \<and> f < 16384 \<longrightarrow> bitmap_test f s)"

lemma identity_table_aligned: "page_aligned (page_tables s) \<Longrightarrow> page_aligned (identity_table s t)"
proof (induction t)
  case (Suc t)
  have "page_aligned (c + 4096)" if "page_aligned c" for c :: addr
  proof -
    have "(4096 :: nat) dvd 2 ^ 32" by simp
    then show ?thesis using that by (simp add: page_aligned_def unat_word_ariths dvd_mod)
  qed
  from this [OF Suc.IH [OF Suc.prems]] show ?case by (simp add: identity_table_def algebra_simps)
qed (simp add: identity_table_def)

lemma heap_extend_untouched:
  assumes "pmm_inv s" "page_aligned (page_tables s)"
    and "\<forall>q\<in>F. page_aligned q \<and> frame_live s q \<and> (\<forall>t<16. q \<noteq> identity_table s t)"
  shows "pmm_inv (heap_extend_n n s) \<and> untouched F s (heap_extend_n n s) \<and> page_tables (heap_extend_n n s) = page_tables s \<and>
    (\<forall>f. bitmap_test f s \<longrightarrow> bitmap_test f (heap_extend_n n s))"
  using assms
proof (induction n arbitrary: s)
  case (Suc n)
  obtain d s1 where alloc: "pmm_alloc_frame s = (d, s1)" by fastforce
  have F: "\<forall>q\<in>F. page_aligned q \<and> frame_live s q" using Suc.prems(3) by blast
  note a = alloc_untouched [OF Suc.prems(1) F alloc]
  have pt: "page_tables s1 = page_tables s" using pmm_ops_vm(14) [of s] alloc by simp
  have bits: "bitmap_test f s1" if "bitmap_test f s" for f
    using that alloc by (cases s rule: pmm_alloc_cases) auto
  show ?case
  proof (cases "d = 0")
    case True
    then show ?thesis using alloc a pt bits by simp
  next
    case False
    let ?t = "(snd (paging_map_page d (heap_end s1) 2 s1))\<lparr>heap_end := heap_end s1 + PAGE_SIZE\<rparr>"
    have t: "pmm_inv ?t" "page_tables ?t = page_tables s" "page_directory ?t = page_directory s1"
      "frame_live ?t q = frame_live s1 q" "frame_refs ?t = frame_refs s1" "bitmap_test f ?t = bitmap_test f s1" for q f
      using a(2) pt by (simp_all add: paging_map_page_def frame_live_def bitmap_test_def frame_refs_def fun_eq_iff)
    have "mem ?t (q + of_nat b) = mem s1 (q + of_nat b)" if q: "q \<in> F" "b < 4096" for q b
    proof (cases "pd_index (heap_end s1) < 16")
      case True
      have "identity_table s1 (pd_index (heap_end s1)) = identity_table s (pd_index (heap_end s1))"
        by (simp add: identity_table_def pt)
      then show ?thesis
        using True q Suc.prems(2,3) identity_table_aligned [OF Suc.prems(2)]
        by (auto simp: paging_map_page_def IDENTITY_MAP_TABLES_def intro!: set_entry_other_page)
    qed (simp add: paging_map_page_def IDENTITY_MAP_TABLES_def)
    then have "untouched F s1 ?t" using t by (simp add: untouched_def)
    then have un: "untouched F s ?t" using untouched_trans [OF a(1)] by blast
    have "identity_table ?t = identity_table s" by (simp add: identity_table_def fun_eq_iff t(2))
    then have "\<forall>q\<in>F. page_aligned q \<and> frame_live ?t q \<and> (\<forall>k<16. q \<noteq> identity_table ?t k)"
      using Suc.prems(3) a(4) t(4) by simp
    from Suc.IH [OF t(1) _ this] have "pmm_inv (heap_extend_n n ?t) \<and> untouched F ?t (heap_extend_n n ?t) \<and>
        page_tables (heap_extend_n n ?t) = page_tables ?t \<and> (\<forall>f. bitmap_test f ?t \<longrightarrow> bitmap_test f (heap_extend_n n ?t))"
      using Suc.prems(2) t(2) by simp
    moreover have "heap_extend_n (Suc n) s = heap_extend_n n ?t"
      using False alloc by (simp add: paging_map_page_def)
    ultimately show ?thesis using untouched_trans [OF un] t bits by simp
  qed
qed simp

lemma kmalloc_untouched:
  assumes "pmm_inv s" "page_aligned (page_tables s)"
    and "\<forall>q\<in>F. page_aligned q \<and> frame_live s q \<and> (\<forall>t<16. q \<noteq> identity_table s t)" and km: "kmalloc n s = Some (p, s')"
  shows "pmm_inv s' \<and> untouched F s s' \<and> page_tables s' = page_tables s \<and> (\<forall>f. bitmap_test f s \<longrightarrow> bitmap_test f s')"
proof -
  have h: "untouched F s (t\<lparr>hdr := h\<rparr>) = untouched F s t" "untouched F s (t\<lparr>heap_head := a\<rparr>) = untouched F s t"
    "bitmap_test f (t\<lparr>hdr := h\<rparr>) = bitmap_test f t" "bitmap_test f (t\<lparr>heap_head := a\<rparr>) = bitmap_test f t"
    for t :: "'a heap_scheme" and h a f
    by (simp_all add: untouched_def frame_live_def bitmap_test_def frame_refs_def)
  note e = heap_extend_untouched [OF assms(1-3)]
  show ?thesis
    using km e assms(1) by (auto simp: kmalloc_def grow_block_def Let_def heap_extend_def h split: if_splits option.splits)
qed

end
