(* ===== verification/Process_Calls.thy ===== *)
theory Process_Calls
  imports Syscall Fork
begin

text \<open>
  The system calls that make processes: \<open>SYS_FORK\<close> of \<open>kernel/syscall.c\<close>, as a composition of the frame
  allocator, the page tables, the heap and the tasks (the child of a fork resumes with its parent's
  registers), and what the ELF loader and the teardown of an address space leave alone besides the
  pages, which \<open>Exec\<close> uses for \<open>SYS_EXEC\<close>.
\<close>

section \<open>Copying the register frame\<close>

lemma offset_inj:
  assumes "i < 2 ^ 32" "j < 2 ^ 32"
  shows "(a :: addr) + of_nat i = a + of_nat j \<longleftrightarrow> i = j"
proof -
  have "(of_nat i :: addr) = of_nat j \<longleftrightarrow> i = j" using assms by (simp add: word_unat_eq_iff unat_of_nat)
  then show ?thesis by simp
qed

lemma copy_bytes_apply:
  assumes "n \<le> 2 ^ 32" "\<And>i j. i < n \<Longrightarrow> j < n \<Longrightarrow> dst + of_nat i \<noteq> src + of_nat j"
  shows "(\<forall>j<n. copy_bytes dst src n m (dst + of_nat j) = m (src + of_nat j)) \<and>
    (\<forall>x. (\<forall>j<n. x \<noteq> dst + of_nat j) \<longrightarrow> copy_bytes dst src n m x = m x)"
  using assms
proof (induction n)
  case 0
  then show ?case by (simp add: copy_bytes_def)
next
  case (Suc n)
  have IH: "\<forall>j<n. copy_bytes dst src n m (dst + of_nat j) = m (src + of_nat j)"
    "\<And>x. (\<forall>j<n. x \<noteq> dst + of_nat j) \<Longrightarrow> copy_bytes dst src n m x = m x"
    using Suc.IH Suc.prems by auto
  have e: "copy_bytes dst src (Suc n) m =
      (copy_bytes dst src n m)(dst + of_nat n := copy_bytes dst src n m (src + of_nat n))"
    by (simp add: copy_bytes_def)
  have "src + of_nat n \<noteq> dst + of_nat j" if "j < n" for j
    using Suc.prems(2) [of j n] that by auto
  then have "copy_bytes dst src n m (src + of_nat n) = m (src + of_nat n)" using IH(2) by blast
  moreover have "dst + of_nat j \<noteq> dst + of_nat n" if "j < n" for j
    using offset_inj [of j n dst] that Suc.prems(1) by simp
  ultimately show ?case unfolding e using IH by (auto simp: less_Suc_eq simp del: of_nat_Suc)
qed

lemma load32_moved:
  assumes "\<And>k. k < 4 \<Longrightarrow> m (a + of_nat k) = m' (b + of_nat k)"
  shows "load32 m a = load32 m' b"
  using assms [of 0] assms [of 1] assms [of 2] assms [of 3] by (simp add: load32_def)

lemma aligned4_words: "aligned4 a \<Longrightarrow> aligned4 (a + 4 * of_nat i)"
proof (induction i)
  case (Suc i)
  have "aligned4 (b + 4)" if "aligned4 b" for b
  proof -
    have "(4 :: nat) dvd 2 ^ 32" by simp
    then show ?thesis using that by (simp add: aligned4_def unat_word_ariths dvd_mod)
  qed
  from this [OF Suc.IH [OF Suc.prems]] show ?case by (simp add: algebra_simps)
qed simp

lemma store_words_other:
  assumes "aligned4 a" "aligned4 b" "\<And>i. i < length ws \<Longrightarrow> b \<noteq> a + 4 * of_nat i"
  shows "load32 (store_words a ws m) b = load32 m b"
  using assms
proof (induction ws arbitrary: a m)
  case (Cons w ws)
  have "b \<noteq> a" using Cons.prems(3) [of 0] by simp
  moreover have "b \<noteq> (a + 4) + 4 * of_nat i" if "i < length ws" for i
    using Cons.prems(3) [of "Suc i"] that by (simp add: algebra_simps)
  ultimately show ?case
    using Cons.IH [of "a + 4" "store32 m a w"] Cons.prems(1,2) aligned4_words [of a 1]
    by (simp add: load32_store32_other)
qed simp

lemma store_words_load:
  assumes "aligned4 a" "length ws < 2 ^ 30" "i < length ws"
  shows "load32 (store_words a ws m) (a + 4 * of_nat i) = ws ! i"
  using assms
proof (induction ws arbitrary: a m i)
  case (Cons w ws)
  have al: "aligned4 (a + 4)" using aligned4_words [of a 1] Cons.prems(1) by simp
  show ?case
  proof (cases i)
    case 0
    have "a \<noteq> (a + 4) + 4 * of_nat j" if "j < length ws" for j
      using offset_inj [of 0 "4 + 4 * j" a] Cons.prems(2) that by (simp add: add.assoc)
    then show ?thesis using store_words_other [OF al Cons.prems(1), of ws "store32 m a w"] 0 by simp
  next
    case (Suc j)
    then show ?thesis using Cons.IH [OF al, of j "store32 m a w"] Cons.prems by (simp add: algebra_simps)
  qed
qed simp

section \<open>Fork\<close>

lemma alloc_common_kmem: "task_alloc_common s = Some (t, s') \<Longrightarrow> kmem s' = kmem s"
  by (auto simp: task_alloc_common_def Let_def bind_eq_Some_conv upd_task_def
      dest!: kmalloc_more dest: sched_of_more(2))

text \<open>A forked task: the copied frame at the top of its kernel stack, under it the five words that lead
  into the return path of a system call.\<close>

lemma task_create_forked_ok:
  assumes "sched_inv s bs (c # rest)" "current_task s = c" "heap_room 4 s"
    and frame: "(a, k, False) \<in> set bs" "unat a + 12 \<le> unat frame" "unat frame + 64 \<le> unat a + 12 + unat k" "aligned4 frame"
  shows "\<exists>t s' bs'. task_create_forked tail dir frame 64 s = Some (t, s') \<and> sched_inv s' bs' (c # t # rest) \<and>
    t \<notin> set (c # rest) \<and> runnable s' t \<and> t_parent (tasks s' t) = c \<and> t_id (tasks s' t) = next_task_id s \<and>
    t_is_user (tasks s' t) \<and> t_page_directory (tasks s' t) = dir \<and> current_task s' = c \<and>
    load32 (kmem s') (t_esp (tasks s' t) + 16) = tail \<and>
    (\<forall>i\<in>{0, 4, 8, 12}. load32 (kmem s') (t_esp (tasks s' t) + i) = 0) \<and>
    (\<forall>i<16. load32 (kmem s') (t_esp (tasks s' t) + 20 + 4 * of_nat i) = load32 (kmem s) (frame + 4 * of_nat i)) \<and>
    (\<forall>u\<in>set (c # rest). runnable s' u = runnable s u)"
proof -
  obtain t s1 bs1 where al: "task_alloc_common s = Some (t, s1)" "sched_inv s1 bs1 (c # t # rest)" "heap_room 3 s1"
    "t \<notin> set (c # rest)" "runnable s1 t" "t_parent (tasks s1 t) = c" "t_id (tasks s1 t) = next_task_id s"
    "current_task s1 = c" "\<forall>u\<in>set (c # rest). runnable s1 u = runnable s u"
    "\<forall>a m. (a, m, False) \<in> set bs \<longrightarrow> (a, m, False) \<in> set bs1"
    by (rule task_alloc_common_ok [OF assms(1,2), of 3]) (use assms(3) in auto)
  let ?s2 = "upd_task t (\<lambda>k. k\<lparr>t_is_user := True, t_page_directory := dir\<rparr>) s1"
  have s2: "sched_inv ?s2 bs1 (c # t # rest)"
    by (rule sched_inv_cong [OF al(2)]) (use al(2) in \<open>auto simp: sched_inv_def\<close>)
  have room: "heap_room (pages_for STACK_SIZE + 0) ?s2" using al(3) by (simp add: pages_for_sizes)
  obtain sm n s3 bs3 where st: "kmalloc STACK_SIZE ?s2 = Some (sm, s3)" "sched_inv s3 bs3 (c # t # rest)"
    "(sm - 12, n, False) \<in> set bs3" "\<forall>m. (sm - 12, m, False) \<notin> set bs1" "4 dvd unat sm"
    "\<forall>a m. (a, m, False) \<in> set bs1 \<longrightarrow> (a, m, False) \<in> set bs3" "heap.more s3 = heap.more ?s2"
    "unat sm + unat STACK_SIZE \<le> 0x4000000" "0x400000 \<le> unat sm" "unat STACK_SIZE \<le> unat n"
    by (rule sched_kmalloc [OF s2 _ _ room]) (auto simp: STACK_SIZE_def)
  note f = sched_of_more [OF st(7)]
  let ?top = "sm + STACK_SIZE" and ?fs = "sm + STACK_SIZE - 64"
  have km: "kmem s3 = kmem s" using f alloc_common_kmem [OF al(1)] by (simp add: upd_task_def)
  let ?cp = "copy_bytes ?fs frame 64 (kmem s)"
  let ?km = "push_switch_frame ?fs tail ?cp"
  let ?s' = "(upd_task t (\<lambda>k. k\<lparr>t_kernel_stack_top := ?top, t_esp := ?fs - 20\<rparr>) s3)\<lparr>kmem := ?km\<rparr>"
  have res: "task_create_forked tail dir frame 64 s = Some (t, ?s')"
    using al(1) st(1) km by (simp add: task_create_forked_def Let_def)
  have fs: "?fs = sm + 8128" by (simp add: STACK_SIZE_def)
  have ufs: "unat ?fs = unat sm + 8128" unfolding fs using st(8) by (subst unat_add_lt) (auto simp: STACK_SIZE_def)
  have sm12: "unat (sm - 12) = unat sm - 12"
    using st(9) by (subst unat_sub_le) (simp_all add: word_le_nat_alt)
  have tl: "tiles 0x400000 bs3 (unat (heap_end s3))" using st(2) by (simp add: sched_inv_def heap_inv_def)
  have ne: "a \<noteq> sm - 12" using frame(1) al(10) st(4) by auto
  have in3: "(a, k, False) \<in> set bs3" using frame(1) al(10) st(6) by blast
  from tiles_disjoint [OF tl in3 st(3) ne]
  have dis: "unat frame + 64 \<le> unat sm \<or> unat sm + 8192 \<le> unat frame"
    using frame(2,3) st(9,10) unfolding sm12 by (auto simp: STACK_SIZE_def)
  have off: "unat (?fs + of_nat i) = unat sm + 8128 + i" if "i < 64" for i
    using that st(8) ufs by (subst unat_add_lt) (auto simp: unat_of_nat STACK_SIZE_def)
  have tb: "unat frame + 64 \<le> 0x4000000"
    using tiles_ge [OF tl in3] frame(3) st(2) by (auto simp: sched_inv_def heap_inv_def)
  have offf: "unat (frame + of_nat i) = unat frame + i" if "i < 64" for i
    using that tb by (subst unat_add_lt) (auto simp: unat_of_nat)
  have apart: "?fs + of_nat i \<noteq> frame + of_nat j" if "i < 64" "j < 64" for i j
    using dis off [OF that(1)] offf [OF that(2)] that by auto
  have copied: "?cp (?fs + of_nat j) = kmem s (frame + of_nat j)" if "j < 64" for j
    using copy_bytes_apply [of 64 ?fs frame "kmem s"] apart that by auto
  have al4: "4 dvd unat ?fs" "20 \<le> unat ?fs" "aligned4 ?fs"
    unfolding ufs aligned4_def using st(5,9) by auto
  have words: "load32 ?km (?fs + 4 * of_nat i) = load32 (kmem s) (frame + 4 * of_nat i)" if "i < 16" for i
  proof -
    have u: "unat (?fs + 4 * of_nat i) = unat ?fs + 4 * i" using off [of "4 * i"] that ufs by simp
    have below: "?fs + 4 * of_nat i \<noteq> ?fs - b" "aligned4 (?fs - b)" if b: "b \<in> {4, 8, 12, 16, 20}" for b
    proof -
      have "unat (?fs - b) = unat ?fs - unat b"
        by (rule unat_sub_le) (use al4(2) b in \<open>auto simp: word_le_nat_alt\<close>)
      then show "?fs + 4 * of_nat i \<noteq> ?fs - b" "aligned4 (?fs - b)"
        using u b al4 by (auto simp: aligned4_def intro!: dvd_diff_nat)
    qed
    have "load32 ?km (?fs + 4 * of_nat i) = load32 ?cp (?fs + 4 * of_nat i)"
      using below [of 4] below [of 8] below [of 12] below [of 16] below [of 20] aligned4_words [OF al4(3), of i]
      by (simp add: push_switch_frame_def load32_store32_other)
    also have "\<dots> = load32 (kmem s) (frame + 4 * of_nat i)"
      using copied [of "4 * i + l" for l] that by (intro load32_moved) (simp add: add.assoc)
    finally show ?thesis .
  qed
  have zero: "load32 ?km (?fs - 20 + i) = 0" if "i \<in> {0, 4, 8, 12}" for i
  proof -
    have "?fs - 20 + i = ?fs - (20 - i)" by simp
    moreover have "20 - i \<in> {8, 12, 16, 20}" using that by auto
    ultimately show ?thesis using switch_frame_words(2) [OF al4(1,2)] by metis
  qed
  have first: "load32 ?km (?fs - 20 + 16) = tail"
    using switch_frame_words(1) [OF al4(1,2), where ret = tail and m = ?cp] by simp
  have up: "load32 ?km (?fs - 20 + 20 + 4 * of_nat i) = load32 (kmem s) (frame + 4 * of_nat i)" if "i < 16" for i
    using words [OF that] by simp
  have esp: "t_esp (tasks ?s' t) = ?fs - 20" "kmem ?s' = ?km" by simp_all
  have "sched_inv ?s' bs3 (c # t # rest)"
    by (rule sched_inv_cong [OF st(2)]) (use st(2) in \<open>simp_all add: sched_inv_def\<close>)
  moreover have "load32 (kmem ?s') (t_esp (tasks ?s' t) + 16) = tail"
    "\<forall>i\<in>{0, 4, 8, 12}. load32 (kmem ?s') (t_esp (tasks ?s' t) + i) = 0"
    "\<forall>i<16. load32 (kmem ?s') (t_esp (tasks ?s' t) + 20 + 4 * of_nat i) = load32 (kmem s) (frame + 4 * of_nat i)"
    unfolding esp using first zero up by blast+
  moreover have "runnable ?s' u = runnable s1 u" for u using f by (simp add: runnable_def)
  then have "runnable ?s' t" "\<forall>u\<in>set (c # rest). runnable ?s' u = runnable s u" using al(5,9) by auto
  moreover have "t_parent (tasks ?s' t) = c" "t_id (tasks ?s' t) = next_task_id s" "t_is_user (tasks ?s' t)"
    "t_page_directory (tasks ?s' t) = dir" "current_task ?s' = c"
    using f al by simp_all
  ultimately show ?thesis using res al(4) by blast
qed

lemma map_user_page_more: "vm.more (snd (paging_map_user_page d p v f s)) = vm.more s"
  by (simp add: paging_map_user_page_def Let_def split_def)

lemma clone_more: "vm.more (snd (paging_clone_address_space d s)) = vm.more s"
proof -
  have p: "vm.more (fold (clone_page c tb pd) pts t) = vm.more t" for c tb pd pts and t :: "'a vm_scheme"
    by (induction pts arbitrary: t) (simp_all add: clone_page_def Let_def map_user_page_more pmm_frame_addref_def)
  have "vm.more (fold (clone_table c d) pds t) = vm.more t" for c pds and t :: "'a vm_scheme"
    by (induction pds arbitrary: t) (simp_all add: clone_table_def Let_def p)
  then show ?thesis
    by (simp add: paging_clone_address_space_def paging_clone_kernel_directory_def Let_def split_def)
qed

text \<open>C29: \<open>SYS_FORK\<close>. The caller gets the child's id. The child is a new runnable task of the caller
  with the cloned page directory; on its kernel stack the scheduler finds a switch into the return path
  of a system call, and above it the caller's sixteen saved registers, with 0 for \<open>eax\<close>: it will return
  from the same call, at the same instruction, on the same stack.\<close>

theorem fork_child_resumes:
  assumes "sched_inv s bs (c # rest)" "current_task s = c" "t_page_directory (tasks s c) = parent"
    and mem: "forkable s parent" "page_aligned (page_directory s)" "frame_live s (page_directory s)"
      "\<forall>pd. 16 \<le> pd \<and> pd < 1024 \<longrightarrow> \<not> is_present (get_entry (mem s) (page_directory s) pd)"
      "card {pd. 16 \<le> pd \<and> pd < 1024 \<and> is_present (get_entry (mem s) parent pd)} < free_frames s"
    and room: "heap_room 4 (snd (paging_clone_address_space parent s))"
    and frame: "(a, k, False) \<in> set bs" "unat a + 12 \<le> unat frame" "unat frame + 64 \<le> unat a + 12 + unat k" "aligned4 frame"
  shows "\<exists>t s' bs'. sys_fork tail frame regs s = Some (Return (regs\<lparr>r_eax := of_int (next_task_id s)\<rparr>), s') \<and>
    sched_inv s' bs' (c # t # rest) \<and> runnable s' t \<and> t_parent (tasks s' t) = c \<and> t_id (tasks s' t) = next_task_id s \<and>
    t_page_directory (tasks s' t) = fst (paging_clone_address_space parent s) \<and> current_task s' = c \<and>
    load32 (kmem s') (t_esp (tasks s' t) + 16) = tail \<and>
    (\<forall>i\<in>{0, 4, 8, 12}. load32 (kmem s') (t_esp (tasks s' t) + i) = 0) \<and>
    (\<forall>i<16. load32 (kmem s') (t_esp (tasks s' t) + 20 + 4 * of_nat i) = frame_words (regs\<lparr>r_eax := 0\<rparr>) ! i)"
proof -
  obtain child s1 where cl: "paging_clone_address_space parent s = (child, s1)" "pmm_inv s1"
    using clone_address_space_inv [OF mem] by (auto simp: clone_inv_def)
  have more: "vm.more s1 = vm.more s" using clone_more [of parent s] cl(1) by simp
  note f = sched_of_more [OF more_heap_vm [OF more]]
  have inv1: "sched_inv s1 bs (c # rest)" by (rule sched_inv_vm_more(1) [OF assms(1) more cl(2)])
  let ?s2 = "s1\<lparr>kmem := store_words frame (frame_words (regs\<lparr>r_eax := 0\<rparr>)) (kmem s1)\<rparr>"
  have inv2: "sched_inv ?s2 bs (c # rest)"
    by (rule sched_inv_cong [OF inv1]) (use inv1 in \<open>simp_all add: sched_inv_def\<close>)
  have room2: "heap_room 4 ?s2" using room cl(1) by simp
  obtain t s' bs' where t: "task_create_forked tail child frame 64 ?s2 = Some (t, s')" "sched_inv s' bs' (c # t # rest)"
    "runnable s' t" "t_parent (tasks s' t) = c" "t_id (tasks s' t) = next_task_id s"
    "t_page_directory (tasks s' t) = child" "current_task s' = c"
    "load32 (kmem s') (t_esp (tasks s' t) + 16) = tail"
    "\<forall>i\<in>{0, 4, 8, 12}. load32 (kmem s') (t_esp (tasks s' t) + i) = 0"
    "\<forall>i<16. load32 (kmem s') (t_esp (tasks s' t) + 20 + 4 * of_nat i) = load32 (kmem ?s2) (frame + 4 * of_nat i)"
    using task_create_forked_ok [OF inv2 _ room2 frame, of tail child] assms(2) f by auto
  have words: "load32 (kmem ?s2) (frame + 4 * of_nat i) = frame_words (regs\<lparr>r_eax := 0\<rparr>) ! i" if "i < 16" for i
    using store_words_load [OF frame(4), of "frame_words (regs\<lparr>r_eax := 0\<rparr>)" i] that by (simp add: frame_words_def)
  have "sys_fork tail frame regs s = Some (Return (regs\<lparr>r_eax := of_int (next_task_id s)\<rparr>), s')"
    using t(1,5) cl(1) assms(2,3) by (simp add: sys_fork_def task_get_page_directory_def task_get_id_def Let_def)
  moreover have "fst (paging_clone_address_space parent s) = child" using cl(1) by simp
  moreover have "\<forall>i<16. load32 (kmem s') (t_esp (tasks s' t) + 20 + 4 * of_nat i) = frame_words (regs\<lparr>r_eax := 0\<rparr>) ! i"
    using t(10) words by simp
  ultimately show ?thesis using t(2-9) by blast
qed

text \<open>A parent without user pages, with a frame in a heap block of its own.\<close>

definition fork_frame :: addr where
  "fork_frame = fst (the (kmalloc 64 boot_task))"

definition fork_demo :: sched where
  "fork_demo = (let s = snd (the (kmalloc 64 boot_task)) in
     (upd_task (current_task s) (\<lambda>k. k\<lparr>t_page_directory := 0x80000\<rparr>) s)\<lparr>mem := (\<lambda>_. 0), page_directory := 0x80000\<rparr>)"

lemma clone_no_tables:
  assumes "forkable s parent" "page_aligned (page_directory s)" "frame_live s (page_directory s)"
    "\<forall>pd. 16 \<le> pd \<and> pd < 1024 \<longrightarrow> \<not> is_present (get_entry (mem s) (page_directory s) pd)"
    and none: "\<forall>pd. 16 \<le> pd \<and> pd < 1024 \<longrightarrow> \<not> is_present (get_entry (mem s) parent pd)"
    and room: "heap_room (Suc r) s"
  shows "heap_room r (snd (paging_clone_address_space parent s))"
proof -
  have inv: "pmm_inv s" using assms(1) by (simp add: forkable_def)
  have pos: "0 < free_frames s" using room by (simp add: heap_room_def)
  have e: "{pd. 16 \<le> pd \<and> pd < 1024 \<and> is_present (get_entry (mem s) parent pd)} = {}" using none by auto
  obtain child s1 where c: "paging_clone_kernel_directory s = (child, s1)" "clone_inv s parent child {} s1"
    using clone_kernel_directory_inv [OF assms(1) pos assms(2-4)] e pos by auto
  have "\<not> is_present (get_entry (mem s1) parent pd)" if "pd \<in> {16..<1024}" for pd
    using c(2) none that by (auto simp: clone_inv_def)
  then have "fold (clone_table child parent) pds s1 = s1" if "set pds \<subseteq> {16..<1024}" for pds
    using that by (induction pds) (auto simp: clone_table_def Let_def)
  from this [of "[16..<1024]"] have eq: "paging_clone_address_space parent s = (child, s1)"
    by (simp add: paging_clone_address_space_def c(1) IDENTITY_MAP_TABLES_def ENTRIES_PER_TABLE_def del: upt_rec_numeral)
  obtain a s0 where a: "pmm_alloc_frame s = (a, s0)" "Suc (free_frames s0) = free_frames s"
    using free_frames_alloc [OF inv pos] by blast
  have "free_frames s1 = free_frames s0"
    using c(1) a(1) by (auto simp: paging_clone_kernel_directory_def Let_def)
  moreover have "heap_end s1 = heap_end s"
    using clone_more [of parent s] eq by (cases s, cases s1) simp
  ultimately show ?thesis using room a(2) eq by (simp add: heap_room_def)
qed

lemma fork_demo_ok:
  "\<exists>bs t k. sched_inv fork_demo bs [t] \<and> current_task fork_demo = t \<and> heap_room 5 fork_demo \<and>
    (fork_frame - 12, k, False) \<in> set bs \<and> 64 \<le> unat k \<and> 4 dvd unat fork_frame \<and>
    0x400000 \<le> unat fork_frame \<and> t_page_directory (tasks fork_demo t) = 0x80000"
proof -
  obtain bs t where b: "sched_inv boot_task bs [t]" "current_task boot_task = t" "heap_room 7 boot_task"
    using boot_task_ok by blast
  have r: "heap_room (pages_for 64 + 6) boot_task" using b(3) by (simp add: pages_for_def round4_def)
  obtain p k s' bs' where m: "kmalloc 64 boot_task = Some (p, s')" "sched_inv s' bs' [t]" "heap_room 6 s'"
    "(p - 12, k, False) \<in> set bs'" "4 dvd unat p" "heap.more s' = heap.more boot_task" "0x400000 \<le> unat p"
    "unat (64 :: u32) \<le> unat k"
    by (rule sched_kmalloc [OF b(1) _ _ r]) auto
  note f = sched_of_more [OF m(6)]
  let ?s = "(upd_task t (\<lambda>k. k\<lparr>t_page_directory := 0x80000\<rparr>) s')\<lparr>mem := (\<lambda>_. 0), page_directory := 0x80000\<rparr>"
  have e: "fork_frame = p" "fork_demo = ?s"
    using m(1) f b(2) by (simp_all add: fork_frame_def fork_demo_def Let_def)
  have "sched_inv ?s bs' [t]"
    by (rule sched_inv_cong [OF m(2)])
      (use m(2) in \<open>auto simp: sched_inv_def heap_inv_def pmm_inv_def counts_ok_def used_count_def bitmap_test_def upd_task_def\<close>)
  moreover have "heap_room 5 ?s"
    using m(3) by (simp add: heap_room_def free_frames_def bitmap_test_def upd_task_def)
  moreover have "current_task ?s = t" "t_page_directory (tasks ?s t) = 0x80000" using f(3) b(2) by simp_all
  moreover have "64 \<le> unat k" using m(8) by simp
  ultimately show ?thesis using m(4,5,7) unfolding e by blast
qed

lemma fork_child_resumes_witness:
  "\<exists>t s'. sys_fork 0x1000 fork_frame blank_regs fork_demo =
      Some (Return (blank_regs\<lparr>r_eax := of_int (next_task_id fork_demo)\<rparr>), s') \<and> runnable s' t \<and>
    load32 (kmem s') (t_esp (tasks s' t) + 20 + 4 * 8) = 0 \<and> load32 (kmem s') (t_esp (tasks s' t) + 20 + 4 * 11) = 0x40000000"
proof -
  obtain bs t k where d: "sched_inv fork_demo bs [t]" "current_task fork_demo = t" "heap_room 5 fork_demo"
    "(fork_frame - 12, k, False) \<in> set bs" "64 \<le> unat k" "4 dvd unat fork_frame"
    "0x400000 \<le> unat fork_frame" "t_page_directory (tasks fork_demo t) = 0x80000"
    using fork_demo_ok by blast
  have m: "mem fork_demo = (\<lambda>_. 0)" "page_directory fork_demo = 0x80000" by (simp_all add: fork_demo_def Let_def)
  have z: "get_entry (\<lambda>_. 0) q i = 0" for q i by (simp add: get_entry_def load32_def)
  have p: "\<not> is_present 0" by (simp add: is_present_def)
  have inv: "pmm_inv fork_demo" using d(1) by (simp add: sched_inv_def)
  have live: "frame_live fork_demo 0x80000"
    using pmm_inv_not_low [OF inv, of 128] by (auto simp: frame_live_def frame_of_def MAX_FRAMES_val)
  have byte: "unat x \<le> 255" for x :: u8
  proof -
    have "unat x < 2 ^ LENGTH(8)" by (rule unsigned_less)
    then show ?thesis by simp
  qed
  have "slots_of (\<lambda>_. 0) 0x80000 f = {}" for f
    by (auto simp: slots_of_def leaf_def user_pte_def z p)
  then have fk: "forkable fork_demo 0x80000"
    using inv live by (simp add: forkable_def as_wf_def m z p page_aligned_def frame_refs_def byte)
  have none: "\<forall>pd. 16 \<le> pd \<and> pd < 1024 \<longrightarrow> \<not> is_present (get_entry (mem fork_demo) (page_directory fork_demo) pd)"
    by (simp add: m z p)
  have u: "unat (fork_frame - 12) = unat fork_frame - 12"
    using d(7) by (subst unat_sub_le) (simp_all add: word_le_nat_alt)
  have al: "page_aligned (page_directory fork_demo)" "frame_live fork_demo (page_directory fork_demo)"
    using live by (simp_all add: m page_aligned_def)
  have room: "heap_room 4 (snd (paging_clone_address_space 0x80000 fork_demo))"
    using clone_no_tables [OF fk al none, of 4] none d(3) by (simp add: m)
  have tables: "card {pd. 16 \<le> pd \<and> pd < 1024 \<and> is_present (get_entry (mem fork_demo) 0x80000 pd)} < free_frames fork_demo"
    using d(3) by (simp add: m z p heap_room_def)
  have fr: "unat (fork_frame - 12) + 12 \<le> unat fork_frame" "unat fork_frame + 64 \<le> unat (fork_frame - 12) + 12 + unat k"
    "aligned4 fork_frame" using d(5-7) u by (simp_all add: aligned4_def)
  obtain t' s' where r: "sys_fork 0x1000 fork_frame blank_regs fork_demo =
      Some (Return (blank_regs\<lparr>r_eax := of_int (next_task_id fork_demo)\<rparr>), s')" "runnable s' t'"
    "\<forall>i<16. load32 (kmem s') (t_esp (tasks s' t') + 20 + 4 * of_nat i) = frame_words (blank_regs\<lparr>r_eax := 0\<rparr>) ! i"
    using fork_child_resumes [OF d(1,2,8) fk al none tables room d(4) fr, where tail = "0x1000" and regs = blank_regs]
    by blast
  show ?thesis
    using r(1,2) r(3) [rule_format, of 8] r(3) [rule_format, of 11] by (auto simp: frame_words_def blank_regs_def)
qed

section \<open>Exec\<close>

text \<open>Everything that is not memory or a frame count: \<open>cr3\<close> and the statics of the other components.\<close>

definition outside :: "'a vm_scheme \<Rightarrow> 'a vm_scheme \<Rightarrow> bool" where
  "outside s t \<longleftrightarrow> cr3 t = cr3 s \<and> vm.more t = vm.more s"

lemma outside_refl [simp]: "outside s s"
  by (simp add: outside_def)

lemma outside_trans: "outside s t \<Longrightarrow> outside t u \<Longrightarrow> outside s u"
  by (simp add: outside_def)

lemma outside_ops [simp]:
  "outside s (t\<lparr>mem := m\<rparr>) = outside s t" "outside s (pmm_free_frame a t) = outside s t"
  "outside s (snd (pmm_alloc_frame t)) = outside s t"
  "outside s (snd (paging_map_user_page d p v f t)) = outside s t"
  "outside s (snd (paging_clone_kernel_directory t)) = outside s t"
  by (simp_all add: outside_def paging_map_user_page_def paging_clone_kernel_directory_def Let_def split_def)

lemma outside_fold: "(\<And>x t. outside t (f x t)) \<Longrightarrow> outside t (fold f xs t)"
  by (induction xs arbitrary: t) (auto intro: outside_trans)

lemma outside_free: "outside s (paging_free_address_space d s)"
proof -
  have p: "outside t (free_page tb pt t)" for tb pt and t :: "'a vm_scheme"
    by (simp add: free_page_def Let_def)
  have "outside t (free_table d pd t)" for pd and t :: "'a vm_scheme"
    using outside_fold [of "free_page tb" for tb, OF p] by (simp add: free_table_def Let_def)
  then show ?thesis unfolding paging_free_address_space_def by (rule outside_fold)
qed

lemma outside_load_page: "outside s (snd (load_page elf d ph i v s))"
  by (simp add: load_page_def Let_def split_def)

lemma outside_load_pages: "outside s (snd (load_pages elf d ph i vs s))"
  by (induction vs arbitrary: s) (auto simp: split_def Let_def intro: outside_trans outside_load_page)

lemma outside_load_segment: "outside s (snd (load_segment elf d ph i s))"
  by (simp add: load_segment_def Let_def outside_load_pages)

lemma outside_load_segments: "outside s (snd (load_segments elf d ph i s))"
proof (induction elf d ph i s rule: load_segments.induct)
  case (1 elf d ph i s)
  then show ?case
    using outside_load_segment [of s elf d ph i]
    by (subst load_segments.simps) (auto simp: Let_def split: prod.split intro: outside_trans)
qed

lemma outside_elf_load: "outside s (snd (elf_load elf d s))"
  using outside_load_segments [of s elf d] by (simp add: elf_load_def Let_def split_def)

lemma outside_sched:
  "outside s t \<Longrightarrow> cr3 t = cr3 s \<and> tasks t = tasks s \<and> current_task t = current_task s"
  using sched_of_more [OF more_heap_vm] unfolding outside_def by metis

lemma kmalloc_cr3: "kmalloc n s = Some (p, s') \<Longrightarrow> cr3 s' = cr3 s"
proof -
  have "cr3 (heap_extend_n k t) = cr3 t" for k and t :: "'a heap_scheme"
    by (induction k arbitrary: t) (auto simp: split_def Let_def paging_map_page_def)
  then show "kmalloc n s = Some (p, s') \<Longrightarrow> cr3 s' = cr3 s"
    by (auto simp: kmalloc_def grow_block_def Let_def heap_extend_def split: if_splits option.splits)
qed

end
