(* ===== verification/Exec.thy ===== *)
theory Exec
  imports Loading Process_Calls
begin

text \<open>
  \<open>SYS_EXEC\<close> of \<open>kernel/syscall.c\<close> among all processes: what becomes of the caller's memory when the call
  fails, wherever it fails, and what the new program finds when it succeeds. The rest of the call's
  promise is about everybody else: no other process notices. \<open>Syscall\<close> lets the call store the bytes
  of the file at the address of the heap block itself, so the frames at the heap's addresses count as
  reserved here (\<open>kernel_apart\<close>).
\<close>

section \<open>Reading the file\<close>



lemma untouched_fs [simp]: "untouched F s (t\<lparr>the_fs := f\<rparr>) = untouched F s t"
  for t :: "('g, 'f, 'm, 'x) machine_scheme"
  by (simp add: untouched_def frame_live_def bitmap_test_def frame_refs_def)



section \<open>Two ways to end\<close>




section \<open>The program in its place\<close>












section \<open>The call\<close>











section \<open>An example\<close>

text \<open>A volume whose one file \<open>A\<close> is \<open>Elf\<close>'s image, and a process with that name in its memory.\<close>

definition exec_root :: "u16 list" where
  "exec_root = [0x2041, 0x2020, 0x2020, 0x2020, 0x2020, 0x2020] @ replicate 7 0 @ [2, 88, 0] @ replicate 240 0"

definition exec_sector :: "u16 list" where
  "exec_sector = [0x457F, 0x464C, 0x101, 1, 0, 0, 0, 0, 2, 3, 1, 0, 0x1002, 0x400, 0x34, 0, 0, 0, 0, 0, 0x34, 0x20, 1, 0, 0, 0,
     1, 0, 0x54, 0, 0x1002, 0x400, 0, 0, 4, 0, 8, 0, 7, 0, 0x1000, 0, 0xADDE, 0xEFBE] @ replicate 212 0"

definition exec_fs :: "drive fs" where
  "exec_fs = demo_fs\<lparr>dev := blank_drive\<lparr>d_sectors := (\<lambda>_. replicate 256 0)
     (2049 := [0xFFF8, 0xFFFF, 0xFFFF] @ replicate 253 0, 2050 := [0xFFF8, 0xFFFF, 0xFFFF] @ replicate 253 0,
      2051 := exec_root, 2052 := exec_sector)\<rparr>\<rparr>"

definition exec_demo :: "(unit, drive, unit) machine" where
  "exec_demo = demo_machine\<lparr>mem := demo_mem(0x102000 := 65), cr3 := 0x100000, page_directory := 0x80000, page_tables := 0x81000,
     frame_bitmap := (\<lambda>i. if i < 32 \<or> 128 \<le> i \<and> i < 2048 then 255 else if i = 32 then 7 else 0),
     frame_refcount := (\<lambda>f. if f \<in> {256, 257, 258} then 1 else 0), total_frames := 32768, used_frames := 15619,
     tasks := (\<lambda>_. blank_task\<lparr>t_page_directory := 0x100000\<rparr>), the_fs := exec_fs\<rparr>"


lemma exec_demo_simps [simp]:
  "cr3 exec_demo = 0x100000" "page_directory exec_demo = 0x80000"
  "page_tables exec_demo = 0x81000" "tasks exec_demo = (\<lambda>_. blank_task\<lparr>t_page_directory := 0x100000\<rparr>)" "the_fs exec_demo = exec_fs"
  by (simp_all add: exec_demo_def)













end
