(* ===== verification/Desktop.thy ===== *)
theory Desktop
  imports Machine
begin

text \<open>
  \<open>kernel/desktop.c\<close> and \<open>kernel/cursor_bitmap.c\<close>: the windowing desktop. Its statics extend the
  machine: six window slots and the array of slots from back to front, of which the first \<open>num_order\<close>
  are in use. Slot numbers are C integers, -1 for none. Coordinates are unbounded integers; that they
  stay small is part of the invariant. \<open>None\<close> is an access outside of an array, or waiting for ever.

  The order array with its count is refined by the list of its slots; the frontmost window is the one
  with the keyboard focus in every reachable state.
\<close>

section \<open>State\<close>

definition MAX_WINDOWS :: nat where "MAX_WINDOWS = 6"
definition TITLEBAR_H :: int where "TITLEBAR_H = 24"
definition CLOSE_BTN_SIZE :: int where "CLOSE_BTN_SIZE = 16"
definition TASKBAR_H :: int where "TASKBAR_H = 40"
definition TERM_COLS :: int where "TERM_COLS = 60"
definition TERM_ROWS :: int where "TERM_ROWS = 20"
definition BTN_TERM_X :: int where "BTN_TERM_X = 12"
definition BTN_EDIT_X :: int where "BTN_EDIT_X = 150"
definition BTN_QUIT_X :: int where "BTN_QUIT_X = 288"
definition BTN_W :: int where "BTN_W = 128"
definition BTN_H :: int where "BTN_H = 28"

definition scratch_names :: "char list list" where
  "scratch_names = [''scratch0.txt'', ''scratch1.txt'', ''scratch2.txt'', ''scratch3.txt'', ''scratch4.txt'', ''scratch5.txt'']"

record gui_window =
  win_active :: bool
  win_x :: int
  win_y :: int
  win_w :: int
  win_h :: int
  win_title :: "char list"
  is_hosted :: bool
  hosted_task :: addr
  buf_slot :: int

record ('g, 'f, 'm) desk = "('g, 'f, 'm) machine" +
  windows :: "gui_window list"
  window_order :: "int list"
  num_order :: nat
  focused_slot :: int
  dragging_window :: int
  drag_offset_x :: int
  drag_offset_y :: int
  prev_buttons :: u8
  quit_requested :: bool

text \<open>The address of \<open>term_buffers\<close>, and the entry points of the tasks of each slot.\<close>

record ('g, 'f, 'm) desk_env = "('g, 'f, 'm) env" +
  term_buffers_addr :: addr
  terminal_entries :: "addr list"
  editor_entries :: "addr list"

definition term_buffer :: "('g, 'f, 'm, 'y) desk_env_scheme \<Rightarrow> int \<Rightarrow> addr" where
  "term_buffer E slot = term_buffers_addr E + of_int (slot * (TERM_ROWS * TERM_COLS * 2))"

text \<open>What \<open>terminal_entry_N\<close> and \<open>editor_entry_N\<close> do before the shell or the editor runs.\<close>

definition hosted_entry :: "('g, 'f, 'm, 'y) desk_env_scheme \<Rightarrow> int \<Rightarrow> 'a console_scheme \<Rightarrow> 'a console_scheme option" where
  "hosted_entry E slot s =
     vga_clear (vga_set_redirect (term_buffer E slot) TERM_COLS TERM_ROWS (task_set_input_redirect (current_task s) True s))"

section \<open>The order of the windows\<close>

definition window_at :: "int \<Rightarrow> ('g, 'f, 'm, 'x) desk_scheme \<Rightarrow> gui_window" where
  "window_at slot s = windows s ! nat slot"

definition upd_window :: "int \<Rightarrow> (gui_window \<Rightarrow> gui_window) \<Rightarrow> ('g, 'f, 'm, 'x) desk_scheme \<Rightarrow> ('g, 'f, 'm, 'x) desk_scheme" where
  "upd_window slot f s = s\<lparr>windows := (windows s)[nat slot := f (window_at slot s)]\<rparr>"

definition find_free_slot :: "('g, 'f, 'm, 'x) desk_scheme \<Rightarrow> int" where
  "find_free_slot s =
     (case List.find (\<lambda>i. \<not> win_active (windows s ! i)) [0..<MAX_WINDOWS] of None \<Rightarrow> - 1 | Some i \<Rightarrow> int i)"

definition order_remove :: "int \<Rightarrow> ('g, 'f, 'm, 'x) desk_scheme \<Rightarrow> ('g, 'f, 'm, 'x) desk_scheme" where
  "order_remove slot s =
     (case List.find (\<lambda>i. window_order s ! i = slot) [0..<num_order s] of
        None \<Rightarrow> s
      | Some pos \<Rightarrow> s\<lparr>window_order := fold (\<lambda>i w. w[i := w ! (i + 1)]) [pos..<num_order s - 1] (window_order s),
          num_order := num_order s - 1\<rparr>)"

definition order_push_front :: "int \<Rightarrow> ('g, 'f, 'm, 'x) desk_scheme \<Rightarrow> ('g, 'f, 'm, 'x) desk_scheme option" where
  "order_push_front slot s =
     map_option (\<lambda>w. s\<lparr>window_order := w, num_order := num_order s + 1\<rparr>) (poke (int (num_order s)) slot (window_order s))"

definition bring_to_front :: "int \<Rightarrow> ('g, 'f, 'm, 'x) desk_scheme \<Rightarrow> ('g, 'f, 'm, 'x) desk_scheme option" where
  "bring_to_front slot s = order_push_front slot (order_remove slot s)"

section \<open>Opening and closing\<close>

text \<open>A closed window leaves the order; the focus goes to the frontmost of the others.\<close>

definition forget_window :: "int \<Rightarrow> ('g, 'f, 'm, 'x) desk_scheme \<Rightarrow> ('g, 'f, 'm, 'x) desk_scheme" where
  "forget_window slot s =
     (let s = order_remove slot (upd_window slot (\<lambda>w. w\<lparr>win_active := False\<rparr>) s);
          s = (if focused_slot s = slot
               then s\<lparr>focused_slot := if 0 < num_order s then window_order s ! (num_order s - 1) else - 1\<rparr> else s)
      in if dragging_window s = slot then s\<lparr>dragging_window := - 1\<rparr> else s)"

text \<open>Termination of the desktop's own task, which would not come back, does not happen: \<open>None\<close>.\<close>

definition close_window :: "int \<Rightarrow> ('g, 'f, 'm, 'x) desk_scheme \<Rightarrow> ('g, 'f, 'm, 'x) desk_scheme option" where
  "close_window slot s =
     (if \<not> win_active (window_at slot s) then Some s
      else do {
        s \<leftarrow> (if is_hosted (window_at slot s) \<and> hosted_task (window_at slot s) \<noteq> 0
             then if hosted_task (window_at slot s) = current_task s then None
               else map_option snd (task_force_terminate (hosted_task (window_at slot s)) 0 s)
             else Some s);
        Some (forget_window slot s) })"

definition open_window :: "('g, 'f, 'm, 'y) desk_env_scheme \<Rightarrow> bool \<Rightarrow> ('g, 'f, 'm, 'x) desk_scheme
    \<Rightarrow> ('g, 'f, 'm, 'x) desk_scheme option" where
  "open_window E is_editor s =
     (let slot = find_free_slot s in
      if slot < 0 then Some s
      else do {
        let n = int (length (filter (\<lambda>i. win_active (windows s ! i)) [0..<MAX_WINDOWS]));
        let s = upd_window slot (\<lambda>w. w\<lparr>win_active := True, win_x := 100 + 28 * n, win_y := 90 + 24 * n,
              win_w := TERM_COLS * 8 + 16, win_h := TERM_ROWS * 16 + TITLEBAR_H + 16, is_hosted := True, buf_slot := slot\<rparr>) s;
        let s = set_cells (term_buffer E slot) (replicate (nat (TERM_ROWS * TERM_COLS)) 0) s;
        let title = (if is_editor then take 24 (scratch_names ! nat slot)
              else ''Terminal '' @ [char_of (49 + nat slot)]);
        let s = upd_window slot (\<lambda>w. w\<lparr>win_title := title\<rparr>) s;
        (t, s) \<leftarrow> task_create (trampoline_addr E) ((if is_editor then editor_entries E else terminal_entries E) ! nat slot) s;
        let s = upd_window slot (\<lambda>w. w\<lparr>hosted_task := t\<rparr>) s;
        s \<leftarrow> order_push_front slot s;
        Some (s\<lparr>focused_slot := slot\<rparr>) })"

section \<open>Drawing\<close>

definition point_in_rect :: "int \<Rightarrow> int \<Rightarrow> int \<Rightarrow> int \<Rightarrow> int \<Rightarrow> int \<Rightarrow> bool" where
  "point_in_rect px py x y w h \<longleftrightarrow> x \<le> px \<and> px < x + w \<and> y \<le> py \<and> py < y + h"

definition fill_box :: "int \<Rightarrow> int \<Rightarrow> int \<Rightarrow> int \<Rightarrow> u32 \<Rightarrow> framebuf \<Rightarrow> framebuf" where
  "fill_box x y w h rgb = fb_fill_rect (of_int x) (of_int y) (of_int w) (of_int h) rgb"

definition draw_text :: "int \<Rightarrow> int \<Rightarrow> char list \<Rightarrow> u32 \<Rightarrow> framebuf \<Rightarrow> framebuf" where
  "draw_text x y str rgb = fb_draw_string (of_int x) (of_int y) (text_bytes str) rgb 0 False"

definition draw_cell :: "int \<Rightarrow> int \<Rightarrow> u16 list \<Rightarrow> int \<Rightarrow> int \<Rightarrow> framebuf \<Rightarrow> framebuf" where
  "draw_cell base_x base_y buf row col =
     (let ch = ucast (buf ! nat (row * TERM_COLS + col) AND 0xFF); ch = (if ch = 0 then SPACE else ch)
      in fb_draw_char (of_int (base_x + col * 8)) (of_int (base_y + row * 16)) ch (RGB 220 220 220) 0 False)"

definition draw_window :: "('g, 'f, 'm, 'y) desk_env_scheme \<Rightarrow> ('g, 'f, 'm, 'x) desk_scheme \<Rightarrow> int \<Rightarrow> framebuf \<Rightarrow> framebuf" where
  "draw_window E s slot b =
     (let win = window_at slot s; x = win_x win; y = win_y win; w = win_w win; h = win_h win;
          title_color = (if slot = focused_slot s then RGB 60 90 160 else RGB 70 70 90);
          b = fill_box x y w h (RGB 8 8 10) b;
          b = fill_box x y w TITLEBAR_H title_color b;
          b = draw_text (x + 8) (y + 4) (win_title win) (RGB 255 255 255) b;
          b = fb_draw_rect (of_int x) (of_int y) (of_int w) (of_int h) (RGB 0 0 0) b;
          b = fb_draw_hline (of_int x) (of_int (y + TITLEBAR_H)) (of_int w) (RGB 0 0 0) b;
          cbx = x + w - CLOSE_BTN_SIZE - 4; cby = y + 4;
          b = fill_box cbx cby CLOSE_BTN_SIZE CLOSE_BTN_SIZE (RGB 180 50 50) b;
          b = draw_text (cbx + 4) (cby - 1) ''x'' (RGB 255 255 255) b
      in if is_hosted win
         then fold (\<lambda>row. fold (draw_cell (x + 8) (y + TITLEBAR_H + 8) (cells s (term_buffer E (buf_slot win))) row)
                [0..TERM_COLS - 1]) [0..TERM_ROWS - 1] b
         else b)"

definition close_button_hit :: "int \<Rightarrow> int \<Rightarrow> int \<Rightarrow> ('g, 'f, 'm, 'x) desk_scheme \<Rightarrow> bool" where
  "close_button_hit slot px py s =
     (let win = window_at slot s
      in point_in_rect px py (win_x win + win_w win - CLOSE_BTN_SIZE - 4) (win_y win + 4) CLOSE_BTN_SIZE CLOSE_BTN_SIZE)"

definition cursor_width :: nat where "cursor_width = 12"
definition cursor_height :: nat where "cursor_height = 19"

definition cursor_bitmap :: "u8 list list" where
  "cursor_bitmap =
    [[2, 0, 0, 0, 0, 0, 0, 0, 0, 0, 0, 0],
     [2, 2, 0, 0, 0, 0, 0, 0, 0, 0, 0, 0],
     [2, 1, 2, 0, 0, 0, 0, 0, 0, 0, 0, 0],
     [2, 1, 1, 2, 0, 0, 0, 0, 0, 0, 0, 0],
     [2, 1, 1, 1, 2, 0, 0, 0, 0, 0, 0, 0],
     [2, 1, 1, 1, 1, 2, 0, 0, 0, 0, 0, 0],
     [2, 1, 1, 1, 1, 1, 2, 0, 0, 0, 0, 0],
     [2, 1, 1, 1, 1, 1, 1, 2, 0, 0, 0, 0],
     [2, 1, 1, 1, 1, 1, 1, 1, 2, 0, 0, 0],
     [2, 1, 1, 1, 1, 1, 1, 1, 1, 2, 0, 0],
     [2, 1, 1, 1, 1, 1, 1, 1, 1, 1, 2, 0],
     [2, 1, 1, 1, 1, 1, 2, 2, 2, 2, 2, 2],
     [2, 1, 1, 1, 2, 1, 2, 0, 0, 0, 0, 0],
     [2, 1, 1, 2, 2, 1, 1, 2, 0, 0, 0, 0],
     [2, 1, 2, 0, 0, 2, 1, 2, 0, 0, 0, 0],
     [2, 2, 0, 0, 0, 2, 1, 2, 0, 0, 0, 0],
     [2, 0, 0, 0, 0, 2, 1, 1, 2, 0, 0, 0],
     [0, 0, 0, 0, 0, 0, 2, 2, 2, 0, 0, 0],
     [0, 0, 0, 0, 0, 0, 2, 0, 0, 0, 0, 0]]"

definition draw_cursor :: "int \<Rightarrow> int \<Rightarrow> framebuf \<Rightarrow> framebuf" where
  "draw_cursor x y =
     fold (\<lambda>row. fold (\<lambda>col b.
         let v = cursor_bitmap ! row ! col in
         if v = 1 then fb_put_pixel (of_int (x + int col)) (of_int (y + int row)) (RGB 255 255 255) b
         else if v = 2 then fb_put_pixel (of_int (x + int col)) (of_int (y + int row)) (RGB 0 0 0) b
         else b) [0..<cursor_width]) [0..<cursor_height]"

text \<open>\<open>(TASKBAR_H - BTN_H) / 2\<close> is the constant 6.\<close>

definition draw_taskbar :: "int \<Rightarrow> int \<Rightarrow> framebuf \<Rightarrow> framebuf" where
  "draw_taskbar width height b =
     (let y = height - TASKBAR_H; by' = y + (TASKBAR_H - BTN_H) div 2;
          b = fill_box 0 y width TASKBAR_H (RGB 35 35 55) b;
          b = fb_draw_hline 0 (of_int y) (of_int width) (RGB 0 0 0) b;
          b = fill_box BTN_TERM_X by' BTN_W BTN_H (RGB 60 110 60) b;
          b = draw_text (BTN_TERM_X + 10) (by' + 6) ''+ Terminal'' (RGB 255 255 255) b;
          b = fill_box BTN_EDIT_X by' BTN_W BTN_H (RGB 60 90 140) b;
          b = draw_text (BTN_EDIT_X + 16) (by' + 6) ''+ Editor'' (RGB 255 255 255) b;
          b = fill_box BTN_QUIT_X by' 96 BTN_H (RGB 140 60 60) b;
          b = draw_text (BTN_QUIT_X + 22) (by' + 6) ''Quit'' (RGB 255 255 255) b
      in draw_text (width - 340) (y + 13) ''Click a window to focus it for typing'' (RGB 190 190 210) b)"

text \<open>The slots in use, from back to front.\<close>

definition order :: "('g, 'f, 'm, 'x) desk_scheme \<Rightarrow> int list" where
  "order s = take (num_order s) (window_order s)"

definition screen_size :: "'a console_scheme \<Rightarrow> int \<times> int" where
  "screen_size s = (sint (fb_get_width (screen_fb s)), sint (fb_get_height (screen_fb s)))"

definition redraw :: "('g, 'f, 'm, 'y) desk_env_scheme \<Rightarrow> ('g, 'f, 'm, 'x) desk_scheme \<Rightarrow> ('g, 'f, 'm, 'x) desk_scheme" where
  "redraw E s =
     (let (w, h) = screen_size s;
          b = fill_box 0 0 w h (RGB 25 25 55) (screen_fb s);
          b = fold (draw_window E s) (order s) b;
          b = draw_taskbar w h b;
          b = draw_cursor (mouse_get_x (the_mouse s)) (mouse_get_y (the_mouse s)) b
      in s\<lparr>screen_fb := b\<rparr>)"

section \<open>Mouse and keyboard\<close>

text \<open>A click on the taskbar is always absorbed; the result of the function is not used.\<close>

definition taskbar_click :: "('g, 'f, 'm, 'y) desk_env_scheme \<Rightarrow> int \<Rightarrow> int \<Rightarrow> int \<Rightarrow> ('g, 'f, 'm, 'x) desk_scheme
    \<Rightarrow> (bool \<times> ('g, 'f, 'm, 'x) desk_scheme) option" where
  "taskbar_click E mx my height s =
     (let y = height - TASKBAR_H; by' = y + (TASKBAR_H - BTN_H) div 2 in
      if my < y then Some (False, s)
      else if point_in_rect mx my BTN_TERM_X by' BTN_W BTN_H then map_option (Pair True) (open_window E False s)
      else if point_in_rect mx my BTN_EDIT_X by' BTN_W BTN_H then map_option (Pair True) (open_window E True s)
      else if point_in_rect mx my BTN_QUIT_X by' 96 BTN_H then Some (True, s\<lparr>quit_requested := True\<rparr>)
      else Some (True, s))"

text \<open>The windows are tried from front to back, and the first that contains the point gets the click.\<close>

definition in_window :: "int \<Rightarrow> int \<Rightarrow> ('g, 'f, 'm, 'x) desk_scheme \<Rightarrow> int \<Rightarrow> bool" where
  "in_window mx my s slot =
     (let win = window_at slot s in point_in_rect mx my (win_x win) (win_y win) (win_w win) (win_h win))"

definition click_window :: "int \<Rightarrow> int \<Rightarrow> int \<Rightarrow> ('g, 'f, 'm, 'x) desk_scheme \<Rightarrow> ('g, 'f, 'm, 'x) desk_scheme option" where
  "click_window slot mx my s =
     (let win = window_at slot s in
      if close_button_hit slot mx my s then close_window slot s
      else if point_in_rect mx my (win_x win) (win_y win) (win_w win) TITLEBAR_H then do {
        s \<leftarrow> bring_to_front slot
              (s\<lparr>dragging_window := slot, drag_offset_x := mx - win_x win, drag_offset_y := my - win_y win\<rparr>);
        Some (s\<lparr>focused_slot := slot\<rparr>) }
      else do { s \<leftarrow> bring_to_front slot s; Some (s\<lparr>focused_slot := slot\<rparr>) })"

definition click_windows :: "int \<Rightarrow> int \<Rightarrow> bool \<Rightarrow> ('g, 'f, 'm, 'x) desk_scheme
    \<Rightarrow> (bool \<times> ('g, 'f, 'm, 'x) desk_scheme) option" where
  "click_windows mx my need s =
     (case List.find (in_window mx my s) (rev (order s)) of
        None \<Rightarrow> Some (need, s)
      | Some slot \<Rightarrow> map_option (Pair True) (click_window slot mx my s))"

definition left :: "u8 \<Rightarrow> bool" where "left buttons \<longleftrightarrow> buttons AND 0x1 \<noteq> 0"

definition press_left :: "('g, 'f, 'm, 'y) desk_env_scheme \<Rightarrow> int \<Rightarrow> int \<Rightarrow> bool \<Rightarrow> ('g, 'f, 'm, 'x) desk_scheme
    \<Rightarrow> (bool \<times> ('g, 'f, 'm, 'x) desk_scheme) option" where
  "press_left E mx my need s =
     (let height = snd (screen_size s) in
      if height - TASKBAR_H \<le> my then map_option (\<lambda>(_, s). (True, s)) (taskbar_click E mx my height s)
      else click_windows mx my need s)"

definition drag :: "int \<Rightarrow> int \<Rightarrow> u8 \<Rightarrow> bool \<Rightarrow> ('g, 'f, 'm, 'x) desk_scheme \<Rightarrow> bool \<times> ('g, 'f, 'm, 'x) desk_scheme" where
  "drag mx my buttons need s =
     (let slot = dragging_window s in
      if 0 \<le> slot \<and> left buttons \<and> win_active (window_at slot s)
      then (True, upd_window slot (\<lambda>w. w\<lparr>win_x := mx - drag_offset_x s, win_y := my - drag_offset_y s\<rparr>) s)
      else (need, s))"

definition desk_mouse :: "('g, 'f, 'm, 'y) desk_env_scheme \<Rightarrow> bool \<Rightarrow> ('g, 'f, 'm, 'x) desk_scheme
    \<Rightarrow> (bool \<times> ('g, 'f, 'm, 'x) desk_scheme) option" where
  "desk_mouse E need s = do {
     let mx = mouse_get_x (the_mouse s);
     let my = mouse_get_y (the_mouse s);
     let buttons = mouse_get_buttons (the_mouse s);
     (need, s) \<leftarrow> (if left buttons \<and> \<not> left (prev_buttons s) then press_left E mx my need s
          else if \<not> left buttons then Some (need, s\<lparr>dragging_window := - 1\<rparr>)
          else Some (need, s));
     let (need, s) = drag mx my buttons need s;
     Some (need, s\<lparr>prev_buttons := buttons\<rparr>) }"

partial_function (option) route_keyboard :: "('g, 'f, 'm, 'x) desk_scheme \<Rightarrow> ('g, 'f, 'm, 'x) desk_scheme option" where
  "route_keyboard s =
     (if keyboard_has_char s then do {
        (c, s) \<leftarrow> keyboard_getchar s;
        route_keyboard
          (if 0 \<le> focused_slot s \<and> win_active (window_at (focused_slot s) s) \<and> is_hosted (window_at (focused_slot s) s)
           then snd (task_push_input_char (hosted_task (window_at (focused_slot s) s)) c s) else s) }
      else Some s)"

section \<open>The main loop\<close>

text \<open>What may happen while the desktop executes \<open>hlt\<close>: a keyboard, timer or mouse interrupt, and that
  the other tasks run for a while.\<close>

datatype 's desk_event = Key_irq u8 | Timer_irq | Mouse_irq | Run "'s \<Rightarrow> 's"

fun desk_happen :: "'m ports \<Rightarrow> ('g, 'f, 'm, 'x) desk_scheme desk_event \<Rightarrow> ('g, 'f, 'm, 'x) desk_scheme
    \<Rightarrow> ('g, 'f, 'm, 'x) desk_scheme" where
  "desk_happen M (Key_irq scancode) s = keyboard_callback scancode s"
| "desk_happen M Timer_irq s = s\<lparr>tick := tick s + 1\<rparr>"
| "desk_happen M Mouse_irq s = s\<lparr>the_mouse := mouse_callback M (the_mouse s)\<rparr>"
| "desk_happen M (Run f) s = f s"

primrec consume_dirty :: "int list \<Rightarrow> bool \<Rightarrow> ('g, 'f, 'm, 'x) desk_scheme \<Rightarrow> bool \<times> ('g, 'f, 'm, 'x) desk_scheme" where
  "consume_dirty [] any s = (any, s)"
| "consume_dirty (slot # slots) any s =
     (let win = window_at slot s in
      if is_hosted win \<and> hosted_task win \<noteq> 0
      then let (d, s) = task_consume_vga_dirty (hosted_task win) s in consume_dirty slots (d \<or> any) s
      else consume_dirty slots any s)"

partial_function (option) desk_wait :: "'m ports \<Rightarrow> u32 \<Rightarrow> bool \<Rightarrow> ('g, 'f, 'm, 'x) desk_scheme desk_event list
    \<Rightarrow> ('g, 'f, 'm, 'x) desk_scheme
    \<Rightarrow> (bool \<times> ('g, 'f, 'm, 'x) desk_scheme desk_event list \<times> ('g, 'f, 'm, 'x) desk_scheme) option" where
  "desk_wait M target need evs s =
     (if timer_ticks s < target \<and> \<not> quit_requested s then
        if keyboard_has_char s then do { s \<leftarrow> route_keyboard s; desk_wait M target True evs s }
        else
          let (moved, m) = mouse_consume_dirty (the_mouse s); s = s\<lparr>the_mouse := m\<rparr> in
          if moved then desk_wait M target True evs s
          else
            let (any_dirty, s) = consume_dirty (order s) False s in
            if any_dirty then desk_wait M target True evs s
            else (case evs of [] \<Rightarrow> None | e # evs \<Rightarrow> desk_wait M target need evs (desk_happen M e s))
      else Some (need, evs, s))"

definition desk_frame :: "('g, 'f, 'm, 'y) desk_env_scheme \<Rightarrow> ('g, 'f, 'm, 'x) desk_scheme desk_event list
    \<Rightarrow> ('g, 'f, 'm, 'x) desk_scheme
    \<Rightarrow> (('g, 'f, 'm, 'x) desk_scheme desk_event list \<times> ('g, 'f, 'm, 'x) desk_scheme) option" where
  "desk_frame E evs s = do {
     (need, evs, s) \<leftarrow> desk_wait (ps2_ports E) (timer_ticks s + 3) False evs s;
     if quit_requested s then Some (evs, s)
     else do {
       (need, s) \<leftarrow> desk_mouse E need s;
       Some (evs, if need then redraw E s else s) } }"

partial_function (option) desk_loop :: "('g, 'f, 'm, 'y) desk_env_scheme \<Rightarrow> ('g, 'f, 'm, 'x) desk_scheme desk_event list
    \<Rightarrow> ('g, 'f, 'm, 'x) desk_scheme
    \<Rightarrow> (('g, 'f, 'm, 'x) desk_scheme desk_event list \<times> ('g, 'f, 'm, 'x) desk_scheme) option" where
  "desk_loop E evs s =
     (if quit_requested s then Some (evs, s)
      else do { (evs, s) \<leftarrow> desk_frame E evs s; desk_loop E evs s })"

definition desk_reset :: "('g, 'f, 'm, 'x) desk_scheme \<Rightarrow> ('g, 'f, 'm, 'x) desk_scheme" where
  "desk_reset s = s\<lparr>windows := map (\<lambda>w. w\<lparr>win_active := False\<rparr>) (windows s), num_order := 0, focused_slot := - 1,
     quit_requested := False, dragging_window := - 1\<rparr>"

primrec close_all :: "nat list \<Rightarrow> ('g, 'f, 'm, 'x) desk_scheme \<Rightarrow> ('g, 'f, 'm, 'x) desk_scheme option" where
  "close_all [] s = Some s"
| "close_all (i # is) s = do {
     s \<leftarrow> (if win_active (window_at (int i) s) then close_window (int i) s else Some s);
     close_all is s }"

definition desk_farewell :: "char list" where
  "desk_farewell = ''Returned to the console from the GUI desktop.'' @ [CHR 0x0A] @
     ''(Still fully alive throughout -- this is the same console session, just no longer full-screen graphics.)'' @
     [CHR 0x0A, CHR 0x0A]"

definition desktop_run :: "('g, 'f, 'm, 'y) desk_env_scheme \<Rightarrow> ('g, 'f, 'm, 'x) desk_scheme desk_event list
    \<Rightarrow> ('g, 'f, 'm, 'x) desk_scheme
    \<Rightarrow> (('g, 'f, 'm, 'x) desk_scheme desk_event list \<times> ('g, 'f, 'm, 'x) desk_scheme) option" where
  "desktop_run E evs s =
     (let (ok, s) = gui_init (gui_ports E) s in
      if \<not> ok then Some (evs, s)
      else do {
        let (w, h) = screen_size s;
        let s = desk_reset (s\<lparr>the_mouse := mouse_init (ps2_ports E) w h (the_mouse s)\<rparr>);
        s \<leftarrow> drain_input s;
        (evs, s) \<leftarrow> desk_loop E evs (redraw E s);
        s \<leftarrow> close_all [0..<MAX_WINDOWS] s;
        let (w, h) = screen_size s;
        s \<leftarrow> vga_clear (s\<lparr>screen_fb := fill_box 0 0 w h (RGB 0 0 0) (screen_fb s)\<rparr>);
        s \<leftarrow> write_str desk_farewell s;
        Some (evs, s) })"

end
