(* ===== verification/Desktop_Inv.thy ===== *)
theory Desktop_Inv
  imports Desktop
begin

text \<open>
  The window manager of \<open>Desktop\<close>: the array of slots with its count implements a list, its windows,
  order, focus and drag state keep their invariant in every frame, and the keyboard goes to the
  frontmost window.
\<close>

section \<open>The array of slots is a list\<close>

definition order_wf :: "('g, 'f, 'm, 'x) desk_scheme \<Rightarrow> bool" where
  "order_wf s \<longleftrightarrow> length (window_order s) = 6 \<and> num_order s \<le> 6"

lemma shift_down:
  assumes "p \<le> e" "e < length w"
  shows "fold (\<lambda>i w. w[i := w ! (i + 1)]) [p..<e] w = take p w @ take (e - p) (drop (p + 1) w) @ drop e w"
  using assms
proof (induction e)
  case (Suc e)
  show ?case
  proof (cases "p = Suc e")
    case False
    define a where "a = take p w @ take (e - p) (drop (p + 1) w)"
    have len: "length a = e" using Suc.prems False by (simp add: a_def)
    have d: "drop e w = w ! e # w ! Suc e # drop (Suc (Suc e)) w" "drop (Suc e) w = w ! Suc e # drop (Suc (Suc e)) w"
      using Suc.prems by (simp_all add: Cons_nth_drop_Suc)
    have t: "take (Suc e - p) (drop (p + 1) w) = take (e - p) (drop (p + 1) w) @ [w ! Suc e]"
      using Suc.prems False take_Suc_conv_app_nth [of "e - p" "drop (p + 1) w"] by (simp add: Suc_diff_le)
    have "fold (\<lambda>i w. w[i := w ! (i + 1)]) [p..<e] w = a @ drop e w"
      using Suc False by (simp add: a_def)
    moreover have "(a @ drop e w) ! (e + 1) = w ! Suc e" unfolding nth_append len d(1) by simp
    moreover have "(a @ drop e w)[e := x] = a @ x # drop (Suc e) w" for x
      unfolding list_update_append len d by simp
    ultimately show ?thesis using Suc.prems False t d(2) by (simp add: a_def)
  qed simp
qed simp

lemma order_remove_list:
  assumes "order_wf s"
  shows "order_wf (order_remove slot s) \<and> order (order_remove slot s) = remove1 slot (order s) \<and>
    (\<exists>w n. order_remove slot s = s\<lparr>window_order := w, num_order := n\<rparr>)"
proof (cases "List.find (\<lambda>i. window_order s ! i = slot) [0..<num_order s]")
  case None
  then have "slot \<notin> set (order s)"
    using assms by (auto simp: find_None_iff order_wf_def order_def in_set_conv_nth)
  moreover have "order_remove slot s = s" using None by (simp add: order_remove_def)
  moreover have "s = s\<lparr>window_order := window_order s, num_order := num_order s\<rparr>" by simp
  ultimately show ?thesis using assms by (metis remove1_idem)
next
  case (Some p)
  then have p: "p < num_order s" "window_order s ! p = slot" "\<forall>i<p. window_order s ! i \<noteq> slot"
    by (auto simp: find_Some_iff)
  let ?w = "window_order s" and ?n = "num_order s"
  have n: "?n \<le> length ?w" "length ?w = 6" using assms by (simp_all add: order_wf_def)
  have eq: "order_remove slot s = s\<lparr>window_order := take p ?w @ take (?n - 1 - p) (drop (p + 1) ?w) @ drop (?n - 1) ?w,
      num_order := ?n - 1\<rparr>"
    using Some p(1) n shift_down [of p "?n - 1" ?w] by (simp add: order_remove_def)
  have o: "order s = take p ?w @ slot # take (?n - 1 - p) (drop (p + 1) ?w)"
    using p(1,2) n id_take_nth_drop [of p "take ?n ?w"] by (simp add: order_def drop_take min_def)
  have "slot \<notin> set (take p ?w)" using p(1,3) n by (auto simp: in_set_conv_nth)
  then have "remove1 slot (order s) = take p ?w @ take (?n - 1 - p) (drop (p + 1) ?w)"
    unfolding o by (simp add: remove1_append)
  moreover have "order (order_remove slot s) = take p ?w @ take (?n - 1 - p) (drop (p + 1) ?w)"
    unfolding eq order_def using p(1) n by simp
  moreover have "order_wf (order_remove slot s)" unfolding eq order_wf_def using p(1) n by simp
  ultimately show ?thesis using eq by (intro conjI exI) simp_all
qed

lemma order_push_list:
  assumes "order_wf s" "length (order s) < 6"
  shows "\<exists>w n. order_push_front slot s = Some (s\<lparr>window_order := w, num_order := n\<rparr>) \<and>
    order_wf (s\<lparr>window_order := w, num_order := n\<rparr>) \<and> order (s\<lparr>window_order := w, num_order := n\<rparr>) = order s @ [slot]"
proof -
  have n: "num_order s < 6" "length (window_order s) = 6" using assms by (simp_all add: order_wf_def order_def)
  then have "order_push_front slot s = Some (s\<lparr>window_order := (window_order s)[num_order s := slot], num_order := num_order s + 1\<rparr>)"
    by (simp add: order_push_front_def poke_def)
  moreover have "take (num_order s + 1) ((window_order s)[num_order s := slot]) = take (num_order s) (window_order s) @ [slot]"
    using n by (simp add: take_Suc_conv_app_nth)
  ultimately show ?thesis
    using n by (intro exI [of _ "(window_order s)[num_order s := slot]"] exI [of _ "num_order s + 1"])
      (simp add: order_wf_def order_def)
qed


section \<open>The invariant\<close>

text \<open>The statics of the desktop and the mouse, which no operation of another component changes.\<close>

definition desk_statics where
  "desk_statics s = (windows s, order s, (window_order s, num_order s), (focused_slot s, dragging_window s),
     (drag_offset_x s, drag_offset_y s), the_mouse s)"

lemma statics_more:
  assumes "kbd.more s = kbd.more t"
  shows "desk_statics s = desk_statics t"
  using assms by (cases s, cases t) (simp add: desk_statics_def order_def)

definition placed :: "int \<Rightarrow> gui_window \<Rightarrow> bool" where
  "placed slot w \<longleftrightarrow> win_w w = 496 \<and> win_h w = 360 \<and> is_hosted w \<and> buf_slot w = slot \<and>
     - 496 < win_x w \<and> win_x w < 0x4000 \<and> - 24 < win_y w \<and> win_y w < 0x4000"

definition desk_inv :: "('g, 'f, 'm, 'x) desk_scheme \<Rightarrow> bool" where
  "desk_inv s \<longleftrightarrow> order_wf s \<and> length (windows s) = 6 \<and> distinct (order s) \<and>
     (\<forall>slot. slot \<in> set (order s) \<longleftrightarrow> 0 \<le> slot \<and> slot < 6 \<and> win_active (window_at slot s)) \<and>
     focused_slot s = (if order s = [] then - 1 else last (order s)) \<and>
     (dragging_window s = - 1 \<or> dragging_window s \<in> set (order s) \<and>
       0 \<le> drag_offset_x s \<and> drag_offset_x s < 496 \<and> 0 \<le> drag_offset_y s \<and> drag_offset_y s < 24) \<and>
     (\<forall>slot\<in>set (order s). placed slot (window_at slot s)) \<and>
     pointer_ok (the_mouse s) \<and> screen_w (the_mouse s) \<le> 0x4000 \<and> screen_h (the_mouse s) \<le> 0x4000"

lemma inv_statics: "desk_statics s = desk_statics t \<Longrightarrow> desk_inv s = desk_inv t"
  by (simp add: desk_statics_def desk_inv_def order_wf_def window_at_def)

lemma desk_invI:
  assumes "order_wf s" "length (windows s) = 6" "distinct (order s)"
    "\<And>slot. slot \<in> set (order s) \<longleftrightarrow> 0 \<le> slot \<and> slot < 6 \<and> win_active (window_at slot s)"
    "focused_slot s = (if order s = [] then - 1 else last (order s))"
    "dragging_window s = - 1 \<or> dragging_window s \<in> set (order s) \<and>
       0 \<le> drag_offset_x s \<and> drag_offset_x s < 496 \<and> 0 \<le> drag_offset_y s \<and> drag_offset_y s < 24"
    "\<And>slot. slot \<in> set (order s) \<Longrightarrow> placed slot (window_at slot s)"
    "pointer_ok (the_mouse s)" "screen_w (the_mouse s) \<le> 0x4000" "screen_h (the_mouse s) \<le> 0x4000"
  shows "desk_inv s"
  using assms unfolding desk_inv_def by blast

lemma order_upd [simp]:
  "order (upd_window slot f s) = order s" "order_wf (upd_window slot f s) = order_wf s"
  "order (s\<lparr>focused_slot := i\<rparr>) = order s" "order (s\<lparr>dragging_window := i\<rparr>) = order s"
  "order (s\<lparr>drag_offset_x := i\<rparr>) = order s" "order (s\<lparr>drag_offset_y := i\<rparr>) = order s"
  "order_wf (s\<lparr>focused_slot := i\<rparr>) = order_wf s" "order_wf (s\<lparr>dragging_window := i\<rparr>) = order_wf s"
  "order_wf (s\<lparr>drag_offset_x := i\<rparr>) = order_wf s" "order_wf (s\<lparr>drag_offset_y := i\<rparr>) = order_wf s"
  "order (s\<lparr>prev_buttons := b\<rparr>) = order s" "order_wf (s\<lparr>prev_buttons := b\<rparr>) = order_wf s"
  "window_at k (s\<lparr>focused_slot := i\<rparr>) = window_at k s" "window_at k (s\<lparr>dragging_window := i\<rparr>) = window_at k s"
  "window_at k (s\<lparr>drag_offset_x := i\<rparr>) = window_at k s" "window_at k (s\<lparr>drag_offset_y := i\<rparr>) = window_at k s"
  "window_at k (s\<lparr>prev_buttons := b\<rparr>) = window_at k s"
  "window_at k (s\<lparr>window_order := w, num_order := n\<rparr>) = window_at k s"
  by (simp_all add: order_def order_wf_def upd_window_def window_at_def)

lemma window_at_upd:
  assumes "length (windows s) = 6" "0 \<le> slot" "slot < 6" "0 \<le> k"
  shows "window_at k (upd_window slot f s) = (if k = slot then f (window_at slot s) else window_at k s)"
  using assms by (auto simp: window_at_def upd_window_def nth_list_update)

lemma upd_window_fields [simp]:
  "length (windows (upd_window slot f s)) = length (windows s)" "focused_slot (upd_window slot f s) = focused_slot s"
  "dragging_window (upd_window slot f s) = dragging_window s" "drag_offset_x (upd_window slot f s) = drag_offset_x s"
  "drag_offset_y (upd_window slot f s) = drag_offset_y s" "the_mouse (upd_window slot f s) = the_mouse s"
  by (simp_all add: upd_window_def)

section \<open>What other components leave alone\<close>

lemma zombie_more: "kbd.more (make_zombie t c s) = kbd.more s"
  by (simp add: make_zombie_def task_unblock_def upd_task_def Let_def)

lemma task_create_more:
  assumes "task_create tr f s = Some (t, s')"
  shows "sched.more s' = sched.more s"
proof -
  have k: "sched.more v = sched.more u" if "kmalloc n u = Some (p, v)" for n p u v
    using kmalloc_more [OF that] by (cases u, cases v) simp
  show ?thesis
    using assms
    by (auto simp: task_create_def task_alloc_common_def Let_def bind_eq_Some_conv upd_task_def link_task_def dest!: k)
qed

lemma create_statics: "task_create tr f s = Some (t, s') \<Longrightarrow> desk_statics s' = desk_statics s"
proof -
  assume "task_create tr f s = Some (t, s')"
  from task_create_more [OF this] have "kbd.more s' = kbd.more s" by (cases s, cases s') simp
  then show "desk_statics s' = desk_statics s" by (rule statics_more)
qed

lemma keyboard_more:
  "kbd.more (keyboard_callback sc s) = kbd.more s" "keyboard_getchar s = Some (c, s') \<Longrightarrow> kbd.more s' = kbd.more s"
  "kbd.more (snd (task_push_input_char t c s)) = kbd.more s" "kbd.more (snd (task_consume_vga_dirty t s)) = kbd.more s"
  by (auto simp: keyboard_callback_def kb_buffer_push_def keyboard_getchar_def kb_buffer_pop_def Let_def upd_task_def
      task_current_input_getchar_def task_push_input_char_def task_unblock_def task_consume_vga_dirty_def split: if_splits)

lemma route_more:
  assumes "route_keyboard s = Some s'"
  shows "kbd.more s' = kbd.more s"
proof (rule route_keyboard.raw_induct [where P = "\<lambda>s s'. kbd.more s' = kbd.more s", OF _ assms])
  fix route and s s' :: "('g, 'f, 'm, 'x) desk_scheme"
  let ?push = "\<lambda>c t. if 0 \<le> focused_slot t \<and> win_active (window_at (focused_slot t) t) \<and> is_hosted (window_at (focused_slot t) t)
      then snd (task_push_input_char (hosted_task (window_at (focused_slot t) t)) c t) else t"
  assume IH: "\<And>s s'. route s = Some s' \<Longrightarrow> kbd.more s' = kbd.more s"
    and eq: "(if keyboard_has_char s then keyboard_getchar s \<bind> (\<lambda>(c, s). route (?push c s)) else Some s) = Some s'"
  show "kbd.more s' = kbd.more s"
  proof (cases "keyboard_has_char s")
    case True
    then obtain c t where g: "keyboard_getchar s = Some (c, t)" and r: "route (?push c t) = Some s'"
      using eq by (auto simp: bind_eq_Some_conv)
    have "kbd.more (?push c t) = kbd.more t" by (simp add: keyboard_more)
    then show ?thesis using IH [OF r] keyboard_more(2) [OF g] by simp
  qed (use eq in simp)
qed

lemma consume_more: "kbd.more (snd (consume_dirty slots any s)) = kbd.more s"
  by (induction slots arbitrary: any s) (auto simp: Let_def split_def keyboard_more)

section \<open>Every operation keeps the invariant\<close>

lemma close_window_cases:
  assumes "close_window slot s = Some s'" "win_active (window_at slot s)"
  obtains s1 where "s1 = s \<or> s1 = make_zombie (hosted_task (window_at slot s)) 0 s" "s' = forget_window slot s1"
proof (cases "is_hosted (window_at slot s) \<and> hosted_task (window_at slot s) \<noteq> 0")
  case True
  then have "s' = forget_window slot (make_zombie (hosted_task (window_at slot s)) 0 s)"
    using assms by (simp add: close_window_def task_force_terminate_def split: if_splits)
  then show ?thesis using that by blast
next
  case False
  then have "s' = forget_window slot s"
    using assms by (auto simp: close_window_def)
  then show ?thesis using that by blast
qed

lemma last_remove1: "xs \<noteq> [] \<Longrightarrow> k \<noteq> last xs \<Longrightarrow> remove1 k xs \<noteq> [] \<and> last (remove1 k xs) = last xs"
  by (induction xs) auto

lemma forget_window_inv:
  assumes inv: "desk_inv s" and slot: "slot \<in> set (order s)"
  shows "desk_inv (forget_window slot s) \<and> order (forget_window slot s) = remove1 slot (order s)"
proof -
  note i = inv [unfolded desk_inv_def]
  have sl: "0 \<le> slot" "slot < 6" using i slot by auto
  define u where "u = upd_window slot (\<lambda>w. w\<lparr>win_active := False\<rparr>) s"
  have u: "order_wf u" "order u = order s" using i by (simp_all add: u_def)
  have wu: "window_at k u = (if k = slot then (window_at slot s)\<lparr>win_active := False\<rparr> else window_at k s)" if "0 \<le> k" for k
    unfolding u_def by (rule window_at_upd) (use i sl that in auto)
  obtain w n where r: "order_remove slot u = u\<lparr>window_order := w, num_order := n\<rparr>"
    and ot: "order (u\<lparr>window_order := w, num_order := n\<rparr>) = remove1 slot (order s)"
      "order_wf (u\<lparr>window_order := w, num_order := n\<rparr>)"
    using order_remove_list [OF u(1), of slot] u(2) by metis
  let ?rest = "remove1 slot (order s)"
  have n: "take n w = ?rest" "n \<le> length w" using ot by (auto simp: order_def order_wf_def)
  define f where "f = (if focused_slot s = slot then (if 0 < n then w ! (n - 1) else - 1) else focused_slot s)"
  define d where "d = (if dragging_window s = slot then - 1 else dragging_window s)"
  have eq: "forget_window slot s = (u\<lparr>window_order := w, num_order := n\<rparr>)\<lparr>focused_slot := f, dragging_window := d\<rparr>"
    by (simp add: forget_window_def r f_def d_def flip: u_def) (simp add: u_def)
  have f: "f = (if ?rest = [] then - 1 else last ?rest)"
  proof (cases "focused_slot s = slot")
    case True
    have "last ?rest = w ! (n - 1)" if ne: "?rest \<noteq> []"
    proof -
      have "take n w \<noteq> []" using ne by (simp add: n(1))
      then have "last (take n w) = w ! (n - 1)" using n(2) by (subst last_conv_nth) (simp_all add: min_def)
      then show ?thesis by (simp only: n(1))
    qed
    moreover have "?rest = [] \<longleftrightarrow> n = 0" using n by (metis length_0_conv length_take min.absorb2)
    ultimately show ?thesis using True by (simp add: f_def)
  next
    case False
    have ne: "order s \<noteq> []" using slot by auto
    then have "slot \<noteq> last (order s)" using False i by auto
    then show ?thesis using False ne i last_remove1 [OF ne] by (auto simp: f_def)
  qed
  have mem: "set ?rest = set (order s) - {slot}" using i by simp
  have wf: "window_at k (forget_window slot s) = window_at k u" for k by (simp add: eq window_at_def)
  have "desk_inv (forget_window slot s)"
  proof (rule desk_invI)
    show "order_wf (forget_window slot s)" "length (windows (forget_window slot s)) = 6"
      "distinct (order (forget_window slot s))"
      "focused_slot (forget_window slot s) =
        (if order (forget_window slot s) = [] then - 1 else last (order (forget_window slot s)))"
      using ot i f by (simp_all add: eq u_def)
    show "k \<in> set (order (forget_window slot s)) \<longleftrightarrow> 0 \<le> k \<and> k < 6 \<and> win_active (window_at k (forget_window slot s))" for k
      using i wu [of k] mem ot(1) unfolding wf by (auto simp: eq split: if_splits)
    show "dragging_window (forget_window slot s) = - 1 \<or> dragging_window (forget_window slot s) \<in> set (order (forget_window slot s)) \<and>
       0 \<le> drag_offset_x (forget_window slot s) \<and> drag_offset_x (forget_window slot s) < 496 \<and>
       0 \<le> drag_offset_y (forget_window slot s) \<and> drag_offset_y (forget_window slot s) < 24"
      using i mem ot(1) by (auto simp: eq d_def u_def)
    show "placed k (window_at k (forget_window slot s))" if "k \<in> set (order (forget_window slot s))" for k
      using that i wu [of k] mem ot(1) unfolding wf by (auto simp: eq)
    show "pointer_ok (the_mouse (forget_window slot s))" "screen_w (the_mouse (forget_window slot s)) \<le> 0x4000"
      "screen_h (the_mouse (forget_window slot s)) \<le> 0x4000"
      using i by (simp_all add: eq u_def)
  qed
  then show ?thesis using ot(1) by (simp add: eq)
qed

lemma close_window_inv:
  assumes inv: "desk_inv s" and slot: "slot \<in> set (order s)" and res: "close_window slot s = Some s'"
  shows "desk_inv s' \<and> order s' = remove1 slot (order s)"
proof -
  have "win_active (window_at slot s)" using inv slot by (simp add: desk_inv_def)
  from close_window_cases [OF res this] obtain s1
    where s1: "s1 = s \<or> s1 = make_zombie (hosted_task (window_at slot s)) 0 s" "s' = forget_window slot s1" by blast
  then have st: "desk_statics s1 = desk_statics s" using statics_more [OF zombie_more] by auto
  then have "desk_inv s1" "order s1 = order s" using inv inv_statics [OF st] by (simp_all add: desk_statics_def)
  then show ?thesis using forget_window_inv [of s1 slot] slot s1(2) by simp
qed

lemma inv_room:
  assumes "desk_inv s" "find_free_slot s = slot" "0 \<le> slot"
  shows "slot < 6" "\<not> win_active (window_at slot s)" "length (order s) < 6"
    "length (filter (\<lambda>i. win_active (windows s ! i)) [0..<MAX_WINDOWS]) \<le> 6"
proof -
  obtain i where i: "slot = int i" "i < 6" "\<not> win_active (windows s ! i)"
    using assms(2,3) by (auto simp: find_free_slot_def find_Some_iff MAX_WINDOWS_def split: option.splits)
  then show "slot < 6" "\<not> win_active (window_at slot s)" by (simp_all add: window_at_def)
  have "set (order s) \<subseteq> {0..<6} - {slot}" using assms(1) i by (auto simp: desk_inv_def window_at_def)
  from card_mono [OF _ this] show "length (order s) < 6"
    using assms(1) i(1,2) distinct_card [of "order s"] by (simp add: desk_inv_def)
  show "length (filter (\<lambda>i. win_active (windows s ! i)) [0..<MAX_WINDOWS]) \<le> 6"
    using length_filter_le [of _ "[0..<MAX_WINDOWS]"] by (simp add: MAX_WINDOWS_def del: length_filter_le)
qed

text \<open>A window is opened in front, with the focus.\<close>

lemma open_window_inv:
  assumes inv: "desk_inv s" and res: "open_window E ed s = Some s'"
  shows "desk_inv s'" "find_free_slot s < 0 \<Longrightarrow> s' = s"
    "0 \<le> find_free_slot s \<Longrightarrow> order s' = order s @ [find_free_slot s]"
proof -
  have "desk_inv s' \<and> order s' = order s @ [find_free_slot s]" if free: "0 \<le> find_free_slot s"
  proof -
    note i = inv [unfolded desk_inv_def] and room = inv_room [OF inv refl free]
    let ?slot = "find_free_slot s"
    define n where "n = int (length (filter (\<lambda>i. win_active (windows s ! i)) [0..<MAX_WINDOWS]))"
    have n: "0 \<le> n" "n \<le> 6" using room(4) by (simp_all add: n_def)
    define a where "a = upd_window ?slot (\<lambda>w. w\<lparr>win_active := True, win_x := 100 + 28 * n, win_y := 90 + 24 * n,
              win_w := TERM_COLS * 8 + 16, win_h := TERM_ROWS * 16 + TITLEBAR_H + 16, is_hosted := True, buf_slot := ?slot\<rparr>) s"
    define b where "b = set_cells (term_buffer E ?slot) (replicate (nat (TERM_ROWS * TERM_COLS)) 0) a"
    define title where "title = (if ed then take 24 (scratch_names ! nat ?slot) else ''Terminal '' @ [char_of (49 + nat ?slot)])"
    define c where "c = upd_window ?slot (\<lambda>w. w\<lparr>win_title := title\<rparr>) b"
    obtain t d where d: "task_create (trampoline_addr E) ((if ed then editor_entries E else terminal_entries E) ! nat ?slot) c = Some (t, d)"
      and e: "map_option (\<lambda>s. s\<lparr>focused_slot := ?slot\<rparr>) (order_push_front ?slot (upd_window ?slot (\<lambda>w. w\<lparr>hosted_task := t\<rparr>) d)) = Some s'"
      using res free unfolding open_window_def Let_def
      by (auto simp: bind_eq_Some_conv simp flip: n_def a_def b_def title_def c_def)
    define e' where "e' = upd_window ?slot (\<lambda>w. w\<lparr>hosted_task := t\<rparr>) d"
    have sd: "desk_statics d = desk_statics c" using create_statics [OF d] .
    have ow: "order_wf e'" "order e' = order s" "length (windows e') = 6" "dragging_window e' = dragging_window s"
      "drag_offset_x e' = drag_offset_x s" "drag_offset_y e' = drag_offset_y s" "the_mouse e' = the_mouse s"
      using sd i by (simp_all add: e'_def desk_statics_def c_def b_def a_def set_cells_def order_wf_def order_def upd_window_def)
    have wc: "window_at k d = window_at k c" for k using sd by (simp add: desk_statics_def window_at_def)
    have wb: "window_at k b = window_at k a" for k by (simp add: b_def set_cells_def window_at_def)
    have l: "length (windows a) = 6" "length (windows b) = 6" "length (windows d) = 6"
      using sd i by (simp_all add: desk_statics_def c_def b_def a_def set_cells_def)
    have other: "window_at k e' = window_at k s" if "0 \<le> k" "k \<noteq> ?slot" for k
      using that free room(1) l i
      by (simp add: e'_def wc c_def wb a_def window_at_upd)
    have new: "win_active (window_at ?slot e')" "placed ?slot (window_at ?slot e')"
      using free room(1) l i n
      by (simp_all add: e'_def wc c_def wb a_def window_at_upd placed_def TERM_COLS_def TERM_ROWS_def TITLEBAR_H_def)
    obtain w m where p: "order_push_front ?slot e' = Some (e'\<lparr>window_order := w, num_order := m\<rparr>)"
      "order_wf (e'\<lparr>window_order := w, num_order := m\<rparr>)" "order (e'\<lparr>window_order := w, num_order := m\<rparr>) = order s @ [?slot]"
      using order_push_list [OF ow(1), of ?slot] room(3) ow(2) by auto
    have s': "s' = (e'\<lparr>window_order := w, num_order := m\<rparr>)\<lparr>focused_slot := ?slot\<rparr>"
      using e p(1) by (simp add: e'_def)
    have os: "order s' = order s @ [?slot]" "order_wf s'" using p by (simp_all add: s')
    have ws: "window_at k s' = window_at k e'" for k by (simp add: s')
    have notin: "?slot \<notin> set (order s)" using i room(2) by auto
    have "desk_inv s'"
    proof (rule desk_invI)
      show "order_wf s'" "length (windows s') = 6" "distinct (order s')"
        "focused_slot s' = (if order s' = [] then - 1 else last (order s'))"
        using os ow i notin by (simp_all add: s')
      show "k \<in> set (order s') \<longleftrightarrow> 0 \<le> k \<and> k < 6 \<and> win_active (window_at k s')" for k
        using i other [of k] new(1) free room(1) unfolding ws os(1) by (cases "k = ?slot") auto
      show "dragging_window s' = - 1 \<or> dragging_window s' \<in> set (order s') \<and> 0 \<le> drag_offset_x s' \<and>
          drag_offset_x s' < 496 \<and> 0 \<le> drag_offset_y s' \<and> drag_offset_y s' < 24"
        using i ow os(1) by (auto simp: s')
      show "placed k (window_at k s')" if "k \<in> set (order s')" for k
        using that i other [of k] new(2) unfolding ws os(1) by (cases "k = ?slot") auto
      show "pointer_ok (the_mouse s')" "screen_w (the_mouse s') \<le> 0x4000" "screen_h (the_mouse s') \<le> 0x4000"
        using i ow by (simp_all add: s')
    qed
    then show ?thesis using os(1) by blast
  qed
  then show "desk_inv s'" "find_free_slot s < 0 \<Longrightarrow> s' = s"
    "0 \<le> find_free_slot s \<Longrightarrow> order s' = order s @ [find_free_slot s]"
    using res inv by (cases "find_free_slot s < 0"; auto simp: open_window_def)+
qed

lemma raise_inv:
  assumes inv: "desk_inv s" and slot: "slot \<in> set (order s)"
    and drag: "dragging_window s' = dragging_window s \<and> drag_offset_x s' = drag_offset_x s \<and> drag_offset_y s' = drag_offset_y s
      \<or> dragging_window s' = slot \<and> 0 \<le> drag_offset_x s' \<and> drag_offset_x s' < 496 \<and> 0 \<le> drag_offset_y s' \<and> drag_offset_y s' < 24"
    and same: "windows s' = windows s" "the_mouse s' = the_mouse s" "window_order s' = window_order s" "num_order s' = num_order s"
  shows "\<exists>t. bring_to_front slot s' = Some t \<and> desk_inv (t\<lparr>focused_slot := slot\<rparr>) \<and>
    order (t\<lparr>focused_slot := slot\<rparr>) = remove1 slot (order s) @ [slot]"
proof -
  note i = inv [unfolded desk_inv_def]
  have o: "order s' = order s" "order_wf s'" using same i by (simp_all add: order_def order_wf_def)
  obtain w n where r: "order_remove slot s' = s'\<lparr>window_order := w, num_order := n\<rparr>"
    "order_wf (s'\<lparr>window_order := w, num_order := n\<rparr>)" "order (s'\<lparr>window_order := w, num_order := n\<rparr>) = remove1 slot (order s)"
    using order_remove_list [OF o(2), of slot] o(1) by metis
  have "length (order s) \<le> 6" using i by (simp add: order_def order_wf_def)
  then have "length (order (s'\<lparr>window_order := w, num_order := n\<rparr>)) < 6"
    using slot length_pos_if_in_set [OF slot] unfolding r(3) by (simp add: length_remove1)
  from order_push_list [OF r(2) this, of slot] obtain w' n' where p: "bring_to_front slot s' = Some (s'\<lparr>window_order := w', num_order := n'\<rparr>)"
    "order_wf (s'\<lparr>window_order := w', num_order := n'\<rparr>)" "order (s'\<lparr>window_order := w', num_order := n'\<rparr>) = remove1 slot (order s) @ [slot]"
    by (auto simp: bring_to_front_def r)
  let ?t = "s'\<lparr>window_order := w', num_order := n'\<rparr>"
  have wt: "window_at k (?t\<lparr>focused_slot := slot\<rparr>) = window_at k s" for k by (simp add: window_at_def same)
  have mem: "set (remove1 slot (order s) @ [slot]) = set (order s)" using i slot by auto
  have "desk_inv (?t\<lparr>focused_slot := slot\<rparr>)"
  proof (rule desk_invI)
    show "order_wf (?t\<lparr>focused_slot := slot\<rparr>)" "length (windows (?t\<lparr>focused_slot := slot\<rparr>)) = 6"
      "distinct (order (?t\<lparr>focused_slot := slot\<rparr>))" "focused_slot (?t\<lparr>focused_slot := slot\<rparr>) =
        (if order (?t\<lparr>focused_slot := slot\<rparr>) = [] then - 1 else last (order (?t\<lparr>focused_slot := slot\<rparr>)))"
      using p i same by simp_all
    show "k \<in> set (order (?t\<lparr>focused_slot := slot\<rparr>)) \<longleftrightarrow> 0 \<le> k \<and> k < 6 \<and> win_active (window_at k (?t\<lparr>focused_slot := slot\<rparr>))"
      "k \<in> set (order (?t\<lparr>focused_slot := slot\<rparr>)) \<Longrightarrow> placed k (window_at k (?t\<lparr>focused_slot := slot\<rparr>))" for k
      using i mem unfolding wt by (auto simp: p(3))
    show "dragging_window (?t\<lparr>focused_slot := slot\<rparr>) = - 1 \<or> dragging_window (?t\<lparr>focused_slot := slot\<rparr>) \<in> set (order (?t\<lparr>focused_slot := slot\<rparr>)) \<and>
       0 \<le> drag_offset_x (?t\<lparr>focused_slot := slot\<rparr>) \<and> drag_offset_x (?t\<lparr>focused_slot := slot\<rparr>) < 496 \<and>
       0 \<le> drag_offset_y (?t\<lparr>focused_slot := slot\<rparr>) \<and> drag_offset_y (?t\<lparr>focused_slot := slot\<rparr>) < 24"
      using drag i mem slot by (auto simp: p(3))
    show "pointer_ok (the_mouse (?t\<lparr>focused_slot := slot\<rparr>))" "screen_w (the_mouse (?t\<lparr>focused_slot := slot\<rparr>)) \<le> 0x4000"
      "screen_h (the_mouse (?t\<lparr>focused_slot := slot\<rparr>)) \<le> 0x4000" using i same by simp_all
  qed
  then show ?thesis using p by (intro exI [of _ ?t]) simp
qed

text \<open>Clicking a window closes it or brings it to the front; both need no memory.\<close>

lemma click_window_inv:
  assumes inv: "desk_inv s" and slot: "slot \<in> set (order s)" and hit: "in_window mx my s slot"
  shows "click_window slot mx my s = Some s' \<Longrightarrow> desk_inv s'"
    "\<not> close_button_hit slot mx my s \<Longrightarrow> \<exists>s'. click_window slot mx my s = Some s' \<and> desk_inv s' \<and>
      order s' = remove1 slot (order s) @ [slot]"
proof -
  have pl: "placed slot (window_at slot s)" using inv slot by (simp add: desk_inv_def)
  define s1 where "s1 = s\<lparr>dragging_window := slot, drag_offset_x := mx - win_x (window_at slot s), drag_offset_y := my - win_y (window_at slot s)\<rparr>"
  have t: "\<exists>t. bring_to_front slot s1 = Some t \<and> desk_inv (t\<lparr>focused_slot := slot\<rparr>) \<and>
      order (t\<lparr>focused_slot := slot\<rparr>) = remove1 slot (order s) @ [slot]"
    if "point_in_rect mx my (win_x (window_at slot s)) (win_y (window_at slot s)) (win_w (window_at slot s)) TITLEBAR_H"
    by (rule raise_inv [OF inv slot])
      (use that pl in \<open>simp_all add: s1_def point_in_rect_def placed_def TITLEBAR_H_def\<close>)
  have n: "\<exists>t. bring_to_front slot s = Some t \<and> desk_inv (t\<lparr>focused_slot := slot\<rparr>) \<and>
      order (t\<lparr>focused_slot := slot\<rparr>) = remove1 slot (order s) @ [slot]"
    by (rule raise_inv [OF inv slot]) simp_all
  show raised: "\<not> close_button_hit slot mx my s \<Longrightarrow> \<exists>s'. click_window slot mx my s = Some s' \<and> desk_inv s' \<and>
      order s' = remove1 slot (order s) @ [slot]"
    using t n by (auto simp: click_window_def Let_def simp flip: s1_def)
  show "click_window slot mx my s = Some s' \<Longrightarrow> desk_inv s'"
    using raised close_window_inv [OF inv slot] by (cases "close_button_hit slot mx my s") (auto simp: click_window_def)
qed

lemma find_mem: "List.find P xs = Some x \<Longrightarrow> x \<in> set xs \<and> P x"
  by (auto simp: find_Some_iff)

lemma press_left_inv:
  assumes inv: "desk_inv s" and res: "press_left E mx my need s = Some (need', s')"
  shows "desk_inv s'"
proof (cases "snd (screen_size s) - TASKBAR_H \<le> my")
  case True
  have "desk_inv (s\<lparr>quit_requested := True\<rparr>)"
    using inv inv_statics [of "s\<lparr>quit_requested := True\<rparr>" s] by (simp add: desk_statics_def order_def)
  then show ?thesis
    using True res inv open_window_inv(1) [OF inv]
    by (auto simp: press_left_def taskbar_click_def Let_def split: if_splits)
next
  case False
  then have c: "click_windows mx my need s = Some (need', s')" using res by (simp add: press_left_def Let_def)
  show ?thesis
  proof (cases "List.find (in_window mx my s) (rev (order s))")
    case None
    then show ?thesis using c inv by (simp add: click_windows_def)
  next
    case (Some slot)
    then have "slot \<in> set (order s)" "in_window mx my s slot" using find_mem [OF Some] by simp_all
    from click_window_inv(1) [OF inv this] show ?thesis using c Some by (auto simp: click_windows_def)
  qed
qed

lemma drag_inv:
  assumes inv: "desk_inv s" and xy: "0 \<le> mx" "mx < 0x4000" "0 \<le> my" "my < 0x4000"
  shows "desk_inv (snd (drag mx my buttons need s))"
proof (cases "0 \<le> dragging_window s \<and> left buttons \<and> win_active (window_at (dragging_window s) s)")
  case True
  let ?slot = "dragging_window s"
  let ?s = "upd_window ?slot (\<lambda>w. w\<lparr>win_x := mx - drag_offset_x s, win_y := my - drag_offset_y s\<rparr>) s"
  note i = inv [unfolded desk_inv_def]
  have d: "?slot \<in> set (order s)" using True i by auto
  have sl: "0 \<le> ?slot" "?slot < 6" using d i by auto
  have w: "window_at k ?s = (if k = ?slot then (window_at ?slot s)\<lparr>win_x := mx - drag_offset_x s, win_y := my - drag_offset_y s\<rparr>
      else window_at k s)" if "0 \<le> k" for k
    by (rule window_at_upd) (use i sl that in auto)
  have "desk_inv ?s"
  proof (rule desk_invI)
    show "k \<in> set (order ?s) \<longleftrightarrow> 0 \<le> k \<and> k < 6 \<and> win_active (window_at k ?s)" for k
      using i w [of k] by (cases "0 \<le> k") auto
    show "placed k (window_at k ?s)" if "k \<in> set (order ?s)" for k
    proof -
      have "k \<in> set (order s)" "0 \<le> k" using that i by auto
      then show ?thesis using i w [of k] xy True by (auto simp: placed_def)
    qed
  qed (use i in auto)
  then show ?thesis using True by (simp add: drag_def Let_def)
next
  case False
  then have "drag mx my buttons need s = (need, s)" by (simp only: drag_def Let_def if_False)
  then show ?thesis using inv by simp
qed

lemma bind_SomeD: "Option.bind x f = Some y \<Longrightarrow> \<exists>p. x = Some p \<and> f p = Some y"
  by (cases x) auto

lemma desk_mouse_inv:
  assumes inv: "desk_inv s" and res: "desk_mouse E need s = Some (need', s')"
  shows "desk_inv s'"
proof -
  have m: "0 \<le> mouse_x (the_mouse s)" "mouse_x (the_mouse s) < 0x4000" "0 \<le> mouse_y (the_mouse s)" "mouse_y (the_mouse s) < 0x4000"
    using inv by (auto simp: desk_inv_def pointer_ok_def)
  let ?mx = "mouse_x (the_mouse s)" and ?my = "mouse_y (the_mouse s)" and ?b = "mouse_buttons (the_mouse s)"
  let ?mid = "if left ?b \<and> \<not> left (prev_buttons s) then press_left E ?mx ?my need s
      else if \<not> left ?b then Some (need, s\<lparr>dragging_window := - 1\<rparr>) else Some (need, s)"
  have eq: "desk_mouse E need s = ?mid \<bind> (\<lambda>(need, t).
      let (need, t) = drag ?mx ?my ?b need t in Some (need, t\<lparr>prev_buttons := ?b\<rparr>))"
    by (simp only: desk_mouse_def mouse_get_x_def mouse_get_y_def mouse_get_buttons_def Let_def)
  obtain p where "?mid = Some p"
    and p: "(case p of (need, t) \<Rightarrow> let (need, t) = drag ?mx ?my ?b need t in Some (need, t\<lparr>prev_buttons := ?b\<rparr>)) = Some (need', s')"
    using bind_SomeD [OF res [unfolded eq]] by blast
  then obtain need1 s1 where mid: "?mid = Some (need1, s1)" and p: "p = (need1, s1)" by (metis surj_pair)
  have s': "s' = (snd (drag ?mx ?my ?b need1 s1))\<lparr>prev_buttons := ?b\<rparr>"
    using \<open>(case p of (need, t) \<Rightarrow> let (need, t) = drag ?mx ?my ?b need t in Some (need, t\<lparr>prev_buttons := ?b\<rparr>)) = Some (need', s')\<close>
    unfolding p by (simp add: Let_def split_def)
  have "desk_inv (s\<lparr>dragging_window := - 1\<rparr>)" using inv by (simp add: desk_inv_def)
  then have "desk_inv s1" using mid inv press_left_inv [OF inv] by (simp only: split: if_splits) auto
  then have d: "desk_inv (snd (drag ?mx ?my ?b need1 s1))" by (rule drag_inv) (rule m)+
  have "desk_statics s' = desk_statics (snd (drag ?mx ?my ?b need1 s1))" by (simp add: s' desk_statics_def)
  from inv_statics [OF this] d show ?thesis by simp
qed

section \<open>The main loop\<close>

text \<open>What other tasks do between two rounds does not touch the statics of the desktop.\<close>

definition others_keep_out :: "('g, 'f, 'm, 'x) desk_scheme desk_event list \<Rightarrow> bool" where
  "others_keep_out evs \<longleftrightarrow> (\<forall>f. Run f \<in> set evs \<longrightarrow> (\<forall>s. desk_statics (f s) = desk_statics s))"

lemma mouse_inv:
  assumes "desk_inv s" "pointer_ok m" "screen_w m = screen_w (the_mouse s)" "screen_h m = screen_h (the_mouse s)"
  shows "desk_inv (s\<lparr>the_mouse := m\<rparr>)"
proof -
  have f: "order (s\<lparr>the_mouse := m\<rparr>) = order s" "order_wf (s\<lparr>the_mouse := m\<rparr>) = order_wf s"
    "window_at k (s\<lparr>the_mouse := m\<rparr>) = window_at k s" for k
    by (simp_all add: order_def order_wf_def window_at_def)
  show ?thesis
    by (rule desk_invI) (use assms(1) [unfolded desk_inv_def] assms(2-4) in \<open>auto simp: f\<close>)
qed

lemma mouse_byte_screen: "screen_w (mouse_byte b m) = screen_w m \<and> screen_h (mouse_byte b m) = screen_h m"
  by (auto simp: mouse_byte_def apply_packet_def Let_def)

lemma desk_happen_inv:
  assumes inv: "desk_inv s" and out: "others_keep_out (e # evs)"
  shows "desk_inv (desk_happen M e s)"
proof (cases e)
  case (Key_irq sc)
  then show ?thesis using inv inv_statics [OF statics_more [OF keyboard_more(1) [of sc s]]] by simp
next
  case Timer_irq
  have "kbd.more (s\<lparr>tick := tick s + 1\<rparr>) = kbd.more s" by simp
  from inv_statics [OF statics_more [OF this]] Timer_irq inv show ?thesis by simp
next
  case Mouse_irq
  obtain b d where p: "p_inb M PS2_DATA (m_dev (the_mouse s)) = (b, d)" by fastforce
  have "pointer_ok (the_mouse s)" using inv by (simp add: desk_inv_def)
  then have "pointer_ok (mouse_byte b ((the_mouse s)\<lparr>m_dev := d\<rparr>))"
    by (intro mouse_byte_ok) (simp add: pointer_ok_def)
  then show ?thesis
    using mouse_inv [OF inv] mouse_byte_screen [of b "(the_mouse s)\<lparr>m_dev := d\<rparr>"] Mouse_irq p
    by (simp add: mouse_callback_def)
next
  case (Run f)
  then show ?thesis using inv out inv_statics [of "f s" s] by (simp add: others_keep_out_def)
qed

text \<open>The invariant of the waiting loop, for its induction.\<close>

definition desk_safe :: "('g, 'f, 'm, 'x) desk_scheme desk_event list \<Rightarrow> ('g, 'f, 'm, 'x) desk_scheme \<Rightarrow> bool" where
  "desk_safe evs s \<longleftrightarrow> desk_inv s \<and> others_keep_out evs"

lemma desk_safe_statics: "desk_statics s = desk_statics t \<Longrightarrow> desk_safe evs s = desk_safe evs t"
  using inv_statics by (auto simp: desk_safe_def)

lemma consume_mouse:
  assumes "desk_safe evs s"
  shows "desk_safe evs (s\<lparr>the_mouse := snd (mouse_consume_dirty (the_mouse s))\<rparr>)"
proof -
  let ?m = "snd (mouse_consume_dirty (the_mouse s))"
  have inv: "desk_inv s" "others_keep_out evs" using assms by (simp_all add: desk_safe_def)
  have "pointer_ok (the_mouse s)" using inv(1) by (simp only: desk_inv_def)
  then have "pointer_ok ?m" "screen_w ?m = screen_w (the_mouse s)" "screen_h ?m = screen_h (the_mouse s)"
    by (simp_all add: mouse_consume_dirty_def pointer_ok_def)
  then show ?thesis using mouse_inv [OF inv(1)] inv(2) by (simp only: desk_safe_def simp_thms)
qed

lemma consume_dirty_safe: "desk_safe evs s \<Longrightarrow> desk_safe evs (snd (consume_dirty slots any s))"
  using desk_safe_statics [OF statics_more [OF consume_more [of slots any s]]] by simp

lemma route_safe: "route_keyboard s = Some t \<Longrightarrow> desk_safe evs s \<Longrightarrow> desk_safe evs t"
  using desk_safe_statics [OF statics_more [OF route_more [of s t]]] by simp

lemma happen_safe: "desk_safe (e # evs) s \<Longrightarrow> desk_safe evs (desk_happen M e s)"
  using desk_happen_inv [of s e evs M] by (auto simp: desk_safe_def others_keep_out_def)

lemma desk_wait_inv:
  fixes M :: "'m ports" and s :: "('g, 'f, 'm, 'x) desk_scheme"
  assumes "desk_wait M target need evs s = Some r" "desk_safe evs s"
  shows "desk_safe (fst (snd r)) (snd (snd r))"
proof -
  have "desk_safe evs s \<longrightarrow> desk_safe (fst (snd r)) (snd (snd r))"
  proof (rule desk_wait.raw_induct [where P = "\<lambda>M target need evs s r. desk_safe evs s \<longrightarrow> desk_safe (fst (snd r)) (snd (snd r))",
        OF _ assms(1)])
    fix wait and M :: "'m ports" and target need evs and s :: "('g, 'f, 'm, 'x) desk_scheme" and r
    assume IH: "\<And>M target need evs s r. wait M target need evs s = Some r \<Longrightarrow> desk_safe evs s \<longrightarrow> desk_safe (fst (snd r)) (snd (snd r))"
      and eq: "(if timer_ticks s < target \<and> \<not> quit_requested s
        then if keyboard_has_char s then route_keyboard s \<bind> wait M target True evs
          else let (moved, m) = mouse_consume_dirty (the_mouse s); s = s\<lparr>the_mouse := m\<rparr>
            in if moved then wait M target True evs s
               else let (any_dirty, s) = consume_dirty (order s) False s
                 in if any_dirty then wait M target True evs s
                    else (case evs of [] \<Rightarrow> None | e # evs \<Rightarrow> wait M target need evs (desk_happen M e s))
        else Some (need, evs, s)) = Some r"
    show "desk_safe evs s \<longrightarrow> desk_safe (fst (snd r)) (snd (snd r))"
    proof
      assume safe: "desk_safe evs s"
      let ?s1 = "s\<lparr>the_mouse := snd (mouse_consume_dirty (the_mouse s))\<rparr>"
      let ?s2 = "snd (consume_dirty (order ?s1) False ?s1)"
      have s1: "desk_safe evs ?s1" by (rule consume_mouse [OF safe])
      then have s2: "desk_safe evs ?s2" by (rule consume_dirty_safe)
      show "desk_safe (fst (snd r)) (snd (snd r))"
      proof (cases "timer_ticks s < target \<and> \<not> quit_requested s")
        case False
        from eq [unfolded if_not_P [OF False]] have "r = (need, evs, s)" by simp
        then show ?thesis using safe by simp
      next
        case True
        note eq1 = eq [unfolded if_P [OF True]]
        show ?thesis
        proof (cases "keyboard_has_char s")
          case True
          from bind_SomeD [OF eq1 [unfolded if_P [OF True]]] show ?thesis using IH route_safe [OF _ safe] by blast
        next
          case False
          note eq2 = eq1 [unfolded if_not_P [OF False] Let_def split_def]
          show ?thesis
          proof (cases "fst (mouse_consume_dirty (the_mouse s))")
            case True
            from IH [OF eq2 [unfolded if_P [OF True]]] s1 show ?thesis by blast
          next
            case False
            note eq3 = eq2 [unfolded if_not_P [OF False]]
            show ?thesis
            proof (cases "fst (consume_dirty (order ?s1) False ?s1)")
              case True
              from IH [OF eq3 [unfolded if_P [OF True]]] s2 show ?thesis by blast
            next
              case False
              note eq4 = eq3 [unfolded if_not_P [OF False]]
              then obtain e es where evs: "evs = e # es" by (cases evs) simp_all
              from eq4 have "wait M target need es (desk_happen M e ?s2) = Some r" unfolding evs list.case .
              from IH [OF this] happen_safe [of e es ?s2 M] s2 show ?thesis unfolding evs by blast
            qed
          qed
        qed
      qed
    qed
  qed
  then show ?thesis using assms(2) by blast
qed

lemma redraw_statics: "desk_statics (redraw E s) = desk_statics s"
  by (simp add: redraw_def Let_def split_def desk_statics_def order_def)

lemma desk_frame_keeps:
  assumes "desk_inv s" "others_keep_out evs" "desk_frame E evs s = Some (evs', s')"
  shows "desk_inv s' \<and> others_keep_out evs'"
proof -
  obtain r where w: "desk_wait (ps2_ports E) (timer_ticks s + 3) False evs s = Some r"
    and k: "(case r of (need, evs, s) \<Rightarrow> if quit_requested s then Some (evs, s)
      else desk_mouse E need s \<bind> (\<lambda>(need, s). Some (evs, if need then redraw E s else s))) = Some (evs', s')"
    using bind_SomeD [OF assms(3) [unfolded desk_frame_def]] by blast
  obtain need evs1 s1 where r: "r = (need, evs1, s1)" by (metis surj_pair)
  have s1: "desk_inv s1" "others_keep_out evs1"
    using desk_wait_inv [OF w] assms(1,2) by (simp_all add: desk_safe_def r)
  show ?thesis
  proof (cases "quit_requested s1")
    case True
    then show ?thesis using k s1 by (simp add: r)
  next
    case False
    then obtain need2 s2 where m: "desk_mouse E need s1 = Some (need2, s2)" and e: "evs' = evs1" "s' = (if need2 then redraw E s2 else s2)"
      using k by (auto simp: r bind_eq_Some_conv)
    have "desk_statics s' = desk_statics s2" using redraw_statics [of E s2] e(2) by simp
    from inv_statics [OF this] desk_mouse_inv [OF s1(1) m] s1(2) e(1) show ?thesis by simp
  qed
qed

text \<open>The desktop starts in the invariant and leaves its loop in it, by the Quit button.\<close>

lemma desk_start_inv:
  assumes "length (windows s) = 6" "length (window_order s) = 6" "length (packet (the_mouse s)) = 3"
    "0 < w" "w \<le> 0x4000" "0 < h" "h \<le> 0x4000"
  shows "desk_inv (desk_reset (s\<lparr>the_mouse := mouse_init P w h (the_mouse s)\<rparr>))"
proof (rule desk_invI)
  let ?s = "desk_reset (s\<lparr>the_mouse := mouse_init P w h (the_mouse s)\<rparr>)"
  have "\<not> win_active (window_at slot ?s)" if "0 \<le> slot" "slot < 6" for slot
    using assms(1) that by (simp add: desk_reset_def window_at_def)
  then show "slot \<in> set (order ?s) \<longleftrightarrow> 0 \<le> slot \<and> slot < 6 \<and> win_active (window_at slot ?s)" for slot
    by (auto simp: order_def desk_reset_def)
  have "w div 2 < w" "h div 2 < h" using assms by linarith+
  then show "pointer_ok (the_mouse ?s)"
    using assms by (simp add: desk_reset_def mouse_init_def pointer_ok_def Let_def split_def)
qed (use assms in \<open>simp_all add: desk_reset_def order_def order_wf_def mouse_init_def Let_def split_def\<close>)

lemma desk_loop_inv:
  fixes E :: "('g, 'f, 'm, 'y) desk_env_scheme" and s :: "('g, 'f, 'm, 'x) desk_scheme"
  assumes "desk_loop E evs s = Some r" "desk_safe evs s"
  shows "desk_safe (fst r) (snd r) \<and> quit_requested (snd r)"
proof -
  have "desk_safe evs s \<longrightarrow> desk_safe (fst r) (snd r) \<and> quit_requested (snd r)"
  proof (rule desk_loop.raw_induct [where P = "\<lambda>E evs s r. desk_safe evs s \<longrightarrow> desk_safe (fst r) (snd r) \<and> quit_requested (snd r)",
        OF _ assms(1)])
    fix loop and E :: "('g, 'f, 'm, 'y) desk_env_scheme" and evs and s :: "('g, 'f, 'm, 'x) desk_scheme" and r
    assume IH: "\<And>E evs s r. loop E evs s = Some r \<Longrightarrow> desk_safe evs s \<longrightarrow> desk_safe (fst r) (snd r) \<and> quit_requested (snd r)"
      and eq: "(if quit_requested s then Some (evs, s) else desk_frame E evs s \<bind> (\<lambda>(evs, s). loop E evs s)) = Some r"
    show "desk_safe evs s \<longrightarrow> desk_safe (fst r) (snd r) \<and> quit_requested (snd r)"
    proof (cases "quit_requested s")
      case True
      then show ?thesis using eq by auto
    next
      case False
      then obtain evs1 s1 where f: "desk_frame E evs s = Some (evs1, s1)" "loop E evs1 s1 = Some r"
        using eq by (auto simp: bind_eq_Some_conv)
      have "desk_safe evs s \<longrightarrow> desk_safe evs1 s1" using desk_frame_keeps [OF _ _ f(1)] by (simp add: desk_safe_def)
      then show ?thesis using IH [OF f(2)] by blast
    qed
  qed
  then show ?thesis using assms(2) by blast
qed


section \<open>The keyboard goes to the frontmost window\<close>

definition queue_ok :: "addr \<Rightarrow> 'a sched_scheme \<Rightarrow> bool" where
  "queue_ok t s \<longleftrightarrow> ring_wf 64 (t_input_queue (tasks s t)) (t_input_head (tasks s t)) (t_input_tail (tasks s t))"

lemma push_queue:
  assumes "queue_ok t s"
  shows "queue_ok t (snd (task_push_input_char t c s))"
    "input_contents t (snd (task_push_input_char t c s)) = take 63 (input_contents t s @ [c])"
    "u \<noteq> t \<Longrightarrow> input_contents u (snd (task_push_input_char t c s)) = input_contents u s"
    "length (input_contents t s) \<le> 63"
proof -
  let ?q = "t_input_queue (tasks s t)" and ?h = "t_input_head (tasks s t)" and ?t = "t_input_tail (tasks s t)"
  have wf: "ring_wf 64 ?q ?h ?t" using assms by (simp add: queue_ok_def)
  show "queue_ok t (snd (task_push_input_char t c s))"
    using wf by (auto simp: queue_ok_def task_push_input_char_def Let_def TASK_INPUT_QUEUE_SIZE_def)
  show "input_contents t (snd (task_push_input_char t c s)) = take 63 (input_contents t s @ [c])"
    using ring_push [OF wf] ring_full_iff [OF wf] ring_length_bound [OF wf]
    by (auto simp: input_contents_def task_push_input_char_def Let_def TASK_INPUT_QUEUE_SIZE_def)
  show "u \<noteq> t \<Longrightarrow> input_contents u (snd (task_push_input_char t c s)) = input_contents u s"
    by (auto simp: input_contents_def task_push_input_char_def Let_def)
  show "length (input_contents t s) \<le> 63" using ring_length_bound [OF wf] by (simp add: input_contents_def)
qed

definition focus_task :: "('g, 'f, 'm, 'x) desk_scheme \<Rightarrow> addr option" where
  "focus_task s = (if order s = [] then None else Some (hosted_task (window_at (last (order s)) s)))"

lemma desk_inv_focus:
  assumes "desk_inv s" "order s \<noteq> []"
  shows "focused_slot s = last (order s)" "0 \<le> focused_slot s" "win_active (window_at (focused_slot s) s)"
    "is_hosted (window_at (focused_slot s) s)"
proof -
  have f: "focused_slot s = (if order s = [] then - 1 else last (order s))"
    and m: "\<forall>slot. slot \<in> set (order s) \<longleftrightarrow> 0 \<le> slot \<and> slot < 6 \<and> win_active (window_at slot s)"
    and p: "\<forall>slot\<in>set (order s). placed slot (window_at slot s)"
    using assms(1) unfolding desk_inv_def by blast+
  from f show l: "focused_slot s = last (order s)" by (simp only: if_not_P [OF assms(2)])
  have "last (order s) \<in> set (order s)" using assms(2) by (rule last_in_set)
  then have s: "focused_slot s \<in> set (order s)" unfolding l .
  from m [THEN spec, THEN iffD1, OF s] show "0 \<le> focused_slot s" "win_active (window_at (focused_slot s) s)" by blast+
  from p [THEN bspec, OF s] show "is_hosted (window_at (focused_slot s) s)" unfolding placed_def by blast
qed

lemma route_push:
  assumes "desk_inv s"
  shows "(if 0 \<le> focused_slot s \<and> win_active (window_at (focused_slot s) s) \<and> is_hosted (window_at (focused_slot s) s)
      then snd (task_push_input_char (hosted_task (window_at (focused_slot s) s)) c s) else s) =
    (case focus_task s of None \<Rightarrow> s | Some t \<Rightarrow> snd (task_push_input_char t c s))"
proof (cases "order s = []")
  case True
  have "focused_slot s = (if order s = [] then - 1 else last (order s))" using assms unfolding desk_inv_def by blast
  then have "\<not> 0 \<le> focused_slot s" unfolding if_P [OF True] by simp
  then show ?thesis using True by (simp add: focus_task_def)
next
  case False
  note f = desk_inv_focus [OF assms False]
  have "focus_task s = Some (hosted_task (window_at (focused_slot s) s))" using False f(1) by (simp add: focus_task_def)
  then show ?thesis using f(2-4) by simp
qed

text \<open>C35: routing. The desktop reads every pending key and hands it to the task of the frontmost window
  and to no other; that task's queue gets the keys in the order typed, as far as its 63 places go, and
  without a window they are dropped. Nothing of the desktop changes.\<close>

theorem route_keyboard_spec:
  assumes "desk_inv s" "kb_inv s" "\<not> task_current_uses_input_redirect s" "\<And>t. focus_task s = Some t \<Longrightarrow> queue_ok t s"
  shows "\<exists>s'. route_keyboard s = Some s' \<and> kb_contents s' = [] \<and> desk_statics s' = desk_statics s \<and>
    (\<forall>t. input_contents t s' = (if focus_task s = Some t then take 63 (input_contents t s @ kb_contents s) else input_contents t s))"
  using assms
proof (induction "kb_contents s" arbitrary: s)
  case Nil
  then have "\<not> keyboard_has_char s"
    using ring_empty_iff by (fastforce simp: keyboard_has_char_def kb_inv_def kb_contents_def)
  moreover have "take 63 (input_contents t s) = input_contents t s" if "focus_task s = Some t" for t
    using push_queue(4) [OF Nil(5) [OF that]] by simp
  ultimately show ?case using Nil(1) by (subst route_keyboard.simps) (auto simp flip: Nil(1))
next
  case (Cons c cs)
  have ne: "kb_contents s \<noteq> []" using Cons.hyps(2) by auto
  then have ht: "kb_head s \<noteq> kb_tail s"
    using Cons.prems(2) ring_empty_iff by (fastforce simp: kb_inv_def kb_contents_def)
  obtain t where g: "kb_buffer_pop s = (c, t)" "kb_contents t = cs" "kb_inv t"
    using kb_queue.pop_contents [OF Cons.prems(2) ne] kb_queue.pop_inv [OF Cons.prems(2) ne] Cons.hyps(2)
    by (metis list.inject prod.collapse)
  have get: "keyboard_getchar s = Some (c, t)" and has: "keyboard_has_char s"
    using g(1) ht Cons.prems(3) by (simp_all add: keyboard_getchar_def keyboard_has_char_def)
  have st: "desk_statics t = desk_statics s" using statics_more [OF keyboard_more(2) [OF get]] .
  have tt: "tasks t = tasks s" "current_task t = current_task s" using g(1) by (auto simp: kb_buffer_pop_def)
  let ?u = "case focus_task t of None \<Rightarrow> t | Some k \<Rightarrow> snd (task_push_input_char k c t)"
  have ft: "focus_task t = focus_task s" using st by (simp add: focus_task_def desk_statics_def window_at_def)
  have inv: "desk_inv t" using inv_statics [OF st] Cons.prems(1) by simp
  have qt: "queue_ok k t" if "focus_task s = Some k" for k using Cons.prems(4) [OF that] tt by (simp add: queue_ok_def)
  have pu: "desk_statics (snd (task_push_input_char k c t)) = desk_statics t" for k
    by (rule statics_more) (rule keyboard_more)
  have su: "desk_statics ?u = desk_statics s"
    using st pu by (cases "focus_task t") simp_all
  have fu: "focus_task ?u = focus_task s" using su by (simp only: focus_task_def desk_statics_def window_at_def prod.inject)
  have iu: "desk_inv ?u" using inv_statics [OF su] Cons.prems(1) by simp
  have nr: "\<not> task_current_uses_input_redirect t"
    using Cons.prems(3) tt by (simp add: task_current_uses_input_redirect_def)
  have ku: "kb_inv ?u" "kb_contents ?u = cs" "\<not> task_current_uses_input_redirect ?u"
    using g(2,3) nr by (cases "focus_task t"; simp add: push_keyboard)+
  have qu: "queue_ok k ?u" if "focus_task ?u = Some k" for k
    using push_queue(1) [OF qt] that ft fu by (cases "focus_task s") auto
  have ct: "input_contents k t = input_contents k s" for k using tt(1) by (simp add: input_contents_def)
  have cu: "input_contents k ?u = (if focus_task s = Some k then take 63 (input_contents k s @ [c]) else input_contents k s)" for k
    using push_queue(2,3) [OF qt, where c = c] ft ct by (cases "focus_task s") auto
  obtain s' where s': "route_keyboard ?u = Some s'" "kb_contents s' = []" "desk_statics s' = desk_statics ?u"
    "\<forall>k. input_contents k s' = (if focus_task ?u = Some k then take 63 (input_contents k ?u @ kb_contents ?u) else input_contents k ?u)"
    using Cons.hyps(1) [OF ku(2) [symmetric] iu ku(1,3) qu] by blast
  have "route_keyboard s = Some s'"
    using s'(1) route_push [OF inv, of c] has get by (subst route_keyboard.simps) simp
  moreover have "input_contents k s' = (if focus_task s = Some k then take 63 (input_contents k s @ kb_contents s) else input_contents k s)" for k
    using s'(4) cu [of k] ku(2) fu Cons.hyps(2) take_take_append [of 63 "input_contents k s @ [c]" cs]
    by (metis append.assoc append_Cons append_Nil)
  ultimately show ?case using s'(2,3) su by auto
qed

section \<open>A desktop with one terminal\<close>

definition demo_window :: gui_window where
  "demo_window = \<lparr>win_active = True, win_x = 100, win_y = 90, win_w = 496, win_h = 360, win_title = ''Terminal 1'',
     is_hosted = True, hosted_task = 0x500000, buf_slot = 0\<rparr>"

definition demo_desk :: "(unit, drive, unit) desk" where
  "demo_desk = machine.extend demo_machine (desk.fields (demo_window # replicate 5 (demo_window\<lparr>win_active := False\<rparr>))
     [0, 0, 0, 0, 0, 0] 1 0 (- 1) 0 0 0 False)"

lemmas demo_desk_defs = demo_desk_def demo_machine_defs machine.defs desk.defs terminal_def sched.defs boot_sched_def
  timed.defs kbd.defs blank_task_def

lemma demo_desk_order: "order demo_desk = [0]" "order_wf demo_desk" "length (windows demo_desk) = 6"
  "window_at 0 demo_desk = demo_window"
  by (simp_all add: order_def order_wf_def window_at_def demo_desk_def demo_machine_defs desk.defs)

lemma demo_desk_fields: "focused_slot demo_desk = 0" "dragging_window demo_desk = - 1" "the_mouse demo_desk = demo_mouse"
  "quit_requested demo_desk = False" "shift_held demo_desk = False" "prev_buttons demo_desk = 0" "kb_head demo_desk = 0" "kb_tail demo_desk = 0"
  "kb_buffer demo_desk = replicate 256 (CHR 0x00)" "tick demo_desk = 0" "current_task demo_desk = 0x100000"
  "tasks demo_desk = (\<lambda>_. blank_task\<lparr>t_vga_redirect_buf := 0x200000, t_vga_redirect_cols := 60, t_vga_redirect_rows := 20\<rparr>)"
  by (simp_all add: demo_desk_defs)

lemma demo_desk_active: "0 \<le> slot \<Longrightarrow> slot < 6 \<Longrightarrow> win_active (window_at slot demo_desk) = (slot = 0)"
proof -
  assume "0 \<le> slot" "slot < 6"
  then have "slot \<in> {0, 1, 2, 3, 4, 5}" by auto
  then show ?thesis by (auto simp: window_at_def demo_desk_def demo_machine_defs desk.defs demo_window_def)
qed

lemma demo_desk_inv: "desk_inv demo_desk"
proof (rule desk_invI)
  show "slot \<in> set (order demo_desk) \<longleftrightarrow> 0 \<le> slot \<and> slot < 6 \<and> win_active (window_at slot demo_desk)" for slot
    using demo_desk_active [of slot] by (auto simp: demo_desk_order)
  show "placed slot (window_at slot demo_desk)" if "slot \<in> set (order demo_desk)" for slot
    using that by (simp add: demo_desk_order placed_def demo_window_def)
qed (simp_all add: demo_desk_order demo_desk_fields pointer_ok_def demo_mouse_def)






text \<open>A key is pending and the terminal is in front.\<close>

theorem route_keyboard_spec_witness:
  "\<exists>s'. route_keyboard (keyboard_callback 0x23 demo_desk) = Some s' \<and> kb_contents s' = [] \<and>
     input_contents 0x500000 s' = ''h''"
proof -
  let ?s = "keyboard_callback 0x23 demo_desk"
  have st: "desk_statics ?s = desk_statics demo_desk" by (rule statics_more) (rule keyboard_more)
  have inv: "desk_inv ?s" using inv_statics [OF st] demo_desk_inv by simp
  have o: "order ?s = [0]" "window_at 0 ?s = demo_window"
    using st demo_desk_order by (simp_all add: desk_statics_def window_at_def)
  then have f: "focus_task ?s = Some 0x500000" by (simp add: focus_task_def demo_window_def)
  have k: "kb_inv ?s" "kb_contents ?s = ''h''" "\<not> task_current_uses_input_redirect ?s" "tasks ?s = tasks demo_desk"
    by (simp_all add: keyboard_callback_def scancode_ascii_def kb_buffer_push_def Let_def demo_desk_fields kb_inv_def
        ring_wf_def kb_contents_def ring_contents_def task_current_uses_input_redirect_def blank_task_def
        SC_LSHIFT_def SC_RSHIFT_def KB_BUF_SIZE_def)
  have q: "queue_ok t ?s" "input_contents t ?s = []" for t
    using k(4) by (simp_all add: queue_ok_def input_contents_def ring_contents_def ring_wf_def demo_desk_fields blank_task_def)
  from route_keyboard_spec [OF inv k(1,3) q(1)] show ?thesis using f k(2) q(2) by force
qed

end
