(* ===== verification/Desktop_App.thy ===== *)
theory Desktop_App
  imports Desktop
begin

text \<open>
  \<open>userland/desktop_app.c\<close>: the desktop that runs in ring 3. It draws into the framebuffer that the
  kernel mapped for it with its own routines, and polls the keyboard and the mouse with system calls,
  whose results are the input of the model: for each round of the loop a character code and the state
  of the mouse. The screen is a framebuffer as in \<open>Fb\<close>.

  Its \<open>fill_rect\<close> compares the right and lower ends of a rectangle as unsigned numbers: it agrees with
  the kernel's routine on rectangles that reach the screen, and fills whole rows or columns for
  rectangles that end left of it or above it.
\<close>

section \<open>Drawing\<close>

definition put_pixel :: "u32 \<Rightarrow> u32 \<Rightarrow> u32 \<Rightarrow> framebuf \<Rightarrow> framebuf" where
  "put_pixel x y rgb b =
     (if sint x < 0 \<or> sint y < 0 \<or> fb_width b \<le> x \<or> fb_height b \<le> y then b
      else set_pixel (y * fb_pitch_px b + x) rgb b)"

definition clip_unsigned :: "u32 \<Rightarrow> u32 \<Rightarrow> u32" where
  "clip_unsigned x1 limit = (if limit < x1 then limit else x1)"

definition fill_rect :: "u32 \<Rightarrow> u32 \<Rightarrow> u32 \<Rightarrow> u32 \<Rightarrow> u32 \<Rightarrow> framebuf \<Rightarrow> framebuf" where
  "fill_rect x y w h rgb b =
     (let x0 = clip_low x; y0 = clip_low y;
          x1 = clip_unsigned (x + w) (fb_width b); y1 = clip_unsigned (y + h) (fb_height b)
      in fold (\<lambda>yy. fold (\<lambda>xx. set_pixel (word_of_int yy * fb_pitch_px b + word_of_int xx) rgb)
           [sint x0..sint x1 - 1]) [sint y0..sint y1 - 1] b)"


definition draw_char :: "u32 \<Rightarrow> u32 \<Rightarrow> u8 \<Rightarrow> u32 \<Rightarrow> framebuf \<Rightarrow> framebuf" where
  "draw_char x y c fg =
     (let c = (if sint c < 32 \<or> 126 < sint c then 63 else c);
          glyph = font8x16_data ! (unat c - 32)
      in fold (\<lambda>row. let bits = glyph ! row in
           fold (\<lambda>col. if and bits (drop_bit col 0x80) \<noteq> 0 then put_pixel (x + of_nat col) (y + of_nat row) fg else id)
             [0..<8]) [0..<16])"

primrec string_loop :: "u32 \<Rightarrow> u32 \<Rightarrow> u32 \<Rightarrow> u8 list \<Rightarrow> u32 \<Rightarrow> framebuf \<Rightarrow> framebuf" where
  "string_loop x cx y [] fg b = b"
| "string_loop x cx y (c # s) fg b =
     (if c = 10 then string_loop x x (y + 16) s fg b
      else string_loop x (cx + 8) y s fg (draw_char cx y c fg b))"

definition draw_string :: "u32 \<Rightarrow> u32 \<Rightarrow> u8 list \<Rightarrow> u32 \<Rightarrow> framebuf \<Rightarrow> framebuf" where
  "draw_string x y s = string_loop x x y s"


section \<open>The two windows\<close>










section \<open>The main loop\<close>






section \<open>Drawing agrees with the kernel's\<close>

lemma put_pixel_fb: "put_pixel = fb_put_pixel"
  by (intro ext) (simp add: put_pixel_def fb_put_pixel_def)

lemma glyph_bit: "col < 8 \<Longrightarrow> and (b :: u8) (drop_bit col 0x80) \<noteq> 0 \<longleftrightarrow> bit b (7 - col)"
proof -
  assume col: "col < 8"
  then have "col \<in> {0, 1, 2, 3, 4, 5, 6, 7}" by auto
  then have "drop_bit col (0x80 :: u8) = push_bit (7 - col) 1" by auto
  then show ?thesis using and_shift_one_eq_0_iff [where 'a = 8 and k = "7 - col" and w = b] col by simp
qed

lemma draw_char_fb: "draw_char x y c fg b = fb_draw_char x y c fg bg False b"
  unfolding draw_char_def fb_draw_char_def Let_def
  by (intro fold_cong refl ext) (auto simp: put_pixel_fb glyph_bit)

lemma draw_string_fb: "draw_string x y s fg b = fb_draw_string x y s fg bg False b"
proof -
  have "string_loop x cx y s fg b = draw_string_loop x cx y s fg bg False b" for cx
    by (induction s arbitrary: cx y b) (simp_all add: draw_char_fb [where bg = bg])
  then show ?thesis by (simp add: draw_string_def fb_draw_string_def)
qed

lemma uint_nonneg_sint: "0 \<le> sint (x :: u32) \<Longrightarrow> uint x = sint x"
  using sint_lt [of x] by (simp add: uint_sint take_bit_int_eq_self)

lemma clip_agree: "0 \<le> sint x1 \<Longrightarrow> 0 \<le> sint limit \<Longrightarrow> clip_unsigned x1 limit = clip_high x1 limit"
  by (simp add: clip_unsigned_def clip_high_def word_less_def uint_nonneg_sint)

lemma clip_wraps: "sint x1 < 0 \<Longrightarrow> 0 \<le> sint limit \<Longrightarrow> clip_unsigned x1 limit = limit"
proof -
  assume a: "sint x1 < 0" "0 \<le> sint limit"
  have "sint x1 = uint x1" if "uint x1 < 2 ^ 31"
    unfolding sint_uint using that uint_ge_0 [of x1] by (intro signed_take_bit_int_eq_self) (simp_all add: order_trans [of _ 0])
  then have "\<not> uint x1 < 2 ^ 31" using a(1) uint_ge_0 [of x1] by linarith
  then show ?thesis using a sint_lt [of limit] by (simp add: clip_unsigned_def word_less_def uint_nonneg_sint)
qed

lemma fill_row_pixels:
  "fb_pixels (fold (\<lambda>xx. set_pixel (f xx) c) xs b) i = (if i \<in> f ` set xs then c else fb_pixels b i)"
  by (induction xs arbitrary: b) (auto simp: set_pixel_def)

lemma fill_rows_pixels:
  "fb_pixels (fold (\<lambda>yy. fold (\<lambda>xx. set_pixel (f yy xx) c) xs) ys b) i =
     (if \<exists>yy\<in>set ys. i \<in> f yy ` set xs then c else fb_pixels b i)"
  by (induction ys arbitrary: b) (auto simp: fill_row_pixels)

lemma fold_id: "fold (\<lambda>_. id) xs b = b" "fold (\<lambda>_ x. x) xs b = b"
  by (induction xs) auto

text \<open>C38: the routines with which the ring-3 desktop draws agree with the kernel's: pixels, characters
  and strings everywhere, and rectangles whose right and lower ends are not beyond the left and upper
  edges of the screen.\<close>

theorem app_drawing_agrees:
  "put_pixel x y c b = fb_put_pixel x y c b \<and> draw_char x y ch c b = fb_draw_char x y ch c bg False b \<and>
    draw_string x y str c b = fb_draw_string x y str c bg False b \<and>
    (0 \<le> sint (x + w) \<and> 0 \<le> sint (y + h) \<and> 0 \<le> sint (fb_width b) \<and> 0 \<le> sint (fb_height b) \<longrightarrow>
      fill_rect x y w h c b = fb_fill_rect x y w h c b)"
  by (simp add: put_pixel_fb draw_char_fb [where bg = bg] draw_string_fb [where bg = bg] fill_rect_def fb_fill_rect_def
      clip_agree Let_def)

theorem app_drawing_agrees_witness:
  "\<forall>p. fill_rect (- 5) 7 10 4 3 \<lparr>fb_pixels = p, fb_width = 1024, fb_height = 768, fb_pitch_px = 1024\<rparr> =
    fb_fill_rect (- 5) 7 10 4 3 \<lparr>fb_pixels = p, fb_width = 1024, fb_height = 768, fb_pitch_px = 1024\<rparr>"
  using app_drawing_agrees [where x = "- 5" and y = 7 and w = 10 and h = 4 and c = 3] by simp

text \<open>C39: a rectangle that ends left of the screen. The kernel draws nothing; the ring-3 desktop takes
  the negative end for a large number and fills every pixel of the rectangle's rows. The left border of
  a window dragged over the left edge is such a rectangle.\<close>

theorem off_screen_rect_fills_rows:
  assumes "sint x < 0" "sint (x + w) < 0" "0 \<le> sint (fb_width b)" "0 \<le> sint (fb_height b)"
    "0 \<le> sint y" "sint y \<le> py" "py < sint (y + h)" "py < sint (fb_height b)" "0 \<le> px" "px < sint (fb_width b)"
  shows "fb_fill_rect x y w h c b = b \<and>
    fb_pixels (fill_rect x y w h c b) (word_of_int py * fb_pitch_px b + word_of_int px) = c"
proof
  have "clip_high (x + w) (fb_width b) = x + w" "clip_low x = 0" using assms(1-3) by (auto simp: clip_high_def clip_low_def)
  then show "fb_fill_rect x y w h c b = b" using assms(2) by (simp add: fb_fill_rect_def Let_def fold_id)
  have yend: "py < sint (clip_unsigned (y + h) (fb_height b))" "sint (clip_low y) \<le> py"
    using assms(4-8) clip_agree [of "y + h" "fb_height b"] by (auto simp: clip_high_def clip_low_def)
  have xend: "clip_unsigned (x + w) (fb_width b) = fb_width b" "clip_low x = 0"
    using clip_wraps [OF assms(2,3)] assms(1) by (simp_all add: clip_low_def)
  show "fb_pixels (fill_rect x y w h c b) (word_of_int py * fb_pitch_px b + word_of_int px) = c"
    unfolding fill_rect_def Let_def fill_rows_pixels xend
    using yend assms(9,10) by (intro if_P bexI [of _ py] imageI) auto
qed

text \<open>The left border of the first window, dragged to 100 pixels left of the edge: pixel 500 of row 150
  becomes black.\<close>

theorem off_screen_rect_fills_rows_witness:
  "fb_pixels (fill_rect (- 100) 100 1 220 0 \<lparr>fb_pixels = (\<lambda>_. 7), fb_width = 1024, fb_height = 768, fb_pitch_px = 1024\<rparr>)
     (150 * 1024 + 500) = 0"
  using off_screen_rect_fills_rows [where x = "- 100" and y = 100 and w = 1 and h = 220 and c = 0 and px = 500 and py = 150
      and b = "\<lparr>fb_pixels = (\<lambda>_. 7), fb_width = 1024, fb_height = 768, fb_pitch_px = 1024\<rparr>"] by simp

section \<open>Sessions\<close>











lemma draws_app_char: "draws b (draw_char x y c rgb b)"
  unfolding draw_char_fb [where bg = 0] by (rule draws_char)











end
