(* ===== verification/Mutex_Test.thy ===== *)
theory Mutex_Test
  imports Sync
begin

text \<open>
  The test behind the shell's \<open>mutextest\<close> (\<open>kernel/shell.c\<close>): two tasks increment one counter 2000
  times each under a mutex. The mutex is the system of \<open>Sync\<close>; a step is one guarded section, one
  call of \<open>task_block\<close> or \<open>task_unblock\<close>, or one load, addition or store of a task, so that every
  preemption the timer can cause is a run. \<open>mutex_test_done_count++\<close> is a load and a store: the C
  code does not make it one step.

  The counter is right whenever the test ends; but the lost wake-up of the mutex can keep it from
  ending.
\<close>

section \<open>The two tasks\<close>

definition MUTEX_TEST_ITERS :: nat where "MUTEX_TEST_ITERS = 2000"

text \<open>Where a task is in the body of its loop while it is not inside \<open>mutex_lock\<close> or \<open>mutex_unlock\<close>.\<close>

datatype phase = Idle | Loaded | Added | Stored | Counting | Finished

record mtest =
  sys :: system
  mutex_test_counter :: int
  mutex_test_done_count :: int
  iter :: "tid \<Rightarrow> nat"
  tmp :: "tid \<Rightarrow> int"
  phase :: "tid \<Rightarrow> phase"

definition testers :: "tid set" where "testers = {1, 2}"

text \<open>A step of the mutex in which task \<open>t\<close> and only it moves.\<close>

definition moves :: "tid \<Rightarrow> system \<Rightarrow> system \<Rightarrow> bool" where
  "moves t s s' \<longleftrightarrow> mstep s s' \<and> pcs s' t \<noteq> pcs s t \<and> (\<forall>u. u \<noteq> t \<longrightarrow> pcs s' u = pcs s u)"

inductive tstep :: "mtest \<Rightarrow> mtest \<Rightarrow> bool" where
  lock: "t \<in> testers \<Longrightarrow> ready (sys s) t \<Longrightarrow> pcs (sys s) t = Outside \<Longrightarrow> phase s t = Idle \<Longrightarrow> iter s t < MUTEX_TEST_ITERS \<Longrightarrow>
    tstep s (s\<lparr>sys := (sys s)\<lparr>pcs := (pcs (sys s))(t := Trying)\<rparr>\<rparr>)"
| inside: "t \<in> testers \<Longrightarrow> pcs (sys s) t \<noteq> Outside \<Longrightarrow> pcs (sys s) t \<noteq> Holding \<Longrightarrow> moves t (sys s) m \<Longrightarrow>
    tstep s (s\<lparr>sys := m\<rparr>)"
| load: "t \<in> testers \<Longrightarrow> ready (sys s) t \<Longrightarrow> pcs (sys s) t = Holding \<Longrightarrow> phase s t = Idle \<Longrightarrow>
    tstep s (s\<lparr>tmp := (tmp s)(t := mutex_test_counter s), phase := (phase s)(t := Loaded)\<rparr>)"
| add: "t \<in> testers \<Longrightarrow> ready (sys s) t \<Longrightarrow> pcs (sys s) t = Holding \<Longrightarrow> phase s t = Loaded \<Longrightarrow>
    tstep s (s\<lparr>tmp := (tmp s)(t := tmp s t + 1), phase := (phase s)(t := Added)\<rparr>)"
| store: "t \<in> testers \<Longrightarrow> ready (sys s) t \<Longrightarrow> pcs (sys s) t = Holding \<Longrightarrow> phase s t = Added \<Longrightarrow>
    tstep s (s\<lparr>mutex_test_counter := tmp s t, phase := (phase s)(t := Stored)\<rparr>)"
| unlock: "t \<in> testers \<Longrightarrow> pcs (sys s) t = Holding \<Longrightarrow> phase s t = Stored \<Longrightarrow> moves t (sys s) m \<Longrightarrow>
    tstep s (s\<lparr>sys := m, phase := (phase s)(t := Idle), iter := (iter s)(t := iter s t + 1)\<rparr>)"
| count_load: "t \<in> testers \<Longrightarrow> ready (sys s) t \<Longrightarrow> pcs (sys s) t = Outside \<Longrightarrow> phase s t = Idle \<Longrightarrow> iter s t = MUTEX_TEST_ITERS \<Longrightarrow>
    tstep s (s\<lparr>tmp := (tmp s)(t := mutex_test_done_count s), phase := (phase s)(t := Counting)\<rparr>)"
| count_store: "t \<in> testers \<Longrightarrow> ready (sys s) t \<Longrightarrow> phase s t = Counting \<Longrightarrow>
    tstep s (s\<lparr>mutex_test_done_count := tmp s t + 1, phase := (phase s)(t := Finished)\<rparr>)"

text \<open>The state in which \<open>cmd_mutextest\<close> has initialised the mutex and created the tasks.\<close>

definition mutextest_start :: "mtest \<Rightarrow> mtest" where
  "mutextest_start s = s\<lparr>sys := \<lparr>mtx = mutex_init (mtx (sys s)), pcs = (\<lambda>_. Outside), ready = (\<lambda>_. True)\<rparr>,
     mutex_test_counter := 0, mutex_test_done_count := 0, iter := (\<lambda>_. 0), phase := (\<lambda>_. Idle)\<rparr>"

definition treachable :: "mtest \<Rightarrow> bool" where
  "treachable s \<longleftrightarrow> (\<exists>s0. tstep\<^sup>*\<^sup>* (mutextest_start s0) s)"

section \<open>No update is lost\<close>

definition fin :: "tid \<Rightarrow> mtest \<Rightarrow> int" where "fin t s = (if phase s t = Finished then 1 else 0)"
definition stored :: "tid \<Rightarrow> mtest \<Rightarrow> int" where "stored t s = (if phase s t = Stored then 1 else 0)"

text \<open>What holds of one task, and of a pair of tasks.\<close>

definition task_inv :: "tid \<Rightarrow> mtest \<Rightarrow> bool" where
  "task_inv t s \<longleftrightarrow> (phase s t \<in> {Loaded, Added, Stored} \<longrightarrow> pcs (sys s) t = Holding) \<and>
     (phase s t = Loaded \<longrightarrow> tmp s t = mutex_test_counter s) \<and>
     (phase s t = Added \<longrightarrow> tmp s t = mutex_test_counter s + 1) \<and>
     (phase s t \<in> {Counting, Finished} \<longrightarrow> pcs (sys s) t = Outside \<and> iter s t = MUTEX_TEST_ITERS) \<and>
     iter s t \<le> MUTEX_TEST_ITERS \<and> (pcs (sys s) t \<in> {Trying, Blocking, Sleeping, Holding} \<longrightarrow> iter s t < MUTEX_TEST_ITERS)"

definition pair_inv :: "tid \<Rightarrow> tid \<Rightarrow> mtest \<Rightarrow> bool" where
  "pair_inv t u s \<longleftrightarrow> excl_inv (sys s) \<and> task_inv t s \<and> task_inv u s \<and>
     mutex_test_counter s = int (iter s t) + int (iter s u) + stored t s + stored u s \<and>
     mutex_test_done_count s \<le> fin t s + fin u s \<and>
     (phase s t = Counting \<longrightarrow> tmp s t \<le> fin u s) \<and> (phase s u = Counting \<longrightarrow> tmp s u \<le> fin t s)"

lemma pair_swap: "pair_inv t u s = pair_inv u t s"
  by (auto simp: pair_inv_def)

lemma excl_one: "excl_inv m \<Longrightarrow> pcs m t = Holding \<Longrightarrow> pcs m u = Holding \<Longrightarrow> t = u"
  by (simp add: excl_inv_def)

lemma moves_excl: "moves t m m' \<Longrightarrow> excl_inv m \<Longrightarrow> excl_inv m'"
  using excl_inv_step by (auto simp: moves_def)

text \<open>Inside the calls of the mutex a task that waits goes on to wait or takes it, and one that has
  released it goes outside.\<close>

lemma moves_pc:
  assumes "moves t m m'"
  shows "pcs m t \<in> {Trying, Blocking, Sleeping} \<Longrightarrow> pcs m' t \<in> {Trying, Blocking, Sleeping, Holding}"
    "pcs m t = Waking w \<Longrightarrow> pcs m' t = Outside"
    "pcs m t = Holding \<Longrightarrow> pcs m' t \<notin> {Trying, Blocking, Sleeping, Holding}"
proof -
  have m: "mstep m m'" "pcs m' t \<noteq> pcs m t" using assms by (simp_all add: moves_def)
  then show "pcs m t \<in> {Trying, Blocking, Sleeping} \<Longrightarrow> pcs m' t \<in> {Trying, Blocking, Sleeping, Holding}"
    by (cases rule: mstep.cases) (auto split: if_splits)
  from m show "pcs m t = Waking w \<Longrightarrow> pcs m' t = Outside"
    by (cases rule: mstep.cases) (auto split: if_splits)
  from m show "pcs m t = Holding \<Longrightarrow> pcs m' t \<notin> {Trying, Blocking, Sleeping, Holding}"
    by (cases rule: mstep.cases) (auto split: if_splits option.splits)
qed

lemma moves_other: "moves t m m' \<Longrightarrow> u \<noteq> t \<Longrightarrow> pcs m' u = pcs m u"
  by (simp add: moves_def)

text \<open>A task that is not touched keeps its part.\<close>

lemma task_inv_other:
  assumes "task_inv u s" "phase s' u = phase s u" "tmp s' u = tmp s u" "iter s' u = iter s u"
    "pcs (sys s') u = pcs (sys s) u" "mutex_test_counter s' = mutex_test_counter s \<or> phase s u \<notin> {Loaded, Added}"
  shows "task_inv u s'"
  using assms(6)
proof
  assume "mutex_test_counter s' = mutex_test_counter s"
  then show ?thesis using assms(1-5) by (simp add: task_inv_def)
next
  assume "phase s u \<notin> {Loaded, Added}"
  then show ?thesis using assms(1-5) by (simp add: task_inv_def)
qed

lemma pair_invI:
  assumes "pair_inv t u s" "t \<noteq> u" "excl_inv (sys s')" "task_inv t s'"
    "phase s' u = phase s u" "tmp s' u = tmp s u" "iter s' u = iter s u" "pcs (sys s') u = pcs (sys s) u"
    "mutex_test_counter s' = mutex_test_counter s \<or> phase s u \<notin> {Loaded, Added}"
    "mutex_test_counter s' - int (iter s' t) - stored t s' = mutex_test_counter s - int (iter s t) - stored t s"
    "mutex_test_done_count s' \<le> fin t s' + fin u s" "fin t s \<le> fin t s'" "phase s' t = Counting \<longrightarrow> tmp s' t \<le> fin u s"
  shows "pair_inv t u s'"
proof -
  note inv = assms(1) [unfolded pair_inv_def]
  have "task_inv u s'" using task_inv_other [of u s s'] assms(5-9) inv by blast
  moreover have "fin u s' = fin u s" "stored u s' = stored u s" using assms(5) by (simp_all add: fin_def stored_def)
  moreover have "phase s' u = Counting \<longrightarrow> tmp s' u \<le> fin t s'" using inv assms(5,6,12) by (metis order_trans)
  ultimately show ?thesis using assms(3,4,7,10,11,13) inv unfolding pair_inv_def by simp
qed

lemma pair_invD:
  assumes "pair_inv t u s"
  shows "excl_inv (sys s)" "task_inv t s" "task_inv u s" "mutex_test_done_count s \<le> fin t s + fin u s"
  using assms by (simp_all add: pair_inv_def)

lemma step_lock:
  assumes "pair_inv t u s" "t \<noteq> u" "pcs (sys s) t = Outside" "phase s t = Idle" "iter s t < MUTEX_TEST_ITERS"
  shows "pair_inv t u (s\<lparr>sys := (sys s)\<lparr>pcs := (pcs (sys s))(t := Trying)\<rparr>\<rparr>)"
proof (rule pair_invI [OF assms(1,2)])
  show "excl_inv (sys (s\<lparr>sys := (sys s)\<lparr>pcs := (pcs (sys s))(t := Trying)\<rparr>\<rparr>))"
    by (rule excl_inv_move [OF pair_invD(1) [OF assms(1)], of t Trying]) (use assms(3) in simp_all)
qed (use pair_invD(2,4) [OF assms(1)] assms(2-5) in \<open>simp_all add: task_inv_def fin_def stored_def\<close>)

lemma step_inside:
  assumes "pair_inv t u s" "t \<noteq> u" "pcs (sys s) t \<noteq> Outside" "pcs (sys s) t \<noteq> Holding" "moves t (sys s) m"
  shows "pair_inv t u (s\<lparr>sys := m\<rparr>)"
proof (rule pair_invI [OF assms(1,2)])
  note t = pair_invD(2) [OF assms(1)]
  show "excl_inv (sys (s\<lparr>sys := m\<rparr>))" using moves_excl [OF assms(5) pair_invD(1) [OF assms(1)]] by simp
  have idle: "phase s t = Idle" using t assms(3,4) by (cases "phase s t") (auto simp: task_inv_def)
  have "iter s t < MUTEX_TEST_ITERS" if "pcs m t \<in> {Trying, Blocking, Sleeping, Holding}"
    using t moves_pc(2) [OF assms(5)] assms(3,4) that by (cases "pcs (sys s) t") (auto simp: task_inv_def)
  then show "task_inv t (s\<lparr>sys := m\<rparr>)" using t idle by (simp add: task_inv_def)
  show "pcs (sys (s\<lparr>sys := m\<rparr>)) u = pcs (sys s) u" using moves_other [OF assms(5), of u] assms(2) by simp
  show "phase (s\<lparr>sys := m\<rparr>) t = Counting \<longrightarrow> tmp (s\<lparr>sys := m\<rparr>) t \<le> fin u s" using idle by simp
qed (use pair_invD(4) [OF assms(1)] in \<open>simp_all add: fin_def stored_def\<close>)

lemma step_load:
  assumes "pair_inv t u s" "t \<noteq> u" "pcs (sys s) t = Holding" "phase s t = Idle"
  shows "pair_inv t u (s\<lparr>tmp := (tmp s)(t := mutex_test_counter s), phase := (phase s)(t := Loaded)\<rparr>)"
  by (rule pair_invI [OF assms(1,2)])
    (use pair_invD(1,2,4) [OF assms(1)] assms(2-4) in \<open>simp_all add: task_inv_def fin_def stored_def\<close>)

lemma step_add:
  assumes "pair_inv t u s" "t \<noteq> u" "pcs (sys s) t = Holding" "phase s t = Loaded"
  shows "pair_inv t u (s\<lparr>tmp := (tmp s)(t := tmp s t + 1), phase := (phase s)(t := Added)\<rparr>)"
  by (rule pair_invI [OF assms(1,2)])
    (use pair_invD(1,2,4) [OF assms(1)] assms(2-4) in \<open>simp_all add: task_inv_def fin_def stored_def\<close>)

lemma step_store:
  assumes "pair_inv t u s" "t \<noteq> u" "pcs (sys s) t = Holding" "phase s t = Added"
  shows "pair_inv t u (s\<lparr>mutex_test_counter := tmp s t, phase := (phase s)(t := Stored)\<rparr>)"
proof (rule pair_invI [OF assms(1,2)])
  let ?s = "s\<lparr>mutex_test_counter := tmp s t, phase := (phase s)(t := Stored)\<rparr>"
  note d = pair_invD [OF assms(1)]
  have t: "tmp s t = mutex_test_counter s + 1" using d(2) assms(4) by (simp add: task_inv_def)
  have imp: "phase s u \<in> {Loaded, Added, Stored} \<Longrightarrow> pcs (sys s) u = Holding"
    using d(3) by (simp add: task_inv_def)
  have "phase s u \<notin> {Loaded, Added}"
  proof
    assume "phase s u \<in> {Loaded, Added}"
    then have "pcs (sys s) u = Holding" by (intro imp) auto
    from excl_one [OF d(1) assms(3) this] assms(2) show False by (rule notE [rotated])
  qed
  then show "mutex_test_counter ?s = mutex_test_counter s \<or> phase s u \<notin> {Loaded, Added}" ..
  show "task_inv t ?s" using d(2) assms(3) by (simp add: task_inv_def)
  show "mutex_test_counter ?s - int (iter ?s t) - stored t ?s = mutex_test_counter s - int (iter s t) - stored t s"
    using t assms(4) by (simp add: stored_def)
qed (use pair_invD(1,4) [OF assms(1)] assms(2-4) in \<open>simp_all add: fin_def\<close>)

lemma step_unlock:
  assumes "pair_inv t u s" "t \<noteq> u" "pcs (sys s) t = Holding" "phase s t = Stored" "moves t (sys s) m"
  shows "pair_inv t u (s\<lparr>sys := m, phase := (phase s)(t := Idle), iter := (iter s)(t := iter s t + 1)\<rparr>)"
  by (rule pair_invI [OF assms(1,2)])
    (use pair_invD(1,2,4) [OF assms(1)] assms(2-4) moves_pc(3) [OF assms(5,3)] moves_other [OF assms(5), of u] moves_excl [OF assms(5)]
      in \<open>simp_all add: task_inv_def fin_def stored_def\<close>)

lemma step_count_load:
  assumes "pair_inv t u s" "t \<noteq> u" "pcs (sys s) t = Outside" "phase s t = Idle" "iter s t = MUTEX_TEST_ITERS"
  shows "pair_inv t u (s\<lparr>tmp := (tmp s)(t := mutex_test_done_count s), phase := (phase s)(t := Counting)\<rparr>)"
  by (rule pair_invI [OF assms(1,2)])
    (use pair_invD(1,2,4) [OF assms(1)] assms(2-5) in \<open>simp_all add: task_inv_def fin_def stored_def\<close>)

lemma step_count_store:
  assumes "pair_inv t u s" "t \<noteq> u" "phase s t = Counting"
  shows "pair_inv t u (s\<lparr>mutex_test_done_count := tmp s t + 1, phase := (phase s)(t := Finished)\<rparr>)"
proof -
  have "tmp s t \<le> fin u s" using assms(1,3) by (simp add: pair_inv_def)
  then show ?thesis
    by (intro pair_invI [OF assms(1,2), of "s\<lparr>mutex_test_done_count := tmp s t + 1, phase := (phase s)(t := Finished)\<rparr>"])
      (use pair_invD(1,2,4) [OF assms(1)] assms(2-3) in \<open>simp_all add: task_inv_def fin_def stored_def\<close>)
qed

lemma tstep_inv:
  assumes "tstep s s'" "pair_inv 1 2 s"
  shows "pair_inv 1 2 s'"
proof -
  have swap: "pair_inv 1 2 v = pair_inv t (3 - t) v \<and> t \<noteq> 3 - t" if "t \<in> testers" for t v
    using that pair_swap by (auto simp: testers_def numeral_eq_Suc)
  show ?thesis
    using assms(1)
  proof (cases rule: tstep.cases)
    case (lock t) then show ?thesis using assms(2) step_lock swap [of t] by auto
  next
    case (inside t m) then show ?thesis using assms(2) step_inside swap [of t] by auto
  next
    case (load t) then show ?thesis using assms(2) step_load swap [of t] by auto
  next
    case (add t) then show ?thesis using assms(2) step_add swap [of t] by auto
  next
    case (store t) then show ?thesis using assms(2) step_store swap [of t] by auto
  next
    case (unlock t m) then show ?thesis using assms(2) step_unlock swap [of t] by auto
  next
    case (count_load t) then show ?thesis using assms(2) step_count_load swap [of t] by auto
  next
    case (count_store t) then show ?thesis using assms(2) step_count_store swap [of t] by auto
  qed
qed

lemma start_inv: "pair_inv 1 2 (mutextest_start s)"
  by (simp add: pair_inv_def task_inv_def mutextest_start_def excl_inv_def mutex_init_def fin_def stored_def MUTEX_TEST_ITERS_def)

lemma treachable_inv: "treachable s \<Longrightarrow> pair_inv 1 2 s"
proof -
  assume "treachable s"
  then obtain s0 where "tstep\<^sup>*\<^sup>* (mutextest_start s0) s" by (auto simp: treachable_def)
  then show ?thesis by (induction rule: rtranclp_induct) (rule start_inv, rule tstep_inv)
qed

text \<open>C36: no update is lost. However the timer preempts the two tasks, the counter is never more than
  the increments done, and when the loop of the command that waits for both tasks ends, it is exactly
  4000, so that the test reports success.\<close>

theorem mutextest_passes:
  assumes "treachable s"
  shows "mutex_test_counter s \<le> 4000 \<and> mutex_test_done_count s \<le> 2 \<and>
    (\<not> mutex_test_done_count s < 2 \<longrightarrow> mutex_test_counter s = 4000)"
proof -
  note inv = treachable_inv [OF assms]
  have i: "task_inv 1 s" "task_inv 2 s" "mutex_test_counter s = int (iter s 1) + int (iter s 2) + stored 1 s + stored 2 s"
    "mutex_test_done_count s \<le> fin 1 s + fin 2 s" using inv unfolding pair_inv_def by blast+
  have st: "stored t s + int (iter s t) \<le> 2000" if t: "task_inv t s" for t
  proof (cases "phase s t = Stored")
    case True
    have "pcs (sys s) t = Holding" using t True unfolding task_inv_def by simp
    then have "iter s t < MUTEX_TEST_ITERS" using t unfolding task_inv_def by simp
    then show ?thesis using True by (simp add: stored_def MUTEX_TEST_ITERS_def)
  next
    case False
    then show ?thesis using t by (simp add: task_inv_def stored_def MUTEX_TEST_ITERS_def)
  qed
  have done2: "iter s t = 2000 \<and> stored t s = 0" if "task_inv t s" "fin t s = 1" for t
  proof -
    have "phase s t = Finished" using that(2) by (simp add: fin_def split: if_splits)
    then show ?thesis using that(1) by (simp add: task_inv_def stored_def MUTEX_TEST_ITERS_def)
  qed
  have f: "fin t s \<le> 1" for t by (simp add: fin_def)
  have "mutex_test_counter s = 4000" if "\<not> mutex_test_done_count s < 2"
  proof -
    have "fin 1 s = 1" "fin 2 s = 1" using that i(4) f [of 1] f [of 2] by linarith+
    then show ?thesis using i(3) done2 [OF i(1)] done2 [OF i(2)] by simp
  qed
  moreover have "mutex_test_done_count s \<le> 2" using i(4) f [of 1] f [of 2] by linarith
  moreover have "mutex_test_counter s \<le> 4000" using i(3) st [OF i(1)] st [OF i(2)] by linarith
  ultimately show ?thesis by blast
qed

theorem mutextest_passes_witness:
  "mutex_test_counter (mutextest_start \<lparr>sys = holder_system, mutex_test_counter = 5, mutex_test_done_count = 2,
     iter = \<lambda>_. 7, tmp = \<lambda>_. 0, phase = \<lambda>_. Finished\<rparr>) \<le> 4000"
proof -
  let ?s = "\<lparr>sys = holder_system, mutex_test_counter = 5, mutex_test_done_count = 2,
     iter = \<lambda>_. 7, tmp = \<lambda>_. 0, phase = \<lambda>_. Finished\<rparr>"
  have "treachable (mutextest_start ?s)" unfolding treachable_def by blast
  then show ?thesis using mutextest_passes by blast
qed

section \<open>The test may not end\<close>

text \<open>Single moves, in the form in which a run uses them.\<close>

lemma moves_take: "ready m t \<Longrightarrow> pcs m t = Trying \<Longrightarrow> \<not> locked (mtx m) \<Longrightarrow>
    moves t m (m\<lparr>mtx := (mtx m)\<lparr>locked := True\<rparr>, pcs := (pcs m)(t := Holding)\<rparr>)"
  using mstep.round [of m t True "(mtx m)\<lparr>locked := True\<rparr>"] by (simp add: moves_def mutex_lock_round_def)

lemma moves_register: "ready m t \<Longrightarrow> pcs m t = Trying \<Longrightarrow> locked (mtx m) \<Longrightarrow> waiters (mtx m) = [] \<Longrightarrow>
    moves t m (m\<lparr>mtx := (mtx m)\<lparr>waiters := [t]\<rparr>, pcs := (pcs m)(t := Blocking)\<rparr>)"
  using mstep.round [of m t False "(mtx m)\<lparr>waiters := [t]\<rparr>"]
  by (simp add: moves_def mutex_lock_round_def MUTEX_MAX_WAITERS_def)

lemma moves_release: "ready m t \<Longrightarrow> pcs m t = Holding \<Longrightarrow> waiters (mtx m) = [w] \<Longrightarrow>
    moves t m (m\<lparr>mtx := (mtx m)\<lparr>locked := False, waiters := []\<rparr>, pcs := (pcs m)(t := Waking w)\<rparr>)"
  using mstep.unlock [of m t "Some w" "(mtx m)\<lparr>locked := False, waiters := []\<rparr>"]
  by (simp add: moves_def mutex_unlock_section_def)

lemma moves_wake: "ready m t \<Longrightarrow> pcs m t = Waking w \<Longrightarrow>
    moves t m (m\<lparr>pcs := (pcs m)(t := Outside), ready := (ready m)(w := True)\<rparr>)"
  using mstep.wake [of m t w] by (simp add: moves_def)

lemma moves_block: "ready m t \<Longrightarrow> pcs m t = Blocking \<Longrightarrow>
    moves t m (m\<lparr>pcs := (pcs m)(t := Sleeping), ready := (ready m)(t := False)\<rparr>)"
  using mstep.block [of m t] by (simp add: moves_def)

text \<open>A tester that sleeps and that nobody is going to wake stays so, in the middle of its loop.\<close>

definition stuck :: "tid \<Rightarrow> mtest \<Rightarrow> bool" where
  "stuck t s \<longleftrightarrow> abandoned t (sys s) \<and> phase s t = Idle"

lemma stuck_step:
  assumes "tstep s s'" "stuck t s"
  shows "stuck t s'"
proof -
  have a: "abandoned t (sys s)" "phase s t = Idle" "pcs (sys s) t = Sleeping" "\<not> ready (sys s) t"
    using assms(2) by (simp_all add: stuck_def abandoned_def)
  have still: "abandoned t m \<and> u \<noteq> t" if "moves u (sys s) m" for u m
    using that abandoned_step [of "sys s" m t] a(1,3) by (auto simp: moves_def abandoned_def)
  from assms(1) show ?thesis
  proof (cases rule: tstep.cases)
    case (lock u)
    then show ?thesis using a abandoned_step [OF mstep.enter [of "sys s" u] a(1)] by (simp add: stuck_def)
  next
    case (inside u m)
    then show ?thesis using still [of u m] a(2) by (simp add: stuck_def)
  next
    case (unlock u m)
    then show ?thesis using still [of u m] a(2) by (simp add: stuck_def)
  qed (use a in \<open>auto simp: stuck_def\<close>)
qed

lemma stuck_run: "tstep\<^sup>*\<^sup>* s s' \<Longrightarrow> stuck t s \<Longrightarrow> stuck t s'"
  by (induction rule: rtranclp_induct) (auto intro: stuck_step)

text \<open>The run: task 1 takes the mutex, task 2 fails its round and is registered, and is preempted before
  \<open>task_block\<close>; task 1 goes through its round and wakes task 2, which is awake; then task 2 blocks.\<close>

definition run_sys :: "bool \<Rightarrow> tid list \<Rightarrow> pc \<Rightarrow> pc \<Rightarrow> bool \<Rightarrow> system" where
  "run_sys l ws p1 p2 r2 = \<lparr>mtx = \<lparr>locked = l, waiters = ws\<rparr>, pcs = (\<lambda>_. Outside)(1 := p1, 2 := p2), ready = (\<lambda>_. True)(2 := r2)\<rparr>"

definition run_state :: "mtest \<Rightarrow> system \<Rightarrow> int \<Rightarrow> phase \<Rightarrow> (tid \<Rightarrow> int) \<Rightarrow> nat \<Rightarrow> mtest" where
  "run_state s m c ph1 tm i1 = (mutextest_start s)\<lparr>sys := m, mutex_test_counter := c, iter := (\<lambda>_. 0)(1 := i1), tmp := tm,
     phase := (\<lambda>_. Idle)(1 := ph1)\<rparr>"

lemma run_sys_fields: "pcs (run_sys l ws p1 p2 r2) 1 = p1" "pcs (run_sys l ws p1 p2 r2) 2 = p2"
  "ready (run_sys l ws p1 p2 r2) 1" "ready (run_sys l ws p1 p2 r2) 2 = r2"
  by (simp_all add: run_sys_def)

lemma run_state_fields: "sys (run_state s m c ph1 tm i1) = m" "phase (run_state s m c ph1 tm i1) 1 = ph1"
  "phase (run_state s m c ph1 tm i1) 2 = Idle" "iter (run_state s m c ph1 tm i1) 1 = i1" "iter (run_state s m c ph1 tm i1) 2 = 0"
  "tmp (run_state s m c ph1 tm i1) = tm" "mutex_test_counter (run_state s m c ph1 tm i1) = c"
  by (simp_all add: run_state_def)

lemma run_state_upd: "(run_state s m c ph1 tm i1)\<lparr>sys := m'\<rparr> = run_state s m' c ph1 tm i1"
  "(run_state s m c ph1 tm i1)\<lparr>tmp := tm', phase := (phase (run_state s m c ph1 tm i1))(1 := ph)\<rparr> = run_state s m c ph tm' i1"
  "(run_state s m c ph1 tm i1)\<lparr>mutex_test_counter := c', phase := (phase (run_state s m c ph1 tm i1))(1 := ph)\<rparr> = run_state s m c' ph tm i1"
  "(run_state s m' c ph1 tm i1)\<lparr>phase := (phase (run_state s m c ph1 tm i1))(1 := ph),
     iter := (iter (run_state s m c ph1 tm i1))(1 := i)\<rparr> = run_state s m' c ph tm i"
  by (simp_all add: run_state_def)

lemma run_sys_moves:
  "(run_sys l ws p1 p2 r2)\<lparr>pcs := (pcs (run_sys l ws p1 p2 r2))(1 := p)\<rparr> = run_sys l ws p p2 r2"
  "(run_sys l ws p1 p2 r2)\<lparr>pcs := (pcs (run_sys l ws p1 p2 r2))(2 := p)\<rparr> = run_sys l ws p1 p r2"
  "moves 1 (run_sys False ws Trying p2 r2) (run_sys True ws Holding p2 r2)"
  "moves 2 (run_sys True [] p1 Trying True) (run_sys True [2] p1 Blocking True)"
  "moves 1 (run_sys l [2] Holding p2 r2) (run_sys False [] (Waking 2) p2 r2)"
  "moves 1 (run_sys l ws (Waking 2) p2 r2) (run_sys l ws Outside p2 True)"
  "moves 2 (run_sys l ws p1 Blocking True) (run_sys l ws p1 Sleeping False)"
  using moves_take [of "run_sys False ws Trying p2 r2" 1] moves_register [of "run_sys True [] p1 Trying True" 2]
    moves_release [of "run_sys l [2] Holding p2 r2" 1 2] moves_wake [of "run_sys l ws (Waking 2) p2 r2" 1 2]
    moves_block [of "run_sys l ws p1 Blocking True" 2]
  by (simp_all add: run_sys_def fun_upd_twist)

lemma run_steps:
  "t \<in> testers \<Longrightarrow> ready m t \<Longrightarrow> pcs m t = Outside \<Longrightarrow> phase (run_state s m c ph tm i) t = Idle \<Longrightarrow>
    iter (run_state s m c ph tm i) t = 0 \<Longrightarrow> tstep (run_state s m c ph tm i) (run_state s (m\<lparr>pcs := (pcs m)(t := Trying)\<rparr>) c ph tm i)"
  "t \<in> testers \<Longrightarrow> pcs m t \<noteq> Outside \<Longrightarrow> pcs m t \<noteq> Holding \<Longrightarrow> moves t m m' \<Longrightarrow>
    tstep (run_state s m c ph tm i) (run_state s m' c ph tm i)"
  "ready m 1 \<Longrightarrow> pcs m 1 = Holding \<Longrightarrow> tstep (run_state s m c Idle tm i) (run_state s m c Loaded (tm(1 := c)) i)"
  "ready m 1 \<Longrightarrow> pcs m 1 = Holding \<Longrightarrow> tstep (run_state s m c Loaded tm i) (run_state s m c Added (tm(1 := tm 1 + 1)) i)"
  "ready m 1 \<Longrightarrow> pcs m 1 = Holding \<Longrightarrow> tstep (run_state s m c Added tm i) (run_state s m (tm 1) Stored tm i)"
  "pcs m 1 = Holding \<Longrightarrow> moves 1 m m' \<Longrightarrow> tstep (run_state s m c Stored tm i) (run_state s m' c Idle tm (i + 1))"
proof -
  have t: "1 \<in> testers" "0 < MUTEX_TEST_ITERS" by (simp_all add: testers_def MUTEX_TEST_ITERS_def)
  note rules = tstep.lock [of t "run_state s m c ph tm i"] tstep.inside [of t "run_state s m c ph tm i" m']
    tstep.load [of 1 "run_state s m c Idle tm i"] tstep.add [of 1 "run_state s m c Loaded tm i"]
    tstep.store [of 1 "run_state s m c Added tm i"] tstep.unlock [of 1 "run_state s m c Stored tm i" m']
  note simps = run_state_fields run_state_upd t
  show "t \<in> testers \<Longrightarrow> ready m t \<Longrightarrow> pcs m t = Outside \<Longrightarrow> phase (run_state s m c ph tm i) t = Idle \<Longrightarrow>
    iter (run_state s m c ph tm i) t = 0 \<Longrightarrow> tstep (run_state s m c ph tm i) (run_state s (m\<lparr>pcs := (pcs m)(t := Trying)\<rparr>) c ph tm i)"
    using rules(1) by (simp only: simps)
  show "t \<in> testers \<Longrightarrow> pcs m t \<noteq> Outside \<Longrightarrow> pcs m t \<noteq> Holding \<Longrightarrow> moves t m m' \<Longrightarrow>
    tstep (run_state s m c ph tm i) (run_state s m' c ph tm i)" using rules(2) by (simp only: simps simp_thms)
  show "ready m 1 \<Longrightarrow> pcs m 1 = Holding \<Longrightarrow> tstep (run_state s m c Idle tm i) (run_state s m c Loaded (tm(1 := c)) i)"
    using rules(3) by (simp only: simps simp_thms)
  show "ready m 1 \<Longrightarrow> pcs m 1 = Holding \<Longrightarrow> tstep (run_state s m c Loaded tm i) (run_state s m c Added (tm(1 := tm 1 + 1)) i)"
    using rules(4) by (simp only: simps simp_thms)
  show "ready m 1 \<Longrightarrow> pcs m 1 = Holding \<Longrightarrow> tstep (run_state s m c Added tm i) (run_state s m (tm 1) Stored tm i)"
    using rules(5) by (simp only: simps simp_thms)
  show "pcs m 1 = Holding \<Longrightarrow> moves 1 m m' \<Longrightarrow> tstep (run_state s m c Stored tm i) (run_state s m' c Idle tm (i + 1))"
    using rules(6) by (simp only: simps simp_thms)
qed

lemma stuck_reachable: "\<exists>s'. tstep\<^sup>*\<^sup>* (mutextest_start s) s' \<and> stuck 2 s'"
proof -
  have t: "1 \<in> testers" "2 \<in> testers" by (simp_all add: testers_def)
  define tm where "tm = tmp (mutextest_start s)"
  let ?S = "run_state s" and ?M = run_sys
  have start: "mutextest_start s = ?S (?M False [] Outside Outside True) 0 Idle tm 0"
    by (cases s; cases "mtx (sys s)") (simp add: run_state_def run_sys_def tm_def mutextest_start_def mutex_init_def fun_upd_idem)
  have 1: "tstep (?S (?M False [] Outside Outside True) 0 Idle tm 0) (?S (?M False [] Trying Outside True) 0 Idle tm 0)"
    using run_steps(1) [OF t(1), of "?M False [] Outside Outside True" s 0 Idle tm 0]
    by (simp only: run_sys_fields run_state_fields run_sys_moves simp_thms)
  have 2: "tstep (?S (?M False [] Trying Outside True) 0 Idle tm 0) (?S (?M True [] Holding Outside True) 0 Idle tm 0)"
    by (rule run_steps(2) [OF t(1) _ _ run_sys_moves(3)]) (simp_all only: run_sys_fields pc.distinct simp_thms)
  have 3: "tstep (?S (?M True [] Holding Outside True) 0 Idle tm 0) (?S (?M True [] Holding Trying True) 0 Idle tm 0)"
    using run_steps(1) [OF t(2), of "?M True [] Holding Outside True" s 0 Idle tm 0]
    by (simp only: run_sys_fields run_state_fields run_sys_moves simp_thms)
  have 4: "tstep (?S (?M True [] Holding Trying True) 0 Idle tm 0) (?S (?M True [2] Holding Blocking True) 0 Idle tm 0)"
    by (rule run_steps(2) [OF t(2) _ _ run_sys_moves(4)]) (simp_all only: run_sys_fields pc.distinct simp_thms)
  let ?m = "?M True [2] Holding Blocking True"
  obtain tm' c where 5: "tstep\<^sup>*\<^sup>* (?S ?m 0 Idle tm 0) (?S ?m c Stored tm' 0)"
    using run_steps(3-5) [of ?m] run_sys_fields(1,3) by (meson rtranclp.rtrancl_refl converse_rtranclp_into_rtranclp)
  have 6: "tstep (?S ?m c Stored tm' 0) (?S (?M False [] (Waking 2) Blocking True) c Idle tm' (0 + 1))"
    by (rule run_steps(6) [OF run_sys_fields(1) run_sys_moves(5)])
  have 7: "tstep (?S (?M False [] (Waking 2) Blocking True) c Idle tm' (0 + 1)) (?S (?M False [] Outside Blocking True) c Idle tm' (0 + 1))"
    by (rule run_steps(2) [OF t(1) _ _ run_sys_moves(6)]) (simp_all only: run_sys_fields pc.distinct simp_thms)
  have 8: "tstep (?S (?M False [] Outside Blocking True) c Idle tm' (0 + 1)) (?S (?M False [] Outside Sleeping False) c Idle tm' (0 + 1))"
    by (rule run_steps(2) [OF t(2) _ _ run_sys_moves(7)]) (simp_all only: run_sys_fields pc.distinct simp_thms)
  have "stuck 2 (?S (?M False [] Outside Sleeping False) c Idle tm' (0 + 1))"
    by (simp add: stuck_def abandoned_def run_state_def run_sys_def)
  moreover have "tstep\<^sup>*\<^sup>* (mutextest_start s) (?S (?M False [] Outside Sleeping False) c Idle tm' (0 + 1))"
    unfolding start using 1 2 3 4 5 6 7 8
    by (meson rtranclp.rtrancl_into_rtrancl converse_rtranclp_into_rtranclp)
  ultimately show ?thesis by blast
qed

text \<open>C37: the test may hang. From every start of it there is a run of the two tasks after which the
  loop of the command that waits for both never ends, whatever happens later.\<close>

theorem mutextest_may_hang:
  "\<exists>s'. treachable s' \<and> tstep\<^sup>*\<^sup>* (mutextest_start s) s' \<and> (\<forall>s''. tstep\<^sup>*\<^sup>* s' s'' \<longrightarrow> mutex_test_done_count s'' < 2)"
proof -
  obtain s' where s': "tstep\<^sup>*\<^sup>* (mutextest_start s) s'" "stuck 2 s'" using stuck_reachable by blast
  have "mutex_test_done_count s'' < 2" if "tstep\<^sup>*\<^sup>* s' s''" for s''
  proof -
    have "treachable s''" using s'(1) that unfolding treachable_def by (meson rtranclp_trans)
    from treachable_inv [OF this] have "mutex_test_done_count s'' \<le> fin 1 s'' + fin 2 s''" by (simp add: pair_inv_def)
    moreover have "phase s'' 2 = Idle" using stuck_run [OF that s'(2)] by (simp add: stuck_def)
    ultimately show ?thesis by (simp add: fin_def split: if_splits)
  qed
  then show ?thesis using s'(1) unfolding treachable_def by blast
qed

theorem mutextest_may_hang_witness:
  "\<exists>s'. tstep\<^sup>*\<^sup>* (mutextest_start \<lparr>sys = holder_system, mutex_test_counter = 0, mutex_test_done_count = 0,
       iter = \<lambda>_. 0, tmp = \<lambda>_. 0, phase = \<lambda>_. Idle\<rparr>) s' \<and> treachable s' \<and> mutex_test_done_count s' < 2"
  using mutextest_may_hang [of "\<lparr>sys = holder_system, mutex_test_counter = 0, mutex_test_done_count = 0,
       iter = \<lambda>_. 0, tmp = \<lambda>_. 0, phase = \<lambda>_. Idle\<rparr>"] by blast

end
