(* ===== verification/Shell.thy ===== *)
theory Shell
  imports Desktop Editor Snake Syscall Kronk Mutex_Test
begin

text \<open>
  \<open>kernel/shell.c\<close> and \<open>kernel/banner.c\<close>: the command shell, which composes the other components.
  Everything that reaches its task from outside is an argument: the interrupts while it reads keys,
  what the other tasks do each time it sleeps until one of them is done, the events of the desktop,
  and the bytes that a fresh block of the heap happens to hold. \<open>None\<close> is a write outside of the
  screen, a command that waits for ever, or a halt.
\<close>

section \<open>State and environment\<close>

record ('g, 'f, 'm) shell = "('g, 'f, 'm) desk" +
  mutex_test :: mtest

record ('g, 'f, 'm) shell_env = "('g, 'f, 'm) desk_env" +
  mutex_task_addr :: addr
  cpuid_of :: "u32 \<Rightarrow> u32 \<times> u32 \<times> u32 \<times> u32"

record 's world =
  key_events :: "event list"
  other_runs :: "('s \<Rightarrow> 's) list"
  gui_events :: "'s desk_event list"
  fresh_bytes :: "nat \<Rightarrow> u8"

definition SHELL_LINE_MAX :: nat where "SHELL_LINE_MAX = 128"

definition NL :: "char list" where "NL = [CHR 0x0A]"

definition print_dec_vga :: "u32 \<Rightarrow> 'a console_scheme \<Rightarrow> 'a console_scheme option" where
  "print_dec_vga n = vga_write (dec_bytes n)"

text \<open>Text in pieces, one \<open>vga_write\<close> each.\<close>

primrec write_all :: "char list list \<Rightarrow> 'a console_scheme \<Rightarrow> 'a console_scheme option" where
  "write_all [] s = Some s"
| "write_all (t # ts) s = Option.bind (write_str t s) (write_all ts)"

text \<open>A block of the heap of the given size after the bytes of a file have been read to its start.\<close>

definition file_block :: "(nat \<Rightarrow> u8) \<Rightarrow> u32 \<Rightarrow> u8 list \<Rightarrow> u8 list" where
  "file_block junk len bytes = overwrite bytes (map junk [0..<unat len])"

section \<open>The banner\<close>

text \<open>The percent signs stand for backslashes.\<close>

definition banner_lines :: "char list list" where
  "banner_lines = map (map (\<lambda>c. if c = CHR ''%'' then CHR 0x5C else c))
     ['' _  _____  ___  _  _ _  _____ ___       ___  ___ '',
      ''| |/ / _ %/ _ %| %| | |/ / __|   % ___ / _ %/ __|'',
      ''| ' <|   / (_) | .` | ' <| _|| |) |___| (_) %__ %'',
      ''|_|%_%_|_%%___/|_|%_|_|%_%___|___/     %___/|___/'']"

definition banner_cpu :: "(u32 \<Rightarrow> u32 \<times> u32 \<times> u32 \<times> u32) \<Rightarrow> u8 list" where
  "banner_cpu cpuid =
     (let vendor = takeWhile (\<lambda>b. b \<noteq> 0) (cpu_get_vendor cpuid) in
      case cpu_get_brand cpuid of
        Some brand \<Rightarrow> takeWhile (\<lambda>b. b \<noteq> 0) (dropWhile (\<lambda>b. b = 32) brand)
      | None \<Rightarrow> vendor)"

definition banner_print :: "(u32 \<Rightarrow> u32 \<times> u32 \<times> u32 \<times> u32) \<Rightarrow> 'a console_scheme \<Rightarrow> 'a console_scheme option" where
  "banner_print cpuid s = do {
     s \<leftarrow> write_all (concat (map (\<lambda>l. [l, NL]) banner_lines)) s;
     s \<leftarrow> write_str NL s;
     s \<leftarrow> write_str ''  CPU: '' s;
     s \<leftarrow> vga_write (banner_cpu cpuid) s;
     s \<leftarrow> write_all [NL, ''  RAM:  ''] s;
     s \<leftarrow> print_dec_vga (pmm_detected_ram_kib s div 1024) s;
     s \<leftarrow> write_str '' MiB detected ('' s;
     s \<leftarrow> print_dec_vga (pmm_free_frame_count s * 4) s;
     s \<leftarrow> write_all ['' KiB currently free)'' @ NL, ''  Vendor ID: ''] s;
     s \<leftarrow> vga_write (takeWhile (\<lambda>b. b \<noteq> 0) (cpu_get_vendor cpuid)) s;
     write_str (NL @ NL) s }"

section \<open>Commands on files\<close>

definition help_lines :: "char list list" where
  "help_lines = map (\<lambda>l. l @ NL)
     [''Available commands:'',
      ''  help            show this list'',
      ''  ls              list files on disk'',
      ''  cat <file>      print a file's contents'',
      ''  rm <file>       delete a file'',
      ''  edit <file>     create or edit a text file (line editor)'',
      ''  run <file>      load and run an ELF program from disk (ring 3)'',
      ''  echo <text>     print text back'',
      ''  meminfo         show free physical memory'',
      ''  uptime          show timer ticks since boot'',
      ''  clear           clear the screen'',
      ''  snake           play Snake (w/a/s/d to move, q to quit)'',
      ''  mutextest       verify mutex correctness (2 tasks, shared counter)'',
      ''  kronk <file>    write a program with 'edit', run it with no compiler'',
      ''  desktop         graphical desktop: open terminals/editors, drag, close (X)'']"

definition cmd_help :: "'a console_scheme \<Rightarrow> 'a console_scheme option" where
  "cmd_help = write_all help_lines"

text \<open>The callback for one file, and the calls of it; printing and reading the disk do not meet.\<close>

definition ls_callback :: "u8 list \<Rightarrow> u32 \<Rightarrow> 'a console_scheme \<Rightarrow> 'a console_scheme option" where
  "ls_callback name n s = do {
     s \<leftarrow> write_str ''  '' s;
     s \<leftarrow> vga_write name s;
     s \<leftarrow> vga_write (replicate (14 - length name) SPACE) s;
     s \<leftarrow> print_dec_vga n s;
     write_str ('' bytes'' @ NL) s }"

primrec ls_files :: "(u8 list \<times> u32) list \<Rightarrow> 'a console_scheme \<Rightarrow> 'a console_scheme option" where
  "ls_files [] s = Some s"
| "ls_files (f # fs) s = Option.bind (ls_callback (fst f) (snd f) s) (ls_files fs)"

definition cmd_ls :: "'f ports \<Rightarrow> ('g, 'f, 'm, 'x) machine_scheme \<Rightarrow> ('g, 'f, 'm, 'x) machine_scheme option" where
  "cmd_ls P s = do {
     s \<leftarrow> write_str (''Files on disk:'' @ NL) s;
     let (files, s) = list_root P s;
     ls_files files s }"

definition cmd_cat :: "'f ports \<Rightarrow> (nat \<Rightarrow> u8) \<Rightarrow> char list \<Rightarrow> ('g, 'f, 'm, 'x) machine_scheme
    \<Rightarrow> ('g, 'f, 'm, 'x) machine_scheme option" where
  "cmd_cat P junk filename s =
     (if filename = [] then write_str (''usage: cat <file>'' @ NL) s
      else case find_file P filename s of
        (None, s) \<Rightarrow> write_all [''cat: file not found: '', filename, NL] s
      | (Some f, s) \<Rightarrow> do {
          (a, s) \<leftarrow> kmalloc (file_size f + 1) s;
          (bytes, s) \<leftarrow> read_file P f (file_size f) s;
          case bytes of
            None \<Rightarrow> do { s \<leftarrow> write_str (''cat: read failed'' @ NL) s; kfree a s }
          | Some bytes \<Rightarrow> do {
              let buf = file_block junk (file_size f) bytes;
              s \<leftarrow> vga_write (takeWhile (\<lambda>b. b \<noteq> 0) buf) s;
              s \<leftarrow> (if file_size f = 0 \<or> buf ! (unat (file_size f) - 1) \<noteq> 10 then write_str NL s else Some s);
              kfree a s } })"

definition cmd_rm :: "'f ports \<Rightarrow> char list \<Rightarrow> ('g, 'f, 'm, 'x) machine_scheme
    \<Rightarrow> ('g, 'f, 'm, 'x) machine_scheme option" where
  "cmd_rm P filename s =
     (if filename = [] then write_str (''usage: rm <file>'' @ NL) s
      else do {
        (deleted, s) \<leftarrow> delete_file P filename s;
        if deleted then write_all [''Deleted '', filename, ''.'' @ NL] s
        else write_all [''rm: file not found: '', filename, NL] s })"

section \<open>Running a program\<close>

text \<open>Waiting for a task: each time the shell's task is chosen again it looks at the state once more.\<close>

fun wait_child :: "('a sched_scheme \<Rightarrow> 'a sched_scheme) list \<Rightarrow> addr \<Rightarrow> 'a sched_scheme
    \<Rightarrow> (int \<times> ('a sched_scheme \<Rightarrow> 'a sched_scheme) list \<times> 'a sched_scheme) option" where
  "wait_child fs child s =
     (case task_wait_specific child s of
        None \<Rightarrow> None
      | Some (Inr code, s) \<Rightarrow> Some (code, fs, s)
      | Some (Inl _, s) \<Rightarrow> (case fs of [] \<Rightarrow> None | f # fs \<Rightarrow> wait_child fs child (f s)))"

declare wait_child.simps [simp del]

text \<open>The part up to the new task: \<open>Inl\<close> is the message of a failure.\<close>

definition load_program :: "'f ports \<Rightarrow> char list \<Rightarrow> ('g, 'f, 'm, 'x) machine_scheme
    \<Rightarrow> ((char list list + addr \<times> u32) \<times> ('g, 'f, 'm, 'x) machine_scheme) option" where
  "load_program P filename s =
     (case find_file P filename s of
        (None, s) \<Rightarrow> Some (Inl [''run: file not found: '', filename, NL], s)
      | (Some f, s) \<Rightarrow> do {
          (elf_buf, s) \<leftarrow> kmalloc (file_size f) s;
          (bytes, s) \<leftarrow> read_file P f (file_size f) s;
          case bytes of
            None \<Rightarrow> Some (Inl [''run: read failed'' @ NL], s)
          | Some bytes \<Rightarrow>
              let s = s\<lparr>mem := store_bytes elf_buf bytes (mem s)\<rparr>;
                  (user_dir, s) = paging_clone_kernel_directory s
              in (case elf_load elf_buf user_dir s of
                    (None, s) \<Rightarrow> Some (Inl [''run: not a valid ELF32 executable'' @ NL], s)
                  | (Some start, s) \<Rightarrow>
                      let (stack_phys, s) = pmm_alloc_frame s;
                          (_, s) = paging_map_user_page user_dir stack_phys USER_STACK_VADDR (PAGE_RW OR PAGE_USER) s
                      in Some (Inr (user_dir, start), s)) })"

definition cmd_run :: "('g, 'f, 'm, 'y) env_scheme \<Rightarrow> (('g, 'f, 'm, 'x) machine_scheme \<Rightarrow> ('g, 'f, 'm, 'x) machine_scheme) list
    \<Rightarrow> char list \<Rightarrow> ('g, 'f, 'm, 'x) machine_scheme
    \<Rightarrow> ((('g, 'f, 'm, 'x) machine_scheme \<Rightarrow> ('g, 'f, 'm, 'x) machine_scheme) list \<times> ('g, 'f, 'm, 'x) machine_scheme) option" where
  "cmd_run E fs filename s =
     (if filename = [] then map_option (Pair fs) (write_str (''usage: run <file>'' @ NL) s)
      else do {
        (r, s) \<leftarrow> load_program (disk_ports E) filename s;
        case r of
          Inl msg \<Rightarrow> map_option (Pair fs) (write_all msg s)
        | Inr (user_dir, start) \<Rightarrow> do {
            let frames_before = pmm_free_frame_count s;
            (child, s) \<leftarrow> task_create_user (trampoline_addr E) user_dir start (USER_STACK_VADDR + PAGE_SIZE) s;
            s \<leftarrow> write_str (''Running... (waiting for it to finish)'' @ NL) s;
            (exit_code, fs, s) \<leftarrow> wait_child fs child s;
            let frames_after = pmm_free_frame_count s;
            s \<leftarrow> write_str ''[memcheck] free frames before='' s;
            s \<leftarrow> print_dec_vga frames_before s;
            s \<leftarrow> write_str '' after='' s;
            s \<leftarrow> print_dec_vga frames_after s;
            s \<leftarrow> write_all [NL, ''Process finished with exit code ''] s;
            s \<leftarrow> print_dec_vga (of_int exit_code) s;
            s \<leftarrow> write_str (''.'' @ NL) s;
            Some (fs, s) } })"

section \<open>The mutex test\<close>

fun wait_done :: "(('g, 'f, 'm, 'x) shell_scheme \<Rightarrow> ('g, 'f, 'm, 'x) shell_scheme) list \<Rightarrow> ('g, 'f, 'm, 'x) shell_scheme
    \<Rightarrow> ((('g, 'f, 'm, 'x) shell_scheme \<Rightarrow> ('g, 'f, 'm, 'x) shell_scheme) list \<times> ('g, 'f, 'm, 'x) shell_scheme) option" where
  "wait_done fs s =
     (if mutex_test_done_count (mutex_test s) < 2
      then case fs of [] \<Rightarrow> None | f # fs \<Rightarrow> wait_done fs (f s)
      else Some (fs, s))"

declare wait_done.simps [simp del]

definition cmd_mutextest :: "('g, 'f, 'm, 'y) shell_env_scheme \<Rightarrow> (('g, 'f, 'm, 'x) shell_scheme \<Rightarrow> ('g, 'f, 'm, 'x) shell_scheme) list
    \<Rightarrow> ('g, 'f, 'm, 'x) shell_scheme
    \<Rightarrow> ((('g, 'f, 'm, 'x) shell_scheme \<Rightarrow> ('g, 'f, 'm, 'x) shell_scheme) list \<times> ('g, 'f, 'm, 'x) shell_scheme) option" where
  "cmd_mutextest E fs s = do {
     let s = s\<lparr>mutex_test := mutextest_start (mutex_test s)\<rparr>;
     s \<leftarrow> write_str ''Starting mutex test: 2 tasks x '' s;
     s \<leftarrow> print_dec_vga (of_nat MUTEX_TEST_ITERS) s;
     s \<leftarrow> write_str ('' increments each...'' @ NL) s;
     (_, s) \<leftarrow> task_create (trampoline_addr E) (mutex_task_addr E) s;
     (_, s) \<leftarrow> task_create (trampoline_addr E) (mutex_task_addr E) s;
     (fs, s) \<leftarrow> wait_done fs s;
     let expected = int MUTEX_TEST_ITERS * 2;
     s \<leftarrow> write_str ''Expected: '' s;
     s \<leftarrow> print_dec_vga (of_int expected) s;
     s \<leftarrow> write_str ''  Actual: '' s;
     s \<leftarrow> print_dec_vga (of_int (mutex_test_counter (mutex_test s))) s;
     s \<leftarrow> write_str (if mutex_test_counter (mutex_test s) = expected
          then ''  -> PASS (no lost updates)'' @ NL
          else ''  -> FAIL (lost updates -- mutual exclusion broken!)'' @ NL) s;
     Some (fs, s) }"

section \<open>KRONK on the console\<close>

primrec skip_chars :: "nat \<Rightarrow> event list \<Rightarrow> 'a kbd_scheme \<Rightarrow> (event list \<times> 'a kbd_scheme) option" where
  "skip_chars 0 evs s = Some (evs, s)"
| "skip_chars (Suc n) evs s = do { (c, evs, s) \<leftarrow> wait_char evs s; skip_chars n evs s }"

text \<open>The interpreter of \<open>Kronk\<close> works on the text it prints and the characters it reads; here the
  characters are taken from the keyboard and the text goes to the console. A trap halts the machine.\<close>

definition run_kronk :: "'f ports \<Rightarrow> (nat \<Rightarrow> u8) \<Rightarrow> char list \<Rightarrow> event list \<Rightarrow> ('g, 'f, 'm, 'x) machine_scheme
    \<Rightarrow> (event list \<times> ('g, 'f, 'm, 'x) machine_scheme) option" where
  "run_kronk P junk filename evs s = do {
     (text, s) \<leftarrow> (case find_file P filename s of
         (None, s) \<Rightarrow> Some (None, s)
       | (Some f, s) \<Rightarrow> do {
           (a, s) \<leftarrow> kmalloc (file_size f + 1) s;
           (bytes, s) \<leftarrow> read_file P f (file_size f) s;
           case bytes of
             None \<Rightarrow> Some (Some None, s)
           | Some bytes \<Rightarrow> do {
               s \<leftarrow> kfree a s;
               Some (Some (Some (map (\<lambda>b. char_of (unat b)) (file_block junk (file_size f) bytes))), s) } });
     r \<leftarrow> kronk_run filename text (pending evs s);
     case r of
       Trap \<Rightarrow> None
     | Val k \<Rightarrow> do {
         (evs, s) \<leftarrow> skip_chars (length (pending evs s) - length (keys k)) evs s;
         s \<leftarrow> write_str (screen k) s;
         Some (evs, s) } }"

section \<open>The shell\<close>

definition dispatch :: "('g, 'f, 'm, 'y) shell_env_scheme \<Rightarrow> char list \<Rightarrow> ('g, 'f, 'm, 'x) shell_scheme world
    \<Rightarrow> ('g, 'f, 'm, 'x) shell_scheme \<Rightarrow> (('g, 'f, 'm, 'x) shell_scheme world \<times> ('g, 'f, 'm, 'x) shell_scheme) option" where
  "dispatch E line w s =
     (if line = [] then Some (w, s)
      else let (cmd, arg) = split_command line; P = disk_ports E;
               keys_used = (\<lambda>(evs, s). (w\<lparr>key_events := evs\<rparr>, s)); runs_used = (\<lambda>(fs, s). (w\<lparr>other_runs := fs\<rparr>, s)) in
        if str_eq cmd ''help'' then map_option (Pair w) (cmd_help s)
        else if str_eq cmd ''ls'' then map_option (Pair w) (cmd_ls P s)
        else if str_eq cmd ''cat'' then map_option (Pair w) (cmd_cat P (fresh_bytes w) arg s)
        else if str_eq cmd ''rm'' then map_option (Pair w) (cmd_rm P arg s)
        else if str_eq cmd ''edit'' then
          (if arg = [] then map_option (Pair w) (write_str (''usage: edit <file>'' @ NL) s)
           else map_option keys_used (editor_run P arg (map (fresh_bytes w) [0..<EDITOR_BUF_SIZE]) (key_events w) s))
        else if str_eq cmd ''run'' then map_option runs_used (cmd_run E (other_runs w) arg s)
        else if str_eq cmd ''echo'' then map_option (Pair w) (write_all [arg, NL] s)
        else if str_eq cmd ''clear'' then map_option (Pair w) (vga_clear s)
        else if str_eq cmd ''snake'' then map_option keys_used (snake_run (key_events w) s)
        else if str_eq cmd ''desktop'' then
          map_option (\<lambda>(evs, s). (w\<lparr>gui_events := evs\<rparr>, s)) (desktop_run E (gui_events w) s)
        else if str_eq cmd ''mutextest'' then map_option runs_used (cmd_mutextest E (other_runs w) s)
        else if str_eq cmd ''kronk'' then map_option keys_used (run_kronk P (fresh_bytes w) arg (key_events w) s)
        else if str_eq cmd ''meminfo'' then do {
          s \<leftarrow> write_str ''Free physical frames: '' s;
          s \<leftarrow> print_dec_vga (pmm_free_frame_count s) s;
          s \<leftarrow> write_str '' ('' s;
          s \<leftarrow> print_dec_vga (pmm_free_frame_count s * 4) s;
          s \<leftarrow> write_str ('' KiB)'' @ NL) s;
          Some (w, s) }
        else if str_eq cmd ''uptime'' then do {
          s \<leftarrow> write_str ''Timer ticks since boot: '' s;
          s \<leftarrow> print_dec_vga (timer_ticks s) s;
          s \<leftarrow> write_str NL s;
          Some (w, s) }
        else map_option (Pair w) (write_all [''Unknown command: '', cmd, ''  (try 'help')'' @ NL] s))"

text \<open>One round of the loop of \<open>shell_run\<close>, and the shell up to and including the given number of
  rounds: the loop itself has no end.\<close>

definition shell_round :: "('g, 'f, 'm, 'y) shell_env_scheme
    \<Rightarrow> ('g, 'f, 'm, 'x) shell_scheme world \<times> ('g, 'f, 'm, 'x) shell_scheme
    \<Rightarrow> (('g, 'f, 'm, 'x) shell_scheme world \<times> ('g, 'f, 'm, 'x) shell_scheme) option" where
  "shell_round E = (\<lambda>(w, s). do {
     s \<leftarrow> write_str ''kronk> '' s;
     (line, evs, s) \<leftarrow> read_line SHELL_LINE_MAX [] (key_events w) s;
     dispatch E line (w\<lparr>key_events := evs\<rparr>) s })"

primrec shell_rounds :: "nat \<Rightarrow> ('g, 'f, 'm, 'y) shell_env_scheme
    \<Rightarrow> ('g, 'f, 'm, 'x) shell_scheme world \<times> ('g, 'f, 'm, 'x) shell_scheme
    \<Rightarrow> (('g, 'f, 'm, 'x) shell_scheme world \<times> ('g, 'f, 'm, 'x) shell_scheme) option" where
  "shell_rounds 0 E ws = Some ws"
| "shell_rounds (Suc n) E ws = Option.bind (shell_round E ws) (shell_rounds n E)"

definition shell_run :: "nat \<Rightarrow> ('g, 'f, 'm, 'y) shell_env_scheme
    \<Rightarrow> ('g, 'f, 'm, 'x) shell_scheme world \<times> ('g, 'f, 'm, 'x) shell_scheme
    \<Rightarrow> (('g, 'f, 'm, 'x) shell_scheme world \<times> ('g, 'f, 'm, 'x) shell_scheme) option" where
  "shell_run n E = (\<lambda>(w, s). do {
     s \<leftarrow> banner_print (cpuid_of E) s;
     s \<leftarrow> write_str (''Type 'help' for a list of commands.'' @ NL @ NL) s;
     shell_rounds n E (w, s) })"

text \<open>A task that the desktop starts for a window: it goes on with the shell, or with the editor on the
  window's own file and ends.\<close>

definition terminal_entry :: "nat \<Rightarrow> ('g, 'f, 'm, 'y) shell_env_scheme \<Rightarrow> int
    \<Rightarrow> ('g, 'f, 'm, 'x) shell_scheme world \<times> ('g, 'f, 'm, 'x) shell_scheme
    \<Rightarrow> (('g, 'f, 'm, 'x) shell_scheme world \<times> ('g, 'f, 'm, 'x) shell_scheme) option" where
  "terminal_entry n E slot = (\<lambda>(w, s). Option.bind (hosted_entry E slot s) (\<lambda>s. shell_run n E (w, s)))"

definition editor_entry :: "('g, 'f, 'm, 'y) shell_env_scheme \<Rightarrow> int
    \<Rightarrow> ('g, 'f, 'm, 'x) shell_scheme world \<times> ('g, 'f, 'm, 'x) shell_scheme
    \<Rightarrow> (exit_result \<times> ('g, 'f, 'm, 'x) shell_scheme) option" where
  "editor_entry E slot = (\<lambda>(w, s). do {
     s \<leftarrow> hosted_entry E slot s;
     (evs, s) \<leftarrow> editor_run (disk_ports E) (scratch_names ! nat slot) (map (fresh_bytes w) [0..<EDITOR_BUF_SIZE]) (key_events w) s;
     task_exit_current 0 s })"

end
