(* ===== verification/Shell_Session.thy ===== *)
theory Shell_Session
  imports Shell
begin

text \<open>
  Sessions with the shell of \<open>Shell\<close>: the commands that only write to the console return whatever the
  state of the screen, take from the keyboard exactly their line, and leave the rest of the machine
  alone, so that the shell is ready for the next line.
\<close>

section \<open>Operations that only write\<close>

definition settled :: "'a console_scheme \<Rightarrow> 'a console_scheme \<Rightarrow> bool" where
  "settled s s' \<longleftrightarrow> input_ok s' \<and> console_ok s' \<and> (\<forall>evs. pending evs s' = pending evs s) \<and> but_io s' = but_io s"

definition writes :: "('a console_scheme \<Rightarrow> 'a console_scheme option) \<Rightarrow> bool" where
  "writes f \<longleftrightarrow> (\<forall>s. input_ok s \<and> console_ok s \<longrightarrow> (\<exists>s'. f s = Some s' \<and> settled s s'))"

named_theorems writes

lemma writes_vga [writes]: "writes (vga_write cs)"
proof -
  have "\<exists>s'. vga_write cs s = Some s' \<and> settled s s'" if "input_ok s" "console_ok s" for s :: "'a console_scheme"
    using write_ok [OF that, of cs] unfolding settled_def by metis
  then show ?thesis by (simp add: writes_def)
qed

lemma writes_str [writes]: "writes (write_str cs)"
  unfolding write_str_def by (rule writes_vga)

lemma writes_dec [writes]: "writes (print_dec_vga n)"
  unfolding print_dec_vga_def by (rule writes_vga)

lemma writes_bind [writes]: "writes f \<Longrightarrow> writes g \<Longrightarrow> writes (\<lambda>s. Option.bind (f s) g)"
  unfolding writes_def settled_def by (metis bind.bind_lunit)

lemma writes_state: "(\<And>x. writes (f x)) \<Longrightarrow> writes (\<lambda>s. f (h s) s)"
  by (simp add: writes_def)

lemma writes_all [writes]: "writes (write_all ts)"
proof (induction ts)
  case Nil
  then show ?case by (simp add: writes_def settled_def)
next
  case (Cons t ts)
  then show ?case using writes_bind [OF writes_str Cons] by simp
qed

lemma vga_clear_ok:
  assumes "console_ok s"
  shows "\<exists>s'. vga_clear s = Some s' \<and> console_ok s'"
proof (cases "task_current_vga_buf s = 0")
  case True
  then show ?thesis using vga_clear_real [OF assms] by blast
next
  case False
  then show ?thesis
    using assms
    by (auto simp: vga_clear_def console_ok_def fill_cells_def grid_ok_def Let_def set_cells_def set_redirect_cursor_def
        redirect_cursor_def task_current_vga_buf_def task_current_vga_cols_def task_current_vga_rows_def
        task_current_vga_mark_dirty_def upd_task_def nat_le_iff simp flip: nat_mult_distrib)
qed

lemma writes_clear [writes]: "writes vga_clear"
proof -
  have "\<exists>s'. vga_clear s = Some s' \<and> settled s s'" if a: "input_ok s" "console_ok s" for s :: "'a console_scheme"
  proof -
    obtain s' where s': "vga_clear s = Some s'" "console_ok s'" using vga_clear_ok [OF a(2)] by blast
    have "but_screen s' = but_screen s" by (rule vga_clear_frame [OF s'(1)])
    then show ?thesis using s' a(1) view_pending view_input_ok but_screen_view but_io_screen unfolding settled_def by metis
  qed
  then show ?thesis by (simp add: writes_def)
qed

lemma writes_banner: "writes (banner_print cpuid)"
  unfolding banner_print_def
  by (intro writes writes_state [where f = print_dec_vga])

section \<open>Sessions\<close>

text \<open>The lines after which the shell only writes: the commands without an effect, unknown ones, empty
  lines, and the file commands without the name of a file.\<close>

definition plain_command :: "char list \<Rightarrow> bool" where
  "plain_command line \<longleftrightarrow> (let (cmd, arg) = split_command line in
     cmd \<notin> {''ls'', ''snake'', ''desktop'', ''mutextest'', ''kronk''} \<and>
     (cmd \<in> {''cat'', ''rm'', ''edit'', ''run''} \<longrightarrow> arg = []))"

text \<open>What is left of the characters typed after the given number of lines, all of them plain.\<close>

primrec plain_session :: "nat \<Rightarrow> char list \<Rightarrow> char list option" where
  "plain_session 0 cs = Some cs"
| "plain_session (Suc n) cs =
     (case line_of SHELL_LINE_MAX [] cs of
        None \<Rightarrow> None
      | Some (line, rest) \<Rightarrow> if plain_command line then plain_session n rest else None)"

lemma writes_pair: "writes f \<Longrightarrow> input_ok s \<Longrightarrow> console_ok s \<Longrightarrow> \<exists>s'. map_option (Pair w) (f s) = Some (w, s') \<and> settled s s'"
  unfolding writes_def by fastforce

lemma dispatch_plain:
  assumes "plain_command line" "input_ok s" "console_ok s"
  shows "\<exists>s'. dispatch E line w s = Some (w, s') \<and> settled s s'"
proof (cases "line = []")
  case True
  then show ?thesis using assms by (simp add: dispatch_def settled_def)
next
  case False
  obtain cmd arg where c: "split_command line = (cmd, arg)" by fastforce
  have plain: "cmd \<notin> {''ls'', ''snake'', ''desktop'', ''mutextest'', ''kronk''}" "cmd \<in> {''cat'', ''rm'', ''edit'', ''run''} \<Longrightarrow> arg = []"
    using assms(1) c by (auto simp: plain_command_def)
  note rules = writes_pair [OF _ assms(2,3)]
  have pure: "\<exists>s'. map_option (Pair w) (write_str t s) = Some (w, s') \<and> settled s s'"
    "\<exists>s'. map_option (Pair w) (write_all ts s) = Some (w, s') \<and> settled s s'"
    "\<exists>s'. map_option (Pair w) (cmd_help s) = Some (w, s') \<and> settled s s'"
    "\<exists>s'. map_option (Pair w) (vga_clear s) = Some (w, s') \<and> settled s s'" for t ts
    unfolding cmd_help_def by (intro rules writes)+
  have mem: "\<exists>s'. map_option (Pair w) (do { s \<leftarrow> write_str a s; s \<leftarrow> print_dec_vga (pmm_free_frame_count s) s; s \<leftarrow> write_str b s;
      s \<leftarrow> print_dec_vga (pmm_free_frame_count s * 4) s; write_str c s }) = Some (w, s') \<and> settled s s'" for a b c
    by (intro rules writes writes_state [where f = print_dec_vga])
  have time: "\<exists>s'. map_option (Pair w) (do { s \<leftarrow> write_str a s; s \<leftarrow> print_dec_vga (timer_ticks s) s; write_str b s })
      = Some (w, s') \<and> settled s s'" for a b
    by (intro rules writes writes_state [where f = print_dec_vga])
  consider (usage) "cmd = ''help''" | (files) "cmd \<in> {''cat'', ''rm'', ''edit'', ''run''}" | (echo) "cmd = ''echo''"
    | (clear) "cmd = ''clear''" | (meminfo) "cmd = ''meminfo''" | (uptime) "cmd = ''uptime''"
    | (other) "cmd \<noteq> ''help''" "cmd \<notin> {''cat'', ''rm'', ''edit'', ''run''}" "cmd \<noteq> ''echo''" "cmd \<noteq> ''clear''"
        "cmd \<noteq> ''meminfo''" "cmd \<noteq> ''uptime''" by argo
  then show ?thesis
  proof cases
    case usage
    then show ?thesis using pure(3) by (simp add: dispatch_def False c)
  next
    case files
    have arg: "arg = []" by (rule plain(2) [OF files])
    from files consider (cat) "cmd = ''cat''" | (rm) "cmd = ''rm''" | (edit) "cmd = ''edit''" | (run) "cmd = ''run''" by blast
    then show ?thesis
    proof cases
      case cat
      then show ?thesis using pure(1) by (simp add: dispatch_def False c arg cmd_cat_def)
    next
      case rm
      then show ?thesis using pure(1) by (simp add: dispatch_def False c arg cmd_rm_def)
    next
      case edit
      then show ?thesis using pure(1) by (simp add: dispatch_def False c arg)
    next
      case run
      have "dispatch E line w s = map_option (Pair w) (write_str (''usage: run <file>'' @ NL) s)"
        using run by (cases "write_str (''usage: run <file>'' @ NL) s") (simp_all add: dispatch_def False c arg cmd_run_def)
      then show ?thesis using pure(1) by simp
    qed
  next
    case echo
    then show ?thesis using pure(2) [of "[arg, NL]"] by (simp add: dispatch_def False c)
  next
    case clear
    then show ?thesis using pure(4) by (simp add: dispatch_def False c)
  next
    case meminfo
    then show ?thesis using mem by (simp add: dispatch_def False c map_option_bind o_def map_conv_bind_option)
  next
    case uptime
    then show ?thesis using time by (simp add: dispatch_def False c map_option_bind o_def map_conv_bind_option)
  next
    case other
    then show ?thesis
      using plain(1) pure(2) [of "[''Unknown command: '', cmd, ''  (try 'help')'' @ NL]"] by (simp add: dispatch_def False c)
  qed
qed

lemma round_plain:
  assumes ok: "input_ok s" "console_ok s"
    and line: "line_of SHELL_LINE_MAX [] (pending (key_events w) s) = Some (line, rest)" "plain_command line"
  shows "\<exists>evs' s'. shell_round E (w, s) = Some (w\<lparr>key_events := evs'\<rparr>, s') \<and> input_ok s' \<and> console_ok s' \<and>
    pending evs' s' = rest \<and> but_io s' = but_io s"
proof -
  obtain s1 where s1: "write_str ''kronk> '' s = Some s1" "settled s s1"
    using writes_str [of "''kronk> ''"] ok unfolding writes_def by blast
  then obtain evs2 s2 where s2: "read_line SHELL_LINE_MAX [] (key_events w) s1 = Some (line, evs2, s2)" "input_ok s2"
    "console_ok s2" "pending evs2 s2 = rest" "but_io s2 = but_io s"
    using read_line_spec [of s1 SHELL_LINE_MAX "[]" "key_events w"] line(1) by (auto simp: settled_def)
  obtain s3 where "dispatch E line (w\<lparr>key_events := evs2\<rparr>) s2 = Some (w\<lparr>key_events := evs2\<rparr>, s3)" "settled s2 s3"
    using dispatch_plain [OF line(2) s2(2,3)] by blast
  then show ?thesis
    using s1(1) s2 by (intro exI [of _ evs2] exI [of _ s3]) (simp add: shell_round_def settled_def)
qed

lemma rounds_plain:
  assumes "input_ok s" "console_ok s" "plain_session n (pending (key_events w) s) = Some rest"
  shows "\<exists>evs' s'. shell_rounds n E (w, s) = Some (w\<lparr>key_events := evs'\<rparr>, s') \<and> input_ok s' \<and> console_ok s' \<and>
    pending evs' s' = rest \<and> but_io s' = but_io s"
  using assms
proof (induction n arbitrary: w s)
  case 0
  then show ?case by (intro exI [of _ "key_events w"] exI [of _ s]) simp
next
  case (Suc n)
  obtain line rest1 where l: "line_of SHELL_LINE_MAX [] (pending (key_events w) s) = Some (line, rest1)" "plain_command line"
    "plain_session n rest1 = Some rest"
    using Suc.prems(3) by (auto split: option.splits if_splits)
  obtain evs1 s1 where r: "shell_round E (w, s) = Some (w\<lparr>key_events := evs1\<rparr>, s1)" "input_ok s1" "console_ok s1"
    "pending evs1 s1 = rest1" "but_io s1 = but_io s"
    using round_plain [OF Suc.prems(1,2) l(1,2)] by blast
  from Suc.IH [of s1 "w\<lparr>key_events := evs1\<rparr>"] r l(3) show ?case by auto
qed

text \<open>A session with the shell. The shell prints its banner and then, for every line typed that asks
  for no more than output, reads exactly that line (with its backspaces and cut to 127 characters),
  answers it and is ready for the next one; it never gets stuck, never writes outside of the screen,
  and changes nothing of the machine but the screen and the keyboard's buffers.\<close>

theorem shell_session:
  assumes "input_ok s" "console_ok s" "plain_session n (pending (key_events w) s) = Some rest"
  shows "\<exists>evs' s'. shell_run n E (w, s) = Some (w\<lparr>key_events := evs'\<rparr>, s') \<and> input_ok s' \<and> console_ok s' \<and>
    pending evs' s' = rest \<and> but_io s' = but_io s"
proof -
  have "writes (\<lambda>s. Option.bind (banner_print (cpuid_of E) s) (write_str (''Type 'help' for a list of commands.'' @ NL @ NL)))"
    by (intro writes writes_banner)
  then obtain s1 where s1: "Option.bind (banner_print (cpuid_of E) s) (write_str (''Type 'help' for a list of commands.'' @ NL @ NL)) = Some s1"
    "settled s s1" using assms(1,2) unfolding writes_def by blast
  obtain evs' s' where "shell_rounds n E (w, s1) = Some (w\<lparr>key_events := evs'\<rparr>, s')" "input_ok s'" "console_ok s'"
    "pending evs' s' = rest" "but_io s' = but_io s1"
    using rounds_plain [of s1 n w rest E] s1(2) assms(3) by (auto simp: settled_def)
  moreover have "shell_run n E (w, s) = shell_rounds n E (w, s1)"
    using s1(1) by (auto simp: shell_run_def bind_eq_Some_conv)
  ultimately show ?thesis using s1(2) by (auto simp: settled_def)
qed

text \<open>Two lines, the first with a mistake that is rubbed out: \<open>echo hi\<close> and \<open>help\<close>.\<close>

definition demo_shell :: "(unit, drive, unit) shell" where
  "demo_shell = desk.extend (machine.extend demo_machine (desk.fields [] [] 0 (- 1) (- 1) 0 0 0 False))
     (shell.fields \<lparr>sys = holder_system, mutex_test_counter = 0, mutex_test_done_count = 0, iter = \<lambda>_. 0, tmp = \<lambda>_. 0,
        phase = \<lambda>_. Idle\<rparr>)"

lemma demo_shell_views: "input_view demo_shell = input_view demo_machine" "screen_view demo_shell = screen_view demo_machine"
  by (simp_all add: input_view_def screen_view_def demo_shell_def desk.defs shell.defs machine.defs demo_machine_defs
      task_current_vga_buf_def task_current_vga_cols_def task_current_vga_rows_def redirect_cursor_def)

definition demo_typing :: "event list" where
  "demo_typing = map Key [0x12, 0x2E, 0x24, 0x0E, 0x23, 0x18, 0x39, 0x23, 0x17, 0x1C, 0x23, 0x12, 0x26, 0x19, 0x1C]"

lemma demo_typing_text: "typed False (scancodes demo_typing) =
    ''ecj'' @ [CHR 0x08] @ ''ho hi'' @ NL @ ''help'' @ NL"
  by (simp add: demo_typing_def scancode_ascii_def NL_def Let_def)

lemma demo_typing_plain: "plain_session 2 (''ecj'' @ [CHR 0x08] @ ''ho hi'' @ NL @ ''help'' @ NL) = Some []"
  by (simp add: numeral_2_eq_2 NL_def SHELL_LINE_MAX_def plain_command_def split_command_def)

definition demo_world :: "(unit, drive, unit) shell world" where
  "demo_world = \<lparr>key_events = demo_typing, other_runs = [], gui_events = [], fresh_bytes = \<lambda>_. 0\<rparr>"

theorem shell_session_witness:
  "\<forall>E :: (unit, drive, unit) shell_env.
     \<exists>evs' s'. shell_run 2 E (demo_world, demo_shell) = Some (demo_world\<lparr>key_events := evs'\<rparr>, s') \<and>
       pending evs' s' = [] \<and> console_ok s'"
proof
  fix E :: "(unit, drive, unit) shell_env"
  have ok: "input_ok demo_shell" "console_ok demo_shell"
    using view_input_ok [OF demo_shell_views(1)] view_console_ok [OF demo_shell_views(2)] demo_machine_ok by simp_all
  have "key_events demo_world = demo_typing" by (simp add: demo_world_def)
  then have "plain_session 2 (pending (key_events demo_world) demo_shell) = Some []"
    by (simp only: view_pending [OF demo_shell_views(1)] demo_machine_pending demo_typing_text demo_typing_plain)
  from shell_session [OF ok this, of E]
  show "\<exists>evs' s'. shell_run 2 E (demo_world, demo_shell) = Some (demo_world\<lparr>key_events := evs'\<rparr>, s') \<and>
      pending evs' s' = [] \<and> console_ok s'" by blast
qed

end
