(* ===== verification/Kernel.thy ===== *)
theory Kernel
  imports Shell_Session Desktop_Inv
begin

text \<open>
  \<open>kernel/kernel.c\<close>: \<open>kernel_main\<close>, the first C code that runs, with the installation of the interrupt
  routines by \<open>timer.c\<close> and \<open>keyboard.c\<close>. The state is everything: the shell's, which extends the
  whole machine, with the processor's tables and the chips on fixed ports. The log output and the
  interrupt flag are left out.

  Booting establishes the invariants of the components from the zeroed statics and a memory map.
\<close>

section \<open>State and environment\<close>

datatype irq_routine = Timer_callback | Keyboard_callback

record ('g, 'f, 'm, 'p) kernel = "('g, 'f, 'm) shell" +
  cpu :: "irq_routine cpu_tables"
  chips :: 'p

text \<open>The addresses the linker and the assembly files define.\<close>

record ('g, 'f, 'm, 'p) kernel_env = "('g, 'f, 'm) shell_env" +
  chip_ports :: "'p ports"
  kernel_start_addr :: addr
  kernel_end_addr :: addr
  gdt_addr :: addr
  tss_addr :: addr
  idt_addr :: addr
  isr_stub :: "nat \<Rightarrow> addr"
  irq_stub :: "nat \<Rightarrow> addr"
  bg_task_addr :: addr

definition MULTIBOOT_MAGIC :: u32 where "MULTIBOOT_MAGIC = 0x2BADB002"

section \<open>The background task\<close>

text \<open>One round of its loop: the counter, and what goes to the log.\<close>

definition bg_round :: "u32 \<Rightarrow> u32 \<times> u8 list" where
  "bg_round counter =
     (let counter = counter + 1 in
      (counter, if counter mod 500000000 = 0
        then text_bytes ''[serial] BG-KERNEL-TASK heartbeat '' @ dec_bytes (counter div 500000000) @ [10] else []))"

section \<open>Booting\<close>

definition install_timer :: "('g, 'f, 'm, 'p, 'y) kernel_env_scheme \<Rightarrow> u32 \<Rightarrow> ('g, 'f, 'm, 'p, 'x) kernel_scheme
    \<Rightarrow> ('g, 'f, 'm, 'p, 'x) kernel_scheme option" where
  "install_timer E freq_hz s =
     (let s = s\<lparr>cpu := irq_install_handler 0 Timer_callback (cpu s)\<rparr>
      in map_option (\<lambda>d. s\<lparr>chips := d\<rparr>) (timer_init (chip_ports E) freq_hz (chips s)))"

definition keyboard_init :: "('g, 'f, 'm, 'p, 'x) kernel_scheme \<Rightarrow> ('g, 'f, 'm, 'p, 'x) kernel_scheme" where
  "keyboard_init s = s\<lparr>cpu := irq_install_handler 1 Keyboard_callback (cpu s)\<rparr>"

text \<open>The tables of the processor and the interrupt controllers.\<close>

definition boot_tables :: "('g, 'f, 'm, 'p, 'y) kernel_env_scheme \<Rightarrow> ('g, 'f, 'm, 'p, 'x) kernel_scheme
    \<Rightarrow> ('g, 'f, 'm, 'p, 'x) kernel_scheme" where
  "boot_tables E s =
     (let s = s\<lparr>cpu := gdt_init (gdt_addr E) (tss_addr E) (cpu s)\<rparr>;
          (tables, d) = idt_init (idt_addr E) (isr_stub E) (irq_stub E) (chip_ports E) (cpu s, chips s)
      in s\<lparr>cpu := tables, chips := d\<rparr>)"

text \<open>Looking for the disk, with the message that tells the outcome.\<close>

definition boot_disk :: "'f ports \<Rightarrow> ('g, 'f, 'm, 'x) machine_scheme \<Rightarrow> ('g, 'f, 'm, 'x) machine_scheme option" where
  "boot_disk P s =
     (let (found, d) = ata_identify P (dev (the_fs s)); s = s\<lparr>the_fs := (the_fs s)\<lparr>dev := d\<rparr>\<rparr> in
      if found then
        let (ok, fs) = fat16_mount P (the_fs s); s = s\<lparr>the_fs := fs\<rparr> in
        if ok then write_str (''Disk mounted.'' @ NL) s
        else write_str (''WARNING: disk found but FAT16 mount failed.'' @ NL) s
      else write_str (''WARNING: no disk found -- ls/cat/run won't work.'' @ NL) s)"

definition kernel_boot :: "('g, 'f, 'm, 'p, 'y) kernel_env_scheme \<Rightarrow> u32 \<Rightarrow> addr \<Rightarrow> ('g, 'f, 'm, 'p, 'x) kernel_scheme
    \<Rightarrow> ('g, 'f, 'm, 'p, 'x) kernel_scheme option" where
  "kernel_boot E magic mb_info_addr s = do {
     let s = s\<lparr>chips := serial_init (chip_ports E) (chips s)\<rparr>;
     s \<leftarrow> vga_clear s;
     s \<leftarrow> write_str (''KRONKED-OS booting...'' @ NL) s;
     s \<leftarrow> (if magic \<noteq> MULTIBOOT_MAGIC then write_str (''WARNING: multiboot magic mismatch!'' @ NL) s else Some s);
     let s = boot_tables E s;
     s \<leftarrow> pmm_init (mem s) mb_info_addr (kernel_start_addr E) (kernel_end_addr E) s;
     let s = heap_init (paging_init s);
     s \<leftarrow> install_timer E 100 s;
     let s = keyboard_init s;
     s \<leftarrow> boot_disk (disk_ports E) s;
     s \<leftarrow> task_init s;
     (_, s) \<leftarrow> task_create (trampoline_addr E) (bg_task_addr E) s;
     Some (task_start_scheduling s) }"

text \<open>\<open>kernel_main\<close> up to the given number of lines that the shell has answered.\<close>

definition kernel_main :: "nat \<Rightarrow> ('g, 'f, 'm, 'p, 'y) kernel_env_scheme \<Rightarrow> u32 \<Rightarrow> addr
    \<Rightarrow> ('g, 'f, 'm, 'p, 'x) kernel_scheme world \<times> ('g, 'f, 'm, 'p, 'x) kernel_scheme
    \<Rightarrow> (('g, 'f, 'm, 'p, 'x) kernel_scheme world \<times> ('g, 'f, 'm, 'p, 'x) kernel_scheme) option" where
  "kernel_main n E magic mb_info_addr = (\<lambda>(w, s).
     Option.bind (kernel_boot E magic mb_info_addr s) (\<lambda>s. shell_run n E (w, s)))"

section \<open>What the steps of booting change\<close>

lemma pmm_ops_more: "pmm.more (bitmap_set i s) = pmm.more s" "pmm.more (mark_used i s) = pmm.more s"
  "pmm.more (mark_free i s) = pmm.more s"
  by (simp_all add: bitmap_set_def mark_used_def mark_free_def bitmap_clear_def)

lemma fold_more: "(\<And>x t. pmm.more (f x t) = pmm.more t) \<Longrightarrow> pmm.more (fold f xs s) = pmm.more s"
  by (induction xs arbitrary: s) simp_all

lemma pmm_init_more:
  assumes "mmap_at m (load32 m (mbi + 48)) (load32 m (mbi + 48) + load32 m (mbi + 44)) es"
    and "pmm_init m mbi ks ke s = Some s'"
  shows "pmm.more s' = pmm.more s"
proof -
  have e: "pmm.more (pmm_init_entry m x t) = pmm.more t" for x and t :: "'a pmm_scheme"
    by (simp add: pmm_init_entry_def Let_def fold_more pmm_ops_more)
  have u: "pmm.more (fold mark_used xs t) = pmm.more t" "pmm.more (fold bitmap_set xs t) = pmm.more t"
    "pmm.more (fold (pmm_init_entry m) es t) = pmm.more t" for xs and t :: "'a pmm_scheme"
    by (intro fold_more pmm_ops_more e)+
  show ?thesis
    using assms(2) by (auto simp: pmm_init_def Let_def pmm_init_map_walk [OF assms(1)] u simp del: upt_Suc)
qed

lemma paging_init_frame:
  "pmm_inv (paging_init s) = pmm_inv s" "free_frames (paging_init s) = free_frames s" "vm.more (paging_init s) = vm.more s"
proof -
  have "\<exists>m. fold paging_init_table ts t = t\<lparr>mem := m\<rparr>" for ts and t :: "'a vm_scheme"
  proof (induction ts arbitrary: t)
    case Nil
    then show ?case by (intro exI [of _ "mem t"]) simp
  next
    case (Cons x ts)
    then obtain m where "fold paging_init_table ts (paging_init_table x t) = (paging_init_table x t)\<lparr>mem := m\<rparr>" by blast
    moreover obtain m1 where "paging_init_table x t = t\<lparr>mem := m1\<rparr>" by (auto simp: paging_init_table_def Let_def)
    ultimately show ?case by (intro exI [of _ m]) simp
  qed
  then obtain m where "fold paging_init_table [0..<IDENTITY_MAP_TABLES]
      (s\<lparr>mem := fold (\<lambda>i. set_entry (page_directory s) i 0) [0..<ENTRIES_PER_TABLE] (mem s)\<rparr>) =
      (s\<lparr>mem := fold (\<lambda>i. set_entry (page_directory s) i 0) [0..<ENTRIES_PER_TABLE] (mem s)\<rparr>)\<lparr>mem := m\<rparr>" by blast
  then have "paging_init s = s\<lparr>mem := m, cr3 := page_directory s, kernel_directory_phys := page_directory s,
      cr0 := cr0 s OR 0x80000000\<rparr>"
    by (simp add: paging_init_def Let_def)
  then show "pmm_inv (paging_init s) = pmm_inv s" "free_frames (paging_init s) = free_frames s" "vm.more (paging_init s) = vm.more s"
    by (simp_all add: pmm_inv_def counts_ok_def used_count_def bitmap_test_def free_frames_def)
qed

lemma heap_init_frame:
  assumes "pmm_inv s" "4 + n \<le> free_frames s" "heap_end s = HEAP_START" "n \<le> 100"
  shows "heap_room n (heap_init s)" "heap.more (heap_init s) = heap.more s"
  using heap_extend_n_ok [OF assms(1), of 4] assms
  by (simp_all add: heap_init_def heap_extend_def Let_def heap_consts heap_room_def heap_extend_n_more free_frames_def bitmap_test_def)

text \<open>The part of the state that the invariants of the memory and the tasks depend on.\<close>

definition mem_view where
  "mem_view s = (frame_bitmap s, frame_refcount s, (total_frames s, used_frames s), (heap_end s, heap_head s, hdr s),
     (mem s, current_task s, next_task_id s, scheduling_enabled s))"

lemma mem_view_inv:
  assumes "mem_view s = mem_view t"
  shows "heap_inv s = heap_inv t" "pmm_inv s = pmm_inv t" "heap_room n s = heap_room n t" "current_task s = current_task t"
    "mem s = mem t" "heap_end s = heap_end t" "frame_refcount s = frame_refcount t" "next_task_id s = next_task_id t"
  using assms
  by (simp_all add: mem_view_def heap_inv_def [abs_def] pmm_inv_def counts_ok_def used_count_def bitmap_test_def heap_room_def free_frames_def)

lemma settled_mem: "settled s s' \<Longrightarrow> mem_view s' = mem_view s"
proof -
  have "mem_view (but_io t) = mem_view t" for t :: "'a console_scheme"
    by (simp add: mem_view_def but_io_def but_screen_def but_input_def)
  then show "settled s s' \<Longrightarrow> mem_view s' = mem_view s" unfolding settled_def by metis
qed

lemma console_ok_more:
  assumes "console_ok s" "sched.more s' = sched.more s" "task_current_vga_buf s' = 0"
  shows "console_ok s'"
  using assms by (cases s, cases s') (auto simp: console_ok_def)

lemma kb_inv_more: "sched.more s' = sched.more s \<Longrightarrow> kb_inv s' = kb_inv s"
  by (cases s, cases s') (simp add: kb_inv_def)

lemma task_init_more:
  assumes "task_init s = Some s'"
  shows "sched.more s' = sched.more s" "t_vga_redirect_buf (tasks s' (current_task s')) = 0"
    "\<not> t_use_input_redirect (tasks s' (current_task s'))"
proof -
  obtain t s1 where k: "kmalloc TASK_SIZE s = Some (t, s1)"
    and e: "s' = (upd_task t (\<lambda>k. (fresh_fields (next_task_id s1) 0 k)\<lparr>t_is_user := False, t_next := t,
                t_prev := t, t_page_directory := paging_kernel_directory_phys s1,
                t_kernel_stack_top := 0\<rparr>) s1)\<lparr>next_task_id := next_task_id s1 + 1, current_task := t, task_count := 1\<rparr>"
    using assms by (auto simp: task_init_def Let_def bind_eq_Some_conv)
  have "heap.more s1 = heap.more s" by (rule kmalloc_more [OF k])
  then show "sched.more s' = sched.more s" unfolding e by (cases s, cases s1) (simp add: upd_task_def)
  show "t_vga_redirect_buf (tasks s' (current_task s')) = 0" "\<not> t_use_input_redirect (tasks s' (current_task s'))"
    unfolding e by (simp_all add: upd_task_def fresh_fields_def)
qed

definition redirects :: "'a sched_scheme \<Rightarrow> addr \<Rightarrow> addr \<times> bool" where
  "redirects s u = (t_vga_redirect_buf (tasks s u), t_use_input_redirect (tasks s u))"

lemma redirects_upd:
  "(\<And>k. t_vga_redirect_buf (f k) = t_vga_redirect_buf k \<and> t_use_input_redirect (f k) = t_use_input_redirect k) \<Longrightarrow>
    redirects (upd_task x f s) u = redirects s u"
  "u \<noteq> x \<Longrightarrow> redirects (upd_task x g s) u = redirects s u"
  by (simp_all add: redirects_def upd_task_def)

lemma redirects_link: "redirects (link_task t s) u = redirects s u"
proof -
  have "redirects (v\<lparr>task_count := n\<rparr>) u = redirects v u" for v :: "'a sched_scheme" and n by (simp add: redirects_def)
  then show ?thesis unfolding link_task_def Let_def by (simp add: redirects_upd)
qed

lemma task_create_redirects:
  assumes "task_create tr f s = Some (t, s')" "u \<noteq> t"
  shows "redirects s' u = redirects s u"
proof -
  have k: "redirects w u = redirects v u" if "kmalloc n v = Some (p, w)" for n p and v w :: "'a sched_scheme"
    using sched_of_more(1) [OF kmalloc_more [OF that]] by (simp add: redirects_def)
  have upd: "redirects (v\<lparr>next_task_id := n\<rparr>) u = redirects v u" "redirects (v\<lparr>kmem := m\<rparr>) u = redirects v u"
    for v :: "'a sched_scheme" and n m by (simp_all add: redirects_def)
  obtain s1 stack s3 where a: "task_alloc_common s = Some (t, s1)"
    and st: "kmalloc STACK_SIZE (upd_task t (\<lambda>k. k\<lparr>t_is_user := False, t_entry := f,
                t_page_directory := paging_kernel_directory_phys s1\<rparr>) s1) = Some (stack, s3)"
    and s': "s' = (upd_task t (\<lambda>k. k\<lparr>t_kernel_stack_top := stack + STACK_SIZE, t_esp := stack + STACK_SIZE - 20\<rparr>) s3)
       \<lparr>kmem := push_switch_frame (stack + STACK_SIZE) tr (kmem s3)\<rparr>"
    using assms(1) by (auto simp: task_create_def Let_def bind_eq_Some_conv)
  obtain s0 where "kmalloc TASK_SIZE s = Some (t, s0)" "s1 = link_task t ((upd_task t (fresh_fields (next_task_id s0)
      (current_task s0)) s0)\<lparr>next_task_id := next_task_id s0 + 1\<rparr>)"
    using a by (auto simp: task_alloc_common_def Let_def bind_eq_Some_conv)
  then have "redirects s1 u = redirects s u" using k assms(2) by (simp add: redirects_link upd redirects_upd(2))
  then show ?thesis using k [OF st] assms(2) by (simp add: s' upd redirects_upd(2))
qed

lemma boot_disk_ok:
  assumes "input_ok s" "console_ok s"
  shows "\<exists>s' v. boot_disk P s = Some s' \<and> settled (s\<lparr>the_fs := v\<rparr>) s'"
proof -
  have ok: "input_ok (s\<lparr>the_fs := v\<rparr>)" "console_ok (s\<lparr>the_fs := v\<rparr>)" for v
  proof -
    have "input_view (s\<lparr>the_fs := v\<rparr>) = input_view s" "screen_view (s\<lparr>the_fs := v\<rparr>) = screen_view s"
      by (simp_all add: input_view_def screen_view_def Let_def task_current_vga_buf_def task_current_vga_cols_def
          task_current_vga_rows_def redirect_cursor_def)
    then show "input_ok (s\<lparr>the_fs := v\<rparr>)" "console_ok (s\<lparr>the_fs := v\<rparr>)"
      using assms view_input_ok view_console_ok by blast+
  qed
  have "\<exists>s'. write_str t (s\<lparr>the_fs := v\<rparr>) = Some s' \<and> settled (s\<lparr>the_fs := v\<rparr>) s'" for t v
    using writes_str [of t] ok unfolding writes_def by blast
  then show ?thesis by (auto simp: boot_disk_def Let_def split: prod.split) meson+
qed

section \<open>Booting establishes the invariants\<close>

lemma settled_trans: "settled s t \<Longrightarrow> settled t u \<Longrightarrow> settled s u"
  by (simp add: settled_def)

lemma settled_refl: "input_ok s \<Longrightarrow> console_ok s \<Longrightarrow> settled s s"
  by (simp add: settled_def)

lemma writesE:
  assumes "writes f" "input_ok s" "console_ok s"
  obtains s' where "f s = Some s'" "settled s s'" "input_ok s'" "console_ok s'"
  using assms unfolding writes_def settled_def by metis

text \<open>Everything before the memory is set up.\<close>

lemma boot_messages:
  fixes s :: "'a console_scheme"
  assumes "input_ok s" "console_ok s"
  obtains s1 s2 s3 where "vga_clear s = Some s1" "write_str t s1 = Some s2"
    "(if c then write_str u s2 else Some s2) = Some s3" "settled s s3" "input_ok s3" "console_ok s3"
proof -
  obtain s1 where 1: "vga_clear s = Some s1" "settled s s1" "input_ok s1" "console_ok s1"
    using writesE [OF writes_clear assms] by blast
  obtain s2 where 2: "write_str t s1 = Some s2" "settled s1 s2" "input_ok s2" "console_ok s2"
    using writesE [OF writes_str 1(3,4)] by blast
  obtain v where v: "write_str u s2 = Some v" "settled s2 v" "input_ok v" "console_ok v"
    using writesE [OF writes_str 2(3,4)] by blast
  define s3 where "s3 = (if c then v else s2)"
  have 3: "(if c then write_str u s2 else Some s2) = Some s3" "settled s2 s3" "input_ok s3" "console_ok s3"
    using v settled_refl [OF 2(3,4)] 2(3,4) by (simp_all add: s3_def)
  show thesis by (rule that [OF 1(1) 2(1) 3(1) settled_trans [OF settled_trans [OF 1(2) 2(2)] 3(2)] 3(3,4)])
qed

text \<open>The frames that the memory map offers.\<close>

definition offered_frames :: "memory \<Rightarrow> addr list \<Rightarrow> addr \<Rightarrow> addr \<Rightarrow> nat set" where
  "offered_frames m es ks ke = {f. f < MAX_FRAMES \<and> (\<exists>e\<in>set es. entry_covers m e f) \<and> 256 \<le> f \<and>
     \<not> (kstart_frame ks \<le> f \<and> f \<le> kend_frame ke)}"

lemma boot_memory:
  assumes "mmap_at m (load32 m (mbi + 48)) (load32 m (mbi + 48) + load32 m (mbi + 44)) es" "frame_refcount s = (\<lambda>_. 0)"
    "heap_end s = HEAP_START" "9 \<le> card (offered_frames m es ks ke)"
  obtains s1 where "pmm_init m mbi ks ke s = Some s1" "heap_inv (heap_init (paging_init s1)) [(0x400000, 0x3FF4, True)]"
    "pmm_inv (heap_init (paging_init s1))" "heap_room 5 (heap_init (paging_init s1))"
    "heap.more (heap_init (paging_init s1)) = heap.more s"
proof -
  obtain s1 where p: "pmm_init m mbi ks ke s = Some s1" "pmm_inv s1"
    and free: "\<forall>f<MAX_FRAMES. \<not> bitmap_test f s1 \<longleftrightarrow> (\<exists>e\<in>set es. entry_covers m e f) \<and> 256 \<le> f \<and> \<not> (kstart_frame ks \<le> f \<and> f \<le> kend_frame ke)"
    using pmm_init_ok [OF assms(1,2)] by blast
  have "{f. f < MAX_FRAMES \<and> \<not> bitmap_test f s1} = offered_frames m es ks ke" using free by (auto simp: offered_frames_def)
  then have n: "9 \<le> free_frames s1" using assms(4) by (simp add: free_frames_def)
  have more: "pmm.more s1 = pmm.more s" by (rule pmm_init_more [OF assms(1) p(1)])
  then have h: "heap_end s1 = HEAP_START" "heap.more s1 = heap.more s" using assms(3) by (cases s, cases s1, simp)+
  have v: "heap_end (paging_init s1) = HEAP_START" "heap.more (paging_init s1) = heap.more s"
    using paging_init_frame(3) [of s1] h by (cases s1, cases "paging_init s1", simp)+
  have q: "pmm_inv (paging_init s1)" "4 + 5 \<le> free_frames (paging_init s1)" using p(2) n by (simp_all add: paging_init_frame)
  show thesis
    by (rule that [OF p(1)]) (use heap_init_inv [OF q(1) _ v(1)] heap_init_frame [OF q v(1)] v(2) q(2) in simp_all)
qed

lemma boot_console:
  assumes "console_ok s" "kb_inv s" "current_task s = 0" "heap.more s' = heap.more s" 
  shows "console_ok s'" "input_ok s'" "current_task s' = 0"
proof -
  have m: "sched.more s' = sched.more s" "tasks s' = tasks s" "current_task s' = current_task s"
    using assms(4) by (cases s, cases s', simp)+
  then show c: "current_task s' = 0" using assms(3) by simp
  then show "console_ok s'" using console_ok_more [OF assms(1) m(1)] by (simp add: task_current_vga_buf_def)
  show "input_ok s'" using kb_inv_more [OF m(1)] assms(2) c by (simp add: input_ok_def task_current_uses_input_redirect_def)
qed

text \<open>From the state with the memory set up to the start of the scheduler.\<close>

lemma boot_tasks:
  assumes "heap_inv s bs" "pmm_inv s" "heap_room 5 s" "console_ok s" "kb_inv s"
  shows "\<exists>h b s' t bs'. task_init s = Some h \<and> task_create tr f h = Some (b, s') \<and> sched_inv s' bs' [t, b] \<and>
    current_task s' = t \<and> runnable s' t \<and> runnable s' b \<and> t_entry (tasks s' b) = f \<and> console_ok s' \<and> input_ok s' \<and>
    \<not> task_current_uses_input_redirect s' \<and> sched.more s' = sched.more s"
proof -
  obtain t h bs1 where h: "task_init s = Some h" "sched_inv h bs1 [t]" "current_task h = t" "heap_room 4 h" "runnable h t"
    using task_init_ok [OF assms(1,2), of 4] assms(3) by auto
  note i = task_init_more [OF h(1)]
  obtain b s' bs' where b: "task_create tr f h = Some (b, s')" "sched_inv s' bs' [t, b]" "b \<notin> set [t]" "runnable s' b"
    "t_entry (tasks s' b) = f" "current_task s' = t" "runnable s' t"
    using task_create_ok [OF h(2-4), of tr f] h(5) by auto
  have "redirects s' t = redirects h t" using task_create_redirects [OF b(1)] b(3) by auto
  then have r: "t_vga_redirect_buf (tasks s' t) = 0" "\<not> t_use_input_redirect (tasks s' t)"
    using i(2,3) h(3) by (simp_all add: redirects_def)
  have more: "sched.more s' = sched.more s" using task_create_more [OF b(1)] i(1) by simp
  have red: "\<not> task_current_uses_input_redirect s'" using r(2) b(6) by (simp add: task_current_uses_input_redirect_def)
  moreover have "console_ok s'"
    using console_ok_more [OF assms(4) more] r(1) b(6) by (simp add: task_current_vga_buf_def)
  moreover have "input_ok s'" using kb_inv_more [OF more] assms(5) red by (simp add: input_ok_def)
  ultimately show ?thesis using h(1) b more by blast
qed

text \<open>The characters still to come, for a task without a queue of its own.\<close>

lemma pending_more:
  assumes "sched.more s' = sched.more s" "\<not> task_current_uses_input_redirect s" "\<not> task_current_uses_input_redirect s'"
  shows "pending evs s' = pending evs s"
proof -
  have "kb_contents s' = kb_contents s" "shift_held s' = shift_held s"
    using assms(1) by (cases s, cases s', simp add: kb_contents_def)+
  then show ?thesis using assms(2,3) by (simp add: pending_def)
qed

lemma cpu_settled: "settled s s' \<Longrightarrow> cpu s' = cpu s"
proof -
  have "cpu (but_io t) = cpu t" for t :: "('g, 'f, 'm, 'p, 'x) kernel_scheme"
    by (simp add: but_io_def but_screen_def but_input_def)
  then show "settled s s' \<Longrightarrow> cpu s' = cpu s" unfolding settled_def by metis
qed

lemma kernel_upd:
  fixes s :: "('g, 'f, 'm, 'p, 'x) kernel_scheme"
  shows "console_ok (s\<lparr>cpu := t, chips := d\<rparr>) = console_ok s" "input_ok (s\<lparr>cpu := t, chips := d\<rparr>) = input_ok s"
    "pending evs (s\<lparr>cpu := t, chips := d\<rparr>) = pending evs s" "mem_view (s\<lparr>cpu := t, chips := d\<rparr>) = mem_view s"
proof -
  have v: "input_view (s\<lparr>cpu := t, chips := d\<rparr>) = input_view s" "screen_view (s\<lparr>cpu := t, chips := d\<rparr>) = screen_view s"
    by (simp_all add: input_view_def screen_view_def Let_def task_current_vga_buf_def task_current_vga_cols_def
        task_current_vga_rows_def redirect_cursor_def)
  show "console_ok (s\<lparr>cpu := t, chips := d\<rparr>) = console_ok s" "input_ok (s\<lparr>cpu := t, chips := d\<rparr>) = input_ok s"
    "pending evs (s\<lparr>cpu := t, chips := d\<rparr>) = pending evs s"
    using view_console_ok [OF v(2)] view_input_ok [OF v(1)] view_pending [OF v(1)] by simp_all
  show "mem_view (s\<lparr>cpu := t, chips := d\<rparr>) = mem_view s" by (simp add: mem_view_def)
qed

lemma kernel_chips:
  fixes s :: "('g, 'f, 'm, 'p, 'x) kernel_scheme"
  shows "console_ok (s\<lparr>chips := d\<rparr>) = console_ok s" "input_ok (s\<lparr>chips := d\<rparr>) = input_ok s"
    "pending evs (s\<lparr>chips := d\<rparr>) = pending evs s" "mem_view (s\<lparr>chips := d\<rparr>) = mem_view s"
  using kernel_upd [where s = s and t = "cpu s" and d = d] by simp_all

lemma gates_routines: "irq_routines (fold (\<lambda>i. idt_set_gate (f i) (g i) a b) xs s) = irq_routines s"
  by (induction xs arbitrary: s) (simp_all add: idt_set_gate_def)

lemma boot_tables_eq:
  "\<exists>t d. boot_tables E s = s\<lparr>cpu := t, chips := d\<rparr> \<and> irq_routines t = irq_routines (cpu s)"
proof -
  let ?c = "gdt_init (gdt_addr E) (tss_addr E) (cpu s)"
  obtain t d where i: "idt_init (idt_addr E) (isr_stub E) (irq_stub E) (chip_ports E) (?c, chips s) = (t, d)" by fastforce
  then have "irq_routines t = irq_routines ?c"
    by (auto simp: idt_init_def Let_def gates_routines) (simp add: idt_set_gate_def gates_routines)?
  moreover have "irq_routines ?c = irq_routines (cpu s)" by (simp add: gdt_init_def Let_def gdt_set_entry_def)
  moreover have "boot_tables E s = s\<lparr>cpu := t, chips := d\<rparr>" using i by (simp add: boot_tables_def)
  ultimately show ?thesis by auto
qed

lemma boot_interrupts:
  assumes "16 \<le> length (irq_routines (cpu s))"
  shows "\<exists>t d. map_option keyboard_init (install_timer E 100 s) = Some (s\<lparr>cpu := t, chips := d\<rparr>) \<and>
    irq_routines t ! 0 = Some Timer_callback \<and> irq_routines t ! 1 = Some Keyboard_callback"
proof -
  obtain d where "timer_init (chip_ports E) 100 (chips s) = Some d" by (simp add: timer_init_def Let_def)
  then have "map_option keyboard_init (install_timer E 100 s) =
      Some (s\<lparr>cpu := irq_install_handler 1 Keyboard_callback (irq_install_handler 0 Timer_callback (cpu s)), chips := d\<rparr>)"
    by (simp add: install_timer_def keyboard_init_def Let_def)
  moreover have less: "0 < length (irq_routines (cpu s))" "1 < length (irq_routines (cpu s))" using assms by linarith+
  moreover have "irq_routines (irq_install_handler 1 Keyboard_callback (irq_install_handler 0 Timer_callback (cpu s))) ! 0 =
      Some Timer_callback"
    "irq_routines (irq_install_handler 1 Keyboard_callback (irq_install_handler 0 Timer_callback (cpu s))) ! 1 =
      Some Keyboard_callback"
    using less by (simp_all add: irq_install_handler_def nth_list_update)
  ultimately show ?thesis by blast
qed

lemma shell_ready:
  "current_task u = 0 \<Longrightarrow> \<not> task_current_uses_input_redirect u" "input_ok u \<Longrightarrow> kb_inv u"
  by (simp_all add: task_current_uses_input_redirect_def input_ok_def)

lemma settled_facts:
  fixes s :: "('g, 'f, 'm, 'p, 'x) kernel_scheme"
  assumes "settled s s'"
  shows "input_ok s'" "console_ok s'" "pending evs s' = pending evs s" "mem_view s' = mem_view s" "cpu s' = cpu s"
  using assms settled_mem [OF assms] cpu_settled [OF assms] by (simp_all add: settled_def)

lemma boot_start:
  fixes s :: "('g, 'f, 'm, 'p, 'x) kernel_scheme"
  assumes "current_task s = 0" "console_ok s" "kb_inv s" "length (irq_routines (cpu s)) = 16"
  obtains s1 s2 s3 where "vga_clear (s\<lparr>chips := serial_init (chip_ports E) (chips s)\<rparr>) = Some s1"
    "write_str t s1 = Some s2" "(if c then write_str u s2 else Some s2) = Some s3"
    "input_ok (boot_tables E s3)" "console_ok (boot_tables E s3)" "mem_view (boot_tables E s3) = mem_view s"
    "\<forall>evs. pending evs (boot_tables E s3) = pending evs s" "length (irq_routines (cpu (boot_tables E s3))) = 16"
proof -
  define s0 where "s0 = s\<lparr>chips := serial_init (chip_ports E) (chips s)\<rparr>"
  have "input_ok s" using assms(3) shell_ready(1) [OF assms(1)] by (simp add: input_ok_def)
  then have 0: "input_ok s0" "console_ok s0" "mem_view s0 = mem_view s" "\<forall>evs. pending evs s0 = pending evs s"
    "cpu s0 = cpu s"
    using assms(2) by (simp_all add: s0_def kernel_chips)
  obtain s1 s2 s3 where m: "vga_clear s0 = Some s1" "write_str t s1 = Some s2"
    "(if c then write_str u s2 else Some s2) = Some s3" "settled s0 s3" "input_ok s3" "console_ok s3"
    using boot_messages [OF 0(1,2)] by blast
  note f = settled_facts [OF m(4)]
  obtain t' d where b: "boot_tables E s3 = s3\<lparr>cpu := t', chips := d\<rparr>" "irq_routines t' = irq_routines (cpu s3)"
    using boot_tables_eq [of E s3] by blast
  show thesis
    by (rule that [OF m(1) [unfolded s0_def] m(2,3)]) (use b m(5,6) f 0 assms(4) in \<open>simp_all add: kernel_upd\<close>)
qed

lemma boot_finish:
  fixes s :: "('g, 'f, 'm, 'p, 'x) kernel_scheme"
  assumes "heap_inv s bs" "pmm_inv s" "heap_room 5 s" "console_ok s" "input_ok s" "current_task s = 0"
    "16 \<le> length (irq_routines (cpu s))"
  shows "\<exists>s1 s2 h b s' t bs'. install_timer E 100 s = Some s1 \<and> boot_disk P (keyboard_init s1) = Some s2 \<and>
    task_init s2 = Some h \<and> task_create tr f h = Some (b, s') \<and> sched_inv s' bs' [t, b] \<and> current_task s' = t \<and>
    runnable s' t \<and> runnable s' b \<and> t_entry (tasks s' b) = f \<and> console_ok s' \<and> input_ok s' \<and>
    (\<forall>evs. pending evs s' = pending evs s) \<and>
    irq_routines (cpu s') ! 0 = Some Timer_callback \<and> irq_routines (cpu s') ! 1 = Some Keyboard_callback"
proof -
  obtain t1 d where i: "map_option keyboard_init (install_timer E 100 s) = Some (s\<lparr>cpu := t1, chips := d\<rparr>)"
    "irq_routines t1 ! 0 = Some Timer_callback" "irq_routines t1 ! 1 = Some Keyboard_callback"
    using boot_interrupts [OF assms(7)] by blast
  obtain s1 where s1: "install_timer E 100 s = Some s1" "keyboard_init s1 = s\<lparr>cpu := t1, chips := d\<rparr>" using i(1) by auto
  let ?k = "keyboard_init s1"
  have k: "input_ok ?k" "console_ok ?k" "mem_view ?k = mem_view s" "\<forall>evs. pending evs ?k = pending evs s" "cpu ?k = t1"
    using assms(4,5) by (simp_all add: s1(2) kernel_upd)
  obtain s2 v where s2: "boot_disk P ?k = Some s2" "settled (?k\<lparr>the_fs := v\<rparr>) s2" using boot_disk_ok [OF k(1,2)] by blast
  have fs: "mem_view (?k\<lparr>the_fs := v\<rparr>) = mem_view ?k" "pending evs (?k\<lparr>the_fs := v\<rparr>) = pending evs ?k" for evs
    using view_pending [of "?k\<lparr>the_fs := v\<rparr>" ?k] by (simp_all add: mem_view_def input_view_def)
  note f = settled_facts [OF s2(2)]
  have m: "mem_view s2 = mem_view s" using f(4) fs(1) k(3) by simp
  have p: "\<forall>evs. pending evs s2 = pending evs s" using f(3) fs(2) k(4) by simp
  note mv = mem_view_inv [OF m]
  obtain h b s' t bs' where t: "task_init s2 = Some h" "task_create tr f h = Some (b, s')" "sched_inv s' bs' [t, b]"
    "current_task s' = t" "runnable s' t" "runnable s' b" "t_entry (tasks s' b) = f" "console_ok s'" "input_ok s'"
    "\<not> task_current_uses_input_redirect s'" "sched.more s' = sched.more s2"
    using boot_tasks [of s2 bs tr f] assms(1-3) f(1,2) shell_ready(2) mv(1-3) by metis
  have "current_task s2 = 0" using mv(4) assms(6) by simp
  then have "\<forall>evs. pending evs s' = pending evs s" using pending_more [OF t(11) shell_ready(1) t(10)] p by simp
  moreover have "cpu s' = cpu s2" using t(11) by (cases s', cases s2, simp)
  then have "cpu s' = t1" using f(5) k(5) by simp
  ultimately show ?thesis using s1(1) s2(1) t i(2,3) by blast
qed

lemma task_start_same:
  "sched_inv (task_start_scheduling s) = sched_inv s" "current_task (task_start_scheduling s) = current_task s"
  "runnable (task_start_scheduling s) = runnable s" "tasks (task_start_scheduling s) = tasks s"
  "scheduling_enabled (task_start_scheduling s)"
  by (simp_all add: task_start_scheduling_def sched_inv_def [abs_def] runnable_def [abs_def] heap_inv_def pmm_inv_def counts_ok_def
      used_count_def bitmap_test_def)

lemma task_start_console: "console_ok (task_start_scheduling s) = console_ok s" "input_ok (task_start_scheduling t) = input_ok t"
  "pending evs (task_start_scheduling t) = pending evs t"
proof -
  have "input_view (task_start_scheduling t) = input_view t" "screen_view (task_start_scheduling s) = screen_view s"
    by (simp_all add: input_view_def screen_view_def task_start_scheduling_def task_current_vga_buf_def
        task_current_vga_cols_def task_current_vga_rows_def redirect_cursor_def)
  then show "console_ok (task_start_scheduling s) = console_ok s" "input_ok (task_start_scheduling t) = input_ok t"
    "pending evs (task_start_scheduling t) = pending evs t"
    using view_console_ok view_input_ok view_pending by blast+
qed

lemma boot_result:
  fixes s :: "('g, 'f, 'm, 'p, 'x) kernel_scheme"
  assumes zeroed: "frame_refcount s = (\<lambda>_. 0)" "heap_end s = HEAP_START" "current_task s = 0"
    and screen: "console_ok s" and keys: "kb_inv s" and routines: "length (irq_routines (cpu s)) = 16"
    and map: "mmap_at (mem s) (load32 (mem s) (mbi + 48)) (load32 (mem s) (mbi + 48) + load32 (mem s) (mbi + 44)) es"
      "9 \<le> card (offered_frames (mem s) es (kernel_start_addr E) (kernel_end_addr E))"
  shows "\<exists>s' t b bs. kernel_boot E magic mbi s = Some s' \<and> sched_inv s' bs [t, b] \<and> current_task s' = t \<and>
    runnable s' t \<and> runnable s' b \<and> t_entry (tasks s' b) = bg_task_addr E \<and> scheduling_enabled s' \<and>
    console_ok s' \<and> input_ok s' \<and> (\<forall>evs. pending evs s' = pending evs s) \<and>
    irq_routines (cpu s') ! 0 = Some Timer_callback \<and> irq_routines (cpu s') ! 1 = Some Keyboard_callback"
proof -
  obtain s1 s2 s3 where a: "vga_clear (s\<lparr>chips := serial_init (chip_ports E) (chips s)\<rparr>) = Some s1"
    "write_str (''KRONKED-OS booting...'' @ NL) s1 = Some s2"
    "(if magic \<noteq> MULTIBOOT_MAGIC then write_str (''WARNING: multiboot magic mismatch!'' @ NL) s2 else Some s2) = Some s3"
    and b: "input_ok (boot_tables E s3)" "console_ok (boot_tables E s3)" "mem_view (boot_tables E s3) = mem_view s"
    "\<forall>evs. pending evs (boot_tables E s3) = pending evs s" "length (irq_routines (cpu (boot_tables E s3))) = 16"
    by (rule boot_start [OF zeroed(3) screen keys routines])
  let ?b = "boot_tables E s3"
  note mv = mem_view_inv [OF b(3)]
  have z: "frame_refcount ?b = (\<lambda>_. 0)" "heap_end ?b = HEAP_START" "current_task ?b = 0" using mv(4,6,7) zeroed by simp_all
  obtain p where p: "pmm_init (mem ?b) mbi (kernel_start_addr E) (kernel_end_addr E) ?b = Some p"
    "heap_inv (heap_init (paging_init p)) [(0x400000, 0x3FF4, True)]" "pmm_inv (heap_init (paging_init p))"
    "heap_room 5 (heap_init (paging_init p))" "heap.more (heap_init (paging_init p)) = heap.more ?b"
    using boot_memory [of "mem s" mbi es ?b] map z(1,2) mv(5) by metis
  let ?m = "heap_init (paging_init p)"
  note c = boot_console [OF b(2) shell_ready(2) [OF b(1)] z(3) p(5)]
  have cpu: "cpu ?m = cpu ?b" "sched.more ?m = sched.more ?b" using p(5) by (cases ?m, cases ?b, simp)+
  have pend: "\<forall>evs. pending evs ?m = pending evs s"
    using pending_more [OF cpu(2) shell_ready(1) [OF z(3)] shell_ready(1) [OF c(3)]] b(4) by simp
  obtain q1 q2 h bt s' t bs' where q: "install_timer E 100 ?m = Some q1" "boot_disk (disk_ports E) (keyboard_init q1) = Some q2"
    "task_init q2 = Some h" "task_create (trampoline_addr E) (bg_task_addr E) h = Some (bt, s')"
    and r: "sched_inv s' bs' [t, bt]" "current_task s' = t" "runnable s' t" "runnable s' bt" "t_entry (tasks s' bt) = bg_task_addr E"
    "console_ok s'" "input_ok s'" "\<forall>evs. pending evs s' = pending evs ?m"
    "irq_routines (cpu s') ! 0 = Some Timer_callback" "irq_routines (cpu s') ! 1 = Some Keyboard_callback"
    using boot_finish [OF p(2-4) c(1-3)] b(5) unfolding cpu(1) by (metis order_refl)
  have k: "kernel_boot E magic mbi s = Some (task_start_scheduling s')"
    unfolding kernel_boot_def Let_def a Option.bind.bind_lunit p(1) q(1-4) by simp
  let ?s = "task_start_scheduling s'"
  have "sched_inv ?s bs' [t, bt]" "current_task ?s = t" "runnable ?s t" "runnable ?s bt"
    "t_entry (tasks ?s bt) = bg_task_addr E" "scheduling_enabled ?s" "console_ok ?s" "input_ok ?s"
    using r(1-7) by (simp_all only: task_start_same task_start_console)
  moreover have "\<forall>evs. pending evs ?s = pending evs s" using r(8) pend by (simp add: task_start_console(3))
  moreover have "cpu ?s = cpu s'" by (simp add: task_start_scheduling_def)
  ultimately show ?thesis using k r(9,10) by metis
qed

text \<open>C1: booting. On a memory map that offers nine free frames, and with the zeroed statics, whatever
  the disk and the chips answer, \<open>kernel_main\<close> sets up the frame allocator, the pages, the heap, the
  interrupt routines and two tasks, the shell's and the background task, so that the invariants of
  the memory and of the tasks hold; and the shell then answers every line typed, if the lines ask for
  no more than output, without changing anything but the screen and the keyboard's buffers.\<close>

theorem boot_to_shell:
  fixes s :: "('g, 'f, 'm, 'p, 'x) kernel_scheme"
  assumes "frame_refcount s = (\<lambda>_. 0)" "heap_end s = HEAP_START" "current_task s = 0" "console_ok s" "kb_inv s"
    "length (irq_routines (cpu s)) = 16"
    and "mmap_at (mem s) (load32 (mem s) (mbi + 48)) (load32 (mem s) (mbi + 48) + load32 (mem s) (mbi + 44)) es"
    and "9 \<le> card (offered_frames (mem s) es (kernel_start_addr E) (kernel_end_addr E))"
    and "plain_session n (pending (key_events w) s) = Some rest"
  shows "\<exists>b t bg bs evs' s'. kernel_boot E magic mbi s = Some b \<and> sched_inv b bs [t, bg] \<and> current_task b = t \<and>
    runnable b t \<and> runnable b bg \<and> t_entry (tasks b bg) = bg_task_addr E \<and> scheduling_enabled b \<and>
    irq_routines (cpu b) ! 0 = Some Timer_callback \<and> irq_routines (cpu b) ! 1 = Some Keyboard_callback \<and>
    kernel_main n E magic mbi (w, s) = Some (w\<lparr>key_events := evs'\<rparr>, s') \<and> pending evs' s' = rest \<and> but_io s' = but_io b"
proof -
  obtain b t bg bs where b: "kernel_boot E magic mbi s = Some b" "sched_inv b bs [t, bg]" "current_task b = t"
    "runnable b t" "runnable b bg" "t_entry (tasks b bg) = bg_task_addr E" "scheduling_enabled b" "console_ok b" "input_ok b"
    "\<forall>evs. pending evs b = pending evs s" "irq_routines (cpu b) ! 0 = Some Timer_callback"
    "irq_routines (cpu b) ! 1 = Some Keyboard_callback"
    using boot_result [OF assms(1-8), of magic] by blast
  have "plain_session n (pending (key_events w) b) = Some rest" using b(10) assms(9) by simp
  from shell_session [OF b(9,8) this, of E] b show ?thesis by (auto simp: kernel_main_def)
qed

text \<open>The example of \<open>Pmm\<close>: 2 MiB of memory at 1 MiB, with a kernel of 16 KiB at its start.\<close>

definition demo_kernel :: "(unit, drive, unit, unit) kernel" where
  "demo_kernel = shell.extend (demo_shell\<lparr>frame_refcount := \<lambda>_. 0, heap_end := HEAP_START, current_task := 0,
       mem := example_mbi\<rparr>)
     (kernel.fields \<lparr>gdt = gdt demo_tables, gdtp = (0, 0), tss = tss demo_tables, task_register = 0,
        idt = idt demo_tables, idtp = (0, 0), irq_routines = replicate 16 None\<rparr> ())"

lemmas demo_kernel_defs = demo_kernel_def demo_shell_def desk.defs shell.defs kernel.defs machine.defs demo_machine_defs
  terminal_def boot_sched_def sched.defs timed.defs kbd.defs

lemma demo_kernel_ok: "console_ok demo_kernel" "input_ok demo_kernel" "pending evs demo_kernel = typed False (scancodes evs)"
  by (simp_all add: demo_kernel_defs console_ok_def grid_ok_def REAL_FB_COLS_def REAL_FB_ROWS_def task_current_vga_buf_def
      input_ok_def kb_inv_def ring_wf_def task_current_uses_input_redirect_def pending_def kb_contents_def ring_contents_def)

lemma demo_kernel_frames:
  "offered_frames example_mbi [0x100] 0x100000 0x104000 = {261..<768}"
  by (auto simp: offered_frames_def example_mbi_map(2) MAX_FRAMES_val kstart_frame_def kend_frame_def)

definition demo_boot :: "(unit, drive, unit, unit) kernel world" where
  "demo_boot = \<lparr>key_events = demo_typing, other_runs = [], gui_events = [], fresh_bytes = \<lambda>_. 0\<rparr>"

theorem boot_to_shell_witness:
  "\<forall>E :: (unit, drive, unit, unit) kernel_env. \<exists>b t bg bs evs' s'.
     kernel_boot (E\<lparr>kernel_start_addr := 0x100000, kernel_end_addr := 0x104000\<rparr>) MULTIBOOT_MAGIC 0 demo_kernel = Some b \<and>
     sched_inv b bs [t, bg] \<and>
     kernel_main 2 (E\<lparr>kernel_start_addr := 0x100000, kernel_end_addr := 0x104000\<rparr>) MULTIBOOT_MAGIC 0 (demo_boot, demo_kernel)
       = Some (demo_boot\<lparr>key_events := evs'\<rparr>, s') \<and> pending evs' s' = []"
proof
  fix E :: "(unit, drive, unit, unit) kernel_env"
  let ?E = "E\<lparr>kernel_start_addr := 0x100000, kernel_end_addr := 0x104000\<rparr>"
  have f: "frame_refcount demo_kernel = (\<lambda>_. 0)" "heap_end demo_kernel = HEAP_START" "current_task demo_kernel = 0"
    "length (irq_routines (cpu demo_kernel)) = 16" "mem demo_kernel = example_mbi"
    by (simp_all add: demo_kernel_def shell.defs kernel.defs)
  have p: "plain_session 2 (pending (key_events demo_boot) demo_kernel) = Some []"
    by (simp only: demo_kernel_ok(3) demo_typing_text demo_typing_plain demo_boot_def
        world.simps)
  show "\<exists>b t bg bs evs' s'. kernel_boot ?E MULTIBOOT_MAGIC 0 demo_kernel = Some b \<and> sched_inv b bs [t, bg] \<and>
     kernel_main 2 ?E MULTIBOOT_MAGIC 0 (demo_boot, demo_kernel) = Some (demo_boot\<lparr>key_events := evs'\<rparr>, s') \<and> pending evs' s' = []"
    using boot_to_shell [OF f(1-3) demo_kernel_ok(1) shell_ready(2) [OF demo_kernel_ok(2)] f(4), where mbi = 0 and es = "[0x100]" and E = ?E
        and w = demo_boot and n = 2 and rest = "[]" and magic = MULTIBOOT_MAGIC] example_mbi_map(1) demo_kernel_frames p f(5)
    by fastforce
qed


end
