(* ===== verification/User_Programs.thy ===== *)
theory User_Programs
  imports Isolation Kronk
begin

text \<open>
  The programs of \<open>userland/\<close> that run in ring 3: \<open>user_program.c\<close>, \<open>fork_demo.c\<close> and \<open>cow_test.c\<close>. A
  program is what it writes and the code it exits with, as functions of what its system calls
  return; what the program computes in its memory is a sequence of stores through the page tables of
  \<open>Isolation\<close>. Where a variable lies is up to the linker, so its address is an argument. The programs'
  \<open>print_int\<close> is the one of \<open>Kronk\<close>.
\<close>

section \<open>user_program.c\<close>

type_synonym outcome = "char list list \<times> i32"

definition LF :: "char list" where "LF = [CHR 0x0A]"

definition sum_to_100 :: i32 where
  "sum_to_100 = fold (\<lambda>i sum. sum + of_nat i) [1..<101] 0"

definition user_program :: outcome where
  "user_program =
     ([''Hello from ring 3! This is a real ELF binary,'' @ LF,
       ''loaded into its own address space and running'' @ LF,
       ''at CPL=3, talking to the kernel only via syscalls.'' @ LF,
       (if sum_to_100 = 5050 then ''Computed sum(1..100) = 5050 correctly in ring 3.''
        else ''ERROR: arithmetic in ring 3 gave the wrong answer!'') @ LF], 7)"

lemma user_program_computes: "user_program = (map (\<lambda>l. l @ LF)
    [''Hello from ring 3! This is a real ELF binary,'', ''loaded into its own address space and running'',
     ''at CPL=3, talking to the kernel only via syscalls.'', ''Computed sum(1..100) = 5050 correctly in ring 3.''], 7)"
  by (simp add: user_program_def sum_to_100_def upt_conv_Cons)

section \<open>fork_demo.c\<close>

text \<open>The result of \<open>sys_wait\<close>: the process id and the exit code that it stores, or -1 and nothing stored.\<close>

type_synonym wait_result = "(i32 \<times> i32) option"

definition wait_pid :: "wait_result \<Rightarrow> i32" where
  "wait_pid w = (case w of None \<Rightarrow> - 1 | Some (pid, _) \<Rightarrow> pid)"

definition wait_status :: "i32 \<Rightarrow> wait_result \<Rightarrow> i32" where
  "wait_status status w = (case w of None \<Rightarrow> status | Some (_, code) \<Rightarrow> code)"

text \<open>The child: \<open>None\<close> when \<open>sys_exec\<close> has replaced it by another program.\<close>

definition fork_demo_child :: "bool \<Rightarrow> char list list \<times> i32 option" where
  "fork_demo_child exec_ok =
     (let msg = ''[fork_demo] child: I am the child, now calling exec(PROGRAM.ELF)'' @ LF in
      if exec_ok then ([msg], None)
      else ([msg, ''[fork_demo] child: exec FAILED!'' @ LF], Some 99))"

definition fork_demo_parent :: "i32 \<Rightarrow> wait_result \<Rightarrow> outcome" where
  "fork_demo_parent pid w =
     (let status = wait_status (- 1) w; child_pid = wait_pid w in
      ([''[fork_demo] parent: fork returned child pid = '', print_int pid,
        LF @ ''[fork_demo] parent: waiting for child to finish...'' @ LF,
        ''[fork_demo] parent: wait() returned, child pid = '', print_int child_pid, '', exit status = '', print_int status,
        LF @ ''[fork_demo] parent: done.'' @ LF], 0))"

text \<open>The whole program, along the path of the process in which \<open>sys_fork\<close> returned the given number; its
  first line is written once, before the fork.\<close>

definition fork_demo :: "i32 \<Rightarrow> bool \<Rightarrow> wait_result \<Rightarrow> char list list \<times> i32 option" where
  "fork_demo pid exec_ok w =
     (let (out, code) = (if pid = 0 then fork_demo_child exec_ok
        else let (out, code) = fork_demo_parent pid w in (out, Some code))
      in ((''[fork_demo] parent: about to fork()'' @ LF) # out, code))"

section \<open>cow_test.c: its variables\<close>

record cow_layout =
  shared_value :: addr
  shared_array :: addr

definition COW_INTS :: nat where "COW_INTS = 4096"

text \<open>A store of an \<open>int\<close>, byte by byte.\<close>

definition int_stores :: "addr \<Rightarrow> i32 \<Rightarrow> (addr \<times> u8) list" where
  "int_stores a v = [(a, ucast v), (a + 1, ucast (drop_bit 8 v)), (a + 2, ucast (drop_bit 16 v)), (a + 3, ucast (drop_bit 24 v))]"

definition array_stores :: "cow_layout \<Rightarrow> i32 \<Rightarrow> (addr \<times> u8) list" where
  "array_stores L v = concat (map (\<lambda>i. int_stores (shared_array L + of_nat (4 * i)) v) [0..<COW_INTS])"

definition cow_stores :: "cow_layout \<Rightarrow> i32 \<Rightarrow> (addr \<times> u8) list" where
  "cow_stores L v = int_stores (shared_value L) v @ array_stores L v"

definition load_int :: "'a vm_scheme \<Rightarrow> addr \<Rightarrow> addr \<Rightarrow> i32 option" where
  "load_int s d a = do {
     b0 \<leftarrow> byte_of s d a; b1 \<leftarrow> byte_of s d (a + 1); b2 \<leftarrow> byte_of s d (a + 2); b3 \<leftarrow> byte_of s d (a + 3);
     Some (push_bit 24 (ucast b3) OR push_bit 16 (ucast b2) OR push_bit 8 (ucast b1) OR ucast b0) }"

text \<open>The check that a process makes of its own variables.\<close>

definition cow_ok :: "'a vm_scheme \<Rightarrow> addr \<Rightarrow> cow_layout \<Rightarrow> i32 \<Rightarrow> bool" where
  "cow_ok s d L v \<longleftrightarrow> load_int s d (shared_value L) = Some v \<and>
     list_all (\<lambda>i. load_int s d (shared_array L + of_nat (4 * i)) = Some v) [0..<COW_INTS]"

section \<open>cow_test.c: its two processes\<close>

text \<open>What the program does before it forks: it shows the value and fills the array.\<close>

definition cow_start :: "'a vm_scheme \<Rightarrow> addr \<Rightarrow> cow_layout \<Rightarrow> (char list list \<times> (addr \<times> u8) list) option" where
  "cow_start s d L = map_option (\<lambda>v. ([''[cow_test] initial shared_value = '', print_int v, LF], array_stores L 7))
     (load_int s d (shared_value L))"

text \<open>The child after its stores of 222, and the parent after its stores of 333.\<close>

definition cow_child :: "'a vm_scheme \<Rightarrow> addr \<Rightarrow> cow_layout \<Rightarrow> outcome option" where
  "cow_child s d L = map_option (\<lambda>v. let ok = cow_ok s d L 222 in
     ([''[cow_test] child: shared_value = '', print_int v,
       (if ok then ''  array check PASS'' else ''  array check FAIL'') @ LF], if ok then 42 else 1))
     (load_int s d (shared_value L))"

definition cow_parent :: "'a vm_scheme \<Rightarrow> addr \<Rightarrow> cow_layout \<Rightarrow> wait_result \<Rightarrow> outcome option" where
  "cow_parent s d L w = map_option (\<lambda>v.
     let ok = cow_ok s d L 333; status = wait_status (- 1) w; child_pid = wait_pid w; overall_ok = (ok \<and> status = 42) in
     ([''[cow_test] parent: shared_value = '', print_int v,
       (if ok then ''  array check PASS'' else ''  array check FAIL'') @ LF,
       ''[cow_test] parent: child pid='', print_int child_pid, '' child exit status='', print_int status, LF,
       (if overall_ok then ''[cow_test] OVERALL: PASS -- parent and child correctly isolated''
        else ''[cow_test] OVERALL: FAIL -- COW isolation broken!'') @ LF], if overall_ok then 0 else 1))
     (load_int s d (shared_value L))"

section \<open>Stores of several processes\<close>

text \<open>The scheduler switches to the directory of the process whose turn it is.\<close>

fun run_stores :: "(addr \<times> addr \<times> u8) list \<Rightarrow> 'a vm_scheme \<Rightarrow> 'a vm_scheme option" where
  "run_stores [] s = Some s"
| "run_stores ((d, va, b) # ops) s = Option.bind (user_store va b (paging_switch_directory d s)) (run_stores ops)"

text \<open>The last byte that a list of stores leaves at an address.\<close>

fun written :: "(addr \<times> u8) list \<Rightarrow> addr \<Rightarrow> u8 option \<Rightarrow> u8 option" where
  "written [] a v = v"
| "written ((va, b) # ws) a v = written ws a (if va = a then Some b else v)"

lemma run_stores_ok:
  assumes "spaces_inv s D" "cow_room s D" "\<forall>(d, va, b)\<in>set ops. d \<in> D \<and> user_addr va \<and> may_store s d va"
  shows "\<exists>t. run_stores ops s = Some t \<and> spaces_inv t D \<and>
    (\<forall>c\<in>D. \<forall>a. user_addr a \<longrightarrow> byte_of t c a = written (map snd (filter (\<lambda>x. fst x = c) ops)) a (byte_of s c a))"
  using assms
proof (induction ops arbitrary: s)
  case Nil
  then show ?case by simp
next
  case (Cons x ops)
  obtain d va b where x: "x = (d, va, b)" by (cases x)
  have m: "d \<in> D" "user_addr va" "may_store s d va" using Cons.prems(3) x by auto
  obtain t where t: "user_store va b (paging_switch_directory d s) = Some t" "spaces_inv t D" "cow_room t D"
    "\<forall>c\<in>D. \<forall>a. user_addr a \<longrightarrow> byte_of t c a = (if c = d \<and> a = va then Some b else byte_of s c a) \<and>
       (may_store s c a \<longrightarrow> may_store t c a)"
    using switched_store_ok [OF Cons.prems(1) m Cons.prems(2), of b] by blast
  have later: "\<forall>(d, va, b)\<in>set ops. d \<in> D \<and> user_addr va \<and> may_store t d va"
    using Cons.prems(3) t(4) by (auto simp: x)
  obtain u where u: "run_stores ops t = Some u" "spaces_inv u D"
    "\<forall>c\<in>D. \<forall>a. user_addr a \<longrightarrow> byte_of u c a = written (map snd (filter (\<lambda>x. fst x = c) ops)) a (byte_of t c a)"
    using Cons.IH [OF t(2,3) later] by blast
  have "byte_of u c a = written (map snd (filter (\<lambda>x. fst x = c) (x # ops))) a (byte_of s c a)"
    if "c \<in> D" "user_addr a" for c a
    using u(3) t(4) that by (auto simp: x)
  then show ?case using t(1) u(1,2) by (auto simp: x)
qed

lemma written_once: "distinct (map fst ws) \<Longrightarrow> (a, b) \<in> set ws \<Longrightarrow> written ws a v = Some b"
proof (induction ws arbitrary: v)
  case (Cons w ws)
  have "a \<notin> fst ` set ws \<Longrightarrow> written ws a v = v" for v
    by (induction ws arbitrary: v) auto
  then show ?case using Cons by (cases w) force
qed simp

lemma shuffle_own:
  assumes "ops \<in> shuffles (map (Pair p) ws) (map (Pair c) vs)" "p \<noteq> c"
  shows "map snd (filter (\<lambda>x. fst x = p) ops) = ws" "map snd (filter (\<lambda>x. fst x = c) ops) = vs"
    "x \<in> set ops \<Longrightarrow> (fst x = p \<and> snd x \<in> set ws) \<or> (fst x = c \<and> snd x \<in> set vs)"
proof -
  have f: "filter (\<lambda>x. fst x = q) (map (Pair r) us) = (if q = r then map (Pair r) us else [])" for q r :: 'a and us :: "'b list"
    by (induction us) auto
  have "filter (\<lambda>x. fst x = q) ops \<in> shuffles (filter (\<lambda>x. fst x = q) (map (Pair p) ws)) (filter (\<lambda>x. fst x = q) (map (Pair c) vs))" for q
    using assms(1) filter_shuffles by blast
  from this [of p] this [of c] show "map snd (filter (\<lambda>x. fst x = p) ops) = ws" "map snd (filter (\<lambda>x. fst x = c) ops) = vs"
    using assms(2) by (simp_all add: f o_def)
  show "x \<in> set ops \<Longrightarrow> (fst x = p \<and> snd x \<in> set ws) \<or> (fst x = c \<and> snd x \<in> set vs)"
    using set_shuffles [OF assms(1)] by auto
qed

section \<open>The test passes\<close>

lemma load_stored: "\<forall>(x, b)\<in>set (int_stores a v). byte_of s d x = Some b \<Longrightarrow> load_int s d a = Some v"
  by (simp add: int_stores_def load_int_def word_bytes_eq)

lemma cow_ok_stored: "\<forall>(x, b)\<in>set (cow_stores L v). byte_of s d x = Some b \<Longrightarrow> cow_ok s d L v"
  unfolding cow_ok_def list_all_iff by (intro conjI ballI load_stored) (auto simp: cow_stores_def array_stores_def)

lemma cow_addresses: "map fst (cow_stores L v) = map fst (cow_stores L 0)"
  by (simp add: cow_stores_def array_stores_def int_stores_def map_concat o_def)

text \<open>A place for the variables: no two bytes of them overlap, and all are mapped by the process.\<close>

definition cow_layout_ok :: "'a vm_scheme \<Rightarrow> addr \<Rightarrow> cow_layout \<Rightarrow> bool" where
  "cow_layout_ok s p L \<longleftrightarrow> distinct (map fst (cow_stores L 0)) \<and>
     (\<forall>(a, _)\<in>set (cow_stores L 0). user_addr a \<and> byte_of s p a \<noteq> None)"

lemma cow_layoutD:
  assumes "cow_layout_ok s p L" "(a, b) \<in> set (cow_stores L v)"
  shows "user_addr a" "byte_of s p a \<noteq> None" "distinct (map fst (cow_stores L v))"
proof -
  have "a \<in> set (map fst (cow_stores L v))" using assms(2) by force
  then have "a \<in> set (map fst (cow_stores L 0))" unfolding cow_addresses [of L v] .
  then obtain b0 where "(a, b0) \<in> set (cow_stores L 0)" by auto
  then show "user_addr a" "byte_of s p a \<noteq> None" using assms(1) by (auto simp: cow_layout_ok_def)
  show "distinct (map fst (cow_stores L v))" using assms(1) cow_addresses [of L v] by (simp add: cow_layout_ok_def)
qed

text \<open>C7: the copy-on-write test passes. However the stores of the two processes are interleaved, and
  however far the one process has come when the other checks its variables, the child finds its own
  222 everywhere and exits with 42, and the parent finds its own 333 everywhere and, when it is given
  42 by \<open>sys_wait\<close>, reports success and exits with 0.\<close>

theorem cow_test_passes:
  assumes inv: "spaces_inv s D" and p: "p \<in> D" "forkable_space s p" "fork_room s D p" and L: "cow_layout_ok s p L"
  shows "\<exists>c t. paging_clone_address_space p s = (c, t) \<and>
    (\<forall>k. \<forall>ops\<in>shuffles (map (Pair p) (take k (cow_stores L 333))) (map (Pair c) (cow_stores L 222)).
       \<exists>u out. run_stores ops t = Some u \<and> cow_child u c L = Some (out, 42)) \<and>
    (\<forall>k. \<forall>ops\<in>shuffles (map (Pair p) (cow_stores L 333)) (map (Pair c) (take k (cow_stores L 222))).
       \<exists>u. run_stores ops t = Some u \<and> (\<forall>pid. \<exists>out. cow_parent u p L (Some (pid, 42)) = Some (out, 0)))"
proof -
  obtain c t where t: "paging_clone_address_space p s = (c, t)" "c \<notin> D" "spaces_inv t (insert c D)" "cow_room t (insert c D)"
    and may: "\<forall>a. user_addr a \<longrightarrow> (byte_of s p a \<noteq> None \<longrightarrow> may_store t c a \<and> may_store t p a)"
    using fork_keeps [OF inv p(1,2)] p(3) by blast
  have pc: "p \<noteq> c" using p(1) t(2) by blast
  have run: "\<exists>u. run_stores ops t = Some u \<and> (\<forall>d\<in>{p, c}. \<forall>a. user_addr a \<longrightarrow>
      byte_of u d a = written (map snd (filter (\<lambda>x. fst x = d) ops)) a (byte_of t d a))"
    if ops: "ops \<in> shuffles (map (Pair p) ws) (map (Pair c) vs)" and "set ws \<subseteq> set (cow_stores L 333)" "set vs \<subseteq> set (cow_stores L 222)"
    for ops ws vs
  proof -
    have allowed: "d \<in> insert c D \<and> user_addr va \<and> may_store t d va" if "(d, va, b) \<in> set ops" for d va b
    proof -
      have "(d = p \<and> (va, b) \<in> set (cow_stores L 333)) \<or> (d = c \<and> (va, b) \<in> set (cow_stores L 222))"
        using shuffle_own(3) [OF ops pc that] \<open>set ws \<subseteq> _\<close> \<open>set vs \<subseteq> _\<close> by auto
      then show ?thesis using cow_layoutD(1,2) [OF L] may p(1) by blast
    qed
    have "\<forall>(d, va, b)\<in>set ops. d \<in> insert c D \<and> user_addr va \<and> may_store t d va"
      by (intro ballI, clarify) (rule allowed)
    from run_stores_ok [OF t(3,4) this] show ?thesis using p(1) by blast
  qed
  have fresh: "cow_ok u d L v" if "\<And>a. user_addr a \<Longrightarrow> byte_of u d a = written (cow_stores L v) a (g a)" for u :: "'a vm_scheme" and d v g
  proof (rule cow_ok_stored, clarify)
    fix a b assume "(a, b) \<in> set (cow_stores L v)"
    then show "byte_of u d a = Some b"
      using that [of a] written_once [of "cow_stores L v" a b] cow_layoutD(1,3) [OF L, of a b v] by simp
  qed
  have val: "load_int u d (shared_value L) = Some v" if "cow_ok u d L v" for u :: "'a vm_scheme" and d v
    using that by (simp add: cow_ok_def)
  have "\<exists>u out. run_stores ops t = Some u \<and> cow_child u c L = Some (out, 42)"
    if ops: "ops \<in> shuffles (map (Pair p) (take k (cow_stores L 333))) (map (Pair c) (cow_stores L 222))" for k ops
  proof -
    obtain u where u: "run_stores ops t = Some u" "\<And>a. user_addr a \<Longrightarrow> byte_of u c a = written (cow_stores L 222) a (byte_of t c a)"
      using run [OF ops set_take_subset subset_refl] shuffle_own(2) [OF ops pc] by auto
    have "cow_ok u c L 222" by (rule fresh [OF u(2)])
    then show ?thesis using u(1) val by (simp add: cow_child_def Let_def)
  qed
  moreover have "\<exists>u. run_stores ops t = Some u \<and> (\<forall>pid. \<exists>out. cow_parent u p L (Some (pid, 42)) = Some (out, 0))"
    if ops: "ops \<in> shuffles (map (Pair p) (cow_stores L 333)) (map (Pair c) (take k (cow_stores L 222)))" for k ops
  proof -
    obtain u where u: "run_stores ops t = Some u" "\<And>a. user_addr a \<Longrightarrow> byte_of u p a = written (cow_stores L 333) a (byte_of t p a)"
      using run [OF ops subset_refl set_take_subset] shuffle_own(1) [OF ops pc] by auto
    have "cow_ok u p L 333" by (rule fresh [OF u(2)])
    then show ?thesis using u(1) val by (simp add: cow_parent_def Let_def wait_status_def)
  qed
  ultimately show ?thesis using t(1) by blast
qed

text \<open>A process with five writable pages from 64 MiB on: the value lies in the first, the array in the others.\<close>

definition cow_entry :: "nat \<Rightarrow> u32" where "cow_entry i = 0x102007 + of_nat (i * 4096)"

definition cow_mem :: memory where
  "cow_mem = fold (\<lambda>i. set_entry 0x101000 i (cow_entry i)) [0..<5] (set_entry 0x100000 16 0x101007 (\<lambda>_. 0))"

definition cow_vm :: "nat \<Rightarrow> vm" where
  "cow_vm n = fold alloc_at [256..<256 + n] (boot_vm cow_mem)"

definition cow_place :: cow_layout where
  "cow_place = \<lparr>shared_value = 0x4000000, shared_array = 0x4001000\<rparr>"

lemma cow_vm_Suc: "cow_vm (Suc n) = alloc_at (256 + n) (cow_vm n)"
proof -
  have "[256..<256 + Suc n] = [256..<256 + n] @ [256 + n]" using upt_Suc_append [of 256 "256 + n"] by simp
  then show ?thesis unfolding cow_vm_def by (simp only: fold_append fold_simps comp_apply)
qed

lemma cow_vm_facts:
  "n \<le> 7 \<Longrightarrow> pmm_inv (cow_vm n) \<and> (\<forall>f. bitmap_test f (cow_vm n) \<longleftrightarrow> f < 256 + n) \<and> mem (cow_vm n) = cow_mem \<and>
    page_directory (cow_vm n) = 0x80000 \<and> (\<forall>f. frame_refcount (cow_vm n) f = (if 256 \<le> f \<and> f < 256 + n then 1 else 0))"
proof (induction n)
  case 0
  then show ?case by (simp add: cow_vm_def)
next
  case (Suc n)
  then have IH: "pmm_inv (cow_vm n)" "\<And>f. bitmap_test f (cow_vm n) \<longleftrightarrow> f < 256 + n" "mem (cow_vm n) = cow_mem"
    "page_directory (cow_vm n) = 0x80000" "\<And>f. frame_refcount (cow_vm n) f = (if 256 \<le> f \<and> f < 256 + n then 1 else 0)" by simp_all
  have "pmm_inv (alloc_at (256 + n) (cow_vm n))"
    by (rule alloc_at_inv [OF IH(1)]) (use Suc.prems IH(2) in \<open>simp_all add: MAX_FRAMES_val\<close>)
  then show ?case using IH by (auto simp: cow_vm_Suc)
qed

lemma cow_entries:
  "i < 1024 \<Longrightarrow> get_entry cow_mem 0x100000 i = (if i = 16 then 0x101007 else 0)"
  "i < 1024 \<Longrightarrow> get_entry cow_mem 0x101000 i = (if i < 5 then cow_entry i else 0)"
  "i < 1024 \<Longrightarrow> get_entry cow_mem 0x80000 i = 0"
  unfolding cow_mem_def by (simp_all add: word_mem.fill [where f = cow_entry] word_mem.get_put)

lemma cow_entry_facts:
  assumes "i < 5"
  shows "is_present (cow_entry i)" "is_writable (cow_entry i)" "\<not> is_cow (cow_entry i)"
    "page_base (cow_entry i) \<noteq> 0x80000" "page_base (cow_entry i) \<noteq> 0x100000" "page_base (cow_entry i) \<noteq> 0x101000"
    "frame_of (page_base (cow_entry i)) = 258 + i"
proof -
  have "i \<in> {0, 1, 2, 3, 4}" using assms by auto
  then show "is_present (cow_entry i)" "is_writable (cow_entry i)" "\<not> is_cow (cow_entry i)"
    "page_base (cow_entry i) \<noteq> 0x80000" "page_base (cow_entry i) \<noteq> 0x100000" "page_base (cow_entry i) \<noteq> 0x101000"
    "frame_of (page_base (cow_entry i)) = 258 + i"
    by (auto simp: cow_entry_def is_present_def is_writable_def is_cow_def page_base_def page_consts frame_of_def)
qed

lemma cow_leaf:
  "x \<in> user_slots \<Longrightarrow> leaf cow_mem 0x100000 x = (if fst x = 16 \<and> snd x < 5 then Some (cow_entry (snd x)) else None)"
  by (auto simp: leaf_def user_pte_def user_slots_def cow_entries cow_entry_facts)

lemma cow_slots: "slots_of cow_mem 0x100000 f = (if 258 \<le> f \<and> f < 263 then {(16, f - 258)} else {})"
proof -
  have "(\<exists>e. leaf cow_mem 0x100000 x = Some e \<and> frame_of (page_base e) = f) \<longleftrightarrow> fst x = 16 \<and> snd x < 5 \<and> 258 + snd x = f"
    if "x \<in> user_slots" for x
    unfolding cow_leaf [OF that] using cow_entry_facts(7) [of "snd x"] by (cases "fst x = 16 \<and> snd x < 5") (simp_all, blast)
  then have "slots_of cow_mem 0x100000 f = {x \<in> user_slots. fst x = 16 \<and> snd x < 5 \<and> 258 + snd x = f}"
    unfolding slots_of_def by blast
  also have "\<dots> = (if 258 \<le> f \<and> f < 263 then {(16, f - 258)} else {})"
  proof (rule set_eqI)
    fix x :: "nat \<times> nat"
    obtain a b where "x = (a, b)" by (cases x)
    then show "x \<in> {x \<in> user_slots. fst x = 16 \<and> snd x < 5 \<and> 258 + snd x = f} \<longleftrightarrow> x \<in> (if 258 \<le> f \<and> f < 263 then {(16, f - 258)} else {})"
      unfolding user_slots_def by (simp split: if_split) arith
  qed
  finally show ?thesis .
qed

lemma cow_vm_refs: "f < MAX_FRAMES \<Longrightarrow> frame_refs (cow_vm 7) f = (if 256 \<le> f \<and> f < 263 then 1 else 0)"
  using cow_vm_facts [of 7] by (simp add: frame_refs_def)

lemma cow_spaces: "spaces_inv (cow_vm 7) {0x100000}"
proof -
  note F = cow_vm_facts [of 7, simplified]
  have tables: "i < 1024 \<Longrightarrow> is_present (get_entry cow_mem 0x100000 i) \<longleftrightarrow> i = 16" "page_base 0x101007 = 0x101000" for i
    by (simp_all add: cow_entries is_present_def page_base_def page_consts)
  have pages: "pages_of cow_mem 0x100000 = {0x100000, 0x101000}"
  proof -
    have "pages_of cow_mem 0x100000 = insert 0x100000 ((\<lambda>pd. page_base (get_entry cow_mem 0x100000 pd)) `
        {pd. 16 \<le> pd \<and> pd < 1024 \<and> is_present (get_entry cow_mem 0x100000 pd)})"
      unfolding pages_of_def by blast
    moreover have "{pd. 16 \<le> pd \<and> pd < 1024 \<and> is_present (get_entry cow_mem 0x100000 pd)} = {16}" using tables(1) by auto
    ultimately show ?thesis by (simp add: tables cow_entries)
  qed
  have maps: "mappings (cow_vm 7) {0x100000} f = (if 258 \<le> f \<and> f < 263 then {(0x100000, 16, f - 258)} else {})" for f
    using F by (auto simp: mappings_def cow_slots)
  have "kernel_dir_ok (cow_vm 7) {0x100000}"
    using F by (simp add: kernel_dir_ok_def pages frame_live_def frame_of_def cow_entries is_present_def)
  moreover have "as_wf (cow_vm 7) 0x100000"
    unfolding as_wf_def using F tables by (auto simp: cow_entries(1) frame_live_def)
  ultimately show ?thesis
    unfolding spaces_inv_def using F maps
    by (auto simp: cow_leaf cow_entry_facts data_frame_def pages MAX_FRAMES_val cow_vm_refs split: if_splits)
qed

lemma cow_tables: "{pd. 16 \<le> pd \<and> pd < 1024 \<and> is_present (get_entry cow_mem 0x100000 pd)} = {16}"
  by (auto simp: cow_entries is_present_def page_consts split: if_splits)

lemma cow_vm_forks: "forkable_space (cow_vm 7) 0x100000" "fork_room (cow_vm 7) {0x100000} 0x100000"
proof -
  note F = cow_vm_facts [of 7, simplified]
  have "{f. f < MAX_FRAMES \<and> \<not> bitmap_test f (cow_vm 7)} = {263..<32768}" using F by (auto simp: MAX_FRAMES_val)
  then have free: "free_frames (cow_vm 7) = 32505" by (simp add: free_frames_def)
  show "forkable_space (cow_vm 7) 0x100000"
    unfolding forkable_space_def using F by (simp add: cow_tables free cow_slots cow_vm_refs)
  have "cow_places (cow_vm 7) {0x100000} = {}"
    using F by (auto simp: cow_places_def cow_leaf cow_entry_facts split: if_splits)
  moreover have "mapped (cow_vm 7) 0x100000 = Pair 16 ` {0..<5}"
    using F by (auto simp: mapped_def cow_leaf user_slots_def split: if_splits)
  then have "card (mapped (cow_vm 7) 0x100000) = 5" by (simp add: card_image inj_on_def)
  ultimately show "fork_room (cow_vm 7) {0x100000} 0x100000" unfolding fork_room_def using F by (simp add: cow_tables free)
qed

text \<open>The bytes of the array follow one another.\<close>

lemma int_bytes: "map fst (int_stores (A + of_nat (4 * i)) v) = map (\<lambda>j. A + of_nat j) [4 * i..<4 * Suc i]"
proof -
  have "[4 * i..<4 * Suc i] = [4 * i, Suc (4 * i), Suc (Suc (4 * i)), Suc (Suc (Suc (4 * i)))]" by (simp add: upt_rec)
  then show ?thesis by (simp add: int_stores_def add.assoc add.commute add.left_commute)
qed

lemma array_bytes: "map fst (concat (map (\<lambda>i. int_stores (A + of_nat (4 * i)) v) [0..<n])) = map (\<lambda>j. A + of_nat j) [0..<4 * n]"
proof (induction n)
  case (Suc n)
  have "[0..<4 * Suc n] = [0..<4 * n] @ [4 * n..<4 * Suc n]" using upt_add_eq_append [of 0 "4 * n" 4] by (simp add: add.commute)
  then show ?case using Suc int_bytes [of A n v] by simp
qed simp

definition cow_offsets :: "nat list" where "cow_offsets = [0..<4] @ [4096..<20480]"

lemma cow_offsets: "set cow_offsets = {0..<4} \<union> {4096..<20480}" "distinct cow_offsets"
  unfolding cow_offsets_def by (simp_all del: upt_rec_numeral)

lemma cow_place_bytes: "map fst (cow_stores cow_place v) = map (\<lambda>k. 0x4000000 + of_nat k) cow_offsets"
proof -
  have "map fst (int_stores (0x4000000 + of_nat (4 * 0)) v) = map (\<lambda>k. 0x4000000 + of_nat k) [4 * 0..<4 * Suc 0]"
    by (rule int_bytes)
  then have v: "map fst (int_stores 0x4000000 v) = map (\<lambda>k. 0x4000000 + of_nat k) [0..<4]" by simp
  have shift: "(\<lambda>j. (0x4001000 :: addr) + of_nat j) = (\<lambda>k. 0x4000000 + of_nat k) \<circ> (\<lambda>j. j + 4096)"
    by (simp add: fun_eq_iff)
  have "map fst (array_stores cow_place v) = map (\<lambda>j. 0x4001000 + of_nat j) [0..<4 * COW_INTS]"
    unfolding array_stores_def array_bytes by (simp add: cow_place_def)
  also have "\<dots> = map (\<lambda>k. 0x4000000 + of_nat k) (map (\<lambda>j. j + 4096) [0..<4 * COW_INTS])"
    unfolding shift by (simp only: map_map)
  also have "map (\<lambda>j. j + 4096) [0..<4 * COW_INTS] = [4096..<20480]"
    unfolding map_add_upt COW_INTS_def by (simp del: upt_rec_numeral)
  finally show ?thesis using v by (simp add: cow_stores_def cow_offsets_def cow_place_def del: upt_rec_numeral)
qed

lemma cow_address:
  assumes "k < 20480"
  shows "unat (0x4000000 + of_nat k :: addr) = 0x4000000 + k"
    "pd_index (0x4000000 + of_nat k) = 16" "pt_index (0x4000000 + of_nat k) < 5"
proof -
  define a :: addr where "a = 0x4000000 + of_nat k"
  have u: "unat a = 0x4000000 + k"
    using assms unfolding a_def by (subst unat_word_ariths(1)) (simp add: unat_of_nat)
  have m: "(0x3FF :: u32) = mask 10" by (simp add: mask_eq_exp_minus_1)
  have "pd_index a = unat a div 2 ^ 22" by (simp add: pd_index_def drop_bit_eq_div unat_div)
  then have "pd_index a = 16" unfolding u using assms by simp
  have "pt_index a = unat a div 2 ^ 12 mod 1024"
    unfolding pt_index_def m by (simp flip: take_bit_eq_mask) (simp add: take_bit_eq_mod unat_mod drop_bit_eq_div unat_div)
  then have "pt_index a = (0x4000000 + k) div 4096 mod 1024" unfolding u by simp
  also have "\<dots> = (k div 4096 + 16 * 1024) mod 1024" by (rule arg_cong [where f = "\<lambda>x. x mod 1024"]) simp
  also have "\<dots> = k div 4096" unfolding mod_mult_self1 using assms by (intro mod_less) simp
  finally have "pt_index a < 5" using assms by simp
  then show "unat (0x4000000 + of_nat k :: addr) = 0x4000000 + k"
    "pd_index (0x4000000 + of_nat k) = 16" "pt_index (0x4000000 + of_nat k) < 5"
    using u \<open>pd_index a = 16\<close> unfolding a_def by blast+
qed

lemma cow_place_ok: "cow_layout_ok (cow_vm 7) 0x100000 cow_place"
proof -
  have small: "k < 20480" if "k \<in> set cow_offsets" for k using that by (auto simp: cow_offsets)
  have "mem (cow_vm 7) = cow_mem" using cow_vm_facts [of 7] by simp
  then have mapped: "user_addr (0x4000000 + of_nat k) \<and> byte_of (cow_vm 7) 0x100000 (0x4000000 + of_nat k) \<noteq> None"
    if "k < 20480" for k
    using cow_address(2,3) [OF that] by (simp add: user_addr_def byte_of_def cow_leaf slot_of_def user_slots_def)
  have "inj_on (\<lambda>k. (0x4000000 :: addr) + of_nat k) (set cow_offsets)"
  proof (rule inj_onI)
    fix j k
    assume jk: "j \<in> set cow_offsets" "k \<in> set cow_offsets" and e: "(0x4000000 :: addr) + of_nat j = 0x4000000 + of_nat k"
    show "j = k" using arg_cong [OF e, of unat] unfolding cow_address(1) [OF small [OF jk(1)]] cow_address(1) [OF small [OF jk(2)]] by simp
  qed
  then have "distinct (map fst (cow_stores cow_place 0))"
    unfolding cow_place_bytes distinct_map using cow_offsets(2) by blast
  moreover have "user_addr a \<and> byte_of (cow_vm 7) 0x100000 a \<noteq> None" if "(a, b) \<in> set (cow_stores cow_place 0)" for a b
  proof -
    have "a \<in> set (map fst (cow_stores cow_place 0))" using that by force
    then obtain k where "a = 0x4000000 + of_nat k" "k \<in> set cow_offsets" unfolding cow_place_bytes by auto
    then show ?thesis using mapped small by blast
  qed
  ultimately show ?thesis unfolding cow_layout_ok_def by blast
qed

text \<open>The child's stores alone, and its verdict.\<close>

theorem cow_test_passes_witness:
  "\<exists>c t u out. paging_clone_address_space 0x100000 (cow_vm 7) = (c, t) \<and>
     run_stores (map (Pair c) (cow_stores cow_place 222)) t = Some u \<and> cow_child u c cow_place = Some (out, 42)"
proof -
  obtain c t where t: "paging_clone_address_space 0x100000 (cow_vm 7) = (c, t)"
    "\<forall>k. \<forall>ops\<in>shuffles (map (Pair 0x100000) (take k (cow_stores cow_place 333))) (map (Pair c) (cow_stores cow_place 222)).
       \<exists>u out. run_stores ops t = Some u \<and> cow_child u c cow_place = Some (out, 42)"
    using cow_test_passes [OF cow_spaces _ cow_vm_forks cow_place_ok] by blast
  from t(2) [rule_format, of "map (Pair c) (cow_stores cow_place 222)" 0] t(1) show ?thesis by auto
qed

end
