(* ===== verification/Spec2Isabelle.thy ===== *)
theory Spec2Isabelle
  imports Ring Fork Heap Sync Task Keyboard Kronk Fat_Table Mouse Elf Devices Snake Editor Exec Desktop_Inv Desktop_App Mutex_Test Kernel User_Programs
begin

text \<open>
  A verification development for KRONKED OS, a 32-bit x86 hobby operating system in C: the kernel
  (\<open>kernel/\<close>) and the programs that run in ring 3 (\<open>userland/\<close>).

  \<^bold>\<open>The program and how its parts interact.\<close> \<open>kernel_main\<close> sets up the processor's tables, the frames,
  paging, the heap, the tasks, the disk and the screen, and becomes the shell. The frame allocator
  hands out 4 KiB physical frames with an 8-bit reference count each. Paging builds page directories
  and tables in such frames and uses the counts for copy-on-write \<open>fork\<close>. The kernel heap maps frames
  behind its end and carves them into blocks. The scheduler keeps its task structures and kernel
  stacks in the heap, and gives a dead task's directory back to paging. Mutexes put tasks to sleep
  through the scheduler, inside spinlocks that switch interrupts off. The keyboard interrupt fills a
  ring buffer; a task either reads it or has a queue of its own, which the desktop fills. The console
  writes to the screen or to the buffer a task has been redirected to. The FAT16 driver works on the
  ATA driver. The shell's commands use all of these: the editor and \<open>cat\<close> the files, \<open>run\<close> the ELF
  loader, \<open>kronk\<close> the interpreter, \<open>desktop\<close> the window manager. A program in ring 3 reaches the kernel
  by system calls and by page faults.

  \<^bold>\<open>Theories, and the code they model.\<close> A theory is built on the ones it imports.
  \<^item> \<open>Prelude\<close>: the machine words' names and general lemmas.
  \<^item> \<open>Ring\<close>: ring buffers as lists (no code of its own), and the interface \<open>bounded_fifo\<close> of a queue,
    which \<open>Task\<close> and \<open>Keyboard\<close> interpret on their buffers.
  \<^item> \<open>Memory\<close>: byte-addressed physical memory, little-endian words, tables of 1024 entries, and the
    interface \<open>entry_store\<close>.
  \<^item> \<open>Pmm\<close>: \<open>pmm.c\<close>. The bitmap is a map from word indices, the counts a map from frames; the
    interface \<open>frame_pool\<close> states what its clients rely on.
  \<^item> \<open>Paging\<close>: \<open>paging.c\<close> on \<open>Pmm\<close> and \<open>Memory\<close>: directories and tables are bytes in memory, CR0
    and CR3 fields of the state. \<open>Fork\<close>: what cloning and tearing down an address space do to all
    of its pages and to the reference counts. \<open>Isolation\<close>: all address spaces together refine one
    memory per process.
  \<^item> \<open>Heap\<close>: \<open>heap.c\<close>, block headers by address, growing through \<open>Pmm\<close> and \<open>Paging\<close>.
  \<^item> \<open>Sync\<close>: \<open>spinlock.c\<close> and \<open>mutex.c\<close>; the tasks that share a mutex are a step relation whose
    steps are the interrupt-free sections of the code. \<open>Mutex_Test\<close>: the two tasks of the shell's
    \<open>mutextest\<close>, at the level of single loads and stores.
  \<^item> \<open>Task\<close>: \<open>task.c\<close>, the task ring by address, on \<open>Heap\<close>. \<open>Timer\<close>: \<open>timer.c\<close>. \<open>Keyboard\<close>: \<open>keyboard.c\<close>.
  \<^item> \<open>Fb\<close>: \<open>fb.c\<close> and the font. \<open>Vga\<close>: \<open>vga.c\<close> on \<open>Task\<close> and \<open>Fb\<close>. \<open>Input\<close>: the line input that
    \<open>shell.c\<close> and \<open>editor.c\<close> share, with the interrupts as a list of events.
  \<^item> \<open>Ata\<close>: \<open>ata.c\<close> on a parameter for the I/O ports; the PIO drive it expects is an instance of that
    parameter, and the interface \<open>sector_store\<close> says what the driver achieves on it.
  \<^item> \<open>Fat16\<close> and \<open>Fat_Table\<close>: \<open>fat16.c\<close>, proved in \<open>sector_store\<close> and brought to the drive by its
    interpretation.
  \<^item> \<open>Mouse\<close>: \<open>mouse.c\<close> on the same ports; the interrupt handler is a step per byte.
  \<^item> \<open>Elf\<close>: \<open>elf.c\<close> on \<open>Fork\<close>; the image is read from memory as often as the code reads it.
  \<^item> \<open>Cpu_Tables\<close>: \<open>gdt.c\<close> and \<open>idt.c\<close>, with the processor's reading of a descriptor as the abstract
    side. \<open>Devices\<close>: \<open>serial.c\<close>, \<open>vbe.c\<close>, \<open>pci.c\<close>, \<open>cpuinfo.c\<close> and \<open>gui.c\<close>.
  \<^item> \<open>Kronk\<close>: \<open>kronk.c\<close>. \<open>Snake_Food\<close> and \<open>Snake\<close>: \<open>snake.c\<close>.
  \<^item> \<open>Machine\<close>: the state of the whole kernel as one record, and what it is given from outside (ports,
    assembly stubs).
  \<^item> \<open>Editor\<close>: \<open>editor.c\<close>. \<open>Syscall\<close> and \<open>Process_Calls\<close>: \<open>syscall.c\<close>, the handler of \<open>int 0x80\<close> and
    \<open>SYS_FORK\<close>; \<open>Loading\<close> and \<open>Exec\<close>: what loading a program cannot touch, and \<open>SYS_EXEC\<close> among the
    processes of \<open>Isolation\<close>. \<open>Desktop\<close> and \<open>Desktop_Inv\<close>: \<open>desktop.c\<close> and its invariant.
  \<^item> \<open>Shell\<close>: \<open>shell.c\<close> and \<open>banner.c\<close>, every command; \<open>Shell_Session\<close>: lines typed at the prompt.
    \<open>Kernel\<close>: \<open>kernel.c\<close>, booting.
  \<^item> \<open>Desktop_App\<close>: \<open>userland/desktop_app.c\<close>. \<open>User_Programs\<close>: \<open>userland/user_program.c\<close>,
    \<open>userland/fork_demo.c\<close> and \<open>userland/cow_test.c\<close>.

  A function's name is the code's; a loop of a function has a definition of its own, named after
  it. A state is a record with a field per static variable, extended from theory to theory as the
  components build on each other (\<open>vm\<close> from \<open>pmm\<close>, \<open>heap\<close> from \<open>vm\<close>, \<open>sched\<close> from \<open>heap\<close>, \<open>timed\<close>, \<open>kbd\<close>
  and \<open>console\<close> in turn, then \<open>gui\<close>, \<open>machine\<close>, \<open>desk\<close>, \<open>shell\<close> and the kernel's own).

  \<^bold>\<open>What the theorems show.\<close>
  \<^item> Booting (C1): \<open>kernel_main\<close> establishes the invariants of frames, heap and tasks, and the shell
    then answers the typed lines.
  \<^item> Separate memories (C2, C7): with copy-on-write, page faults and shared frames, each process has
    a memory of its own; so \<open>cow_test.c\<close> passes under every interleaving of its two processes.
  \<^item> Frames and paging (C3 to C6, C8): allocation takes the lowest free frame, references are counted modulo 256, a fault on a shared page copies it, \<open>fork\<close> shares every page; a directory that shares a kernel
    table loses it in teardown.
  \<^item> Heap (C9 to C11): allocation, first fit, release with merging.
  \<^item> Concurrency and tasks (C12 to C15): mutual exclusion over every interleaving, round robin, exit,
    and the typed characters that reach their reader.
  \<^item> KRONK (C16 to C18): numbers print and parse back, parsing always returns, expressions have their
    conventional value.
  \<^item> Disk and files (C19 to C21): sectors read back as written, files read as their cluster chain,
    allocating a cluster keeps the copies of the table equal.
  \<^item> Console, executables, mouse, interrupts (C22 to C25): the console stays inside its arrays, a loaded
    image reads through its directory as the file says, the pointer follows what the mouse reports, every
    vector leads to its stub and only the system call is open to user code.
  \<^item> Snake and editor (C26 to C28): the food generator finds a free cell, a move keeps the snake well
    formed, an editor session stores the lines typed.
  \<^item> System calls (C29 to C32): the child of a fork resumes like its parent; a failed exec changes
    nothing, and one that succeeds replaces the caller's memory and nobody else's; the kernel's writes to user pointers ignore copy-on-write protection,
    reading without waiting.
  \<^item> Desktop (C33 to C35): the window order is a list, every frame keeps the window manager's
    invariant, keys go to the frontmost window.
  \<^item> The mutex test (C36, C37): no increment is lost, but the command may hang.
  \<^item> The ring-3 desktop (C38 to C40): its drawing is the kernel's, except for rectangles that end off
    the screen; a session keeps its window tables sound.
  \<^item> Further lemmas of the component theories, stated like the properties: what allocation does when
    nothing is free, releasing, mapping a page, teardown, reclaiming a page, running out of memory,
    task creation and waiting, the lost wake-ups, drawing inside the screen, the descriptors, and the
    drivers on models of their devices.

  \<^bold>\<open>Loops, bounds and fuel.\<close> A loop that may not end (walking a heap list, the task ring, a cluster
  chain, the scan for a free cluster, waiting for a lock) is a partial function into an option, and
  the theorems prove that it returns. A task that waits for interrupts consumes a list of events.
  The expression parser has a fuel; \<open>parse_fuel\<close> of it is three calls per character and three more,
  and C17 shows that this is enough on every text. A \<open>PRINT\<close> has one round per character at most.
  Integers have the width the code gives them wherever they can wrap; task ids, exit codes and screen
  coordinates in text mode are unbounded.

  \<^bold>\<open>Interrupts and devices.\<close> One processor. A function that runs with interrupts off is one step. The
  TLB is not modelled; kernel accesses to a frame go through the identity mapping, so a table or
  directory beyond the 64 MiB that are identity-mapped is outside the model. The heap's blocks are a
  memory of their own, beside the physical memory that page tables and user pages live in; only the
  file \<open>SYS_EXEC\<close> reads is put into physical memory, at the address of its block, so its property asks
  that no process owns the frames at the heap's addresses (\<open>kernel_apart\<close>). A user access needs a
  present page and, to write, a writable one; the user bit of an entry and the flags of the directory's
  entry are not tested. The kernel's stores to user pages follow CR0 as it is set, without write protection in ring 0. The
  framebuffer a program has mapped is outside of the invariant of \<open>Isolation\<close>, whose pages are all
  frames of the allocator.

  \<^bold>\<open>Not modelled.\<close> The boot loader, the interrupt stubs, the context switch and the call stubs of the
  user programs are assembly. The log on the serial port and the interrupt flag are left out
  everywhere. The scripts under \<open>tools/\<close> generate the font and cursor
  tables when the kernel is built.
\<close>

end
